(* ===== verification/Prelude.thy ===== *)
theory Prelude
  imports Main "HOL-Library.Word"
begin

text \<open>
  Shared vocabulary of the development: the C integer types as words, \<open>ereport(ERROR, ...)\<close>
  as a value of a result type, the shapes of C loops as executable combinators, and the lemmas
  on lists, loops and words that the component theories share.
\<close>

unbundle bit_operations_syntax

section \<open>Types\<close>

type_synonym uint8 = "8 word"
type_synonym uint16 = "16 word"
type_synonym uint32 = "32 word"
type_synonym uint64 = "64 word"

text \<open>
  \<open>ereport(ERROR, (errcode(c), ...))\<close> does not return: it unwinds to the caller's handler. The
  model returns \<open>Inl c\<close>. \<open>ERRCODE_INTERNAL_ERROR\<close> stands for \<open>elog(ERROR, ...)\<close>.
\<close>

datatype errcode =
    ERRCODE_INTERNAL_ERROR
  | ERRCODE_DATA_EXCEPTION
  | ERRCODE_UNEXPECTED_NULL_VALUE
  | ERRCODE_INVALID_PARAMETER_VALUE
  | ERRCODE_DATATYPE_MISMATCH
  | ERRCODE_NO_DATA_FOUND
  | ERRCODE_T_R_SERIALIZATION_FAILURE

type_synonym 'a result = "errcode + 'a"

section \<open>Loops\<close>

text \<open>
  \<open>for (i = lo; i < hi; i++) s = f(i, s)\<close>; a loop whose body only tests and returns
  (\<open>for (...) if (P(i)) return ...\<close>); and a loop whose body updates a state and may return from
  the enclosing function: \<open>Inl s\<close> continues with state \<open>s\<close>, \<open>Inr r\<close> returns \<open>r\<close>.
\<close>

definition for_range :: "nat \<Rightarrow> nat \<Rightarrow> (nat \<Rightarrow> 's \<Rightarrow> 's) \<Rightarrow> 's \<Rightarrow> 's" where
  "for_range lo hi f s = fold f [lo..<hi] s"

definition for_any :: "nat \<Rightarrow> nat \<Rightarrow> (nat \<Rightarrow> bool) \<Rightarrow> bool" where
  "for_any lo hi P = list_ex P [lo..<hi]"

primrec for_ret :: "nat list \<Rightarrow> (nat \<Rightarrow> 's \<Rightarrow> 's + 'r) \<Rightarrow> 's \<Rightarrow> 's + 'r" where
  "for_ret [] f s = Inl s"
| "for_ret (i # is) f s = (case f i s of Inl s' \<Rightarrow> for_ret is f s' | Inr r \<Rightarrow> Inr r)"

named_theorems loop_simps \<open>what the loop combinators compute\<close>

lemma for_any_iff [loop_simps]: "for_any lo hi P \<longleftrightarrow> (\<exists>i. lo \<le> i \<and> i < hi \<and> P i)"
  by (auto simp: for_any_def list_ex_iff)

lemma for_range_empty [simp]: "hi \<le> lo \<Longrightarrow> for_range lo hi f s = s"
  by (simp add: for_range_def)

lemma for_range_Suc: "lo \<le> hi \<Longrightarrow> for_range lo (Suc hi) f s = f hi (for_range lo hi f s)"
  by (simp add: for_range_def)

text \<open>A loop that rewrites one array cell per iteration.\<close>

lemma length_for_range_upd [loop_simps]:
  "length (for_range lo hi (\<lambda>i xs. xs[i := g i (xs ! i)]) xs) = length xs"
proof (cases "lo \<le> hi")
  case True
  then show ?thesis
    by (induction hi rule: dec_induct) (simp_all add: for_range_Suc)
qed simp

lemma nth_for_range_upd [loop_simps]:
  assumes "j < length xs"
  shows "for_range lo hi (\<lambda>i xs. xs[i := g i (xs ! i)]) xs ! j =
     (if lo \<le> j \<and> j < hi then g j (xs ! j) else xs ! j)"
proof (cases "lo \<le> hi")
  case True
  then show ?thesis
    using assms
    by (induction hi rule: dec_induct)
      (auto simp: for_range_Suc length_for_range_upd nth_list_update less_Suc_eq)
qed auto

lemma for_ret_append:
  "for_ret (xs @ ys) f s =
     (case for_ret xs f s of Inl s' \<Rightarrow> for_ret ys f s' | Inr r \<Rightarrow> Inr r)"
  by (induction xs arbitrary: s) (auto split: sum.splits)

text \<open>
  The loop rule: an invariant that every continuing iteration keeps and that entails the
  postcondition wherever an iteration returns.
\<close>

lemma for_ret_invariant:
  assumes "Inv lo s"
    and "\<And>i s. lo \<le> i \<Longrightarrow> i < hi \<Longrightarrow> Inv i s \<Longrightarrow>
           (case f i s of Inl s' \<Rightarrow> Inv (Suc i) s' | Inr r \<Rightarrow> Q r)"
    and "lo \<le> hi"
  shows "case for_ret [lo..<hi] f s of Inl s' \<Rightarrow> Inv hi s' | Inr r \<Rightarrow> Q r"
  using assms(3,2)
proof (induction hi rule: dec_induct)
  case base
  then show ?case using assms(1) by simp
next
  case (step n)
  have "case for_ret [lo..<n] f s of Inl s' \<Rightarrow> Inv n s' | Inr r \<Rightarrow> Q r"
    by (rule step.IH) (simp add: step.prems)
  then show ?case
    using step.hyps step.prems [of n]
    by (force simp: for_ret_append split: sum.splits)
qed

section \<open>Words\<close>

lemma word_nonzero_iff:
  fixes w :: "'a::len word"
  shows "w \<noteq> 0 \<longleftrightarrow> (\<exists>n. bit w n)"
  by (auto simp: bit_eq_iff dest: bit_imp_le_length)

lemma unat_drop_bit_less:
  fixes w :: "'a::len word"
  assumes "w \<noteq> 0" and "0 < n"
  shows "unat (drop_bit n w) < unat w"
proof -
  from assms(1) have "0 < unat w" by (simp add: unat_gt_0)
  moreover from assms(2) have "1 < (2::nat) ^ n" by (rule one_less_power [rotated]) simp
  ultimately have "unat w div 2 ^ n < unat w" by (rule div_less_dividend [rotated])
  then show ?thesis by (subst unat_drop_bit_eq) (simp add: drop_bit_eq_div)
qed

lemma bit_nat_less: "bit (k :: nat) m \<Longrightarrow> m < k"
proof -
  assume "bit k m"
  then have "odd (k div 2 ^ m)" by (simp add: bit_iff_odd)
  then have "2 ^ m \<le> k" by (metis div_less even_zero not_le)
  with less_exp show ?thesis by (rule less_le_trans)
qed

lemma finite_bits_nat [simp]: "finite {m. bit (k :: nat) m}"
  by (rule finite_subset [of _ "{..< k}"]) (auto dest: bit_nat_less)

lemma bit_index_less: "bit (w :: uint64) n \<Longrightarrow> n < 64"
  by (drule bit_imp_le_length) simp

lemma unat_plus_one:
  fixes x y :: "'a::len word"
  assumes "x < y"
  shows "unat (x + 1) = unat x + 1"
proof -
  have "unat x < unat y" using assms by (simp add: word_less_nat_alt)
  moreover have "unat y < 2 ^ LENGTH('a)" by (rule unsigned_less)
  ultimately have "unat x + 1 < 2 ^ LENGTH('a)" by linarith
  then show ?thesis by (simp add: unat_word_ariths)
qed

lemma unat_of_nat32: "w = of_nat n \<Longrightarrow> n < 2 ^ 32 \<Longrightarrow> unat (w :: uint32) = n"
  by (simp add: unat_of_nat)

end
