(* ===== verification/Bitutils.thy ===== *)
theory Bitutils
  imports Prelude
begin

text \<open>
  The bit-twiddling helpers of \<open>src/common/port/pg_bitutils.cpp\<close> and
  \<open>src/include/port/pg_bitutils.h\<close>, in the portable branch of each \<open>#ifdef\<close> (the other branches
  are compiler intrinsics). The byte tables are transcribed; the lemmas show that the byte loops
  compute the position of the lowest or highest one-bit and the number of one-bits.
\<close>

section \<open>Tables\<close>

definition pg_leftmost_one_pos :: "nat list" where
  "pg_leftmost_one_pos = [
    0, 0, 1, 1, 2, 2, 2, 2, 3, 3, 3, 3, 3, 3, 3, 3, 4, 4, 4, 4, 4, 4, 4, 4, 4, 4, 4, 4, 4, 4, 4, 4,
    5, 5, 5, 5, 5, 5, 5, 5, 5, 5, 5, 5, 5, 5, 5, 5, 5, 5, 5, 5, 5, 5, 5, 5, 5, 5, 5, 5, 5, 5, 5, 5,
    6, 6, 6, 6, 6, 6, 6, 6, 6, 6, 6, 6, 6, 6, 6, 6, 6, 6, 6, 6, 6, 6, 6, 6, 6, 6, 6, 6, 6, 6, 6, 6,
    6, 6, 6, 6, 6, 6, 6, 6, 6, 6, 6, 6, 6, 6, 6, 6, 6, 6, 6, 6, 6, 6, 6, 6, 6, 6, 6, 6, 6, 6, 6, 6,
    7, 7, 7, 7, 7, 7, 7, 7, 7, 7, 7, 7, 7, 7, 7, 7, 7, 7, 7, 7, 7, 7, 7, 7, 7, 7, 7, 7, 7, 7, 7, 7,
    7, 7, 7, 7, 7, 7, 7, 7, 7, 7, 7, 7, 7, 7, 7, 7, 7, 7, 7, 7, 7, 7, 7, 7, 7, 7, 7, 7, 7, 7, 7, 7,
    7, 7, 7, 7, 7, 7, 7, 7, 7, 7, 7, 7, 7, 7, 7, 7, 7, 7, 7, 7, 7, 7, 7, 7, 7, 7, 7, 7, 7, 7, 7, 7,
    7, 7, 7, 7, 7, 7, 7, 7, 7, 7, 7, 7, 7, 7, 7, 7, 7, 7, 7, 7, 7, 7, 7, 7, 7, 7, 7, 7, 7, 7, 7, 7]"

definition pg_rightmost_one_pos :: "nat list" where
  "pg_rightmost_one_pos = [
    0, 0, 1, 0, 2, 0, 1, 0, 3, 0, 1, 0, 2, 0, 1, 0, 4, 0, 1, 0, 2, 0, 1, 0, 3, 0, 1, 0, 2, 0, 1, 0,
    5, 0, 1, 0, 2, 0, 1, 0, 3, 0, 1, 0, 2, 0, 1, 0, 4, 0, 1, 0, 2, 0, 1, 0, 3, 0, 1, 0, 2, 0, 1, 0,
    6, 0, 1, 0, 2, 0, 1, 0, 3, 0, 1, 0, 2, 0, 1, 0, 4, 0, 1, 0, 2, 0, 1, 0, 3, 0, 1, 0, 2, 0, 1, 0,
    5, 0, 1, 0, 2, 0, 1, 0, 3, 0, 1, 0, 2, 0, 1, 0, 4, 0, 1, 0, 2, 0, 1, 0, 3, 0, 1, 0, 2, 0, 1, 0,
    7, 0, 1, 0, 2, 0, 1, 0, 3, 0, 1, 0, 2, 0, 1, 0, 4, 0, 1, 0, 2, 0, 1, 0, 3, 0, 1, 0, 2, 0, 1, 0,
    5, 0, 1, 0, 2, 0, 1, 0, 3, 0, 1, 0, 2, 0, 1, 0, 4, 0, 1, 0, 2, 0, 1, 0, 3, 0, 1, 0, 2, 0, 1, 0,
    6, 0, 1, 0, 2, 0, 1, 0, 3, 0, 1, 0, 2, 0, 1, 0, 4, 0, 1, 0, 2, 0, 1, 0, 3, 0, 1, 0, 2, 0, 1, 0,
    5, 0, 1, 0, 2, 0, 1, 0, 3, 0, 1, 0, 2, 0, 1, 0, 4, 0, 1, 0, 2, 0, 1, 0, 3, 0, 1, 0, 2, 0, 1, 0]"

definition pg_number_of_ones :: "nat list" where
  "pg_number_of_ones = [
    0, 1, 1, 2, 1, 2, 2, 3, 1, 2, 2, 3, 2, 3, 3, 4, 1, 2, 2, 3, 2, 3, 3, 4, 2, 3, 3, 4, 3, 4, 4, 5,
    1, 2, 2, 3, 2, 3, 3, 4, 2, 3, 3, 4, 3, 4, 4, 5, 2, 3, 3, 4, 3, 4, 4, 5, 3, 4, 4, 5, 4, 5, 5, 6,
    1, 2, 2, 3, 2, 3, 3, 4, 2, 3, 3, 4, 3, 4, 4, 5, 2, 3, 3, 4, 3, 4, 4, 5, 3, 4, 4, 5, 4, 5, 5, 6,
    2, 3, 3, 4, 3, 4, 4, 5, 3, 4, 4, 5, 4, 5, 5, 6, 3, 4, 4, 5, 4, 5, 5, 6, 4, 5, 5, 6, 5, 6, 6, 7,
    1, 2, 2, 3, 2, 3, 3, 4, 2, 3, 3, 4, 3, 4, 4, 5, 2, 3, 3, 4, 3, 4, 4, 5, 3, 4, 4, 5, 4, 5, 5, 6,
    2, 3, 3, 4, 3, 4, 4, 5, 3, 4, 4, 5, 4, 5, 5, 6, 3, 4, 4, 5, 4, 5, 5, 6, 4, 5, 5, 6, 5, 6, 6, 7,
    2, 3, 3, 4, 3, 4, 4, 5, 3, 4, 4, 5, 4, 5, 5, 6, 3, 4, 4, 5, 4, 5, 5, 6, 4, 5, 5, 6, 5, 6, 6, 7,
    3, 4, 4, 5, 4, 5, 5, 6, 4, 5, 5, 6, 5, 6, 6, 7, 4, 5, 5, 6, 5, 6, 6, 7, 5, 6, 6, 7, 6, 7, 7, 8]"

section \<open>Loops over the bytes of a word\<close>

text \<open>
  \<open>while ((word & 255) == 0) { word >>= 8; result += 8; }\<close> does not end on zero, which the code
  excludes by \<open>Assert(word != 0)\<close>; the first conjunct of the guard makes the function total and is
  never false where the assertion holds (\<open>rightmost_loop_spec\<close>).
\<close>

function rightmost_loop :: "'a::len word \<Rightarrow> nat \<Rightarrow> nat" where
  "rightmost_loop word result =
     (if word \<noteq> 0 \<and> word AND 255 = 0 then rightmost_loop (drop_bit 8 word) (result + 8)
      else result + pg_rightmost_one_pos ! unat (word AND 255))"
  by pat_completeness auto
termination
  by (relation "measure (\<lambda>(w, r). unat w)") (auto intro: unat_drop_bit_less)

declare rightmost_loop.simps [simp del]

definition pg_rightmost_one_pos64 :: "uint64 \<Rightarrow> nat" where
  "pg_rightmost_one_pos64 word = rightmost_loop word 0"

definition pg_rightmost_one_pos32 :: "uint32 \<Rightarrow> nat" where
  "pg_rightmost_one_pos32 word = rightmost_loop word 0"

text \<open>\<open>while (word != 0) { result += pg_number_of_ones[word & 255]; word >>= 8; }\<close>\<close>

function popcount_loop :: "'a::len word \<Rightarrow> nat \<Rightarrow> nat" where
  "popcount_loop word result =
     (if word \<noteq> 0
      then popcount_loop (drop_bit 8 word) (result + pg_number_of_ones ! unat (word AND 255))
      else result)"
  by pat_completeness auto
termination
  by (relation "measure (\<lambda>(w, r). unat w)") (auto intro: unat_drop_bit_less)

declare popcount_loop.simps [simp del]

definition pg_popcount64_slow :: "uint64 \<Rightarrow> nat" where
  "pg_popcount64_slow word = popcount_loop word 0"

definition pg_popcount32_slow :: "uint32 \<Rightarrow> nat" where
  "pg_popcount32_slow word = popcount_loop word 0"

section \<open>What the tables hold\<close>

text \<open>The same counts by recursion on the bits of a number, against which the tables are checked.\<close>

fun ctz_nat :: "nat \<Rightarrow> nat" where
  "ctz_nat n = (if n = 0 then 0 else if even n then 1 + ctz_nat (n div 2) else 0)"

fun clog_nat :: "nat \<Rightarrow> nat" where
  "clog_nat n = (if n < 2 then 0 else 1 + clog_nat (n div 2))"

fun ones_nat :: "nat \<Rightarrow> nat" where
  "ones_nat n = (if n = 0 then 0 else n mod 2 + ones_nat (n div 2))"

declare ctz_nat.simps [simp del] clog_nat.simps [simp del] ones_nat.simps [simp del]

lemma upt_256: "[0..<256] = 0 # 1 # [2..<256]"
  by (simp add: upt_rec)

lemma table_rightmost: "pg_rightmost_one_pos = map ctz_nat [0..<256]"
  by (simp add: pg_rightmost_one_pos_def upt_256 upt_rec_numeral ctz_nat.simps)

lemma table_leftmost: "pg_leftmost_one_pos = map clog_nat [0..<256]"
  by (simp add: pg_leftmost_one_pos_def upt_256 upt_rec_numeral clog_nat.simps)

lemma table_ones: "pg_number_of_ones = map ones_nat [0..<256]"
  by (simp add: pg_number_of_ones_def upt_256 upt_rec_numeral ones_nat.simps)

lemma ctz_nat_spec: "0 < n \<Longrightarrow> bit n (ctz_nat n) \<and> (\<forall>m < ctz_nat n. \<not> bit n m)"
proof (induction n rule: ctz_nat.induct)
  case (1 n)
  show ?case
  proof (cases "even n")
    case True
    with 1 have "bit (n div 2) (ctz_nat (n div 2)) \<and> (\<forall>m < ctz_nat (n div 2). \<not> bit (n div 2) m)"
      by auto
    with True "1.prems" show ?thesis
      by (auto simp: ctz_nat.simps [of n] bit_Suc less_Suc_eq_0_disj bit_0)
  next
    case False
    then show ?thesis by (auto simp: ctz_nat.simps [of n] bit_0 elim: oddE)
  qed
qed

lemma ones_nat_card: "ones_nat n = card {m. bit n m}"
proof (induction n rule: ones_nat.induct)
  case (1 n)
  show ?case
  proof (cases "n = 0")
    case True
    then show ?thesis by (simp add: ones_nat.simps)
  next
    case False
    have split: "{m. bit n m} = (if odd n then {0} else {}) \<union> Suc ` {m. bit (n div 2) m}"
      by (auto simp: bit_Suc bit_0 image_iff) (metis bit_0 bit_Suc not0_implies_Suc)+
    show ?thesis
      using 1 False
      by (subst ones_nat.simps, subst split) (auto simp: card_image card_insert_if odd_iff_mod_2_eq_one)
  qed
qed

lemma clog_nat_spec: "0 < n \<Longrightarrow> bit n (clog_nat n) \<and> (\<forall>m > clog_nat n. \<not> bit n m)"
proof (induction n rule: clog_nat.induct)
  case (1 n)
  show ?case
  proof (cases "n < 2")
    case True
    with "1.prems" have "n = 1" by simp
    then show ?thesis by (auto simp: clog_nat.simps bit_0 bit_Suc gr0_conv_Suc)
  next
    case False
    with 1 have "bit (n div 2) (clog_nat (n div 2)) \<and> (\<forall>m > clog_nat (n div 2). \<not> bit (n div 2) m)"
      by auto
    with False show ?thesis
      by (auto simp: clog_nat.simps [of n] bit_Suc Suc_less_eq2)
  qed
qed

section \<open>What the loops compute\<close>

lemma and_255: "w AND 255 = take_bit 8 w" for w :: "'a::len word"
  by (simp add: take_bit_eq_mask mask_eq_exp_minus_1)

lemma unat_and_255_less: "unat (w AND 255) < 256" for w :: "'a::len word"
proof -
  have "unat (take_bit 8 w) = take_bit 8 (unat w)"
    by (rule unsigned_take_bit_eq)
  then show ?thesis
    using take_bit_nat_less_exp [of 8 "unat w"] by (simp add: and_255)
qed

lemma bit_unat_and_255: "bit (unat (w AND 255)) n \<longleftrightarrow> n < 8 \<and> bit w n" for w :: "'a::len word"
  by (simp add: and_255 unsigned_take_bit_eq bit_take_bit_iff bit_unsigned_iff)

lemma rightmost_loop_spec:
  assumes "w \<noteq> 0"
  shows "\<exists>k. rightmost_loop w r = r + k \<and> bit w k \<and> (\<forall>m < k. \<not> bit w m)"
  using assms
proof (induction w r rule: rightmost_loop.induct)
  case (1 w r)
  show ?case
  proof (cases "w AND 255 = 0")
    case True
    then have low: "\<not> bit w m" if "m < 8" for m
      using that bit_unat_and_255 [of w m] by simp
    have "drop_bit 8 w \<noteq> 0"
      using "1.prems" low by (metis bit_drop_bit_eq bit_eqI le_add_diff_inverse not_le word_nonzero_iff comp_apply)
    with 1 True obtain k where
      k: "rightmost_loop (drop_bit 8 w) (r + 8) = r + 8 + k" "bit (drop_bit 8 w) k"
        "\<forall>m < k. \<not> bit (drop_bit 8 w) m"
      by auto
    have "rightmost_loop w r = r + (8 + k)"
      using True "1.prems" k(1) by (simp add: rightmost_loop.simps [of w])
    moreover have "bit w (8 + k)"
      using k(2) by (simp add: bit_drop_bit_eq)
    moreover have "\<not> bit w m" if "m < 8 + k" for m
    proof (cases "m < 8")
      case True then show ?thesis by (rule low)
    next
      case False
      with that k(3) have "\<not> bit (drop_bit 8 w) (m - 8)" by auto
      with False show ?thesis by (simp add: bit_drop_bit_eq)
    qed
    ultimately show ?thesis by blast
  next
    case False
    let ?n = "unat (w AND 255)"
    from False have "0 < ?n" by (simp add: unat_gt_0)
    then have "bit ?n (ctz_nat ?n) \<and> (\<forall>m < ctz_nat ?n. \<not> bit ?n m)"
      by (rule ctz_nat_spec)
    moreover have "rightmost_loop w r = r + ctz_nat ?n"
      using False unat_and_255_less [of w]
      by (simp add: rightmost_loop.simps [of w] table_rightmost)
    ultimately show ?thesis
      by (metis bit_unat_and_255 less_trans)
  qed
qed

lemma bits_split_8:
  "{m. bit w m} = {m. bit (unat (w AND 255)) m} \<union> (+) 8 ` {m. bit (drop_bit 8 w) m}"
  for w :: "'a::len word"
proof -
  have "bit w m \<longleftrightarrow> (m < 8 \<and> bit w m) \<or> (\<exists>j. m = 8 + j \<and> bit (drop_bit 8 w) j)" for m
    by (cases "m < 8") (auto simp: bit_drop_bit_eq dest: le_Suc_ex [OF leI])
  then show ?thesis
    by (auto simp: bit_unat_and_255)
qed

lemma finite_bits_word [simp]: "finite {m. bit w m}" for w :: "'a::len word"
  by (rule finite_subset [of _ "{..< LENGTH('a)}"]) (auto dest: bit_imp_le_length)

lemma popcount_loop_spec: "popcount_loop w r = r + card {m. bit w m}"
proof (induction w r rule: popcount_loop.induct)
  case (1 w r)
  show ?case
  proof (cases "w = 0")
    case True
    then show ?thesis by (simp add: popcount_loop.simps)
  next
    case False
    let ?low = "{m. bit (unat (w AND 255)) m}" and ?high = "(+) 8 ` {m. bit (drop_bit 8 w) m}"
    have "?low \<inter> ?high = {}" by (auto simp: bit_unat_and_255)
    then have "card {m. bit w m} = card ?low + card ?high"
      unfolding bits_split_8 [of w] by (intro card_Un_disjoint) auto
    moreover have "card ?high = card {m. bit (drop_bit 8 w) m}"
      by (rule card_image) simp
    moreover have "pg_number_of_ones ! unat (w AND 255) = card ?low"
      using unat_and_255_less [of w] by (simp add: table_ones ones_nat_card)
    ultimately show ?thesis
      using 1 False by (simp add: popcount_loop.simps [of w])
  qed
qed

lemma pg_rightmost_one_pos64_spec:
  assumes "w \<noteq> 0"
  shows "bit w (pg_rightmost_one_pos64 w)" and "m < pg_rightmost_one_pos64 w \<Longrightarrow> \<not> bit w m"
  using rightmost_loop_spec [OF assms, of 0] by (auto simp: pg_rightmost_one_pos64_def)

lemma pg_rightmost_one_pos64_less: "w \<noteq> 0 \<Longrightarrow> pg_rightmost_one_pos64 w < 64"
  using pg_rightmost_one_pos64_spec(1) by (rule bit_index_less)

lemma pg_rightmost_one_pos64_eqI:
  assumes "bit w k" and "\<And>m. m < k \<Longrightarrow> \<not> bit w m"
  shows "pg_rightmost_one_pos64 w = k"
  using assms pg_rightmost_one_pos64_spec [of w] by (metis bit_0_eq bot_apply bot_bool_def linorder_less_linear)

lemma pg_popcount64_slow_spec: "pg_popcount64_slow w = card {m. bit w m}"
  by (simp add: pg_popcount64_slow_def popcount_loop_spec)

end
