(* ===== verification/Set_Interface.thy ===== *)
theory Set_Interface
  imports Prelude
begin

text \<open>
  What the planner and executor rely on when they use a set of attribute or relation numbers: the
  operations on sets of naturals with the abstraction \<open>\<alpha>\<close>, and the iteration idiom
  \<^verbatim>\<open>x = -1; while ((x = next_member(set, x)) >= 0) process(x);\<close>.
  The laws are the locales' assumptions, the clients' lemmas are proved inside them, and
  \<open>Bitmapsets\<close> interprets both on the bitmap set package.
\<close>

text \<open>
  The iteration idiom over any \<open>next\<close> operation, with the members processed in order; fuel bounds
  the number of calls, \<open>None\<close> is an exhausted fuel or an error.
\<close>

primrec iterate_members :: "('s \<Rightarrow> int \<Rightarrow> int result) \<Rightarrow> nat \<Rightarrow> 's \<Rightarrow> int \<Rightarrow> int list option" where
  "iterate_members nxt 0 s x = None"
| "iterate_members nxt (Suc fuel) s x =
     (case nxt s x of
        Inl _ \<Rightarrow> None
      | Inr y \<Rightarrow> (if y \<ge> 0 then map_option ((#) y) (iterate_members nxt fuel s y) else Some []))"

text \<open>Adding the members of a list one by one, stopping at the first error.\<close>

primrec add_all :: "('s \<Rightarrow> int \<Rightarrow> 's result) \<Rightarrow> 's \<Rightarrow> int list \<Rightarrow> 's result" where
  "add_all add s [] = Inr s"
| "add_all add s (x # xs) = (case add s x of Inl e \<Rightarrow> Inl e | Inr s' \<Rightarrow> add_all add s' xs)"

locale set_iteration =
  fixes \<alpha> :: "'s \<Rightarrow> nat set"
    and nxt :: "'s \<Rightarrow> int \<Rightarrow> int result"
  assumes finite_abs: "finite (\<alpha> s)"
    and nxt_eq: "-1 \<le> x \<Longrightarrow>
      nxt s x = Inr (if \<exists>n \<in> \<alpha> s. x < int n then int (Min {n \<in> \<alpha> s. x < int n}) else -2)"
begin

lemma iterate_from:
  assumes "-1 \<le> x" and "card {n \<in> \<alpha> s. x < int n} < fuel"
  shows "iterate_members nxt fuel s x = Some (map int (sorted_list_of_set {n \<in> \<alpha> s. x < int n}))"
  using assms
proof (induction fuel arbitrary: x)
  case (Suc fuel)
  let ?A = "{n \<in> \<alpha> s. x < int n}"
  have fin: "finite ?A" using finite_abs by simp
  show ?case
  proof (cases "?A = {}")
    case True
    then have "\<not> (\<exists>n \<in> \<alpha> s. x < int n)" by blast
    then have "nxt s x = Inr (-2)" using nxt_eq [OF Suc.prems(1), of s] by simp
    then show ?thesis by (simp add: True)
  next
    case False
    let ?m = "Min ?A"
    have m: "?m \<in> ?A" using fin False by (rule Min_in)
    have rest: "{n \<in> \<alpha> s. int ?m < int n} = ?A - {?m}"
      using m fin by (auto simp: order_less_le dest: Min_le)
    have "card (?A - {?m}) < fuel"
      using Suc.prems(2) fin m card_Diff1_less [OF fin m] by linarith
    then have "iterate_members nxt fuel s (int ?m) = Some (map int (sorted_list_of_set (?A - {?m})))"
      using Suc.IH [of "int ?m"] unfolding rest by simp
    moreover have "sorted_list_of_set ?A = ?m # sorted_list_of_set (?A - {?m})"
      using fin False by (rule sorted_list_of_set_nonempty)
    moreover have "nxt s x = Inr (int ?m)"
      using nxt_eq [OF Suc.prems(1), of s] m by auto
    ultimately show ?thesis by simp
  qed
qed simp

lemma iterate_enumerates:
  "card (\<alpha> s) < fuel \<Longrightarrow> iterate_members nxt fuel s (-1) = Some (map int (sorted_list_of_set (\<alpha> s)))"
  using iterate_from [of "-1" s fuel] by simp

end

locale set_ops =
  fixes \<alpha> :: "'s \<Rightarrow> nat set"
    and empty :: 's
    and member :: "int \<Rightarrow> 's \<Rightarrow> bool result"
    and add :: "'s \<Rightarrow> int \<Rightarrow> 's result"
    and del :: "'s \<Rightarrow> int \<Rightarrow> 's result"
    and union :: "'s \<Rightarrow> 's \<Rightarrow> 's"
    and intersect :: "'s \<Rightarrow> 's \<Rightarrow> 's"
    and difference :: "'s \<Rightarrow> 's \<Rightarrow> 's"
  assumes empty_abs: "\<alpha> empty = {}"
    and member_abs: "0 \<le> x \<Longrightarrow> member x s = Inr (nat x \<in> \<alpha> s)"
    and add_abs: "0 \<le> x \<Longrightarrow> \<exists>s'. add s x = Inr s' \<and> \<alpha> s' = insert (nat x) (\<alpha> s)"
    and del_abs: "0 \<le> x \<Longrightarrow> \<exists>s'. del s x = Inr s' \<and> \<alpha> s' = \<alpha> s - {nat x}"
    and union_abs: "\<alpha> (union s t) = \<alpha> s \<union> \<alpha> t"
    and intersect_abs: "\<alpha> (intersect s t) = \<alpha> s \<inter> \<alpha> t"
    and difference_abs: "\<alpha> (difference s t) = \<alpha> s - \<alpha> t"
    and negative: "x < 0 \<Longrightarrow> \<exists>e. member x s = Inl e \<and> add s x = Inl e \<and> del s x = Inl e"
begin

lemma add_all_abs:
  "\<forall>x \<in> set xs. 0 \<le> x \<Longrightarrow> \<exists>s'. add_all add s xs = Inr s' \<and> \<alpha> s' = \<alpha> s \<union> nat ` set xs"
proof (induction xs arbitrary: s)
  case (Cons x xs)
  then obtain s1 where "add s x = Inr s1" "\<alpha> s1 = insert (nat x) (\<alpha> s)"
    using add_abs [of x s] by auto
  moreover obtain s2 where "add_all add s1 xs = Inr s2" "\<alpha> s2 = \<alpha> s1 \<union> nat ` set xs"
    using Cons.IH [of s1] Cons.prems by auto
  ultimately show ?case by auto
qed simp

lemma add_all_negative:
  "x \<in> set xs \<Longrightarrow> x < 0 \<Longrightarrow> \<exists>e. add_all add s xs = Inl e"
proof (induction xs arbitrary: s)
  case (Cons y ys)
  show ?case
  proof (cases "y < 0")
    case True
    then show ?thesis using negative [of y s] by auto
  next
    case False
    with Cons have "x \<in> set ys" by auto
    with Cons False show ?thesis by (auto split: sum.split)
  qed
qed simp

lemma member_after_add_all:
  assumes "\<forall>x \<in> set xs. 0 \<le> x" and "0 \<le> y"
  shows "\<exists>s. add_all add empty xs = Inr s \<and> member y s = Inr (y \<in> set xs)"
proof -
  obtain s where s: "add_all add empty xs = Inr s" "\<alpha> s = nat ` set xs"
    using add_all_abs [OF assms(1), of empty] empty_abs by auto
  have "nat y \<in> nat ` set xs \<longleftrightarrow> y \<in> set xs"
    using assms by (auto simp: image_iff eq_nat_nat_iff)
  with s assms(2) show ?thesis by (auto simp: member_abs)
qed

end

end
