(* ===== verification/Bitmapsets.thy ===== *)
theory Bitmapsets
  imports Bitutils Set_Interface
begin

text \<open>
  The bitmap set package, \<open>src/common/backend/nodes/bitmapset.cpp\<close>, on the 64-bit layout of
  \<open>nodes/bitmapset.h\<close>. A \<open>Bitmapset*\<close> is an option: \<open>None\<close> is the NULL pointer, which every
  operation accepts as the empty set. The array has \<open>nwords\<close> cells (``really [nwords]''), so the field
  \<open>nwords\<close> is the length of \<open>words\<close>. An operation that recycles its input returns the cell it
  would have left there. Negative members raise \<open>ERRCODE_DATA_EXCEPTION\<close>.

  \<open>bms_members\<close> is the set a value stands for. The lemmas show that every operation computes the
  set operation its comment names, on every representation of its arguments (NULL, short or long
  arrays, trailing zero words).
\<close>

section \<open>The representation\<close>

type_synonym bitmapword = uint64

record Bitmapset =
  words :: "bitmapword list"

type_synonym bms = "Bitmapset option"

definition nwords :: "Bitmapset \<Rightarrow> nat" where
  "nwords a = length (words a)"

datatype BMS_Comparison = BMS_EQUAL | BMS_SUBSET1 | BMS_SUBSET2 | BMS_DIFFERENT

datatype BMS_Membership = BMS_EMPTY_SET | BMS_SINGLETON | BMS_MULTIPLE

definition BITS_PER_BITMAPWORD :: nat where
  "BITS_PER_BITMAPWORD = 64"

text \<open>\<open>WORDNUM(x)\<close> and \<open>BITNUM(x)\<close>; every use is behind a test that \<open>x\<close> is not negative.\<close>

definition WORDNUM :: "int \<Rightarrow> nat" where
  "WORDNUM x = nat x div BITS_PER_BITMAPWORD"

definition BITNUM :: "int \<Rightarrow> nat" where
  "BITNUM x = nat x mod BITS_PER_BITMAPWORD"

definition RIGHTMOST_ONE :: "bitmapword \<Rightarrow> bitmapword" where
  "RIGHTMOST_ONE x = x AND (- x)"

definition HAS_MULTIPLE_ONES :: "bitmapword \<Rightarrow> bool" where
  "HAS_MULTIPLE_ONES x \<longleftrightarrow> RIGHTMOST_ONE x \<noteq> x"

section \<open>Operations that leave their inputs untouched\<close>

definition bms_copy :: "bms \<Rightarrow> bms" where
  "bms_copy a = (case a of None \<Rightarrow> None | Some s \<Rightarrow> Some \<lparr>words = words s\<rparr>)"

definition bms_is_empty :: "bms \<Rightarrow> bool" where
  "bms_is_empty a = (case a of
     None \<Rightarrow> True
   | Some s \<Rightarrow> (if for_any 0 (nwords s) (\<lambda>i. words s ! i \<noteq> 0) then False else True))"

definition bms_equal :: "bms \<Rightarrow> bms \<Rightarrow> bool" where
  "bms_equal a b = (case a of
     None \<Rightarrow> (case b of None \<Rightarrow> True | Some _ \<Rightarrow> bms_is_empty b)
   | Some sa \<Rightarrow> (case b of
       None \<Rightarrow> bms_is_empty a
     | Some sb \<Rightarrow>
         (let (shorter, longer) = (if nwords sa \<le> nwords sb then (sa, sb) else (sb, sa));
              shortlen = nwords shorter;
              longlen = nwords longer
          in if for_any 0 shortlen (\<lambda>i. words shorter ! i \<noteq> words longer ! i) then False
             else if for_any shortlen longlen (\<lambda>i. words longer ! i \<noteq> 0) then False
             else True)))"

definition bms_make_singleton :: "int \<Rightarrow> bms result" where
  "bms_make_singleton x =
     (if x < 0 then Inl ERRCODE_DATA_EXCEPTION
      else let wordnum = WORDNUM x; bitnum = BITNUM x
           in Inr (Some \<lparr>words = (replicate (wordnum + 1) 0)[wordnum := push_bit bitnum 1]\<rparr>))"

definition bms_union :: "bms \<Rightarrow> bms \<Rightarrow> bms" where
  "bms_union a b = (case a of
     None \<Rightarrow> bms_copy b
   | Some sa \<Rightarrow> (case b of
       None \<Rightarrow> bms_copy a
     | Some sb \<Rightarrow>
         (let (result, other) = (if nwords sa \<le> nwords sb then (sb, sa) else (sa, sb))
          in Some (result\<lparr>words :=
               for_range 0 (nwords other) (\<lambda>i ws. ws[i := ws ! i OR words other ! i]) (words result)\<rparr>))))"

definition bms_intersect :: "bms \<Rightarrow> bms \<Rightarrow> bms" where
  "bms_intersect a b = (case a of
     None \<Rightarrow> None
   | Some sa \<Rightarrow> (case b of
       None \<Rightarrow> None
     | Some sb \<Rightarrow>
         (let (result, other) = (if nwords sa \<le> nwords sb then (sa, sb) else (sb, sa))
          in Some (result\<lparr>words :=
               for_range 0 (nwords result) (\<lambda>i ws. ws[i := ws ! i AND words other ! i]) (words result)\<rparr>))))"

definition bms_difference :: "bms \<Rightarrow> bms \<Rightarrow> bms" where
  "bms_difference a b = (case a of
     None \<Rightarrow> None
   | Some sa \<Rightarrow> (case b of
       None \<Rightarrow> bms_copy a
     | Some sb \<Rightarrow>
         (let shortlen = min (nwords sa) (nwords sb)
          in Some (sa\<lparr>words :=
               for_range 0 shortlen (\<lambda>i ws. ws[i := ws ! i AND NOT (words sb ! i)]) (words sa)\<rparr>))))"

definition bms_is_subset :: "bms \<Rightarrow> bms \<Rightarrow> bool" where
  "bms_is_subset a b = (case a of
     None \<Rightarrow> True
   | Some sa \<Rightarrow> (case b of
       None \<Rightarrow> bms_is_empty a
     | Some sb \<Rightarrow>
         (let shortlen = min (nwords sa) (nwords sb)
          in if for_any 0 shortlen (\<lambda>i. words sa ! i AND NOT (words sb ! i) \<noteq> 0) then False
             else if nwords sa > nwords sb then
               (if for_any shortlen (nwords sa) (\<lambda>i. words sa ! i \<noteq> 0) then False else True)
             else True)))"

text \<open>The three loop bodies of \<open>bms_subset_compare\<close>, over the status so far.\<close>

definition cmp_not_subset12 :: "bool \<Rightarrow> BMS_Comparison \<Rightarrow> BMS_Comparison + BMS_Comparison" where
  "cmp_not_subset12 c result =
     (if c then (if result = BMS_SUBSET1 then Inr BMS_DIFFERENT else Inl BMS_SUBSET2) else Inl result)"

definition cmp_not_subset21 :: "bool \<Rightarrow> BMS_Comparison \<Rightarrow> BMS_Comparison + BMS_Comparison" where
  "cmp_not_subset21 c result =
     (if c then (if result = BMS_SUBSET2 then Inr BMS_DIFFERENT else Inl BMS_SUBSET1) else Inl result)"

definition cmp_common :: "bitmapword \<Rightarrow> bitmapword \<Rightarrow> BMS_Comparison \<Rightarrow> BMS_Comparison + BMS_Comparison" where
  "cmp_common aword bword result =
     (case cmp_not_subset12 (aword AND NOT bword \<noteq> 0) result of
        Inr r \<Rightarrow> Inr r
      | Inl result' \<Rightarrow> cmp_not_subset21 (bword AND NOT aword \<noteq> 0) result')"

definition bms_subset_compare :: "bms \<Rightarrow> bms \<Rightarrow> BMS_Comparison" where
  "bms_subset_compare a b = (case a of
     None \<Rightarrow> (case b of
         None \<Rightarrow> BMS_EQUAL
       | Some _ \<Rightarrow> (if bms_is_empty b then BMS_EQUAL else BMS_SUBSET1))
   | Some sa \<Rightarrow> (case b of
       None \<Rightarrow> (if bms_is_empty a then BMS_EQUAL else BMS_SUBSET2)
     | Some sb \<Rightarrow>
         (let shortlen = min (nwords sa) (nwords sb)
          in case for_ret [0..<shortlen] (\<lambda>i. cmp_common (words sa ! i) (words sb ! i)) BMS_EQUAL of
               Inr r \<Rightarrow> r
             | Inl result \<Rightarrow>
                 (case (if nwords sa > nwords sb then
                          for_ret [shortlen..<nwords sa] (\<lambda>i. cmp_not_subset12 (words sa ! i \<noteq> 0)) result
                        else if nwords sa < nwords sb then
                          for_ret [shortlen..<nwords sb] (\<lambda>i. cmp_not_subset21 (words sb ! i \<noteq> 0)) result
                        else Inl result)
                  of Inr r \<Rightarrow> r | Inl r \<Rightarrow> r))))"

definition bms_is_member :: "int \<Rightarrow> bms \<Rightarrow> bool result" where
  "bms_is_member x a =
     (if x < 0 then Inl ERRCODE_DATA_EXCEPTION
      else case a of
        None \<Rightarrow> Inr False
      | Some s \<Rightarrow>
          (let wordnum = WORDNUM x; bitnum = BITNUM x
           in if wordnum \<ge> nwords s then Inr False
              else if words s ! wordnum AND push_bit bitnum 1 \<noteq> 0 then Inr True
              else Inr False))"

definition bms_overlap :: "bms \<Rightarrow> bms \<Rightarrow> bool" where
  "bms_overlap a b = (case a of
     None \<Rightarrow> False
   | Some sa \<Rightarrow> (case b of
       None \<Rightarrow> False
     | Some sb \<Rightarrow>
         (let shortlen = min (nwords sa) (nwords sb)
          in if for_any 0 shortlen (\<lambda>i. words sa ! i AND words sb ! i \<noteq> 0) then True else False)))"

definition bms_nonempty_difference :: "bms \<Rightarrow> bms \<Rightarrow> bool" where
  "bms_nonempty_difference a b = (case a of
     None \<Rightarrow> False
   | Some sa \<Rightarrow> (case b of
       None \<Rightarrow> \<not> bms_is_empty a
     | Some sb \<Rightarrow>
         (let shortlen = min (nwords sa) (nwords sb)
          in if for_any 0 shortlen (\<lambda>i. words sa ! i AND NOT (words sb ! i) \<noteq> 0) then True
             else if for_any shortlen (nwords sa) (\<lambda>i. words sa ! i \<noteq> 0) then True
             else False)))"

section \<open>Counting\<close>

text \<open>
  \<open>bms_singleton_member\<close>: the loop's state is \<open>result\<close>, which is \<open>-1\<close> until a one-bit is seen.
\<close>

definition bms_singleton_member :: "bms \<Rightarrow> int result" where
  "bms_singleton_member a = (case a of
     None \<Rightarrow> Inl ERRCODE_UNEXPECTED_NULL_VALUE
   | Some s \<Rightarrow>
       (case for_ret [0..<nwords s]
          (\<lambda>wordnum result.
             let w = words s ! wordnum
             in if w \<noteq> 0 then
                  (if result \<ge> 0 \<or> HAS_MULTIPLE_ONES w then Inr ERRCODE_DATA_EXCEPTION
                   else Inl (int (wordnum * BITS_PER_BITMAPWORD) + int (pg_rightmost_one_pos64 w)))
                else Inl result) (-1)
        of Inr e \<Rightarrow> Inl e
         | Inl result \<Rightarrow>
             (if result < 0 then Inl ERRCODE_UNEXPECTED_NULL_VALUE else Inr result)))"

definition bms_num_members :: "bms \<Rightarrow> nat" where
  "bms_num_members a = (case a of
     None \<Rightarrow> 0
   | Some s \<Rightarrow>
       for_range 0 (nwords s)
         (\<lambda>wordnum result.
            let w = words s ! wordnum
            in if w \<noteq> 0 then result + pg_popcount64_slow w else result) 0)"

definition bms_membership :: "bms \<Rightarrow> BMS_Membership" where
  "bms_membership a = (case a of
     None \<Rightarrow> BMS_EMPTY_SET
   | Some s \<Rightarrow>
       (case for_ret [0..<nwords s]
          (\<lambda>wordnum result.
             let w = words s ! wordnum
             in if w \<noteq> 0 then
                  (if result \<noteq> BMS_EMPTY_SET \<or> HAS_MULTIPLE_ONES w then Inr BMS_MULTIPLE
                   else Inl BMS_SINGLETON)
                else Inl result) BMS_EMPTY_SET
        of Inr r \<Rightarrow> r | Inl r \<Rightarrow> r))"

section \<open>Operations that recycle their left input\<close>

definition bms_add_member :: "bms \<Rightarrow> int \<Rightarrow> bms result" where
  "bms_add_member a x =
     (if x < 0 then Inl ERRCODE_DATA_EXCEPTION
      else case a of
        None \<Rightarrow> bms_make_singleton x
      | Some s \<Rightarrow>
          (let wordnum = WORDNUM x; bitnum = BITNUM x
           in if wordnum \<ge> nwords s then
                (case bms_make_singleton x of
                   Inl e \<Rightarrow> Inl e
                 | Inr None \<Rightarrow> Inr None
                 | Inr (Some result) \<Rightarrow>
                     Inr (Some (result\<lparr>words :=
                       for_range 0 (nwords s) (\<lambda>i ws. ws[i := ws ! i OR words s ! i]) (words result)\<rparr>)))
              else Inr (Some (s\<lparr>words :=
                     (words s)[wordnum := words s ! wordnum OR push_bit bitnum 1]\<rparr>))))"

definition bms_del_member :: "bms \<Rightarrow> int \<Rightarrow> bms result" where
  "bms_del_member a x =
     (if x < 0 then Inl ERRCODE_DATA_EXCEPTION
      else case a of
        None \<Rightarrow> Inr None
      | Some s \<Rightarrow>
          (let wordnum = WORDNUM x; bitnum = BITNUM x
           in if wordnum < nwords s
              then Inr (Some (s\<lparr>words :=
                     (words s)[wordnum := words s ! wordnum AND NOT (push_bit bitnum 1)]\<rparr>))
              else Inr (Some s)))"

definition bms_add_members :: "bms \<Rightarrow> bms \<Rightarrow> bms" where
  "bms_add_members a b = (case a of
     None \<Rightarrow> bms_copy b
   | Some sa \<Rightarrow> (case b of
       None \<Rightarrow> a
     | Some sb \<Rightarrow>
         (let (result, other) = (if nwords sa < nwords sb then (sb, sa) else (sa, sb))
          in Some (result\<lparr>words :=
               for_range 0 (nwords other) (\<lambda>i ws. ws[i := ws ! i OR words other ! i]) (words result)\<rparr>))))"

definition bms_int_members :: "bms \<Rightarrow> bms \<Rightarrow> bms" where
  "bms_int_members a b = (case a of
     None \<Rightarrow> None
   | Some sa \<Rightarrow> (case b of
       None \<Rightarrow> None
     | Some sb \<Rightarrow>
         (let shortlen = min (nwords sa) (nwords sb);
              ws1 = for_range 0 shortlen (\<lambda>i ws. ws[i := ws ! i AND words sb ! i]) (words sa);
              ws2 = for_range shortlen (nwords sa) (\<lambda>i ws. ws[i := 0]) ws1
          in Some (sa\<lparr>words := ws2\<rparr>))))"

definition bms_del_members :: "bms \<Rightarrow> bms \<Rightarrow> bms" where
  "bms_del_members a b = (case a of
     None \<Rightarrow> None
   | Some sa \<Rightarrow> (case b of
       None \<Rightarrow> a
     | Some sb \<Rightarrow>
         (let shortlen = min (nwords sa) (nwords sb)
          in Some (sa\<lparr>words :=
               for_range 0 shortlen (\<lambda>i ws. ws[i := ws ! i AND NOT (words sb ! i)]) (words sa)\<rparr>))))"

definition bms_join :: "bms \<Rightarrow> bms \<Rightarrow> bms" where
  "bms_join a b = (case a of
     None \<Rightarrow> b
   | Some sa \<Rightarrow> (case b of
       None \<Rightarrow> a
     | Some sb \<Rightarrow>
         (let (result, other) = (if nwords sa < nwords sb then (sb, sa) else (sa, sb))
          in Some (result\<lparr>words :=
               for_range 0 (nwords other) (\<lambda>i ws. ws[i := ws ! i OR words other ! i]) (words result)\<rparr>))))"

section \<open>Iteration\<close>

text \<open>\<open>bms_first_member\<close> returns the member and leaves the set without it.\<close>

definition bms_first_member :: "bms \<Rightarrow> int \<times> bms" where
  "bms_first_member a = (case a of
     None \<Rightarrow> (-1, None)
   | Some s \<Rightarrow>
       (case for_ret [0..<nwords s]
          (\<lambda>wordnum _.
             let w = words s ! wordnum
             in if w \<noteq> 0 then
                  (let w' = RIGHTMOST_ONE w
                   in Inr (int (wordnum * BITS_PER_BITMAPWORD) + int (pg_rightmost_one_pos64 w'),
                           s\<lparr>words := (words s)[wordnum := words s ! wordnum AND NOT w']\<rparr>))
                else Inl ()) ()
        of Inl _ \<Rightarrow> (-1, Some s)
         | Inr (result, s') \<Rightarrow> (result, Some s')))"

text \<open>
  \<open>bms_next_member\<close>: the mask hides the bits up to \<open>prevbit\<close> in the first word looked at, and
  nothing in the later ones.
\<close>

definition bms_next_member :: "bms \<Rightarrow> int \<Rightarrow> int result" where
  "bms_next_member a prevbit =
     (if prevbit < -1 then Inl ERRCODE_INVALID_PARAMETER_VALUE
      else case a of
        None \<Rightarrow> Inr (-2)
      | Some s \<Rightarrow>
          (let prevbit' = prevbit + 1;
               mask = push_bit (BITNUM prevbit') (NOT 0)
           in case for_ret [WORDNUM prevbit'..<nwords s]
                (\<lambda>wordnum mask.
                   let w = words s ! wordnum AND mask
                   in if w \<noteq> 0
                      then Inr (int (wordnum * BITS_PER_BITMAPWORD) + int (pg_rightmost_one_pos64 w))
                      else Inl (NOT 0)) mask
              of Inl _ \<Rightarrow> Inr (-2) | Inr result \<Rightarrow> Inr result))"

text \<open>
  \<open>bms_get_singleton_member\<close>: \<open>Some m\<close> when it returns true with \<open>*member = m\<close>, \<open>None\<close> when it
  returns false and leaves \<open>*member\<close> alone. Its byte loop shifts \<open>w\<close> before the position of the
  lowest one-bit is read.
\<close>

function singleton_byte_loop :: "bitmapword \<Rightarrow> nat \<Rightarrow> bitmapword \<times> nat" where
  "singleton_byte_loop w result =
     (if w \<noteq> 0 \<and> w AND 255 = 0 then singleton_byte_loop (drop_bit 8 w) (result + 8)
      else (w, result))"
  by pat_completeness auto
termination
  by (relation "measure (\<lambda>(w, r). unat w)") (auto intro: unat_drop_bit_less)

declare singleton_byte_loop.simps [simp del]

definition bms_get_singleton_member :: "bms \<Rightarrow> int option" where
  "bms_get_singleton_member a = (case a of
     None \<Rightarrow> None
   | Some s \<Rightarrow>
       (case for_ret [0..<nwords s]
          (\<lambda>wordnum result.
             let w = words s ! wordnum
             in if w \<noteq> 0 then
                  (if result \<ge> 0 \<or> HAS_MULTIPLE_ONES w then Inr ()
                   else case singleton_byte_loop w (wordnum * BITS_PER_BITMAPWORD) of
                     (w', result') \<Rightarrow> Inl (int result' + int (pg_rightmost_one_pos64 w')))
                else Inl result) (-1 :: int)
        of Inr _ \<Rightarrow> None
         | Inl result \<Rightarrow> (if result < 0 then None else Some result)))"

definition bms_member_index :: "bms \<Rightarrow> int \<Rightarrow> int result" where
  "bms_member_index a x =
     (case bms_is_member x a of
        Inl e \<Rightarrow> Inl e
      | Inr False \<Rightarrow> Inr (-1)
      | Inr True \<Rightarrow>
          (case a of
             None \<Rightarrow> Inr (-1)
           | Some s \<Rightarrow>
               (let wordnum = WORDNUM x; bitnum = BITNUM x;
                    result = for_range 0 wordnum
                      (\<lambda>i result. let w = words s ! i
                        in if w \<noteq> 0 then result + pg_popcount64_slow w else result) 0;
                    mask = push_bit bitnum 1 - 1;
                    tmp = words s ! wordnum AND mask
                in Inr (int (result + pg_popcount64_slow tmp)))))"

text \<open>
  \<open>bms_hash_value\<close> strips the trailing zero words and hashes the rest. \<open>hash_any\<close> (a function of the
  bytes it is given) is a parameter: it is given the words whose bytes the code passes.
\<close>

primrec last_nonzero :: "bitmapword list \<Rightarrow> nat \<Rightarrow> nat option" where
  "last_nonzero ws 0 = None"
| "last_nonzero ws (Suc lastword) =
     (if ws ! lastword \<noteq> 0 then Some lastword else last_nonzero ws lastword)"

definition bms_hash_value :: "(bitmapword list \<Rightarrow> uint32) \<Rightarrow> bms \<Rightarrow> uint32" where
  "bms_hash_value hash_any a = (case a of
     None \<Rightarrow> 0
   | Some s \<Rightarrow>
       (case last_nonzero (words s) (nwords s) of
          None \<Rightarrow> 0
        | Some lastword \<Rightarrow> hash_any (take (lastword + 1) (words s))))"

section \<open>The set a value stands for\<close>

definition bms_word :: "bms \<Rightarrow> nat \<Rightarrow> bitmapword" where
  "bms_word a i = (case a of None \<Rightarrow> 0 | Some s \<Rightarrow> if i < nwords s then words s ! i else 0)"

definition bms_members :: "bms \<Rightarrow> nat set" where
  "bms_members a = {n. bit (bms_word a (n div 64)) (n mod 64)}"

named_theorems bms_simps \<open>word-wise behaviour of the bitmap set operations\<close>

lemmas bms_defs = nwords_def Let_def BITS_PER_BITMAPWORD_def WORDNUM_def BITNUM_def

lemma bms_word_None [simp]: "bms_word None i = 0"
  by (simp add: bms_word_def)

lemma bms_word_Some: "bms_word (Some s) i = (if i < length (words s) then words s ! i else 0)"
  by (simp add: bms_word_def nwords_def)

lemma member_iff: "n \<in> bms_members a \<longleftrightarrow> bit (bms_word a (n div 64)) (n mod 64)"
  by (simp add: bms_members_def)

lemma member_word_iff: "j < 64 \<Longrightarrow> 64 * i + j \<in> bms_members a \<longleftrightarrow> bit (bms_word a i) j"
  by (simp add: member_iff)

lemma bms_members_None [simp]: "bms_members None = {}"
  by (simp add: bms_members_def)

lemma words_forall_iff:
  "(\<forall>n. P (n div 64) (n mod 64)) \<longleftrightarrow> (\<forall>i. \<forall>j < 64. P i j)" for P :: "nat \<Rightarrow> nat \<Rightarrow> bool"
proof
  assume *: "\<forall>n. P (n div 64) (n mod 64)"
  show "\<forall>i. \<forall>j < 64. P i j"
  proof (intro allI impI)
    fix i j :: nat assume "j < 64"
    with * [rule_format, of "64 * i + j"] show "P i j" by simp
  qed
qed simp

lemma bitmapword_zero_iff: "w = 0 \<longleftrightarrow> (\<forall>j < 64. \<not> bit w j)" for w :: bitmapword
  by (auto simp: bit_eq_iff)

lemma members_subset_iff:
  "bms_members a \<subseteq> bms_members b \<longleftrightarrow> (\<forall>i. bms_word a i AND NOT (bms_word b i) = 0)"
proof -
  have "bms_members a \<subseteq> bms_members b \<longleftrightarrow>
      (\<forall>n. bit (bms_word a (n div 64)) (n mod 64) \<longrightarrow> bit (bms_word b (n div 64)) (n mod 64))"
    by (auto simp: member_iff)
  also have "\<dots> \<longleftrightarrow> (\<forall>i. \<forall>j < 64. bit (bms_word a i) j \<longrightarrow> bit (bms_word b i) j)"
    by (rule words_forall_iff)
  also have "\<dots> \<longleftrightarrow> (\<forall>i. bms_word a i AND NOT (bms_word b i) = 0)"
    by (simp add: bitmapword_zero_iff bit_and_iff bit_not_iff)
  finally show ?thesis .
qed

lemma members_disjoint_iff:
  "bms_members a \<inter> bms_members b = {} \<longleftrightarrow> (\<forall>i. bms_word a i AND bms_word b i = 0)"
proof -
  have "bms_members a \<inter> bms_members b = {} \<longleftrightarrow>
      (\<forall>n. \<not> (bit (bms_word a (n div 64)) (n mod 64) \<and> bit (bms_word b (n div 64)) (n mod 64)))"
    by (auto simp: member_iff)
  also have "\<dots> \<longleftrightarrow> (\<forall>i. \<forall>j < 64. \<not> (bit (bms_word a i) j \<and> bit (bms_word b i) j))"
    by (rule words_forall_iff)
  also have "\<dots> \<longleftrightarrow> (\<forall>i. bms_word a i AND bms_word b i = 0)"
    by (simp add: bitmapword_zero_iff bit_and_iff)
  finally show ?thesis .
qed

lemma members_empty_iff: "bms_members a = {} \<longleftrightarrow> (\<forall>i. bms_word a i = 0)"
  using members_disjoint_iff [of a a] by simp

lemma members_eq_iff: "bms_members a = bms_members b \<longleftrightarrow> (\<forall>i. bms_word a i = bms_word b i)"
proof
  assume "bms_members a = bms_members b"
  then have *: "\<forall>n. bit (bms_word a (n div 64)) (n mod 64) = bit (bms_word b (n div 64)) (n mod 64)"
    by (auto simp: bms_members_def set_eq_iff)
  have "\<forall>i. \<forall>j < 64. bit (bms_word a i) j = bit (bms_word b i) j"
    using words_forall_iff [THEN iffD1, OF *] .
  then show "\<forall>i. bms_word a i = bms_word b i"
    by (auto simp: bit_eq_iff)
qed (simp add: bms_members_def)

section \<open>What the operations do to the words\<close>

text \<open>The word-by-word loops of the set operations, as instances of the cell-update loop.\<close>

lemmas word_loops =
  nth_for_range_upd [where g = "\<lambda>i x. x OR vs ! i" for vs :: "bitmapword list"]
  nth_for_range_upd [where g = "\<lambda>i x. x AND vs ! i" for vs :: "bitmapword list"]
  nth_for_range_upd [where g = "\<lambda>i x. x AND NOT (vs ! i)" for vs :: "bitmapword list"]
  nth_for_range_upd [where g = "\<lambda>i x. 0 :: bitmapword"]
  length_for_range_upd [where g = "\<lambda>i x. x OR vs ! i" for vs :: "bitmapword list"]
  length_for_range_upd [where g = "\<lambda>i x. x AND vs ! i" for vs :: "bitmapword list"]
  length_for_range_upd [where g = "\<lambda>i x. x AND NOT (vs ! i)" for vs :: "bitmapword list"]
  length_for_range_upd [where g = "\<lambda>i x. 0 :: bitmapword"]

lemma bms_copy_eq [bms_simps]: "bms_copy a = a"
  by (simp add: bms_copy_def split: option.split)

lemma bms_word_union [bms_simps]: "bms_word (bms_union a b) i = bms_word a i OR bms_word b i"
  by (auto simp: bms_union_def bms_copy_eq bms_word_Some bms_defs word_loops or.commute
      split: option.split)

lemma bms_word_add_members [bms_simps]: "bms_word (bms_add_members a b) i = bms_word a i OR bms_word b i"
  by (auto simp: bms_add_members_def bms_copy_eq bms_word_Some bms_defs word_loops or.commute
      split: option.split)

lemma bms_word_join [bms_simps]: "bms_word (bms_join a b) i = bms_word a i OR bms_word b i"
  by (auto simp: bms_join_def bms_word_Some bms_defs word_loops or.commute split: option.split)

lemma bms_word_intersect [bms_simps]: "bms_word (bms_intersect a b) i = bms_word a i AND bms_word b i"
  by (auto simp: bms_intersect_def bms_word_Some bms_defs word_loops and.commute split: option.split)

lemma bms_word_int_members [bms_simps]:
  "bms_word (bms_int_members a b) i = bms_word a i AND bms_word b i"
  by (auto simp: bms_int_members_def bms_word_Some bms_defs word_loops
      split: option.split)

lemma bms_word_difference [bms_simps]:
  "bms_word (bms_difference a b) i = bms_word a i AND NOT (bms_word b i)"
  by (auto simp: bms_difference_def bms_copy_eq bms_word_Some bms_defs word_loops split: option.split)

lemma bms_word_del_members [bms_simps]:
  "bms_word (bms_del_members a b) i = bms_word a i AND NOT (bms_word b i)"
  by (auto simp: bms_del_members_def bms_word_Some bms_defs word_loops split: option.split)

section \<open>Predicates\<close>

lemma bms_is_empty_iff [bms_simps]: "bms_is_empty a \<longleftrightarrow> bms_members a = {}"
  by (auto simp: bms_is_empty_def members_empty_iff bms_word_Some bms_defs loop_simps split: option.split)

lemma padded_eq_iff:
  assumes "length xs \<le> length ys"
  shows "(\<forall>i. (if i < length xs then xs ! i else 0) = (if i < length ys then ys ! i else 0)) \<longleftrightarrow>
    (\<forall>i < length xs. xs ! i = ys ! i) \<and> (\<forall>i. length xs \<le> i \<and> i < length ys \<longrightarrow> ys ! i = 0)"
    (is "?L \<longleftrightarrow> ?R")
proof
  assume L: ?L
  have "xs ! i = ys ! i" if "i < length xs" for i
    using L [rule_format, of i] that assms by simp
  moreover have "ys ! i = 0" if "length xs \<le> i" "i < length ys" for i
    using L [rule_format, of i] that by simp
  ultimately show ?R by blast
next
  assume ?R
  then show ?L using assms by auto
qed

lemma bms_equal_iff [bms_simps]: "bms_equal a b \<longleftrightarrow> bms_members a = bms_members b"
proof (cases a; cases b)
  fix sa sb
  assume ab: "a = Some sa" "b = Some sb"
  show ?thesis
  proof (cases "length (words sa) \<le> length (words sb)")
    case True
    then show ?thesis
      unfolding members_eq_iff ab bms_word_Some padded_eq_iff [OF True]
      by (auto simp: bms_equal_def bms_defs loop_simps)
  next
    case False
    then have le: "length (words sb) \<le> length (words sa)" by simp
    have "bms_members a = bms_members b \<longleftrightarrow> (\<forall>i. bms_word b i = bms_word a i)"
      by (auto simp: members_eq_iff)
    then show ?thesis
      unfolding ab bms_word_Some padded_eq_iff [OF le] using False
      by (auto simp: bms_equal_def bms_defs loop_simps)
  qed
qed (auto simp: bms_equal_def bms_is_empty_iff)

lemma bms_is_subset_iff [bms_simps]: "bms_is_subset a b \<longleftrightarrow> bms_members a \<subseteq> bms_members b"
proof (cases a; cases b)
  fix sa sb
  assume ab: "a = Some sa" "b = Some sb"
  show ?thesis
    unfolding members_subset_iff ab
    by (auto simp: bms_is_subset_def bms_word_Some bms_defs loop_simps) (metis not_le)+
qed (auto simp: bms_is_subset_def bms_is_empty_iff)

lemma bms_overlap_iff [bms_simps]: "bms_overlap a b \<longleftrightarrow> bms_members a \<inter> bms_members b \<noteq> {}"
  unfolding members_disjoint_iff
  by (auto simp: bms_overlap_def bms_word_Some bms_defs loop_simps split: option.split)

lemma bms_nonempty_difference_iff [bms_simps]:
  "bms_nonempty_difference a b \<longleftrightarrow> bms_members a - bms_members b \<noteq> {}"
proof -
  have "bms_nonempty_difference a b \<longleftrightarrow> \<not> bms_is_subset a b"
    by (auto simp: bms_nonempty_difference_def bms_is_subset_def bms_defs loop_simps split: option.split)
  then show ?thesis by (simp add: bms_is_subset_iff)
qed

section \<open>Members one at a time\<close>

lemma bms_is_member_eq [bms_simps]:
  "0 \<le> x \<Longrightarrow> bms_is_member x a = Inr (nat x \<in> bms_members a)"
  by (auto simp: bms_is_member_def member_iff bms_word_Some bms_defs and_exp_eq_0_iff_not_bit
      split: option.split)

lemma bms_make_singleton_eq:
  assumes "0 \<le> x"
  obtains s where "bms_make_singleton x = Inr (Some s)"
    and "nwords s = WORDNUM x + 1"
    and "\<And>i. bms_word (Some s) i = (if i = WORDNUM x then push_bit (BITNUM x) 1 else 0)"
proof
  let ?s = "\<lparr>words = (replicate (WORDNUM x + 1) 0)[WORDNUM x := push_bit (BITNUM x) 1]\<rparr> :: Bitmapset"
  show "bms_make_singleton x = Inr (Some ?s)"
    using assms by (simp add: bms_make_singleton_def Let_def)
  show "nwords ?s = WORDNUM x + 1"
    by (simp only: nwords_def Bitmapset.select_convs length_list_update length_replicate)
  show "bms_word (Some ?s) i = (if i = WORDNUM x then push_bit (BITNUM x) 1 else 0)" for i
    by (simp add: bms_word_Some nth_list_update less_Suc_eq del: replicate_Suc list_update_code)
qed

lemma bms_add_member_word:
  assumes "0 \<le> x"
  obtains a' where "bms_add_member a x = Inr a'"
    and "\<And>i. bms_word a' i = bms_word a i OR (if i = WORDNUM x then push_bit (BITNUM x) 1 else 0)"
proof -
  obtain r where r: "bms_make_singleton x = Inr (Some r)" "nwords r = WORDNUM x + 1"
    "\<And>i. bms_word (Some r) i = (if i = WORDNUM x then push_bit (BITNUM x) 1 else 0)"
    using bms_make_singleton_eq [OF assms] by blast
  show ?thesis
  proof (cases a)
    case None
    then have "bms_add_member a x = Inr (Some r)"
      using assms r(1) by (simp add: bms_add_member_def)
    then show ?thesis
      by (rule that) (simp add: None r(3))
  next
    case (Some s)
    show ?thesis
    proof (cases "WORDNUM x \<ge> nwords s")
      case True
      let ?s = "r\<lparr>words := for_range 0 (nwords s) (\<lambda>i ws. ws[i := ws ! i OR words s ! i]) (words r)\<rparr>"
      have "bms_word (Some ?s) i = bms_word (Some r) i OR bms_word a i" for i
        using True r(2) Some by (auto simp: bms_word_Some word_loops nwords_def)
      moreover have "bms_add_member a x = Inr (Some ?s)"
        using True assms r(1) Some by (simp add: bms_add_member_def Let_def)
      ultimately show ?thesis using r(3) by (intro that) (auto simp: or.commute)
    next
      case False
      let ?s = "s\<lparr>words := (words s)[WORDNUM x := words s ! WORDNUM x OR push_bit (BITNUM x) 1]\<rparr>"
      have "bms_add_member a x = Inr (Some ?s)"
        using False assms Some by (simp add: bms_add_member_def Let_def)
      moreover have "bms_word (Some ?s) i = bms_word a i OR (if i = WORDNUM x then push_bit (BITNUM x) 1 else 0)" for i
        using False Some by (auto simp: bms_word_Some nth_list_update nwords_def)
      ultimately show ?thesis using that by blast
    qed
  qed
qed

lemma bit_member_mask: "j < 64 \<Longrightarrow> bit (2 ^ n :: bitmapword) j \<longleftrightarrow> j = n"
  by (auto simp: bit_exp_iff)

lemma nat_eq_word_bit: "j < 64 \<Longrightarrow> n = 64 * i + j \<longleftrightarrow> n div 64 = i \<and> n mod 64 = j" for n :: nat
  by auto

lemma members_set_bit:
  assumes "\<And>n. bms_word a' n = bms_word a n OR (if n = i then 2 ^ j else 0)" and "j < 64"
  shows "bms_members a' = insert (64 * i + j) (bms_members a)"
  unfolding set_eq_iff insert_iff nat_eq_word_bit [OF assms(2)] member_iff assms(1)
  by (auto simp: bit_or_iff bit_member_mask)

lemma members_clear_bit:
  assumes "\<And>n. bms_word a' n = bms_word a n AND NOT (if n = i then 2 ^ j else 0)" and "j < 64"
  shows "bms_members a' = bms_members a - {64 * i + j}"
  unfolding set_eq_iff Diff_iff singleton_iff nat_eq_word_bit [OF assms(2)] member_iff assms(1)
  by (auto simp: bit_and_iff bit_not_iff bit_member_mask)

lemma nat_word_bit: "nat x = 64 * WORDNUM x + BITNUM x" "BITNUM x < 64"
  by (simp_all add: bms_defs)

lemma bms_add_member_members:
  assumes "0 \<le> x"
  shows "\<exists>a'. bms_add_member a x = Inr a' \<and> bms_members a' = insert (nat x) (bms_members a)"
proof -
  obtain a' where a': "bms_add_member a x = Inr a'"
    "\<And>i. bms_word a' i = bms_word a i OR (if i = WORDNUM x then push_bit (BITNUM x) 1 else 0)"
    using bms_add_member_word [OF assms] by metis
  have "bms_members a' = insert (nat x) (bms_members a)"
    unfolding nat_word_bit(1) by (rule members_set_bit) (simp_all add: a'(2) nat_word_bit(2))
  with a'(1) show ?thesis by blast
qed

lemma bms_make_singleton_members:
  assumes "0 \<le> x"
  shows "\<exists>a'. bms_make_singleton x = Inr a' \<and> bms_members a' = {nat x}"
proof -
  have "bms_add_member None x = bms_make_singleton x"
    using assms by (simp add: bms_add_member_def)
  with bms_add_member_members [OF assms, of None] show ?thesis by simp
qed

lemma bms_del_member_members:
  assumes "0 \<le> x"
  shows "\<exists>a'. bms_del_member a x = Inr a' \<and> bms_members a' = bms_members a - {nat x}"
proof (cases a)
  case None
  with assms show ?thesis by (simp add: bms_del_member_def)
next
  case (Some s)
  let ?w = "words s ! WORDNUM x AND NOT (push_bit (BITNUM x) 1)"
  let ?s = "if WORDNUM x < nwords s then s\<lparr>words := (words s)[WORDNUM x := ?w]\<rparr> else s"
  have eq: "bms_del_member a x = Inr (Some ?s)"
    using assms Some by (simp add: bms_del_member_def Let_def)
  have "bms_members (Some ?s) = bms_members a - {nat x}"
    unfolding nat_word_bit(1) using Some
    by (intro members_clear_bit) (auto simp: bms_word_Some nwords_def nth_list_update nat_word_bit(2))
  with eq show ?thesis by blast
qed

section \<open>The lowest one-bit\<close>

lemma odd_and_minus: "odd v \<Longrightarrow> v AND - v = 1" for v :: "'a::len word"
proof -
  assume "odd v"
  then have "- v = NOT v OR 1"
    by (simp add: minus_eq_not_plus_1 or_one_eq)
  then have "v AND - v = v AND 1"
    by (auto simp: bit_eq_iff bit_and_iff bit_or_iff bit_not_iff)
  with \<open>odd v\<close> show ?thesis by (simp add: and_one_eq mod_2_eq_odd)
qed

lemma RIGHTMOST_ONE_eq:
  assumes "w \<noteq> 0"
  shows "RIGHTMOST_ONE w = 2 ^ pg_rightmost_one_pos64 w"
proof -
  let ?k = "pg_rightmost_one_pos64 w"
  let ?v = "drop_bit ?k w"
  note spec = pg_rightmost_one_pos64_spec [OF assms]
  have w: "w = push_bit ?k ?v"
  proof (rule bit_word_eqI)
    fix n assume "n < LENGTH(64)"
    then show "bit w n = bit (push_bit ?k ?v) n"
      using spec(2) [of n]
      by (cases "n < ?k") (simp_all add: bit_push_bit_iff bit_drop_bit_eq not_less)
  qed
  have "odd ?v"
    using spec(1) by (simp add: bit_iff_odd_drop_bit)
  have "- w = push_bit ?k (- ?v)"
    by (subst w) (simp add: push_bit_eq_mult)
  from arg_cong2 [OF w this, where f = "(AND)"] have "w AND - w = push_bit ?k (?v AND - ?v)"
    by (simp add: push_bit_and)
  then show ?thesis
    by (simp add: RIGHTMOST_ONE_def odd_and_minus [OF \<open>odd ?v\<close>] push_bit_eq_mult)
qed

lemma HAS_MULTIPLE_ONES_iff:
  assumes "w \<noteq> 0"
  shows "HAS_MULTIPLE_ONES w \<longleftrightarrow> (\<exists>j. j \<noteq> pg_rightmost_one_pos64 w \<and> bit w j)"
proof -
  have "RIGHTMOST_ONE w = w \<longleftrightarrow> (\<forall>j < 64. bit w j \<longleftrightarrow> j = pg_rightmost_one_pos64 w)"
    by (auto simp: RIGHTMOST_ONE_eq [OF assms] bit_eq_iff bit_member_mask)
  also have "\<dots> \<longleftrightarrow> (\<forall>j. j \<noteq> pg_rightmost_one_pos64 w \<longrightarrow> \<not> bit w j)"
    using pg_rightmost_one_pos64_spec(1) [OF assms] by (auto dest: bit_index_less)
  finally show ?thesis
    by (auto simp: HAS_MULTIPLE_ONES_def)
qed

section \<open>The members word by word\<close>

definition chunk :: "bms \<Rightarrow> nat \<Rightarrow> nat set" where
  "chunk a i = bms_members a \<inter> {64 * i..<64 * Suc i}"

lemma chunk_eq: "chunk a i = (\<lambda>j. 64 * i + j) ` {j. bit (bms_word a i) j}"
proof -
  have "n \<in> chunk a i \<longleftrightarrow> (\<exists>j < 64. n = 64 * i + j \<and> bit (bms_word a i) j)" for n
  proof
    assume "n \<in> chunk a i"
    then have "64 * i \<le> n" "n < 64 * Suc i" "n \<in> bms_members a"
      by (auto simp: chunk_def)
    moreover from this have "n = 64 * i + (n - 64 * i)" "n - 64 * i < 64" by auto
    ultimately show "\<exists>j < 64. n = 64 * i + j \<and> bit (bms_word a i) j"
      by (metis member_word_iff)
  next
    assume "\<exists>j < 64. n = 64 * i + j \<and> bit (bms_word a i) j"
    then show "n \<in> chunk a i"
      by (auto simp: chunk_def member_word_iff)
  qed
  then show ?thesis by (auto dest: bit_index_less)
qed

lemma chunk_empty_iff: "chunk a i = {} \<longleftrightarrow> bms_word a i = 0"
  using word_nonzero_iff [of "bms_word a i"] by (auto simp: chunk_eq)

lemma card_chunk: "card (chunk a i) = card {j. bit (bms_word a i) j}"
  by (simp add: chunk_eq card_image inj_on_def)

lemma members_below_Suc: "bms_members a \<inter> {..<64 * Suc i} = (bms_members a \<inter> {..<64 * i}) \<union> chunk a i"
  by (auto simp: chunk_def)

lemma members_less: "n \<in> bms_members (Some s) \<Longrightarrow> n < 64 * nwords s"
  by (auto simp: member_iff bms_word_def split: if_splits)

lemma members_below_all: "bms_members (Some s) \<inter> {..<64 * nwords s} = bms_members (Some s)"
  using members_less by auto

lemma finite_bms_members [simp]: "finite (bms_members a)"
proof (cases a)
  case (Some s)
  have "finite (bms_members (Some s) \<inter> {..<64 * nwords s})" by simp
  then show ?thesis unfolding members_below_all Some .
qed simp

lemma chunk_singleton:
  assumes "bms_word a i \<noteq> 0" and "\<not> HAS_MULTIPLE_ONES (bms_word a i)"
  shows "chunk a i = {64 * i + pg_rightmost_one_pos64 (bms_word a i)}"
  using assms pg_rightmost_one_pos64_spec(1) [OF assms(1)] by (auto simp: chunk_eq HAS_MULTIPLE_ONES_iff)

lemma chunk_multiple:
  assumes "bms_word a i \<noteq> 0" and "HAS_MULTIPLE_ONES (bms_word a i)"
  shows "\<exists>x y. x \<noteq> y \<and> x \<in> chunk a i \<and> y \<in> chunk a i"
proof -
  let ?k = "pg_rightmost_one_pos64 (bms_word a i)"
  obtain j where j: "j \<noteq> ?k" "bit (bms_word a i) j"
    using assms by (auto simp: HAS_MULTIPLE_ONES_iff)
  moreover have "bit (bms_word a i) ?k"
    by (rule pg_rightmost_one_pos64_spec(1) [OF assms(1)])
  ultimately have "64 * i + j \<in> chunk a i" "64 * i + ?k \<in> chunk a i" "64 * i + j \<noteq> 64 * i + ?k"
    by (auto simp: chunk_eq)
  then show ?thesis by blast
qed

lemma card_members_below:
  "card (bms_members a \<inter> {..<64 * k}) =
     for_range 0 k (\<lambda>i r. if bms_word a i \<noteq> 0 then r + pg_popcount64_slow (bms_word a i) else r) 0"
proof (induction k)
  case (Suc k)
  have "(bms_members a \<inter> {..<64 * k}) \<inter> chunk a k = {}"
    by (auto simp: chunk_def)
  then have "card (bms_members a \<inter> {..<64 * Suc k}) = card (bms_members a \<inter> {..<64 * k}) + card (chunk a k)"
    unfolding members_below_Suc by (intro card_Un_disjoint) (auto simp: chunk_def)
  then show ?case
    using Suc.IH by (simp add: for_range_Suc card_chunk pg_popcount64_slow_spec)
qed (simp add: for_range_def)

lemma for_range_cong:
  "(\<And>i s. lo \<le> i \<Longrightarrow> i < hi \<Longrightarrow> f i s = g i s) \<Longrightarrow> for_range lo hi f s = for_range lo hi g s"
  unfolding for_range_def by (rule fold_cong) auto

lemma bms_num_members_eq [bms_simps]: "bms_num_members a = card (bms_members a)"
proof (cases a)
  case (Some s)
  have "bms_num_members a = card (bms_members (Some s) \<inter> {..<64 * nwords s})"
    unfolding card_members_below Some bms_num_members_def option.case Let_def
    by (rule for_range_cong) (simp add: bms_word_def)
  then show ?thesis unfolding members_below_all Some .
qed (simp add: bms_num_members_def)

text \<open>
  The three loops that look for a sole member keep the same state: nothing seen so far, or one
  member and which.
\<close>

definition sole_so_far :: "bms \<Rightarrow> nat \<Rightarrow> int \<Rightarrow> bool" where
  "sole_so_far a i r \<longleftrightarrow>
     r = -1 \<and> bms_members a \<inter> {..<64 * i} = {} \<or> 0 \<le> r \<and> bms_members a \<inter> {..<64 * i} = {nat r}"

definition two_members :: "bms \<Rightarrow> bool" where
  "two_members a \<longleftrightarrow> (\<exists>x y. x \<noteq> y \<and> x \<in> bms_members a \<and> y \<in> bms_members a)"

lemma sole_so_far_0 [simp]: "sole_so_far a 0 (-1)"
  by (simp add: sole_so_far_def)

lemma sole_so_far_zero:
  "sole_so_far a i r \<Longrightarrow> bms_word a i = 0 \<Longrightarrow> sole_so_far a (Suc i) r"
  using chunk_empty_iff [of a i] unfolding sole_so_far_def members_below_Suc by simp

lemma sole_so_far_single:
  assumes "sole_so_far a i r" and "\<not> 0 \<le> r" and "bms_word a i \<noteq> 0"
    and "\<not> HAS_MULTIPLE_ONES (bms_word a i)"
  shows "sole_so_far a (Suc i) (int (64 * i) + int (pg_rightmost_one_pos64 (bms_word a i)))"
  using assms(1,2) chunk_singleton [OF assms(3,4)]
  unfolding sole_so_far_def members_below_Suc by (simp add: nat_add_distrib nat_mult_distrib)

lemma sole_so_far_two:
  assumes "sole_so_far a i r" and "bms_word a i \<noteq> 0"
    and "0 \<le> r \<or> HAS_MULTIPLE_ONES (bms_word a i)"
  shows "two_members a"
proof (cases "HAS_MULTIPLE_ONES (bms_word a i)")
  case True
  then show ?thesis
    using chunk_multiple [OF assms(2)] by (auto simp: two_members_def chunk_def)
next
  case False
  with assms have "nat r \<in> bms_members a \<inter> {..<64 * i}"
    by (auto simp: sole_so_far_def)
  moreover from assms(2) obtain y where "y \<in> chunk a i"
    using chunk_empty_iff [of a i] by auto
  ultimately show ?thesis
    unfolding two_members_def chunk_def by (metis Int_iff atLeastLessThan_iff lessThan_iff not_le)
qed

lemma two_members_iff: "two_members a \<longleftrightarrow> 2 \<le> card (bms_members a)"
proof
  assume "two_members a"
  then obtain x y where "x \<noteq> y" "{x, y} \<subseteq> bms_members a"
    by (auto simp: two_members_def)
  then show "2 \<le> card (bms_members a)"
    using card_mono [OF finite_bms_members] by (metis card_2_iff)
next
  assume "2 \<le> card (bms_members a)"
  then show "two_members a"
    unfolding two_members_def by (metis card_le_Suc0_iff_eq finite_bms_members not_less_eq_eq numeral_2_eq_2)
qed

lemma sole_so_far_final:
  assumes "sole_so_far (Some s) (nwords s) r"
  shows "bms_members (Some s) = (if r < 0 then {} else {nat r})"
  using assms unfolding sole_so_far_def members_below_all by auto

lemma sole_loop:
  assumes "\<And>i r. i < nwords s \<Longrightarrow> bms_word (Some s) i = 0 \<Longrightarrow> f i r = Inl r"
    and "\<And>i r. i < nwords s \<Longrightarrow> bms_word (Some s) i \<noteq> 0 \<Longrightarrow>
           0 \<le> r \<or> HAS_MULTIPLE_ONES (bms_word (Some s) i) \<Longrightarrow> f i r = Inr e"
    and "\<And>i r. i < nwords s \<Longrightarrow> bms_word (Some s) i \<noteq> 0 \<Longrightarrow>
           \<not> 0 \<le> r \<Longrightarrow> \<not> HAS_MULTIPLE_ONES (bms_word (Some s) i) \<Longrightarrow>
           f i r = Inl (int (64 * i) + int (pg_rightmost_one_pos64 (bms_word (Some s) i)))"
  shows "case for_ret [0..<nwords s] f (-1) of
      Inl r \<Rightarrow> bms_members (Some s) = (if r < 0 then {} else {nat r})
    | Inr e' \<Rightarrow> e' = e \<and> two_members (Some s)"
proof -
  have "case for_ret [0..<nwords s] f (-1) of
      Inl r \<Rightarrow> sole_so_far (Some s) (nwords s) r
    | Inr e' \<Rightarrow> e' = e \<and> two_members (Some s)"
  proof (rule for_ret_invariant)
    fix i and r :: int
    assume i: "i < nwords s" and inv: "sole_so_far (Some s) i r"
    show "case f i r of Inl r' \<Rightarrow> sole_so_far (Some s) (Suc i) r'
        | Inr e' \<Rightarrow> e' = e \<and> two_members (Some s)"
      using assms(1) [OF i] assms(2,3) [OF i, of r] sole_so_far_zero [OF inv]
        sole_so_far_single [OF inv] sole_so_far_two [OF inv]
      by (cases "bms_word (Some s) i = 0"; cases "0 \<le> r \<or> HAS_MULTIPLE_ONES (bms_word (Some s) i)") auto
  qed auto
  then show ?thesis
    using sole_so_far_final by (auto split: sum.splits)
qed

lemma bms_singleton_member_eq [bms_simps]:
  "bms_singleton_member a =
     (if card (bms_members a) = 0 then Inl ERRCODE_UNEXPECTED_NULL_VALUE
      else if card (bms_members a) = 1 then Inr (int (the_elem (bms_members a)))
      else Inl ERRCODE_DATA_EXCEPTION)"
proof (cases a)
  case (Some s)
  let ?f = "\<lambda>wordnum result.
     let w = words s ! wordnum
     in if w \<noteq> 0 then
          (if result \<ge> 0 \<or> HAS_MULTIPLE_ONES w then Inr ERRCODE_DATA_EXCEPTION
           else Inl (int (wordnum * BITS_PER_BITMAPWORD) + int (pg_rightmost_one_pos64 w)))
        else Inl result"
  have "case for_ret [0..<nwords s] ?f (-1) of
      Inl r \<Rightarrow> bms_members (Some s) = (if r < 0 then {} else {nat r})
    | Inr e' \<Rightarrow> e' = ERRCODE_DATA_EXCEPTION \<and> two_members (Some s)"
    by (rule sole_loop) (auto simp: bms_word_def Let_def BITS_PER_BITMAPWORD_def)
  then show ?thesis
    unfolding Some two_members_iff bms_singleton_member_def option.case
    by (auto split: sum.splits if_splits)
qed (simp add: bms_singleton_member_def)

lemma bms_membership_eq [bms_simps]:
  "bms_membership a =
     (if card (bms_members a) = 0 then BMS_EMPTY_SET
      else if card (bms_members a) = 1 then BMS_SINGLETON else BMS_MULTIPLE)"
proof (cases a)
  case (Some s)
  let ?f = "\<lambda>wordnum result.
     let w = words s ! wordnum
     in if w \<noteq> 0 then
          (if result \<noteq> BMS_EMPTY_SET \<or> HAS_MULTIPLE_ONES w then Inr BMS_MULTIPLE else Inl BMS_SINGLETON)
        else Inl result"
  let ?Inv = "\<lambda>i r. \<exists>k. sole_so_far (Some s) i k \<and> r = (if 0 \<le> k then BMS_SINGLETON else BMS_EMPTY_SET)"
  have "case for_ret [0..<nwords s] ?f BMS_EMPTY_SET of
      Inl r \<Rightarrow> ?Inv (nwords s) r | Inr r \<Rightarrow> r = BMS_MULTIPLE \<and> two_members (Some s)"
  proof (rule for_ret_invariant)
    show "?Inv 0 BMS_EMPTY_SET" by (rule exI [of _ "-1"]) simp
    fix i r assume i: "i < nwords s" and "?Inv i r"
    then obtain k where k: "sole_so_far (Some s) i k" "r = (if 0 \<le> k then BMS_SINGLETON else BMS_EMPTY_SET)"
      by blast
    show "case ?f i r of Inl r' \<Rightarrow> ?Inv (Suc i) r' | Inr r' \<Rightarrow> r' = BMS_MULTIPLE \<and> two_members (Some s)"
      using i k(2) sole_so_far_zero [OF k(1)] sole_so_far_single [OF k(1)] sole_so_far_two [OF k(1)]
      by (auto simp: Let_def bms_word_def split: if_splits)
  qed auto
  then show ?thesis
    unfolding Some two_members_iff bms_membership_def option.case
    by (auto split: sum.splits if_splits dest!: sole_so_far_final)
qed (simp add: bms_membership_def)

lemma rightmost_drop_8:
  assumes "w \<noteq> 0" and "w AND 255 = 0"
  shows "drop_bit 8 w \<noteq> 0" and "pg_rightmost_one_pos64 w = 8 + pg_rightmost_one_pos64 (drop_bit 8 w)"
proof -
  have low: "\<not> bit w m" if "m < 8" for m
    using that assms(2) bit_unat_and_255 [of w m] by simp
  note spec = pg_rightmost_one_pos64_spec [OF assms(1)]
  let ?k = "pg_rightmost_one_pos64 w"
  have "8 \<le> ?k" using low spec(1) not_le by blast
  then have "bit (drop_bit 8 w) (?k - 8)"
    using spec(1) by (simp add: bit_drop_bit_eq)
  then show "drop_bit 8 w \<noteq> 0" by auto
  have "pg_rightmost_one_pos64 (drop_bit 8 w) = ?k - 8"
    using \<open>8 \<le> ?k\<close> spec by (intro pg_rightmost_one_pos64_eqI) (auto simp: bit_drop_bit_eq)
  with \<open>8 \<le> ?k\<close> show "?k = 8 + pg_rightmost_one_pos64 (drop_bit 8 w)" by simp
qed

lemma singleton_byte_loop_spec:
  "w \<noteq> 0 \<Longrightarrow> singleton_byte_loop w r = (w', r') \<Longrightarrow>
     r' + pg_rightmost_one_pos64 w' = r + pg_rightmost_one_pos64 w"
proof (induction w r rule: singleton_byte_loop.induct)
  case (1 w r)
  show ?case
  proof (cases "w AND 255 = 0")
    case True
    note drop = rightmost_drop_8 [OF "1.prems"(1) True]
    from "1.prems" True have "singleton_byte_loop (drop_bit 8 w) (r + 8) = (w', r')"
      by (simp only: singleton_byte_loop.simps [of w r] simp_thms if_True)
    from "1.IH" [OF _ drop(1) this] "1.prems"(1) True show ?thesis
      unfolding drop(2) by simp
  next
    case False
    with "1.prems" show ?thesis by (simp add: singleton_byte_loop.simps [of w r])
  qed
qed

lemma bms_get_singleton_member_eq [bms_simps]:
  "bms_get_singleton_member a =
     (if card (bms_members a) = 1 then Some (int (the_elem (bms_members a))) else None)"
proof (cases a)
  case (Some s)
  let ?f = "\<lambda>wordnum result.
     let w = words s ! wordnum
     in if w \<noteq> 0 then
          (if result \<ge> 0 \<or> HAS_MULTIPLE_ONES w then Inr ()
           else case singleton_byte_loop w (wordnum * BITS_PER_BITMAPWORD) of
             (w', result') \<Rightarrow> Inl (int result' + int (pg_rightmost_one_pos64 w')))
        else Inl result"
  have "case for_ret [0..<nwords s] ?f (-1) of
      Inl r \<Rightarrow> bms_members (Some s) = (if r < 0 then {} else {nat r})
    | Inr e' \<Rightarrow> e' = () \<and> two_members (Some s)"
    by (rule sole_loop)
      (auto simp: bms_word_def Let_def BITS_PER_BITMAPWORD_def simp flip: of_nat_add split: prod.split
        dest: singleton_byte_loop_spec)
  then show ?thesis
    unfolding Some two_members_iff bms_get_singleton_member_def option.case
    by (auto split: sum.splits if_splits)
qed (simp add: bms_get_singleton_member_def)

section \<open>Subset comparison\<close>

definition cmp_of :: "nat set \<Rightarrow> nat set \<Rightarrow> BMS_Comparison" where
  "cmp_of A B =
     (if A = B then BMS_EQUAL else if A \<subseteq> B then BMS_SUBSET1
      else if B \<subseteq> A then BMS_SUBSET2 else BMS_DIFFERENT)"

definition below :: "bms \<Rightarrow> nat \<Rightarrow> nat set" where
  "below a i = bms_members a \<inter> {..<64 * i}"

lemma below_Suc: "below a (Suc i) = below a i \<union> chunk a i"
  unfolding below_def by (rule members_below_Suc)

lemma below_chunk_disjoint: "x \<in> below a i \<Longrightarrow> x \<notin> chunk b i"
  by (auto simp: below_def chunk_def)

lemma chunk_subset_iff: "chunk a i \<subseteq> chunk b i \<longleftrightarrow> bms_word a i AND NOT (bms_word b i) = 0"
proof -
  have "chunk a i \<subseteq> chunk b i \<longleftrightarrow> {j. bit (bms_word a i) j} \<subseteq> {j. bit (bms_word b i) j}"
    unfolding chunk_eq by (rule inj_image_subset_iff) (simp add: inj_def)
  also have "\<dots> \<longleftrightarrow> bms_word a i AND NOT (bms_word b i) = 0"
    by (auto simp: bitmapword_zero_iff bit_and_iff bit_not_iff dest: bit_index_less)
  finally show ?thesis .
qed

lemma below_subset_Suc:
  "below a (Suc i) \<subseteq> below b (Suc i) \<longleftrightarrow>
     below a i \<subseteq> below b i \<and> bms_word a i AND NOT (bms_word b i) = 0"
  unfolding below_Suc chunk_subset_iff [symmetric]
  using below_chunk_disjoint by blast

text \<open>The comparison depends on the two inclusions only.\<close>

definition cmp_incl :: "bool \<Rightarrow> bool \<Rightarrow> BMS_Comparison" where
  "cmp_incl p q = (if p then (if q then BMS_EQUAL else BMS_SUBSET1) else if q then BMS_SUBSET2 else BMS_DIFFERENT)"

lemma cmp_of_incl: "cmp_of A B = cmp_incl (A \<subseteq> B) (B \<subseteq> A)"
  by (auto simp: cmp_of_def cmp_incl_def)

lemma cmp_common_step:
  assumes "r = cmp_of (below a i) (below b i)" and "r \<noteq> BMS_DIFFERENT"
  shows "case cmp_common (bms_word a i) (bms_word b i) r of
      Inl r' \<Rightarrow> r' = cmp_of (below a (Suc i)) (below b (Suc i)) \<and> r' \<noteq> BMS_DIFFERENT
    | Inr r' \<Rightarrow> r' = BMS_DIFFERENT \<and> cmp_of (below a (Suc i)) (below b (Suc i)) = BMS_DIFFERENT"
proof -
  let ?P = "bms_word a i AND NOT (bms_word b i) = 0" and ?Q = "bms_word b i AND NOT (bms_word a i) = 0"
  have ab: "below a (Suc i) \<subseteq> below b (Suc i) \<longleftrightarrow> below a i \<subseteq> below b i \<and> ?P"
    and ba: "below b (Suc i) \<subseteq> below a (Suc i) \<longleftrightarrow> below b i \<subseteq> below a i \<and> ?Q"
    by (rule below_subset_Suc)+
  show ?thesis
    using assms unfolding cmp_of_incl ab ba
    by (cases ?P; cases ?Q; cases "below a i \<subseteq> below b i"; cases "below b i \<subseteq> below a i")
      (simp_all add: cmp_common_def cmp_not_subset12_def cmp_not_subset21_def cmp_incl_def)
qed

lemma cmp_common_loop:
  "case for_ret [lo..<hi] (\<lambda>i. cmp_common (bms_word a i) (bms_word b i)) r of
      Inl r' \<Rightarrow> r' = cmp_of (below a hi) (below b hi) \<and> r' \<noteq> BMS_DIFFERENT
    | Inr r' \<Rightarrow> r' = BMS_DIFFERENT \<and> cmp_of (bms_members a) (bms_members b) = BMS_DIFFERENT"
  if "lo \<le> hi" "r = cmp_of (below a lo) (below b lo)" "r \<noteq> BMS_DIFFERENT"
proof (rule for_ret_invariant)
  show "r = cmp_of (below a lo) (below b lo) \<and> r \<noteq> BMS_DIFFERENT" using that by simp
  fix i r assume inv: "r = cmp_of (below a i) (below b i) \<and> r \<noteq> BMS_DIFFERENT"
  have mono: "cmp_of (bms_members a) (bms_members b) = BMS_DIFFERENT"
    if "cmp_of (below a (Suc i)) (below b (Suc i)) = BMS_DIFFERENT"
    using that by (auto simp: cmp_of_def below_def split: if_splits)
  show "case cmp_common (bms_word a i) (bms_word b i) r of
      Inl r' \<Rightarrow> r' = cmp_of (below a (Suc i)) (below b (Suc i)) \<and> r' \<noteq> BMS_DIFFERENT
    | Inr r' \<Rightarrow> r' = BMS_DIFFERENT \<and> cmp_of (bms_members a) (bms_members b) = BMS_DIFFERENT"
    using cmp_common_step [of r a i b] inv mono by (auto split: sum.splits)
qed (use that in auto)

lemma cmp_common_zero:
  "cmp_common w 0 r = cmp_not_subset12 (w \<noteq> 0) r" "cmp_common 0 w r = cmp_not_subset21 (w \<noteq> 0) r"
  by (auto simp: cmp_common_def cmp_not_subset12_def cmp_not_subset21_def split: sum.splits)

lemma for_ret_cong:
  "(\<And>i s. i \<in> set is \<Longrightarrow> f i s = g i s) \<Longrightarrow> for_ret is f s = for_ret is g s"
  by (induction "is" arbitrary: s) (auto split: sum.splits)

lemma bms_subset_compare_loop:
  "bms_subset_compare (Some sa) (Some sb) =
     (case for_ret [0..<max (nwords sa) (nwords sb)]
        (\<lambda>i. cmp_common (bms_word (Some sa) i) (bms_word (Some sb) i)) BMS_EQUAL
      of Inl r \<Rightarrow> r | Inr r \<Rightarrow> r)"
proof -
  let ?m = "min (nwords sa) (nwords sb)" and ?M = "max (nwords sa) (nwords sb)"
  let ?f = "\<lambda>i. cmp_common (bms_word (Some sa) i) (bms_word (Some sb) i)"
  have common: "for_ret [0..<?m] (\<lambda>i. cmp_common (words sa ! i) (words sb ! i)) BMS_EQUAL =
      for_ret [0..<?m] ?f BMS_EQUAL"
    by (rule for_ret_cong) (simp add: bms_word_def)
  have tail: "(if nwords sa > nwords sb then
        for_ret [?m..<nwords sa] (\<lambda>i. cmp_not_subset12 (words sa ! i \<noteq> 0)) r
      else if nwords sa < nwords sb then
        for_ret [?m..<nwords sb] (\<lambda>i. cmp_not_subset21 (words sb ! i \<noteq> 0)) r
      else Inl r) = for_ret [?m..<?M] ?f r" for r
    by (auto simp: max_def min_def bms_word_def cmp_common_zero intro!: for_ret_cong)
  have "[0..<?M] = [0..<?m] @ [?m..<?M]"
    using upt_add_eq_append [of 0 ?m "?M - ?m"] by simp
  then show ?thesis
    by (simp only: bms_subset_compare_def option.case Let_def common tail for_ret_append split: sum.split)
      simp
qed

lemma bms_subset_compare_eq [bms_simps]:
  "bms_subset_compare a b = cmp_of (bms_members a) (bms_members b)"
proof (cases a; cases b)
  fix sa sb
  assume ab: "a = Some sa" "b = Some sb"
  let ?M = "max (nwords sa) (nwords sb)"
  have all: "below a ?M = bms_members a" "below b ?M = bms_members b"
    unfolding ab below_def by (fastforce dest: members_less)+
  have "BMS_EQUAL = cmp_of (below a 0) (below b 0)" by (simp add: below_def cmp_of_def)
  from cmp_common_loop [OF _ this, of ?M] show ?thesis
    unfolding all unfolding ab bms_subset_compare_loop by (simp split: sum.splits)
qed (simp_all add: bms_subset_compare_def bms_is_empty_iff cmp_of_def)

section \<open>Iteration\<close>

definition next_inv :: "bms \<Rightarrow> nat \<Rightarrow> nat \<Rightarrow> bitmapword \<Rightarrow> bool" where
  "next_inv a p i msk \<longleftrightarrow> p < 64 * Suc i \<and>
     (\<forall>x \<in> bms_members a. p \<le> x \<longrightarrow> 64 * i \<le> x) \<and> (\<forall>j < 64. bit msk j \<longleftrightarrow> p \<le> 64 * i + j)"

lemma next_inv_start: "next_inv a p (p div 64) (push_bit (p mod 64) (NOT 0))"
proof -
  obtain q r where p: "p = 64 * q + r" "r < 64"
    using mod_less_divisor [of 64 p] by (metis mult_div_mod_eq zero_less_numeral)
  then have qr: "p div 64 = q" "p mod 64 = r" by auto
  have "bit (push_bit r (NOT 0) :: bitmapword) j \<longleftrightarrow> p \<le> 64 * q + j" if "j < 64" for j
    using that p by (auto simp: bit_push_bit_iff bit_not_iff bit_mask_iff)
  then show ?thesis
    unfolding next_inv_def qr using p by auto
qed

lemma next_inv_word:
  assumes "next_inv a p i msk"
  shows "bit (bms_word a i AND msk) j \<longleftrightarrow> j < 64 \<and> 64 * i + j \<in> bms_members a \<and> p \<le> 64 * i + j"
  using assms by (auto simp: next_inv_def bit_and_iff member_word_iff dest: bit_index_less)

lemma next_inv_skip:
  assumes inv: "next_inv a p i msk" and zero: "bms_word a i AND msk = 0"
  shows "next_inv a p (Suc i) (NOT 0)"
proof -
  have "64 * Suc i \<le> x" if "x \<in> bms_members a" "p \<le> x" for x
  proof (rule ccontr)
    assume "\<not> 64 * Suc i \<le> x"
    moreover have "64 * i \<le> x" using inv that by (auto simp: next_inv_def)
    ultimately have x: "x = 64 * i + (x - 64 * i)" "x - 64 * i < 64" by auto
    with that have "bit (bms_word a i AND msk) (x - 64 * i)"
      unfolding next_inv_word [OF inv] by simp
    with zero show False by simp
  qed
  moreover have "p \<le> 64 * Suc i + j" "p < 64 * Suc (Suc i)" for j
    using inv by (auto simp: next_inv_def)
  ultimately show ?thesis
    unfolding next_inv_def by (auto simp: bit_not_iff)
qed

lemma next_inv_found:
  assumes inv: "next_inv a p i msk" and nonzero: "bms_word a i AND msk \<noteq> 0"
    and r: "r = 64 * i + pg_rightmost_one_pos64 (bms_word a i AND msk)"
  shows "r \<in> bms_members a \<and> p \<le> r \<and> (\<forall>x \<in> bms_members a. p \<le> x \<longrightarrow> r \<le> x)"
proof -
  let ?w = "bms_word a i AND msk"
  note spec = pg_rightmost_one_pos64_spec [OF nonzero]
  have "r \<le> x" if "x \<in> bms_members a" "p \<le> x" for x
  proof (rule ccontr)
    assume "\<not> r \<le> x"
    moreover have "64 * i \<le> x" using inv that by (auto simp: next_inv_def)
    moreover have "pg_rightmost_one_pos64 ?w < 64" by (rule pg_rightmost_one_pos64_less [OF nonzero])
    ultimately have x: "x = 64 * i + (x - 64 * i)" "x - 64 * i < 64" "x - 64 * i < pg_rightmost_one_pos64 ?w"
      using r by auto
    with that have "bit ?w (x - 64 * i)"
      unfolding next_inv_word [OF inv] by simp
    with spec(2) x(3) show False by blast
  qed
  with spec(1) r show ?thesis
    unfolding next_inv_word [OF inv] by simp
qed

lemma Min_eqI_nat: "finite A \<Longrightarrow> r \<in> A \<Longrightarrow> (\<And>x. x \<in> A \<Longrightarrow> r \<le> x) \<Longrightarrow> Min A = (r :: nat)"
  by (rule Min_eqI)

lemma bms_next_member_eq [bms_simps]:
  assumes "-1 \<le> prevbit"
  shows "bms_next_member a prevbit =
     Inr (if \<exists>n \<in> bms_members a. prevbit < int n then int (Min {n \<in> bms_members a. prevbit < int n}) else -2)"
proof (cases a)
  case None
  with assms show ?thesis by (simp add: bms_next_member_def)
next
  case (Some s)
  define p where "p = nat (prevbit + 1)"
  have p: "prevbit < int x \<longleftrightarrow> p \<le> x" for x using assms by (auto simp: p_def)
  let ?f = "\<lambda>wordnum msk. let w = words s ! wordnum AND msk
     in if w \<noteq> 0 then Inr (int (wordnum * BITS_PER_BITMAPWORD) + int (pg_rightmost_one_pos64 w))
        else Inl (NOT 0)"
  let ?loop = "for_ret [p div 64..<nwords s] ?f (push_bit (p mod 64) (NOT 0))"
  let ?found = "\<lambda>r. \<exists>k. r = int k \<and> k \<in> bms_members a \<and> p \<le> k \<and> (\<forall>x \<in> bms_members a. p \<le> x \<longrightarrow> k \<le> x)"
  have eq: "bms_next_member a prevbit = (case ?loop of Inl _ \<Rightarrow> Inr (-2) | Inr r \<Rightarrow> Inr r)"
    using assms by (simp add: Some bms_next_member_def Let_def WORDNUM_def BITNUM_def BITS_PER_BITMAPWORD_def p_def)
  have step: "case ?f i msk of Inl m \<Rightarrow> next_inv a p (Suc i) m | Inr r \<Rightarrow> ?found r"
    if "i < nwords s" "next_inv a p i msk" for i msk
  proof -
    have w: "bms_word a i = words s ! i" using that(1) by (simp add: Some bms_word_def)
    have "?found (int (i * 64) + int (pg_rightmost_one_pos64 (bms_word a i AND msk)))"
      if nz: "bms_word a i AND msk \<noteq> 0"
      by (rule exI [of _ "64 * i + pg_rightmost_one_pos64 (bms_word a i AND msk)"])
        (use next_inv_found [OF \<open>next_inv a p i msk\<close> nz refl] in auto)
    then show ?thesis
      using next_inv_skip [OF that(2)] by (simp add: Let_def w BITS_PER_BITMAPWORD_def)
  qed
  have none: "\<not> (\<exists>n \<in> bms_members a. p \<le> n)" if "nwords s \<le> p div 64"
    using that members_less [of _ s] by (force simp: Some less_eq_div_iff_mult_less_eq)
  have "case ?loop of Inl m \<Rightarrow> \<not> (\<exists>n \<in> bms_members a. p \<le> n) | Inr r \<Rightarrow> ?found r"
  proof (cases "nwords s \<le> p div 64")
    case True
    then show ?thesis using none by simp
  next
    case False
    then have "case ?loop of Inl m \<Rightarrow> next_inv a p (nwords s) m | Inr r \<Rightarrow> ?found r"
      using next_inv_start step by (intro for_ret_invariant) auto
    moreover have "\<not> (\<exists>n \<in> bms_members a. p \<le> n)" if "next_inv a p (nwords s) m" for m
      using that members_less [of _ s] by (force simp: next_inv_def Some)
    ultimately show ?thesis by (simp split: sum.splits)
  qed
  then show ?thesis
    unfolding eq p by (auto simp: split: sum.splits intro!: arg_cong [of _ _ int] Min_eqI_nat [symmetric])
qed

text \<open>A word with a one-bit, after words without: its lowest bit is the least member.\<close>

lemma first_word_least:
  assumes "bms_members a \<inter> {..<64 * i} = {}" and "bms_word a i \<noteq> 0"
  shows "Min (bms_members a) = 64 * i + pg_rightmost_one_pos64 (bms_word a i)"
proof -
  have "next_inv a 0 i (NOT 0)"
    using assms(1) by (fastforce simp: next_inv_def bit_not_iff not_less)
  from next_inv_found [OF this _ refl] assms(2) show ?thesis
    by (intro Min_eqI_nat) auto
qed

lemma clear_lowest:
  assumes "i < nwords s" and "words s ! i \<noteq> 0"
  shows "bms_members (Some (s\<lparr>words := (words s)[i := words s ! i AND NOT (RIGHTMOST_ONE (words s ! i))]\<rparr>)) =
    bms_members (Some s) - {64 * i + pg_rightmost_one_pos64 (words s ! i)}"
  by (rule members_clear_bit)
    (use assms in \<open>auto simp: bms_word_Some nwords_def nth_list_update RIGHTMOST_ONE_eq pg_rightmost_one_pos64_less\<close>)

lemma rightmost_of_RIGHTMOST_ONE:
  "w \<noteq> 0 \<Longrightarrow> pg_rightmost_one_pos64 (RIGHTMOST_ONE w) = pg_rightmost_one_pos64 w"
  using pg_rightmost_one_pos64_less [of w]
  by (intro pg_rightmost_one_pos64_eqI) (auto simp: RIGHTMOST_ONE_eq bit_exp_iff)

lemma bms_first_member_eq:
  "case bms_first_member a of (r, a') \<Rightarrow>
     if bms_members a = {} then r = -1 \<and> a' = a
     else r = int (Min (bms_members a)) \<and> bms_members a' = bms_members a - {Min (bms_members a)}"
proof (cases a)
  case (Some s)
  let ?f = "\<lambda>wordnum (_ :: unit). let w = words s ! wordnum
     in if w \<noteq> 0 then
          (let w' = RIGHTMOST_ONE w
           in Inr (int (wordnum * BITS_PER_BITMAPWORD) + int (pg_rightmost_one_pos64 w'),
                   s\<lparr>words := (words s)[wordnum := words s ! wordnum AND NOT w']\<rparr>))
        else Inl ()"
  let ?Q = "\<lambda>(r, s'). bms_members a \<noteq> {} \<and> r = int (Min (bms_members a)) \<and>
     bms_members (Some s') = bms_members a - {Min (bms_members a)}"
  have "case for_ret [0..<nwords s] ?f () of
      Inl _ \<Rightarrow> bms_members a \<inter> {..<64 * nwords s} = {} | Inr r \<Rightarrow> ?Q r"
  proof (rule for_ret_invariant [where Inv = "\<lambda>i _. bms_members a \<inter> {..<64 * i} = {}"])
    fix i u assume i: "i < nwords s" and inv: "bms_members a \<inter> {..<64 * i} = {}"
    have w: "bms_word a i = words s ! i" using i by (simp add: Some bms_word_def)
    show "case ?f i u of Inl _ \<Rightarrow> bms_members a \<inter> {..<64 * Suc i} = {} | Inr r \<Rightarrow> ?Q r"
    proof (cases "words s ! i = 0")
      case True
      then show ?thesis
        using inv chunk_empty_iff [of a i] w unfolding members_below_Suc by simp
    next
      case False
      have "bms_members a \<noteq> {}"
        using False w members_empty_iff [of a] by metis
      moreover have "Min (bms_members a) = 64 * i + pg_rightmost_one_pos64 (words s ! i)"
        using first_word_least [OF inv] False w by simp
      ultimately show ?thesis
        using False clear_lowest [OF i False] rightmost_of_RIGHTMOST_ONE [OF False]
        by (simp add: Let_def BITS_PER_BITMAPWORD_def Some)
    qed
  qed auto
  then show ?thesis
    unfolding Some members_below_all bms_first_member_def option.case
    by (auto split: sum.splits)
qed (simp add: bms_first_member_def)

lemma bms_member_index_eq [bms_simps]:
  assumes "0 \<le> x"
  shows "bms_member_index a x =
     Inr (if nat x \<in> bms_members a then int (card {n \<in> bms_members a. n < nat x}) else -1)"
proof (cases "nat x \<in> bms_members a")
  case False
  then show ?thesis by (simp add: bms_member_index_def bms_is_member_eq assms)
next
  case True
  then obtain s where a: "a = Some s" by (cases a) auto
  let ?i = "WORDNUM x" and ?j = "BITNUM x"
  have x: "nat x = 64 * ?i + ?j" "?j < 64" by (simp_all add: bms_defs)
  have len: "?i < nwords s" using True x members_less [of "nat x" s] by (auto simp: a)
  let ?tmp = "bms_word a ?i AND (2 ^ ?j - 1)"
  have tmp: "(\<lambda>j. 64 * ?i + j) ` {j. bit ?tmp j} = {n \<in> chunk a ?i. n < nat x}"
    using x by (auto simp: chunk_eq bit_and_iff bit_mask_iff simp flip: mask_eq_exp_minus_1 dest: bit_index_less)
  have "{n \<in> bms_members a. n < nat x} = (bms_members a \<inter> {..<64 * ?i}) \<union> {n \<in> chunk a ?i. n < nat x}"
    using x by (auto simp: chunk_def)
  moreover have "card (bms_members a \<inter> {..<64 * ?i} \<union> {n \<in> chunk a ?i. n < nat x}) =
      card (bms_members a \<inter> {..<64 * ?i}) + card {n \<in> chunk a ?i. n < nat x}"
    by (rule card_Un_disjoint) (auto simp: chunk_def)
  moreover have "card {n \<in> chunk a ?i. n < nat x} = pg_popcount64_slow ?tmp"
    unfolding tmp [symmetric] by (simp add: card_image inj_on_def pg_popcount64_slow_spec)
  moreover have "for_range 0 ?i (\<lambda>i r. let w = words s ! i in if w \<noteq> 0 then r + pg_popcount64_slow w else r) 0 =
      card (bms_members a \<inter> {..<64 * ?i})"
    unfolding card_members_below by (rule for_range_cong) (use len in \<open>simp add: a bms_word_def\<close>)
  ultimately show ?thesis
    using True assms len by (simp add: bms_member_index_def bms_is_member_eq a Let_def bms_word_def)
qed

lemma last_nonzero_spec:
  "case last_nonzero ws n of
     None \<Rightarrow> \<forall>i < n. ws ! i = 0
   | Some k \<Rightarrow> k < n \<and> ws ! k \<noteq> 0 \<and> (\<forall>i. k < i \<and> i < n \<longrightarrow> ws ! i = 0)"
  by (induction n) (auto split: option.splits simp: less_Suc_eq)

text \<open>What \<open>bms_hash_value\<close> hashes, as a function of the set alone.\<close>

lemma bms_hash_value_cong:
  assumes "bms_members a = bms_members b"
  shows "bms_hash_value h a = bms_hash_value h b"
proof -
  let ?top = "\<lambda>a. case a of None \<Rightarrow> None | Some s \<Rightarrow> last_nonzero (words s) (nwords s)"
  have top: "case ?top a of
      None \<Rightarrow> bms_members a = {} \<and> bms_hash_value h a = 0
    | Some k \<Rightarrow> bms_word a k \<noteq> 0 \<and> (\<forall>i > k. bms_word a i = 0) \<and>
        bms_hash_value h a = h (map (bms_word a) [0..<Suc k])" for a
  proof (cases a)
    case (Some s)
    have "take (k + 1) (words s) = map (bms_word a) [0..<Suc k]" if "k < nwords s" for k
      using that by (intro nth_equalityI) (auto simp: Some bms_word_Some nwords_def nth_append less_Suc_eq)
    then show ?thesis
      using last_nonzero_spec [where ws = "words s" and n = "nwords s"]
      by (auto simp: Some bms_hash_value_def bms_word_Some nwords_def members_empty_iff split: option.splits)
  qed (simp add: bms_hash_value_def)
  have words: "bms_word a = bms_word b"
    using assms by (auto simp: members_eq_iff)
  show ?thesis
    using top [of a] top [of b] assms unfolding words members_empty_iff
    by (auto split: option.splits simp del: upt_Suc) (metis linorder_neqE_nat)+
qed

section \<open>The interfaces\<close>

lemma bms_members_ops [bms_simps]:
  "bms_members (bms_union a b) = bms_members a \<union> bms_members b"
  "bms_members (bms_add_members a b) = bms_members a \<union> bms_members b"
  "bms_members (bms_join a b) = bms_members a \<union> bms_members b"
  "bms_members (bms_intersect a b) = bms_members a \<inter> bms_members b"
  "bms_members (bms_int_members a b) = bms_members a \<inter> bms_members b"
  "bms_members (bms_difference a b) = bms_members a - bms_members b"
  "bms_members (bms_del_members a b) = bms_members a - bms_members b"
  by (auto simp: member_iff bms_simps bit_or_iff bit_and_iff bit_not_iff)

lemma bms_negative:
  "x < 0 \<Longrightarrow> bms_is_member x a = Inl ERRCODE_DATA_EXCEPTION"
  "x < 0 \<Longrightarrow> bms_add_member a x = Inl ERRCODE_DATA_EXCEPTION"
  "x < 0 \<Longrightarrow> bms_del_member a x = Inl ERRCODE_DATA_EXCEPTION"
  "x < 0 \<Longrightarrow> bms_make_singleton x = Inl ERRCODE_DATA_EXCEPTION"
  "x < 0 \<Longrightarrow> bms_member_index a x = Inl ERRCODE_DATA_EXCEPTION"
  by (simp_all add: bms_is_member_def bms_add_member_def bms_del_member_def bms_make_singleton_def
      bms_member_index_def)

interpretation bms_sets: set_ops bms_members None bms_is_member bms_add_member bms_del_member
  bms_union bms_intersect bms_difference
  by unfold_locales
    (use bms_add_member_members bms_del_member_members in \<open>simp_all add: bms_simps bms_negative\<close>)

interpretation bms_iter: set_iteration bms_members bms_next_member
  by unfold_locales (simp_all add: bms_next_member_eq)

section \<open>Properties\<close>

text \<open>
  C39. The seven binary operations compute the set operations their comments name, whatever the
  representation of their arguments: \<open>bms_union\<close>, \<open>bms_add_members\<close> and \<open>bms_join\<close> the union,
  \<open>bms_intersect\<close> and \<open>bms_int_members\<close> the intersection, \<open>bms_difference\<close> and \<open>bms_del_members\<close>
  the difference.
\<close>

theorem bms_binary_operations:
  "bms_members (bms_union a b) = bms_members a \<union> bms_members b \<and>
   bms_members (bms_add_members a b) = bms_members a \<union> bms_members b \<and>
   bms_members (bms_join a b) = bms_members a \<union> bms_members b \<and>
   bms_members (bms_intersect a b) = bms_members a \<inter> bms_members b \<and>
   bms_members (bms_int_members a b) = bms_members a \<inter> bms_members b \<and>
   bms_members (bms_difference a b) = bms_members a - bms_members b \<and>
   bms_members (bms_del_members a b) = bms_members a - bms_members b"
  by (simp add: bms_members_ops)

text \<open>
  C40. The tests decide the relations between the sets, so a NULL pointer, an all-zero array and
  arrays with trailing zero words are not told apart; \<open>bms_subset_compare\<close> gives both inclusions in
  one pass.
\<close>

theorem bms_tests:
  "(bms_is_empty a \<longleftrightarrow> bms_members a = {}) \<and>
   (bms_equal a b \<longleftrightarrow> bms_members a = bms_members b) \<and>
   (bms_is_subset a b \<longleftrightarrow> bms_members a \<subseteq> bms_members b) \<and>
   (bms_overlap a b \<longleftrightarrow> bms_members a \<inter> bms_members b \<noteq> {}) \<and>
   (bms_nonempty_difference a b \<longleftrightarrow> bms_members a - bms_members b \<noteq> {}) \<and>
   bms_subset_compare a b =
     (if bms_members a = bms_members b then BMS_EQUAL
      else if bms_members a \<subseteq> bms_members b then BMS_SUBSET1
      else if bms_members b \<subseteq> bms_members a then BMS_SUBSET2
      else BMS_DIFFERENT)"
  by (simp only: bms_is_empty_iff bms_equal_iff bms_is_subset_iff bms_overlap_iff
      bms_nonempty_difference_iff bms_subset_compare_eq cmp_of_def simp_thms)

text \<open>
  Single members: on a negative number every operation raises \<open>ERRCODE_DATA_EXCEPTION\<close>; on any
  other one \<open>bms_is_member\<close> tests membership, \<open>bms_add_member\<close> and \<open>bms_make_singleton\<close> return a set
  with the member added, growing the array when it is too short, and \<open>bms_del_member\<close> returns the
  set without it.
\<close>

theorem bms_single_members:
  "if x < 0
   then bms_is_member x a = Inl ERRCODE_DATA_EXCEPTION \<and> bms_add_member a x = Inl ERRCODE_DATA_EXCEPTION \<and>
     bms_del_member a x = Inl ERRCODE_DATA_EXCEPTION \<and> bms_make_singleton x = Inl ERRCODE_DATA_EXCEPTION
   else bms_is_member x a = Inr (nat x \<in> bms_members a) \<and>
     (\<exists>a'. bms_add_member a x = Inr a' \<and> bms_members a' = insert (nat x) (bms_members a)) \<and>
     (\<exists>a'. bms_del_member a x = Inr a' \<and> bms_members a' = bms_members a - {nat x}) \<and>
     (\<exists>a'. bms_make_singleton x = Inr a' \<and> bms_members a' = {nat x})"
  using bms_add_member_members [of x a] bms_del_member_members [of x a] bms_make_singleton_members [of x]
  by (simp add: bms_negative bms_is_member_eq)

text \<open>
  Counting: \<open>bms_num_members\<close> is the cardinality (by the byte-table popcount); \<open>bms_membership\<close>
  tells zero, one and more apart; \<open>bms_singleton_member\<close> returns the sole member and raises one
  error for an empty set and another for more than one member; \<open>bms_get_singleton_member\<close> returns
  it exactly for a singleton; \<open>bms_member_index\<close> is the number of smaller members, \<open>-1\<close> for a
  number that is not a member.
\<close>

theorem bms_counting:
  "bms_num_members a = card (bms_members a) \<and>
   bms_membership a = (if card (bms_members a) = 0 then BMS_EMPTY_SET
     else if card (bms_members a) = 1 then BMS_SINGLETON else BMS_MULTIPLE) \<and>
   bms_singleton_member a = (if card (bms_members a) = 0 then Inl ERRCODE_UNEXPECTED_NULL_VALUE
     else if card (bms_members a) = 1 then Inr (int (the_elem (bms_members a)))
     else Inl ERRCODE_DATA_EXCEPTION) \<and>
   bms_get_singleton_member a =
     (if card (bms_members a) = 1 then Some (int (the_elem (bms_members a))) else None) \<and>
   bms_member_index a (int n) =
     Inr (if n \<in> bms_members a then int (card {m \<in> bms_members a. m < n}) else -1)"
  using bms_member_index_eq [of "int n" a]
  by (simp add: bms_num_members_eq bms_membership_eq bms_singleton_member_eq bms_get_singleton_member_eq)

text \<open>
  The iteration idiom \<open>x = -1; while ((x = bms_next_member(a, x)) >= 0)\<close> ends and yields every
  member once, in increasing order; one call more than there are members is enough.
\<close>

theorem bms_iteration:
  assumes "card (bms_members a) < fuel"
  shows "iterate_members bms_next_member fuel a (-1) = Some (map int (sorted_list_of_set (bms_members a)))"
  using assms by (rule bms_iter.iterate_enumerates)

theorem bms_iteration_witness:
  "iterate_members bms_next_member 4 (Some \<lparr>words = [5, 0, 1]\<rparr>) (-1) =
     Some (map int (sorted_list_of_set (bms_members (Some \<lparr>words = [5, 0, 1]\<rparr>)))) \<and>
   iterate_members bms_next_member 4 (Some \<lparr>words = [5, 0, 1]\<rparr>) (-1) = Some [0, 2, 128]"
proof -
  have "bms_num_members (Some \<lparr>words = [5, 0, 1]\<rparr>) = 3"
    by code_simp
  then have "card (bms_members (Some \<lparr>words = [5, 0, 1]\<rparr>)) < 4"
    by (simp add: bms_num_members_eq)
  note enum = bms_iteration [OF this]
  moreover have "iterate_members bms_next_member 4 (Some \<lparr>words = [5, 0, 1]\<rparr>) (-1) = Some [0, 2, 128]"
    by code_simp
  ultimately show ?thesis by blast
qed

text \<open>
  \<open>bms_first_member\<close> removes and returns the least member, and returns \<open>-1\<close> and leaves the set
  alone when there is none.
\<close>

theorem bms_first_member_removes_least:
  "case bms_first_member a of (r, a') \<Rightarrow>
     if bms_members a = {} then r = -1 \<and> a' = a
     else r = int (Min (bms_members a)) \<and> bms_members a' = bms_members a - {Min (bms_members a)}"
  by (rule bms_first_member_eq)

text \<open>
  Sets that \<open>bms_equal\<close> does not tell apart hash alike, for every hash function over the words
  (the requirement stated at \<open>bms_hash_value\<close>).
\<close>

theorem bms_hash_respects_equal:
  assumes "bms_equal a b"
  shows "bms_hash_value h a = bms_hash_value h b"
  using assms by (intro bms_hash_value_cong) (simp add: bms_equal_iff)

theorem bms_hash_respects_equal_witness:
  "bms_equal (Some \<lparr>words = [6, 0]\<rparr>) (Some \<lparr>words = [6, 0, 0]\<rparr>) \<and>
   bms_hash_value (\<lambda>ws. of_nat (length ws)) (Some \<lparr>words = [6, 0]\<rparr>) =
   bms_hash_value (\<lambda>ws. of_nat (length ws)) (Some \<lparr>words = [6, 0, 0]\<rparr>)"
proof -
  have eq: "bms_equal (Some \<lparr>words = [6, 0]\<rparr>) (Some \<lparr>words = [6, 0, 0]\<rparr>)"
    by code_simp
  from eq bms_hash_respects_equal [OF eq] show ?thesis by blast
qed

end
