(* ===== verification/Binary_Heap.thy ===== *)
theory Binary_Heap
  imports Prelude "HOL-Library.Multiset"
begin

text \<open>
  The array heap of \<open>src/common/backend/lib/binaryheap.cpp\<close>: \<open>bh_nodes\<close> has \<open>bh_space\<close> cells of
  which the first \<open>bh_size\<close> are in use. The comparator is called with the pointer \<open>bh_arg\<close>, through
  which it may read state that changes between calls (the reorder buffer's does), so every operation
  that compares takes the comparator as it is at the time of the call.
  \<open>elog(ERROR, ...)\<close> is \<open>Inl\<close>; \<open>None\<close> is a failed \<open>Assert\<close>, a call the code forbids.

  \<open>heap_order\<close> states what the comparator must satisfy. Inside it each operation is shown to keep
  the heap property and to add, remove or replace exactly the element it names.
\<close>

section \<open>The code\<close>

record 'd binaryheap =
  bh_size :: nat
  bh_space :: nat
  bh_has_heap_property :: bool
  bh_nodes :: "'d list"

type_synonym 'd comparator = "'d \<Rightarrow> 'd \<Rightarrow> int"

text \<open>\<open>mem\<close> is the content of the freshly allocated cells.\<close>

definition binaryheap_allocate :: "nat \<Rightarrow> 'd list \<Rightarrow> 'd binaryheap" where
  "binaryheap_allocate capacity mem =
     \<lparr>bh_size = 0, bh_space = capacity, bh_has_heap_property = True, bh_nodes = mem\<rparr>"

definition binaryheap_reset :: "'d binaryheap \<Rightarrow> 'd binaryheap" where
  "binaryheap_reset heap = heap\<lparr>bh_size := 0, bh_has_heap_property := True\<rparr>"

definition binaryheap_empty :: "'d binaryheap \<Rightarrow> bool" where
  "binaryheap_empty h \<longleftrightarrow> bh_size h = 0"

definition left_offset :: "nat \<Rightarrow> nat" where
  "left_offset i = 2 * i + 1"

definition right_offset :: "nat \<Rightarrow> nat" where
  "right_offset i = 2 * i + 2"

text \<open>\<open>(i - 1) / 2\<close> in C truncates towards zero: 0 for \<open>i = 0\<close>, and \<open>-1\<close> for \<open>i = -1\<close>.\<close>

definition parent_offset :: "int \<Rightarrow> int" where
  "parent_offset i = (if i - 1 < 0 then - ((1 - i) div 2) else (i - 1) div 2)"

definition swap_nodes :: "'d binaryheap \<Rightarrow> nat \<Rightarrow> nat \<Rightarrow> 'd binaryheap" where
  "swap_nodes heap a b =
     (let swap = bh_nodes heap ! a;
          nodes = (bh_nodes heap)[a := bh_nodes heap ! b]
      in heap\<lparr>bh_nodes := nodes[b := swap]\<rparr>)"

lemma swap_nodes_simps [simp]:
  "bh_size (swap_nodes heap a b) = bh_size heap"
  "bh_space (swap_nodes heap a b) = bh_space heap"
  "bh_has_heap_property (swap_nodes heap a b) = bh_has_heap_property heap"
  "length (bh_nodes (swap_nodes heap a b)) = length (bh_nodes heap)"
  by (simp_all add: swap_nodes_def Let_def)

function sift_up :: "'d comparator \<Rightarrow> 'd binaryheap \<Rightarrow> nat \<Rightarrow> 'd binaryheap" where
  "sift_up compare heap node_off =
     (if node_off \<noteq> 0 then
        (let parent_off = nat (parent_offset (int node_off));
             cmp = compare (bh_nodes heap ! node_off) (bh_nodes heap ! parent_off)
         in if cmp \<le> 0 then heap
            else sift_up compare (swap_nodes heap node_off parent_off) parent_off)
      else heap)"
  by pat_completeness auto
termination
  by (relation "measure (\<lambda>(c, h, n). n)") (auto simp: parent_offset_def)

declare sift_up.simps [simp del]

text \<open>The choice of \<open>swap_off\<close> in one iteration of \<open>sift_down\<close>; 0 means nothing to swap.\<close>

definition sift_down_swap_off :: "'d comparator \<Rightarrow> 'd binaryheap \<Rightarrow> nat \<Rightarrow> nat" where
  "sift_down_swap_off compare heap node_off =
     (let left_off = left_offset node_off;
          right_off = right_offset node_off;
          nodes = bh_nodes heap;
          swap_off = (if left_off < bh_size heap \<and> compare (nodes ! node_off) (nodes ! left_off) < 0
                      then left_off else 0)
      in if right_off < bh_size heap \<and> compare (nodes ! node_off) (nodes ! right_off) < 0
         then (if swap_off = 0 \<or> compare (nodes ! left_off) (nodes ! right_off) < 0
               then right_off else swap_off)
         else swap_off)"

lemma sift_down_swap_off_bounds:
  "0 < sift_down_swap_off c h n \<Longrightarrow> n < sift_down_swap_off c h n \<and> sift_down_swap_off c h n < bh_size h"
  by (auto simp: sift_down_swap_off_def Let_def left_offset_def right_offset_def split: if_splits)

function sift_down :: "'d comparator \<Rightarrow> 'd binaryheap \<Rightarrow> nat \<Rightarrow> 'd binaryheap" where
  "sift_down compare heap node_off =
     (let swap_off = sift_down_swap_off compare heap node_off
      in if swap_off = 0 then heap
         else sift_down compare (swap_nodes heap swap_off node_off) swap_off)"
  by pat_completeness auto
termination
  by (relation "measure (\<lambda>(c, h, n). bh_size h - n)") (auto dest!: sift_down_swap_off_bounds intro: diff_less_mono2)

declare sift_down.simps [simp del]

definition binaryheap_add_unordered :: "'d binaryheap \<Rightarrow> 'd \<Rightarrow> 'd binaryheap result" where
  "binaryheap_add_unordered heap d =
     (if bh_size heap \<ge> bh_space heap then Inl ERRCODE_INTERNAL_ERROR
      else Inr (heap\<lparr>bh_has_heap_property := False,
                     bh_nodes := (bh_nodes heap)[bh_size heap := d],
                     bh_size := bh_size heap + 1\<rparr>))"

text \<open>\<open>for (i = parent_offset(bh_size - 1); i >= 0; i--)\<close>: no iteration for an empty heap.\<close>

definition binaryheap_build :: "'d comparator \<Rightarrow> 'd binaryheap \<Rightarrow> 'd binaryheap" where
  "binaryheap_build compare heap =
     (let start = parent_offset (int (bh_size heap) - 1)
      in (fold (\<lambda>i h. sift_down compare h i) (rev [0..<nat (start + 1)]) heap)
           \<lparr>bh_has_heap_property := True\<rparr>)"

definition binaryheap_add :: "'d comparator \<Rightarrow> 'd binaryheap \<Rightarrow> 'd \<Rightarrow> 'd binaryheap result" where
  "binaryheap_add compare heap d =
     (if bh_size heap \<ge> bh_space heap then Inl ERRCODE_INTERNAL_ERROR
      else let heap' = heap\<lparr>bh_nodes := (bh_nodes heap)[bh_size heap := d], bh_size := bh_size heap + 1\<rparr>
           in Inr (sift_up compare heap' (bh_size heap' - 1)))"

definition binaryheap_first :: "'d binaryheap \<Rightarrow> 'd option" where
  "binaryheap_first heap =
     (if binaryheap_empty heap \<or> \<not> bh_has_heap_property heap then None
      else Some (bh_nodes heap ! 0))"

definition binaryheap_remove_first :: "'d comparator \<Rightarrow> 'd binaryheap \<Rightarrow> ('d \<times> 'd binaryheap) option" where
  "binaryheap_remove_first compare heap =
     (if binaryheap_empty heap \<or> \<not> bh_has_heap_property heap then None
      else if bh_size heap = 1 then
        (let heap' = heap\<lparr>bh_size := bh_size heap - 1\<rparr>
         in Some (bh_nodes heap' ! 0, heap'))
      else
        (let heap1 = swap_nodes heap 0 (bh_size heap - 1);
             heap2 = heap1\<lparr>bh_size := bh_size heap1 - 1\<rparr>;
             heap3 = sift_down compare heap2 0
         in Some (bh_nodes heap3 ! bh_size heap3, heap3)))"

definition binaryheap_replace_first :: "'d comparator \<Rightarrow> 'd binaryheap \<Rightarrow> 'd \<Rightarrow> 'd binaryheap option" where
  "binaryheap_replace_first compare heap d =
     (if binaryheap_empty heap \<or> \<not> bh_has_heap_property heap then None
      else let heap' = heap\<lparr>bh_nodes := (bh_nodes heap)[0 := d]\<rparr>
           in Some (if bh_size heap' > 1 then sift_down compare heap' 0 else heap'))"

section \<open>What a heap holds\<close>

definition heap_wf :: "'d binaryheap \<Rightarrow> bool" where
  "heap_wf h \<longleftrightarrow> bh_size h \<le> bh_space h \<and> length (bh_nodes h) = bh_space h"

definition heap_elems :: "'d binaryheap \<Rightarrow> 'd multiset" where
  "heap_elems h = mset (take (bh_size h) (bh_nodes h))"

text \<open>Node \<open>i\<close> is not larger than its parent.\<close>

definition heap_ok :: "'d comparator \<Rightarrow> 'd binaryheap \<Rightarrow> nat \<Rightarrow> bool" where
  "heap_ok c h i \<longleftrightarrow> 0 \<le> c (bh_nodes h ! ((i - 1) div 2)) (bh_nodes h ! i)"

definition heap_property :: "'d comparator \<Rightarrow> 'd binaryheap \<Rightarrow> bool" where
  "heap_property c h \<longleftrightarrow> (\<forall>i. 0 < i \<and> i < bh_size h \<longrightarrow> heap_ok c h i)"

definition heap_invar :: "'d comparator \<Rightarrow> 'd binaryheap \<Rightarrow> bool" where
  "heap_invar c h \<longleftrightarrow> heap_wf h \<and> bh_has_heap_property h \<and> heap_property c h"

lemma parent_offset_nat: "0 < i \<Longrightarrow> nat (parent_offset (int i)) = (i - 1) div 2"
  by (auto simp: parent_offset_def nat_div_distrib)

lemma heap_wf_swap [simp]: "heap_wf (swap_nodes h a b) \<longleftrightarrow> heap_wf h"
  by (simp add: heap_wf_def)

lemma nodes_swap:
  assumes "heap_wf h" and "a < bh_size h" and "b < bh_size h"
  shows "bh_nodes (swap_nodes h a b) ! i =
     (if i = a then bh_nodes h ! b else if i = b then bh_nodes h ! a else bh_nodes h ! i)"
  using assms by (auto simp: swap_nodes_def Let_def heap_wf_def nth_list_update)

lemma heap_elems_swap [simp]:
  assumes "heap_wf h" and "a < bh_size h" and "b < bh_size h"
  shows "heap_elems (swap_nodes h a b) = heap_elems h"
  using assms mset_swap [of b "take (bh_size h) (bh_nodes h)" a]
  by (simp add: heap_elems_def swap_nodes_def Let_def heap_wf_def take_update_swap)

lemma sift_down_frame [simp]:
  "bh_size (sift_down c h n) = bh_size h"
  "bh_space (sift_down c h n) = bh_space h"
  "bh_has_heap_property (sift_down c h n) = bh_has_heap_property h"
  "length (bh_nodes (sift_down c h n)) = length (bh_nodes h)"
  by (induction c h n rule: sift_down.induct; subst sift_down.simps; simp add: Let_def)+

lemma sift_up_frame [simp]:
  "bh_size (sift_up c h n) = bh_size h"
  "bh_space (sift_up c h n) = bh_space h"
  "bh_has_heap_property (sift_up c h n) = bh_has_heap_property h"
  "length (bh_nodes (sift_up c h n)) = length (bh_nodes h)"
  by (induction c h n rule: sift_up.induct; subst sift_up.simps; simp add: Let_def)+

section \<open>Sifting under a total preorder\<close>

text \<open>
  The header's requirement on comparators: negative, zero or positive as \<open>a\<close> is before, equal to
  or after \<open>b\<close> in a total preorder.
\<close>

locale heap_order =
  fixes c :: "'d comparator"
  assumes cmp_sym: "0 < c a b \<longleftrightarrow> c b a < 0"
    and cmp_trans: "0 \<le> c a b \<Longrightarrow> 0 \<le> c b d \<Longrightarrow> 0 \<le> c a d"
begin

lemma cmp_refl: "c a a = 0"
  using cmp_sym [of a a] by linarith

lemma cmp_flip: "c a b \<le> 0 \<longleftrightarrow> 0 \<le> c b a"
  using cmp_sym [of a b] cmp_sym [of b a] by linarith

lemma cmp_not_less: "\<not> c a b < 0 \<longleftrightarrow> 0 \<le> c a b"
  by linarith

text \<open>
  \<open>down_inv lo h n\<close>: the heap property holds below \<open>lo\<close> except between \<open>n\<close> and its children, whose
  grandparent (when it is at or below \<open>lo\<close>) bounds them. The loop of \<open>sift_down\<close> keeps it.
\<close>

definition down_inv :: "nat \<Rightarrow> 'd binaryheap \<Rightarrow> nat \<Rightarrow> bool" where
  "down_inv lo h n \<longleftrightarrow> heap_wf h \<and> lo \<le> n \<and>
     (\<forall>i. 0 < i \<and> i < bh_size h \<and> lo \<le> (i - 1) div 2 \<and> (i - 1) div 2 \<noteq> n \<longrightarrow> heap_ok c h i) \<and>
     (\<forall>i. 0 < i \<and> i < bh_size h \<and> (i - 1) div 2 = n \<and> 0 < n \<and> lo \<le> (n - 1) div 2 \<longrightarrow>
        0 \<le> c (bh_nodes h ! ((n - 1) div 2)) (bh_nodes h ! i))"

lemma swap_off_zero:
  assumes "sift_down_swap_off c h n = 0" and "0 < i" and "i < bh_size h" and "(i - 1) div 2 = n"
  shows "heap_ok c h i"
proof -
  have "i = left_offset n \<or> i = right_offset n"
    using assms(2,4) by (auto simp: left_offset_def right_offset_def)
  with assms show ?thesis
    by (auto simp: sift_down_swap_off_def Let_def heap_ok_def left_offset_def right_offset_def not_less
        split: if_splits)
qed

lemma swap_off_cases:
  obtains (none) "sift_down_swap_off c h n = 0"
  | (left) "sift_down_swap_off c h n = left_offset n"
      "c (bh_nodes h ! n) (bh_nodes h ! left_offset n) < 0"
      "right_offset n < bh_size h \<Longrightarrow> 0 \<le> c (bh_nodes h ! left_offset n) (bh_nodes h ! right_offset n)"
  | (right) "sift_down_swap_off c h n = right_offset n"
      "c (bh_nodes h ! n) (bh_nodes h ! right_offset n) < 0"
      "left_offset n < bh_size h \<Longrightarrow> 0 \<le> c (bh_nodes h ! right_offset n) (bh_nodes h ! left_offset n)"
proof -
  let ?n = "bh_nodes h ! n" and ?l = "bh_nodes h ! left_offset n" and ?r = "bh_nodes h ! right_offset n"
  have lr: "0 \<le> c ?l ?r" if "c ?n ?l < 0" "\<not> c ?n ?r < 0"
    using that cmp_trans [of ?l ?n ?r] cmp_flip [of ?n ?l] by linarith
  have rl: "0 \<le> c ?r ?l" if "c ?n ?r < 0" "\<not> c ?n ?l < 0"
    using that cmp_trans [of ?r ?n ?l] cmp_flip [of ?n ?r] by linarith
  have lr': "0 \<le> c ?r ?l" if "c ?l ?r < 0"
    using that cmp_flip [of ?l ?r] by linarith
  have nz: "left_offset n \<noteq> 0" "right_offset n \<noteq> 0" by (simp_all add: left_offset_def right_offset_def)
  show ?thesis
  proof (cases "right_offset n < bh_size h \<and> c ?n ?r < 0")
    case False
    then have "sift_down_swap_off c h n = (if left_offset n < bh_size h \<and> c ?n ?l < 0 then left_offset n else 0)"
      by (auto simp: sift_down_swap_off_def Let_def)
    with False lr none left show ?thesis by (auto split: if_splits)
  next
    case r: True
    show ?thesis
    proof (cases "left_offset n < bh_size h \<and> c ?n ?l < 0")
      case True
      with r nz have "sift_down_swap_off c h n = (if c ?l ?r < 0 then right_offset n else left_offset n)"
        by (simp add: sift_down_swap_off_def Let_def)
      with True r lr' left right show ?thesis by (auto simp: not_less split: if_splits)
    next
      case False
      with r nz have "sift_down_swap_off c h n = right_offset n"
        by (auto simp: sift_down_swap_off_def Let_def)
      with False r rl right show ?thesis by auto
    qed
  qed
qed

lemma swap_off_max:
  assumes "0 < sift_down_swap_off c h n"
  shows "(sift_down_swap_off c h n - 1) div 2 = n"
    and "c (bh_nodes h ! n) (bh_nodes h ! sift_down_swap_off c h n) < 0"
    and "0 < i \<Longrightarrow> i < bh_size h \<Longrightarrow> (i - 1) div 2 = n \<Longrightarrow>
      0 \<le> c (bh_nodes h ! sift_down_swap_off c h n) (bh_nodes h ! i)"
proof -
  have i: "i = left_offset n \<or> i = right_offset n" if "0 < i" "(i - 1) div 2 = n"
    using that by (auto simp: left_offset_def right_offset_def)
  have off: "(left_offset n - 1) div 2 = n" "(right_offset n - 1) div 2 = n"
    by (simp_all add: left_offset_def right_offset_def)
  show "(sift_down_swap_off c h n - 1) div 2 = n"
    using assms off by (cases rule: swap_off_cases [of h n]) simp_all
  show "c (bh_nodes h ! n) (bh_nodes h ! sift_down_swap_off c h n) < 0"
    using assms by (cases rule: swap_off_cases [of h n]) simp_all
  show "0 \<le> c (bh_nodes h ! sift_down_swap_off c h n) (bh_nodes h ! i)"
    if "0 < i" "i < bh_size h" "(i - 1) div 2 = n"
    using assms i [OF that(1,3)] that(2) by (cases rule: swap_off_cases [of h n]) (auto simp: cmp_refl)
qed

lemma down_inv_step:
  assumes inv: "down_inv lo h n" and nz: "0 < sift_down_swap_off c h n"
  shows "down_inv lo (swap_nodes h (sift_down_swap_off c h n) n) (sift_down_swap_off c h n)"
proof -
  let ?s = "sift_down_swap_off c h n"
  let ?h = "swap_nodes h ?s n" and ?N = "\<lambda>i. bh_nodes h ! i"
  have s: "n < ?s" "?s < bh_size h" using sift_down_swap_off_bounds [OF nz] by auto
  note max = swap_off_max [OF nz]
  have wf: "heap_wf h" and lo: "lo \<le> n" using inv by (auto simp: down_inv_def)
  have N: "bh_nodes ?h ! i = (if i = ?s then ?N n else if i = n then ?N ?s else ?N i)" for i
    using nodes_swap [OF wf s(2), of n i] s by simp
  have up: "0 \<le> c (?N ?s) (?N n)" using max(2) cmp_flip [of "?N n" "?N ?s"] by simp
  have ok: "heap_ok c ?h i"
    if i: "0 < i" "i < bh_size h" "lo \<le> (i - 1) div 2" "(i - 1) div 2 \<noteq> ?s" for i
  proof (cases "(i - 1) div 2 = n")
    case True
    have "i \<noteq> n" using True i(1) by auto
    with True show ?thesis
      using max(3) [OF i(1,2) True] up s(1) by (auto simp: heap_ok_def N)
  next
    case False
    then have old: "heap_ok c h i" using inv i by (auto simp: down_inv_def)
    have "i \<noteq> ?s" using False max(1) by auto
    show ?thesis
    proof (cases "i = n")
      case True
      then have "0 \<le> c (?N ((n - 1) div 2)) (?N ?s)"
        using inv i max(1) s nz by (auto simp: down_inv_def)
      with True False i(4) s(1) show ?thesis by (simp add: heap_ok_def N)
    next
      case ni: False
      with old False i(4) \<open>i \<noteq> ?s\<close> show ?thesis by (simp add: heap_ok_def N)
    qed
  qed
  have grand: "0 \<le> c (bh_nodes ?h ! ((?s - 1) div 2)) (bh_nodes ?h ! i)"
    if i: "0 < i" "i < bh_size h" "(i - 1) div 2 = ?s" for i
  proof -
    have "i \<noteq> ?s" "i \<noteq> n" using i s by auto
    moreover have "heap_ok c h i" using inv i s lo by (auto simp: down_inv_def)
    ultimately show ?thesis using i(3) max(1) s by (simp add: heap_ok_def N)
  qed
  show ?thesis
    unfolding down_inv_def using wf lo s ok grand by auto
qed

lemma sift_down_correct:
  "down_inv lo h n \<Longrightarrow>
     (\<forall>i. 0 < i \<and> i < bh_size h \<and> lo \<le> (i - 1) div 2 \<longrightarrow> heap_ok c (sift_down c h n) i) \<and>
     heap_wf (sift_down c h n) \<and> heap_elems (sift_down c h n) = heap_elems h"
proof (induction "bh_size h - n" arbitrary: h n rule: less_induct)
  case less
  let ?s = "sift_down_swap_off c h n"
  show ?case
  proof (cases "?s = 0")
    case True
    with less.prems show ?thesis
      using swap_off_zero [OF True] by (auto simp: sift_down.simps [of c h n] down_inv_def)
  next
    case False
    then have nz: "0 < ?s" by simp
    let ?h = "swap_nodes h ?s n"
    have s: "n < ?s" "?s < bh_size h" using sift_down_swap_off_bounds [OF nz] by auto
    have "heap_wf h" using less.prems by (simp add: down_inv_def)
    moreover have "bh_size ?h - ?s < bh_size h - n" using s by simp
    ultimately show ?thesis
      using less.hyps [OF _ down_inv_step [OF less.prems nz]] s False
      by (simp add: sift_down.simps [of c h n] Let_def)
  qed
qed

text \<open>
  \<open>up_inv h n\<close>: the heap property holds except between \<open>n\<close> and its parent, and the children of
  \<open>n\<close> are bounded by that parent.
\<close>

definition up_inv :: "'d binaryheap \<Rightarrow> nat \<Rightarrow> bool" where
  "up_inv h n \<longleftrightarrow> heap_wf h \<and> n < bh_size h \<and>
     (\<forall>i. 0 < i \<and> i < bh_size h \<and> i \<noteq> n \<longrightarrow> heap_ok c h i) \<and>
     (\<forall>i. 0 < i \<and> i < bh_size h \<and> (i - 1) div 2 = n \<and> 0 < n \<longrightarrow>
        0 \<le> c (bh_nodes h ! ((n - 1) div 2)) (bh_nodes h ! i))"

lemma up_inv_step:
  assumes inv: "up_inv h n" and n: "0 < n"
    and gt: "0 < c (bh_nodes h ! n) (bh_nodes h ! ((n - 1) div 2))"
  shows "up_inv (swap_nodes h n ((n - 1) div 2)) ((n - 1) div 2)"
proof -
  define p where "p = (n - 1) div 2"
  note gt = gt [folded p_def]
  let ?h = "swap_nodes h n p" and ?N = "\<lambda>i. bh_nodes h ! i"
  have wf: "heap_wf h" and size: "n < bh_size h" using inv by (auto simp: up_inv_def)
  have p: "p < n" "p < bh_size h" using n size by (auto simp: p_def)
  have N: "bh_nodes ?h ! i = (if i = n then ?N p else if i = p then ?N n else ?N i)" for i
    using nodes_swap [OF wf size p(2)] by simp
  have ok: "heap_ok c ?h i" if i: "0 < i" "i < bh_size h" "i \<noteq> p" for i
  proof (cases "i = n")
    case True
    moreover have "(n - 1) div 2 = p" by (simp add: p_def)
    ultimately show ?thesis using gt p by (simp add: heap_ok_def N flip: One_nat_def)
  next
    case False
    then have old: "heap_ok c h i" using inv i by (auto simp: up_inv_def)
    show ?thesis
    proof (cases "(i - 1) div 2 = n")
      case True
      then have "0 \<le> c (?N p) (?N i)" using inv i n by (auto simp: up_inv_def p_def)
      with True False i(3) show ?thesis by (simp add: heap_ok_def N flip: One_nat_def)
    next
      case pn: False
      show ?thesis
      proof (cases "(i - 1) div 2 = p")
        case True
        have "0 \<le> c (?N n) (?N i)"
          using gt old True cmp_trans [of "?N n" "?N p" "?N i"] by (simp add: heap_ok_def)
        with True False i(3) p show ?thesis by (simp add: heap_ok_def N flip: One_nat_def)
      next
        case pp: False
        with old False pn i(3) show ?thesis by (simp add: heap_ok_def N flip: One_nat_def)
      qed
    qed
  qed
  have grand: "0 \<le> c (bh_nodes ?h ! ((p - 1) div 2)) (bh_nodes ?h ! i)"
    if i: "0 < i" "i < bh_size h" "(i - 1) div 2 = p" "0 < p" for i
  proof -
    have g: "(p - 1) div 2 < p" using i(4) by auto
    have top: "0 \<le> c (?N ((p - 1) div 2)) (?N p)"
      using inv i p by (auto simp: up_inv_def heap_ok_def)
    have "i \<noteq> p" using i by auto
    show ?thesis
    proof (cases "i = n")
      case True
      with top g p show ?thesis by (simp add: N)
    next
      case False
      then have "0 \<le> c (?N p) (?N i)" using inv i by (auto simp: up_inv_def heap_ok_def)
      with top have "0 \<le> c (?N ((p - 1) div 2)) (?N i)" by (rule cmp_trans)
      with False \<open>i \<noteq> p\<close> g p show ?thesis by (simp add: N)
    qed
  qed
  show ?thesis unfolding p_def [symmetric] up_inv_def using wf p ok grand by auto
qed

lemma sift_up_correct:
  "up_inv h n \<Longrightarrow> heap_property c (sift_up c h n) \<and> heap_wf (sift_up c h n) \<and>
     heap_elems (sift_up c h n) = heap_elems h"
proof (induction n arbitrary: h rule: less_induct)
  case (less n)
  show ?case
  proof (cases "n = 0")
    case True
    with less.prems show ?thesis
      by (auto simp: sift_up.simps [of c h 0] up_inv_def heap_property_def)
  next
    case False
    let ?p = "(n - 1) div 2"
    have parent: "nat (parent_offset (int n)) = ?p" using False by (simp add: parent_offset_nat)
    show ?thesis
    proof (cases "c (bh_nodes h ! n) (bh_nodes h ! ?p) \<le> 0")
      case True
      then have "heap_ok c h n" by (simp add: heap_ok_def cmp_flip)
      with True False less.prems parent show ?thesis
        by (auto simp: sift_up.simps [of c h n] up_inv_def heap_property_def Let_def)
    next
      case gt: False
      have "?p < n" using False by auto
      moreover have "heap_wf h" "n < bh_size h" "?p < bh_size h"
        using less.prems \<open>?p < n\<close> by (auto simp: up_inv_def)
      ultimately show ?thesis
        using less.IH [of ?p "swap_nodes h n ?p"] up_inv_step [OF less.prems] False gt parent
        by (simp add: sift_up.simps [of c h n] Let_def)
    qed
  qed
qed

lemma root_max:
  "heap_property c h \<Longrightarrow> i < bh_size h \<Longrightarrow> 0 \<le> c (bh_nodes h ! 0) (bh_nodes h ! i)"
proof (induction i rule: less_induct)
  case (less i)
  show ?case
  proof (cases "i = 0")
    case False
    then have "(i - 1) div 2 < i" by auto
    with less.prems have "0 \<le> c (bh_nodes h ! 0) (bh_nodes h ! ((i - 1) div 2))"
      by (intro less.IH) auto
    moreover have "heap_ok c h i" using less.prems False by (simp add: heap_property_def)
    ultimately show ?thesis unfolding heap_ok_def by (rule cmp_trans)
  qed (simp add: cmp_refl)
qed

lemma first_max:
  assumes "heap_invar c h" and "d \<in># heap_elems h"
  shows "0 \<le> c (bh_nodes h ! 0) d"
proof -
  obtain i where "i < bh_size h" "d = bh_nodes h ! i"
    using assms by (auto simp: heap_elems_def in_set_conv_nth heap_invar_def heap_wf_def)
  with assms show ?thesis by (simp add: heap_invar_def root_max)
qed

text \<open>The loop of \<open>binaryheap_build\<close>: after the iteration for \<open>lo\<close> the property holds below \<open>lo\<close>.\<close>

lemma build_loop:
  "heap_wf h \<Longrightarrow> (\<forall>i. 0 < i \<and> i < bh_size h \<and> k \<le> (i - 1) div 2 \<longrightarrow> heap_ok c h i) \<Longrightarrow>
   h' = fold (\<lambda>i h. sift_down c h i) (rev [0..<k]) h \<Longrightarrow>
     heap_property c h' \<and> heap_wf h' \<and> heap_elems h' = heap_elems h \<and> bh_size h' = bh_size h \<and>
     bh_space h' = bh_space h"
proof (induction k arbitrary: h)
  case 0
  then show ?case by (simp add: heap_property_def)
next
  case (Suc k)
  have "down_inv k h k"
    using Suc.prems by (auto simp: down_inv_def)
  note sd = sift_down_correct [OF this]
  with Suc.IH [of "sift_down c h k"] Suc.prems(3) show ?case by simp
qed

lemma build_correct:
  assumes "heap_wf h"
  shows "heap_invar c (binaryheap_build c h)"
    and "heap_elems (binaryheap_build c h) = heap_elems h"
    and "bh_size (binaryheap_build c h) = bh_size h"
    and "bh_space (binaryheap_build c h) = bh_space h"
proof -
  define k where "k = nat (parent_offset (int (bh_size h) - 1) + 1)"
  have k: "\<not> (0 < i \<and> i < bh_size h \<and> k \<le> (i - 1) div 2)" for i
    unfolding k_def parent_offset_def by (auto split: if_splits)
  have b: "binaryheap_build c h =
      (fold (\<lambda>i h. sift_down c h i) (rev [0..<k]) h)\<lparr>bh_has_heap_property := True\<rparr>"
    by (simp add: binaryheap_build_def k_def)
  show "heap_invar c (binaryheap_build c h)"
    and "heap_elems (binaryheap_build c h) = heap_elems h"
    and "bh_size (binaryheap_build c h) = bh_size h"
    and "bh_space (binaryheap_build c h) = bh_space h"
    using build_loop [OF assms _ refl, of k] k
    by (auto simp: b heap_invar_def heap_wf_def heap_elems_def heap_property_def heap_ok_def)
qed

lemma add_correct:
  assumes inv: "heap_invar c h" and add: "binaryheap_add c h d = Inr h'"
  shows "heap_invar c h' \<and> heap_elems h' = add_mset d (heap_elems h) \<and>
    bh_size h' = bh_size h + 1 \<and> bh_space h' = bh_space h"
proof -
  let ?h = "h\<lparr>bh_nodes := (bh_nodes h)[bh_size h := d], bh_size := bh_size h + 1\<rparr>"
  have room: "bh_size h < bh_space h" and h': "h' = sift_up c ?h (bh_size h)"
    using add by (auto simp: binaryheap_add_def Let_def split: if_splits)
  have wf: "heap_wf ?h" using inv room by (simp add: heap_invar_def heap_wf_def)
  have "up_inv ?h (bh_size h)"
    using inv wf by (auto simp: up_inv_def heap_invar_def heap_property_def heap_ok_def)
  note up = sift_up_correct [OF this]
  have "heap_elems ?h = add_mset d (heap_elems h)"
    using inv room by (simp add: heap_elems_def heap_invar_def heap_wf_def take_Suc_conv_app_nth)
  with up show ?thesis using inv by (simp add: h' heap_invar_def)
qed

lemma down_inv_root:
  assumes "heap_wf h" and "\<And>i. 0 < i \<Longrightarrow> i < bh_size h \<Longrightarrow> (i - 1) div 2 \<noteq> 0 \<Longrightarrow> heap_ok c h i"
  shows "heap_property c (sift_down c h 0) \<and> heap_wf (sift_down c h 0) \<and>
    heap_elems (sift_down c h 0) = heap_elems h"
proof -
  have "down_inv 0 h 0" using assms by (auto simp: down_inv_def)
  from sift_down_correct [OF this] show ?thesis by (auto simp: heap_property_def)
qed

text \<open>
  Replacing the root needs the heap property only away from the root: a caller may have changed
  what the comparator says about the root element before the call.
\<close>

lemma replace_first_general:
  assumes wf: "heap_wf h" and bh: "bh_has_heap_property h"
    and ok: "\<And>i. 0 < i \<Longrightarrow> i < bh_size h \<Longrightarrow> (i - 1) div 2 \<noteq> 0 \<Longrightarrow> heap_ok c h i"
    and r: "binaryheap_replace_first c h d = Some h'"
  shows "heap_invar c h' \<and> heap_elems h' = add_mset d (heap_elems h - {#bh_nodes h ! 0#}) \<and>
    bh_size h' = bh_size h \<and> bh_space h' = bh_space h"
proof -
  let ?h = "h\<lparr>bh_nodes := (bh_nodes h)[0 := d]\<rparr>"
  have ne: "0 < bh_size h" and h': "h' = (if bh_size h > 1 then sift_down c ?h 0 else ?h)"
    using r by (auto simp: binaryheap_replace_first_def binaryheap_empty_def Let_def split: if_splits)
  have wf': "heap_wf ?h" using wf by (simp add: heap_wf_def)
  have sd: "heap_property c (sift_down c ?h 0) \<and> heap_wf (sift_down c ?h 0) \<and>
      heap_elems (sift_down c ?h 0) = heap_elems ?h"
    using ok by (intro down_inv_root [OF wf']) (auto simp: heap_ok_def nth_list_update)
  have el: "heap_elems ?h = add_mset d (heap_elems h - {#bh_nodes h ! 0#})"
    using wf ne by (simp add: heap_elems_def heap_wf_def take_update_swap mset_update)
  show ?thesis
  proof (cases "bh_size h > 1")
    case True
    then show ?thesis using sd el bh by (simp add: h' heap_invar_def)
  next
    case False
    then have "heap_property c ?h" by (auto simp: heap_property_def)
    with False show ?thesis using wf' el bh by (simp add: h' heap_invar_def)
  qed
qed

lemma replace_first_correct:
  assumes "heap_invar c h" and "binaryheap_replace_first c h d = Some h'"
  shows "heap_invar c h' \<and> heap_elems h' = add_mset d (heap_elems h - {#bh_nodes h ! 0#}) \<and>
    bh_size h' = bh_size h \<and> bh_space h' = bh_space h"
  using assms by (intro replace_first_general) (auto simp: heap_invar_def heap_property_def)

lemma sift_down_beyond:
  "heap_wf h \<Longrightarrow> bh_size h \<le> j \<Longrightarrow> bh_nodes (sift_down c h n) ! j = bh_nodes h ! j"
proof (induction "bh_size h - n" arbitrary: h n rule: less_induct)
  case less
  let ?s = "sift_down_swap_off c h n"
  show ?case
  proof (cases "?s = 0")
    case True
    then show ?thesis by (simp add: sift_down.simps [of c h n])
  next
    case False
    then have s: "n < ?s" "?s < bh_size h" using sift_down_swap_off_bounds [of c h n] by auto
    then have "bh_nodes (sift_down c (swap_nodes h ?s n) ?s) ! j = bh_nodes (swap_nodes h ?s n) ! j"
      using less.prems by (intro less.hyps) auto
    with False s less.prems show ?thesis
      by (simp add: sift_down.simps [of c h n] Let_def nodes_swap)
  qed
qed

lemma remove_first_correct:
  assumes inv: "heap_invar c h" and rem: "binaryheap_remove_first c h = Some (d, h')"
  shows "heap_invar c h' \<and> d = bh_nodes h ! 0 \<and> heap_elems h = add_mset d (heap_elems h') \<and>
    bh_size h = bh_size h' + 1 \<and> bh_space h' = bh_space h"
proof (cases "bh_size h = 1")
  case True
  then show ?thesis using assms
    by (auto simp: binaryheap_remove_first_def heap_invar_def heap_wf_def heap_property_def heap_elems_def
        take_Suc_conv_app_nth split: if_splits)
next
  case False
  define n where "n = bh_size h - 1"
  let ?s = "swap_nodes h 0 n"
  let ?h = "?s\<lparr>bh_size := n\<rparr>"
  have ne: "0 < n" "bh_size h = n + 1" using False rem
    by (auto simp: n_def binaryheap_remove_first_def binaryheap_empty_def split: if_splits)
  have h': "h' = sift_down c ?h 0" and d: "d = bh_nodes h' ! n"
    using rem False by (auto simp: n_def binaryheap_remove_first_def Let_def split: if_splits)
  have hw: "heap_wf h" using inv by (simp add: heap_invar_def)
  have wf: "heap_wf ?h" using hw ne by (auto simp: heap_wf_def)
  have N: "bh_nodes ?s ! i =
      (if i = 0 then bh_nodes h ! n else if i = n then bh_nodes h ! 0 else bh_nodes h ! i)" for i
    using nodes_swap [OF hw, of 0 n i] ne by simp
  have "heap_ok c ?h i" if "0 < i" "i < n" "(i - 1) div 2 \<noteq> 0" for i
    using inv that ne by (auto simp: heap_invar_def heap_property_def heap_ok_def N)
  then have "heap_property c h' \<and> heap_wf h' \<and> heap_elems h' = heap_elems ?h"
    unfolding h' by (intro down_inv_root [OF wf]) auto
  moreover have d0: "d = bh_nodes h ! 0"
    using sift_down_beyond [OF wf, of n 0] ne by (simp add: d h' N)
  moreover have "heap_elems ?s = add_mset (bh_nodes ?s ! n) (heap_elems ?h)"
    using hw ne by (simp add: heap_elems_def heap_wf_def take_Suc_conv_app_nth)
  moreover have "heap_elems ?s = heap_elems h" using hw ne by (intro heap_elems_swap) auto
  ultimately show ?thesis using inv ne by (simp add: heap_invar_def h' N)
qed

end

section \<open>Properties\<close>

text \<open>A client that fills a heap and then takes everything out, largest first.\<close>

fun binaryheap_drain :: "nat \<Rightarrow> 'd comparator \<Rightarrow> 'd binaryheap \<Rightarrow> 'd list" where
  "binaryheap_drain 0 compare heap = []"
| "binaryheap_drain (Suc n) compare heap =
     (case binaryheap_remove_first compare heap of
        None \<Rightarrow> []
      | Some (d, heap') \<Rightarrow> d # binaryheap_drain n compare heap')"

primrec binaryheap_fill :: "'d list \<Rightarrow> 'd binaryheap \<Rightarrow> 'd binaryheap result" where
  "binaryheap_fill [] heap = Inr heap"
| "binaryheap_fill (d # ds) heap =
     (case binaryheap_add_unordered heap d of Inl e \<Rightarrow> Inl e | Inr heap' \<Rightarrow> binaryheap_fill ds heap')"

lemma add_unordered_elems:
  assumes "heap_wf h" and "binaryheap_add_unordered h d = Inr h'"
  shows "heap_wf h' \<and> heap_elems h' = add_mset d (heap_elems h) \<and> bh_size h' = bh_size h + 1 \<and>
    bh_space h' = bh_space h \<and> \<not> bh_has_heap_property h'"
  using assms
  by (auto simp: binaryheap_add_unordered_def heap_wf_def heap_elems_def take_Suc_conv_app_nth split: if_splits)

lemma fill_elems:
  "heap_wf h \<Longrightarrow> length ds \<le> bh_space h - bh_size h \<Longrightarrow>
    \<exists>h'. binaryheap_fill ds h = Inr h' \<and> heap_wf h' \<and> heap_elems h' = mset ds + heap_elems h \<and>
      bh_size h' = bh_size h + length ds"
proof (induction ds arbitrary: h)
  case (Cons d ds)
  then have "bh_size h < bh_space h" by auto
  then obtain h1 where h1: "binaryheap_add_unordered h d = Inr h1"
    by (simp add: binaryheap_add_unordered_def)
  note a = add_unordered_elems [OF Cons.prems(1) h1]
  have "length ds \<le> bh_space h1 - bh_size h1" using a Cons.prems(2) by auto
  with a obtain h2 where "binaryheap_fill ds h1 = Inr h2" "heap_wf h2"
    "heap_elems h2 = mset ds + heap_elems h1" "bh_size h2 = bh_size h1 + length ds"
    using Cons.IH [of h1] by auto
  with a h1 show ?case by auto
qed simp

lemma size_heap_elems [simp]: "heap_wf h \<Longrightarrow> size (heap_elems h) = bh_size h"
  by (simp add: heap_elems_def heap_wf_def)

lemma remove_first_succeeds:
  "heap_invar c h \<Longrightarrow> 0 < bh_size h \<Longrightarrow> \<exists>d h'. binaryheap_remove_first c h = Some (d, h')"
  by (auto simp: binaryheap_remove_first_def binaryheap_empty_def heap_invar_def Let_def)

lemma drain_sorted:
  assumes "heap_order c"
  shows "heap_invar c h \<Longrightarrow> bh_size h = n \<Longrightarrow>
    mset (binaryheap_drain n c h) = heap_elems h \<and>
    sorted_wrt (\<lambda>a b. 0 \<le> c a b) (binaryheap_drain n c h)"
proof (induction n arbitrary: h)
  case 0
  then show ?case by (simp add: heap_elems_def)
next
  case (Suc n)
  obtain d h' where r: "binaryheap_remove_first c h = Some (d, h')"
    using remove_first_succeeds [OF Suc.prems(1)] Suc.prems(2) by auto
  note rc = heap_order.remove_first_correct [OF assms Suc.prems(1) r]
  have ih: "mset (binaryheap_drain n c h') = heap_elems h'"
    "sorted_wrt (\<lambda>a b. 0 \<le> c a b) (binaryheap_drain n c h')"
    using Suc.IH [of h'] rc Suc.prems(2) by auto
  have "0 \<le> c d x" if "x \<in> set (binaryheap_drain n c h')" for x
    using that rc ih(1) heap_order.first_max [OF assms Suc.prems(1), of x]
    by (metis set_mset_mset union_iff add_mset_add_single)
  with rc ih r show ?case by simp
qed

text \<open>
  \<open>binaryheap_add\<close> on a heap: exactly when the array is full it reports an error; otherwise the
  result is again a heap, of the same capacity, which holds the old elements and the new one.
\<close>

theorem binaryheap_add_correct:
  assumes "heap_order c" and "heap_invar c h"
  shows "case binaryheap_add c h d of
      Inl e \<Rightarrow> e = ERRCODE_INTERNAL_ERROR \<and> bh_size h = bh_space h
    | Inr h' \<Rightarrow> bh_size h < bh_space h \<and> heap_invar c h' \<and> bh_space h' = bh_space h \<and>
        heap_elems h' = add_mset d (heap_elems h)"
proof (cases "binaryheap_add c h d")
  case (Inl e)
  then show ?thesis using assms(2)
    by (auto simp: binaryheap_add_def Let_def heap_invar_def heap_wf_def split: if_splits)
next
  case (Inr h')
  moreover have "bh_size h < bh_space h"
    using Inr by (auto simp: binaryheap_add_def split: if_splits)
  ultimately show ?thesis using heap_order.add_correct [OF assms Inr] by simp
qed

text \<open>
  C37. \<open>binaryheap_remove_first\<close> on a non-empty heap returns an element that no other exceeds, the
  one \<open>binaryheap_first\<close> shows, and leaves a heap of the remaining elements.
\<close>

theorem binaryheap_remove_first_correct:
  assumes "heap_order c" and "heap_invar c h" and "heap_elems h \<noteq> {#}"
  shows "\<exists>d h'. binaryheap_remove_first c h = Some (d, h') \<and> binaryheap_first h = Some d \<and>
    (\<forall>x. x \<in># heap_elems h \<longrightarrow> 0 \<le> c d x) \<and>
    heap_invar c h' \<and> heap_elems h = add_mset d (heap_elems h')"
proof -
  have "heap_wf h" using assms(2) by (simp add: heap_invar_def)
  then have ne: "0 < bh_size h" using assms(3) by (metis size_heap_elems nonempty_has_size)
  then obtain d h' where r: "binaryheap_remove_first c h = Some (d, h')"
    using remove_first_succeeds [OF assms(2)] by auto
  note rc = heap_order.remove_first_correct [OF assms(1,2) r]
  have "binaryheap_first h = Some d"
    using ne rc assms(2) by (simp add: binaryheap_first_def binaryheap_empty_def heap_invar_def)
  with r rc heap_order.first_max [OF assms(1,2)] show ?thesis by blast
qed

text \<open>
  C36. Filling an empty heap of sufficient capacity by \<open>binaryheap_add_unordered\<close>, calling
  \<open>binaryheap_build\<close> once and removing the first element repeatedly yields the inserted elements,
  each as often as it was inserted, in descending order.
\<close>

theorem binaryheap_build_then_drain:
  assumes "heap_order c" and "length ds \<le> capacity" and "length mem = capacity"
  shows "\<exists>h. binaryheap_fill ds (binaryheap_allocate capacity mem) = Inr h \<and>
    (let out = binaryheap_drain (length ds) c (binaryheap_build c h)
     in mset out = mset ds \<and> sorted_wrt (\<lambda>a b. 0 \<le> c a b) out)"
proof -
  let ?h0 = "binaryheap_allocate capacity mem"
  have "heap_wf ?h0" "bh_size ?h0 = 0" "bh_space ?h0 = capacity" "heap_elems ?h0 = {#}"
    using assms(3) by (simp_all add: binaryheap_allocate_def heap_wf_def heap_elems_def)
  then obtain h where h: "binaryheap_fill ds ?h0 = Inr h" "heap_wf h" "heap_elems h = mset ds"
    "bh_size h = length ds"
    using fill_elems [of ?h0 ds] assms(2) by auto
  note b = heap_order.build_correct [OF assms(1) h(2)]
  have "mset (binaryheap_drain (length ds) c (binaryheap_build c h)) = heap_elems (binaryheap_build c h) \<and>
    sorted_wrt (\<lambda>a b. 0 \<le> c a b) (binaryheap_drain (length ds) c (binaryheap_build c h))"
    using b h(4) by (intro drain_sorted [OF assms(1)]) auto
  with b h show ?thesis by (simp add: Let_def)
qed

lemma heap_order_int: "heap_order (\<lambda>a b :: int. a - b)"
  by unfold_locales auto

definition sample_heap :: "int binaryheap" where
  "sample_heap = \<lparr>bh_size = 3, bh_space = 4, bh_has_heap_property = True, bh_nodes = [9, 4, 7, 0]\<rparr>"

lemma sample_heap_invar: "heap_invar (\<lambda>a b :: int. a - b) sample_heap"
proof -
  have "heap_ok (\<lambda>a b :: int. a - b) sample_heap i" if "0 < i" "i < bh_size sample_heap" for i
  proof -
    have "i = 1 \<or> i = 2" using that by (auto simp: sample_heap_def)
    then show ?thesis by (auto simp: heap_ok_def sample_heap_def)
  qed
  then show ?thesis by (auto simp: heap_invar_def heap_wf_def heap_property_def sample_heap_def)
qed

theorem binaryheap_add_witness:
  "bh_size sample_heap < bh_space sample_heap \<and>
   (\<exists>h'. binaryheap_add (\<lambda>a b :: int. a - b) sample_heap 8 = Inr h' \<and> heap_elems h' = {#8, 9, 4, 7#})"
proof -
  have "heap_elems sample_heap = {#9, 4, 7#}"
    by (simp add: heap_elems_def sample_heap_def)
  moreover have "bh_size sample_heap < bh_space sample_heap" by (simp add: sample_heap_def)
  ultimately show ?thesis
    using binaryheap_add_correct [OF heap_order_int sample_heap_invar, of 8] by (auto split: sum.splits)
qed

theorem binaryheap_remove_first_witness:
  "\<exists>h'. binaryheap_remove_first (\<lambda>a b :: int. a - b) sample_heap = Some (9, h') \<and> heap_elems h' = {#4, 7#}"
proof -
  have e: "heap_elems sample_heap = {#9, 4, 7#}"
    by (simp add: heap_elems_def sample_heap_def)
  have "binaryheap_first sample_heap = Some 9"
    by (simp add: binaryheap_first_def binaryheap_empty_def sample_heap_def)
  with e show ?thesis
    using binaryheap_remove_first_correct [OF heap_order_int sample_heap_invar] by auto
qed

theorem binaryheap_build_then_drain_witness:
  "\<exists>h. binaryheap_fill [3, 1, 2 :: int] (binaryheap_allocate 4 [0, 0, 0, 0]) = Inr h \<and>
     mset (binaryheap_drain 3 (\<lambda>a b. a - b) (binaryheap_build (\<lambda>a b. a - b) h)) = {#1, 2, 3#}"
  using binaryheap_build_then_drain [OF heap_order_int, of "[3, 1, 2]" 4 "[0, 0, 0, 0]"]
  by (auto simp: Let_def numeral_3_eq_3)

end
