(* ===== verification/FSM_Page.thy ===== *)
theory FSM_Page
  imports Prelude
begin

text \<open>
  One page of the free space map, \<open>src/gausskernel/storage/freespace/fsmpage.cpp\<close>: a binary tree in
  an array, whose leaves hold the free-space category of each slot and whose inner nodes hold the
  larger value of their children. Asserts on slot numbers are preconditions of the lemmas; buffer
  locks are not part of the state. The page is the record \<open>FSMPageData\<close>.

  \<open>tree_ok\<close> is the invariant. It is established by \<open>fsm_rebuild_page\<close> from any page, kept by
  \<open>fsm_set_avail\<close> and \<open>fsm_truncate_avail\<close>, and makes \<open>fsm_search_avail\<close> exact. On a torn page
  (no invariant) a search for a positive category still ends, after at most one repair.
\<close>

section \<open>The page\<close>

record FSMPageData =
  fp_next_slot :: int
  fp_nodes :: "uint8 list"

definition BLCKSZ :: nat where
  "BLCKSZ = 8192"

text \<open>24 is \<open>MAXALIGN(SizeOfPageHeaderData)\<close>, 4 the offset of \<open>fp_nodes\<close>.\<close>

definition NodesPerPage :: nat where
  "NodesPerPage = BLCKSZ - 24 - 4"

definition NonLeafNodesPerPage :: nat where
  "NonLeafNodesPerPage = BLCKSZ div 2 - 1"

definition LeafNodesPerPage :: nat where
  "LeafNodesPerPage = NodesPerPage - NonLeafNodesPerPage"

lemma page_sizes:
  "NodesPerPage = 8164" "NonLeafNodesPerPage = 4095" "LeafNodesPerPage = 4069"
  by (simp_all add: LeafNodesPerPage_def NodesPerPage_def NonLeafNodesPerPage_def BLCKSZ_def)

definition leftchild :: "nat \<Rightarrow> nat" where
  "leftchild x = 2 * x + 1"

definition parentof :: "nat \<Rightarrow> nat" where
  "parentof x = (x - 1) div 2"

definition rightneighbor :: "nat \<Rightarrow> nat" where
  "rightneighbor x0 = (let x = x0 + 1 in if (x + 1) AND x = 0 then parentof x else x)"

lemma rightneighbor_le: "rightneighbor x \<le> x + 1"
  by (auto simp: rightneighbor_def parentof_def Let_def)

section \<open>Rebuilding, setting and reading\<close>

text \<open>The value of a node computed from its children, with \<open>fsm_rebuild_page\<close>'s bounds tests.\<close>

definition fsm_newvalue :: "uint8 list \<Rightarrow> nat \<Rightarrow> uint8" where
  "fsm_newvalue nodes nodeno =
     (let lchild = leftchild nodeno;
          rchild = lchild + 1;
          newvalue = (if lchild < NodesPerPage then nodes ! lchild else 0)
      in if rchild < NodesPerPage then max newvalue (nodes ! rchild) else newvalue)"

definition fsm_rebuild_step :: "nat \<Rightarrow> uint8 list \<times> bool \<Rightarrow> uint8 list \<times> bool" where
  "fsm_rebuild_step nodeno st =
     (let (nodes, changed) = st; newvalue = fsm_newvalue nodes nodeno
      in if nodes ! nodeno \<noteq> newvalue then (nodes[nodeno := newvalue], True) else (nodes, changed))"

definition fsm_rebuild_page :: "FSMPageData \<Rightarrow> bool \<times> FSMPageData" where
  "fsm_rebuild_page page =
     (let (nodes, changed) = fold fsm_rebuild_step (rev [0..<NonLeafNodesPerPage]) (fp_nodes page, False)
      in (changed, page\<lparr>fp_nodes := nodes\<rparr>))"

text \<open>The \<open>do ... while (nodeno > 0)\<close> loop of \<open>fsm_set_avail\<close>, which starts at a node below the root.\<close>

function fsm_propagate :: "nat \<Rightarrow> uint8 list \<Rightarrow> uint8 list" where
  "fsm_propagate child nodes =
     (let nodeno = parentof child;
          lchild = leftchild nodeno;
          rchild = lchild + 1;
          newvalue = (if rchild < NodesPerPage then max (nodes ! lchild) (nodes ! rchild) else nodes ! lchild)
      in if nodes ! nodeno = newvalue then nodes
         else let nodes' = nodes[nodeno := newvalue]
              in if nodeno > 0 then fsm_propagate nodeno nodes' else nodes')"
  by pat_completeness auto
termination
  by (relation "measure fst") (auto simp: parentof_def)

declare fsm_propagate.simps [simp del]

definition fsm_set_avail :: "FSMPageData \<Rightarrow> nat \<Rightarrow> uint8 \<Rightarrow> bool \<times> FSMPageData" where
  "fsm_set_avail page slot value =
     (let nodeno = NonLeafNodesPerPage + slot;
          oldvalue = fp_nodes page ! nodeno
      in if oldvalue = value \<and> value \<le> fp_nodes page ! 0 then (False, page)
         else let nodes = fsm_propagate nodeno ((fp_nodes page)[nodeno := value]);
                  page' = page\<lparr>fp_nodes := nodes\<rparr>
              in if value > nodes ! 0 then (True, snd (fsm_rebuild_page page')) else (True, page'))"

definition fsm_get_avail :: "FSMPageData \<Rightarrow> nat \<Rightarrow> uint8" where
  "fsm_get_avail page slot = fp_nodes page ! (NonLeafNodesPerPage + slot)"

definition fsm_get_max_avail :: "FSMPageData \<Rightarrow> uint8" where
  "fsm_get_max_avail page = fp_nodes page ! 0"

definition fsm_truncate_avail :: "FSMPageData \<Rightarrow> nat \<Rightarrow> bool \<times> FSMPageData" where
  "fsm_truncate_avail page nslots =
     (let (nodes, changed) =
            for_range (NonLeafNodesPerPage + nslots) NodesPerPage
              (\<lambda>i (nodes, changed). (nodes[i := 0], changed \<or> nodes ! i \<noteq> 0)) (fp_nodes page, False);
          page' = page\<lparr>fp_nodes := nodes\<rparr>
      in (changed, if changed then snd (fsm_rebuild_page page') else page'))"

section \<open>Searching\<close>

function fsm_climb :: "uint8 list \<Rightarrow> uint8 \<Rightarrow> nat \<Rightarrow> nat" where
  "fsm_climb nodes minvalue nodeno =
     (if nodeno > 0 then
        if nodes ! nodeno \<ge> minvalue then nodeno
        else fsm_climb nodes minvalue (parentof (rightneighbor nodeno))
      else nodeno)"
  by pat_completeness auto

lemma parentof_rightneighbor_less: "0 < n \<Longrightarrow> parentof (rightneighbor n) < n"
  using rightneighbor_le [of n] by (auto simp: parentof_def)

termination fsm_climb
  by (relation "measure (\<lambda>(nodes, minvalue, nodeno). nodeno)") (auto intro: parentof_rightneighbor_less)

declare fsm_climb.simps [simp del]

text \<open>\<open>None\<close>: a node whose children have less than it promises.\<close>

function fsm_descend :: "uint8 list \<Rightarrow> uint8 \<Rightarrow> nat \<Rightarrow> nat option" where
  "fsm_descend nodes minvalue nodeno =
     (if nodeno < NonLeafNodesPerPage then
        (let childnodeno = leftchild nodeno
         in if childnodeno < NodesPerPage \<and> nodes ! childnodeno \<ge> minvalue
            then fsm_descend nodes minvalue childnodeno
            else if childnodeno + 1 < NodesPerPage \<and> nodes ! (childnodeno + 1) \<ge> minvalue
            then fsm_descend nodes minvalue (childnodeno + 1)
            else None)
      else Some nodeno)"
  by pat_completeness auto
termination
  by (relation "measure (\<lambda>(nodes, minvalue, nodeno). NodesPerPage - nodeno)") (auto simp: leftchild_def)

declare fsm_descend.simps [simp del]

text \<open>
  \<open>goto restart\<close> is the recursive call; \<open>None\<close> means that the function never returns. The result is
  the slot, or \<open>-1\<close>, and the page as the search leaves it.
\<close>

partial_function (option) fsm_search_avail ::
  "FSMPageData \<Rightarrow> uint8 \<Rightarrow> bool \<Rightarrow> (int \<times> FSMPageData) option" where
  "fsm_search_avail page minvalue advancenext =
     (if fp_nodes page ! 0 < minvalue then Some (-1, page)
      else
        (let hint = fp_next_slot page;
             target = (if hint < 0 \<or> hint \<ge> int LeafNodesPerPage then 0 else nat hint) + NonLeafNodesPerPage;
             nodeno = fsm_climb (fp_nodes page) minvalue target
         in case fsm_descend (fp_nodes page) minvalue nodeno of
              None \<Rightarrow> fsm_search_avail (snd (fsm_rebuild_page page)) minvalue advancenext
            | Some leaf \<Rightarrow>
                (let slot = leaf - NonLeafNodesPerPage
                 in Some (int slot, page\<lparr>fp_next_slot := int slot + (if advancenext then 1 else 0)\<rparr>))))"

declare fsm_search_avail.simps [code]

section \<open>The invariant\<close>

definition page_wf :: "FSMPageData \<Rightarrow> bool" where
  "page_wf page \<longleftrightarrow> length (fp_nodes page) = NodesPerPage"

definition tree_ok :: "uint8 list \<Rightarrow> bool" where
  "tree_ok nodes \<longleftrightarrow> (\<forall>i < NonLeafNodesPerPage. nodes ! i = fsm_newvalue nodes i)"

definition page_ok :: "FSMPageData \<Rightarrow> bool" where
  "page_ok page \<longleftrightarrow> page_wf page \<and> tree_ok (fp_nodes page)"

lemma parentof_less: "0 < n \<Longrightarrow> parentof n < n"
  by (auto simp: parentof_def)

lemma parent_nonleaf: "n < NodesPerPage \<Longrightarrow> parentof n < NonLeafNodesPerPage"
  by (auto simp: parentof_def page_sizes)

lemma child_of_parent: "0 < n \<Longrightarrow> n = leftchild (parentof n) \<or> n = leftchild (parentof n) + 1"
  by (auto simp: parentof_def leftchild_def)

lemma newvalue_ge_child:
  assumes "0 < n" and "n < NodesPerPage"
  shows "nodes ! n \<le> fsm_newvalue nodes (parentof n)"
proof -
  have "leftchild (parentof n) \<le> n" using assms(1) by (auto simp: parentof_def leftchild_def)
  with child_of_parent [OF assms(1)] assms(2) show ?thesis
    by (auto simp: fsm_newvalue_def Let_def max_def)
qed

lemma newvalue_attained:
  assumes "0 < v" and "v \<le> fsm_newvalue nodes n"
  shows "(leftchild n < NodesPerPage \<and> v \<le> nodes ! leftchild n) \<or>
    (leftchild n + 1 < NodesPerPage \<and> v \<le> nodes ! (leftchild n + 1))"
  using assms by (auto simp: fsm_newvalue_def Let_def max_def split: if_splits)

lemma newvalue_cong:
  assumes "\<And>k. leftchild i \<le> k \<Longrightarrow> k \<le> leftchild i + 1 \<Longrightarrow> xs ! k = ys ! k"
  shows "fsm_newvalue xs i = fsm_newvalue ys i"
  using assms by (auto simp: fsm_newvalue_def Let_def)

lemma root_bounds_nodes:
  assumes "tree_ok nodes"
  shows "n < NodesPerPage \<Longrightarrow> nodes ! n \<le> nodes ! 0"
proof (induction n rule: less_induct)
  case (less n)
  show ?case
  proof (cases "n = 0")
    case False
    then have "parentof n < n" "parentof n < NonLeafNodesPerPage"
      using less.prems by (auto intro: parentof_less parent_nonleaf)
    moreover have "nodes ! n \<le> fsm_newvalue nodes (parentof n)"
      using False less.prems by (intro newvalue_ge_child) auto
    ultimately show ?thesis
      using less.IH [of "parentof n"] less.prems assms by (auto simp: tree_ok_def)
  qed simp
qed

section \<open>Searching a page\<close>

lemma descend_sound:
  "fsm_descend nodes v n = Some m \<Longrightarrow> n < NodesPerPage \<Longrightarrow> v \<le> nodes ! n \<Longrightarrow>
    NonLeafNodesPerPage \<le> m \<and> m < NodesPerPage \<and> v \<le> nodes ! m"
proof (induction nodes v n arbitrary: m rule: fsm_descend.induct)
  case (1 nodes v n)
  let ?l = "leftchild n"
  note unfold = fsm_descend.simps [of nodes v n]
  consider "n \<ge> NonLeafNodesPerPage"
    | "n < NonLeafNodesPerPage" "?l < NodesPerPage \<and> v \<le> nodes ! ?l"
    | "n < NonLeafNodesPerPage" "\<not> (?l < NodesPerPage \<and> v \<le> nodes ! ?l)"
        "?l + 1 < NodesPerPage \<and> v \<le> nodes ! (?l + 1)"
    using 1(3) by (auto simp: unfold Let_def not_less split: if_splits)
  then show ?case
  proof cases
    case 1
    then show ?thesis using "1.prems" by (simp add: unfold)
  next
    case 2
    then have "fsm_descend nodes v ?l = Some m" using "1.prems"(1) by (simp add: unfold Let_def)
    with 2 show ?thesis using "1.IH"(1) [OF 2(1) refl 2(2)] by simp
  next
    case 3
    then have "fsm_descend nodes v (?l + 1) = Some m" using "1.prems"(1) by (simp only: unfold Let_def if_True if_False simp_thms)
    with 3 show ?thesis using "1.IH"(2) [OF 3(1) refl 3(2,3)] by simp
  qed
qed

lemma descend_complete:
  "tree_ok nodes \<Longrightarrow> 0 < v \<Longrightarrow> v \<le> nodes ! n \<Longrightarrow> \<exists>m. fsm_descend nodes v n = Some m"
proof (induction nodes v n rule: fsm_descend.induct)
  case (1 nodes v n)
  show ?case
  proof (cases "n < NonLeafNodesPerPage")
    case True
    then have "v \<le> fsm_newvalue nodes n" using 1 by (simp add: tree_ok_def)
    then have "(leftchild n < NodesPerPage \<and> v \<le> nodes ! leftchild n) \<or>
        (leftchild n + 1 < NodesPerPage \<and> v \<le> nodes ! (leftchild n + 1))"
      using 1 by (intro newvalue_attained) auto
    with True show ?thesis
      using 1 by (subst fsm_descend.simps) (auto simp: Let_def)
  next
    case False
    then show ?thesis by (subst fsm_descend.simps) simp
  qed
qed

lemma climb_spec:
  "v \<le> nodes ! 0 \<Longrightarrow> n < NodesPerPage \<Longrightarrow>
    fsm_climb nodes v n < NodesPerPage \<and> v \<le> nodes ! fsm_climb nodes v n"
proof (induction nodes v n rule: fsm_climb.induct)
  case (1 nodes v n)
  show ?case
  proof (cases "0 < n \<and> \<not> v \<le> nodes ! n")
    case True
    then have "parentof (rightneighbor n) < NodesPerPage"
      using 1 parentof_rightneighbor_less [of n] by auto
    with True 1 show ?thesis by (subst (1 2) fsm_climb.simps) simp
  next
    case False
    with 1 show ?thesis by (subst (1 2) fsm_climb.simps) auto
  qed
qed

section \<open>Rebuilding a page\<close>

lemma newvalue_update_other:
  assumes "parentof p \<noteq> i \<or> p = 0"
  shows "fsm_newvalue (nodes[p := v]) i = fsm_newvalue nodes i"
proof (rule newvalue_cong)
  fix k assume "leftchild i \<le> k" "k \<le> leftchild i + 1"
  then have "k \<noteq> 0" "parentof k = i" by (auto simp: leftchild_def parentof_def)
  with assms have "k \<noteq> p" by auto
  then show "nodes[p := v] ! k = nodes ! k" by simp
qed

lemma newvalue_update_self [simp]: "fsm_newvalue (nodes[p := v]) p = fsm_newvalue nodes p"
proof (cases "p = 0")
  case False
  then have "parentof p \<noteq> p" using parentof_less [of p] by simp
  then show ?thesis by (intro newvalue_update_other) simp
qed (simp add: newvalue_update_other)

lemma rebuild_step_nodes:
  "n < length nodes \<Longrightarrow>
    fst (fsm_rebuild_step n (nodes, changed)) = nodes[n := fsm_newvalue nodes n]"
  by (auto simp: fsm_rebuild_step_def Let_def list_update_same_conv [THEN iffD2])

lemma rebuild_loop:
  assumes "k \<le> NonLeafNodesPerPage" and "length nodes = NodesPerPage"
    and "\<And>i. k \<le> i \<Longrightarrow> i < NonLeafNodesPerPage \<Longrightarrow> nodes ! i = fsm_newvalue nodes i"
  shows "tree_ok (fst (fold fsm_rebuild_step (rev [0..<k]) (nodes, ch))) \<and>
    length (fst (fold fsm_rebuild_step (rev [0..<k]) (nodes, ch))) = NodesPerPage \<and>
    (\<forall>j \<ge> k. fst (fold fsm_rebuild_step (rev [0..<k]) (nodes, ch)) ! j = nodes ! j)"
  using assms
proof (induction k arbitrary: nodes ch)
  case 0
  then show ?case by (simp add: tree_ok_def)
next
  case (Suc k)
  obtain nodes' ch' where st: "fsm_rebuild_step k (nodes, ch) = (nodes', ch')" by fastforce
  have k: "k < length nodes" using Suc.prems by (simp add: page_sizes)
  have n': "nodes' = nodes[k := fsm_newvalue nodes k]"
    using rebuild_step_nodes [OF k, of ch] st by simp
  have "nodes' ! i = fsm_newvalue nodes' i" if "k \<le> i" "i < NonLeafNodesPerPage" for i
  proof (cases "i = k")
    case True
    then show ?thesis using k n' by simp
  next
    case False
    with that have "Suc k \<le> i" by simp
    moreover have "parentof k \<noteq> i \<or> k = 0" using that parentof_less [of k] by (cases "k = 0") auto
    ultimately show ?thesis using Suc.prems(3) that n' False by (simp add: newvalue_update_other)
  qed
  moreover have "length nodes' = NodesPerPage" using n' Suc.prems by simp
  ultimately show ?case
    using Suc.IH [of nodes' ch'] Suc.prems(1) st n' by simp
qed

lemma rebuild_page_nodes:
  "fp_nodes (snd (fsm_rebuild_page page)) =
    fst (fold fsm_rebuild_step (rev [0..<NonLeafNodesPerPage]) (fp_nodes page, False))"
  by (simp add: fsm_rebuild_page_def split: prod.splits)

lemma rebuild_page_next_slot [simp]: "fp_next_slot (snd (fsm_rebuild_page page)) = fp_next_slot page"
  by (simp add: fsm_rebuild_page_def split: prod.splits)

lemma rebuild_page_ok:
  assumes "page_wf page"
  shows "page_ok (snd (fsm_rebuild_page page))"
    and "NonLeafNodesPerPage \<le> j \<Longrightarrow> fp_nodes (snd (fsm_rebuild_page page)) ! j = fp_nodes page ! j"
  using rebuild_loop [of NonLeafNodesPerPage "fp_nodes page" False] assms
  unfolding page_ok_def page_wf_def rebuild_page_nodes by auto

lemma rebuild_get_avail [simp]:
  "page_wf page \<Longrightarrow> fsm_get_avail (snd (fsm_rebuild_page page)) slot = fsm_get_avail page slot"
  by (simp add: fsm_get_avail_def rebuild_page_ok)

section \<open>Setting a slot\<close>

lemma propagate_newvalue:
  assumes "0 < c" and "c < NodesPerPage"
  shows "(if leftchild (parentof c) + 1 < NodesPerPage
      then max (nodes ! leftchild (parentof c)) (nodes ! (leftchild (parentof c) + 1))
      else nodes ! leftchild (parentof c)) = fsm_newvalue nodes (parentof c)"
proof -
  have "leftchild (parentof c) < NodesPerPage"
    using assms by (auto simp: leftchild_def parentof_def)
  then show ?thesis by (simp add: fsm_newvalue_def Let_def)
qed

lemma propagate_ok:
  "0 < c \<Longrightarrow> c < NodesPerPage \<Longrightarrow> length nodes = NodesPerPage \<Longrightarrow>
   (\<forall>i < NonLeafNodesPerPage. i \<noteq> parentof c \<longrightarrow> nodes ! i = fsm_newvalue nodes i) \<Longrightarrow>
     tree_ok (fsm_propagate c nodes)"
proof (induction c nodes rule: fsm_propagate.induct)
  case (1 c nodes)
  let ?p = "parentof c" and ?v = "fsm_newvalue nodes (parentof c)"
  have p: "?p < NonLeafNodesPerPage" "?p < length nodes"
    using 1 parent_nonleaf [of c] by (auto simp: page_sizes)
  have unfold: "fsm_propagate c nodes =
      (if nodes ! ?p = ?v then nodes
       else if ?p > 0 then fsm_propagate ?p (nodes[?p := ?v]) else nodes[?p := ?v])"
    by (subst fsm_propagate.simps) (simp only: Let_def propagate_newvalue [OF 1(2,3)])
  show ?case
  proof (cases "nodes ! ?p = ?v")
    case True
    then show ?thesis using 1 unfold by (auto simp: tree_ok_def)
  next
    case changed: False
    have step: "nodes[?p := ?v] ! i = fsm_newvalue (nodes[?p := ?v]) i"
      if "i < NonLeafNodesPerPage" "?p = 0 \<or> i \<noteq> parentof ?p" for i
    proof (cases "i = ?p")
      case True
      then show ?thesis using p by simp
    next
      case False
      have "fsm_newvalue (nodes[?p := ?v]) i = fsm_newvalue nodes i"
        using that(2) by (intro newvalue_update_other) auto
      with False that(1) 1(5) show ?thesis by simp
    qed
    show ?thesis
    proof (cases "?p > 0")
      case True
      have "tree_ok (fsm_propagate ?p (nodes[?p := ?v]))"
      proof (rule 1(1) [OF refl refl refl, unfolded propagate_newvalue [OF 1(2,3)], OF refl changed refl True])
        show "?p < NodesPerPage" using p by (simp add: page_sizes)
      qed (use 1(4) step True in auto)
      with changed True unfold show ?thesis by simp
    next
      case False
      with changed unfold step show ?thesis by (simp add: tree_ok_def)
    qed
  qed
qed

lemma propagate_frame:
  "c < NodesPerPage \<Longrightarrow> length (fsm_propagate c nodes) = length nodes \<and>
    (\<forall>j \<ge> NonLeafNodesPerPage. fsm_propagate c nodes ! j = nodes ! j)"
proof (induction c nodes rule: fsm_propagate.induct)
  case (1 c nodes)
  have "parentof c < NonLeafNodesPerPage" using parent_nonleaf [OF 1(2)] .
  moreover have "NonLeafNodesPerPage < NodesPerPage" by (simp add: page_sizes)
  ultimately show ?case
    using 1 by (subst (1 2) fsm_propagate.simps) (auto simp: Let_def)
qed

lemma set_avail_wf:
  assumes wf: "page_wf page" and slot: "slot < LeafNodesPerPage"
  shows "page_wf (snd (fsm_set_avail page slot value)) \<and>
    (\<forall>s. fsm_get_avail (snd (fsm_set_avail page slot value)) s = (if s = slot then value else fsm_get_avail page s)) \<and>
    fp_next_slot (snd (fsm_set_avail page slot value)) = fp_next_slot page"
proof -
  let ?n = "NonLeafNodesPerPage + slot"
  let ?nodes = "fsm_propagate ?n ((fp_nodes page)[?n := value])"
  let ?page = "page\<lparr>fp_nodes := ?nodes\<rparr>"
  have n: "?n < NodesPerPage" using slot by (simp add: page_sizes)
  note fr = propagate_frame [OF n, of "(fp_nodes page)[?n := value]"]
  have wf': "page_wf ?page" using fr wf by (simp add: page_wf_def)
  have get: "fsm_get_avail ?page s = (if s = slot then value else fsm_get_avail page s)" for s
    using fr wf n by (simp add: fsm_get_avail_def page_wf_def)
  have "page_wf (snd (fsm_rebuild_page ?page))" using rebuild_page_ok(1) [OF wf'] by (simp add: page_ok_def)
  then show ?thesis
    using wf wf' get rebuild_get_avail [OF wf']
    by (simp add: fsm_set_avail_def Let_def) (auto simp: fsm_get_avail_def)
qed

lemma set_avail_ok:
  assumes ok: "page_ok page" and slot: "slot < LeafNodesPerPage"
  shows "page_ok (snd (fsm_set_avail page slot value))"
proof -
  let ?n = "NonLeafNodesPerPage + slot"
  let ?leaf = "(fp_nodes page)[?n := value]"
  let ?page = "page\<lparr>fp_nodes := fsm_propagate ?n ?leaf\<rparr>"
  have n: "0 < ?n" "?n < NodesPerPage" using slot by (simp_all add: page_sizes)
  have "\<forall>i < NonLeafNodesPerPage. i \<noteq> parentof ?n \<longrightarrow> ?leaf ! i = fsm_newvalue ?leaf i"
    using ok by (auto simp: page_ok_def tree_ok_def newvalue_update_other)
  then have "tree_ok (fsm_propagate ?n ?leaf)"
    using ok by (intro propagate_ok n) (simp_all add: page_ok_def page_wf_def)
  then have "page_ok ?page"
    using ok propagate_frame [OF n(2), of ?leaf] by (simp add: page_ok_def page_wf_def)
  moreover from this have "page_ok (snd (fsm_rebuild_page ?page))"
    by (intro rebuild_page_ok) (simp add: page_ok_def)
  ultimately show ?thesis using ok by (simp add: fsm_set_avail_def Let_def)
qed

lemma set_avail_changed:
  "\<not> fst (fsm_set_avail page slot value) \<Longrightarrow> snd (fsm_set_avail page slot value) = page"
  by (auto simp: fsm_set_avail_def Let_def split: if_splits)

section \<open>Truncating a page\<close>

lemma clear_loop:
  "length (for_range lo hi (\<lambda>i xs. xs[i := (0 :: uint8)]) nodes) = length nodes"
  "j < length nodes \<Longrightarrow> for_range lo hi (\<lambda>i xs. xs[i := (0 :: uint8)]) nodes ! j =
     (if lo \<le> j \<and> j < hi then 0 else nodes ! j)"
  using length_for_range_upd [of lo hi "\<lambda>i x. 0 :: uint8"] nth_for_range_upd [of j nodes lo hi "\<lambda>i x. 0 :: uint8"]
  by simp_all

lemma clear_loop_beyond:
  "lo \<le> hi \<Longrightarrow> hi \<le> j \<Longrightarrow> for_range lo hi (\<lambda>i xs. xs[i := (0 :: uint8)]) nodes ! j = nodes ! j"
  by (induction hi rule: dec_induct) (simp_all add: for_range_Suc)

lemma truncate_loop:
  assumes "lo \<le> hi"
  shows "for_range lo hi (\<lambda>i (nodes, changed). (nodes[i := 0], changed \<or> nodes ! i \<noteq> 0)) (nodes, False) =
    (for_range lo hi (\<lambda>i xs. xs[i := 0]) nodes, \<exists>i. lo \<le> i \<and> i < hi \<and> nodes ! i \<noteq> (0 :: uint8))"
  using assms
proof (induction hi rule: dec_induct)
  case (step n)
  have "for_range lo n (\<lambda>i xs. xs[i := 0]) nodes ! n = nodes ! n"
    using step.hyps by (simp add: clear_loop_beyond)
  moreover have "(\<exists>i. lo \<le> i \<and> i < Suc n \<and> nodes ! i \<noteq> 0) \<longleftrightarrow>
      (\<exists>i. lo \<le> i \<and> i < n \<and> nodes ! i \<noteq> 0) \<or> nodes ! n \<noteq> 0"
    using step.hyps by (auto simp: less_Suc_eq)
  ultimately show ?case using step by (simp add: for_range_Suc)
qed simp

lemma truncate_avail_wf:
  assumes wf: "page_wf page" and n: "nslots < LeafNodesPerPage" and s: "s < LeafNodesPerPage"
  shows "page_wf (snd (fsm_truncate_avail page nslots))"
    and "fsm_get_avail (snd (fsm_truncate_avail page nslots)) s =
      (if s < nslots then fsm_get_avail page s else 0)"
    and "fst (fsm_truncate_avail page nslots) \<longleftrightarrow>
      (\<exists>s < LeafNodesPerPage. nslots \<le> s \<and> fsm_get_avail page s \<noteq> 0)"
proof -
  let ?lo = "NonLeafNodesPerPage + nslots"
  let ?nodes = "for_range ?lo NodesPerPage (\<lambda>i xs. xs[i := 0]) (fp_nodes page)"
  let ?changed = "\<exists>i. ?lo \<le> i \<and> i < NodesPerPage \<and> fp_nodes page ! i \<noteq> 0"
  let ?page = "page\<lparr>fp_nodes := ?nodes\<rparr>"
  have lo: "?lo \<le> NodesPerPage" using n by (simp add: page_sizes)
  have t: "fsm_truncate_avail page nslots =
      (?changed, if ?changed then snd (fsm_rebuild_page ?page) else ?page)"
    by (simp only: fsm_truncate_avail_def truncate_loop [OF lo] Let_def prod.case)
  have wf': "page_wf ?page"
    using wf by (simp add: page_wf_def clear_loop)
  have get: "fsm_get_avail ?page s = (if s < nslots then fsm_get_avail page s else 0)"
    using s wf by (auto simp: fsm_get_avail_def page_wf_def page_sizes clear_loop)
  show "page_wf (snd (fsm_truncate_avail page nslots))"
    using wf' rebuild_page_ok(1) [OF wf'] by (simp add: t page_ok_def)
  show "fsm_get_avail (snd (fsm_truncate_avail page nslots)) s =
      (if s < nslots then fsm_get_avail page s else 0)"
    using get wf' by (simp add: t)
  have "?changed \<longleftrightarrow> (\<exists>s < LeafNodesPerPage. nslots \<le> s \<and> fsm_get_avail page s \<noteq> 0)"
  proof
    assume ?changed
    then obtain i where "?lo \<le> i" "i < NodesPerPage" "fp_nodes page ! i \<noteq> 0" by blast
    then show "\<exists>s < LeafNodesPerPage. nslots \<le> s \<and> fsm_get_avail page s \<noteq> 0"
      by (intro exI [of _ "i - NonLeafNodesPerPage"]) (auto simp: fsm_get_avail_def page_sizes)
  next
    assume "\<exists>s < LeafNodesPerPage. nslots \<le> s \<and> fsm_get_avail page s \<noteq> 0"
    then obtain s where "s < LeafNodesPerPage" "nslots \<le> s" "fsm_get_avail page s \<noteq> 0" by blast
    then show ?changed
      by (intro exI [of _ "NonLeafNodesPerPage + s"]) (auto simp: fsm_get_avail_def page_sizes)
  qed
  then show "fst (fsm_truncate_avail page nslots) \<longleftrightarrow>
      (\<exists>s < LeafNodesPerPage. nslots \<le> s \<and> fsm_get_avail page s \<noteq> 0)"
    by (simp add: t)
qed

lemma truncate_avail_ok:
  assumes ok: "page_ok page" and n: "nslots < LeafNodesPerPage"
  shows "page_ok (snd (fsm_truncate_avail page nslots))"
proof -
  let ?lo = "NonLeafNodesPerPage + nslots"
  let ?upd = "\<lambda>xs. for_range ?lo NodesPerPage (\<lambda>i xs. xs[i := 0]) (xs :: uint8 list)"
  have lo: "?lo \<le> NodesPerPage" using n by (simp add: page_sizes)
  have wf: "page_wf (page\<lparr>fp_nodes := ?upd (fp_nodes page)\<rparr>)"
    using ok by (simp add: page_ok_def page_wf_def clear_loop)
  have same: "?upd (fp_nodes page) = fp_nodes page"
    if z: "\<not> (\<exists>i. ?lo \<le> i \<and> i < NodesPerPage \<and> fp_nodes page ! i \<noteq> 0)"
  proof (rule nth_equalityI)
    show "length (?upd (fp_nodes page)) = length (fp_nodes page)"
      by (simp add: clear_loop)
    show "?upd (fp_nodes page) ! i = fp_nodes page ! i" if "i < length (?upd (fp_nodes page))" for i
      using that z by (auto simp: clear_loop)
  qed
  show ?thesis
    using rebuild_page_ok(1) [OF wf] same ok
    by (simp add: fsm_truncate_avail_def truncate_loop [OF lo] Let_def)
qed

section \<open>Searching, as a whole\<close>

definition fsm_target :: "FSMPageData \<Rightarrow> nat" where
  "fsm_target page =
     (if fp_next_slot page < 0 \<or> fp_next_slot page \<ge> int LeafNodesPerPage then 0 else nat (fp_next_slot page))
       + NonLeafNodesPerPage"

lemma fsm_target_less: "fsm_target page < NodesPerPage"
  by (auto simp: fsm_target_def page_sizes)

lemma search_avail_unfold:
  "fsm_search_avail page v adv =
     (if fp_nodes page ! 0 < v then Some (-1, page)
      else case fsm_descend (fp_nodes page) v (fsm_climb (fp_nodes page) v (fsm_target page)) of
             None \<Rightarrow> fsm_search_avail (snd (fsm_rebuild_page page)) v adv
           | Some leaf \<Rightarrow> Some (int (leaf - NonLeafNodesPerPage),
               page\<lparr>fp_next_slot := int (leaf - NonLeafNodesPerPage) + (if adv then 1 else 0)\<rparr>))"
  by (subst fsm_search_avail.simps) (simp only: Let_def fsm_target_def)

lemma avail_le_max:
  "page_ok page \<Longrightarrow> s < LeafNodesPerPage \<Longrightarrow> fsm_get_avail page s \<le> fsm_get_max_avail page"
  unfolding page_ok_def fsm_get_avail_def fsm_get_max_avail_def
  by (intro root_bounds_nodes) (simp_all add: page_sizes)

lemma max_avail_attained:
  assumes "page_ok page" and "0 < v" and "v \<le> fsm_get_max_avail page"
  shows "\<exists>s < LeafNodesPerPage. v \<le> fsm_get_avail page s"
proof -
  have v: "v \<le> fp_nodes page ! 0" "tree_ok (fp_nodes page)"
    using assms by (simp_all add: fsm_get_max_avail_def page_ok_def)
  obtain m where "fsm_descend (fp_nodes page) v 0 = Some m"
    using descend_complete [OF v(2) assms(2) v(1)] by blast
  from descend_sound [OF this _ v(1)]
  have "NonLeafNodesPerPage \<le> m" "m < NodesPerPage" "v \<le> fp_nodes page ! m" by (auto simp: page_sizes)
  then show ?thesis
    by (intro exI [of _ "m - NonLeafNodesPerPage"]) (auto simp: fsm_get_avail_def page_sizes)
qed

text \<open>What a finished search says of its result.\<close>

definition search_result :: "FSMPageData \<Rightarrow> uint8 \<Rightarrow> int \<Rightarrow> FSMPageData \<Rightarrow> bool" where
  "search_result page v r page' \<longleftrightarrow> page_wf page' \<and>
     (\<forall>s < LeafNodesPerPage. fsm_get_avail page' s = fsm_get_avail page s) \<and>
     (r = -1 \<and> fsm_get_max_avail page' < v \<or>
      0 \<le> r \<and> r < int LeafNodesPerPage \<and> v \<le> fsm_get_avail page (nat r))"

lemma search_pass:
  assumes wf: "page_wf page" and v: "\<not> fp_nodes page ! 0 < v"
    and d: "fsm_descend (fp_nodes page) v (fsm_climb (fp_nodes page) v (fsm_target page)) = Some leaf"
  shows "search_result page v (int (leaf - NonLeafNodesPerPage)) (page\<lparr>fp_next_slot := n\<rparr>)"
proof -
  have "fsm_climb (fp_nodes page) v (fsm_target page) < NodesPerPage \<and>
      v \<le> fp_nodes page ! fsm_climb (fp_nodes page) v (fsm_target page)"
    using v fsm_target_less by (intro climb_spec) auto
  with descend_sound [OF d]
  have l: "NonLeafNodesPerPage \<le> leaf" "leaf < NodesPerPage" "v \<le> fp_nodes page ! leaf" by auto
  then obtain s where "leaf = NonLeafNodesPerPage + s" using le_Suc_ex by blast
  with l wf show ?thesis
    by (auto simp: search_result_def page_wf_def fsm_get_avail_def page_sizes)
qed

lemma search_avail_ok:
  assumes ok: "page_ok page" and v: "0 < v"
  shows "\<exists>r page'. fsm_search_avail page v adv = Some (r, page') \<and> search_result page v r page' \<and>
    fp_nodes page' = fp_nodes page \<and>
    (if r = -1 then page' = page else fp_next_slot page' = r + (if adv then 1 else 0))"
proof (cases "fp_nodes page ! 0 < v")
  case True
  then show ?thesis using ok
    by (auto simp: search_avail_unfold [of page] search_result_def page_ok_def fsm_get_max_avail_def)
next
  case False
  have "v \<le> fp_nodes page ! fsm_climb (fp_nodes page) v (fsm_target page)"
    using False climb_spec [of v "fp_nodes page" "fsm_target page"] fsm_target_less by simp
  then obtain leaf where
    d: "fsm_descend (fp_nodes page) v (fsm_climb (fp_nodes page) v (fsm_target page)) = Some leaf"
    using ok descend_complete [OF _ v] by (auto simp: page_ok_def)
  have "page_wf page" using ok by (simp add: page_ok_def)
  from search_pass [OF this False d] False d show ?thesis
    by (auto simp: search_avail_unfold [of page])
qed

lemma search_avail_wf:
  assumes wf: "page_wf page" and v: "0 < v"
  shows "\<exists>r page'. fsm_search_avail page v adv = Some (r, page') \<and> search_result page v r page' \<and>
    (page_ok page \<longrightarrow> page_ok page')"
proof (cases "page_ok page")
  case True
  with search_avail_ok [OF True v, of adv] show ?thesis by (auto simp: page_ok_def page_wf_def)
next
  case nok: False
  let ?n = "fsm_climb (fp_nodes page) v (fsm_target page)"
  consider (none) "fp_nodes page ! 0 < v"
    | (found) leaf where "\<not> fp_nodes page ! 0 < v" "fsm_descend (fp_nodes page) v ?n = Some leaf"
    | (torn) "\<not> fp_nodes page ! 0 < v" "fsm_descend (fp_nodes page) v ?n = None"
    by (cases "fsm_descend (fp_nodes page) v ?n") auto
  then show ?thesis
  proof cases
    case none
    with wf nok show ?thesis
      by (auto simp: search_avail_unfold [of page] search_result_def fsm_get_max_avail_def)
  next
    case found
    with search_pass [OF wf found] nok show ?thesis by (simp add: search_avail_unfold [of page])
  next
    case torn
    obtain r page' where s: "fsm_search_avail (snd (fsm_rebuild_page page)) v adv = Some (r, page')"
      "search_result (snd (fsm_rebuild_page page)) v r page'"
      using search_avail_ok [OF rebuild_page_ok(1) [OF wf] v, of adv] by auto
    have "fsm_search_avail page v adv = Some (r, page')"
      using torn s(1) by (simp add: search_avail_unfold [of page])
    moreover have "search_result page v r page'"
      using s(2) wf by (auto simp: search_result_def)
    ultimately show ?thesis using nok by blast
  qed
qed

section \<open>The interface a page offers to the relation level\<close>

text \<open>
  A page as \<open>freespace.cpp\<close> uses it: slots with values, their maximum, and a search. \<open>wf\<close> holds of
  every page, \<open>ok\<close> of those whose upper nodes are up to date.
\<close>

locale slot_page =
  fixes wf :: "'p \<Rightarrow> bool" and ok :: "'p \<Rightarrow> bool" and slots :: nat
    and get :: "'p \<Rightarrow> nat \<Rightarrow> uint8" and set_slot :: "'p \<Rightarrow> nat \<Rightarrow> uint8 \<Rightarrow> 'p"
    and max_of :: "'p \<Rightarrow> uint8" and search :: "'p \<Rightarrow> uint8 \<Rightarrow> bool \<Rightarrow> (int \<times> 'p) option"
  assumes ok_wf: "ok p \<Longrightarrow> wf p"
    and set_wf: "wf p \<Longrightarrow> s < slots \<Longrightarrow> wf (set_slot p s v)"
    and set_ok: "ok p \<Longrightarrow> s < slots \<Longrightarrow> ok (set_slot p s v)"
    and get_set: "wf p \<Longrightarrow> s < slots \<Longrightarrow> get (set_slot p s v) t = (if t = s then v else get p t)"
    and max_upper: "ok p \<Longrightarrow> s < slots \<Longrightarrow> get p s \<le> max_of p"
    and max_attained: "ok p \<Longrightarrow> 0 < v \<Longrightarrow> v \<le> max_of p \<Longrightarrow> \<exists>s < slots. v \<le> get p s"
    and search_total: "wf p \<Longrightarrow> 0 < v \<Longrightarrow> \<exists>r p'. search p v adv = Some (r, p')"
    and search_wf: "wf p \<Longrightarrow> 0 < v \<Longrightarrow> search p v adv = Some (r, p') \<Longrightarrow> wf p'"
    and search_ok: "ok p \<Longrightarrow> 0 < v \<Longrightarrow> search p v adv = Some (r, p') \<Longrightarrow> ok p'"
    and search_get: "wf p \<Longrightarrow> 0 < v \<Longrightarrow> search p v adv = Some (r, p') \<Longrightarrow> s < slots \<Longrightarrow> get p' s = get p s"
    and search_found: "wf p \<Longrightarrow> 0 < v \<Longrightarrow> search p v adv = Some (r, p') \<Longrightarrow>
      r = -1 \<and> max_of p' < v \<or> 0 \<le> r \<and> r < int slots \<and> v \<le> get p (nat r)"
begin

lemma search_exact:
  assumes "ok p" and "0 < v" and "search p v adv = Some (r, p')"
  shows "r = -1 \<longleftrightarrow> (\<forall>s < slots. get p s < v)"
proof
  assume "r = -1"
  then have "max_of p' < v" using search_found [OF ok_wf [OF assms(1)] assms(2,3)] by auto
  show "\<forall>s < slots. get p s < v"
  proof (intro allI impI)
    fix s assume "s < slots"
    then have "get p s = get p' s" "get p' s \<le> max_of p'"
      using search_get [OF ok_wf [OF assms(1)] assms(2,3)] max_upper [OF search_ok [OF assms]] by auto
    with \<open>max_of p' < v\<close> show "get p s < v" by simp
  qed
next
  assume none: "\<forall>s < slots. get p s < v"
  have "\<not> v \<le> get p (nat r)" if "0 \<le> r" "r < int slots"
    using none that by (simp add: not_le)
  then show "r = -1"
    using search_found [OF ok_wf [OF assms(1)] assms(2,3)] by blast
qed

text \<open>Two pages with the same slot values have the same maximum.\<close>

lemma max_le:
  assumes "ok p" and "\<And>s. s < slots \<Longrightarrow> get p s \<le> m"
  shows "max_of p \<le> m"
proof (cases "0 < max_of p")
  case True
  then obtain s where "s < slots" "max_of p \<le> get p s"
    using max_attained [OF assms(1) True order_refl] by blast
  with assms(2) [of s] show ?thesis by simp
qed (simp add: word_gt_0)

lemma max_cong:
  assumes "ok p" and "ok q" and "\<And>s. s < slots \<Longrightarrow> get p s = get q s"
  shows "max_of p = max_of q"
  using max_le [OF assms(1), of "max_of q"] max_le [OF assms(2), of "max_of p"]
    max_upper [OF assms(1)] max_upper [OF assms(2)] assms(3)
  by (intro order_antisym) auto

end

interpretation fsm_page: slot_page page_wf page_ok LeafNodesPerPage fsm_get_avail
  "\<lambda>p s v. snd (fsm_set_avail p s v)" fsm_get_max_avail fsm_search_avail
proof unfold_locales
  fix p p' s t v adv r
  show "page_ok p \<Longrightarrow> page_wf p" by (simp add: page_ok_def)
  show "page_wf p \<Longrightarrow> s < LeafNodesPerPage \<Longrightarrow> page_wf (snd (fsm_set_avail p s v))"
    and "page_wf p \<Longrightarrow> s < LeafNodesPerPage \<Longrightarrow>
      fsm_get_avail (snd (fsm_set_avail p s v)) t = (if t = s then v else fsm_get_avail p t)"
    using set_avail_wf by blast+
  show "page_ok p \<Longrightarrow> s < LeafNodesPerPage \<Longrightarrow> page_ok (snd (fsm_set_avail p s v))"
    by (rule set_avail_ok)
  show "page_ok p \<Longrightarrow> s < LeafNodesPerPage \<Longrightarrow> fsm_get_avail p s \<le> fsm_get_max_avail p"
    by (rule avail_le_max)
  show "page_ok p \<Longrightarrow> 0 < v \<Longrightarrow> v \<le> fsm_get_max_avail p \<Longrightarrow>
      \<exists>s < LeafNodesPerPage. v \<le> fsm_get_avail p s"
    by (rule max_avail_attained)
  assume v: "0 < v"
  show "page_wf p \<Longrightarrow> \<exists>r p'. fsm_search_avail p v adv = Some (r, p')"
    using search_avail_wf [OF _ v] by blast
  assume s: "fsm_search_avail p v adv = Some (r, p')"
  show "page_ok p \<Longrightarrow> page_ok p'"
    using search_avail_wf [OF _ v, of p adv] s by (auto simp: page_ok_def)
  have "page_wf p \<Longrightarrow> search_result p v r p'" using search_avail_wf [OF _ v, of p adv] s by auto
  then show "page_wf p \<Longrightarrow> page_wf p'"
    and "page_wf p \<Longrightarrow> s < LeafNodesPerPage \<Longrightarrow> fsm_get_avail p' s = fsm_get_avail p s"
    and "page_wf p \<Longrightarrow> r = -1 \<and> fsm_get_max_avail p' < v \<or>
      0 \<le> r \<and> r < int LeafNodesPerPage \<and> v \<le> fsm_get_avail p (nat r)"
    by (auto simp: search_result_def)
qed

section \<open>Properties\<close>

text \<open>The contents of a page that \<open>PageInit\<close> has just initialised.\<close>

definition fsm_new_page :: FSMPageData where
  "fsm_new_page = \<lparr>fp_next_slot = 0, fp_nodes = replicate NodesPerPage 0\<rparr>"

lemma new_page_ok: "page_ok fsm_new_page"
  by (auto simp: page_ok_def page_wf_def tree_ok_def fsm_new_page_def fsm_newvalue_def Let_def page_sizes)

lemma new_page_get [simp]: "s < LeafNodesPerPage \<Longrightarrow> fsm_get_avail fsm_new_page s = 0"
  by (simp add: fsm_get_avail_def fsm_new_page_def page_sizes)

lemma rebuild_loop_unchanged:
  "\<forall>i \<in> set is. nodes ! i = fsm_newvalue nodes i \<Longrightarrow> fold fsm_rebuild_step is (nodes, ch) = (nodes, ch)"
  by (induction "is") (auto simp: fsm_rebuild_step_def Let_def)

lemma rebuild_loop_flag:
  "fold fsm_rebuild_step is (nodes, ch) = (nodes', False) \<Longrightarrow> nodes' = nodes \<and> \<not> ch"
proof (induction "is" arbitrary: nodes ch)
  case (Cons i "is")
  obtain n2 c2 where "fsm_rebuild_step i (nodes, ch) = (n2, c2)" by fastforce
  with Cons.prems Cons.IH [of n2 c2] show ?case
    by (auto simp: fsm_rebuild_step_def Let_def split: if_splits)
qed simp

lemma rebuild_page_flag:
  assumes "page_wf page"
  shows "fst (fsm_rebuild_page page) \<longleftrightarrow> \<not> page_ok page"
proof (cases "page_ok page")
  case True
  then have "fold fsm_rebuild_step (rev [0..<NonLeafNodesPerPage]) (fp_nodes page, False) = (fp_nodes page, False)"
    by (intro rebuild_loop_unchanged) (simp add: page_ok_def tree_ok_def)
  with True show ?thesis by (simp add: fsm_rebuild_page_def)
next
  case False
  have "fst (fsm_rebuild_page page)"
  proof (rule ccontr)
    assume "\<not> fst (fsm_rebuild_page page)"
    then have "fp_nodes (snd (fsm_rebuild_page page)) = fp_nodes page"
      using rebuild_loop_flag by (fastforce simp: fsm_rebuild_page_def split: prod.splits)
    with rebuild_page_ok(1) [OF assms] False show False by (simp add: page_ok_def page_wf_def)
  qed
  with False show ?thesis by simp
qed

text \<open>
  \<open>fsm_rebuild_page\<close> turns every page, however corrupt its upper nodes, into one in which each
  upper node is the maximum of its children. It changes no leaf, and it reports a modification
  exactly when the page did not already satisfy this.
\<close>

theorem fsm_rebuild_page_repairs:
  assumes "page_wf page"
  shows "page_ok (snd (fsm_rebuild_page page)) \<and>
    (\<forall>slot. fsm_get_avail (snd (fsm_rebuild_page page)) slot = fsm_get_avail page slot) \<and>
    (fst (fsm_rebuild_page page) \<longleftrightarrow> \<not> page_ok page)"
  using rebuild_page_ok(1) [OF assms] rebuild_page_flag [OF assms] rebuild_get_avail [OF assms] by simp

text \<open>
  C35. \<open>fsm_set_avail\<close> on a page with correct upper nodes: the slot has the new value, every other
  slot its old one, the upper nodes are correct again, so that the root is the maximum of the
  slots, and a return value of false means that the page is as it was.
\<close>

theorem fsm_set_avail_correct:
  assumes "page_ok page" and "slot < LeafNodesPerPage"
  shows "let (changed, page') = fsm_set_avail page slot value in
    page_ok page' \<and>
    (\<forall>s. fsm_get_avail page' s = (if s = slot then value else fsm_get_avail page s)) \<and>
    (\<forall>s. s < LeafNodesPerPage \<longrightarrow> fsm_get_avail page' s \<le> fsm_get_max_avail page') \<and>
    (\<not> changed \<longrightarrow> page' = page)"
proof -
  obtain changed page' where p: "fsm_set_avail page slot value = (changed, page')" by fastforce
  have ok: "page_ok page'" using fsm_page.set_ok [OF assms, of "value"] p by simp
  have get: "fsm_get_avail page' s = (if s = slot then value else fsm_get_avail page s)" for s
    using fsm_page.get_set [OF fsm_page.ok_wf [OF assms(1)] assms(2), of "value" s] p by simp
  show ?thesis
    unfolding p Let_def prod.case
    using ok get fsm_page.max_upper [OF ok] set_avail_changed [of page slot "value"] p by auto
qed

text \<open>
  C33. \<open>fsm_search_avail\<close> on a page with correct upper nodes returns, for a positive category, the
  number of a slot that has at least this category, or -1 exactly when no slot has. It changes
  nothing but the next-slot hint, which is the slot found or, on request, the one after it.
\<close>

theorem fsm_search_avail_exact:
  assumes "page_ok page" and "0 < minvalue"
  shows "\<exists>r page'. fsm_search_avail page minvalue advancenext = Some (r, page') \<and>
    fp_nodes page' = fp_nodes page \<and>
    (if \<exists>s < LeafNodesPerPage. minvalue \<le> fsm_get_avail page s
     then 0 \<le> r \<and> r < int LeafNodesPerPage \<and> minvalue \<le> fsm_get_avail page (nat r) \<and>
       fp_next_slot page' = r + (if advancenext then 1 else 0)
     else r = -1 \<and> page' = page)"
proof -
  obtain r page' where s: "fsm_search_avail page minvalue advancenext = Some (r, page')"
    "fp_nodes page' = fp_nodes page"
    and next_slot: "if r = -1 then page' = page else fp_next_slot page' = r + (if advancenext then 1 else 0)"
    using search_avail_ok [OF assms, of advancenext] by auto
  have wf: "page_wf page" using assms by (simp add: page_ok_def)
  note exact = fsm_page.search_exact [OF assms s(1)] and found = fsm_page.search_found [OF wf assms(2) s(1)]
  show ?thesis
  proof (cases "r = -1")
    case True
    then have "\<not> (\<exists>s < LeafNodesPerPage. minvalue \<le> fsm_get_avail page s)"
      using exact by (auto simp: not_le)
    with True s next_slot show ?thesis by simp
  next
    case False
    then have "\<exists>s < LeafNodesPerPage. minvalue \<le> fsm_get_avail page s"
      using exact by (auto simp: not_less)
    with False s next_slot found show ?thesis by simp
  qed
qed


text \<open>
  \<open>fsm_truncate_avail\<close> clears the slots from \<open>nslots\<close> on and no other, keeps the upper nodes
  correct, and reports whether one of the cleared slots had a value.
\<close>

theorem fsm_truncate_avail_correct:
  assumes "page_ok page" and "nslots < LeafNodesPerPage"
  shows "let (changed, page') = fsm_truncate_avail page nslots in
    page_ok page' \<and>
    (\<forall>s. s < LeafNodesPerPage \<longrightarrow> fsm_get_avail page' s = (if s < nslots then fsm_get_avail page s else 0)) \<and>
    (changed \<longleftrightarrow> (\<exists>s < LeafNodesPerPage. nslots \<le> s \<and> fsm_get_avail page s \<noteq> 0))"
proof -
  obtain changed page' where p: "fsm_truncate_avail page nslots = (changed, page')" by fastforce
  have wf: "page_wf page" using assms by (simp add: page_ok_def)
  have "0 < LeafNodesPerPage" by (simp add: page_sizes)
  then show ?thesis
    using truncate_avail_ok [OF assms] truncate_avail_wf [OF wf assms(2)] p by auto
qed

text \<open>Concrete pages: the new page with slot 7 set to 9, and a torn one whose root alone is 9.\<close>

definition sample_page :: FSMPageData where
  "sample_page = snd (fsm_set_avail fsm_new_page 7 9)"

definition torn_page :: FSMPageData where
  "torn_page = fsm_new_page\<lparr>fp_nodes := (replicate NodesPerPage 0)[0 := 9]\<rparr>"

lemma torn_page_wf: "page_wf torn_page"
  by (simp add: torn_page_def page_wf_def)

lemma sample_page_ok: "page_ok sample_page"
  unfolding sample_page_def by (rule set_avail_ok [OF new_page_ok]) (simp add: page_sizes)

lemma sample_page_get: "s < LeafNodesPerPage \<Longrightarrow> fsm_get_avail sample_page s = (if s = 7 then 9 else 0)"
  unfolding sample_page_def
  using fsm_page.get_set [OF fsm_page.ok_wf [OF new_page_ok], of 7 9 s] by (simp add: page_sizes)

theorem fsm_rebuild_page_witness:
  "page_ok (snd (fsm_rebuild_page torn_page)) \<and> fsm_get_avail (snd (fsm_rebuild_page torn_page)) 7 = 0"
proof -
  have "fsm_get_avail torn_page 7 = 0" by (simp add: torn_page_def fsm_get_avail_def page_sizes)
  then show ?thesis using fsm_rebuild_page_repairs [OF torn_page_wf] by simp
qed

theorem fsm_set_avail_witness:
  "let (changed, page') = fsm_set_avail fsm_new_page 7 9 in fsm_get_avail page' 7 = 9 \<and> fsm_get_avail page' 8 = 0"
proof -
  have "(7 :: nat) < LeafNodesPerPage" "8 < LeafNodesPerPage" by (simp_all add: page_sizes)
  then show ?thesis
    using fsm_set_avail_correct [OF new_page_ok, of 7 9] by (auto split: prod.splits)
qed

theorem fsm_search_avail_witness:
  "\<exists>page'. fsm_search_avail sample_page 5 True = Some (7, page') \<and> fp_next_slot page' = 8"
proof -
  have "(7 :: nat) < LeafNodesPerPage" by (simp add: page_sizes)
  then have "\<exists>s < LeafNodesPerPage. (5 :: uint8) \<le> fsm_get_avail sample_page s"
    using sample_page_get by auto
  then obtain r page' where r: "fsm_search_avail sample_page 5 True = Some (r, page')"
    "0 \<le> r" "r < int LeafNodesPerPage" "5 \<le> fsm_get_avail sample_page (nat r)" "fp_next_slot page' = r + 1"
    using fsm_search_avail_exact [OF sample_page_ok, of 5 True] by auto
  then have "nat r = 7" using sample_page_get [of "nat r"] by (auto split: if_splits)
  then have "r = 7" by simp
  with r show ?thesis by simp
qed


theorem fsm_truncate_avail_witness:
  "let (changed, page') = fsm_truncate_avail sample_page 5 in changed \<and> fsm_get_avail page' 7 = 0"
proof -
  have "(7 :: nat) < LeafNodesPerPage" "(5 :: nat) < LeafNodesPerPage" by (simp_all add: page_sizes)
  moreover from this have "\<exists>s < LeafNodesPerPage. 5 \<le> s \<and> fsm_get_avail sample_page s \<noteq> 0"
    by (intro exI [of _ 7]) (simp add: sample_page_get)
  ultimately show ?thesis
    using fsm_truncate_avail_correct [OF sample_page_ok, of 5] by (auto split: prod.splits)
qed

end
