(* ===== verification/Free_Space.thy ===== *)
theory Free_Space
  imports FSM_Page
begin

text \<open>
  The free space map of a relation, \<open>src/gausskernel/storage/freespace/freespace.cpp\<close>: a three-level
  tree of FSM pages over the heap blocks, stored depth first in the FSM fork.

  The state \<open>fsm_rel\<close> is the fork (\<open>None\<close> before the file is created) and the cached size
  \<open>smgr_fsm_nblocks\<close>. Block numbers keep their 32-bit width. \<open>None\<close> as a result means that the call
  does not return. Buffer locks, WAL records, dirty marks, the tablespace quota check of
  \<open>fsm_extend\<close> and the page LSN of segment-page relations do not affect the map and are left out.
\<close>

section \<open>Addresses and categories\<close>

type_synonym BlockNumber = uint32

definition InvalidBlockNumber :: BlockNumber where
  "InvalidBlockNumber = 0xFFFFFFFF"

record FSMAddress =
  level :: nat
  logpageno :: nat

abbreviation SlotsPerFSMPage :: nat where
  "SlotsPerFSMPage \<equiv> LeafNodesPerPage"

definition FSM_TREE_DEPTH :: nat where
  "FSM_TREE_DEPTH = (if SlotsPerFSMPage \<ge> 1626 then 3 else 4)"

definition FSM_ROOT_LEVEL :: nat where
  "FSM_ROOT_LEVEL = FSM_TREE_DEPTH - 1"

abbreviation (input) FSM_BOTTOM_LEVEL :: nat where
  "FSM_BOTTOM_LEVEL \<equiv> 0"

definition g_fsm_root_address :: FSMAddress where
  "g_fsm_root_address = \<lparr>level = FSM_ROOT_LEVEL, logpageno = 0\<rparr>"

text \<open>48 is \<open>MAXALIGN(SizeOfHeapPageHeaderData + sizeof(ItemIdData))\<close>.\<close>

definition MaxFSMRequestSize :: nat where
  "MaxFSMRequestSize = BLCKSZ - 48"

definition FSM_CAT_STEP :: nat where
  "FSM_CAT_STEP = BLCKSZ div 256"

definition fsm_space_avail_to_cat :: "nat \<Rightarrow> uint8" where
  "fsm_space_avail_to_cat avail =
     (if avail \<ge> MaxFSMRequestSize then 255
      else let cat = avail div FSM_CAT_STEP in of_nat (if cat > 254 then 254 else cat))"

definition fsm_space_cat_to_avail :: "uint8 \<Rightarrow> nat" where
  "fsm_space_cat_to_avail cat = (if cat = 255 then MaxFSMRequestSize else unat cat * FSM_CAT_STEP)"

text \<open>The error is \<open>ERRCODE_DATATYPE_MISMATCH\<close>.\<close>

definition fsm_space_needed_to_cat :: "nat \<Rightarrow> uint8 result" where
  "fsm_space_needed_to_cat needed =
     (if needed > MaxFSMRequestSize then Inl ERRCODE_DATATYPE_MISMATCH
      else if needed = 0 then Inr 1
      else let cat = (needed + FSM_CAT_STEP - 1) div FSM_CAT_STEP
           in Inr (of_nat (if cat > 255 then 255 else cat)))"

definition fsm_logical_to_physical :: "FSMAddress \<Rightarrow> BlockNumber" where
  "fsm_logical_to_physical addr =
     (let leafno = for_range 0 (level addr) (\<lambda>l leafno. leafno * SlotsPerFSMPage) (logpageno addr);
          (pages, leafno) =
            for_range 0 FSM_TREE_DEPTH
              (\<lambda>l (pages, leafno). (pages + (of_nat leafno + 1), leafno div SlotsPerFSMPage)) (0, leafno);
          pages = pages - of_nat (level addr)
      in pages - 1)"

definition fsm_get_location :: "BlockNumber \<Rightarrow> FSMAddress \<times> nat" where
  "fsm_get_location heapblk =
     (\<lparr>level = FSM_BOTTOM_LEVEL, logpageno = unat heapblk div SlotsPerFSMPage\<rparr>, unat heapblk mod SlotsPerFSMPage)"

definition fsm_get_heap_blk :: "FSMAddress \<Rightarrow> nat \<Rightarrow> BlockNumber" where
  "fsm_get_heap_blk addr slot = of_nat (logpageno addr) * of_nat SlotsPerFSMPage + of_nat slot"

definition fsm_get_parent :: "FSMAddress \<Rightarrow> FSMAddress \<times> nat" where
  "fsm_get_parent child =
     (\<lparr>level = level child + 1, logpageno = logpageno child div SlotsPerFSMPage\<rparr>,
      logpageno child mod SlotsPerFSMPage)"

definition fsm_get_child :: "FSMAddress \<Rightarrow> nat \<Rightarrow> FSMAddress" where
  "fsm_get_child parent slot =
     \<lparr>level = level parent - 1, logpageno = logpageno parent * SlotsPerFSMPage + slot\<rparr>"

definition fsm_get_lastblckno :: "FSMAddress \<Rightarrow> BlockNumber" where
  "fsm_get_lastblckno addr = fsm_get_heap_blk addr (SlotsPerFSMPage - 1)"

section \<open>Reading and extending the fork\<close>

record fsm_rel =
  fsm_fork :: "FSMPageData list option"
  smgr_fsm_nblocks :: BlockNumber

definition smgrnblocks :: "fsm_rel \<Rightarrow> BlockNumber" where
  "smgrnblocks rel = (case fsm_fork rel of None \<Rightarrow> 0 | Some pages \<Rightarrow> of_nat (length pages))"

function fsm_extend_loop :: "BlockNumber \<Rightarrow> BlockNumber \<Rightarrow> FSMPageData list \<Rightarrow> BlockNumber \<times> FSMPageData list" where
  "fsm_extend_loop fsm_nblocks_now fsm_nblocks pages =
     (if fsm_nblocks_now < fsm_nblocks
      then fsm_extend_loop (fsm_nblocks_now + 1) fsm_nblocks (pages @ [fsm_new_page])
      else (fsm_nblocks_now, pages))"
  by pat_completeness auto
termination
proof (relation "measure (\<lambda>(now, n, pages). unat n - unat now)", simp, clarsimp)
  fix now n :: BlockNumber
  assume lt: "now < n"
  with unat_plus_one [OF lt] show "unat n - unat (now + 1) < unat n - unat now" by (simp add: word_less_nat_alt)
qed

declare fsm_extend_loop.simps [simp del]

definition fsm_extend :: "fsm_rel \<Rightarrow> BlockNumber \<Rightarrow> fsm_rel" where
  "fsm_extend rel fsm_nblocks =
     (let pages = (case fsm_fork rel of None \<Rightarrow> [] | Some pages \<Rightarrow> pages);
          (fsm_nblocks_now, pages') = fsm_extend_loop (of_nat (length pages)) fsm_nblocks pages
      in rel\<lparr>fsm_fork := Some pages', smgr_fsm_nblocks := fsm_nblocks_now\<rparr>)"

text \<open>The buffer is identified with its block number, \<open>InvalidBuffer\<close> is \<open>None\<close>.\<close>

definition fsm_readbuf :: "fsm_rel \<Rightarrow> FSMAddress \<Rightarrow> bool \<Rightarrow> BlockNumber option \<times> fsm_rel" where
  "fsm_readbuf rel addr ext =
     (let blkno = fsm_logical_to_physical addr;
          rel1 = (if smgr_fsm_nblocks rel = InvalidBlockNumber \<or> blkno \<ge> smgr_fsm_nblocks rel
                  then rel\<lparr>smgr_fsm_nblocks := smgrnblocks rel\<rparr> else rel)
      in if blkno \<ge> smgr_fsm_nblocks rel1
         then if ext then (Some blkno, fsm_extend rel1 (blkno + 1)) else (None, rel1)
         else (Some blkno, rel1))"

definition BufferGetPage :: "fsm_rel \<Rightarrow> BlockNumber \<Rightarrow> FSMPageData" where
  "BufferGetPage rel buf = the (fsm_fork rel) ! unat buf"

definition set_page :: "fsm_rel \<Rightarrow> BlockNumber \<Rightarrow> FSMPageData \<Rightarrow> fsm_rel" where
  "set_page rel buf page = rel\<lparr>fsm_fork := Some ((the (fsm_fork rel))[unat buf := page])\<rparr>"

section \<open>Operations on the map\<close>

definition fsm_set_and_search ::
  "fsm_rel \<Rightarrow> FSMAddress \<Rightarrow> nat \<Rightarrow> uint8 \<Rightarrow> uint8 \<Rightarrow> bool \<Rightarrow> (int \<times> fsm_rel) option" where
  "fsm_set_and_search rel addr slot newValue minValue search =
     (let (buf, rel) = fsm_readbuf rel addr True;
          blk = the buf;
          (changed, page) = fsm_set_avail (BufferGetPage rel blk) slot newValue
      in if minValue \<noteq> 0 \<and> search then
           (case fsm_search_avail page minValue (level addr = FSM_BOTTOM_LEVEL) of
              None \<Rightarrow> None
            | Some (newslot, page') \<Rightarrow> Some (newslot, set_page rel blk page'))
         else Some (-1, set_page rel blk page))"

text \<open>One pass of the loop of \<open>fsm_search\<close> over the page at \<open>addr\<close>: slot, maximum and new state.\<close>

definition fsm_search_page ::
  "fsm_rel \<Rightarrow> FSMAddress \<Rightarrow> uint8 \<Rightarrow> (int \<times> uint8 \<times> fsm_rel) option" where
  "fsm_search_page rel addr min_cat =
     (let (buf, rel) = fsm_readbuf rel addr False
      in case buf of
           None \<Rightarrow> Some (-1, 0, rel)
         | Some blk \<Rightarrow>
             (case fsm_search_avail (BufferGetPage rel blk) min_cat (level addr = FSM_BOTTOM_LEVEL) of
                None \<Rightarrow> None
              | Some (slot, page) \<Rightarrow>
                  Some (slot, if slot = -1 then fsm_get_max_avail page else 0, set_page rel blk page)))"

function fsm_search_loop :: "nat \<Rightarrow> FSMAddress \<Rightarrow> fsm_rel \<Rightarrow> uint8 \<Rightarrow> (BlockNumber \<times> fsm_rel) option" where
  "fsm_search_loop restarts addr rel min_cat =
     (case fsm_search_page rel addr min_cat of
        None \<Rightarrow> None
      | Some (slot, max_avail, rel) \<Rightarrow>
          if slot \<noteq> -1 then
            if level addr = FSM_BOTTOM_LEVEL then Some (fsm_get_heap_blk addr (nat slot), rel)
            else fsm_search_loop restarts (fsm_get_child addr (nat slot)) rel min_cat
          else if level addr = FSM_ROOT_LEVEL then Some (InvalidBlockNumber, rel)
          else
            (let (parent, parentslot) = fsm_get_parent addr
             in case fsm_set_and_search rel parent parentslot max_avail 0 True of
                  None \<Rightarrow> None
                | Some (_, rel) \<Rightarrow>
                    if restarts > 10000 then Some (InvalidBlockNumber, rel)
                    else fsm_search_loop (restarts + 1) g_fsm_root_address rel min_cat))"
  by pat_completeness auto
termination
  by (relation "measures [\<lambda>(restarts, addr, rel, c). 10001 - restarts, \<lambda>(restarts, addr, rel, c). level addr]")
    (auto simp: fsm_get_child_def)

declare fsm_search_loop.simps [simp del]

definition fsm_search :: "fsm_rel \<Rightarrow> uint8 \<Rightarrow> (BlockNumber \<times> fsm_rel) option" where
  "fsm_search rel min_cat = fsm_search_loop 0 g_fsm_root_address rel min_cat"

definition GetPageWithFreeSpace :: "fsm_rel \<Rightarrow> nat \<Rightarrow> (BlockNumber \<times> fsm_rel) option result" where
  "GetPageWithFreeSpace rel spaceNeeded =
     (case fsm_space_needed_to_cat spaceNeeded of
        Inl e \<Rightarrow> Inl e
      | Inr min_cat \<Rightarrow> Inr (fsm_search rel min_cat))"

definition RecordAndGetPageWithFreeSpace ::
  "fsm_rel \<Rightarrow> BlockNumber \<Rightarrow> nat \<Rightarrow> nat \<Rightarrow> (BlockNumber \<times> fsm_rel) option result" where
  "RecordAndGetPageWithFreeSpace rel oldPage oldSpaceAvail spaceNeeded =
     (let old_cat = fsm_space_avail_to_cat oldSpaceAvail
      in case fsm_space_needed_to_cat spaceNeeded of
           Inl e \<Rightarrow> Inl e
         | Inr search_cat \<Rightarrow>
             (let (addr, slot) = fsm_get_location oldPage
              in Inr (case fsm_set_and_search rel addr slot old_cat search_cat True of
                        None \<Rightarrow> None
                      | Some (search_slot, rel) \<Rightarrow>
                          if search_slot \<noteq> -1 then Some (fsm_get_heap_blk addr (nat search_slot), rel)
                          else fsm_search rel search_cat)))"

definition RecordPageWithFreeSpace :: "fsm_rel \<Rightarrow> BlockNumber \<Rightarrow> nat \<Rightarrow> fsm_rel option" where
  "RecordPageWithFreeSpace rel heapBlk spaceAvail =
     (let new_cat = fsm_space_avail_to_cat spaceAvail;
          (addr, slot) = fsm_get_location heapBlk
      in map_option snd (fsm_set_and_search rel addr slot new_cat 0 True))"

definition GetRecordedFreeSpace :: "fsm_rel \<Rightarrow> BlockNumber \<Rightarrow> nat \<times> fsm_rel" where
  "GetRecordedFreeSpace rel heapBlk =
     (let (addr, slot) = fsm_get_location heapBlk;
          (buf, rel) = fsm_readbuf rel addr False
      in case buf of
           None \<Rightarrow> (0, rel)
         | Some blk \<Rightarrow> (fsm_space_cat_to_avail (fsm_get_avail (BufferGetPage rel blk) slot), rel))"

text \<open>The code tests \<open>level == FSM_ROOT_LEVEL\<close>; no address has a higher level.\<close>

function fsm_update_recursive :: "fsm_rel \<Rightarrow> FSMAddress \<Rightarrow> uint8 \<Rightarrow> bool \<Rightarrow> fsm_rel option" where
  "fsm_update_recursive rel addr new_cat search =
     (if level addr \<ge> FSM_ROOT_LEVEL then Some rel
      else
        (let (parent, parentslot) = fsm_get_parent addr
         in case fsm_set_and_search rel parent parentslot new_cat 0 search of
              None \<Rightarrow> None
            | Some (_, rel) \<Rightarrow> fsm_update_recursive rel parent new_cat search))"
  by pat_completeness auto
termination
  by (relation "measure (\<lambda>(rel, addr, c, s). FSM_ROOT_LEVEL - level addr)") (auto simp: fsm_get_parent_def)

declare fsm_update_recursive.simps [simp del]

partial_function (option) UpdateFreeSpaceMap_loop ::
  "fsm_rel \<Rightarrow> BlockNumber \<Rightarrow> BlockNumber \<Rightarrow> uint8 \<Rightarrow> bool \<Rightarrow> fsm_rel option" where
  "UpdateFreeSpaceMap_loop rel blockNum endBlkNum new_cat search =
     (if blockNum \<le> endBlkNum then
        (let addr = fst (fsm_get_location blockNum)
         in case fsm_update_recursive rel addr new_cat search of
              None \<Rightarrow> None
            | Some rel \<Rightarrow>
                (let lastBlkOnPage = fsm_get_lastblckno addr
                 in if lastBlkOnPage \<ge> endBlkNum then Some rel
                    else UpdateFreeSpaceMap_loop rel (lastBlkOnPage + 1) endBlkNum new_cat search))
      else Some rel)"

definition UpdateFreeSpaceMap ::
  "fsm_rel \<Rightarrow> BlockNumber \<Rightarrow> BlockNumber \<Rightarrow> nat \<Rightarrow> bool \<Rightarrow> fsm_rel option" where
  "UpdateFreeSpaceMap rel startBlkNum endBlkNum freespace search =
     UpdateFreeSpaceMap_loop rel startBlkNum endBlkNum (fsm_space_avail_to_cat freespace) search"

text \<open>
  The body of \<open>fsm_vacuum_page\<close> for one slot: \<open>vac\<close> is the recursive call on the child page.
\<close>

definition fsm_vacuum_slot ::
  "(nat \<Rightarrow> fsm_rel \<Rightarrow> uint8 \<times> bool \<times> fsm_rel) \<Rightarrow> BlockNumber \<Rightarrow> FSMAddress \<Rightarrow> nat \<Rightarrow>
     bool \<times> fsm_rel \<Rightarrow> bool \<times> fsm_rel" where
  "fsm_vacuum_slot vac blk addr slot st =
     (let (eof, rel) = st;
          (child_avail, eof, rel) =
            (if \<not> eof then vac (logpageno (fsm_get_child addr slot)) rel else (0, eof, rel));
          page = BufferGetPage rel blk
      in if fsm_get_avail page slot \<noteq> child_avail
         then (eof, set_page rel blk (snd (fsm_set_avail page slot child_avail)))
         else (eof, rel))"

text \<open>The address is given by its level, on which the code recurses, and its page number.\<close>

primrec fsm_vacuum_page :: "nat \<Rightarrow> nat \<Rightarrow> fsm_rel \<Rightarrow> uint8 \<times> bool \<times> fsm_rel" where
  "fsm_vacuum_page 0 pageno rel =
     (let (buf, rel) = fsm_readbuf rel \<lparr>level = 0, logpageno = pageno\<rparr> False
      in case buf of
           None \<Rightarrow> (0, True, rel)
         | Some blk \<Rightarrow>
             (let max_avail = fsm_get_max_avail (BufferGetPage rel blk)
              in (max_avail, False, set_page rel blk ((BufferGetPage rel blk)\<lparr>fp_next_slot := 0\<rparr>))))"
| "fsm_vacuum_page (Suc l) pageno rel =
     (let addr = \<lparr>level = Suc l, logpageno = pageno\<rparr>;
          (buf, rel) = fsm_readbuf rel addr False
      in case buf of
           None \<Rightarrow> (0, True, rel)
         | Some blk \<Rightarrow>
             (let (eof, rel) =
                    for_range 0 SlotsPerFSMPage (fsm_vacuum_slot (fsm_vacuum_page l) blk addr) (False, rel);
                  max_avail = fsm_get_max_avail (BufferGetPage rel blk)
              in (max_avail, False, set_page rel blk ((BufferGetPage rel blk)\<lparr>fp_next_slot := 0\<rparr>))))"

definition FreeSpaceMapVacuum :: "fsm_rel \<Rightarrow> fsm_rel" where
  "FreeSpaceMapVacuum rel =
     (let (avail, eof, rel) = fsm_vacuum_page (level g_fsm_root_address) (logpageno g_fsm_root_address) rel
      in rel)"

definition smgrtruncate :: "fsm_rel \<Rightarrow> BlockNumber \<Rightarrow> fsm_rel" where
  "smgrtruncate rel n = rel\<lparr>fsm_fork := map_option (take (unat n)) (fsm_fork rel)\<rparr>"

definition FreeSpaceMapTruncateRel :: "fsm_rel \<Rightarrow> BlockNumber \<Rightarrow> fsm_rel" where
  "FreeSpaceMapTruncateRel rel nblocks =
     (if fsm_fork rel = None then rel
      else
        (let (first_removed_address, first_removed_slot) = fsm_get_location nblocks
         in if first_removed_slot > 0 then
              (let (buf, rel) = fsm_readbuf rel first_removed_address False
               in case buf of
                    None \<Rightarrow> rel
                  | Some blk \<Rightarrow>
                      (let rel = set_page rel blk (snd (fsm_truncate_avail (BufferGetPage rel blk) first_removed_slot));
                           new_nfsmblocks = fsm_logical_to_physical first_removed_address + 1
                       in (smgrtruncate rel new_nfsmblocks)\<lparr>smgr_fsm_nblocks := new_nfsmblocks\<rparr>))
            else
              (let new_nfsmblocks = fsm_logical_to_physical first_removed_address
               in if smgrnblocks rel \<le> new_nfsmblocks then rel
                  else (smgrtruncate rel new_nfsmblocks)\<lparr>smgr_fsm_nblocks := new_nfsmblocks\<rparr>)))"

definition FreeSpaceMapCalTruncBlkNo :: "BlockNumber \<Rightarrow> BlockNumber" where
  "FreeSpaceMapCalTruncBlkNo relBlkNo = fsm_logical_to_physical (fst (fsm_get_location relBlkNo))"

section \<open>Addressing\<close>

lemma map_sizes:
  "FSM_TREE_DEPTH = 3" "FSM_ROOT_LEVEL = 2" "FSM_CAT_STEP = 32" "MaxFSMRequestSize = 8144" "BLCKSZ = 8192"
  by (simp_all add: FSM_TREE_DEPTH_def FSM_ROOT_LEVEL_def FSM_CAT_STEP_def MaxFSMRequestSize_def BLCKSZ_def page_sizes)

text \<open>The addresses of the three-level tree, and their place in depth-first order.\<close>

definition addr_ok :: "FSMAddress \<Rightarrow> bool" where
  "addr_ok a \<longleftrightarrow> level a \<le> FSM_ROOT_LEVEL \<and> logpageno a < SlotsPerFSMPage ^ (FSM_ROOT_LEVEL - level a)"

definition dfs_position :: "FSMAddress \<Rightarrow> nat" where
  "dfs_position a =
     (if level a = 0 then logpageno a + logpageno a div 4069 + 2
      else if level a = 1 then 4070 * logpageno a + 1
      else 0)"

lemma addr_ok_cases:
  assumes "addr_ok a"
  obtains (leaf) p where "a = \<lparr>level = 0, logpageno = p\<rparr>" "p < 4069 * 4069"
  | (inner) p where "a = \<lparr>level = 1, logpageno = p\<rparr>" "p < 4069"
  | (root) "a = \<lparr>level = 2, logpageno = 0\<rparr>"
proof -
  obtain l p where a: "a = \<lparr>level = l, logpageno = p\<rparr>" by (cases a) auto
  then have "l = 0 \<or> l = 1 \<or> l = 2" using assms by (auto simp: addr_ok_def map_sizes)
  with a assms that show ?thesis
    by (auto simp: addr_ok_def map_sizes page_sizes power2_eq_square)
qed

lemma physical_nat:
  assumes "addr_ok a"
  shows "unat (fsm_logical_to_physical a) = dfs_position a"
  using assms
proof (cases rule: addr_ok_cases)
  case (leaf p)
  have "p div 16556761 = 0" using leaf by simp
  then have "fsm_logical_to_physical a = of_nat (p + p div 4069 + 2)"
    using leaf by (simp add: fsm_logical_to_physical_def for_range_def map_sizes page_sizes upt_rec
        div_mult2_eq [symmetric])
  moreover have "p + p div 4069 + 2 < 2 ^ 32" using leaf by simp
  ultimately have "unat (fsm_logical_to_physical a) = p + p div 4069 + 2" by (rule unat_of_nat32)
  then show ?thesis using leaf by (simp add: dfs_position_def)
next
  case (inner p)
  have "fsm_logical_to_physical a = of_nat (4070 * p + 1)"
    using inner by (simp add: fsm_logical_to_physical_def for_range_def map_sizes page_sizes upt_rec)
  moreover have "4070 * p + 1 < 2 ^ 32" using inner by simp
  ultimately have "unat (fsm_logical_to_physical a) = 4070 * p + 1" by (rule unat_of_nat32)
  then show ?thesis using inner by (simp add: dfs_position_def)
next
  case root
  then show ?thesis
    by (simp add: fsm_logical_to_physical_def for_range_def map_sizes page_sizes upt_rec dfs_position_def)
qed

lemma dfs_position_inj:
  assumes "addr_ok a" and "addr_ok b" and "dfs_position a = dfs_position b"
  shows "a = b"
proof -
  have leaf_inner: "p + p div 4069 + 2 \<noteq> 4070 * q + 1" for p q :: nat
  proof
    assume e: "p + p div 4069 + 2 = 4070 * q + 1"
    define d m where "d = p div 4069" and "m = p mod 4069"
    have pd: "4069 * d + m = p" unfolding d_def m_def by (rule mult_div_mod_eq)
    have m: "m < 4069" unfolding m_def by simp
    from e [folded d_def] pd have "4070 * d + (m + 1) = 4070 * q" by linarith
    then have "(4070 * d + (m + 1)) mod 4070 = (4070 * q) mod 4070" by (rule arg_cong)
    then have "(m + 1) mod 4070 = 0" by (simp only: mod_mult_self4 mod_mult_self1_is_0)
    moreover have "(m + 1) mod 4070 = m + 1" using m by (intro mod_less) simp
    ultimately show False by simp
  qed
  have mono: "p + p div 4069 < q + q div 4069" if "p < q" for p q :: nat
    by (rule add_less_le_mono [OF that div_le_mono]) (use that in simp)
  have leaf_leaf: "p = q" if "p + p div 4069 = q + q div 4069" for p q :: nat
    using that mono [of p q] mono [of q p] by (cases p q rule: linorder_cases) auto
  show ?thesis
    using assms(1)
  proof (cases rule: addr_ok_cases)
    case (leaf p)
    from assms(2) show ?thesis
    proof (cases rule: addr_ok_cases)
      case leaf': (leaf q)
      then show ?thesis using leaf leaf_leaf [of p q] assms(3) by (simp add: dfs_position_def)
    next
      case (inner q)
      then show ?thesis using leaf leaf_inner [of p q] assms(3) by (simp add: dfs_position_def)
    next
      case root
      then show ?thesis using leaf assms(3) by (simp add: dfs_position_def)
    qed
  next
    case (inner p)
    from assms(2) show ?thesis
    proof (cases rule: addr_ok_cases)
      case (leaf q)
      then show ?thesis using inner leaf_inner [of q p] assms(3) by (simp add: dfs_position_def)
    next
      case inner': (inner q)
      then show ?thesis using inner assms(3) by (simp add: dfs_position_def)
    next
      case root
      then show ?thesis using inner assms(3) by (simp add: dfs_position_def)
    qed
  next
    case root
    from assms(2) show ?thesis
      by (cases rule: addr_ok_cases) (use root assms(3) in \<open>simp_all add: dfs_position_def\<close>)
  qed
qed

lemma root_addr_ok [simp]: "addr_ok g_fsm_root_address"
  by (simp add: addr_ok_def g_fsm_root_address_def map_sizes)

lemma location_ok:
  assumes "fsm_get_location b = (a, slot)"
  shows "addr_ok a" and "level a = 0" and "slot < SlotsPerFSMPage"
    and "unat b = logpageno a * SlotsPerFSMPage + slot"
proof -
  have "unat b < 2 ^ 32" using unsigned_less [of b] by simp
  then show "addr_ok a" and "level a = 0" and "slot < SlotsPerFSMPage"
    and "unat b = logpageno a * SlotsPerFSMPage + slot"
    using assms by (auto simp: fsm_get_location_def addr_ok_def map_sizes page_sizes less_mult_imp_div_less power2_eq_square)
qed

lemma child_ok:
  assumes "addr_ok a" and "0 < level a" and "s < SlotsPerFSMPage"
  shows "addr_ok (fsm_get_child a s)"
  using assms(1)
  by (cases rule: addr_ok_cases)
    (use assms(2,3) in \<open>auto simp: addr_ok_def fsm_get_child_def map_sizes page_sizes power2_eq_square\<close>)

lemma parent_ok:
  assumes "addr_ok a" and "level a < FSM_ROOT_LEVEL" and "fsm_get_parent a = (p, s)"
  shows "addr_ok p" and "s < SlotsPerFSMPage" and "0 < level p" and "fsm_get_child p s = a"
  using assms(1)
  by (cases rule: addr_ok_cases;
      use assms(2,3) in \<open>auto simp: addr_ok_def fsm_get_child_def fsm_get_parent_def map_sizes page_sizes
        power2_eq_square less_mult_imp_div_less\<close>)+

text \<open>Depth-first order: a child is behind its parent, and before the next child.\<close>

lemma child_position:
  assumes "addr_ok a" and "0 < level a" and "s < SlotsPerFSMPage"
  shows "dfs_position a < dfs_position (fsm_get_child a s)"
    and "s < t \<Longrightarrow> dfs_position (fsm_get_child a s) < dfs_position (fsm_get_child a t)"
  using assms(1)
  by (cases rule: addr_ok_cases;
      use assms(2,3) in \<open>auto simp: dfs_position_def fsm_get_child_def page_sizes
        intro: add_less_le_mono div_le_mono\<close>)+

section \<open>The pages of the fork\<close>

definition pages :: "fsm_rel \<Rightarrow> FSMPageData list" where
  "pages rel = (case fsm_fork rel of None \<Rightarrow> [] | Some ps \<Rightarrow> ps)"

definition page_at :: "fsm_rel \<Rightarrow> FSMAddress \<Rightarrow> FSMPageData option" where
  "page_at rel a = (if dfs_position a < length (pages rel) then Some (pages rel ! dfs_position a) else None)"

text \<open>The value of a slot; pages beyond the end of the fork count as empty.\<close>

definition slot_val :: "fsm_rel \<Rightarrow> FSMAddress \<Rightarrow> nat \<Rightarrow> uint8" where
  "slot_val rel a s = (case page_at rel a of None \<Rightarrow> 0 | Some p \<Rightarrow> fsm_get_avail p s)"

definition rel_wf :: "fsm_rel \<Rightarrow> bool" where
  "rel_wf rel \<longleftrightarrow> list_all page_wf (pages rel) \<and> length (pages rel) < 2 ^ 32 \<and>
     (smgr_fsm_nblocks rel = InvalidBlockNumber \<or> unat (smgr_fsm_nblocks rel) \<le> length (pages rel))"

definition rel_ok :: "fsm_rel \<Rightarrow> bool" where
  "rel_ok rel \<longleftrightarrow> rel_wf rel \<and> list_all page_ok (pages rel)"

lemma page_at_wf: "rel_wf rel \<Longrightarrow> page_at rel a = Some p \<Longrightarrow> page_wf p"
  by (auto simp: rel_wf_def page_at_def list_all_length split: if_splits)

lemma page_at_ok: "rel_ok rel \<Longrightarrow> page_at rel a = Some p \<Longrightarrow> page_ok p"
  by (auto simp: rel_ok_def page_at_def list_all_length split: if_splits)

lemma smgrnblocks_nat: "rel_wf rel \<Longrightarrow> unat (smgrnblocks rel) = length (pages rel)"
  by (auto simp: rel_wf_def smgrnblocks_def pages_def unat_of_nat split: option.splits)

lemma extend_loop:
  "unat now = length ps \<Longrightarrow>
    \<exists>n'. fsm_extend_loop now n ps = (n', ps @ replicate (unat n - length ps) fsm_new_page) \<and>
      unat n' = max (unat n) (length ps)"
proof (induction now n ps rule: fsm_extend_loop.induct)
  case (1 now n ps)
  show ?case
  proof (cases "now < n")
    case True
    have "unat (now + 1) = length (ps @ [fsm_new_page])" using 1(2) unat_plus_one [OF True] by simp
    from "1.IH" [OF True this] obtain n' where
      n': "fsm_extend_loop (now + 1) n (ps @ [fsm_new_page]) =
        (n', (ps @ [fsm_new_page]) @ replicate (unat n - length (ps @ [fsm_new_page])) fsm_new_page)"
      "unat n' = max (unat n) (length (ps @ [fsm_new_page]))" by blast
    have lt: "length ps < unat n" using True 1(2) by (simp add: word_less_nat_alt)
    then have "replicate (unat n - length ps) fsm_new_page =
        fsm_new_page # replicate (unat n - length (ps @ [fsm_new_page])) fsm_new_page"
      by (simp add: Suc_diff_Suc flip: replicate_Suc)
    with n' lt True show ?thesis by (subst fsm_extend_loop.simps) simp
  next
    case False
    then have "unat n \<le> length ps" using 1(2) by (simp add: word_less_nat_alt not_less)
    with False 1(2) show ?thesis by (subst fsm_extend_loop.simps) simp
  qed
qed

lemma readbuf_plain:
  assumes wf: "rel_wf rel" and a: "addr_ok a" and r: "fsm_readbuf rel a False = (buf, rel')"
  shows "rel_wf rel'" and "fsm_fork rel' = fsm_fork rel"
    and "buf = (if page_at rel a = None then None else Some (fsm_logical_to_physical a))"
proof -
  note pos = physical_nat [OF a] and n = smgrnblocks_nat [OF wf]
  have len: "length (pages rel) < 2 ^ 32" using wf by (simp add: rel_wf_def)
  show "fsm_fork rel' = fsm_fork rel" using r by (auto simp: fsm_readbuf_def Let_def split: if_splits)
  then have "pages rel' = pages rel" by (simp add: pages_def)
  then show "rel_wf rel'"
    using wf n r by (auto simp: rel_wf_def fsm_readbuf_def Let_def split: if_splits)
  show "buf = (if page_at rel a = None then None else Some (fsm_logical_to_physical a))"
    using wf r pos n
    by (auto simp: rel_wf_def fsm_readbuf_def Let_def page_at_def word_le_nat_alt not_le split: if_splits)
qed

lemma readbuf_extend:
  assumes wf: "rel_wf rel" and a: "addr_ok a" and r: "fsm_readbuf rel a True = (buf, rel')"
  shows "buf = Some (fsm_logical_to_physical a)" and "rel_wf rel'"
    and "\<exists>k. pages rel' = pages rel @ replicate k fsm_new_page" and "dfs_position a < length (pages rel')"
    and "fsm_fork rel' = Some (pages rel')"
proof -
  let ?blk = "fsm_logical_to_physical a"
  let ?stale = "smgr_fsm_nblocks rel = InvalidBlockNumber \<or> ?blk \<ge> smgr_fsm_nblocks rel"
  let ?rel = "if ?stale then rel\<lparr>smgr_fsm_nblocks := smgrnblocks rel\<rparr> else rel"
  note pos = physical_nat [OF a] and n = smgrnblocks_nat [OF wf]
  have len: "length (pages rel) < 2 ^ 32" using wf by (simp add: rel_wf_def)
  have small: "dfs_position a + 1 < 2 ^ 32"
    using a by (cases rule: addr_ok_cases) (auto simp: dfs_position_def)
  show "buf = Some ?blk" using r by (auto simp: fsm_readbuf_def Let_def split: if_splits)
  have *: "rel_wf rel' \<and> (\<exists>k. pages rel' = pages rel @ replicate k fsm_new_page) \<and>
    dfs_position a < length (pages rel') \<and> fsm_fork rel' = Some (pages rel')"
  proof (cases "?blk \<ge> smgr_fsm_nblocks ?rel")
    case False
    then have "rel' = ?rel" using r by (auto simp: fsm_readbuf_def Let_def split: if_splits)
    moreover have "dfs_position a < length (pages rel)"
      using False wf n pos by (auto simp: rel_wf_def word_le_nat_alt not_le split: if_splits)
    moreover from this have "fsm_fork rel = Some (pages rel)" by (auto simp: pages_def split: option.splits)
    moreover have "pages ?rel = pages rel" by (simp add: pages_def)
    moreover have "rel_wf ?rel" using wf n by (auto simp: rel_wf_def pages_def)
    ultimately show ?thesis by (auto intro: exI [of _ 0])
  next
    case True
    then have rel': "rel' = fsm_extend ?rel (?blk + 1)"
      using r by (auto simp: fsm_readbuf_def Let_def split: if_splits)
    have u: "unat (?blk + 1) = dfs_position a + 1"
      using small pos by (simp add: unat_word_ariths)
    have "unat (of_nat (length (pages rel)) :: uint32) = length (pages rel)"
      using len by (simp add: unat_of_nat)
    from extend_loop [OF this, of "?blk + 1"] obtain n' where
      n': "fsm_extend_loop (of_nat (length (pages rel))) (?blk + 1) (pages rel) =
        (n', pages rel @ replicate (unat (?blk + 1) - length (pages rel)) fsm_new_page)"
      "unat n' = max (unat (?blk + 1)) (length (pages rel))" by blast
    have "pages ?rel = pages rel" by (simp add: pages_def)
    then have fork: "fsm_fork rel' = Some (pages rel @ replicate (unat (?blk + 1) - length (pages rel)) fsm_new_page)"
      and cache: "smgr_fsm_nblocks rel' = n'"
      using n'(1) unfolding rel' fsm_extend_def pages_def [symmetric] by (simp_all add: Let_def)
    then have p: "pages rel' = pages rel @ replicate (unat (?blk + 1) - length (pages rel)) fsm_new_page"
      by (simp add: pages_def)
    have "page_wf fsm_new_page" using new_page_ok by (simp add: page_ok_def)
    then have "rel_wf rel'"
      using wf p cache n'(2) u small len by (auto simp: rel_wf_def list_all_iff)
    with p fork u show ?thesis by auto
  qed
  then show "rel_wf rel'" and "\<exists>k. pages rel' = pages rel @ replicate k fsm_new_page"
    and "dfs_position a < length (pages rel')" and "fsm_fork rel' = Some (pages rel')" by auto
qed

lemma slot_val_extend:
  assumes "pages rel' = pages rel @ replicate k fsm_new_page" and "s < SlotsPerFSMPage"
  shows "slot_val rel' b s = slot_val rel b s"
  using assms by (auto simp: slot_val_def page_at_def nth_append)

lemma BufferGetPage_at:
  assumes "addr_ok a" and "page_at rel a = Some p"
  shows "BufferGetPage rel (fsm_logical_to_physical a) = p"
  using assms physical_nat [OF assms(1)]
  by (auto simp: BufferGetPage_def page_at_def pages_def split: if_splits option.splits)

lemma set_page_pages:
  assumes "addr_ok a" and "page_at rel a = Some p"
  shows "pages (set_page rel (fsm_logical_to_physical a) q) = (pages rel)[dfs_position a := q]"
  using assms physical_nat [OF assms(1)]
  by (auto simp: set_page_def page_at_def pages_def split: if_splits option.splits)

lemma set_page_at:
  assumes "addr_ok a" and "page_at rel a = Some p" and "addr_ok b"
  shows "page_at (set_page rel (fsm_logical_to_physical a) q) b = (if b = a then Some q else page_at rel b)"
  using assms dfs_position_inj [OF assms(1,3)]
  by (auto simp: page_at_def set_page_pages [OF assms(1,2)] nth_list_update split: if_splits)

lemma set_page_inv:
  assumes "addr_ok a" and "page_at rel a = Some p"
  shows "rel_wf rel \<Longrightarrow> page_wf q \<Longrightarrow> rel_wf (set_page rel (fsm_logical_to_physical a) q)"
    and "rel_ok rel \<Longrightarrow> page_ok q \<Longrightarrow> rel_ok (set_page rel (fsm_logical_to_physical a) q)"
proof -
  have cache: "smgr_fsm_nblocks (set_page rel (fsm_logical_to_physical a) q) = smgr_fsm_nblocks rel"
    by (simp add: set_page_def)
  show wf: "rel_wf rel \<Longrightarrow> page_wf q \<Longrightarrow> rel_wf (set_page rel (fsm_logical_to_physical a) q)"
    by (auto simp: rel_wf_def set_page_pages [OF assms] cache list_all_iff dest!: set_update_subset_insert [THEN subsetD])
  assume "rel_ok rel" "page_ok q"
  with wf show "rel_ok (set_page rel (fsm_logical_to_physical a) q)"
    by (auto simp: rel_ok_def set_page_pages [OF assms] list_all_iff page_ok_def
        dest!: set_update_subset_insert [THEN subsetD])
qed

lemma rel_ok_extend:
  "rel_ok rel \<Longrightarrow> rel_wf rel' \<Longrightarrow> pages rel' = pages rel @ replicate k fsm_new_page \<Longrightarrow> rel_ok rel'"
  using new_page_ok by (auto simp: rel_ok_def list_all_iff)

text \<open>A stored page and its effect: the state after replacing the page at \<open>a\<close>.\<close>

lemma slot_val_set_page:
  assumes "addr_ok a" and "page_at rel a = Some p" and "addr_ok b"
  shows "slot_val (set_page rel (fsm_logical_to_physical a) q) b s =
    (if b = a then fsm_get_avail q s else slot_val rel b s)"
  using set_page_at [OF assms] by (simp add: slot_val_def)

lemma set_and_search_correct:
  assumes wf: "rel_wf rel" and a: "addr_ok a" and slot: "slot < SlotsPerFSMPage"
  shows "\<exists>r rel'. fsm_set_and_search rel a slot v m search = Some (r, rel') \<and> rel_wf rel' \<and>
    (rel_ok rel \<longrightarrow> rel_ok rel') \<and>
    (\<forall>b s. addr_ok b \<and> s < SlotsPerFSMPage \<longrightarrow>
      slot_val rel' b s = (if b = a \<and> s = slot then v else slot_val rel b s)) \<and>
    (r = -1 \<or> 0 \<le> r \<and> r < int SlotsPerFSMPage \<and> m \<le> slot_val rel' a (nat r))"
proof -
  obtain buf rel1 where rb: "fsm_readbuf rel a True = (buf, rel1)" by fastforce
  note e = readbuf_extend [OF wf a rb]
  obtain k where k: "pages rel1 = pages rel @ replicate k fsm_new_page" using e(3) by blast
  obtain p where p: "page_at rel1 a = Some p" using e(4) by (simp add: page_at_def)
  have pwf: "page_wf p" using page_at_wf [OF e(2) p] .
  let ?blk = "fsm_logical_to_physical a" and ?q = "snd (fsm_set_avail p slot v)"
  have qwf: "page_wf ?q" by (rule fsm_page.set_wf [OF pwf slot])
  have qok: "page_ok ?q" if "rel_ok rel"
    using fsm_page.set_ok [OF page_at_ok [OF rel_ok_extend [OF that e(2) k] p] slot] .
  have val: "slot_val rel1 b s = slot_val rel b s" if "s < SlotsPerFSMPage" for b s
    using slot_val_extend [OF k that] .
  have final: "rel_wf (set_page rel1 ?blk q') \<and> (rel_ok rel \<longrightarrow> rel_ok (set_page rel1 ?blk q')) \<and>
      (\<forall>b s. addr_ok b \<and> s < SlotsPerFSMPage \<longrightarrow>
        slot_val (set_page rel1 ?blk q') b s = (if b = a \<and> s = slot then v else slot_val rel b s))"
    if "page_wf q'" "rel_ok rel \<Longrightarrow> page_ok q'"
      "\<And>s. s < SlotsPerFSMPage \<Longrightarrow> fsm_get_avail q' s = fsm_get_avail ?q s" for q'
  proof -
    have "fsm_get_avail p s = slot_val rel1 a s" for s using p by (simp add: slot_val_def)
    then show ?thesis
      using that set_page_inv [OF a p] e(2) rel_ok_extend [OF _ e(2) k] val slot_val_set_page [OF a p]
        fsm_page.get_set [OF pwf slot, of v]
      by (auto split: if_splits)
  qed
  have unfold: "fsm_set_and_search rel a slot v m search =
      (if m \<noteq> 0 \<and> search then
         (case fsm_search_avail ?q m (level a = FSM_BOTTOM_LEVEL) of
            None \<Rightarrow> None | Some (newslot, page') \<Rightarrow> Some (newslot, set_page rel1 ?blk page'))
       else Some (-1, set_page rel1 ?blk ?q))"
    using e(1) by (simp add: fsm_set_and_search_def rb BufferGetPage_at [OF a p] split: prod.split)
  show ?thesis
  proof (cases "m \<noteq> 0 \<and> search")
    case False
    then show ?thesis using unfold final [OF qwf qok] by auto
  next
    case True
    then have m: "0 < m" by (simp add: word_gt_0)
    obtain r q' where s: "fsm_search_avail ?q m (level a = FSM_BOTTOM_LEVEL) = Some (r, q')"
      using fsm_page.search_total [OF qwf m] by blast
    have f: "rel_wf (set_page rel1 ?blk q') \<and> (rel_ok rel \<longrightarrow> rel_ok (set_page rel1 ?blk q')) \<and>
      (\<forall>b s. addr_ok b \<and> s < SlotsPerFSMPage \<longrightarrow>
        slot_val (set_page rel1 ?blk q') b s = (if b = a \<and> s = slot then v else slot_val rel b s))"
      using fsm_page.search_wf [OF qwf m s] fsm_page.search_ok [OF qok m s] fsm_page.search_get [OF qwf m s]
      by (intro final) auto
    have "r = -1 \<or> 0 \<le> r \<and> r < int SlotsPerFSMPage \<and> m \<le> fsm_get_avail q' (nat r)"
      using fsm_page.search_found [OF qwf m s] fsm_page.search_get [OF qwf m s, of "nat r"] by auto
    with f unfold True s show ?thesis by (auto simp: slot_val_set_page [OF a p a])
  qed
qed

section \<open>Searching the map\<close>

definition max_at :: "fsm_rel \<Rightarrow> FSMAddress \<Rightarrow> uint8" where
  "max_at rel a = (case page_at rel a of None \<Rightarrow> 0 | Some p \<Rightarrow> fsm_get_max_avail p)"

text \<open>Two states that agree on the extent of the fork and on every slot.\<close>

definition same_slots :: "fsm_rel \<Rightarrow> fsm_rel \<Rightarrow> bool" where
  "same_slots rel rel' \<longleftrightarrow> length (pages rel') = length (pages rel) \<and>
     (\<forall>b s. addr_ok b \<and> s < SlotsPerFSMPage \<longrightarrow> slot_val rel' b s = slot_val rel b s)"

lemma same_slots_max:
  assumes "same_slots rel rel'" and "rel_ok rel" and "rel_ok rel'" and "addr_ok a"
  shows "max_at rel' a = max_at rel a"
proof (cases "page_at rel a")
  case None
  then show ?thesis using assms(1) by (auto simp: max_at_def page_at_def same_slots_def split: if_splits)
next
  case (Some p)
  then obtain q where q: "page_at rel' a = Some q"
    using assms(1) by (auto simp: page_at_def same_slots_def split: if_splits)
  have "slot_val rel' a s = slot_val rel a s" if "s < SlotsPerFSMPage" for s
    using assms(1,4) that by (simp add: same_slots_def)
  then have "fsm_get_avail q s = fsm_get_avail p s" if "s < SlotsPerFSMPage" for s
    using that Some q by (simp add: slot_val_def)
  then have "fsm_get_max_avail q = fsm_get_max_avail p"
    using fsm_page.max_cong [OF page_at_ok [OF assms(3) q] page_at_ok [OF assms(2) Some]] by blast
  with Some q show ?thesis by (simp add: max_at_def)
qed

lemma search_page_correct:
  assumes wf: "rel_wf rel" and a: "addr_ok a" and v: "0 < v"
  shows "\<exists>r m rel'. fsm_search_page rel a v = Some (r, m, rel') \<and> rel_wf rel' \<and>
    (rel_ok rel \<longrightarrow> rel_ok rel') \<and> same_slots rel rel' \<and>
    (r = -1 \<or> 0 \<le> r \<and> r < int SlotsPerFSMPage \<and> v \<le> slot_val rel a (nat r)) \<and>
    (rel_ok rel \<longrightarrow> (r = -1 \<longleftrightarrow> (\<forall>s < SlotsPerFSMPage. slot_val rel a s < v)))"
proof -
  obtain buf rel1 where rb: "fsm_readbuf rel a False = (buf, rel1)" by fastforce
  note e = readbuf_plain [OF wf a rb]
  have pg: "pages rel1 = pages rel" using e(2) by (simp add: pages_def)
  then have pa: "page_at rel1 b = page_at rel b" for b by (simp add: page_at_def)
  have ok1: "rel_ok rel1" if "rel_ok rel" using that e(1) pg by (simp add: rel_ok_def)
  show ?thesis
  proof (cases "page_at rel a")
    case None
    then show ?thesis
      using e ok1 v pg pa by (simp add: fsm_search_page_def rb same_slots_def slot_val_def)
  next
    case (Some p)
    then have p: "page_at rel1 a = Some p" by (simp add: pa)
    have pwf: "page_wf p" using page_at_wf [OF wf Some] .
    let ?blk = "fsm_logical_to_physical a"
    obtain r q where s: "fsm_search_avail p v (level a = FSM_BOTTOM_LEVEL) = Some (r, q)"
      using fsm_page.search_total [OF pwf v] by blast
    let ?rel = "set_page rel1 ?blk q"
    have "rel_wf ?rel" "rel_ok rel \<longrightarrow> rel_ok ?rel"
      using set_page_inv [OF a p] e(1) ok1 fsm_page.search_wf [OF pwf v s]
        fsm_page.search_ok [OF page_at_ok [OF _ Some] v s] by auto
    moreover have "same_slots rel ?rel"
      using slot_val_set_page [OF a p] set_page_pages [OF a p] pg pa fsm_page.search_get [OF pwf v s] Some
      by (auto simp: same_slots_def slot_val_def)
    moreover have "r = -1 \<or> 0 \<le> r \<and> r < int SlotsPerFSMPage \<and> v \<le> slot_val rel a (nat r)"
      using fsm_page.search_found [OF pwf v s] Some by (auto simp: slot_val_def)
    moreover have "rel_ok rel \<longrightarrow> (r = -1 \<longleftrightarrow> (\<forall>s < SlotsPerFSMPage. slot_val rel a s < v))"
      using fsm_page.search_exact [OF page_at_ok [OF _ Some] v s] Some by (simp add: slot_val_def)
    moreover have "\<exists>m. fsm_search_page rel a v = Some (r, m, ?rel)"
      using s Some e(3) by (simp add: fsm_search_page_def rb BufferGetPage_at [OF a p])
    ultimately show ?thesis by blast
  qed
qed

text \<open>What holds of the state and the result whenever a search ends.\<close>

definition search_post :: "fsm_rel \<Rightarrow> uint8 \<Rightarrow> BlockNumber \<Rightarrow> fsm_rel \<Rightarrow> bool" where
  "search_post rel v b rel' \<longleftrightarrow> rel_wf rel' \<and> (rel_ok rel \<longrightarrow> rel_ok rel') \<and>
     (\<forall>a s. addr_ok a \<and> level a = 0 \<and> s < SlotsPerFSMPage \<longrightarrow> slot_val rel' a s = slot_val rel a s) \<and>
     (b = InvalidBlockNumber \<or>
      (\<exists>a s. addr_ok a \<and> level a = 0 \<and> s < SlotsPerFSMPage \<and> b = fsm_get_heap_blk a s \<and> v \<le> slot_val rel a s))"

lemma search_post_trans:
  assumes "search_post rel1 v b rel2" and "rel_ok rel \<longrightarrow> rel_ok rel1"
    and "\<And>a s. addr_ok a \<Longrightarrow> level a = 0 \<Longrightarrow> s < SlotsPerFSMPage \<Longrightarrow> slot_val rel1 a s = slot_val rel a s"
  shows "search_post rel v b rel2"
  using assms unfolding search_post_def by fastforce

lemma search_loop_sound:
  "rel_wf rel \<Longrightarrow> addr_ok a \<Longrightarrow> 0 < v \<Longrightarrow>
    \<exists>b rel'. fsm_search_loop n a rel v = Some (b, rel') \<and> search_post rel v b rel'"
proof (induction n a rel v rule: fsm_search_loop.induct)
  case (1 n a rel v)
  obtain r m rel1 where s: "fsm_search_page rel a v = Some (r, m, rel1)" and wf1: "rel_wf rel1"
    and ok1: "rel_ok rel \<longrightarrow> rel_ok rel1" and ss: "same_slots rel rel1"
    and r: "r = -1 \<or> 0 \<le> r \<and> r < int SlotsPerFSMPage \<and> v \<le> slot_val rel a (nat r)"
    using search_page_correct [OF "1.prems"] by blast
  note unfold = fsm_search_loop.simps [of n a rel v] s
  have sv: "slot_val rel1 b s = slot_val rel b s" if "addr_ok b" "s < SlotsPerFSMPage" for b s
    using ss that by (simp add: same_slots_def)
  consider (leaf) "r \<noteq> -1" "level a = 0" | (inner) "r \<noteq> -1" "level a \<noteq> 0"
    | (root) "r = -1" "level a = FSM_ROOT_LEVEL" | (stale) "r = -1" "level a \<noteq> FSM_ROOT_LEVEL" by blast
  then show ?case
  proof cases
    case leaf
    then have "search_post rel v (fsm_get_heap_blk a (nat r)) rel1"
      using r wf1 ok1 sv "1.prems" unfolding search_post_def
      by (intro conjI disjI2 exI [of _ a] exI [of _ "nat r"]) auto
    with leaf show ?thesis by (simp add: unfold)
  next
    case inner
    then have "addr_ok (fsm_get_child a (nat r))" using r "1.prems"(2) by (intro child_ok) auto
    from "1.IH"(1) [OF s refl refl inner wf1 this "1.prems"(3)] obtain b rel' where
      l: "fsm_search_loop n (fsm_get_child a (nat r)) rel1 v = Some (b, rel')" "search_post rel1 v b rel'" by blast
    have "search_post rel v b rel'" by (rule search_post_trans [OF l(2) ok1]) (rule sv)
    with inner l(1) show ?thesis by (simp add: unfold)
  next
    case root
    then show ?thesis using wf1 ok1 sv by (simp add: unfold search_post_def)
  next
    case stale
    obtain p ps where p: "fsm_get_parent a = (p, ps)" by fastforce
    have "level a < FSM_ROOT_LEVEL" using stale "1.prems"(2) by (simp add: addr_ok_def)
    note pk = parent_ok [OF "1.prems"(2) this p]
    obtain r2 rel2 where s2: "fsm_set_and_search rel1 p ps m 0 True = Some (r2, rel2)" and wf2: "rel_wf rel2"
      and ok2: "rel_ok rel1 \<longrightarrow> rel_ok rel2"
      and sv2: "\<forall>b s. addr_ok b \<and> s < SlotsPerFSMPage \<longrightarrow>
        slot_val rel2 b s = (if b = p \<and> s = ps then m else slot_val rel1 b s)"
      using set_and_search_correct [OF wf1 pk(1,2), of m 0 True] by blast
    have leafs: "slot_val rel2 b s = slot_val rel b s" if "addr_ok b" "level b = 0" "s < SlotsPerFSMPage" for b s
      using sv2 sv that pk(3) by auto
    show ?thesis
    proof (cases "n > 10000")
      case True
      then show ?thesis using stale p s2 wf2 ok1 ok2 leafs by (simp add: unfold search_post_def)
    next
      case False
      from stale have "\<not> r \<noteq> -1" by simp
      from "1.IH"(2) [OF s refl refl this stale(2) p [symmetric] refl s2 refl False wf2 root_addr_ok "1.prems"(3)]
      obtain b rel' where l: "fsm_search_loop (n + 1) g_fsm_root_address rel2 v = Some (b, rel')"
        "search_post rel2 v b rel'" by blast
      have "search_post rel v b rel'"
        by (rule search_post_trans [OF l(2)]) (use ok1 ok2 leafs in auto)
      with stale p s2 False l(1) show ?thesis by (simp add: unfold)
    qed
  qed
qed

text \<open>An upper-level page is up to date when each slot is the maximum of the child page.\<close>

definition up_to_date :: "fsm_rel \<Rightarrow> FSMAddress \<Rightarrow> bool" where
  "up_to_date rel a \<longleftrightarrow> (\<forall>s < SlotsPerFSMPage. slot_val rel a s = max_at rel (fsm_get_child a s))"

definition map_up_to_date :: "fsm_rel \<Rightarrow> bool" where
  "map_up_to_date rel \<longleftrightarrow> (\<forall>a. addr_ok a \<and> 0 < level a \<longrightarrow> up_to_date rel a)"

lemma same_slots_up_to_date:
  assumes "same_slots rel rel'" and "rel_ok rel" and "rel_ok rel'" and "map_up_to_date rel"
  shows "map_up_to_date rel'"
  using assms same_slots_max [OF assms(1-3)] child_ok
  by (simp add: map_up_to_date_def up_to_date_def same_slots_def)

lemma max_at_ge: "rel_ok rel \<Longrightarrow> s < SlotsPerFSMPage \<Longrightarrow> slot_val rel a s \<le> max_at rel a"
  by (auto simp: slot_val_def max_at_def fsm_page.max_upper page_at_ok split: option.split)

lemma max_at_slot:
  assumes "rel_ok rel" and "0 < v" and "v \<le> max_at rel a"
  shows "\<exists>s < SlotsPerFSMPage. v \<le> slot_val rel a s"
proof (cases "page_at rel a")
  case None
  then show ?thesis using assms(2,3) by (simp add: max_at_def)
next
  case (Some p)
  then show ?thesis
    using fsm_page.max_attained [OF page_at_ok [OF assms(1) Some] assms(2)] assms(3)
    by (simp add: max_at_def slot_val_def)
qed

lemma search_loop_complete:
  "rel_ok rel \<Longrightarrow> map_up_to_date rel \<Longrightarrow> addr_ok a \<Longrightarrow> 0 < v \<Longrightarrow>
   \<exists>s < SlotsPerFSMPage. v \<le> slot_val rel a s \<Longrightarrow>
    \<exists>b s rel'. fsm_search_loop n a rel v = Some (fsm_get_heap_blk b s, rel') \<and>
      addr_ok b \<and> level b = 0 \<and> s < SlotsPerFSMPage \<and> v \<le> slot_val rel b s"
proof (induction "level a" arbitrary: a rel)
  case 0
  obtain r m rel1 where s: "fsm_search_page rel a v = Some (r, m, rel1)"
    and r: "r = -1 \<or> 0 \<le> r \<and> r < int SlotsPerFSMPage \<and> v \<le> slot_val rel a (nat r)"
    and ne: "r = -1 \<longleftrightarrow> (\<forall>s < SlotsPerFSMPage. slot_val rel a s < v)"
    using search_page_correct [of rel a v] "0.prems" by (auto simp: rel_ok_def)
  have "r \<noteq> -1" using ne "0.prems"(5) by (auto simp: not_less)
  with r s 0 show ?case
    by (intro exI [of _ a] exI [of _ "nat r"] exI [of _ rel1]) (auto simp: fsm_search_loop.simps [of n a rel v])
next
  case (Suc l)
  have wf: "rel_wf rel" using Suc.prems(1) by (simp add: rel_ok_def)
  obtain r m rel1 where s: "fsm_search_page rel a v = Some (r, m, rel1)"
    and ok1: "rel_ok rel1" and ss: "same_slots rel rel1"
    and r: "r = -1 \<or> 0 \<le> r \<and> r < int SlotsPerFSMPage \<and> v \<le> slot_val rel a (nat r)"
    and ne: "r = -1 \<longleftrightarrow> (\<forall>s < SlotsPerFSMPage. slot_val rel a s < v)"
    using search_page_correct [OF wf Suc.prems(3,4)] Suc.prems(1) by blast
  have r': "r \<noteq> -1" using ne Suc.prems(5) by (auto simp: not_less)
  let ?c = "fsm_get_child a (nat r)"
  have up1: "map_up_to_date rel1" by (rule same_slots_up_to_date [OF ss Suc.prems(1) ok1 Suc.prems(2)])
  have c: "level ?c = l" "0 < level a" using Suc.hyps(2) by (auto simp: fsm_get_child_def)
  have cok: "addr_ok ?c" using r r' c(2) Suc.prems(3) by (intro child_ok) auto
  have "v \<le> slot_val rel1 a (nat r)" using r r' ss Suc.prems(3) by (auto simp: same_slots_def)
  also have "\<dots> = max_at rel1 ?c"
    using up1 r r' c Suc.prems(3) by (auto simp: map_up_to_date_def up_to_date_def)
  finally have "\<exists>s < SlotsPerFSMPage. v \<le> slot_val rel1 ?c s" by (rule max_at_slot [OF ok1 Suc.prems(4)])
  from Suc.hyps(1) [OF c(1) [symmetric] ok1 up1 cok Suc.prems(4) this]
  obtain b t rel' where "fsm_search_loop n ?c rel1 v = Some (fsm_get_heap_blk b t, rel')"
    "addr_ok b" "level b = 0" "t < SlotsPerFSMPage" "v \<le> slot_val rel1 b t" by blast
  moreover from this have "slot_val rel1 b t = slot_val rel b t" using ss by (simp add: same_slots_def)
  ultimately show ?case
    using r' s c(2) by (intro exI [of _ b] exI [of _ t] exI [of _ rel']) (simp add: fsm_search_loop.simps [of n a rel v])
qed

lemma leaf_reaches_root:
  assumes ok: "rel_ok rel" and up: "map_up_to_date rel"
  shows "addr_ok a \<Longrightarrow> s < SlotsPerFSMPage \<Longrightarrow> v \<le> slot_val rel a s \<Longrightarrow>
    \<exists>t < SlotsPerFSMPage. v \<le> slot_val rel g_fsm_root_address t"
proof (induction "FSM_ROOT_LEVEL - level a" arbitrary: a s)
  case 0
  then have "a = g_fsm_root_address"
    by (cases rule: addr_ok_cases [OF 0(2)]) (auto simp: g_fsm_root_address_def map_sizes)
  with 0 show ?case by auto
next
  case (Suc l)
  obtain p t where p: "fsm_get_parent a = (p, t)" by fastforce
  have "level a < FSM_ROOT_LEVEL" using Suc.hyps(2) by simp
  note pk = parent_ok [OF Suc.prems(1) this p]
  have "v \<le> max_at rel a" using max_at_ge [OF ok Suc.prems(2), of a] Suc.prems(3) by (rule order_trans [rotated])
  also have "\<dots> = slot_val rel p t" using up pk by (auto simp: map_up_to_date_def up_to_date_def)
  finally have "v \<le> slot_val rel p t" .
  moreover have "l = FSM_ROOT_LEVEL - level p" using p Suc.hyps(2) by (auto simp: fsm_get_parent_def)
  ultimately show ?case using Suc.hyps(1) [of p t] pk by blast
qed

section \<open>Vacuum\<close>

text \<open>\<open>b\<close> is in the subtree below \<open>a\<close>.\<close>

definition in_subtree :: "FSMAddress \<Rightarrow> FSMAddress \<Rightarrow> bool" where
  "in_subtree a b \<longleftrightarrow> level b \<le> level a \<and> logpageno b div SlotsPerFSMPage ^ (level a - level b) = logpageno a"

lemma below_refl [simp]: "in_subtree a a"
  by (simp add: in_subtree_def)

lemma below_self_level: "in_subtree a b \<Longrightarrow> level b = level a \<Longrightarrow> b = a"
  by (cases a; cases b) (auto simp: in_subtree_def)

lemma not_below_child: "0 < level a \<Longrightarrow> \<not> in_subtree (fsm_get_child a s) a"
  by (auto simp: in_subtree_def fsm_get_child_def)

lemma below_child:
  assumes "0 < level a" and "s < SlotsPerFSMPage"
  shows "in_subtree (fsm_get_child a s) b \<longleftrightarrow>
    in_subtree a b \<and> level b < level a \<and> logpageno b div SlotsPerFSMPage ^ (level a - 1 - level b) mod SlotsPerFSMPage = s"
proof (cases "level b < level a")
  case True
  let ?q = "logpageno b div SlotsPerFSMPage ^ (level a - 1 - level b)"
  have "level a - level b = Suc (level a - 1 - level b)" using True by simp
  then have d: "logpageno b div SlotsPerFSMPage ^ (level a - level b) = ?q div SlotsPerFSMPage"
    by (simp only: power_Suc2 div_mult2_eq)
  have "?q = logpageno a * SlotsPerFSMPage + s \<longleftrightarrow>
      ?q div SlotsPerFSMPage = logpageno a \<and> ?q mod SlotsPerFSMPage = s" (is "?q = ?r \<longleftrightarrow> ?R")
  proof
    assume "?q = ?r"
    with assms(2) show ?R by simp
  next
    assume ?R
    then show "?q = ?r" using div_mult_mod_eq [of ?q SlotsPerFSMPage] by simp
  qed
  with True d show ?thesis by (auto simp: in_subtree_def fsm_get_child_def)
next
  case False
  then show ?thesis using assms(1) by (auto simp: in_subtree_def fsm_get_child_def)
qed

lemma below_position:
  assumes "addr_ok a" and "addr_ok b" and "in_subtree a b"
  shows "dfs_position a \<le> dfs_position b"
proof (cases "level b = level a")
  case True
  then show ?thesis using below_self_level [OF assms(3)] by simp
next
  case False
  then have lt: "level b < level a" using assms(3) by (simp add: in_subtree_def)
  from assms(1) show ?thesis
  proof (cases rule: addr_ok_cases)
    case (inner p)
    with lt assms(3) have b: "level b = 0" "logpageno b div 4069 = p" by (auto simp: in_subtree_def page_sizes)
    then have "4069 * p \<le> logpageno b" by auto
    with b inner show ?thesis by (simp add: dfs_position_def)
  qed (use lt in \<open>simp_all add: dfs_position_def\<close>)
qed

lemma below_grandchild:
  assumes "in_subtree c b" and "0 < level b" and "s < SlotsPerFSMPage"
  shows "in_subtree c (fsm_get_child b s)"
proof -
  have "level c - (level b - 1) = Suc (level c - level b)" using assms by (auto simp: in_subtree_def)
  moreover have "(logpageno b * SlotsPerFSMPage + s) div SlotsPerFSMPage = logpageno b" using assms(3) by simp
  ultimately show ?thesis using assms(1) by (auto simp: in_subtree_def fsm_get_child_def div_mult2_eq)
qed

lemma child_children_disjoint:
  assumes "0 < level a" and "s < SlotsPerFSMPage" and "t < SlotsPerFSMPage" and "s \<noteq> t"
    and "in_subtree (fsm_get_child a t) b"
  shows "\<not> in_subtree (fsm_get_child a s) b"
  using assms by (simp add: below_child)

lemma missing_below:
  assumes "addr_ok c" and "addr_ok b" and "in_subtree c b" and "page_at rel c = None"
  shows "page_at rel b = None"
  using below_position [OF assms(1-3)] assms(4) by (auto simp: page_at_def split: if_splits)

lemma missing_up_to_date:
  assumes "addr_ok c" and "addr_ok b" and "in_subtree c b" and "page_at rel c = None" and "0 < level b"
  shows "up_to_date rel b"
proof -
  have "page_at rel (fsm_get_child b s) = None" if "s < SlotsPerFSMPage" for s
    using missing_below [OF assms(1) child_ok below_grandchild assms(4)] assms that by blast
  moreover have "page_at rel b = None" using missing_below [OF assms(1-4)] .
  ultimately show ?thesis by (simp add: up_to_date_def slot_val_def max_at_def)
qed

lemma up_to_date_cong:
  assumes "addr_ok b" and "0 < level b" and "page_at rel' b = page_at rel b"
    and "\<And>s. s < SlotsPerFSMPage \<Longrightarrow> page_at rel' (fsm_get_child b s) = page_at rel (fsm_get_child b s)"
  shows "up_to_date rel' b \<longleftrightarrow> up_to_date rel b"
  using assms by (simp add: up_to_date_def slot_val_def max_at_def)

text \<open>What vacuuming a subtree changes: pages in it, but no bottom-level slot and not the extent.\<close>

definition vacuum_frame :: "fsm_rel \<Rightarrow> FSMAddress \<Rightarrow> fsm_rel \<Rightarrow> bool" where
  "vacuum_frame rel a rel' \<longleftrightarrow> rel_ok rel' \<and> length (pages rel') = length (pages rel) \<and>
     (\<forall>b s. addr_ok b \<and> level b = 0 \<longrightarrow> slot_val rel' b s = slot_val rel b s) \<and>
     (\<forall>b. addr_ok b \<and> \<not> in_subtree a b \<longrightarrow> page_at rel' b = page_at rel b)"

definition vacuum_post :: "fsm_rel \<Rightarrow> FSMAddress \<Rightarrow> uint8 \<times> bool \<times> fsm_rel \<Rightarrow> bool" where
  "vacuum_post rel a res = (case res of (m, eof, rel') \<Rightarrow>
     vacuum_frame rel a rel' \<and> eof = (page_at rel a = None) \<and> m = max_at rel' a \<and>
     (\<forall>b. addr_ok b \<and> in_subtree a b \<and> 0 < level b \<longrightarrow> up_to_date rel' b))"

lemma page_at_missing_iff:
  "length (pages rel') = length (pages rel) \<Longrightarrow> page_at rel' b = None \<longleftrightarrow> page_at rel b = None"
  by (simp add: page_at_def)

text \<open>The loop invariant of \<open>fsm_vacuum_page\<close> at an upper-level page, before slot \<open>k\<close>.\<close>

definition vacuum_inv :: "fsm_rel \<Rightarrow> FSMAddress \<Rightarrow> nat \<Rightarrow> bool \<times> fsm_rel \<Rightarrow> bool" where
  "vacuum_inv rel0 a k st = (case st of (eof, rel) \<Rightarrow>
     vacuum_frame rel0 a rel \<and>
     (eof \<longrightarrow> (\<forall>t. k \<le> t \<and> t < SlotsPerFSMPage \<longrightarrow> page_at rel0 (fsm_get_child a t) = None)) \<and>
     (\<forall>t < k. slot_val rel a t = max_at rel (fsm_get_child a t) \<and>
       (\<forall>b. addr_ok b \<and> in_subtree (fsm_get_child a t) b \<and> 0 < level b \<longrightarrow> up_to_date rel b)))"

lemma set_parent_slot:
  fixes c :: uint8
  assumes ok: "rel_ok rel" and a: "addr_ok a" "0 < level a" and p: "page_at rel a = Some p"
    and k: "k < SlotsPerFSMPage"
  defines "rel' \<equiv> (if fsm_get_avail p k \<noteq> c
      then set_page rel (fsm_logical_to_physical a) (snd (fsm_set_avail p k c)) else rel)"
  shows "rel_ok rel'" and "length (pages rel') = length (pages rel)"
    and "addr_ok b \<Longrightarrow> b \<noteq> a \<Longrightarrow> page_at rel' b = page_at rel b"
    and "slot_val rel' a t = (if t = k then c else slot_val rel a t)"
proof -
  note pok = page_at_ok [OF ok p]
  show "rel_ok rel'"
    using set_page_inv(2) [OF a(1) p ok fsm_page.set_ok [OF pok k]] ok by (simp add: rel'_def)
  show "length (pages rel') = length (pages rel)" by (simp add: rel'_def set_page_pages [OF a(1) p])
  show "addr_ok b \<Longrightarrow> b \<noteq> a \<Longrightarrow> page_at rel' b = page_at rel b"
    by (simp add: rel'_def set_page_at [OF a(1) p])
  show "slot_val rel' a t = (if t = k then c else slot_val rel a t)"
    using fsm_page.get_set [OF fsm_page.ok_wf [OF pok] k, of c t] p
      slot_val_set_page [OF a(1) p a(1), of "snd (fsm_set_avail p k c)" t]
    by (auto simp: rel'_def slot_val_def [of rel])
qed

lemma vacuum_child:
  assumes inv: "vacuum_inv rel0 a k (eof, rel)" and a: "addr_ok a" "0 < level a" and k: "k < SlotsPerFSMPage"
    and vac: "\<forall>rel. rel_ok rel \<longrightarrow> vacuum_post rel (fsm_get_child a k) (vac (logpageno (fsm_get_child a k)) rel)"
    and st: "(if \<not> eof then vac (logpageno (fsm_get_child a k)) rel else (0, eof, rel)) = (c, eof', rel')"
  shows "vacuum_frame rel (fsm_get_child a k) rel'" and "c = max_at rel' (fsm_get_child a k)"
    and "eof' \<Longrightarrow> page_at rel0 (fsm_get_child a k) = None"
    and "\<And>b. addr_ok b \<Longrightarrow> in_subtree (fsm_get_child a k) b \<Longrightarrow> 0 < level b \<Longrightarrow> up_to_date rel' b"
proof -
  let ?c = "fsm_get_child a k"
  have ok: "rel_ok rel" and len: "length (pages rel) = length (pages rel0)"
    using inv by (simp_all add: vacuum_inv_def vacuum_frame_def)
  have c: "addr_ok ?c" using a k by (intro child_ok) auto
  have "vacuum_frame rel ?c rel' \<and> c = max_at rel' ?c \<and> (eof' \<longrightarrow> page_at rel0 ?c = None) \<and>
    (\<forall>b. addr_ok b \<and> in_subtree ?c b \<and> 0 < level b \<longrightarrow> up_to_date rel' b)"
  proof (cases eof)
    case False
    then have "vacuum_post rel ?c (c, eof', rel')" using vac ok st by auto
    then show ?thesis using page_at_missing_iff [OF len] by (simp add: vacuum_post_def)
  next
    case True
    then have none: "page_at rel0 ?c = None" using inv k by (simp add: vacuum_inv_def)
    then have none': "page_at rel ?c = None" using page_at_missing_iff [OF len] by simp
    have st': "c = 0" "rel' = rel" using st True by auto
    have "vacuum_frame rel ?c rel" using ok by (simp add: vacuum_frame_def)
    with st' none none' missing_up_to_date [OF c _ _ none'] show ?thesis by (simp add: max_at_def)
  qed
  then show "vacuum_frame rel ?c rel'" and "c = max_at rel' ?c" and "eof' \<Longrightarrow> page_at rel0 ?c = None"
    and "\<And>b. addr_ok b \<Longrightarrow> in_subtree ?c b \<Longrightarrow> 0 < level b \<Longrightarrow> up_to_date rel' b" by auto
qed

lemma vacuum_frame_trans:
  assumes "vacuum_frame rel0 a rel" and "vacuum_frame rel c rel'" and "\<And>b. in_subtree c b \<Longrightarrow> in_subtree a b"
  shows "vacuum_frame rel0 a rel'"
  using assms by (auto simp: vacuum_frame_def)

lemma vacuum_step:
  assumes inv: "vacuum_inv rel0 a k (eof, rel)" and a: "addr_ok a" "0 < level a" and k: "k < SlotsPerFSMPage"
    and present: "page_at rel0 a \<noteq> None"
    and vac: "\<forall>rel. rel_ok rel \<longrightarrow> vacuum_post rel (fsm_get_child a k) (vac (logpageno (fsm_get_child a k)) rel)"
  shows "vacuum_inv rel0 a (Suc k) (fsm_vacuum_slot vac (fsm_logical_to_physical a) a k (eof, rel))"
proof -
  let ?c = "fsm_get_child a"
  obtain m eof1 rel1 where st: "(if \<not> eof then vac (logpageno (?c k)) rel else (0, eof, rel)) = (m, eof1, rel1)"
    by (metis prod_cases3)
  note vc = vacuum_child [where vac = vac, OF inv a k vac st]
  have fr0: "vacuum_frame rel0 a rel" using inv by (simp add: vacuum_inv_def)
  have fr1: "vacuum_frame rel0 a rel1"
    using vacuum_frame_trans [OF fr0 vc(1)] below_child [OF a(2) k] by blast
  have ok1: "rel_ok rel1" using fr1 by (simp add: vacuum_frame_def)
  obtain p where p: "page_at rel1 a = Some p"
    using present fr1 page_at_missing_iff [of rel1 rel0 a] by (auto simp: vacuum_frame_def)
  define rel2 where "rel2 = (if fsm_get_avail p k \<noteq> m
      then set_page rel1 (fsm_logical_to_physical a) (snd (fsm_set_avail p k m)) else rel1)"
  note sp = set_parent_slot [OF ok1 a p k, where c = m, folded rel2_def]
  have res: "fsm_vacuum_slot vac (fsm_logical_to_physical a) a k (eof, rel) = (eof1, rel2)"
    using st p by (simp add: fsm_vacuum_slot_def BufferGetPage_at [OF a(1) p] rel2_def)
  have off: "page_at rel2 b = page_at rel1 b" if "addr_ok b" "level b < level a" for b
    using sp(3) that by auto
  have fr2: "vacuum_frame rel0 a rel2"
  proof -
    have "slot_val rel2 b s = slot_val rel0 b s" if "addr_ok b" "level b = 0" for b s
    proof -
      have "slot_val rel2 b s = slot_val rel1 b s" using off that a(2) by (simp add: slot_val_def)
      with fr1 that show ?thesis by (simp add: vacuum_frame_def)
    qed
    moreover have "page_at rel2 b = page_at rel0 b" if "addr_ok b" "\<not> in_subtree a b" for b
    proof -
      have "b \<noteq> a" using that(2) by auto
      with sp(3) [OF that(1)] fr1 that show ?thesis by (simp add: vacuum_frame_def)
    qed
    ultimately show ?thesis using fr1 sp(1,2) by (simp add: vacuum_frame_def)
  qed
  have old: "page_at rel2 b = page_at rel b"
    if "addr_ok b" "t < k" "in_subtree (?c t) b" for b t
  proof -
    have "\<not> in_subtree (?c k) b" using child_children_disjoint [of a k t b] a k that by auto
    moreover have "level b < level a" using that(3) a(2) by (auto simp: in_subtree_def fsm_get_child_def)
    ultimately show ?thesis using off vc(1) that(1) by (auto simp: vacuum_frame_def)
  qed
  have upd: "up_to_date rel2 b \<longleftrightarrow> up_to_date rel' b"
    if "addr_ok b" "0 < level b" "in_subtree (?c t) b"
      "\<And>b. addr_ok b \<Longrightarrow> in_subtree (?c t) b \<Longrightarrow> page_at rel2 b = page_at rel' b" for b t rel'
    using that by (intro up_to_date_cong) (auto intro: child_ok below_grandchild)
  have lower: "level b < level a" if "in_subtree (?c t) b" for b t
    using that a(2) by (auto simp: in_subtree_def fsm_get_child_def)
  have "slot_val rel2 a t = max_at rel2 (?c t) \<and>
      (\<forall>b. addr_ok b \<and> in_subtree (?c t) b \<and> 0 < level b \<longrightarrow> up_to_date rel2 b)" if t: "t < Suc k" for t
  proof (cases "t = k")
    case True
    have c: "addr_ok (?c k)" using a k by (intro child_ok) auto
    have "max_at rel2 (?c k) = max_at rel1 (?c k)" using off [OF c] lower [of k "?c k"] by (simp add: max_at_def)
    moreover have "up_to_date rel2 b" if "addr_ok b" "in_subtree (?c k) b" "0 < level b" for b
      using upd [OF that(1,3,2)] off lower vc(4) [OF that] by blast
    ultimately show ?thesis using sp(4) vc(2) True by auto
  next
    case False
    with t have tk: "t < k" by simp
    have c: "addr_ok (?c t)" using a k tk by (intro child_ok) auto
    have i: "slot_val rel a t = max_at rel (?c t)"
      "\<And>b. addr_ok b \<Longrightarrow> in_subtree (?c t) b \<Longrightarrow> 0 < level b \<Longrightarrow> up_to_date rel b"
      using inv tk by (auto simp: vacuum_inv_def)
    have "page_at rel1 a = page_at rel a"
      using vc(1) a not_below_child [OF a(2)] by (simp add: vacuum_frame_def)
    then have "slot_val rel2 a t = slot_val rel a t" using sp(4) False by (simp add: slot_val_def)
    moreover have "max_at rel2 (?c t) = max_at rel (?c t)" using old [OF c tk] by (simp add: max_at_def)
    moreover have "up_to_date rel2 b" if "addr_ok b" "in_subtree (?c t) b" "0 < level b" for b
      using upd [OF that(1,3,2)] old tk i(2) [OF that] by blast
    ultimately show ?thesis using i(1) by auto
  qed
  moreover have "page_at rel0 (?c t) = None" if "eof1" "Suc k \<le> t" "t < SlotsPerFSMPage" for t
    using vc(3) [OF that(1)] child_position(2) [OF a k, of t] that(2) by (auto simp: page_at_def split: if_splits)
  ultimately show ?thesis using fr2 by (simp add: res vacuum_inv_def)
qed

lemma reset_next_slot:
  assumes ok: "rel_ok rel" and a: "addr_ok a" and p: "page_at rel a = Some p"
  defines "rel' \<equiv> set_page rel (fsm_logical_to_physical a) (p\<lparr>fp_next_slot := 0\<rparr>)"
  shows "rel_ok rel'" and "length (pages rel') = length (pages rel)"
    and "addr_ok b \<Longrightarrow> b \<noteq> a \<Longrightarrow> page_at rel' b = page_at rel b"
    and "addr_ok b \<Longrightarrow> slot_val rel' b t = slot_val rel b t"
    and "addr_ok b \<Longrightarrow> max_at rel' b = max_at rel b"
    and "addr_ok b \<Longrightarrow> 0 < level b \<Longrightarrow> up_to_date rel' b = up_to_date rel b"
proof -
  have "page_ok (p\<lparr>fp_next_slot := 0\<rparr>)" using page_at_ok [OF ok p] by (simp add: page_ok_def page_wf_def)
  then show "rel_ok rel'" using set_page_inv(2) [OF a p ok] by (simp add: rel'_def)
  show "length (pages rel') = length (pages rel)" by (simp add: rel'_def set_page_pages [OF a p])
  have at: "page_at rel' b = (if b = a then Some (p\<lparr>fp_next_slot := 0\<rparr>) else page_at rel b)" if "addr_ok b" for b
    using set_page_at [OF a p that] by (simp add: rel'_def)
  then show "addr_ok b \<Longrightarrow> b \<noteq> a \<Longrightarrow> page_at rel' b = page_at rel b" by simp
  have sv: "slot_val rel' b t = slot_val rel b t" if "addr_ok b" for b t
    using at [OF that] p by (simp add: slot_val_def fsm_get_avail_def)
  then show "addr_ok b \<Longrightarrow> slot_val rel' b t = slot_val rel b t" .
  have mx: "max_at rel' b = max_at rel b" if "addr_ok b" for b
    using at [OF that] p by (simp add: max_at_def fsm_get_max_avail_def)
  then show "addr_ok b \<Longrightarrow> max_at rel' b = max_at rel b" .
  show "addr_ok b \<Longrightarrow> 0 < level b \<Longrightarrow> up_to_date rel' b = up_to_date rel b"
    using sv mx child_ok [of b] by (simp add: up_to_date_def)
qed

lemma vacuum_frame_reset:
  assumes "vacuum_frame rel0 a rel" and "addr_ok a" and "page_at rel a = Some p"
  shows "vacuum_frame rel0 a (set_page rel (fsm_logical_to_physical a) (p\<lparr>fp_next_slot := 0\<rparr>))"
proof -
  have ok: "rel_ok rel" using assms(1) by (simp add: vacuum_frame_def)
  note rs = reset_next_slot [OF ok assms(2,3)]
  have "b \<noteq> a" if "\<not> in_subtree a b" for b using that by auto
  with rs assms(1) show ?thesis by (simp add: vacuum_frame_def)
qed

lemma vacuum_missing:
  assumes "rel_ok rel" and "addr_ok a" and "page_at rel a = None" and "rel_ok rel'" and "fsm_fork rel' = fsm_fork rel"
  shows "vacuum_post rel a (0, True, rel')"
proof -
  have "pages rel' = pages rel" using assms(5) by (simp add: pages_def)
  then have pa: "page_at rel' b = page_at rel b" for b by (simp add: page_at_def)
  then have none: "page_at rel' a = None" using assms(3) by simp
  show ?thesis
    using assms pa \<open>pages rel' = pages rel\<close> missing_up_to_date [OF assms(2) _ _ none]
    by (simp add: vacuum_post_def vacuum_frame_def slot_val_def max_at_def)
qed

text \<open>The page has been read, the state is otherwise unchanged.\<close>

lemma readbuf_same:
  assumes "rel_ok rel" and "addr_ok a" and "fsm_readbuf rel a False = (buf, rel1)"
  shows "rel_ok rel1" and "fsm_fork rel1 = fsm_fork rel" and "page_at rel1 b = page_at rel b"
    and "vacuum_frame rel a rel1"
    and "buf = (if page_at rel a = None then None else Some (fsm_logical_to_physical a))"
proof -
  have wf: "rel_wf rel" using assms(1) by (simp add: rel_ok_def)
  note e = readbuf_plain [OF wf assms(2,3)]
  have pg: "pages rel1 = pages rel" using e(2) by (simp add: pages_def)
  then show ok: "rel_ok rel1" using assms(1) e(1) by (simp add: rel_ok_def)
  have pa: "page_at rel1 b = page_at rel b" for b using pg by (simp add: page_at_def)
  then show "page_at rel1 b = page_at rel b" .
  show "vacuum_frame rel a rel1" using ok pg pa by (simp add: vacuum_frame_def slot_val_def)
qed (use readbuf_plain [OF _ assms(2,3)] assms(1) in \<open>auto simp: rel_ok_def\<close>)

lemma vacuum_loop:
  assumes a: "addr_ok a" "0 < level a" and present: "page_at rel0 a \<noteq> None" and fr: "vacuum_frame rel0 a rel1"
    and vac: "\<And>k rel. k < SlotsPerFSMPage \<Longrightarrow> rel_ok rel \<Longrightarrow>
      vacuum_post rel (fsm_get_child a k) (vac (logpageno (fsm_get_child a k)) rel)"
  shows "k \<le> SlotsPerFSMPage \<Longrightarrow>
    vacuum_inv rel0 a k (for_range 0 k (fsm_vacuum_slot vac (fsm_logical_to_physical a) a) (False, rel1))"
proof (induction k)
  case 0
  then show ?case using fr by (simp add: vacuum_inv_def)
next
  case (Suc k)
  obtain eof relk where
    st: "for_range 0 k (fsm_vacuum_slot vac (fsm_logical_to_physical a) a) (False, rel1) = (eof, relk)" by fastforce
  have "vacuum_inv rel0 a (Suc k) (fsm_vacuum_slot vac (fsm_logical_to_physical a) a k (eof, relk))"
    using Suc st vac by (intro vacuum_step a present) auto
  then show ?case using st by (simp add: for_range_Suc)
qed

lemma vacuum_inv_up_to_date:
  assumes "vacuum_inv rel0 a SlotsPerFSMPage (eof, rel)" and "0 < level a"
    and b: "addr_ok b" "in_subtree a b" "0 < level b"
  shows "up_to_date rel b"
proof (cases "b = a")
  case True
  then show ?thesis using assms(1) by (simp add: vacuum_inv_def up_to_date_def)
next
  case False
  let ?t = "logpageno b div SlotsPerFSMPage ^ (level a - 1 - level b) mod SlotsPerFSMPage"
  have "level b \<noteq> level a" using False below_self_level [OF b(2)] by blast
  moreover have "level b \<le> level a" using b(2) by (simp add: in_subtree_def)
  moreover have t: "?t < SlotsPerFSMPage" by (simp add: page_sizes)
  ultimately have "in_subtree (fsm_get_child a ?t) b" using b(2) below_child [OF assms(2) t] by auto
  with assms(1) t b show ?thesis unfolding vacuum_inv_def by auto
qed

lemma vacuum_page_correct:
  "addr_ok \<lparr>level = l, logpageno = p\<rparr> \<Longrightarrow> rel_ok rel \<Longrightarrow>
    vacuum_post rel \<lparr>level = l, logpageno = p\<rparr> (fsm_vacuum_page l p rel)"
proof (induction l arbitrary: p rel)
  case 0
  let ?a = "\<lparr>level = 0, logpageno = p\<rparr>"
  obtain buf rel1 where rb: "fsm_readbuf rel ?a False = (buf, rel1)" by fastforce
  note e = readbuf_same [OF "0.prems"(2,1) rb]
  show ?case
  proof (cases "page_at rel ?a")
    case None
    then show ?thesis using e vacuum_missing [OF "0.prems"(2,1) None e(1,2)] by (simp add: rb)
  next
    case (Some q)
    then have q: "page_at rel1 ?a = Some q" using e(3) by simp
    note fr = vacuum_frame_reset [OF e(4) "0.prems"(1) q] and rs = reset_next_slot [OF e(1) "0.prems"(1) q]
    have "max_at rel1 ?a = fsm_get_max_avail q" using q by (simp add: max_at_def)
    then show ?thesis
      using fr rs(5) [OF "0.prems"(1)] Some e(5)
      by (auto simp: rb vacuum_post_def Let_def BufferGetPage_at [OF "0.prems"(1) q] in_subtree_def)
  qed
next
  case (Suc l)
  let ?a = "\<lparr>level = Suc l, logpageno = p\<rparr>"
  obtain buf rel1 where rb: "fsm_readbuf rel ?a False = (buf, rel1)" by fastforce
  note e = readbuf_same [OF Suc.prems(2,1) rb]
  show ?case
  proof (cases "page_at rel ?a")
    case None
    then show ?thesis using e vacuum_missing [OF Suc.prems(2,1) None e(1,2)] by (simp add: rb)
  next
    case (Some q)
    have lev: "0 < level ?a" by simp
    have vac: "vacuum_post rel (fsm_get_child ?a k) (fsm_vacuum_page l (logpageno (fsm_get_child ?a k)) rel)"
      if "k < SlotsPerFSMPage" "rel_ok rel" for k rel
      using Suc.IH [of "logpageno (fsm_get_child ?a k)" rel] child_ok [OF Suc.prems(1) lev that(1)] that(2)
      by (simp add: fsm_get_child_def)
    obtain eof rel2 where lp: "for_range 0 SlotsPerFSMPage
        (fsm_vacuum_slot (fsm_vacuum_page l) (fsm_logical_to_physical ?a) ?a) (False, rel1) = (eof, rel2)" by fastforce
    have i: "vacuum_inv rel ?a SlotsPerFSMPage (eof, rel2)"
      using vacuum_loop [OF Suc.prems(1) lev _ e(4) vac, of SlotsPerFSMPage] lp Some by simp
    then have fr: "vacuum_frame rel ?a rel2" by (simp add: vacuum_inv_def)
    then have ok2: "rel_ok rel2" by (simp add: vacuum_frame_def)
    obtain q2 where q2: "page_at rel2 ?a = Some q2"
      using Some fr page_at_missing_iff [of rel2 rel ?a] by (auto simp: vacuum_frame_def)
    let ?rel3 = "set_page rel2 (fsm_logical_to_physical ?a) (q2\<lparr>fp_next_slot := 0\<rparr>)"
    note rs = reset_next_slot [OF ok2 Suc.prems(1) q2]
    have "\<forall>b. addr_ok b \<and> in_subtree ?a b \<and> 0 < level b \<longrightarrow> up_to_date ?rel3 b"
      using rs(6) vacuum_inv_up_to_date [OF i lev] by blast
    moreover have "max_at ?rel3 ?a = fsm_get_max_avail q2" using rs(5) [OF Suc.prems(1)] q2 by (simp add: max_at_def)
    moreover have "fsm_vacuum_page (Suc l) p rel = (fsm_get_max_avail q2, False, ?rel3)"
      using rb lp e(5) Some by (simp add: BufferGetPage_at [OF Suc.prems(1) q2] Let_def)
    ultimately show ?thesis using vacuum_frame_reset [OF fr Suc.prems(1) q2] Some by (simp add: vacuum_post_def)
  qed
qed

lemma below_root: "addr_ok b \<Longrightarrow> in_subtree g_fsm_root_address b"
  by (auto simp: addr_ok_def in_subtree_def g_fsm_root_address_def)

lemma FreeSpaceMapVacuum_correct:
  assumes "rel_ok rel"
  shows "rel_ok (FreeSpaceMapVacuum rel)" and "map_up_to_date (FreeSpaceMapVacuum rel)"
    and "addr_ok b \<Longrightarrow> level b = 0 \<Longrightarrow> slot_val (FreeSpaceMapVacuum rel) b s = slot_val rel b s"
proof -
  obtain m eof rel' where v: "fsm_vacuum_page FSM_ROOT_LEVEL 0 rel = (m, eof, rel')" by (metis prod_cases3)
  have "vacuum_post rel g_fsm_root_address (m, eof, rel')"
    using vacuum_page_correct [of FSM_ROOT_LEVEL 0 rel] root_addr_ok assms v
    by (simp add: g_fsm_root_address_def)
  moreover have "FreeSpaceMapVacuum rel = rel'"
    using v by (simp add: FreeSpaceMapVacuum_def g_fsm_root_address_def)
  ultimately show "rel_ok (FreeSpaceMapVacuum rel)" and "map_up_to_date (FreeSpaceMapVacuum rel)"
    and "addr_ok b \<Longrightarrow> level b = 0 \<Longrightarrow> slot_val (FreeSpaceMapVacuum rel) b s = slot_val rel b s"
    using below_root by (auto simp: vacuum_post_def vacuum_frame_def map_up_to_date_def)
qed

section \<open>Heap blocks\<close>

text \<open>The category recorded for a heap block.\<close>

definition recorded_cat :: "fsm_rel \<Rightarrow> BlockNumber \<Rightarrow> uint8" where
  "recorded_cat rel b = (let (a, s) = fsm_get_location b in slot_val rel a s)"

text \<open>
  The last bottom-level page has slots beyond the largest block number \<open>MaxBlockNumber\<close>, and the tree
  has room for pages beyond it; nothing is recorded there.
\<close>

definition no_ghosts :: "fsm_rel \<Rightarrow> bool" where
  "no_ghosts rel \<longleftrightarrow> (\<forall>a s. addr_ok a \<and> level a = 0 \<and> s < SlotsPerFSMPage \<and>
     unat InvalidBlockNumber \<le> logpageno a * SlotsPerFSMPage + s \<longrightarrow> slot_val rel a s = 0)"

lemma location_heap_blk:
  assumes "level a = 0" and "s < SlotsPerFSMPage" and "logpageno a * SlotsPerFSMPage + s < 2 ^ 32"
  shows "fsm_get_location (fsm_get_heap_blk a s) = (a, s)"
    and "unat (fsm_get_heap_blk a s) = logpageno a * SlotsPerFSMPage + s"
proof -
  have "fsm_get_heap_blk a s = of_nat (logpageno a * SlotsPerFSMPage + s)"
    by (simp add: fsm_get_heap_blk_def)
  then show u: "unat (fsm_get_heap_blk a s) = logpageno a * SlotsPerFSMPage + s"
    using assms(3) by (rule unat_of_nat32)
  show "fsm_get_location (fsm_get_heap_blk a s) = (a, s)"
    using assms(1,2) unfolding fsm_get_location_def u by (cases a) simp
qed

lemma heap_blk_location: "(case fsm_get_location b of (a, s) \<Rightarrow> fsm_get_heap_blk a s) = b"
proof -
  obtain a s where l: "fsm_get_location b = (a, s)" by fastforce
  note lk = location_ok [OF l]
  have "unat b < 2 ^ 32" using unsigned_less [of b] by simp
  then have "unat (fsm_get_heap_blk a s) = unat b"
    using location_heap_blk(2) [OF lk(2,3)] lk(4) by simp
  then show ?thesis using l by (simp add: word_unat_eq_iff)
qed

lemma location_inj:
  assumes "fsm_get_location b = fsm_get_location b'"
  shows "b = b'"
proof -
  have "b = (case fsm_get_location b of (a, s) \<Rightarrow> fsm_get_heap_blk a s)" by (rule heap_blk_location [symmetric])
  also have "\<dots> = b'" unfolding assms by (rule heap_blk_location)
  finally show ?thesis .
qed

lemma search_post_recorded:
  assumes post: "search_post rel v b rel'" and g: "no_ghosts rel" and v: "0 < v"
  shows "recorded_cat rel' c = recorded_cat rel c" and "no_ghosts rel'"
    and "b = InvalidBlockNumber \<or> v \<le> recorded_cat rel b"
proof -
  have sv: "slot_val rel' a s = slot_val rel a s" if "addr_ok a" "level a = 0" "s < SlotsPerFSMPage" for a s
    using post that by (simp add: search_post_def)
  obtain a s where l: "fsm_get_location c = (a, s)" by fastforce
  show "recorded_cat rel' c = recorded_cat rel c"
    using sv location_ok [OF l] l by (simp add: recorded_cat_def)
  show "no_ghosts rel'" using g sv by (simp add: no_ghosts_def)
  show "b = InvalidBlockNumber \<or> v \<le> recorded_cat rel b"
  proof (cases "b = InvalidBlockNumber")
    case False
    then obtain a s where a: "addr_ok a" "level a = 0" "s < SlotsPerFSMPage" "b = fsm_get_heap_blk a s"
      "v \<le> slot_val rel a s" using post by (auto simp: search_post_def)
    have "slot_val rel a s \<noteq> 0" using a(5) v by auto
    then have "logpageno a * SlotsPerFSMPage + s < unat InvalidBlockNumber"
      using g a by (auto simp: no_ghosts_def not_le [symmetric])
    then have "logpageno a * SlotsPerFSMPage + s < 2 ^ 32" by (simp add: InvalidBlockNumber_def)
    then show ?thesis using a location_heap_blk(1) [OF a(2,3)] by (simp add: recorded_cat_def)
  qed simp
qed

lemma set_slot_recorded:
  assumes sv: "\<forall>b s. addr_ok b \<and> s < SlotsPerFSMPage \<longrightarrow>
      slot_val rel' b s = (if b = a \<and> s = slot then v else slot_val rel b s)"
    and l: "fsm_get_location h = (a, slot)"
  shows "recorded_cat rel' b = (if b = h then v else recorded_cat rel b)"
    and "h \<noteq> InvalidBlockNumber \<Longrightarrow> no_ghosts rel \<Longrightarrow> no_ghosts rel'"
proof -
  note lk = location_ok [OF l]
  obtain a' s' where l': "fsm_get_location b = (a', s')" by fastforce
  show "recorded_cat rel' b = (if b = h then v else recorded_cat rel b)"
    using sv location_ok [OF l'] l l' location_inj [of b h] by (auto simp: recorded_cat_def)
  assume h: "h \<noteq> InvalidBlockNumber" and g: "no_ghosts rel"
  have "unat h < unat InvalidBlockNumber"
  proof -
    have "unat h < 2 ^ 32" using unsigned_less [of h] by simp
    moreover have "unat h \<noteq> unat InvalidBlockNumber" using h by (simp add: word_unat_eq_iff)
    ultimately show ?thesis by (simp add: InvalidBlockNumber_def)
  qed
  then show "no_ghosts rel'" using g sv lk(4) by (auto simp: no_ghosts_def)
qed

section \<open>The last page of the map and \<open>UpdateFreeSpaceMap\<close>\<close>

lemma update_recursive_total:
  "rel_wf rel \<Longrightarrow> addr_ok a \<Longrightarrow> \<exists>rel'. fsm_update_recursive rel a c search = Some rel' \<and> rel_wf rel' \<and>
    (rel_ok rel \<longrightarrow> rel_ok rel') \<and>
    (\<forall>b s. addr_ok b \<and> level b = 0 \<and> s < SlotsPerFSMPage \<longrightarrow> slot_val rel' b s = slot_val rel b s)"
proof (induction "FSM_ROOT_LEVEL - level a" arbitrary: a rel)
  case 0
  then show ?case by (simp add: fsm_update_recursive.simps)
next
  case (Suc n)
  obtain p s where p: "fsm_get_parent a = (p, s)" by fastforce
  have "level a < FSM_ROOT_LEVEL" using Suc.hyps(2) by simp
  note pk = parent_ok [OF Suc.prems(2) this p]
  obtain r rel1 where s: "fsm_set_and_search rel p s c 0 search = Some (r, rel1)" "rel_wf rel1"
    "rel_ok rel \<longrightarrow> rel_ok rel1"
    "\<forall>b t. addr_ok b \<and> t < SlotsPerFSMPage \<longrightarrow> slot_val rel1 b t = (if b = p \<and> t = s then c else slot_val rel b t)"
    using set_and_search_correct [OF Suc.prems(1) pk(1,2), of c 0 search] by blast
  have "n = FSM_ROOT_LEVEL - level p" using p Suc.hyps(2) by (auto simp: fsm_get_parent_def)
  from Suc.hyps(1) [OF this s(2) pk(1)] obtain rel' where
    r: "fsm_update_recursive rel1 p c search = Some rel'" "rel_wf rel'" "rel_ok rel1 \<longrightarrow> rel_ok rel'"
    "\<forall>b s. addr_ok b \<and> level b = 0 \<and> s < SlotsPerFSMPage \<longrightarrow> slot_val rel' b s = slot_val rel1 b s" by blast
  have "slot_val rel' b t = slot_val rel b t" if "addr_ok b" "level b = 0" "t < SlotsPerFSMPage" for b t
    using s(4) r(4) that pk(3) by auto
  with r s p \<open>level a < FSM_ROOT_LEVEL\<close> show ?case
    by (simp add: fsm_update_recursive.simps [of rel a])
qed

text \<open>The first heap block of the last bottom-level page.\<close>

definition last_page_start :: nat where
  "last_page_start = 4294963777"

lemma lastblckno:
  "unat (fsm_get_lastblckno (fst (fsm_get_location b))) =
    (if last_page_start \<le> unat b then 549 else unat b div 4069 * 4069 + 4068)"
proof -
  let ?p = "unat b div 4069"
  have b: "unat b < 2 ^ 32" using unsigned_less [of b] by simp
  have e: "fsm_get_lastblckno (fst (fsm_get_location b)) = of_nat (?p * 4069 + 4068)"
    by (simp add: fsm_get_lastblckno_def fsm_get_location_def fsm_get_heap_blk_def page_sizes)
  show ?thesis
  proof (cases "last_page_start \<le> unat b")
    case True
    then have "?p = 1055533" using b by (simp add: last_page_start_def)
    then show ?thesis using True e by simp
  next
    case False
    then have "?p \<le> 1055532" by (simp add: last_page_start_def)
    then have "?p * 4069 + 4068 < 2 ^ 32" by simp
    from unat_of_nat32 [OF e this] False show ?thesis by simp
  qed
qed

lemma update_loop_diverges:
  assumes "UpdateFreeSpaceMap_loop rel b e c search = Some rel'"
  shows "\<not> (b \<le> e \<and> last_page_start \<le> unat e)"
proof (rule UpdateFreeSpaceMap_loop.raw_induct
    [where P = "\<lambda>rel b e c search rel'. \<not> (b \<le> e \<and> last_page_start \<le> unat e)", OF _ assms])
  fix loop rel b e c search rel'
  assume 1: "\<And>rel b e c search rel'. loop rel b e c search = Some rel' \<Longrightarrow> \<not> (b \<le> e \<and> last_page_start \<le> unat e)"
    "(if b \<le> e
      then let addr = fst (fsm_get_location b)
           in case fsm_update_recursive rel addr c search of None \<Rightarrow> None
              | Some rel \<Rightarrow>
                  let lastBlkOnPage = fsm_get_lastblckno addr
                  in if e \<le> lastBlkOnPage then Some rel else loop rel (lastBlkOnPage + 1) e c search
      else Some rel) = Some rel'"
  show "\<not> (b \<le> e \<and> last_page_start \<le> unat e)"
  proof
    assume be: "b \<le> e \<and> last_page_start \<le> unat e"
    let ?last = "fsm_get_lastblckno (fst (fsm_get_location b))"
    have bl: "unat b \<le> unat e" using be by (simp add: word_le_nat_alt)
    have e: "unat e < 2 ^ 32" using unsigned_less [of e] by simp
    have "unat b div 4069 * 4069 + 4068 < last_page_start" if "unat b < last_page_start"
    proof -
      have "unat b div 4069 \<le> 1055532" using that by (simp add: last_page_start_def)
      then show ?thesis by (simp add: last_page_start_def)
    qed
    then have lt: "unat ?last < last_page_start"
      unfolding lastblckno by (simp add: last_page_start_def)
    then have le: "\<not> ?last \<ge> e" "?last < e" using be by (simp_all add: word_le_nat_alt word_less_nat_alt)
    then have "unat (?last + 1) = unat ?last + 1" by (intro unat_plus_one)
    with lt be have next_le: "?last + 1 \<le> e" by (simp add: word_le_nat_alt)
    obtain rel1 where "loop rel1 (?last + 1) e c search = Some rel'"
      using 1(2) be le(1) by (auto simp: Let_def split: option.splits)
    from 1(1) [OF this] next_le be show False by simp
  qed
qed

lemma update_loop_total:
  "unat e < last_page_start \<Longrightarrow> rel_wf rel \<Longrightarrow>
    \<exists>rel'. UpdateFreeSpaceMap_loop rel b e c search = Some rel' \<and> rel_wf rel' \<and> (rel_ok rel \<longrightarrow> rel_ok rel') \<and>
      (\<forall>a s. addr_ok a \<and> level a = 0 \<and> s < SlotsPerFSMPage \<longrightarrow> slot_val rel' a s = slot_val rel a s)"
proof (induction "unat e - unat b" arbitrary: b rel rule: less_induct)
  case less
  let ?a = "fst (fsm_get_location b)" and ?last = "fsm_get_lastblckno (fst (fsm_get_location b))"
  have "addr_ok ?a" using location_ok(1) [of b] by (metis prod.collapse)
  from update_recursive_total [OF less.prems(2) this, of c search] obtain rel1 where
    u: "fsm_update_recursive rel ?a c search = Some rel1" "rel_wf rel1" "rel_ok rel \<longrightarrow> rel_ok rel1"
    "\<forall>b s. addr_ok b \<and> level b = 0 \<and> s < SlotsPerFSMPage \<longrightarrow> slot_val rel1 b s = slot_val rel b s" by blast
  consider "\<not> b \<le> e" | "b \<le> e" "?last \<ge> e" | "b \<le> e" "?last < e" by force
  then show ?case
  proof cases
    case 1
    then show ?thesis using less.prems(2) by (simp add: UpdateFreeSpaceMap_loop.simps [of rel b])
  next
    case 2
    then show ?thesis using u by (simp add: UpdateFreeSpaceMap_loop.simps [of rel b] Let_def)
  next
    case 3
    have "unat b \<le> unat e" using 3(1) by (simp add: word_le_nat_alt)
    then have "\<not> last_page_start \<le> unat b" using less.prems(1) by simp
    then have "unat ?last = unat b div 4069 * 4069 + 4068" by (simp add: lastblckno)
    then have "unat b \<le> unat ?last" using div_mult_mod_eq [of "unat b" 4069] mod_less_divisor [of 4069 "unat b"] by linarith
    moreover have "unat ?last < unat e" using 3(2) by (simp add: word_less_nat_alt)
    ultimately have "unat e - unat (?last + 1) < unat e - unat b" using unat_plus_one [OF 3(2)] by simp
    from less.hyps [OF this less.prems(1) u(2)] obtain rel' where
      r: "UpdateFreeSpaceMap_loop rel1 (?last + 1) e c search = Some rel'" "rel_wf rel'" "rel_ok rel1 \<longrightarrow> rel_ok rel'"
      "\<forall>a s. addr_ok a \<and> level a = 0 \<and> s < SlotsPerFSMPage \<longrightarrow> slot_val rel' a s = slot_val rel1 a s" by blast
    have "\<not> e \<le> ?last" using 3(2) by simp
    with u(1) 3(1) r(1) have "UpdateFreeSpaceMap_loop rel b e c search = Some rel'"
      by (subst UpdateFreeSpaceMap_loop.simps) (simp add: Let_def)
    with u r show ?thesis by auto
  qed
qed

section \<open>Truncation\<close>

lemma leaf_position_mono:
  assumes "level a = 0" and "level b = 0"
  shows "dfs_position a < dfs_position b \<longleftrightarrow> logpageno a < logpageno b"
proof -
  have mono: "p + p div 4069 < q + q div 4069" if "p < q" for p q :: nat
    by (rule add_less_le_mono [OF that div_le_mono]) (use that in simp)
  show ?thesis
    using assms mono [of "logpageno a" "logpageno b"] mono [of "logpageno b" "logpageno a"]
    by (cases "logpageno a" "logpageno b" rule: linorder_cases) (simp_all add: dfs_position_def)
qed

lemma truncated:
  fixes n c :: BlockNumber and rel :: fsm_rel
  defines "rel' \<equiv> (smgrtruncate rel n)\<lparr>smgr_fsm_nblocks := n\<rparr>"
  assumes "unat n \<le> length (pages rel)"
  shows "page_at rel' a = (if dfs_position a < unat n then page_at rel a else None)"
    and "rel_ok rel \<Longrightarrow> rel_ok rel'"
proof -
  have p: "pages rel' = take (unat n) (pages rel)"
    by (auto simp: rel'_def pages_def smgrtruncate_def split: option.splits)
  show "page_at rel' a = (if dfs_position a < unat n then page_at rel a else None)"
    using assms(2) by (auto simp: page_at_def p)
  have "smgr_fsm_nblocks rel' = n" by (simp add: rel'_def)
  then show "rel_ok rel \<Longrightarrow> rel_ok rel'"
    using assms(2) by (auto simp: rel_ok_def rel_wf_def p list_all_iff dest: in_set_takeD)
qed

text \<open>
  \<open>fa\<close> is the address and slot of the first removed block. The result as a function of the slots:
  what lies before the cut stays, the rest is gone.
\<close>

lemma truncate_slots:
  assumes ok: "rel_ok rel" and l: "fsm_get_location n = (fa, s)" and a: "addr_ok a" "level a = 0" and t: "t < SlotsPerFSMPage"
  shows "rel_ok (FreeSpaceMapTruncateRel rel n) \<and>
    slot_val (FreeSpaceMapTruncateRel rel n) a t =
      (if logpageno a < logpageno fa \<or> a = fa \<and> t < s then slot_val rel a t else 0)"
proof -
  note lk = location_ok [OF l]
  let ?n = "fsm_logical_to_physical fa"
  note phys = physical_nat [OF lk(1)]
  have pos: "dfs_position a < dfs_position fa \<longleftrightarrow> logpageno a < logpageno fa"
    using leaf_position_mono [OF a(2) lk(2)] .
  have eq: "dfs_position a = dfs_position fa \<longleftrightarrow> a = fa" using dfs_position_inj [OF a(1) lk(1)] by auto
  have gone: "slot_val rel a t = 0" if "length (pages rel) \<le> dfs_position fa" "\<not> logpageno a < logpageno fa"
    using that pos by (simp add: slot_val_def page_at_def)
  have wf: "rel_wf rel" using ok by (simp add: rel_ok_def)
  show ?thesis
  proof (cases "fsm_fork rel")
    case None
    then have "slot_val rel a t = 0" by (simp add: slot_val_def page_at_def pages_def)
    with None ok show ?thesis by (simp add: FreeSpaceMapTruncateRel_def)
  next
    case (Some ps)
    show ?thesis
    proof (cases "s > 0")
      case False
      show ?thesis
      proof (cases "smgrnblocks rel \<le> ?n")
        case True
        then have "length (pages rel) \<le> dfs_position fa"
          using smgrnblocks_nat [OF wf] phys by (simp add: word_le_nat_alt)
        moreover have "FreeSpaceMapTruncateRel rel n = rel"
          using True False Some l by (simp add: FreeSpaceMapTruncateRel_def)
        ultimately show ?thesis using ok gone False by auto
      next
        case nle: False
        then have "unat ?n \<le> length (pages rel)"
          using smgrnblocks_nat [OF wf] by (simp add: word_le_nat_alt)
        note tr = truncated [OF this]
        have "FreeSpaceMapTruncateRel rel n = (smgrtruncate rel ?n)\<lparr>smgr_fsm_nblocks := ?n\<rparr>"
          using nle False Some l by (simp add: FreeSpaceMapTruncateRel_def Let_def)
        then show ?thesis using tr ok pos phys False by (simp add: slot_val_def)
      qed
    next
      case s: True
      obtain buf rel1 where rb: "fsm_readbuf rel fa False = (buf, rel1)" by fastforce
      note e = readbuf_same [OF ok lk(1) rb]
      have sv1: "slot_val rel1 b t = slot_val rel b t" for b using e(3) by (simp add: slot_val_def)
      show ?thesis
      proof (cases "page_at rel fa")
        case none: None
        then have "FreeSpaceMapTruncateRel rel n = rel1"
          using s Some l rb e(5) by (simp add: FreeSpaceMapTruncateRel_def)
        moreover have "length (pages rel) \<le> dfs_position fa" using none by (simp add: page_at_def split: if_splits)
        ultimately show ?thesis using e(1) sv1 gone eq by auto
      next
        case p: (Some p)
        then have p1: "page_at rel1 fa = Some p" using e(3) by simp
        let ?q = "snd (fsm_truncate_avail p s)"
        let ?rel2 = "set_page rel1 ?n ?q"
        have pok: "page_ok p" by (rule page_at_ok [OF ok p])
        have ok2: "rel_ok ?rel2" by (rule set_page_inv(2) [OF lk(1) p1 e(1) truncate_avail_ok [OF pok lk(3)]])
        have pl: "dfs_position fa < length (pages ?rel2)"
          using p1 by (simp add: set_page_pages [OF lk(1) p1] page_at_def split: if_splits)
        have u: "unat (?n + 1) = dfs_position fa + 1"
          using phys pl ok2 by (simp add: rel_ok_def rel_wf_def unat_word_ariths)
        with pl have "unat (?n + 1) \<le> length (pages ?rel2)" by simp
        note tr = truncated [OF this]
        have res: "FreeSpaceMapTruncateRel rel n = (smgrtruncate ?rel2 (?n + 1))\<lparr>smgr_fsm_nblocks := ?n + 1\<rparr>"
          using s Some l rb e(5) p by (simp add: FreeSpaceMapTruncateRel_def BufferGetPage_at [OF lk(1) p1] Let_def)
        have "slot_val ?rel2 a t = (if a = fa then (if t < s then slot_val rel a t else 0) else slot_val rel a t)"
          using slot_val_set_page [OF lk(1) p1 a(1)] truncate_avail_wf(2) [OF fsm_page.ok_wf [OF pok] lk(3) t] sv1 p
          by (auto simp: slot_val_def [of rel fa])
        moreover have "slot_val (FreeSpaceMapTruncateRel rel n) a t =
            (if dfs_position a < dfs_position fa + 1 then slot_val ?rel2 a t else 0)"
          by (simp add: res slot_val_def tr(1) u)
        moreover have "dfs_position a < dfs_position fa + 1 \<longleftrightarrow> logpageno a < logpageno fa \<or> a = fa"
          using pos eq by auto
        ultimately show ?thesis using tr(2) [OF ok2] res by auto
      qed
    qed
  qed
qed

lemma truncate_recorded:
  assumes ok: "rel_ok rel"
  shows "rel_ok (FreeSpaceMapTruncateRel rel n)"
    and "recorded_cat (FreeSpaceMapTruncateRel rel n) b = (if b < n then recorded_cat rel b else 0)"
proof -
  obtain a s where l: "fsm_get_location n = (a, s)" by fastforce
  note lk = location_ok [OF l]
  obtain a' s' where l': "fsm_get_location b = (a', s')" by fastforce
  note lk' = location_ok [OF l']
  have lt: "b < n \<longleftrightarrow> logpageno a' < logpageno a \<or> logpageno a' = logpageno a \<and> s' < s"
  proof -
    have "b < n \<longleftrightarrow> logpageno a' * 4069 + s' < logpageno a * 4069 + s"
      using lk(4) lk'(4) by (simp add: word_less_nat_alt page_sizes)
    moreover have "s < 4069" "s' < 4069" using lk(3) lk'(3) by (simp_all add: page_sizes)
    ultimately show ?thesis by (cases "logpageno a'" "logpageno a" rule: linorder_cases) linarith+
  qed
  have "logpageno a' = logpageno a \<longleftrightarrow> a' = a" using lk(2) lk'(2) by auto
  with truncate_slots [OF ok l lk'(1,2,3)] lt
  show "rel_ok (FreeSpaceMapTruncateRel rel n)"
    and "recorded_cat (FreeSpaceMapTruncateRel rel n) b = (if b < n then recorded_cat rel b else 0)"
    using l' by (auto simp: recorded_cat_def)
qed

section \<open>Properties\<close>

lemma needed_to_cat_nat:
  assumes "fsm_space_needed_to_cat needed = Inr cat"
  shows "needed \<le> 8144" and "unat cat = (if needed = 0 then 1 else min 255 ((31 + needed) div 32))" and "0 < cat"
proof -
  define k where "k = (if needed = 0 then 1 else min 255 ((31 + needed) div 32))"
  have le: "needed \<le> 8144" and "cat = of_nat k"
    using assms by (auto simp: fsm_space_needed_to_cat_def map_sizes k_def Let_def min_def split: if_splits)
  moreover have "k \<le> 255" by (simp add: k_def)
  ultimately have u: "unat cat = k" by (simp add: unat_of_nat)
  show "needed \<le> 8144" by (rule le)
  show "unat cat = (if needed = 0 then 1 else min 255 ((31 + needed) div 32))" using u by (simp add: k_def)
  show "0 < cat" using u by (simp add: word_less_nat_alt k_def div_greater_zero_iff)
qed

lemma avail_to_cat_nat:
  "unat (fsm_space_avail_to_cat avail) = (if avail \<ge> 8144 then 255 else min 254 (avail div 32))"
  by (auto simp: fsm_space_avail_to_cat_def map_sizes Let_def unat_of_nat min_def)

text \<open>
  The category scale never overstates: a block recorded with the category of its free space
  and found by a search for the category of a request has room for the request, and what
  \<open>fsm_space_cat_to_avail\<close> reports back is at most what was recorded. Requests up to
  \<open>MaxFSMRequestSize\<close> get a positive category, larger ones an error, and a block with at least
  \<open>MaxFSMRequestSize\<close> bytes satisfies every request that is accepted.
\<close>

theorem fsm_categories_sound:
  "(case fsm_space_needed_to_cat needed of
      Inl e \<Rightarrow> needed > MaxFSMRequestSize \<and> e = ERRCODE_DATATYPE_MISMATCH
    | Inr cat \<Rightarrow> needed \<le> MaxFSMRequestSize \<and> 0 < cat \<and>
        (cat \<le> fsm_space_avail_to_cat avail \<longrightarrow> needed \<le> avail) \<and>
        (MaxFSMRequestSize \<le> avail \<longrightarrow> cat \<le> fsm_space_avail_to_cat avail)) \<and>
   fsm_space_cat_to_avail (fsm_space_avail_to_cat avail) \<le> avail"
proof -
  let ?a = "fsm_space_avail_to_cat avail"
  have "fsm_space_cat_to_avail ?a \<le> avail"
  proof (cases "avail \<ge> 8144")
    case True
    then show ?thesis by (simp add: fsm_space_avail_to_cat_def fsm_space_cat_to_avail_def map_sizes)
  next
    case False
    then have "unat ?a = min 254 (avail div 32)" by (simp add: avail_to_cat_nat)
    moreover from this have "?a \<noteq> 255" by auto
    ultimately show ?thesis by (simp add: fsm_space_cat_to_avail_def map_sizes)
  qed
  moreover have "case fsm_space_needed_to_cat needed of
      Inl e \<Rightarrow> needed > MaxFSMRequestSize \<and> e = ERRCODE_DATATYPE_MISMATCH
    | Inr cat \<Rightarrow> needed \<le> MaxFSMRequestSize \<and> 0 < cat \<and>
        (cat \<le> ?a \<longrightarrow> needed \<le> avail) \<and> (MaxFSMRequestSize \<le> avail \<longrightarrow> cat \<le> ?a)"
  proof (cases "fsm_space_needed_to_cat needed")
    case (Inl e)
    then show ?thesis by (auto simp: fsm_space_needed_to_cat_def map_sizes Let_def split: if_splits)
  next
    case (Inr cat)
    note n = needed_to_cat_nat [OF Inr]
    have "needed \<le> avail" if "unat cat \<le> unat ?a"
      using that n(1) unfolding n(2) avail_to_cat_nat by (auto simp: min_def split: if_splits)
    moreover have "unat cat \<le> unat ?a" if "8144 \<le> avail"
      using that unfolding n(2) avail_to_cat_nat by auto
    ultimately show ?thesis using Inr n(1,3) by (simp add: map_sizes word_le_nat_alt)
  qed
  ultimately show ?thesis by blast
qed

text \<open>
  C32. Every heap block has its own slot: the block number is recovered from its location, and two
  different pages of the tree, at whatever level, lie in different blocks of the fork, a parent
  before its children.
\<close>

theorem fsm_addressing:
  "(case fsm_get_location b of (a, s) \<Rightarrow> addr_ok a \<and> level a = FSM_BOTTOM_LEVEL \<and> s < SlotsPerFSMPage \<and>
      fsm_get_heap_blk a s = b) \<and>
   (addr_ok a \<and> addr_ok a' \<and> a \<noteq> a' \<longrightarrow> fsm_logical_to_physical a \<noteq> fsm_logical_to_physical a') \<and>
   (addr_ok a \<and> 0 < level a \<and> slot < SlotsPerFSMPage \<longrightarrow>
      fsm_logical_to_physical a < fsm_logical_to_physical (fsm_get_child a slot) \<and>
      fsm_get_parent (fsm_get_child a slot) = (a, slot))"
proof (intro conjI impI)
  obtain l s where l: "fsm_get_location b = (l, s)" by fastforce
  then show "case fsm_get_location b of (a, s) \<Rightarrow> addr_ok a \<and> level a = FSM_BOTTOM_LEVEL \<and>
      s < SlotsPerFSMPage \<and> fsm_get_heap_blk a s = b"
    using location_ok [OF l] heap_blk_location [of b] by simp
next
  assume "addr_ok a \<and> addr_ok a' \<and> a \<noteq> a'"
  then show "fsm_logical_to_physical a \<noteq> fsm_logical_to_physical a'"
    using physical_nat [of a] physical_nat [of a'] dfs_position_inj [of a a'] by auto
next
  assume h: "addr_ok a \<and> 0 < level a \<and> slot < SlotsPerFSMPage"
  then show "fsm_logical_to_physical a < fsm_logical_to_physical (fsm_get_child a slot)"
    using physical_nat [of a] physical_nat [OF child_ok, of a slot] child_position(1) [of a slot]
    by (simp add: word_less_nat_alt)
  show "fsm_get_parent (fsm_get_child a slot) = (a, slot)"
    using h by (cases a) (auto simp: fsm_get_parent_def fsm_get_child_def)
qed

text \<open>
  C30. \<open>RecordPageWithFreeSpace\<close> always returns. Afterwards the map has the category of the recorded
  space for this block and what it had for every other block, and \<open>GetRecordedFreeSpace\<close> reads it
  back.
\<close>

theorem RecordPageWithFreeSpace_correct:
  assumes "rel_ok rel"
  shows "\<exists>rel'. RecordPageWithFreeSpace rel h avail = Some rel' \<and> rel_ok rel' \<and>
    (\<forall>b. recorded_cat rel' b = (if b = h then fsm_space_avail_to_cat avail else recorded_cat rel b)) \<and>
    fst (GetRecordedFreeSpace rel' h) = fsm_space_cat_to_avail (fsm_space_avail_to_cat avail)"
proof -
  obtain a s where l: "fsm_get_location h = (a, s)" by fastforce
  note lk = location_ok [OF l]
  have wf: "rel_wf rel" using assms by (simp add: rel_ok_def)
  let ?v = "fsm_space_avail_to_cat avail"
  obtain r rel' where r: "fsm_set_and_search rel a s ?v 0 True = Some (r, rel')" "rel_ok rel'"
    "\<forall>b t. addr_ok b \<and> t < SlotsPerFSMPage \<longrightarrow> slot_val rel' b t = (if b = a \<and> t = s then ?v else slot_val rel b t)"
    using set_and_search_correct [OF wf lk(1,3), of ?v 0 True] assms by blast
  note rec = set_slot_recorded(1) [OF r(3) l]
  obtain buf rel2 where rb: "fsm_readbuf rel' a False = (buf, rel2)" by fastforce
  note e = readbuf_same [OF r(2) lk(1) rb]
  have v: "slot_val rel' a s = ?v" using r(3) lk by simp
  have "fst (GetRecordedFreeSpace rel' h) = fsm_space_cat_to_avail ?v"
  proof (cases "page_at rel' a")
    case None
    then show ?thesis using v l rb e(5)
      by (simp add: GetRecordedFreeSpace_def slot_val_def fsm_space_cat_to_avail_def flip: v)
  next
    case (Some p)
    then have "page_at rel2 a = Some p" using e(3) by simp
    from BufferGetPage_at [OF lk(1) this] show ?thesis using v l rb e(5) Some
      by (simp add: GetRecordedFreeSpace_def slot_val_def)
  qed
  with r rec l show ?thesis by (simp add: RecordPageWithFreeSpace_def)
qed

text \<open>
  C28. \<open>GetPageWithFreeSpace\<close> always returns, at whatever values the upper-level pages have. A block
  it returns is recorded with at least the category requested; no recorded value is changed; a
  request beyond \<open>MaxFSMRequestSize\<close> is an error.
\<close>

theorem GetPageWithFreeSpace_sound:
  assumes "rel_wf rel" and "no_ghosts rel"
  shows "case fsm_space_needed_to_cat needed of
      Inl e \<Rightarrow> GetPageWithFreeSpace rel needed = Inl e
    | Inr cat \<Rightarrow> (\<exists>b rel'. GetPageWithFreeSpace rel needed = Inr (Some (b, rel')) \<and>
        rel_wf rel' \<and> no_ghosts rel' \<and> (\<forall>c. recorded_cat rel' c = recorded_cat rel c) \<and>
        (b = InvalidBlockNumber \<or> cat \<le> recorded_cat rel b))"
proof (cases "fsm_space_needed_to_cat needed")
  case (Inl e)
  then show ?thesis by (simp add: GetPageWithFreeSpace_def)
next
  case (Inr cat)
  have "0 < cat" by (rule needed_to_cat_nat(3) [OF Inr])
  then obtain b rel' where s: "fsm_search_loop 0 g_fsm_root_address rel cat = Some (b, rel')" "search_post rel cat b rel'"
    using search_loop_sound [OF assms(1) root_addr_ok, of cat 0] by blast
  note rec = search_post_recorded [OF s(2) assms(2) \<open>0 < cat\<close>]
  have "rel_wf rel'" using s(2) by (simp add: search_post_def)
  with s rec Inr show ?thesis by (simp add: GetPageWithFreeSpace_def fsm_search_def)
qed

text \<open>
  \<open>RecordAndGetPageWithFreeSpace\<close> records like \<open>RecordPageWithFreeSpace\<close> and searches like
  \<open>GetPageWithFreeSpace\<close>: it returns, the old page has its new category, nothing else is changed,
  and a block it returns has at least the category requested according to the updated map.
\<close>

theorem RecordAndGetPageWithFreeSpace_correct:
  assumes "rel_wf rel" and "no_ghosts rel" and "h \<noteq> InvalidBlockNumber"
    and "fsm_space_needed_to_cat needed = Inr cat"
  shows "\<exists>b rel'. RecordAndGetPageWithFreeSpace rel h avail needed = Inr (Some (b, rel')) \<and>
    rel_wf rel' \<and> no_ghosts rel' \<and>
    (\<forall>c. recorded_cat rel' c = (if c = h then fsm_space_avail_to_cat avail else recorded_cat rel c)) \<and>
    (b = InvalidBlockNumber \<or> cat \<le> recorded_cat rel' b)"
proof -
  obtain a s where l: "fsm_get_location h = (a, s)" by fastforce
  note lk = location_ok [OF l]
  let ?v = "fsm_space_avail_to_cat avail"
  have cat: "0 < cat" by (rule needed_to_cat_nat(3) [OF assms(4)])
  obtain r rel1 where r: "fsm_set_and_search rel a s ?v cat True = Some (r, rel1)" "rel_wf rel1"
    "\<forall>b t. addr_ok b \<and> t < SlotsPerFSMPage \<longrightarrow> slot_val rel1 b t = (if b = a \<and> t = s then ?v else slot_val rel b t)"
    "r = -1 \<or> 0 \<le> r \<and> r < int SlotsPerFSMPage \<and> cat \<le> slot_val rel1 a (nat r)"
    using set_and_search_correct [OF assms(1) lk(1,3), of ?v cat True] by blast
  note rec = set_slot_recorded [OF r(3) l]
  have g1: "no_ghosts rel1" by (rule rec(2) [OF assms(3,2)])
  show ?thesis
  proof (cases "r = -1")
    case True
    obtain b rel' where s: "fsm_search_loop 0 g_fsm_root_address rel1 cat = Some (b, rel')" "search_post rel1 cat b rel'"
      using search_loop_sound [OF r(2) root_addr_ok cat, of 0] by blast
    note sr = search_post_recorded [OF s(2) g1 cat]
    have "rel_wf rel'" using s(2) by (simp add: search_post_def)
    with True r(1) s(1) sr rec(1) assms(4) l show ?thesis
      by (simp add: RecordAndGetPageWithFreeSpace_def fsm_search_def)
  next
    case False
    with r(4) have r': "0 \<le> r" "r < int SlotsPerFSMPage" "cat \<le> slot_val rel1 a (nat r)" by auto
    have "search_post rel1 cat (fsm_get_heap_blk a (nat r)) rel1"
      using r(2) r' lk unfolding search_post_def
      by (intro conjI disjI2 exI [of _ a] exI [of _ "nat r"]) auto
    from search_post_recorded(3) [OF this g1 cat] False r(1,2) rec(1) g1 assms(4) l show ?thesis
      by (simp add: RecordAndGetPageWithFreeSpace_def)
  qed
qed

text \<open>
  C29. After \<open>FreeSpaceMapVacuum\<close> the search is complete: a request is refused with
  \<open>InvalidBlockNumber\<close> exactly when no heap block is recorded with the category it needs. The vacuum
  itself changes no recorded value.
\<close>

theorem FreeSpaceMapVacuum_makes_search_complete:
  assumes "rel_ok rel" and "no_ghosts rel" and "fsm_space_needed_to_cat needed = Inr cat"
  shows "(\<forall>b. recorded_cat (FreeSpaceMapVacuum rel) b = recorded_cat rel b) \<and>
    (\<exists>b rel'. GetPageWithFreeSpace (FreeSpaceMapVacuum rel) needed = Inr (Some (b, rel')) \<and>
      (if \<exists>c. cat \<le> recorded_cat rel c then b \<noteq> InvalidBlockNumber \<and> cat \<le> recorded_cat rel b
       else b = InvalidBlockNumber))"
proof -
  let ?rel = "FreeSpaceMapVacuum rel"
  note v = FreeSpaceMapVacuum_correct [OF assms(1)]
  have cat: "0 < cat" by (rule needed_to_cat_nat(3) [OF assms(3)])
  have rc: "recorded_cat ?rel b = recorded_cat rel b" for b
  proof -
    obtain a s where l: "fsm_get_location b = (a, s)" by fastforce
    then show ?thesis using v(3) [of a s] location_ok [OF l] by (simp add: recorded_cat_def)
  qed
  have g: "no_ghosts ?rel" using assms(2) v(3) by (simp add: no_ghosts_def)
  have wf: "rel_wf ?rel" using v(1) by (simp add: rel_ok_def)
  obtain b rel' where s: "fsm_search_loop 0 g_fsm_root_address ?rel cat = Some (b, rel')" "search_post ?rel cat b rel'"
    using search_loop_sound [OF wf root_addr_ok cat, of 0] by blast
  note sr = search_post_recorded(3) [OF s(2) g cat]
  have inv: "b \<noteq> InvalidBlockNumber" if "cat \<le> recorded_cat rel c" for c
  proof -
    obtain a t where l: "fsm_get_location c = (a, t)" by fastforce
    have "cat \<le> slot_val ?rel a t" using that rc [of c] l by (simp add: recorded_cat_def)
    with location_ok [OF l] have "\<exists>t < SlotsPerFSMPage. cat \<le> slot_val ?rel g_fsm_root_address t"
      by (intro leaf_reaches_root [OF v(1,2)])
    then obtain a' s' where f: "b = fsm_get_heap_blk a' s'" "addr_ok a'" "level a' = 0" "s' < SlotsPerFSMPage"
      "cat \<le> slot_val ?rel a' s'"
      using search_loop_complete [OF v(1,2) root_addr_ok cat, of 0] s(1) by auto
    have "slot_val ?rel a' s' \<noteq> 0" using f(5) cat by auto
    then have lt: "logpageno a' * SlotsPerFSMPage + s' < unat InvalidBlockNumber"
      using g f by (auto simp: no_ghosts_def not_le [symmetric])
    then have "unat b = logpageno a' * SlotsPerFSMPage + s'"
      using f location_heap_blk(2) [OF f(3,4)] by (simp add: InvalidBlockNumber_def)
    with lt show ?thesis by auto
  qed
  have "if \<exists>c. cat \<le> recorded_cat rel c then b \<noteq> InvalidBlockNumber \<and> cat \<le> recorded_cat rel b
       else b = InvalidBlockNumber"
    using inv sr rc by auto
  with rc s(1) assms(3) show ?thesis by (simp add: GetPageWithFreeSpace_def fsm_search_def)
qed

text \<open>
  \<open>FreeSpaceMapTruncateRel\<close> to \<open>n\<close> heap blocks forgets exactly the blocks from \<open>n\<close> on.
\<close>

theorem FreeSpaceMapTruncateRel_correct:
  assumes "rel_ok rel"
  shows "rel_ok (FreeSpaceMapTruncateRel rel n) \<and>
    (\<forall>b. recorded_cat (FreeSpaceMapTruncateRel rel n) b = (if b < n then recorded_cat rel b else 0))"
  using truncate_recorded [OF assms] by simp

text \<open>
  C31. \<open>UpdateFreeSpaceMap\<close> returns exactly when the last block is not on the last bottom-level page
  of the map. On that page \<open>fsm_get_lastblckno\<close> exceeds 32 bits and wraps around to block 549, so
  that the loop starts over from the beginning of the relation, without end.
\<close>

theorem UpdateFreeSpaceMap_terminates_iff:
  assumes "rel_wf rel" and "startBlk \<le> endBlk"
  shows "(\<exists>rel'. UpdateFreeSpaceMap rel startBlk endBlk freespace search = Some rel') \<longleftrightarrow>
    unat endBlk < 4294963777"
proof
  assume "\<exists>rel'. UpdateFreeSpaceMap rel startBlk endBlk freespace search = Some rel'"
  then obtain rel' where
    "UpdateFreeSpaceMap_loop rel startBlk endBlk (fsm_space_avail_to_cat freespace) search = Some rel'"
    by (auto simp: UpdateFreeSpaceMap_def)
  from update_loop_diverges [OF this] show "unat endBlk < 4294963777"
    using assms(2) by (simp add: last_page_start_def)
next
  assume "unat endBlk < 4294963777"
  with update_loop_total [OF _ assms(1), of endBlk startBlk "fsm_space_avail_to_cat freespace" search]
  show "\<exists>rel'. UpdateFreeSpaceMap rel startBlk endBlk freespace search = Some rel'"
    by (auto simp: UpdateFreeSpaceMap_def last_page_start_def)
qed

text \<open>The map of a relation that has none yet.\<close>

definition new_rel :: fsm_rel where
  "new_rel = \<lparr>fsm_fork = None, smgr_fsm_nblocks = InvalidBlockNumber\<rparr>"

lemma new_rel_ok: "rel_ok new_rel" "rel_wf new_rel" "no_ghosts new_rel"
  by (simp_all add: new_rel_def rel_ok_def rel_wf_def pages_def no_ghosts_def slot_val_def page_at_def)

lemma recorded_new_rel [simp]: "recorded_cat new_rel b = 0"
  by (simp add: new_rel_def recorded_cat_def slot_val_def page_at_def pages_def split: prod.split)

lemma cat_100: "fsm_space_needed_to_cat 100 = Inr 4"
  by (simp add: fsm_space_needed_to_cat_def map_sizes)

lemma avail_3200: "fsm_space_avail_to_cat 3200 = 100"
  by (simp add: fsm_space_avail_to_cat_def map_sizes)

theorem fsm_categories_witness: "(100 :: nat) \<le> 3200"
  using fsm_categories_sound [of 100 3200] by (simp add: cat_100 avail_3200)

theorem fsm_addressing_witness:
  "fsm_get_parent (fsm_get_child g_fsm_root_address 3) = (g_fsm_root_address, 3)"
  using fsm_addressing [of 0 g_fsm_root_address g_fsm_root_address 3]
  by (simp add: g_fsm_root_address_def map_sizes page_sizes addr_ok_def)

theorem RecordPageWithFreeSpace_witness:
  "\<exists>rel'. RecordPageWithFreeSpace new_rel 5 3200 = Some rel' \<and> recorded_cat rel' 5 = 100 \<and> recorded_cat rel' 6 = 0"
  using RecordPageWithFreeSpace_correct [OF new_rel_ok(1), of 5 3200] by (auto simp: avail_3200)

theorem GetPageWithFreeSpace_witness:
  "\<exists>rel'. GetPageWithFreeSpace new_rel 100 = Inr (Some (InvalidBlockNumber, rel'))"
  using GetPageWithFreeSpace_sound [OF new_rel_ok(2,3), of 100] by (auto simp: cat_100)

theorem RecordAndGetPageWithFreeSpace_witness:
  "\<exists>b rel'. RecordAndGetPageWithFreeSpace new_rel 5 3200 100 = Inr (Some (b, rel')) \<and> recorded_cat rel' 5 = 100"
proof -
  have "(5 :: BlockNumber) \<noteq> InvalidBlockNumber" by (simp add: InvalidBlockNumber_def)
  from RecordAndGetPageWithFreeSpace_correct [OF new_rel_ok(2,3) this cat_100, of 3200]
  show ?thesis by (auto simp: avail_3200)
qed

text \<open>A map in which block 5 has category 100.\<close>

lemma block5_recorded:
  obtains rel where "rel_ok rel" and "no_ghosts rel" and "\<And>b. recorded_cat rel b = (if b = 5 then 100 else 0)"
proof -
  obtain a s where l: "fsm_get_location 5 = (a, s)" by fastforce
  note lk = location_ok [OF l]
  obtain r rel where r: "rel_ok rel"
    "\<forall>b t. addr_ok b \<and> t < SlotsPerFSMPage \<longrightarrow> slot_val rel b t = (if b = a \<and> t = s then 100 else slot_val new_rel b t)"
    using set_and_search_correct [OF new_rel_ok(2) lk(1,3), of 100 0 True] new_rel_ok(1) by blast
  have "(5 :: BlockNumber) \<noteq> InvalidBlockNumber" by (simp add: InvalidBlockNumber_def)
  with that [of rel] r(1) set_slot_recorded [OF r(2) l] new_rel_ok(3) show ?thesis by simp
qed

theorem FreeSpaceMapVacuum_witness:
  "\<exists>rel rel'. recorded_cat rel 5 = 100 \<and> GetPageWithFreeSpace (FreeSpaceMapVacuum rel) 100 = Inr (Some (5, rel'))"
proof -
  obtain rel where rel: "rel_ok rel" "no_ghosts rel" "\<And>b. recorded_cat rel b = (if b = 5 then 100 else 0)"
    by (rule block5_recorded) blast
  have "\<exists>c. (4 :: uint8) \<le> recorded_cat rel c" by (intro exI [of _ 5]) (simp add: rel(3))
  then obtain b rel' where "GetPageWithFreeSpace (FreeSpaceMapVacuum rel) 100 = Inr (Some (b, rel'))"
    "4 \<le> recorded_cat rel b"
    using FreeSpaceMapVacuum_makes_search_complete [OF rel(1,2) cat_100] by auto
  moreover from this have "b = 5" using rel(3) [of b] by (auto split: if_splits)
  ultimately show ?thesis using rel(3) [of 5] by (intro exI [of _ rel] exI [of _ rel']) simp
qed

theorem FreeSpaceMapTruncateRel_witness: "rel_ok (FreeSpaceMapTruncateRel new_rel 10)"
  using FreeSpaceMapTruncateRel_correct [OF new_rel_ok(1), of 10] by simp

theorem UpdateFreeSpaceMap_witness:
  "(\<exists>rel'. UpdateFreeSpaceMap new_rel 0 4294963776 100 True = Some rel') \<and>
   UpdateFreeSpaceMap new_rel 0 4294963777 100 True = None"
  using UpdateFreeSpaceMap_terminates_iff [OF new_rel_ok(2), of 0 4294963776 100 True]
    UpdateFreeSpaceMap_terminates_iff [OF new_rel_ok(2), of 0 4294963777 100 True] by simp

end
