(* ===== verification/Tuple_Header.thy ===== *)
theory Tuple_Header
  imports Prelude
begin

text \<open>
  Heap tuple headers, the transaction system as visibility checks see it, and hint bits:
  \<open>access/htup.h\<close>, \<open>access/transam.h\<close>, \<open>combocid.cpp\<close> and the first part of
  \<open>heapam_visibility.cpp\<close>.

  Transaction ids are stored on the page relative to a base; the header record has the full 64-bit
  ids that \<open>HeapTupleHeaderGetXmin\<close> and \<open>HeapTupleHeaderGetXmax\<close> compute from it. The answers of
  the transaction managers (process array, commit log, CSN log, multixacts) and the session's
  settings at one moment are the fields of the record \<open>xact_env\<close>, named after the functions and
  variables. The model is of a single-node build: \<open>ENABLE_MULTIPLE_NODES\<close> is off.
\<close>

section \<open>Tuple headers\<close>

type_synonym TransactionId = uint64
type_synonym CommandId = uint32
type_synonym CommitSeqNo = uint64

definition InvalidTransactionId :: TransactionId where
  "InvalidTransactionId = 0"

definition TransactionIdIsValid :: "TransactionId \<Rightarrow> bool" where
  "TransactionIdIsValid xid \<longleftrightarrow> xid \<noteq> InvalidTransactionId"

definition TransactionIdPrecedes :: "TransactionId \<Rightarrow> TransactionId \<Rightarrow> bool" where
  "TransactionIdPrecedes id1 id2 \<longleftrightarrow> id1 < id2"

record HeapTupleHeader =
  t_xmin :: TransactionId
  t_xmax :: TransactionId
  t_cid :: CommandId
  t_ctid :: "nat \<times> nat"
  t_infomask :: uint16
  t_infomask2 :: uint16

definition HEAP_COMBOCID :: uint16 where "HEAP_COMBOCID = 0x0020"
definition HEAP_XMAX_EXCL_LOCK :: uint16 where "HEAP_XMAX_EXCL_LOCK = 0x0040"
definition HEAP_XMAX_SHARED_LOCK :: uint16 where "HEAP_XMAX_SHARED_LOCK = 0x0080"
definition HEAP_LOCK_MASK :: uint16 where "HEAP_LOCK_MASK = 0x00C0"
definition HEAP_XMIN_COMMITTED :: uint16 where "HEAP_XMIN_COMMITTED = 0x0100"
definition HEAP_XMIN_INVALID :: uint16 where "HEAP_XMIN_INVALID = 0x0200"
definition HEAP_XMAX_COMMITTED :: uint16 where "HEAP_XMAX_COMMITTED = 0x0400"
definition HEAP_XMAX_INVALID :: uint16 where "HEAP_XMAX_INVALID = 0x0800"
definition HEAP_XMAX_IS_MULTI :: uint16 where "HEAP_XMAX_IS_MULTI = 0x1000"
definition HEAP_XMAX_LOCK_ONLY :: uint16 where "HEAP_XMAX_LOCK_ONLY = 0x0800"

lemmas infomask_bits = HEAP_COMBOCID_def HEAP_XMAX_EXCL_LOCK_def HEAP_XMAX_SHARED_LOCK_def HEAP_LOCK_MASK_def
  HEAP_XMIN_COMMITTED_def HEAP_XMIN_INVALID_def HEAP_XMAX_COMMITTED_def HEAP_XMAX_INVALID_def
  HEAP_XMAX_IS_MULTI_def HEAP_XMAX_LOCK_ONLY_def

text \<open>\<open>tuple->t_infomask & bit\<close> as a condition.\<close>

definition has_info :: "HeapTupleHeader \<Rightarrow> uint16 \<Rightarrow> bool" where
  "has_info tup msk \<longleftrightarrow> t_infomask tup AND msk \<noteq> 0"

definition HEAP_XMAX_IS_LOCKED_ONLY :: "HeapTupleHeader \<Rightarrow> bool" where
  "HEAP_XMAX_IS_LOCKED_ONLY tup \<longleftrightarrow>
     t_infomask2 tup AND HEAP_XMAX_LOCK_ONLY \<noteq> 0 \<or>
     t_infomask tup AND HEAP_XMAX_SHARED_LOCK \<noteq> 0 \<or>
     t_infomask tup AND (HEAP_XMAX_IS_MULTI OR HEAP_LOCK_MASK) = HEAP_XMAX_EXCL_LOCK"

definition HeapTupleHeaderXminCommitted :: "HeapTupleHeader \<Rightarrow> bool" where
  "HeapTupleHeaderXminCommitted tup \<longleftrightarrow> has_info tup HEAP_XMIN_COMMITTED"

definition HeapTupleHeaderXminInvalid :: "HeapTupleHeader \<Rightarrow> bool" where
  "HeapTupleHeaderXminInvalid tup \<longleftrightarrow>
     t_infomask tup AND (HEAP_XMIN_COMMITTED OR HEAP_XMIN_INVALID) = HEAP_XMIN_INVALID"

definition HeapTupleHeaderXminFrozen :: "HeapTupleHeader \<Rightarrow> bool" where
  "HeapTupleHeaderXminFrozen tup \<longleftrightarrow>
     t_infomask tup AND (HEAP_XMIN_INVALID OR HEAP_XMIN_COMMITTED) = HEAP_XMIN_INVALID OR HEAP_XMIN_COMMITTED"

section \<open>Commit sequence numbers\<close>

datatype TransactionIdStatus = XID_COMMITTED | XID_ABORTED | XID_INPROGRESS

definition COMMITSEQNO_INPROGRESS :: CommitSeqNo where "COMMITSEQNO_INPROGRESS = 0"
definition COMMITSEQNO_ABORTED :: CommitSeqNo where "COMMITSEQNO_ABORTED = 1"
definition COMMITSEQNO_FROZEN :: CommitSeqNo where "COMMITSEQNO_FROZEN = 2"
definition COMMITSEQNO_COMMIT_INPROGRESS :: CommitSeqNo where "COMMITSEQNO_COMMIT_INPROGRESS = push_bit 62 1"
definition COMMITSEQNO_SUBTRANS_BIT :: CommitSeqNo where "COMMITSEQNO_SUBTRANS_BIT = push_bit 63 1"
definition MAX_COMMITSEQNO :: CommitSeqNo where "MAX_COMMITSEQNO = push_bit 60 1 - 1"

definition COMMITSEQNO_IS_COMMITTED :: "CommitSeqNo \<Rightarrow> bool" where
  "COMMITSEQNO_IS_COMMITTED csn \<longleftrightarrow>
     csn AND MAX_COMMITSEQNO \<ge> COMMITSEQNO_FROZEN \<and> csn AND NOT MAX_COMMITSEQNO = 0"

definition COMMITSEQNO_IS_ABORTED :: "CommitSeqNo \<Rightarrow> bool" where
  "COMMITSEQNO_IS_ABORTED csn \<longleftrightarrow> csn = COMMITSEQNO_ABORTED"

definition COMMITSEQNO_IS_COMMITTING :: "CommitSeqNo \<Rightarrow> bool" where
  "COMMITSEQNO_IS_COMMITTING csn \<longleftrightarrow> csn AND COMMITSEQNO_COMMIT_INPROGRESS = COMMITSEQNO_COMMIT_INPROGRESS"

definition COMMITSEQNO_IS_SUBTRANS :: "CommitSeqNo \<Rightarrow> bool" where
  "COMMITSEQNO_IS_SUBTRANS csn \<longleftrightarrow> csn AND COMMITSEQNO_SUBTRANS_BIT = COMMITSEQNO_SUBTRANS_BIT"

definition GET_COMMITSEQNO :: "CommitSeqNo \<Rightarrow> CommitSeqNo" where
  "GET_COMMITSEQNO csn = csn AND MAX_COMMITSEQNO"

section \<open>The transaction system at one moment\<close>

text \<open>
  \<open>TransactionIdGetCommitSeqNo\<close> has the parameter \<open>isCommit\<close> of the code. \<open>commit_flushed\<close> is the
  negation of \<open>BufferIsPermanent(buffer) && XLogNeedsFlush(commitLSN) && XLByteLT(BufferGetLSNAtomic(buffer), commitLSN)\<close>
  for the commit LSN of a transaction.
\<close>

record xact_env =
  TransactionIdIsCurrentTransactionId :: "TransactionId \<Rightarrow> bool"
  TransactionIdIsInProgress :: "TransactionId \<Rightarrow> bool"
  TransactionIdDidCommit :: "TransactionId \<Rightarrow> bool"
  LatestFetchTransactionIdDidAbort :: "TransactionId \<Rightarrow> bool"
  LatestFetchCSNDidAbort :: "TransactionId \<Rightarrow> bool"
  TransactionIdGetCommitSeqNo :: "bool \<Rightarrow> TransactionId \<Rightarrow> CommitSeqNo"
  MultiXactIdIsRunning :: "TransactionId \<Rightarrow> bool"
  MultiXactGetUpdateXid :: "TransactionId \<Rightarrow> TransactionId"
  comboCids :: "(CommandId \<times> CommandId) list"
  GetCurrentCommandId :: CommandId
  needSync :: "TransactionId \<Rightarrow> bool"
  commit_flushed :: "TransactionId \<Rightarrow> bool"
  SS_STANDBY_MODE :: bool
  SS_STANDBY_MODE_WITH_REMOTE_EXECUTE :: bool
  useLocalSnapshot :: bool
  RecoveryInProgress :: bool
  IsRoachStandbyCluster :: bool
  READ_UNCOMMITTED :: bool
  enable_cluster_resize :: bool
  XactReadOnly :: bool
  enable_show_any_tuples :: bool
  IsInitdb :: bool
  xc_maintenance_mode :: bool
  bInAbortTransaction :: bool
  GTM_LITE_MODE :: bool
  StreamThreadAmI :: bool

definition TransactionIdGetStatus :: "xact_env \<Rightarrow> TransactionId \<Rightarrow> TransactionIdStatus" where
  "TransactionIdGetStatus env xid =
     (let csn = TransactionIdGetCommitSeqNo env False xid
      in if COMMITSEQNO_IS_COMMITTED csn then XID_COMMITTED
         else if COMMITSEQNO_IS_ABORTED csn then XID_ABORTED
         else XID_INPROGRESS)"

section \<open>Command ids\<close>

definition GetRealCmin :: "xact_env \<Rightarrow> CommandId \<Rightarrow> CommandId" where
  "GetRealCmin env combocid = fst (comboCids env ! unat combocid)"

definition GetRealCmax :: "xact_env \<Rightarrow> CommandId \<Rightarrow> CommandId" where
  "GetRealCmax env combocid = snd (comboCids env ! unat combocid)"

definition HeapTupleHeaderGetCmin :: "xact_env \<Rightarrow> HeapTupleHeader \<Rightarrow> CommandId" where
  "HeapTupleHeaderGetCmin env tup =
     (if SS_STANDBY_MODE_WITH_REMOTE_EXECUTE env then t_cid tup
      else if has_info tup HEAP_COMBOCID then GetRealCmin env (t_cid tup)
      else t_cid tup)"

definition HeapTupleHeaderGetCmax :: "xact_env \<Rightarrow> HeapTupleHeader \<Rightarrow> CommandId" where
  "HeapTupleHeaderGetCmax env tup =
     (if SS_STANDBY_MODE_WITH_REMOTE_EXECUTE env then t_cid tup
      else if has_info tup HEAP_COMBOCID then GetRealCmax env (t_cid tup)
      else t_cid tup)"

text \<open>\<open>Inl\<close> is the \<open>ereport(PANIC, ...)\<close>.\<close>

definition CheckStreamCombocid :: "xact_env \<Rightarrow> HeapTupleHeader \<Rightarrow> bool result" where
  "CheckStreamCombocid env tup =
     (if SS_STANDBY_MODE_WITH_REMOTE_EXECUTE env then Inr False
      else if unat (t_cid tup) \<ge> length (comboCids env)
      then if StreamThreadAmI env then Inr True else Inl ERRCODE_INTERNAL_ERROR
      else Inr False)"

text \<open>
  \<open>GetComboCommandId\<close>: the hash table maps each pair in use to its index in \<open>comboCids\<close>, which is the
  position of the pair in the array.
\<close>

primrec index_of :: "'a \<Rightarrow> 'a list \<Rightarrow> nat option" where
  "index_of x [] = None"
| "index_of x (y # ys) = (if x = y then Some 0 else map_option Suc (index_of x ys))"

definition GetComboCommandId :: "xact_env \<Rightarrow> CommandId \<Rightarrow> CommandId \<Rightarrow> CommandId \<times> xact_env" where
  "GetComboCommandId env cmin cmax =
     (case index_of (cmin, cmax) (comboCids env) of
        Some i \<Rightarrow> (of_nat i, env)
      | None \<Rightarrow> (of_nat (length (comboCids env)), env\<lparr>comboCids := comboCids env @ [(cmin, cmax)]\<rparr>))"

definition HeapTupleHeaderAdjustCmax ::
  "xact_env \<Rightarrow> HeapTupleHeader \<Rightarrow> CommandId \<Rightarrow> CommandId \<times> bool \<times> xact_env" where
  "HeapTupleHeaderAdjustCmax env tup cmax =
     (if \<not> HeapTupleHeaderXminCommitted tup \<and> TransactionIdIsCurrentTransactionId env (t_xmin tup)
      then let (combo, env') = GetComboCommandId env (HeapTupleHeaderGetCmin env tup) cmax in (combo, True, env')
      else (cmax, False, env))"

section \<open>Hint bits\<close>

definition SetHintBits :: "xact_env \<Rightarrow> HeapTupleHeader \<Rightarrow> uint16 \<Rightarrow> TransactionId \<Rightarrow> HeapTupleHeader" where
  "SetHintBits env tup infomask xid =
     (if SS_STANDBY_MODE env then tup
      else if (useLocalSnapshot env \<and> infomask AND HEAP_XMIN_COMMITTED = 0) \<or> RecoveryInProgress env \<or>
        IsRoachStandbyCluster env then tup
      else if READ_UNCOMMITTED env \<and> infomask AND HEAP_XMIN_COMMITTED = 0 then tup
      else if enable_cluster_resize env then tup
      else if has_info tup infomask then tup
      else if TransactionIdIsValid xid \<and> \<not> commit_flushed env xid then tup
      else tup\<lparr>t_infomask := t_infomask tup OR infomask\<rparr>)"

section \<open>Reading the bits\<close>

lemma infomask_powers:
  "HEAP_COMBOCID = 2 ^ 5" "HEAP_XMAX_EXCL_LOCK = 2 ^ 6" "HEAP_XMAX_SHARED_LOCK = 2 ^ 7"
  "HEAP_LOCK_MASK = 2 ^ 6 OR 2 ^ 7"
  "HEAP_XMIN_COMMITTED = 2 ^ 8" "HEAP_XMIN_INVALID = 2 ^ 9" "HEAP_XMAX_COMMITTED = 2 ^ 10"
  "HEAP_XMAX_INVALID = 2 ^ 11" "HEAP_XMAX_IS_MULTI = 2 ^ 12" "HEAP_XMAX_LOCK_ONLY = 2 ^ 11"
  by (simp_all add: infomask_bits)

lemma has_info_bit:
  "has_info t HEAP_COMBOCID \<longleftrightarrow> bit (t_infomask t) 5"
  "has_info t HEAP_XMIN_COMMITTED \<longleftrightarrow> bit (t_infomask t) 8"
  "has_info t HEAP_XMIN_INVALID \<longleftrightarrow> bit (t_infomask t) 9"
  "has_info t HEAP_XMAX_COMMITTED \<longleftrightarrow> bit (t_infomask t) 10"
  "has_info t HEAP_XMAX_INVALID \<longleftrightarrow> bit (t_infomask t) 11"
  "has_info t HEAP_XMAX_IS_MULTI \<longleftrightarrow> bit (t_infomask t) 12"
  by (simp_all only: has_info_def infomask_powers and_exp_eq_0_iff_not_bit not_not)

lemma bit_power16: "k < 16 \<Longrightarrow> bit ((2 :: uint16) ^ k) n \<longleftrightarrow> n = k"
  by (auto simp: bit_exp_iff)

lemma word16_eq_iff: "(v :: uint16) = w \<longleftrightarrow> (\<forall>n. bit v n = bit w n)"
  by (auto intro: bit_eqI)

lemma two_bits_eq:
  assumes "i < 16" and "j < 16" and "i \<noteq> j"
  shows "(w :: uint16) AND (2 ^ i OR 2 ^ j) = 2 ^ j \<longleftrightarrow> bit w j \<and> \<not> bit w i"
    and "(w :: uint16) AND (2 ^ j OR 2 ^ i) = 2 ^ j OR 2 ^ i \<longleftrightarrow> bit w i \<and> bit w j"
proof -
  have "w AND (2 ^ i OR 2 ^ j) = 2 ^ j \<longleftrightarrow> (\<forall>n. (bit w n \<and> (n = i \<or> n = j)) = (n = j))"
    unfolding word16_eq_iff bit_and_iff bit_or_iff bit_power16 [OF assms(1)] bit_power16 [OF assms(2)] ..
  also have "\<dots> \<longleftrightarrow> bit w j \<and> \<not> bit w i" using assms(3) by auto
  finally show "w AND (2 ^ i OR 2 ^ j) = 2 ^ j \<longleftrightarrow> bit w j \<and> \<not> bit w i" .
  have "w AND (2 ^ j OR 2 ^ i) = 2 ^ j OR 2 ^ i \<longleftrightarrow> (\<forall>n. (bit w n \<and> (n = j \<or> n = i)) = (n = j \<or> n = i))"
    unfolding word16_eq_iff bit_and_iff bit_or_iff bit_power16 [OF assms(1)] bit_power16 [OF assms(2)] ..
  also have "\<dots> \<longleftrightarrow> bit w i \<and> bit w j" by auto
  finally show "w AND (2 ^ j OR 2 ^ i) = 2 ^ j OR 2 ^ i \<longleftrightarrow> bit w i \<and> bit w j" .
qed

lemma three_bits_eq:
  assumes "i < 16" and "j < 16" and "k < 16" and "i \<noteq> j" and "i \<noteq> k"
  shows "(w :: uint16) AND (2 ^ k OR (2 ^ i OR 2 ^ j)) = 2 ^ i \<longleftrightarrow> bit w i \<and> \<not> bit w j \<and> \<not> bit w k"
proof -
  have "w AND (2 ^ k OR (2 ^ i OR 2 ^ j)) = 2 ^ i \<longleftrightarrow> (\<forall>n. (bit w n \<and> (n = k \<or> n = i \<or> n = j)) = (n = i))"
    unfolding word16_eq_iff bit_and_iff bit_or_iff bit_power16 [OF assms(1)] bit_power16 [OF assms(2)]
      bit_power16 [OF assms(3)] ..
  also have "\<dots> \<longleftrightarrow> bit w i \<and> \<not> bit w j \<and> \<not> bit w k" using assms(4,5) by auto
  finally show ?thesis .
qed

lemma xmin_flags:
  "HeapTupleHeaderXminCommitted t \<longleftrightarrow> bit (t_infomask t) 8"
  "HeapTupleHeaderXminInvalid t \<longleftrightarrow> bit (t_infomask t) 9 \<and> \<not> bit (t_infomask t) 8"
  "HeapTupleHeaderXminFrozen t \<longleftrightarrow> bit (t_infomask t) 8 \<and> bit (t_infomask t) 9"
proof -
  show "HeapTupleHeaderXminCommitted t \<longleftrightarrow> bit (t_infomask t) 8"
    unfolding HeapTupleHeaderXminCommitted_def has_info_bit ..
  show "HeapTupleHeaderXminInvalid t \<longleftrightarrow> bit (t_infomask t) 9 \<and> \<not> bit (t_infomask t) 8"
    unfolding HeapTupleHeaderXminInvalid_def infomask_powers by (rule two_bits_eq) simp_all
  show "HeapTupleHeaderXminFrozen t \<longleftrightarrow> bit (t_infomask t) 8 \<and> bit (t_infomask t) 9"
    unfolding HeapTupleHeaderXminFrozen_def infomask_powers by (rule two_bits_eq) simp_all
qed

lemma locked_only_bits:
  "HEAP_XMAX_IS_LOCKED_ONLY t \<longleftrightarrow>
    bit (t_infomask2 t) 11 \<or> bit (t_infomask t) 7 \<or>
    (bit (t_infomask t) 6 \<and> \<not> bit (t_infomask t) 7 \<and> \<not> bit (t_infomask t) 12)"
proof -
  have "t_infomask t AND (2 ^ 12 OR (2 ^ 6 OR 2 ^ 7)) = 2 ^ 6 \<longleftrightarrow>
      bit (t_infomask t) 6 \<and> \<not> bit (t_infomask t) 7 \<and> \<not> bit (t_infomask t) 12"
    by (rule three_bits_eq) simp_all
  then show ?thesis
    by (simp only: HEAP_XMAX_IS_LOCKED_ONLY_def infomask_powers and_exp_eq_0_iff_not_bit not_not)
qed

text \<open>A tuple after a hint bit was set: nothing else is different, and the bit may be set.\<close>

lemma SetHintBits_fields [simp]:
  "t_xmin (SetHintBits env t b x) = t_xmin t" "t_xmax (SetHintBits env t b x) = t_xmax t"
  "t_cid (SetHintBits env t b x) = t_cid t" "t_ctid (SetHintBits env t b x) = t_ctid t"
  "t_infomask2 (SetHintBits env t b x) = t_infomask2 t"
  by (simp_all add: SetHintBits_def)

lemma SetHintBits_bit:
  assumes "k < 16"
  shows "bit (t_infomask (SetHintBits env t (2 ^ k) x)) j \<Longrightarrow> bit (t_infomask t) j \<or> j = k"
    and "bit (t_infomask t) j \<Longrightarrow> bit (t_infomask (SetHintBits env t (2 ^ k) x)) j"
  using assms by (auto simp: SetHintBits_def bit_or_iff bit_power16 split: if_splits)

lemma SetHintBits_bit_neq:
  "k < 16 \<Longrightarrow> j \<noteq> k \<Longrightarrow> bit (t_infomask (SetHintBits env t (2 ^ k) x)) j \<longleftrightarrow> bit (t_infomask t) j"
  using SetHintBits_bit by blast

lemma SetHintBits_other_bits:
  "j \<noteq> 8 \<Longrightarrow> bit (t_infomask (SetHintBits env t HEAP_XMIN_COMMITTED x)) j \<longleftrightarrow> bit (t_infomask t) j"
  "j \<noteq> 9 \<Longrightarrow> bit (t_infomask (SetHintBits env t HEAP_XMIN_INVALID x)) j \<longleftrightarrow> bit (t_infomask t) j"
  "j \<noteq> 10 \<Longrightarrow> bit (t_infomask (SetHintBits env t HEAP_XMAX_COMMITTED x)) j \<longleftrightarrow> bit (t_infomask t) j"
  "j \<noteq> 11 \<Longrightarrow> bit (t_infomask (SetHintBits env t HEAP_XMAX_INVALID x)) j \<longleftrightarrow> bit (t_infomask t) j"
  unfolding infomask_powers by (rule SetHintBits_bit_neq; simp)+

lemma SetHintBits_only_hints:
  "j \<notin> {8, 9, 10, 11} \<Longrightarrow> b \<in> {HEAP_XMIN_COMMITTED, HEAP_XMIN_INVALID, HEAP_XMAX_COMMITTED, HEAP_XMAX_INVALID} \<Longrightarrow>
    bit (t_infomask (SetHintBits env t b x)) j \<longleftrightarrow> bit (t_infomask t) j"
  using SetHintBits_other_bits by auto

lemma SetHintBits_command_ids:
  assumes "b \<in> {HEAP_XMIN_COMMITTED, HEAP_XMIN_INVALID, HEAP_XMAX_COMMITTED, HEAP_XMAX_INVALID}"
  shows "HeapTupleHeaderGetCmin env (SetHintBits env' t b x) = HeapTupleHeaderGetCmin env t"
    and "HeapTupleHeaderGetCmax env (SetHintBits env' t b x) = HeapTupleHeaderGetCmax env t"
    and "HEAP_XMAX_IS_LOCKED_ONLY (SetHintBits env' t b x) = HEAP_XMAX_IS_LOCKED_ONLY t"
    and "has_info (SetHintBits env' t b x) HEAP_XMAX_IS_MULTI = has_info t HEAP_XMAX_IS_MULTI"
  using SetHintBits_only_hints [OF _ assms]
  by (simp_all add: HeapTupleHeaderGetCmin_def HeapTupleHeaderGetCmax_def has_info_bit locked_only_bits)

section \<open>Combo command ids\<close>

lemma index_of_Some: "index_of x xs = Some i \<Longrightarrow> i < length xs \<and> xs ! i = x"
  by (induction xs arbitrary: i) (auto split: if_splits)

text \<open>
  C38. The command id stored when a transaction deletes a tuple it inserted itself stands for both
  command ids: from the combo command id \<open>HeapTupleHeaderGetCmin\<close> returns the inserting and
  \<open>HeapTupleHeaderGetCmax\<close> the deleting command, and the ids handed out before keep their meaning.
\<close>

theorem combocid_roundtrip:
  assumes "\<not> HeapTupleHeaderXminCommitted t" and "TransactionIdIsCurrentTransactionId env (t_xmin t)"
    and "length (comboCids env) < 2 ^ 32" and "HeapTupleHeaderAdjustCmax env t cmax = (cid, iscombo, env')"
    and "\<not> SS_STANDBY_MODE_WITH_REMOTE_EXECUTE env"
  shows "let t' = t\<lparr>t_cid := cid, t_infomask := t_infomask t OR HEAP_COMBOCID\<rparr> in
    iscombo \<and> HeapTupleHeaderGetCmin env' t' = HeapTupleHeaderGetCmin env t \<and>
    HeapTupleHeaderGetCmax env' t' = cmax \<and>
    (\<forall>c. unat c < length (comboCids env) \<longrightarrow>
      GetRealCmin env' c = GetRealCmin env c \<and> GetRealCmax env' c = GetRealCmax env c)"
proof -
  let ?cmin = "HeapTupleHeaderGetCmin env t"
  let ?t = "t\<lparr>t_cid := cid, t_infomask := t_infomask t OR HEAP_COMBOCID\<rparr>"
  have "has_info ?t HEAP_COMBOCID"
    unfolding has_info_bit by (simp add: bit_or_iff) (simp only: infomask_powers bit_power16 simp_thms)
  moreover have remote: "SS_STANDBY_MODE_WITH_REMOTE_EXECUTE env' = SS_STANDBY_MODE_WITH_REMOTE_EXECUTE env"
    using assms(4) by (auto simp: HeapTupleHeaderAdjustCmax_def GetComboCommandId_def split: if_splits option.splits prod.splits)
  ultimately have get: "HeapTupleHeaderGetCmin env' ?t = GetRealCmin env' cid"
    "HeapTupleHeaderGetCmax env' ?t = GetRealCmax env' cid"
    using assms(5) by (simp_all add: HeapTupleHeaderGetCmin_def HeapTupleHeaderGetCmax_def)
  have adj: "iscombo" "GetComboCommandId env ?cmin cmax = (cid, env')"
    using assms(1,2,4) by (auto simp: HeapTupleHeaderAdjustCmax_def split: prod.splits)
  show ?thesis
  proof (cases "index_of (?cmin, cmax) (comboCids env)")
    case None
    then have e: "comboCids env' = comboCids env @ [(?cmin, cmax)]" "cid = of_nat (length (comboCids env))"
      using adj(2) by (auto simp: GetComboCommandId_def)
    have "unat cid = length (comboCids env)" using e(2) assms(3) by (intro unat_of_nat32)
    with e(1) get adj(1) show ?thesis by (simp add: GetRealCmin_def GetRealCmax_def nth_append)
  next
    case (Some i)
    then have e: "env' = env" "cid = of_nat i" using adj(2) by (auto simp: GetComboCommandId_def)
    have i: "i < length (comboCids env)" "comboCids env ! i = (?cmin, cmax)" using index_of_Some [OF Some] by auto
    have "unat cid = i" using e(2) i(1) assms(3) by (intro unat_of_nat32) auto
    with e(1) i get adj(1) show ?thesis by (simp add: GetRealCmin_def GetRealCmax_def)
  qed
qed

text \<open>
  A transaction system for the concrete cases of the development: transaction 100 is the current
  one, 100 and 200 are in progress, 10 and 20 have committed with the sequence numbers 1000 and 2000,
  every other transaction has aborted. Multixact 7 has the updater 20, multixact 8 the updater 100.
\<close>

definition sample_env :: xact_env where
  "sample_env = \<lparr>
     TransactionIdIsCurrentTransactionId = (\<lambda>x. x = 100),
     TransactionIdIsInProgress = (\<lambda>x. x = 100 \<or> x = 200),
     TransactionIdDidCommit = (\<lambda>x. x = 10 \<or> x = 20),
     LatestFetchTransactionIdDidAbort = (\<lambda>x. x \<noteq> 10 \<and> x \<noteq> 20),
     LatestFetchCSNDidAbort = (\<lambda>x. x \<noteq> 10 \<and> x \<noteq> 20),
     TransactionIdGetCommitSeqNo = (\<lambda>_ x. if x = 10 then 1000 else if x = 20 then 2000
       else if x = 100 \<or> x = 200 then 0 else 1),
     MultiXactIdIsRunning = (\<lambda>_. False),
     MultiXactGetUpdateXid = (\<lambda>m. if m = 7 then 20 else if m = 8 then 100 else 0),
     comboCids = [(1, 5)], GetCurrentCommandId = 6,
     needSync = (\<lambda>_. False), commit_flushed = (\<lambda>_. True),
     SS_STANDBY_MODE = False, SS_STANDBY_MODE_WITH_REMOTE_EXECUTE = False, useLocalSnapshot = False, RecoveryInProgress = False,
     IsRoachStandbyCluster = False, READ_UNCOMMITTED = False, enable_cluster_resize = False,
     XactReadOnly = False, enable_show_any_tuples = False, IsInitdb = False, xc_maintenance_mode = False,
     bInAbortTransaction = False, GTM_LITE_MODE = False, StreamThreadAmI = False\<rparr>"

text \<open>A header with no hint bit set.\<close>

definition sample_tuple :: "TransactionId \<Rightarrow> TransactionId \<Rightarrow> CommandId \<Rightarrow> uint16 \<Rightarrow> HeapTupleHeader" where
  "sample_tuple xmin xmax cid info =
     \<lparr>t_xmin = xmin, t_xmax = xmax, t_cid = cid, t_ctid = (0, 1), t_infomask = info, t_infomask2 = 0\<rparr>"

theorem combocid_roundtrip_witness:
  "let (cid, iscombo, env') = HeapTupleHeaderAdjustCmax sample_env (sample_tuple 100 0 3 0) 4;
       t' = (sample_tuple 100 0 3 0)\<lparr>t_cid := cid, t_infomask := 0 OR HEAP_COMBOCID\<rparr>
   in iscombo \<and> HeapTupleHeaderGetCmin env' t' = 3 \<and> HeapTupleHeaderGetCmax env' t' = 4"
proof -
  have adj: "HeapTupleHeaderAdjustCmax sample_env (sample_tuple 100 0 3 0) 4 =
      (1, True, sample_env\<lparr>comboCids := [(1, 5), (3, 4)]\<rparr>)"
    by (simp add: HeapTupleHeaderAdjustCmax_def HeapTupleHeaderGetCmin_def GetComboCommandId_def sample_env_def
        sample_tuple_def has_info_def HeapTupleHeaderXminCommitted_def)
  have pre: "\<not> HeapTupleHeaderXminCommitted (sample_tuple 100 0 3 0)"
    "TransactionIdIsCurrentTransactionId sample_env (t_xmin (sample_tuple 100 0 3 0))"
    "length (comboCids sample_env) < 2 ^ 32"
    "HeapTupleHeaderGetCmin sample_env (sample_tuple 100 0 3 0) = 3"
    "\<not> SS_STANDBY_MODE_WITH_REMOTE_EXECUTE sample_env"
    by (simp_all add: sample_env_def sample_tuple_def has_info_def HeapTupleHeaderXminCommitted_def
        HeapTupleHeaderGetCmin_def)
  show ?thesis
    using combocid_roundtrip [OF pre(1-3) adj pre(5)] pre(4) unfolding adj Let_def prod.case
    by (simp add: sample_tuple_def)
qed

end
