(* ===== verification/Visibility_Checks.thy ===== *)
theory Visibility_Checks
  imports Tuple_Header
begin

text \<open>
  The visibility routines of \<open>src/gausskernel/storage/access/heap/heapam_visibility.cpp\<close> that look at
  the present: \<open>Self\<close>, \<open>Now\<close>, \<open>Dirty\<close>, \<open>Toast\<close>, \<open>Update\<close>, \<open>Vacuum\<close> and the two shortcuts
  \<open>HeapTupleIsSurelyDead\<close> and \<open>HeapTupleIsOnlyLocked\<close>. Each takes the transaction system \<open>xact_env\<close>
  and the header, and returns its answer with the header, in which hint bits may have been set.
  \<open>Inl\<close> is \<open>LatestTransactionStatusError\<close>. Each routine is split where the code's comment says
  ``by here, the inserting transaction has committed''.
\<close>

definition status_error :: "'a result" where
  "status_error = Inl ERRCODE_INTERNAL_ERROR"

section \<open>HeapTupleSatisfiesSelf\<close>

definition DealCurrentTansactionNotCommited :: "xact_env \<Rightarrow> HeapTupleHeader \<Rightarrow> bool \<times> HeapTupleHeader" where
  "DealCurrentTansactionNotCommited env tup =
     (if has_info tup HEAP_XMAX_INVALID then (True, tup)
      else if HEAP_XMAX_IS_LOCKED_ONLY tup then (True, tup)
      else if has_info tup HEAP_XMAX_IS_MULTI then
        (if \<not> TransactionIdIsCurrentTransactionId env (MultiXactGetUpdateXid env (t_xmax tup)) then (True, tup)
         else (False, tup))
      else if \<not> TransactionIdIsCurrentTransactionId env (t_xmax tup)
      then (True, SetHintBits env tup HEAP_XMAX_INVALID InvalidTransactionId)
      else (False, tup))"

definition SatisfiesSelf_xmax :: "xact_env \<Rightarrow> HeapTupleHeader \<Rightarrow> (bool \<times> HeapTupleHeader) result" where
  "SatisfiesSelf_xmax env tup =
     (if has_info tup HEAP_XMAX_INVALID then Inr (True, tup)
      else if has_info tup HEAP_XMAX_COMMITTED then
        (if HEAP_XMAX_IS_LOCKED_ONLY tup then Inr (True, tup) else Inr (False, tup))
      else if has_info tup HEAP_XMAX_IS_MULTI then
        (if HEAP_XMAX_IS_LOCKED_ONLY tup then Inr (True, tup)
         else let xmax = MultiXactGetUpdateXid env (t_xmax tup)
              in if TransactionIdIsCurrentTransactionId env xmax then Inr (False, tup)
                 else if TransactionIdIsInProgress env xmax then Inr (True, tup)
                 else if TransactionIdDidCommit env xmax then Inr (False, tup)
                 else Inr (True, tup))
      else if TransactionIdIsCurrentTransactionId env (t_xmax tup) then
        (if HEAP_XMAX_IS_LOCKED_ONLY tup then Inr (True, tup) else Inr (False, tup))
      else if TransactionIdIsInProgress env (t_xmax tup) then Inr (True, tup)
      else if \<not> TransactionIdDidCommit env (t_xmax tup) then
        (if \<not> LatestFetchTransactionIdDidAbort env (t_xmax tup) then status_error
         else Inr (True, SetHintBits env tup HEAP_XMAX_INVALID InvalidTransactionId))
      else if HEAP_XMAX_IS_LOCKED_ONLY tup
      then Inr (True, SetHintBits env tup HEAP_XMAX_INVALID InvalidTransactionId)
      else Inr (False, SetHintBits env tup HEAP_XMAX_COMMITTED (t_xmax tup)))"

definition HeapTupleSatisfiesSelf :: "xact_env \<Rightarrow> HeapTupleHeader \<Rightarrow> (bool \<times> HeapTupleHeader) result" where
  "HeapTupleSatisfiesSelf env tup =
     (if \<not> HeapTupleHeaderXminCommitted tup then
        if HeapTupleHeaderXminInvalid tup then Inr (False, tup)
        else if TransactionIdIsCurrentTransactionId env (t_xmin tup)
        then Inr (DealCurrentTansactionNotCommited env tup)
        else if TransactionIdIsInProgress env (t_xmin tup) then Inr (False, tup)
        else if TransactionIdDidCommit env (t_xmin tup)
        then SatisfiesSelf_xmax env (SetHintBits env tup HEAP_XMIN_COMMITTED (t_xmin tup))
        else if \<not> LatestFetchTransactionIdDidAbort env (t_xmin tup) then status_error
        else Inr (False, SetHintBits env tup HEAP_XMIN_INVALID InvalidTransactionId)
      else SatisfiesSelf_xmax env tup)"

section \<open>HeapTupleSatisfiesNow\<close>

text \<open>
  The three components of the result are the answer, \<open>*has_cur_xact_write\<close> (as set through a non-null
  pointer that was false) and the header. \<open>NeedSyncXact\<close> is false in a single-node build.
\<close>

definition SatisfiesNow_own :: "xact_env \<Rightarrow> HeapTupleHeader \<Rightarrow> bool \<times> bool \<times> HeapTupleHeader" where
  "SatisfiesNow_own env tup =
     (let curcid = GetCurrentCommandId env;
          write = HeapTupleHeaderGetCmin env tup < curcid
      in if HeapTupleHeaderGetCmin env tup \<ge> curcid then (False, write, tup)
         else if has_info tup HEAP_XMAX_INVALID then (True, write, tup)
         else if HEAP_XMAX_IS_LOCKED_ONLY tup then (True, write, tup)
         else if has_info tup HEAP_XMAX_IS_MULTI then
           (let xmax = MultiXactGetUpdateXid env (t_xmax tup)
            in if \<not> TransactionIdIsValid xmax then (True, write, tup)
               else if \<not> TransactionIdIsCurrentTransactionId env xmax then (True, write, tup)
               else (False, write, tup))
         else if \<not> TransactionIdIsCurrentTransactionId env (t_xmax tup)
         then (True, write, SetHintBits env tup HEAP_XMAX_INVALID InvalidTransactionId)
         else if HeapTupleHeaderGetCmax env tup \<ge> curcid then (True, write, tup)
         else (False, write, tup))"

definition SatisfiesNow_xmax :: "xact_env \<Rightarrow> HeapTupleHeader \<Rightarrow> (bool \<times> bool \<times> HeapTupleHeader) result" where
  "SatisfiesNow_xmax env tup =
     (let curcid = GetCurrentCommandId env
      in if has_info tup HEAP_XMAX_INVALID then Inr (True, False, tup)
         else if has_info tup HEAP_XMAX_COMMITTED then
           (if HEAP_XMAX_IS_LOCKED_ONLY tup then Inr (True, False, tup) else Inr (False, False, tup))
         else if has_info tup HEAP_XMAX_IS_MULTI then
           (if HEAP_XMAX_IS_LOCKED_ONLY tup then Inr (True, False, tup)
            else let xmax = MultiXactGetUpdateXid env (t_xmax tup)
                 in if \<not> TransactionIdIsValid xmax then Inr (True, False, tup)
                    else if TransactionIdIsCurrentTransactionId env xmax then
                      (if HeapTupleHeaderGetCmax env tup \<ge> curcid then Inr (True, False, tup)
                       else Inr (False, False, tup))
                    else if TransactionIdIsInProgress env xmax then Inr (True, False, tup)
                    else if TransactionIdDidCommit env xmax then Inr (False, False, tup)
                    else Inr (True, False, tup))
         else if TransactionIdIsCurrentTransactionId env (t_xmax tup) then
           (let write = HeapTupleHeaderGetCmax env tup < curcid
            in if HEAP_XMAX_IS_LOCKED_ONLY tup then Inr (True, write, tup)
               else if HeapTupleHeaderGetCmax env tup \<ge> curcid then Inr (True, write, tup)
               else Inr (False, write, tup))
         else if TransactionIdIsInProgress env (t_xmax tup) then Inr (True, False, tup)
         else if \<not> TransactionIdDidCommit env (t_xmax tup) then
           (if \<not> LatestFetchTransactionIdDidAbort env (t_xmax tup) then status_error
            else Inr (True, False, SetHintBits env tup HEAP_XMAX_INVALID InvalidTransactionId))
         else if HEAP_XMAX_IS_LOCKED_ONLY tup
         then Inr (True, False, SetHintBits env tup HEAP_XMAX_INVALID InvalidTransactionId)
         else Inr (False, False, SetHintBits env tup HEAP_XMAX_COMMITTED (t_xmax tup)))"

definition HeapTupleSatisfiesNow :: "xact_env \<Rightarrow> HeapTupleHeader \<Rightarrow> (bool \<times> bool \<times> HeapTupleHeader) result" where
  "HeapTupleSatisfiesNow env tup =
     (if \<not> has_info tup HEAP_XMIN_COMMITTED then
        if has_info tup HEAP_XMIN_INVALID then Inr (False, False, tup)
        else if TransactionIdIsCurrentTransactionId env (t_xmin tup) then Inr (SatisfiesNow_own env tup)
        else if TransactionIdIsInProgress env (t_xmin tup) then Inr (False, False, tup)
        else if TransactionIdDidCommit env (t_xmin tup)
        then SatisfiesNow_xmax env (SetHintBits env tup HEAP_XMIN_COMMITTED (t_xmin tup))
        else if \<not> LatestFetchTransactionIdDidAbort env (t_xmin tup) then status_error
        else Inr (False, False, SetHintBits env tup HEAP_XMIN_INVALID InvalidTransactionId)
      else SatisfiesNow_xmax env tup)"

section \<open>Any and Toast\<close>

definition HeapTupleSatisfiesAny :: "HeapTupleHeader \<Rightarrow> bool" where
  "HeapTupleSatisfiesAny tup = True"

definition HeapTupleSatisfiesToast :: "HeapTupleHeader \<Rightarrow> bool" where
  "HeapTupleSatisfiesToast tup =
     (if \<not> HeapTupleHeaderXminCommitted tup then
        if HeapTupleHeaderXminInvalid tup then False
        else if \<not> TransactionIdIsValid (t_xmin tup) then False
        else True
      else True)"

section \<open>HeapTupleSatisfiesDirty\<close>

text \<open>The result carries \<open>snapshot->xmin\<close> and \<open>snapshot->xmax\<close>, which the routine sets.\<close>

record dirty_result =
  d_visible :: bool
  d_xmin :: TransactionId
  d_xmax :: TransactionId
  d_tuple :: HeapTupleHeader

definition dirty :: "bool \<Rightarrow> TransactionId \<Rightarrow> TransactionId \<Rightarrow> HeapTupleHeader \<Rightarrow> dirty_result" where
  "dirty v x y tup = \<lparr>d_visible = v, d_xmin = x, d_xmax = y, d_tuple = tup\<rparr>"

abbreviation (input) dirty_plain :: "bool \<Rightarrow> HeapTupleHeader \<Rightarrow> dirty_result" where
  "dirty_plain v tup \<equiv> dirty v InvalidTransactionId InvalidTransactionId tup"

definition SatisfiesDirty_xmax :: "xact_env \<Rightarrow> HeapTupleHeader \<Rightarrow> dirty_result result" where
  "SatisfiesDirty_xmax env tup =
     (if has_info tup HEAP_XMAX_INVALID then Inr (dirty_plain True tup)
      else if has_info tup HEAP_XMAX_COMMITTED then
        (if HEAP_XMAX_IS_LOCKED_ONLY tup then Inr (dirty_plain True tup) else Inr (dirty_plain False tup))
      else if has_info tup HEAP_XMAX_IS_MULTI then
        (if HEAP_XMAX_IS_LOCKED_ONLY tup then Inr (dirty_plain True tup)
         else let xmax = MultiXactGetUpdateXid env (t_xmax tup)
              in if TransactionIdIsCurrentTransactionId env xmax then Inr (dirty_plain False tup)
                 else if TransactionIdIsInProgress env xmax then Inr (dirty True InvalidTransactionId xmax tup)
                 else if TransactionIdDidCommit env xmax then Inr (dirty_plain False tup)
                 else Inr (dirty_plain True tup))
      else if TransactionIdIsCurrentTransactionId env (t_xmax tup) then
        (if HEAP_XMAX_IS_LOCKED_ONLY tup then Inr (dirty_plain True tup) else Inr (dirty_plain False tup))
      else if TransactionIdIsInProgress env (t_xmax tup)
      then Inr (dirty True InvalidTransactionId (t_xmax tup) tup)
      else if \<not> TransactionIdDidCommit env (t_xmax tup) then
        (if \<not> LatestFetchTransactionIdDidAbort env (t_xmax tup) then status_error
         else Inr (dirty_plain True (SetHintBits env tup HEAP_XMAX_INVALID InvalidTransactionId)))
      else if HEAP_XMAX_IS_LOCKED_ONLY tup
      then Inr (dirty_plain True (SetHintBits env tup HEAP_XMAX_INVALID InvalidTransactionId))
      else Inr (dirty_plain False (SetHintBits env tup HEAP_XMAX_COMMITTED (t_xmax tup))))"

definition HeapTupleSatisfiesDirty :: "xact_env \<Rightarrow> HeapTupleHeader \<Rightarrow> dirty_result result" where
  "HeapTupleSatisfiesDirty env tup =
     (if \<not> HeapTupleHeaderXminCommitted tup then
        if HeapTupleHeaderXminInvalid tup then Inr (dirty_plain False tup)
        else if TransactionIdIsCurrentTransactionId env (t_xmin tup)
        then (let (v, tup') = DealCurrentTansactionNotCommited env tup in Inr (dirty_plain v tup'))
        else if TransactionIdIsInProgress env (t_xmin tup)
        then Inr (dirty True (t_xmin tup) InvalidTransactionId tup)
        else if TransactionIdDidCommit env (t_xmin tup)
        then SatisfiesDirty_xmax env (SetHintBits env tup HEAP_XMIN_COMMITTED (t_xmin tup))
        else if \<not> LatestFetchTransactionIdDidAbort env (t_xmin tup) then status_error
        else Inr (dirty_plain False (SetHintBits env tup HEAP_XMIN_INVALID InvalidTransactionId))
      else SatisfiesDirty_xmax env tup)"

section \<open>HeapTupleSatisfiesUpdate\<close>

datatype TM_Result = TM_Ok | TM_Invisible | TM_SelfModified | TM_Updated | TM_Deleted | TM_BeingModified
  | TM_SelfCreated | TM_SelfUpdated | TM_WouldBlock

definition SatisfiesUpdate_own ::
  "xact_env \<Rightarrow> HeapTupleHeader \<Rightarrow> CommandId \<Rightarrow> bool \<Rightarrow> TM_Result \<times> HeapTupleHeader" where
  "SatisfiesUpdate_own env tup curcid self_visible =
     (if HeapTupleHeaderGetCmin env tup > curcid then (TM_Invisible, tup)
      else if HeapTupleHeaderGetCmin env tup = curcid \<and> \<not> self_visible then (TM_SelfCreated, tup)
      else if has_info tup HEAP_XMAX_INVALID then (TM_Ok, tup)
      else if HEAP_XMAX_IS_LOCKED_ONLY tup then
        (let xmax = t_xmax tup
         in if has_info tup HEAP_XMAX_IS_MULTI then
              (if MultiXactIdIsRunning env xmax then (TM_BeingModified, tup) else (TM_Ok, tup))
            else if \<not> TransactionIdIsInProgress env xmax then (TM_Ok, tup)
            else (TM_BeingModified, tup))
      else if has_info tup HEAP_XMAX_IS_MULTI then
        (let xmax = MultiXactGetUpdateXid env (t_xmax tup)
         in if \<not> TransactionIdIsCurrentTransactionId env xmax then
              (if MultiXactIdIsRunning env (t_xmax tup) then (TM_BeingModified, tup) else (TM_Ok, tup))
            else if HeapTupleHeaderGetCmax env tup \<ge> curcid then (TM_SelfModified, tup)
            else (TM_Invisible, tup))
      else if \<not> TransactionIdIsCurrentTransactionId env (t_xmax tup)
      then (TM_Ok, SetHintBits env tup HEAP_XMAX_INVALID InvalidTransactionId)
      else if HeapTupleHeaderGetCmax env tup \<ge> curcid then (TM_SelfModified, tup)
      else (TM_Invisible, tup))"

definition updated_or_deleted :: "nat \<times> nat \<Rightarrow> HeapTupleHeader \<Rightarrow> TM_Result" where
  "updated_or_deleted self tup = (if self \<noteq> t_ctid tup then TM_Updated else TM_Deleted)"

definition SatisfiesUpdate_xmax ::
  "xact_env \<Rightarrow> nat \<times> nat \<Rightarrow> HeapTupleHeader \<Rightarrow> CommandId \<Rightarrow> (TM_Result \<times> HeapTupleHeader) result" where
  "SatisfiesUpdate_xmax env self tup curcid =
     (if has_info tup HEAP_XMAX_INVALID then Inr (TM_Ok, tup)
      else if has_info tup HEAP_XMAX_COMMITTED then
        (if HEAP_XMAX_IS_LOCKED_ONLY tup then Inr (TM_Ok, tup) else Inr (updated_or_deleted self tup, tup))
      else if has_info tup HEAP_XMAX_IS_MULTI then
        (if HEAP_XMAX_IS_LOCKED_ONLY tup then
           (if has_info tup HEAP_LOCK_MASK \<and> MultiXactIdIsRunning env (t_xmax tup) then Inr (TM_BeingModified, tup)
            else Inr (TM_Ok, SetHintBits env tup HEAP_XMAX_INVALID InvalidTransactionId))
         else let xmax = MultiXactGetUpdateXid env (t_xmax tup)
              in if TransactionIdIsCurrentTransactionId env xmax then
                   (if HeapTupleHeaderGetCmax env tup \<ge> curcid then Inr (TM_SelfModified, tup)
                    else Inr (TM_Invisible, tup))
                 else if TransactionIdIsInProgress env xmax then Inr (TM_BeingModified, tup)
                 else if TransactionIdDidCommit env xmax then Inr (updated_or_deleted self tup, tup)
                 else if \<not> MultiXactIdIsRunning env (t_xmax tup)
                 then Inr (TM_Ok, SetHintBits env tup HEAP_XMAX_INVALID InvalidTransactionId)
                 else Inr (TM_BeingModified, tup))
      else if TransactionIdIsCurrentTransactionId env (t_xmax tup) then
        (if HEAP_XMAX_IS_LOCKED_ONLY tup then Inr (TM_BeingModified, tup)
         else if HeapTupleHeaderGetCmax env tup \<ge> curcid then Inr (TM_SelfModified, tup)
         else Inr (TM_Invisible, tup))
      else if TransactionIdIsInProgress env (t_xmax tup) then Inr (TM_BeingModified, tup)
      else if \<not> TransactionIdDidCommit env (t_xmax tup) then
        (if \<not> LatestFetchTransactionIdDidAbort env (t_xmax tup) then status_error
         else Inr (TM_Ok, SetHintBits env tup HEAP_XMAX_INVALID InvalidTransactionId))
      else if HEAP_XMAX_IS_LOCKED_ONLY tup
      then Inr (TM_Ok, SetHintBits env tup HEAP_XMAX_INVALID InvalidTransactionId)
      else (let tup' = SetHintBits env tup HEAP_XMAX_COMMITTED (t_xmax tup)
            in Inr (updated_or_deleted self tup', tup')))"

text \<open>
  When the inserting transaction is in progress and asks other sessions to synchronise,
  the routine waits for its end and starts again. The list holds what is observed: the transaction
  system and the header first, and then after each wait. \<open>None\<close>: still waiting.
\<close>

fun HeapTupleSatisfiesUpdate ::
  "(xact_env \<times> HeapTupleHeader) list \<Rightarrow> nat \<times> nat \<Rightarrow> CommandId \<Rightarrow> bool \<Rightarrow> (TM_Result \<times> HeapTupleHeader) result option" where
  "HeapTupleSatisfiesUpdate [] self curcid self_visible = None"
| "HeapTupleSatisfiesUpdate ((env, tup) # later) self curcid self_visible =
     (if \<not> HeapTupleHeaderXminCommitted tup then
        if HeapTupleHeaderXminInvalid tup then Some (Inr (TM_Invisible, tup))
        else if TransactionIdIsCurrentTransactionId env (t_xmin tup)
        then Some (Inr (SatisfiesUpdate_own env tup curcid self_visible))
        else if TransactionIdIsInProgress env (t_xmin tup) then
          (if needSync env (t_xmin tup) then HeapTupleSatisfiesUpdate later self curcid self_visible
           else Some (Inr (TM_Invisible, tup)))
        else if TransactionIdDidCommit env (t_xmin tup)
        then Some (SatisfiesUpdate_xmax env self (SetHintBits env tup HEAP_XMIN_COMMITTED (t_xmin tup)) curcid)
        else if \<not> LatestFetchTransactionIdDidAbort env (t_xmin tup) then Some status_error
        else Some (Inr (TM_Invisible, SetHintBits env tup HEAP_XMIN_INVALID InvalidTransactionId))
      else Some (SatisfiesUpdate_xmax env self tup curcid))"

section \<open>HeapTupleSatisfiesVacuum and the shortcuts\<close>

datatype HTSV_Result = HEAPTUPLE_DEAD | HEAPTUPLE_LIVE | HEAPTUPLE_RECENTLY_DEAD
  | HEAPTUPLE_INSERT_IN_PROGRESS | HEAPTUPLE_DELETE_IN_PROGRESS

definition unless_local :: "xact_env \<Rightarrow> HTSV_Result \<Rightarrow> HTSV_Result" where
  "unless_local env r = (if \<not> useLocalSnapshot env \<or> IsInitdb env then r else HEAPTUPLE_LIVE)"

definition HeapTupleHeaderGetUpdateXid :: "xact_env \<Rightarrow> HeapTupleHeader \<Rightarrow> TransactionId" where
  "HeapTupleHeaderGetUpdateXid env tup =
     (if \<not> has_info tup HEAP_XMAX_INVALID \<and> has_info tup HEAP_XMAX_IS_MULTI \<and>
         t_infomask2 tup AND HEAP_XMAX_LOCK_ONLY = 0
      then MultiXactGetUpdateXid env (t_xmax tup) else t_xmax tup)"

definition SatisfiesVacuum_xmax ::
  "xact_env \<Rightarrow> HeapTupleHeader \<Rightarrow> TransactionId \<Rightarrow> (HTSV_Result \<times> HeapTupleHeader) result" where
  "SatisfiesVacuum_xmax env tup OldestXmin =
     (if has_info tup HEAP_XMAX_INVALID then Inr (HEAPTUPLE_LIVE, tup)
      else if HEAP_XMAX_IS_LOCKED_ONLY tup then
        (if \<not> has_info tup HEAP_XMAX_COMMITTED then
           if has_info tup HEAP_XMAX_IS_MULTI then
             (if MultiXactIdIsRunning env (t_xmax tup) then Inr (HEAPTUPLE_LIVE, tup)
              else Inr (HEAPTUPLE_LIVE, SetHintBits env tup HEAP_XMAX_INVALID InvalidTransactionId))
           else if TransactionIdGetStatus env (t_xmax tup) = XID_INPROGRESS \<and> TransactionIdIsInProgress env (t_xmax tup)
           then Inr (HEAPTUPLE_LIVE, tup)
           else Inr (HEAPTUPLE_LIVE, SetHintBits env tup HEAP_XMAX_INVALID InvalidTransactionId)
         else Inr (HEAPTUPLE_LIVE, tup))
      else if has_info tup HEAP_XMAX_IS_MULTI then
        (let xmax = HeapTupleHeaderGetUpdateXid env tup
         in if TransactionIdIsInProgress env xmax then Inr (HEAPTUPLE_DELETE_IN_PROGRESS, tup)
            else if TransactionIdDidCommit env xmax then
              (if \<not> TransactionIdPrecedes xmax OldestXmin then Inr (HEAPTUPLE_RECENTLY_DEAD, tup)
               else Inr (HEAPTUPLE_DEAD, tup))
            else if \<not> MultiXactIdIsRunning env (t_xmax tup)
            then Inr (HEAPTUPLE_LIVE, SetHintBits env tup HEAP_XMAX_INVALID InvalidTransactionId)
            else Inr (HEAPTUPLE_LIVE, tup))
      else
        (let committed = (\<lambda>tup. if \<not> TransactionIdPrecedes (t_xmax tup) OldestXmin
               then Inr (unless_local env HEAPTUPLE_RECENTLY_DEAD, tup)
               else Inr (unless_local env HEAPTUPLE_DEAD, tup))
         in if \<not> has_info tup HEAP_XMAX_COMMITTED then
              (let xidstatus = TransactionIdGetStatus env (t_xmax tup)
               in if xidstatus = XID_INPROGRESS \<and> TransactionIdIsInProgress env (t_xmax tup)
                  then Inr (HEAPTUPLE_DELETE_IN_PROGRESS, tup)
                  else if xidstatus = XID_COMMITTED \<or>
                    (xidstatus = XID_INPROGRESS \<and> TransactionIdDidCommit env (t_xmax tup))
                  then committed (SetHintBits env tup HEAP_XMAX_COMMITTED (t_xmax tup))
                  else if \<not> LatestFetchTransactionIdDidAbort env (t_xmax tup) then status_error
                  else Inr (HEAPTUPLE_LIVE, SetHintBits env tup HEAP_XMAX_INVALID InvalidTransactionId))
            else committed tup))"

definition HeapTupleSatisfiesVacuum ::
  "xact_env \<Rightarrow> HeapTupleHeader \<Rightarrow> TransactionId \<Rightarrow> bool \<Rightarrow> (HTSV_Result \<times> HeapTupleHeader) result" where
  "HeapTupleSatisfiesVacuum env tup OldestXmin isAnalyzing =
     (if \<not> HeapTupleHeaderXminCommitted tup then
        if HeapTupleHeaderXminInvalid tup then Inr (HEAPTUPLE_DEAD, tup)
        else
          (let xidstatus = TransactionIdGetStatus env (t_xmin tup)
           in if TransactionIdIsCurrentTransactionId env (t_xmin tup) then
                (if has_info tup HEAP_XMAX_INVALID then Inr (HEAPTUPLE_INSERT_IN_PROGRESS, tup)
                 else if HEAP_XMAX_IS_LOCKED_ONLY tup then Inr (HEAPTUPLE_INSERT_IN_PROGRESS, tup)
                 else if TransactionIdIsCurrentTransactionId env (t_xmax tup)
                 then Inr (HEAPTUPLE_DELETE_IN_PROGRESS, tup)
                 else Inr (HEAPTUPLE_INSERT_IN_PROGRESS, tup))
              else if xidstatus = XID_INPROGRESS \<and> TransactionIdIsInProgress env (t_xmin tup)
              then Inr (HEAPTUPLE_INSERT_IN_PROGRESS, tup)
              else if xidstatus = XID_COMMITTED \<or>
                (xidstatus = XID_INPROGRESS \<and> TransactionIdDidCommit env (t_xmin tup))
              then SatisfiesVacuum_xmax env
                (if \<not> isAnalyzing then SetHintBits env tup HEAP_XMIN_COMMITTED (t_xmin tup) else tup) OldestXmin
              else if \<not> LatestFetchTransactionIdDidAbort env (t_xmin tup) then status_error
              else Inr (unless_local env HEAPTUPLE_DEAD, SetHintBits env tup HEAP_XMIN_INVALID InvalidTransactionId))
      else SatisfiesVacuum_xmax env tup OldestXmin)"

definition HeapTupleIsSurelyDead :: "HeapTupleHeader \<Rightarrow> TransactionId \<Rightarrow> bool" where
  "HeapTupleIsSurelyDead tup OldestXmin =
     (if \<not> HeapTupleHeaderXminCommitted tup then (if HeapTupleHeaderXminInvalid tup then True else False)
      else if has_info tup HEAP_XMAX_INVALID then False
      else if HEAP_XMAX_IS_LOCKED_ONLY tup then False
      else if has_info tup HEAP_XMAX_IS_MULTI then False
      else if \<not> has_info tup HEAP_XMAX_COMMITTED then False
      else TransactionIdPrecedes (t_xmax tup) OldestXmin)"

definition HeapTupleIsOnlyLocked :: "xact_env \<Rightarrow> HeapTupleHeader \<Rightarrow> bool" where
  "HeapTupleIsOnlyLocked env tup =
     (if has_info tup HEAP_XMAX_INVALID then True
      else if t_infomask2 tup AND HEAP_XMAX_LOCK_ONLY \<noteq> 0 then True
      else if \<not> TransactionIdIsValid (t_xmax tup) then True
      else if \<not> has_info tup HEAP_XMAX_IS_MULTI then False
      else let xmax = MultiXactGetUpdateXid env (t_xmax tup)
           in if \<not> TransactionIdIsValid xmax then True
              else if TransactionIdIsCurrentTransactionId env xmax then False
              else if TransactionIdIsInProgress env xmax then False
              else if TransactionIdDidCommit env xmax then False
              else True)"

end
