(* ===== verification/MVCC_Checks.thy ===== *)
theory MVCC_Checks
  imports Visibility_Checks
begin

text \<open>
  Snapshots, and the visibility routines that look through one: the CSN tests of
  \<open>src/common/backend/utils/time/snapmgr.cpp\<close>, and the MVCC part of
  \<open>src/gausskernel/storage/access/heap/heapam_visibility.cpp\<close> with the dispatcher
  \<open>HeapTupleSatisfiesVisibility\<close>.

  A test may wait for a transaction to end (\<open>SyncWaitXidEnd\<close>, which releases the page lock). What the
  routine observes is a list: the transaction system and the header when it starts, then after each wait.
  The head is the present; waiting drops it; \<open>None\<close> means that the call is still waiting.
\<close>

section \<open>Snapshots\<close>

datatype SnapshotSatisfiesMethod = SNAPSHOT_MVCC | SNAPSHOT_VERSION_MVCC | SNAPSHOT_DELTA | SNAPSHOT_LOST
  | SNAPSHOT_NOW | SNAPSHOT_SELF | SNAPSHOT_ANY | SNAPSHOT_TOAST | SNAPSHOT_DIRTY | SNAPSHOT_HISTORIC_MVCC
  | SNAPSHOT_DECODE_MVCC

datatype GTM_SnapshotType = GTM_SNAPSHOT_TYPE_UNDEFINED | GTM_SNAPSHOT_TYPE_LOCAL | GTM_SNAPSHOT_TYPE_GLOBAL
  | GTM_SNAPSHOT_TYPE_AUTOVACUUM

record SnapshotData =
  satisfies :: SnapshotSatisfiesMethod
  xmin :: TransactionId
  xmax :: TransactionId
  xip :: "TransactionId list"
  subxip :: "TransactionId list"
  snapshotcsn :: CommitSeqNo
  prepared_array :: "TransactionId list"
  takenDuringRecovery :: bool
  curcid :: CommandId
  gtm_snapshot_type :: GTM_SnapshotType

definition IsVersionMVCCSnapshot :: "SnapshotData \<Rightarrow> bool" where
  "IsVersionMVCCSnapshot snapshot \<longleftrightarrow> satisfies snapshot = SNAPSHOT_VERSION_MVCC \<or>
     satisfies snapshot = SNAPSHOT_DELTA \<or> satisfies snapshot = SNAPSHOT_LOST"

type_synonym worlds = "(xact_env \<times> HeapTupleHeader) list"
type_synonym 'a waiting = "'a result option"

abbreviation (input) now_env :: "worlds \<Rightarrow> xact_env" where
  "now_env ws \<equiv> fst (hd ws)"

abbreviation (input) now_tuple :: "worlds \<Rightarrow> HeapTupleHeader" where
  "now_tuple ws \<equiv> snd (hd ws)"

section \<open>Transaction ids against a snapshot\<close>

text \<open>\<open>CSNLogSetCommitSeqNo\<close> and \<open>SetLatestFetchState\<close> for one transaction.\<close>

definition set_csn :: "xact_env \<Rightarrow> TransactionId \<Rightarrow> CommitSeqNo \<Rightarrow> xact_env" where
  "set_csn env xid csn = env\<lparr>
     TransactionIdGetCommitSeqNo := (\<lambda>isCommit x. if x = xid then csn else TransactionIdGetCommitSeqNo env isCommit x),
     LatestFetchCSNDidAbort := (LatestFetchCSNDidAbort env)(xid := csn = COMMITSEQNO_ABORTED)\<rparr>"

definition TransactionIdIsPreparedAtSnapshot :: "TransactionId \<Rightarrow> SnapshotData \<Rightarrow> bool" where
  "TransactionIdIsPreparedAtSnapshot xid snapshot = list_ex (\<lambda>x. xid = x) (prepared_array snapshot)"

text \<open>The second component is \<open>*sync\<close>: whether the call has waited.\<close>

definition IsXidVisibleInGtmLiteLocalSnapshot ::
  "worlds \<Rightarrow> TransactionId \<Rightarrow> SnapshotData \<Rightarrow> TransactionIdStatus \<Rightarrow> bool \<Rightarrow> (bool \<times> bool \<times> worlds) option" where
  "IsXidVisibleInGtmLiteLocalSnapshot ws xid snapshot hint_status xmin_equal_xmax =
     (if hint_status = XID_ABORTED \<or> xmin_equal_xmax then Some (False, False, ws)
      else if \<not> bInAbortTransaction (now_env ws) \<and> TransactionIdIsPreparedAtSnapshot xid snapshot then
        (if hint_status = XID_COMMITTED then Some (True, False, ws)
         else if xc_maintenance_mode (now_env ws) then Some (False, False, ws)
         else case tl ws of
             [] \<Rightarrow> None
           | w # later \<Rightarrow> Some (TransactionIdDidCommit (fst w) xid, True, w # later))
      else Some (False, False, ws))"

text \<open>
  \<open>looped\<close> and \<open>sync\<close> are the variables of the loop. The result is the answer, \<open>*hintstatus\<close>, \<open>*sync\<close> and
  the observations from the present on.
\<close>

fun XidVisibleInSnapshot_loop ::
  "bool \<Rightarrow> worlds \<Rightarrow> TransactionId \<Rightarrow> SnapshotData \<Rightarrow> (bool \<times> TransactionIdStatus \<times> bool \<times> worlds) waiting" where
  "XidVisibleInSnapshot_loop looped [] xid snapshot = None"
| "XidVisibleInSnapshot_loop looped ((env, tup) # later) xid snapshot =
     (let csn = TransactionIdGetCommitSeqNo env False xid;
          ret = (\<lambda>v status. Some (Inr (v, status, looped, (env, tup) # later)))
      in if COMMITSEQNO_IS_COMMITTED csn then ret (csn < snapshotcsn snapshot) XID_COMMITTED
         else if COMMITSEQNO_IS_COMMITTING csn then
           if SS_STANDBY_MODE env then Some (Inl ERRCODE_INTERNAL_ERROR)
           else if looped then
             if takenDuringRecovery snapshot then ret False XID_INPROGRESS
             else if TransactionIdIsInProgress env xid then Some (Inl ERRCODE_INTERNAL_ERROR)
             else Some (Inr (False, XID_ABORTED, looped, (set_csn env xid COMMITSEQNO_ABORTED, tup) # later))
           else if \<not> COMMITSEQNO_IS_SUBTRANS csn \<and> GET_COMMITSEQNO csn \<ge> snapshotcsn snapshot
           then ret False XID_INPROGRESS
           else if xc_maintenance_mode env \<or> bInAbortTransaction env then ret False XID_INPROGRESS
           else XidVisibleInSnapshot_loop True later xid snapshot
         else if csn = COMMITSEQNO_ABORTED then ret False XID_ABORTED
         else ret False XID_INPROGRESS)"

definition XidVisibleInSnapshot ::
  "worlds \<Rightarrow> TransactionId \<Rightarrow> SnapshotData \<Rightarrow> (bool \<times> TransactionIdStatus \<times> bool \<times> worlds) waiting" where
  "XidVisibleInSnapshot = XidVisibleInSnapshot_loop False"

definition XidVisibleInDecodeSnapshot ::
  "xact_env \<Rightarrow> TransactionId \<Rightarrow> SnapshotData \<Rightarrow> bool \<times> TransactionIdStatus" where
  "XidVisibleInDecodeSnapshot env xid snapshot =
     (let csn = TransactionIdGetCommitSeqNo env False xid
      in if COMMITSEQNO_IS_COMMITTED csn then (csn < snapshotcsn snapshot, XID_COMMITTED)
         else if csn = COMMITSEQNO_ABORTED then (False, XID_ABORTED)
         else (False, XID_INPROGRESS))"

fun CommittedXidVisibleInSnapshot_loop ::
  "bool \<Rightarrow> worlds \<Rightarrow> TransactionId \<Rightarrow> SnapshotData \<Rightarrow> (bool \<times> worlds) waiting" where
  "CommittedXidVisibleInSnapshot_loop looped [] xid snapshot = None"
| "CommittedXidVisibleInSnapshot_loop looped ((env, tup) # later) xid snapshot =
     (let csn = TransactionIdGetCommitSeqNo env True xid;
          ret = (\<lambda>v. Some (Inr (v, (env, tup) # later)))
      in if COMMITSEQNO_IS_COMMITTING csn then
           if SS_STANDBY_MODE env then Some (Inl ERRCODE_INTERNAL_ERROR)
           else if looped then Some (Inr (True, (set_csn env xid COMMITSEQNO_FROZEN, tup) # later))
           else if \<not> COMMITSEQNO_IS_SUBTRANS csn \<and> GET_COMMITSEQNO csn \<ge> snapshotcsn snapshot then ret False
           else if xc_maintenance_mode env \<or> bInAbortTransaction env then ret False
           else CommittedXidVisibleInSnapshot_loop True later xid snapshot
         else if \<not> COMMITSEQNO_IS_COMMITTED csn then ret True
         else ret (csn < snapshotcsn snapshot))"

definition CommittedXidVisibleInSnapshot ::
  "worlds \<Rightarrow> TransactionId \<Rightarrow> SnapshotData \<Rightarrow> (bool \<times> worlds) waiting" where
  "CommittedXidVisibleInSnapshot ws xid snapshot =
     (if (\<not> GTM_LITE_MODE (now_env ws) \<or> gtm_snapshot_type snapshot = GTM_SNAPSHOT_TYPE_LOCAL) \<and>
         TransactionIdPrecedes xid (xmin snapshot) then Some (Inr (True, ws))
      else CommittedXidVisibleInSnapshot_loop False ws xid snapshot)"

definition CommittedXidVisibleInDecodeSnapshot :: "xact_env \<Rightarrow> TransactionId \<Rightarrow> SnapshotData \<Rightarrow> bool" where
  "CommittedXidVisibleInDecodeSnapshot env xid snapshot =
     (let csn = TransactionIdGetCommitSeqNo env True xid
      in if COMMITSEQNO_IS_COMMITTING csn then False
         else if \<not> COMMITSEQNO_IS_COMMITTED csn then True
         else csn < snapshotcsn snapshot)"

lemma XidVisible_length:
  "XidVisibleInSnapshot_loop looped ws x snap = Some (Inr (v, st, sync, ws')) \<Longrightarrow>
    length ws' \<le> length ws \<and> (sync \<and> \<not> looped \<longrightarrow> length ws' < length ws)"
proof (induction ws arbitrary: looped)
  case (Cons w ws)
  obtain env tup where w: "w = (env, tup)" by (cases w)
  show ?case using Cons.prems Cons.IH [of True] unfolding w
    by (auto simp: Let_def split: if_splits)
qed simp

lemma GtmLite_length:
  "IsXidVisibleInGtmLiteLocalSnapshot ws x snap st eq = Some (v, sync, ws') \<Longrightarrow>
    length ws' \<le> length ws \<and> (sync \<longrightarrow> length ws' < length ws)"
  by (cases ws) (auto simp: IsXidVisibleInGtmLiteLocalSnapshot_def split: if_splits list.splits)

section \<open>HeapTupleSatisfiesMVCC\<close>

text \<open>
  The hint bits after \<open>XidVisibleInSnapshot\<close>, for \<open>xmin\<close> and for \<open>xmax\<close>, on the header as it is now.
\<close>

definition set_hints :: "TransactionIdStatus \<Rightarrow> uint16 \<Rightarrow> uint16 \<Rightarrow> (HeapTupleHeader \<Rightarrow> TransactionId) \<Rightarrow> worlds \<Rightarrow> worlds result" where
  "set_hints status committed_bit invalid_bit xid ws =
     (case ws of
        [] \<Rightarrow> Inr []
      | (env, tup) # later \<Rightarrow>
          if status = XID_COMMITTED then Inr ((env, SetHintBits env tup committed_bit (xid tup)) # later)
          else if status = XID_ABORTED then
            (if \<not> LatestFetchCSNDidAbort env (xid tup) then status_error
             else Inr ((env, SetHintBits env tup invalid_bit InvalidTransactionId) # later))
          else Inr ws)"

lemma set_hints_length: "set_hints st c i x ws = Inr ws' \<Longrightarrow> length ws' = length ws"
  by (auto simp: set_hints_def status_error_def split: list.splits if_splits)

text \<open>The test that follows an invisible id; \<open>maintenance\<close> tells whether it heeds \<open>xc_maintenance_mode\<close>.\<close>

definition gtm_lite_visible ::
  "bool \<Rightarrow> worlds \<Rightarrow> TransactionId \<Rightarrow> SnapshotData \<Rightarrow> TransactionIdStatus \<Rightarrow> bool \<Rightarrow> (bool \<times> bool \<times> worlds) option" where
  "gtm_lite_visible maintenance ws xid snapshot status xmin_equal_xmax =
     (if \<not> GTM_LITE_MODE (now_env ws) \<or> (maintenance \<and> xc_maintenance_mode (now_env ws)) \<or>
         gtm_snapshot_type snapshot \<noteq> GTM_SNAPSHOT_TYPE_LOCAL then Some (False, False, ws)
      else IsXidVisibleInGtmLiteLocalSnapshot ws xid snapshot status xmin_equal_xmax)"

lemma gtm_lite_length:
  "gtm_lite_visible m ws x snap st eq = Some (v, sync, ws') \<Longrightarrow>
    length ws' \<le> length ws \<and> (sync \<longrightarrow> length ws' < length ws)"
  using GtmLite_length by (auto simp: gtm_lite_visible_def split: if_splits)

definition SatisfiesMVCC_own ::
  "xact_env \<Rightarrow> HeapTupleHeader \<Rightarrow> SnapshotData \<Rightarrow> (bool \<times> bool \<times> HeapTupleHeader) result" where
  "SatisfiesMVCC_own env tup snapshot =
     (let write = HeapTupleHeaderGetCmin env tup < curcid snapshot;
          rest =
            (if HeapTupleHeaderGetCmin env tup \<ge> curcid snapshot then (False, write, tup)
             else if has_info tup HEAP_XMAX_INVALID then (True, write, tup)
             else if HEAP_XMAX_IS_LOCKED_ONLY tup then (True, write, tup)
             else if has_info tup HEAP_XMAX_IS_MULTI then
               (if \<not> TransactionIdIsCurrentTransactionId env (MultiXactGetUpdateXid env (t_xmax tup)) then (True, write, tup)
                else if HeapTupleHeaderGetCmax env tup \<ge> curcid snapshot then (True, write, tup)
                else (False, write, tup))
             else if \<not> TransactionIdIsCurrentTransactionId env (t_xmax tup)
             then (True, write, SetHintBits env tup HEAP_XMAX_INVALID InvalidTransactionId)
             else (let write = (write \<or> HeapTupleHeaderGetCmax env tup < curcid snapshot)
                   in if HeapTupleHeaderGetCmax env tup \<ge> curcid snapshot then (True, write, tup)
                      else (False, write, tup)))
      in if has_info tup HEAP_COMBOCID then
           (case CheckStreamCombocid env tup of
              Inl e \<Rightarrow> Inl e
            | Inr deleted_later \<Rightarrow> Inr (if deleted_later then (True, write, tup) else rest))
         else Inr rest)"

text \<open>After the test of \<open>xmin\<close>: the answer is known, or \<open>xmax\<close> decides.\<close>

datatype mvcc_step = Answer bool bool worlds | CheckXmax worlds

definition SatisfiesMVCC_xmin :: "worlds \<Rightarrow> SnapshotData \<Rightarrow> mvcc_step waiting" where
  "SatisfiesMVCC_xmin ws snapshot =
     (case ws of
        [] \<Rightarrow> None
      | (env, tup) # later \<Rightarrow>
          if \<not> HeapTupleHeaderXminCommitted tup then
            if HeapTupleHeaderXminInvalid tup then Some (Inr (Answer False False ws))
            else if \<not> IsVersionMVCCSnapshot snapshot \<and> TransactionIdIsCurrentTransactionId env (t_xmin tup) then
              Some (case SatisfiesMVCC_own env tup snapshot of
                  Inl e \<Rightarrow> Inl e
                | Inr (v, write, tup') \<Rightarrow> Inr (Answer v write ((env, tup') # later)))
            else
              (case XidVisibleInSnapshot ws (t_xmin tup) snapshot of
                 None \<Rightarrow> None
               | Some (Inl e) \<Rightarrow> Some (Inl e)
               | Some (Inr (visible, hintstatus, _, ws)) \<Rightarrow>
                   (case set_hints hintstatus HEAP_XMIN_COMMITTED HEAP_XMIN_INVALID t_xmin ws of
                      Inl e \<Rightarrow> Some (Inl e)
                    | Inr ws \<Rightarrow>
                        if visible then Some (Inr (CheckXmax ws))
                        else (case gtm_lite_visible True ws (t_xmin (now_tuple ws)) snapshot hintstatus
                                (t_xmin (now_tuple ws) = t_xmax (now_tuple ws)) of
                            None \<Rightarrow> None
                          | Some (v, _, ws) \<Rightarrow> Some (Inr (if v then CheckXmax ws else Answer False False ws)))))
          else if \<not> HeapTupleHeaderXminFrozen tup then
            (case CommittedXidVisibleInSnapshot ws (t_xmin tup) snapshot of
               None \<Rightarrow> None
             | Some (Inl e) \<Rightarrow> Some (Inl e)
             | Some (Inr (visible, ws)) \<Rightarrow>
                 if visible then Some (Inr (CheckXmax ws))
                 else (case gtm_lite_visible False ws (t_xmin (now_tuple ws)) snapshot XID_COMMITTED
                         (t_xmin (now_tuple ws) = t_xmax (now_tuple ws)) of
                     None \<Rightarrow> None
                   | Some (v, _, ws) \<Rightarrow> Some (Inr (if v then CheckXmax ws else Answer False False ws))))
          else Some (Inr (CheckXmax ws)))"

text \<open>The loop at \<open>recheck_xmax\<close>: it starts again when \<open>xmax\<close> was changed by others during a wait.\<close>

definition SatisfiesMVCC_multi :: "worlds \<Rightarrow> SnapshotData \<Rightarrow> (bool \<times> bool \<times> worlds) waiting" where
  "SatisfiesMVCC_multi ws snapshot =
     (let env = now_env ws; tup = now_tuple ws; xmax = MultiXactGetUpdateXid env (t_xmax tup)
      in if TransactionIdIsCurrentTransactionId env xmax
         then Some (Inr (HeapTupleHeaderGetCmax env tup \<ge> curcid snapshot, False, ws))
         else case XidVisibleInSnapshot ws xmax snapshot of
             None \<Rightarrow> None
           | Some (Inl e) \<Rightarrow> Some (Inl e)
           | Some (Inr (visible, _, _, ws)) \<Rightarrow>
               if \<not> visible then Some (Inr (True, False, ws))
               else if TransactionIdDidCommit (now_env ws) xmax then
                 (case CommittedXidVisibleInSnapshot ws xmax snapshot of
                    None \<Rightarrow> None
                  | Some (Inl e) \<Rightarrow> Some (Inl e)
                  | Some (Inr (v, ws)) \<Rightarrow> Some (Inr (\<not> v, False, ws)))
               else Some (Inr (True, False, ws)))"

function SatisfiesMVCC_xmax :: "worlds \<Rightarrow> SnapshotData \<Rightarrow> (bool \<times> bool \<times> worlds) waiting" where
  "SatisfiesMVCC_xmax ws snapshot =
     (case ws of
        [] \<Rightarrow> None
      | (env, tup) # later \<Rightarrow>
          if has_info tup HEAP_XMAX_INVALID then Some (Inr (True, False, ws))
          else if HEAP_XMAX_IS_LOCKED_ONLY tup then Some (Inr (True, False, ws))
          else if has_info tup HEAP_XMAX_IS_MULTI then SatisfiesMVCC_multi ws snapshot
          else if \<not> has_info tup HEAP_XMAX_COMMITTED then
            if \<not> IsVersionMVCCSnapshot snapshot \<and> TransactionIdIsCurrentTransactionId env (t_xmax tup) then
              Some (Inr (HeapTupleHeaderGetCmax env tup \<ge> curcid snapshot,
                HeapTupleHeaderGetCmax env tup < curcid snapshot, ws))
            else
              (case XidVisibleInSnapshot ws (t_xmax tup) snapshot of
                 None \<Rightarrow> None
               | Some (Inl e) \<Rightarrow> Some (Inl e)
               | Some (Inr (visible, hintstatus, sync, ws1)) \<Rightarrow>
                   if sync \<and> t_xmax tup \<noteq> t_xmax (now_tuple ws1) then SatisfiesMVCC_xmax ws1 snapshot
                   else
                     (case set_hints hintstatus HEAP_XMAX_COMMITTED HEAP_XMAX_INVALID t_xmax ws1 of
                        Inl e \<Rightarrow> Some (Inl e)
                      | Inr ws2 \<Rightarrow>
                          if visible then Some (Inr (False, False, ws2))
                          else
                            (case gtm_lite_visible True ws2 (t_xmax (now_tuple ws2)) snapshot hintstatus False of
                               None \<Rightarrow> None
                             | Some (v, sync', ws3) \<Rightarrow>
                                 if v then Some (Inr (False, False, ws3))
                                 else if (sync \<or> sync') \<and> t_xmax tup \<noteq> t_xmax (now_tuple ws3)
                                 then SatisfiesMVCC_xmax ws3 snapshot
                                 else Some (Inr (True, False, ws3)))))
          else
            (case CommittedXidVisibleInSnapshot ws (t_xmax tup) snapshot of
               None \<Rightarrow> None
             | Some (Inl e) \<Rightarrow> Some (Inl e)
             | Some (Inr (visible, ws)) \<Rightarrow>
                 if visible then Some (Inr (False, False, ws))
                 else (case gtm_lite_visible False ws (t_xmax (now_tuple ws)) snapshot XID_COMMITTED False of
                     None \<Rightarrow> None
                   | Some (v, _, ws) \<Rightarrow> Some (Inr (\<not> v, False, ws)))))"
  by pat_completeness auto
termination
proof (relation "measure (\<lambda>(ws, snapshot). length ws)", goal_cases)
  case 1
  then show ?case by simp
next
  case (2 ws snapshot w later env tup)
  then show ?case by (auto simp: XidVisibleInSnapshot_def dest!: XidVisible_length)
next
  case (3 ws snapshot w later env tup)
  then show ?case
    by (auto simp: XidVisibleInSnapshot_def dest!: XidVisible_length set_hints_length gtm_lite_length)
qed

declare SatisfiesMVCC_xmax.simps [simp del]

text \<open>The result: the answer, \<open>*has_cur_xact_write\<close>, and the observations from the present on.\<close>

definition HeapTupleSatisfiesMVCC :: "worlds \<Rightarrow> SnapshotData \<Rightarrow> (bool \<times> bool \<times> worlds) waiting" where
  "HeapTupleSatisfiesMVCC ws snapshot =
     (if XactReadOnly (now_env ws) \<and> enable_show_any_tuples (now_env ws) then Some (Inr (True, False, ws))
      else case SatisfiesMVCC_xmin ws snapshot of
          None \<Rightarrow> None
        | Some (Inl e) \<Rightarrow> Some (Inl e)
        | Some (Inr (Answer v write ws)) \<Rightarrow> Some (Inr (v, write, ws))
        | Some (Inr (CheckXmax ws)) \<Rightarrow> SatisfiesMVCC_xmax ws snapshot)"

section \<open>Version snapshots\<close>

definition HeapTupleSatisfiesVersionMVCC :: "worlds \<Rightarrow> SnapshotData \<Rightarrow> (bool \<times> worlds) waiting" where
  "HeapTupleSatisfiesVersionMVCC ws snapshot =
     (case HeapTupleSatisfiesMVCC ws snapshot of
        None \<Rightarrow> None
      | Some (Inl e) \<Rightarrow> Some (Inl e)
      | Some (Inr (v, _, ws)) \<Rightarrow> Some (Inr (v, ws)))"

text \<open>\<open>HeapTupleSatisfiesNow\<close> on the present, which does not wait in a single-node build.\<close>

definition now_on_worlds :: "worlds \<Rightarrow> (bool \<times> bool \<times> worlds) result" where
  "now_on_worlds ws =
     (case HeapTupleSatisfiesNow (now_env ws) (now_tuple ws) of
        Inl e \<Rightarrow> Inl e
      | Inr (v, write, tup) \<Rightarrow> Inr (v, write, (now_env ws, tup) # tl ws))"

definition HeapTupleSatisfiesLost :: "worlds \<Rightarrow> SnapshotData \<Rightarrow> (bool \<times> worlds) waiting" where
  "HeapTupleSatisfiesLost ws snapshot =
     (case HeapTupleSatisfiesVersionMVCC ws snapshot of
        None \<Rightarrow> None
      | Some (Inl e) \<Rightarrow> Some (Inl e)
      | Some (Inr (v, ws)) \<Rightarrow>
          if \<not> v then Some (Inr (False, ws))
          else (case now_on_worlds ws of Inl e \<Rightarrow> Some (Inl e) | Inr (n, _, ws) \<Rightarrow> Some (Inr (\<not> n, ws))))"

definition HeapTupleSatisfiesDelta :: "worlds \<Rightarrow> SnapshotData \<Rightarrow> (bool \<times> worlds) waiting" where
  "HeapTupleSatisfiesDelta ws snapshot =
     (case HeapTupleSatisfiesVersionMVCC ws snapshot of
        None \<Rightarrow> None
      | Some (Inl e) \<Rightarrow> Some (Inl e)
      | Some (Inr (v, ws)) \<Rightarrow>
          if v then Some (Inr (False, ws))
          else (case now_on_worlds ws of Inl e \<Rightarrow> Some (Inl e) | Inr (n, _, ws) \<Rightarrow> Some (Inr (n, ws))))"

section \<open>Logical decoding\<close>

text \<open>
  The arrays of a historic snapshot are sorted, and \<open>bsearch\<close> finds an id exactly when it is in the array.
  \<open>tuplecids\<close> is \<open>ResolveCminCmaxDuringDecoding\<close> for this tuple: the command ids recorded for it, if any.
\<close>

definition TransactionIdInArray :: "TransactionId \<Rightarrow> TransactionId list \<Rightarrow> bool" where
  "TransactionIdInArray xid xids \<longleftrightarrow> xid \<in> set xids"

definition HistoricMVCC_xmin ::
  "xact_env \<Rightarrow> HeapTupleHeader \<Rightarrow> SnapshotData \<Rightarrow> (CommandId \<times> CommandId) option \<Rightarrow> bool result" where
  "HistoricMVCC_xmin env tup snapshot tuplecids =
     (if HeapTupleHeaderXminInvalid tup then Inr False
      else if TransactionIdInArray (t_xmin tup) (subxip snapshot) then
        (case tuplecids of
           None \<Rightarrow> Inl ERRCODE_NO_DATA_FOUND
         | Some (cmin, cmax) \<Rightarrow> Inr (\<not> cmin \<ge> curcid snapshot))
      else if TransactionIdPrecedes (t_xmin tup) (xmin snapshot) then
        Inr (\<not> (\<not> HeapTupleHeaderXminCommitted tup \<and> \<not> TransactionIdDidCommit env (t_xmin tup)))
      else if t_xmin tup \<ge> xmax snapshot then Inr False
      else if TransactionIdInArray (t_xmin tup) (xip snapshot) then Inr True
      else Inr False)"

definition HeapTupleSatisfiesHistoricMVCC ::
  "xact_env \<Rightarrow> HeapTupleHeader \<Rightarrow> SnapshotData \<Rightarrow> (CommandId \<times> CommandId) option \<Rightarrow> bool result" where
  "HeapTupleSatisfiesHistoricMVCC env tup snapshot tuplecids =
     (case HistoricMVCC_xmin env tup snapshot tuplecids of
        Inl e \<Rightarrow> Inl e
      | Inr v \<Rightarrow>
          if \<not> v then Inr False
          else if has_info tup HEAP_XMAX_INVALID then Inr True
          else if TransactionIdInArray (t_xmax tup) (subxip snapshot) then
            (case tuplecids of
               None \<Rightarrow> Inl ERRCODE_NO_DATA_FOUND
             | Some (cmin, cmax) \<Rightarrow> Inr (cmax \<ge> curcid snapshot))
          else if TransactionIdPrecedes (t_xmax tup) (xmin snapshot) then
            (if has_info tup HEAP_XMAX_COMMITTED then Inr False
             else Inr (\<not> TransactionIdDidCommit env (t_xmax tup)))
          else if t_xmax tup \<ge> xmax snapshot then Inr True
          else if TransactionIdInArray (t_xmax tup) (xip snapshot) then Inr False
          else Inr True)"

text \<open>
  The three tests of \<open>HeapTupleSatisfiesDecodeMVCC\<close> return \<open>Some visible\<close> when the visibility is
  determined (the C functions return true) and \<open>None\<close> otherwise.
\<close>

definition HeapTupleUncommitedXminCheckDecodeMVCC ::
  "worlds \<Rightarrow> SnapshotData \<Rightarrow> (bool option \<times> worlds) waiting" where
  "HeapTupleUncommitedXminCheckDecodeMVCC ws snapshot =
     (let env = now_env ws; tup = now_tuple ws
      in if HeapTupleHeaderXminInvalid tup then Some (Inr (Some False, ws))
         else if \<not> IsVersionMVCCSnapshot snapshot \<and> TransactionIdIsCurrentTransactionId env (t_xmin tup) then
           (if has_info tup HEAP_XMAX_INVALID \<or> HEAP_XMAX_IS_LOCKED_ONLY tup then Some (Inr (Some True, ws))
            else if \<not> TransactionIdIsCurrentTransactionId env (t_xmax tup)
            then Some (Inr (Some True, (env, SetHintBits env tup HEAP_XMAX_INVALID InvalidTransactionId) # tl ws))
            else Some (Inr (None, ws)))
         else
           (let (xidVisible, status) = XidVisibleInDecodeSnapshot env (t_xmin tup) snapshot
            in case set_hints status HEAP_XMIN_COMMITTED HEAP_XMIN_INVALID t_xmin ws of
                 Inl e \<Rightarrow> Some (Inl e)
               | Inr ws \<Rightarrow>
                   if xidVisible then Some (Inr (None, ws))
                   else (case gtm_lite_visible True ws (t_xmin tup) snapshot status (t_xmin tup = t_xmax tup) of
                       None \<Rightarrow> None
                     | Some (v, _, ws) \<Rightarrow> Some (Inr (if v then None else Some False, ws)))))"

definition HeapTupleCommitedXminCheckDecodeMVCC ::
  "worlds \<Rightarrow> SnapshotData \<Rightarrow> (bool option \<times> worlds) waiting" where
  "HeapTupleCommitedXminCheckDecodeMVCC ws snapshot =
     (let env = now_env ws; tup = now_tuple ws
      in if \<not> HeapTupleHeaderXminFrozen tup \<and> \<not> CommittedXidVisibleInDecodeSnapshot env (t_xmin tup) snapshot then
           (case gtm_lite_visible False ws (t_xmin tup) snapshot XID_COMMITTED (t_xmin tup = t_xmax tup) of
              None \<Rightarrow> None
            | Some (v, _, ws) \<Rightarrow> Some (Inr (if v then None else Some False, ws)))
         else Some (Inr (None, ws)))"

definition HeapTupleXmaxCheckDecodeMVCC ::
  "worlds \<Rightarrow> SnapshotData \<Rightarrow> (bool option \<times> worlds) waiting" where
  "HeapTupleXmaxCheckDecodeMVCC ws snapshot =
     (let env = now_env ws; tup = now_tuple ws
      in if has_info tup HEAP_XMAX_INVALID \<or> HEAP_XMAX_IS_LOCKED_ONLY tup \<or> has_info tup HEAP_XMAX_IS_MULTI
         then Some (Inr (Some True, ws))
         else if \<not> has_info tup HEAP_XMAX_COMMITTED then
           (let (xidVisible, status) = XidVisibleInDecodeSnapshot env (t_xmax tup) snapshot
            in case set_hints status HEAP_XMAX_COMMITTED HEAP_XMAX_INVALID t_xmax ws of
                 Inl e \<Rightarrow> Some (Inl e)
               | Inr ws \<Rightarrow>
                   if xidVisible then Some (Inr (None, ws))
                   else (case gtm_lite_visible True ws (t_xmax tup) snapshot status False of
                       None \<Rightarrow> None
                     | Some (v, _, ws) \<Rightarrow> Some (Inr (if v then None else Some True, ws))))
         else if \<not> CommittedXidVisibleInDecodeSnapshot env (t_xmax tup) snapshot then
           (case gtm_lite_visible False ws (t_xmax tup) snapshot XID_COMMITTED False of
              None \<Rightarrow> None
            | Some (v, _, ws) \<Rightarrow> Some (Inr (if v then None else Some True, ws)))
         else Some (Inr (None, ws)))"

definition HeapTupleSatisfiesDecodeMVCC :: "worlds \<Rightarrow> SnapshotData \<Rightarrow> (bool \<times> worlds) waiting" where
  "HeapTupleSatisfiesDecodeMVCC ws snapshot =
     (if XactReadOnly (now_env ws) \<and> enable_show_any_tuples (now_env ws) then Some (Inr (True, ws))
      else case (if \<not> HeapTupleHeaderXminCommitted (now_tuple ws) then HeapTupleUncommitedXminCheckDecodeMVCC ws snapshot
                 else HeapTupleCommitedXminCheckDecodeMVCC ws snapshot) of
          None \<Rightarrow> None
        | Some (Inl e) \<Rightarrow> Some (Inl e)
        | Some (Inr (Some visible, ws)) \<Rightarrow> Some (Inr (visible, ws))
        | Some (Inr (None, ws)) \<Rightarrow>
            (case HeapTupleXmaxCheckDecodeMVCC ws snapshot of
               None \<Rightarrow> None
             | Some (Inl e) \<Rightarrow> Some (Inl e)
             | Some (Inr (Some visible, ws)) \<Rightarrow> Some (Inr (visible, ws))
             | Some (Inr (None, ws)) \<Rightarrow> Some (Inr (False, ws))))"

section \<open>The dispatcher\<close>

text \<open>
  The answer, \<open>*has_cur_xact_write\<close>, the snapshot (\<open>SNAPSHOT_DIRTY\<close> writes its \<open>xmin\<close> and \<open>xmax\<close>) and the
  observations from the present on.
\<close>

definition HeapTupleSatisfiesVisibility ::
  "worlds \<Rightarrow> SnapshotData \<Rightarrow> (CommandId \<times> CommandId) option \<Rightarrow> (bool \<times> bool \<times> SnapshotData \<times> worlds) waiting" where
  "HeapTupleSatisfiesVisibility ws snapshot tuplecids =
     (let env = now_env ws; tup = now_tuple ws;
          lift = (\<lambda>r. case r of None \<Rightarrow> None | Some (Inl e) \<Rightarrow> Some (Inl e)
                     | Some (Inr (v, ws)) \<Rightarrow> Some (Inr (v, False, snapshot, ws)));
          lift_write = (\<lambda>r. case r of None \<Rightarrow> None | Some (Inl e) \<Rightarrow> Some (Inl e)
                     | Some (Inr (v, write, ws)) \<Rightarrow> Some (Inr (v, write, snapshot, ws)))
      in case satisfies snapshot of
           SNAPSHOT_MVCC \<Rightarrow> lift_write (HeapTupleSatisfiesMVCC ws snapshot)
         | SNAPSHOT_VERSION_MVCC \<Rightarrow> lift (HeapTupleSatisfiesVersionMVCC ws snapshot)
         | SNAPSHOT_DELTA \<Rightarrow> lift (HeapTupleSatisfiesDelta ws snapshot)
         | SNAPSHOT_LOST \<Rightarrow> lift (HeapTupleSatisfiesLost ws snapshot)
         | SNAPSHOT_NOW \<Rightarrow> lift_write (Some (now_on_worlds ws))
         | SNAPSHOT_SELF \<Rightarrow>
             (case HeapTupleSatisfiesSelf env tup of
                Inl e \<Rightarrow> Some (Inl e)
              | Inr (v, tup) \<Rightarrow> Some (Inr (v, False, snapshot, (env, tup) # tl ws)))
         | SNAPSHOT_ANY \<Rightarrow> Some (Inr (HeapTupleSatisfiesAny tup, False, snapshot, ws))
         | SNAPSHOT_TOAST \<Rightarrow> Some (Inr (HeapTupleSatisfiesToast tup, False, snapshot, ws))
         | SNAPSHOT_DIRTY \<Rightarrow>
             (case HeapTupleSatisfiesDirty env tup of
                Inl e \<Rightarrow> Some (Inl e)
              | Inr d \<Rightarrow> Some (Inr (d_visible d, False, snapshot\<lparr>xmin := d_xmin d, xmax := d_xmax d\<rparr>,
                  (env, d_tuple d) # tl ws)))
         | SNAPSHOT_HISTORIC_MVCC \<Rightarrow>
             (case HeapTupleSatisfiesHistoricMVCC env tup snapshot tuplecids of
                Inl e \<Rightarrow> Some (Inl e)
              | Inr v \<Rightarrow> Some (Inr (v, False, snapshot, ws)))
         | SNAPSHOT_DECODE_MVCC \<Rightarrow> lift (HeapTupleSatisfiesDecodeMVCC ws snapshot))"

definition HeapTupleCheckVisible ::
  "bool \<Rightarrow> worlds \<Rightarrow> SnapshotData \<Rightarrow> (CommandId \<times> CommandId) option \<Rightarrow> worlds waiting" where
  "HeapTupleCheckVisible isolation_uses_xact_snapshot ws snapshot tuplecids =
     (if \<not> isolation_uses_xact_snapshot then Some (Inr ws)
      else case HeapTupleSatisfiesVisibility ws snapshot tuplecids of
          None \<Rightarrow> None
        | Some (Inl e) \<Rightarrow> Some (Inl e)
        | Some (Inr (v, _, _, ws)) \<Rightarrow>
            if \<not> v \<and> \<not> TransactionIdIsCurrentTransactionId (now_env ws) (t_xmin (now_tuple ws))
            then Some (Inl ERRCODE_T_R_SERIALIZATION_FAILURE)
            else Some (Inr ws))"

end
