(* ===== verification/Visibility.thy ===== *)
theory Visibility
  imports Visibility_Checks
begin

text \<open>
  What the visibility routines decide. A tuple is described by who inserted it and who, if anybody,
  updated or deleted it; a transaction is the current one, in progress, finished by commit (\<open>xid_done\<close>)
  or finished otherwise (\<open>xid_gone\<close>). \<open>hints_ok\<close> says that the hint bits of a header agree with the
  transaction system. Under it each routine computes its specification, which does not mention hint
  bits, and leaves a header whose hint bits are right again.
\<close>

section \<open>The state of a tuple\<close>

definition xid_done :: "xact_env \<Rightarrow> TransactionId \<Rightarrow> bool" where
  "xid_done env x \<longleftrightarrow> TransactionIdDidCommit env x \<and> \<not> TransactionIdIsInProgress env x \<and>
     \<not> TransactionIdIsCurrentTransactionId env x"

definition xid_gone :: "xact_env \<Rightarrow> TransactionId \<Rightarrow> bool" where
  "xid_gone env x \<longleftrightarrow> \<not> TransactionIdDidCommit env x \<and> \<not> TransactionIdIsInProgress env x \<and>
     \<not> TransactionIdIsCurrentTransactionId env x"

definition updater :: "xact_env \<Rightarrow> HeapTupleHeader \<Rightarrow> TransactionId option" where
  "updater env t =
     (if HEAP_XMAX_IS_LOCKED_ONLY t then None
      else if has_info t HEAP_XMAX_IS_MULTI then Some (MultiXactGetUpdateXid env (t_xmax t))
      else Some (t_xmax t))"

definition inserted :: "xact_env \<Rightarrow> HeapTupleHeader \<Rightarrow> bool" where
  "inserted env t \<longleftrightarrow> HeapTupleHeaderXminFrozen t \<or> xid_done env (t_xmin t)"

definition own_insert :: "xact_env \<Rightarrow> HeapTupleHeader \<Rightarrow> bool" where
  "own_insert env t \<longleftrightarrow> \<not> HeapTupleHeaderXminFrozen t \<and> TransactionIdIsCurrentTransactionId env (t_xmin t)"

definition hints_ok :: "xact_env \<Rightarrow> HeapTupleHeader \<Rightarrow> bool" where
  "hints_ok env t \<longleftrightarrow>
     (HeapTupleHeaderXminCommitted t \<and> \<not> HeapTupleHeaderXminFrozen t \<longrightarrow> xid_done env (t_xmin t)) \<and>
     (HeapTupleHeaderXminInvalid t \<longrightarrow> xid_gone env (t_xmin t)) \<and>
     (has_info t HEAP_XMAX_COMMITTED \<longrightarrow> (\<forall>x. updater env t = Some x \<longrightarrow> xid_done env x)) \<and>
     (has_info t HEAP_XMAX_INVALID \<longrightarrow> (\<forall>x. updater env t = Some x \<longrightarrow> xid_gone env x))"

text \<open>
  Nobody else sees a tuple that the current transaction has inserted and not committed, so it was
  updated by the current transaction or by an aborted subtransaction of it.
\<close>

definition own_ok :: "xact_env \<Rightarrow> HeapTupleHeader \<Rightarrow> bool" where
  "own_ok env t \<longleftrightarrow> (own_insert env t \<longrightarrow>
     (\<forall>x. updater env t = Some x \<longrightarrow> TransactionIdIsCurrentTransactionId env x \<or> xid_gone env x))"

text \<open>The header apart from its hint bits.\<close>

definition same_but_hints :: "HeapTupleHeader \<Rightarrow> HeapTupleHeader \<Rightarrow> bool" where
  "same_but_hints t t' \<longleftrightarrow> t_xmin t' = t_xmin t \<and> t_xmax t' = t_xmax t \<and> t_cid t' = t_cid t \<and>
     t_ctid t' = t_ctid t \<and> t_infomask2 t' = t_infomask2 t \<and>
     HeapTupleHeaderXminFrozen t' = HeapTupleHeaderXminFrozen t \<and>
     (\<forall>j. j \<notin> {8, 9, 10, 11} \<longrightarrow> bit (t_infomask t') j = bit (t_infomask t) j)"

lemma same_but_hints_refl [simp]: "same_but_hints t t"
  by (simp add: same_but_hints_def)

lemma same_but_hints_trans: "same_but_hints t t' \<Longrightarrow> same_but_hints t' t'' \<Longrightarrow> same_but_hints t t''"
  by (simp add: same_but_hints_def)

lemma same_but_hints_views:
  assumes "same_but_hints t t'"
  shows "updater env t' = updater env t" and "inserted env t' = inserted env t"
    and "own_insert env t' = own_insert env t" and "own_ok env t' = own_ok env t"
    and "HeapTupleHeaderGetCmin env t' = HeapTupleHeaderGetCmin env t"
    and "HeapTupleHeaderGetCmax env t' = HeapTupleHeaderGetCmax env t"
    and "HEAP_XMAX_IS_LOCKED_ONLY t' = HEAP_XMAX_IS_LOCKED_ONLY t"
    and "has_info t' HEAP_XMAX_IS_MULTI = has_info t HEAP_XMAX_IS_MULTI"
    and "t_xmin t' = t_xmin t" and "t_xmax t' = t_xmax t" and "t_ctid t' = t_ctid t"
proof -
  show locked: "HEAP_XMAX_IS_LOCKED_ONLY t' = HEAP_XMAX_IS_LOCKED_ONLY t"
    and multi: "has_info t' HEAP_XMAX_IS_MULTI = has_info t HEAP_XMAX_IS_MULTI"
    using assms by (simp_all add: same_but_hints_def locked_only_bits has_info_bit)
  show up: "updater env t' = updater env t"
    using assms locked multi by (simp add: updater_def same_but_hints_def)
  show own: "own_insert env t' = own_insert env t" and "inserted env t' = inserted env t"
    using assms by (simp_all add: own_insert_def inserted_def same_but_hints_def)
  show "own_ok env t' = own_ok env t" using own up by (simp add: own_ok_def)
  show "HeapTupleHeaderGetCmin env t' = HeapTupleHeaderGetCmin env t"
    and "HeapTupleHeaderGetCmax env t' = HeapTupleHeaderGetCmax env t"
    using assms by (simp_all add: same_but_hints_def HeapTupleHeaderGetCmin_def HeapTupleHeaderGetCmax_def has_info_bit)
  show "t_xmin t' = t_xmin t" and "t_xmax t' = t_xmax t" and "t_ctid t' = t_ctid t"
    using assms by (simp_all add: same_but_hints_def)
qed

text \<open>Setting a hint bit that is true keeps the hint bits right.\<close>

definition good_hint :: "xact_env \<Rightarrow> HeapTupleHeader \<Rightarrow> HeapTupleHeader \<Rightarrow> bool" where
  "good_hint env t t' \<longleftrightarrow> hints_ok env t' \<and> same_but_hints t t'"

lemma good_hint_refl [simp]: "hints_ok env t \<Longrightarrow> good_hint env t t"
  by (simp add: good_hint_def)

lemma good_hint_trans: "good_hint env t t' \<Longrightarrow> good_hint env t' t'' \<Longrightarrow> good_hint env t t''"
  by (auto simp: good_hint_def intro: same_but_hints_trans)

lemma SetHintBits_same:
  "\<not> bit (t_infomask t) 9 \<or> bit (t_infomask t) 8 \<Longrightarrow> same_but_hints t (SetHintBits env t HEAP_XMIN_COMMITTED x)"
  "\<not> bit (t_infomask t) 8 \<Longrightarrow> same_but_hints t (SetHintBits env t HEAP_XMIN_INVALID x)"
  "same_but_hints t (SetHintBits env t HEAP_XMAX_COMMITTED x)"
  "same_but_hints t (SetHintBits env t HEAP_XMAX_INVALID x)"
proof -
  have keep: "bit (t_infomask t) 8 \<Longrightarrow> bit (t_infomask (SetHintBits env t HEAP_XMIN_COMMITTED x)) 8"
    unfolding infomask_powers by (rule SetHintBits_bit(2)) simp
  show "\<not> bit (t_infomask t) 9 \<or> bit (t_infomask t) 8 \<Longrightarrow> same_but_hints t (SetHintBits env t HEAP_XMIN_COMMITTED x)"
    using keep by (auto simp: same_but_hints_def xmin_flags SetHintBits_other_bits)
  show "\<not> bit (t_infomask t) 8 \<Longrightarrow> same_but_hints t (SetHintBits env t HEAP_XMIN_INVALID x)"
    "same_but_hints t (SetHintBits env t HEAP_XMAX_COMMITTED x)"
    "same_but_hints t (SetHintBits env t HEAP_XMAX_INVALID x)"
    by (auto simp: same_but_hints_def xmin_flags SetHintBits_other_bits)
qed

lemma good_xmin_committed:
  assumes "hints_ok env t" and "\<not> HeapTupleHeaderXminCommitted t" and "\<not> HeapTupleHeaderXminInvalid t"
    and "xid_done env (t_xmin t)"
  shows "good_hint env t (SetHintBits env t HEAP_XMIN_COMMITTED x)"
proof -
  let ?t = "SetHintBits env t HEAP_XMIN_COMMITTED x"
  have same: "same_but_hints t ?t" using assms(2,3) by (intro SetHintBits_same) (simp add: xmin_flags)
  note v = same_but_hints_views [OF same]
  have "hints_ok env ?t"
    using assms SetHintBits_other_bits(1) [of _ env t x] v
    by (auto simp: hints_ok_def has_info_bit xmin_flags)
  with same show ?thesis by (simp add: good_hint_def)
qed

lemma good_xmin_invalid:
  assumes "hints_ok env t" and "\<not> HeapTupleHeaderXminCommitted t" and "xid_gone env (t_xmin t)"
  shows "good_hint env t (SetHintBits env t HEAP_XMIN_INVALID x)"
proof -
  let ?t = "SetHintBits env t HEAP_XMIN_INVALID x"
  have same: "same_but_hints t ?t" using assms(2) by (intro SetHintBits_same) (simp add: xmin_flags)
  note v = same_but_hints_views [OF same]
  have "hints_ok env ?t"
    using assms SetHintBits_other_bits(2) [of _ env t x] v
    by (auto simp: hints_ok_def has_info_bit xmin_flags)
  with same show ?thesis by (simp add: good_hint_def)
qed

lemma good_xmax_committed:
  assumes "hints_ok env t" and "\<And>y. updater env t = Some y \<Longrightarrow> xid_done env y"
  shows "good_hint env t (SetHintBits env t HEAP_XMAX_COMMITTED x)"
proof -
  let ?t = "SetHintBits env t HEAP_XMAX_COMMITTED x"
  have same: "same_but_hints t ?t" by (rule SetHintBits_same)
  note v = same_but_hints_views [OF same]
  have "hints_ok env ?t"
    using assms SetHintBits_other_bits(3) [of _ env t x] v
    by (auto simp: hints_ok_def has_info_bit xmin_flags)
  with same show ?thesis by (simp add: good_hint_def)
qed

lemma good_xmax_invalid:
  assumes "hints_ok env t" and "\<And>y. updater env t = Some y \<Longrightarrow> xid_gone env y"
  shows "good_hint env t (SetHintBits env t HEAP_XMAX_INVALID x)"
proof -
  let ?t = "SetHintBits env t HEAP_XMAX_INVALID x"
  have same: "same_but_hints t ?t" by (rule SetHintBits_same)
  note v = same_but_hints_views [OF same]
  have "hints_ok env ?t"
    using assms SetHintBits_other_bits(4) [of _ env t x] v
    by (auto simp: hints_ok_def has_info_bit xmin_flags)
  with same show ?thesis by (simp add: good_hint_def)
qed

lemma hints_xmax:
  assumes "hints_ok env t" and "updater env t = Some x"
  shows "has_info t HEAP_XMAX_COMMITTED \<Longrightarrow> xid_done env x" and "has_info t HEAP_XMAX_INVALID \<Longrightarrow> xid_gone env x"
  using assms by (simp_all add: hints_ok_def)

lemma hints_xmin:
  assumes "hints_ok env t"
  shows "HeapTupleHeaderXminCommitted t \<Longrightarrow> inserted env t" and "HeapTupleHeaderXminInvalid t \<Longrightarrow> xid_gone env (t_xmin t)"
    and "HeapTupleHeaderXminCommitted t \<Longrightarrow> \<not> own_insert env t"
  using assms by (auto simp: hints_ok_def inserted_def own_insert_def xid_done_def)

lemma frozen_committed: "HeapTupleHeaderXminFrozen t \<Longrightarrow> HeapTupleHeaderXminCommitted t"
  by (simp add: xmin_flags)

lemma frozen_not_invalid: "HeapTupleHeaderXminFrozen t \<Longrightarrow> \<not> HeapTupleHeaderXminInvalid t"
  by (simp add: xmin_flags)

section \<open>Self\<close>

text \<open>Deleted, as far as the current transaction and the committed ones are concerned.\<close>

definition deleted_self :: "xact_env \<Rightarrow> HeapTupleHeader \<Rightarrow> bool" where
  "deleted_self env t \<longleftrightarrow>
     (case updater env t of None \<Rightarrow> False | Some x \<Rightarrow> TransactionIdIsCurrentTransactionId env x \<or> xid_done env x)"

definition visible_self :: "xact_env \<Rightarrow> HeapTupleHeader \<Rightarrow> bool" where
  "visible_self env t \<longleftrightarrow> (own_insert env t \<or> inserted env t) \<and> \<not> deleted_self env t"

text \<open>The only way to an error: a finished transaction that did not commit and is not known aborted.\<close>

definition status_unknown :: "xact_env \<Rightarrow> HeapTupleHeader \<Rightarrow> bool" where
  "status_unknown env t \<longleftrightarrow> (\<exists>x \<in> {t_xmin t, t_xmax t}. xid_gone env x \<and> \<not> LatestFetchTransactionIdDidAbort env x)"

lemma updater_cases:
  obtains (locked) "HEAP_XMAX_IS_LOCKED_ONLY t" "updater env t = None"
  | (multi) "\<not> HEAP_XMAX_IS_LOCKED_ONLY t" "has_info t HEAP_XMAX_IS_MULTI"
      "updater env t = Some (MultiXactGetUpdateXid env (t_xmax t))"
  | (plain) "\<not> HEAP_XMAX_IS_LOCKED_ONLY t" "\<not> has_info t HEAP_XMAX_IS_MULTI" "updater env t = Some (t_xmax t)"
  by (auto simp: updater_def split: if_splits)

lemma self_xmax:
  assumes "hints_ok env t"
  shows "case SatisfiesSelf_xmax env t of
      Inl e \<Rightarrow> xid_gone env (t_xmax t) \<and> \<not> LatestFetchTransactionIdDidAbort env (t_xmax t)
    | Inr (v, t') \<Rightarrow> v = (\<not> deleted_self env t) \<and> good_hint env t t'"
proof (cases rule: updater_cases [of t env])
  case locked
  with assms show ?thesis
    by (auto simp: SatisfiesSelf_xmax_def deleted_self_def status_error_def xid_gone_def intro: good_xmax_invalid)
next
  case multi
  with assms hints_xmax [OF assms multi(3)] show ?thesis
    by (auto simp: SatisfiesSelf_xmax_def deleted_self_def Let_def xid_done_def xid_gone_def)
next
  case plain
  with assms hints_xmax [OF assms plain(3)] show ?thesis
    by (auto simp: SatisfiesSelf_xmax_def deleted_self_def status_error_def xid_done_def xid_gone_def
        intro: good_xmax_invalid good_xmax_committed)
qed

lemma deal_current:
  assumes "hints_ok env t" and "own_ok env t" and "own_insert env t"
  shows "case DealCurrentTansactionNotCommited env t of (v, t') \<Rightarrow> v = (\<not> deleted_self env t) \<and> good_hint env t t'"
proof (cases rule: updater_cases [of t env])
  case locked
  with assms show ?thesis by (auto simp: DealCurrentTansactionNotCommited_def deleted_self_def)
next
  case multi
  with assms hints_xmax [OF assms(1) multi(3)] show ?thesis
    by (auto simp: DealCurrentTansactionNotCommited_def deleted_self_def own_ok_def xid_done_def xid_gone_def)
next
  case plain
  with assms hints_xmax [OF assms(1) plain(3)] show ?thesis
    by (auto simp: DealCurrentTansactionNotCommited_def deleted_self_def own_ok_def xid_done_def xid_gone_def
        intro: good_xmax_invalid)
qed

text \<open>
  The part that all routines share: what is known of the inserting transaction after the first test.
\<close>

lemma xmin_cases:
  assumes "hints_ok env t"
  obtains (invalid) "\<not> HeapTupleHeaderXminCommitted t" "HeapTupleHeaderXminInvalid t"
      "\<not> inserted env t" "\<not> own_insert env t" "xid_gone env (t_xmin t)"
  | (own) "\<not> HeapTupleHeaderXminCommitted t" "\<not> HeapTupleHeaderXminInvalid t"
      "TransactionIdIsCurrentTransactionId env (t_xmin t)" "own_insert env t"
  | (in_progress) "\<not> HeapTupleHeaderXminCommitted t" "\<not> HeapTupleHeaderXminInvalid t"
      "\<not> TransactionIdIsCurrentTransactionId env (t_xmin t)" "TransactionIdIsInProgress env (t_xmin t)"
      "\<not> inserted env t" "\<not> own_insert env t"
  | (committed) "\<not> HeapTupleHeaderXminCommitted t" "\<not> HeapTupleHeaderXminInvalid t" "xid_done env (t_xmin t)"
      "inserted env t" "\<not> own_insert env t"
  | (aborted) "\<not> HeapTupleHeaderXminCommitted t" "\<not> HeapTupleHeaderXminInvalid t" "xid_gone env (t_xmin t)"
      "\<not> inserted env t" "\<not> own_insert env t"
  | (hinted) "HeapTupleHeaderXminCommitted t" "inserted env t" "\<not> own_insert env t"
proof (cases "HeapTupleHeaderXminCommitted t")
  case True
  then show ?thesis using hints_xmin [OF assms] hinted by blast
next
  case False
  then have nf: "\<not> HeapTupleHeaderXminFrozen t" using frozen_committed by blast
  show ?thesis
  proof (cases "HeapTupleHeaderXminInvalid t")
    case True
    then show ?thesis using False nf hints_xmin(2) [OF assms] invalid
      by (auto simp: inserted_def own_insert_def xid_done_def xid_gone_def)
  next
    case ni: False
    then show ?thesis using False nf own in_progress committed aborted
      by (auto simp: inserted_def own_insert_def xid_done_def xid_gone_def)
  qed
qed

lemma self_views:
  assumes "same_but_hints t t'"
  shows "deleted_self env t' = deleted_self env t" and "visible_self env t' = visible_self env t"
  using same_but_hints_views [OF assms] by (simp_all add: deleted_self_def visible_self_def)

text \<open>
  C27. \<open>HeapTupleSatisfiesSelf\<close>: when the hint bits agree with the transaction system, the answer
  is that of the specification \<open>visible_self\<close>, which reads no hint bit: the tuple was inserted by
  the current or by a committed transaction and is not deleted by the current or by a committed
  transaction. Only hint bits are changed, and they agree with the transaction system again. The one
  error is a finished transaction whose fate is unknown.
\<close>

theorem HeapTupleSatisfiesSelf_correct:
  assumes "hints_ok env t" and "own_ok env t"
  shows "case HeapTupleSatisfiesSelf env t of
      Inl e \<Rightarrow> status_unknown env t
    | Inr (v, t') \<Rightarrow> v = visible_self env t \<and> good_hint env t t'"
  using assms(1)
proof (cases rule: xmin_cases)
  case invalid
  with assms show ?thesis by (simp add: HeapTupleSatisfiesSelf_def visible_self_def)
next
  case own
  with deal_current [OF assms own(4)] show ?thesis
    by (auto simp: HeapTupleSatisfiesSelf_def visible_self_def split: prod.splits)
next
  case in_progress
  with assms show ?thesis by (simp add: HeapTupleSatisfiesSelf_def visible_self_def)
next
  case committed
  let ?t = "SetHintBits env t HEAP_XMIN_COMMITTED (t_xmin t)"
  have good: "good_hint env t ?t" by (rule good_xmin_committed) (use assms committed in auto)
  then have t: "hints_ok env ?t" "same_but_hints t ?t" by (simp_all add: good_hint_def)
  show ?thesis
    using self_xmax [OF t(1)] committed good self_views [OF t(2), of env]
    by (auto simp: HeapTupleSatisfiesSelf_def visible_self_def status_unknown_def xid_done_def
        split: sum.splits prod.splits intro: good_hint_trans)
next
  case aborted
  with assms show ?thesis
    by (auto simp: HeapTupleSatisfiesSelf_def visible_self_def status_unknown_def status_error_def xid_gone_def
        intro: good_xmin_invalid)
next
  case hinted
  with self_xmax [OF assms(1)] show ?thesis
    by (auto simp: HeapTupleSatisfiesSelf_def visible_self_def status_unknown_def split: sum.splits prod.splits)
qed

lemmas sample_simps = sample_env_def sample_tuple_def hints_ok_def own_ok_def own_insert_def updater_def
  xid_done_def xid_gone_def inserted_def HeapTupleHeaderXminCommitted_def HeapTupleHeaderXminInvalid_def
  HeapTupleHeaderXminFrozen_def HEAP_XMAX_IS_LOCKED_ONLY_def has_info_def infomask_bits

theorem HeapTupleSatisfiesSelf_witness:
  "case HeapTupleSatisfiesSelf sample_env (sample_tuple 10 20 0 0) of
     Inl e \<Rightarrow> status_unknown sample_env (sample_tuple 10 20 0 0)
   | Inr (v, t') \<Rightarrow> v = visible_self sample_env (sample_tuple 10 20 0 0) \<and>
       good_hint sample_env (sample_tuple 10 20 0 0) t'"
  by (rule HeapTupleSatisfiesSelf_correct) (simp_all add: sample_simps)

section \<open>Now\<close>

text \<open>What the code relies on: the invalid transaction id is no transaction.\<close>

definition env_ok :: "xact_env \<Rightarrow> bool" where
  "env_ok env \<longleftrightarrow> \<not> TransactionIdIsCurrentTransactionId env InvalidTransactionId \<and>
     \<not> TransactionIdDidCommit env InvalidTransactionId"

definition deleted_now :: "xact_env \<Rightarrow> HeapTupleHeader \<Rightarrow> bool" where
  "deleted_now env t \<longleftrightarrow>
     (case updater env t of
        None \<Rightarrow> False
      | Some x \<Rightarrow> if TransactionIdIsCurrentTransactionId env x
          then HeapTupleHeaderGetCmax env t < GetCurrentCommandId env
          else xid_done env x)"

definition visible_now :: "xact_env \<Rightarrow> HeapTupleHeader \<Rightarrow> bool" where
  "visible_now env t \<longleftrightarrow>
     (own_insert env t \<and> HeapTupleHeaderGetCmin env t < GetCurrentCommandId env \<or> inserted env t) \<and>
     \<not> deleted_now env t"

text \<open>
  A tuple of the current transaction whose \<open>xmax\<close> is a multixact with the current transaction as its
  updater: the routine does not look at the deleting command.
\<close>

definition own_multi_update :: "xact_env \<Rightarrow> HeapTupleHeader \<Rightarrow> bool" where
  "own_multi_update env t \<longleftrightarrow> own_insert env t \<and> has_info t HEAP_XMAX_IS_MULTI \<and>
     (case updater env t of None \<Rightarrow> False | Some x \<Rightarrow> TransactionIdIsCurrentTransactionId env x)"

lemma now_views:
  assumes "same_but_hints t t'"
  shows "deleted_now env t' = deleted_now env t" and "visible_now env t' = visible_now env t"
    and "own_multi_update env t' = own_multi_update env t"
  using same_but_hints_views [OF assms] by (simp_all add: deleted_now_def visible_now_def own_multi_update_def cong: option.case_cong)

lemma now_xmax:
  assumes "hints_ok env t" and "env_ok env"
  shows "case SatisfiesNow_xmax env t of
      Inl e \<Rightarrow> xid_gone env (t_xmax t) \<and> \<not> LatestFetchTransactionIdDidAbort env (t_xmax t)
    | Inr (v, w, t') \<Rightarrow> v = (\<not> deleted_now env t) \<and> good_hint env t t'"
proof (cases rule: updater_cases [of t env])
  case locked
  with assms show ?thesis
    by (auto simp: SatisfiesNow_xmax_def deleted_now_def status_error_def xid_gone_def Let_def intro: good_xmax_invalid)
next
  case multi
  with assms hints_xmax [OF assms(1) multi(3)] show ?thesis
    by (auto simp: SatisfiesNow_xmax_def deleted_now_def Let_def xid_done_def xid_gone_def env_ok_def
        TransactionIdIsValid_def)
next
  case plain
  with assms hints_xmax [OF assms(1) plain(3)] show ?thesis
    by (auto simp: SatisfiesNow_xmax_def deleted_now_def status_error_def xid_done_def xid_gone_def Let_def
        intro: good_xmax_invalid good_xmax_committed)
qed

lemma now_own:
  assumes "hints_ok env t" and "own_ok env t" and "own_insert env t" and "env_ok env"
  shows "case SatisfiesNow_own env t of (v, w, t') \<Rightarrow>
    v = (HeapTupleHeaderGetCmin env t < GetCurrentCommandId env \<and> \<not> deleted_now env t \<and> \<not> own_multi_update env t) \<and>
    w = (HeapTupleHeaderGetCmin env t < GetCurrentCommandId env) \<and> good_hint env t t'"
proof (cases rule: updater_cases [of t env])
  case locked
  with assms show ?thesis
    by (auto simp: SatisfiesNow_own_def deleted_now_def own_multi_update_def Let_def)
next
  case multi
  with assms hints_xmax [OF assms(1) multi(3)] show ?thesis
    by (auto simp: SatisfiesNow_own_def deleted_now_def own_multi_update_def own_ok_def xid_done_def xid_gone_def
        Let_def env_ok_def TransactionIdIsValid_def)
next
  case plain
  with assms hints_xmax [OF assms(1) plain(3)] show ?thesis
    by (auto simp: SatisfiesNow_own_def deleted_now_def own_multi_update_def own_ok_def xid_done_def xid_gone_def
        Let_def intro: good_xmax_invalid)
qed

lemma now_xmin_flags:
  "has_info t HEAP_XMIN_COMMITTED = HeapTupleHeaderXminCommitted t"
  "\<not> HeapTupleHeaderXminCommitted t \<Longrightarrow> has_info t HEAP_XMIN_INVALID = HeapTupleHeaderXminInvalid t"
  by (simp_all add: has_info_bit xmin_flags)

lemma now_core:
  assumes "hints_ok env t" and "own_ok env t" and "env_ok env"
  shows "case HeapTupleSatisfiesNow env t of
      Inl e \<Rightarrow> status_unknown env t
    | Inr (v, w, t') \<Rightarrow> v = (visible_now env t \<and> \<not> own_multi_update env t) \<and> good_hint env t t'"
  using assms(1)
proof (cases rule: xmin_cases)
  case invalid
  with assms show ?thesis by (simp add: HeapTupleSatisfiesNow_def visible_now_def now_xmin_flags)
next
  case own
  then have "\<not> inserted env t" by (auto simp: inserted_def own_insert_def xid_done_def)
  with own now_own [OF assms(1,2) own(4) assms(3)] show ?thesis
    by (auto simp: HeapTupleSatisfiesNow_def visible_now_def now_xmin_flags split: prod.splits)
next
  case in_progress
  with assms show ?thesis by (simp add: HeapTupleSatisfiesNow_def visible_now_def now_xmin_flags)
next
  case committed
  let ?t = "SetHintBits env t HEAP_XMIN_COMMITTED (t_xmin t)"
  have good: "good_hint env t ?t" by (rule good_xmin_committed) (use assms committed in auto)
  then have t: "hints_ok env ?t" "same_but_hints t ?t" by (simp_all add: good_hint_def)
  have "\<not> own_multi_update env t" using committed by (simp add: own_multi_update_def)
  then show ?thesis
    using now_xmax [OF t(1) assms(3)] committed good now_views [OF t(2), of env]
    by (auto simp: HeapTupleSatisfiesNow_def now_xmin_flags visible_now_def status_unknown_def xid_done_def
        split: sum.splits prod.splits intro: good_hint_trans)
next
  case aborted
  with assms show ?thesis
    by (auto simp: HeapTupleSatisfiesNow_def visible_now_def now_xmin_flags status_unknown_def status_error_def
        xid_gone_def intro: good_xmin_invalid)
next
  case hinted
  then have "\<not> own_multi_update env t" by (simp add: own_multi_update_def)
  with hinted now_xmax [OF assms(1,3)] show ?thesis
    by (auto simp: HeapTupleSatisfiesNow_def visible_now_def now_xmin_flags status_unknown_def
        split: sum.splits prod.splits)
qed

text \<open>
  C26. \<open>HeapTupleSatisfiesNow\<close>: with right hint bits the answer is the one of the comment before the
  routine, \<open>visible_now\<close>: inserted by an earlier command of the current transaction or by a committed
  one, and not deleted by an earlier command or by a committed transaction. The exception is a tuple of the
  current transaction with a multixact \<open>xmax\<close> that names it as the updater: it is invisible
  although the deleting command may not have started. Only true hint bits are set.
\<close>

theorem HeapTupleSatisfiesNow_correct:
  assumes "hints_ok env t" and "own_ok env t" and "env_ok env"
  shows "case HeapTupleSatisfiesNow env t of
      Inl e \<Rightarrow> status_unknown env t
    | Inr (v, w, t') \<Rightarrow> v = (visible_now env t \<and> \<not> own_multi_update env t) \<and> good_hint env t t'"
  by (rule now_core) (fact assms)+

text \<open>The exception: deleted by command 9 through multixact 8, seen by command 6.\<close>

theorem HeapTupleSatisfiesNow_witness:
  "let env = sample_env\<lparr>comboCids := [(3, 9)]\<rparr>; t = sample_tuple 100 8 0 (HEAP_XMAX_IS_MULTI OR HEAP_COMBOCID)
   in visible_now env t \<and> own_multi_update env t \<and>
      (case HeapTupleSatisfiesNow env t of Inl e \<Rightarrow> status_unknown env t | Inr (v, w, t') \<Rightarrow> \<not> v)"
proof -
  let ?env = "sample_env\<lparr>comboCids := [(3, 9)]\<rparr>"
  let ?t = "sample_tuple 100 8 0 (HEAP_XMAX_IS_MULTI OR HEAP_COMBOCID)"
  have "hints_ok ?env ?t" "own_ok ?env ?t" "env_ok ?env"
    by (simp_all add: sample_simps env_ok_def InvalidTransactionId_def)
  moreover have "own_multi_update ?env ?t" by (simp add: sample_simps own_multi_update_def)
  moreover have "visible_now ?env ?t"
    by (simp add: sample_simps visible_now_def deleted_now_def HeapTupleHeaderGetCmin_def HeapTupleHeaderGetCmax_def
        GetRealCmin_def GetRealCmax_def)
  ultimately show ?thesis using HeapTupleSatisfiesNow_correct [of ?env ?t] unfolding Let_def
    by (auto split: sum.splits prod.splits)
qed

section \<open>Dirty\<close>

definition insert_in_progress :: "xact_env \<Rightarrow> HeapTupleHeader \<Rightarrow> bool" where
  "insert_in_progress env t \<longleftrightarrow> \<not> HeapTupleHeaderXminFrozen t \<and>
     \<not> TransactionIdIsCurrentTransactionId env (t_xmin t) \<and> TransactionIdIsInProgress env (t_xmin t)"

definition being_modified_by_other :: "xact_env \<Rightarrow> TransactionId \<Rightarrow> bool" where
  "being_modified_by_other env x \<longleftrightarrow>
     TransactionIdIsInProgress env x \<and> \<not> TransactionIdIsCurrentTransactionId env x"

text \<open>
  What \<open>snapshot->xmax\<close> tells: the updater in progress when there is one; otherwise nothing or a
  transaction in progress that holds a lock on the tuple.
\<close>

definition xmax_report_ok :: "xact_env \<Rightarrow> HeapTupleHeader \<Rightarrow> TransactionId \<Rightarrow> bool" where
  "xmax_report_ok env t y \<longleftrightarrow>
     (case updater env t of
        Some x \<Rightarrow> y = (if being_modified_by_other env x then x else InvalidTransactionId)
      | None \<Rightarrow> y = InvalidTransactionId \<or> y = t_xmax t \<and> being_modified_by_other env y)"

definition visible_dirty :: "xact_env \<Rightarrow> HeapTupleHeader \<Rightarrow> bool" where
  "visible_dirty env t \<longleftrightarrow> insert_in_progress env t \<or> visible_self env t"

lemma dirty_fields [simp]:
  "d_visible (dirty v x y t) = v" "d_xmin (dirty v x y t) = x" "d_xmax (dirty v x y t) = y" "d_tuple (dirty v x y t) = t"
  by (simp_all add: dirty_def)

lemma dirty_xmax:
  assumes "hints_ok env t"
  shows "case SatisfiesDirty_xmax env t of
      Inl e \<Rightarrow> xid_gone env (t_xmax t) \<and> \<not> LatestFetchTransactionIdDidAbort env (t_xmax t)
    | Inr d \<Rightarrow> d_visible d = (\<not> deleted_self env t) \<and> d_xmin d = InvalidTransactionId \<and>
        xmax_report_ok env t (d_xmax d) \<and> good_hint env t (d_tuple d)"
proof (cases rule: updater_cases [of t env])
  case locked
  with assms show ?thesis
    by (auto simp: SatisfiesDirty_xmax_def deleted_self_def xmax_report_ok_def being_modified_by_other_def
        status_error_def xid_gone_def intro: good_xmax_invalid)
next
  case multi
  with assms hints_xmax [OF assms multi(3)] show ?thesis
    by (auto simp: SatisfiesDirty_xmax_def deleted_self_def xmax_report_ok_def being_modified_by_other_def Let_def
        xid_done_def xid_gone_def)
next
  case plain
  with assms hints_xmax [OF assms plain(3)] show ?thesis
    by (auto simp: SatisfiesDirty_xmax_def deleted_self_def xmax_report_ok_def being_modified_by_other_def
        status_error_def xid_done_def xid_gone_def intro: good_xmax_invalid good_xmax_committed)
qed

text \<open>
  \<open>HeapTupleSatisfiesDirty\<close>, which unique checks use to find rows to wait for: a row is seen
  when \<open>Self\<close> sees it or when another transaction in progress has inserted it; \<open>snapshot->xmin\<close> names
  that inserter, and \<open>snapshot->xmax\<close> the other transaction in progress that is deleting a committed row. A row
  that is not being inserted or deleted by a running transaction gives no id to wait for, except a
  locker of the row.
\<close>

theorem HeapTupleSatisfiesDirty_correct:
  assumes "hints_ok env t" and "own_ok env t"
  shows "case HeapTupleSatisfiesDirty env t of
      Inl e \<Rightarrow> status_unknown env t
    | Inr d \<Rightarrow> d_visible d = visible_dirty env t \<and>
        d_xmin d = (if insert_in_progress env t then t_xmin t else InvalidTransactionId) \<and>
        (if inserted env t then xmax_report_ok env t (d_xmax d) else d_xmax d = InvalidTransactionId) \<and>
        good_hint env t (d_tuple d)"
  using assms(1)
proof (cases rule: xmin_cases)
  case invalid
  with assms show ?thesis
    by (simp add: HeapTupleSatisfiesDirty_def visible_dirty_def visible_self_def insert_in_progress_def xid_gone_def)
next
  case own
  then have "\<not> inserted env t" "\<not> insert_in_progress env t"
    by (auto simp: inserted_def own_insert_def xid_done_def insert_in_progress_def)
  with own deal_current [OF assms own(4)] show ?thesis
    by (auto simp: HeapTupleSatisfiesDirty_def visible_dirty_def visible_self_def split: prod.splits)
next
  case in_progress
  then have "insert_in_progress env t" using frozen_committed by (auto simp: insert_in_progress_def)
  with in_progress assms show ?thesis by (simp add: HeapTupleSatisfiesDirty_def visible_dirty_def)
next
  case committed
  let ?t = "SetHintBits env t HEAP_XMIN_COMMITTED (t_xmin t)"
  have good: "good_hint env t ?t" by (rule good_xmin_committed) (use assms committed in auto)
  then have t: "hints_ok env ?t" "same_but_hints t ?t" by (simp_all add: good_hint_def)
  have report: "xmax_report_ok env ?t y = xmax_report_ok env t y" for y
    using same_but_hints_views(1) [OF t(2), of env] by (simp add: xmax_report_ok_def cong: option.case_cong)
  have "\<not> insert_in_progress env t" using committed by (auto simp: insert_in_progress_def xid_done_def)
  then show ?thesis
    using dirty_xmax [OF t(1)] committed good self_views(1) [OF t(2), of env] report
    by (auto simp: HeapTupleSatisfiesDirty_def visible_dirty_def visible_self_def status_unknown_def xid_done_def
        split: sum.splits prod.splits intro: good_hint_trans)
next
  case aborted
  with assms show ?thesis
    by (auto simp: HeapTupleSatisfiesDirty_def visible_dirty_def visible_self_def insert_in_progress_def
        status_unknown_def status_error_def xid_gone_def intro: good_xmin_invalid)
next
  case hinted
  then have "\<not> insert_in_progress env t" using assms(1)
    by (auto simp: insert_in_progress_def hints_ok_def xid_done_def)
  with hinted dirty_xmax [OF assms(1)] show ?thesis
    by (auto simp: HeapTupleSatisfiesDirty_def visible_dirty_def visible_self_def status_unknown_def
        split: sum.splits prod.splits)
qed

theorem HeapTupleSatisfiesDirty_witness:
  "case HeapTupleSatisfiesDirty sample_env (sample_tuple 10 200 0 0) of
     Inl e \<Rightarrow> status_unknown sample_env (sample_tuple 10 200 0 0)
   | Inr d \<Rightarrow> d_visible d \<and> d_xmin d = 0 \<and> d_xmax d = 200"
proof -
  have "hints_ok sample_env (sample_tuple 10 200 0 0)" "own_ok sample_env (sample_tuple 10 200 0 0)"
    by (simp_all add: sample_simps)
  moreover have "visible_dirty sample_env (sample_tuple 10 200 0 0)" "inserted sample_env (sample_tuple 10 200 0 0)"
    "\<not> insert_in_progress sample_env (sample_tuple 10 200 0 0)"
    "\<And>y. xmax_report_ok sample_env (sample_tuple 10 200 0 0) y \<Longrightarrow> y = 200"
    by (simp_all add: sample_simps visible_dirty_def visible_self_def deleted_self_def insert_in_progress_def
        xmax_report_ok_def being_modified_by_other_def)
  ultimately show ?thesis
    using HeapTupleSatisfiesDirty_correct [of sample_env "sample_tuple 10 200 0 0"]
    by (auto simp: InvalidTransactionId_def split: sum.splits)
qed

section \<open>Update\<close>

text \<open>
  The outcome an \<open>UPDATE\<close> or \<open>DELETE\<close> with command id \<open>curcid\<close> has to get. A tuple that is there to be
  modified is \<open>TM_Ok\<close>, or \<open>TM_BeingModified\<close> while others hold locks on it.
\<close>

definition update_ok :: "xact_env \<Rightarrow> nat \<times> nat \<Rightarrow> HeapTupleHeader \<Rightarrow> CommandId \<Rightarrow> bool \<Rightarrow> TM_Result \<Rightarrow> bool" where
  "update_ok env self t curcid self_visible r \<longleftrightarrow>
     (if \<not> own_insert env t \<and> \<not> inserted env t then r = TM_Invisible
      else if own_insert env t \<and> HeapTupleHeaderGetCmin env t > curcid then r = TM_Invisible
      else if own_insert env t \<and> HeapTupleHeaderGetCmin env t = curcid \<and> \<not> self_visible then r = TM_SelfCreated
      else case updater env t of
        None \<Rightarrow> r = TM_Ok \<or> r = TM_BeingModified
      | Some x \<Rightarrow>
          if TransactionIdIsCurrentTransactionId env x then
            r = (if HeapTupleHeaderGetCmax env t \<ge> curcid then TM_SelfModified else TM_Invisible)
          else if TransactionIdIsInProgress env x then r = TM_BeingModified
          else if TransactionIdDidCommit env x then r = updated_or_deleted self t
          else r = TM_Ok \<or> r = TM_BeingModified)"

lemma updated_or_deleted_hint [simp]: "updated_or_deleted self (SetHintBits env t b x) = updated_or_deleted self t"
  by (simp add: updated_or_deleted_def)

lemma update_xmax:
  assumes "hints_ok env t" and "inserted env t" and "\<not> own_insert env t"
  shows "case SatisfiesUpdate_xmax env self t curcid of
      Inl e \<Rightarrow> xid_gone env (t_xmax t) \<and> \<not> LatestFetchTransactionIdDidAbort env (t_xmax t)
    | Inr (r, t') \<Rightarrow> update_ok env self t curcid sv r \<and> good_hint env t t'"
proof (cases rule: updater_cases [of t env])
  case locked
  with assms show ?thesis
    by (auto simp: SatisfiesUpdate_xmax_def update_ok_def status_error_def xid_gone_def Let_def intro: good_xmax_invalid)
next
  case multi
  with assms hints_xmax [OF assms(1) multi(3)] show ?thesis
    by (auto simp: SatisfiesUpdate_xmax_def update_ok_def Let_def xid_done_def xid_gone_def intro: good_xmax_invalid)
next
  case plain
  with assms hints_xmax [OF assms(1) plain(3)] show ?thesis
    by (auto simp: SatisfiesUpdate_xmax_def update_ok_def status_error_def xid_done_def xid_gone_def Let_def
        intro: good_xmax_invalid good_xmax_committed)
qed

lemma update_own:
  assumes "hints_ok env t" and "own_ok env t" and "own_insert env t"
  shows "case SatisfiesUpdate_own env t curcid sv of (r, t') \<Rightarrow> update_ok env self t curcid sv r \<and> good_hint env t t'"
proof (cases rule: updater_cases [of t env])
  case locked
  with assms show ?thesis by (auto simp: SatisfiesUpdate_own_def update_ok_def Let_def)
next
  case multi
  with assms hints_xmax [OF assms(1) multi(3)] show ?thesis
    by (auto simp: SatisfiesUpdate_own_def update_ok_def own_ok_def xid_done_def xid_gone_def Let_def)
next
  case plain
  with assms hints_xmax [OF assms(1) plain(3)] show ?thesis
    by (auto simp: SatisfiesUpdate_own_def update_ok_def own_ok_def xid_done_def xid_gone_def Let_def
        intro: good_xmax_invalid)
qed

lemma update_ok_view:
  "same_but_hints t t' \<Longrightarrow> update_ok env self t' curcid sv r = update_ok env self t curcid sv r"
  using same_but_hints_views [of t t']
  by (simp add: update_ok_def updated_or_deleted_def cong: option.case_cong)



section \<open>Vacuum\<close>

text \<open>
  \<open>HeapTupleSatisfiesVacuum\<close> reads the CSN log before the process array. The two agree when no
  transaction is between writing its status and leaving the process array; the current transaction
  is in progress.
\<close>

definition status_agrees :: "xact_env \<Rightarrow> bool" where
  "status_agrees env \<longleftrightarrow>
     (\<forall>x. (TransactionIdGetStatus env x = XID_COMMITTED \<longrightarrow> TransactionIdDidCommit env x \<and> \<not> TransactionIdIsInProgress env x) \<and>
          (TransactionIdGetStatus env x = XID_ABORTED \<longrightarrow> \<not> TransactionIdDidCommit env x \<and> \<not> TransactionIdIsInProgress env x) \<and>
          (TransactionIdIsCurrentTransactionId env x \<longrightarrow> TransactionIdIsInProgress env x))"

text \<open>
  What each answer of \<open>HeapTupleSatisfiesVacuum\<close> says of the tuple. A session with a local snapshot does not
  remove anything and gets \<open>HEAPTUPLE_LIVE\<close> for dead tuples.
\<close>

definition local_only :: "xact_env \<Rightarrow> bool" where
  "local_only env \<longleftrightarrow> useLocalSnapshot env \<and> \<not> IsInitdb env"

definition vacuum_ok :: "xact_env \<Rightarrow> HeapTupleHeader \<Rightarrow> TransactionId \<Rightarrow> HTSV_Result \<Rightarrow> bool" where
  "vacuum_ok env t OldestXmin r \<longleftrightarrow>
     (case r of
        HEAPTUPLE_DEAD \<Rightarrow>
          (\<not> HeapTupleHeaderXminFrozen t \<and> xid_gone env (t_xmin t)) \<or>
          inserted env t \<and> (case updater env t of None \<Rightarrow> False | Some x \<Rightarrow> xid_done env x \<and> x < OldestXmin)
      | HEAPTUPLE_RECENTLY_DEAD \<Rightarrow>
          inserted env t \<and> (case updater env t of None \<Rightarrow> False | Some x \<Rightarrow> xid_done env x \<and> x \<ge> OldestXmin)
      | HEAPTUPLE_LIVE \<Rightarrow>
          local_only env \<or> inserted env t \<and> (case updater env t of None \<Rightarrow> True | Some x \<Rightarrow> xid_gone env x)
      | HEAPTUPLE_INSERT_IN_PROGRESS \<Rightarrow> own_insert env t \<or> insert_in_progress env t
      | HEAPTUPLE_DELETE_IN_PROGRESS \<Rightarrow>
          own_insert env t \<or>
          inserted env t \<and> (case updater env t of None \<Rightarrow> False | Some x \<Rightarrow> TransactionIdIsInProgress env x))"

text \<open>The two answers of the test \<open>xidstatus == XID_COMMITTED || ...\<close> once the transaction is not running.\<close>

definition vac_committed :: "xact_env \<Rightarrow> TransactionId \<Rightarrow> bool" where
  "vac_committed env x \<longleftrightarrow>
     \<not> (TransactionIdGetStatus env x = XID_INPROGRESS \<and> TransactionIdIsInProgress env x) \<and>
     (TransactionIdGetStatus env x = XID_COMMITTED \<or>
      TransactionIdGetStatus env x = XID_INPROGRESS \<and> TransactionIdDidCommit env x)"

definition vac_gone :: "xact_env \<Rightarrow> TransactionId \<Rightarrow> bool" where
  "vac_gone env x \<longleftrightarrow>
     \<not> (TransactionIdGetStatus env x = XID_INPROGRESS \<and> TransactionIdIsInProgress env x) \<and> \<not> vac_committed env x"

lemma status_agreesD:
  assumes "status_agrees env"
  shows "TransactionIdGetStatus env x = XID_INPROGRESS \<and> TransactionIdIsInProgress env x \<or>
      vac_committed env x \<and> xid_done env x \<or> vac_gone env x \<and> xid_gone env x"
  using assms TransactionIdStatus.exhaust [of "TransactionIdGetStatus env x"]
  by (auto simp: status_agrees_def xid_done_def xid_gone_def vac_committed_def vac_gone_def)

lemma vacuum_unhinted:
  assumes "\<not> has_info t HEAP_XMAX_INVALID" "\<not> has_info t HEAP_XMAX_COMMITTED"
    "\<not> HEAP_XMAX_IS_LOCKED_ONLY t" "\<not> has_info t HEAP_XMAX_IS_MULTI"
  shows "TransactionIdGetStatus env (t_xmax t) = XID_INPROGRESS \<and> TransactionIdIsInProgress env (t_xmax t) \<Longrightarrow>
      SatisfiesVacuum_xmax env t OldestXmin = Inr (HEAPTUPLE_DELETE_IN_PROGRESS, t)"
    and "vac_committed env (t_xmax t) \<Longrightarrow> SatisfiesVacuum_xmax env t OldestXmin =
      Inr (unless_local env (if t_xmax t < OldestXmin then HEAPTUPLE_DEAD else HEAPTUPLE_RECENTLY_DEAD),
        SetHintBits env t HEAP_XMAX_COMMITTED (t_xmax t))"
    and "vac_gone env (t_xmax t) \<Longrightarrow> SatisfiesVacuum_xmax env t OldestXmin =
      (if LatestFetchTransactionIdDidAbort env (t_xmax t)
       then Inr (HEAPTUPLE_LIVE, SetHintBits env t HEAP_XMAX_INVALID InvalidTransactionId) else status_error)"
  using assms
  by (auto simp: SatisfiesVacuum_xmax_def Let_def vac_committed_def vac_gone_def TransactionIdPrecedes_def)

lemma vacuum_xmax:
  assumes "hints_ok env t" and "inserted env t" and agrees: "status_agrees env"
  shows "case SatisfiesVacuum_xmax env t OldestXmin of
      Inl e \<Rightarrow> xid_gone env (t_xmax t) \<and> \<not> LatestFetchTransactionIdDidAbort env (t_xmax t)
    | Inr (r, t') \<Rightarrow> vacuum_ok env t OldestXmin r \<and> good_hint env t t'"
proof (cases rule: updater_cases [of t env])
  case locked
  with assms show ?thesis
    by (auto simp: SatisfiesVacuum_xmax_def vacuum_ok_def Let_def intro: good_xmax_invalid)
next
  case multi
  then have "\<not> has_info t HEAP_XMAX_INVALID \<Longrightarrow>
      HeapTupleHeaderGetUpdateXid env t = MultiXactGetUpdateXid env (t_xmax t)"
    by (simp add: HeapTupleHeaderGetUpdateXid_def HEAP_XMAX_IS_LOCKED_ONLY_def)
  with multi assms hints_xmax [OF assms(1) multi(3)] show ?thesis
    by (auto simp: SatisfiesVacuum_xmax_def vacuum_ok_def Let_def xid_done_def xid_gone_def TransactionIdPrecedes_def
        status_agrees_def intro!: good_xmax_invalid)
next
  case plain
  note upd = hints_xmax [OF assms(1) plain(3)]
  consider (inv) "has_info t HEAP_XMAX_INVALID"
    | (com) "\<not> has_info t HEAP_XMAX_INVALID" "has_info t HEAP_XMAX_COMMITTED"
    | (other) "\<not> has_info t HEAP_XMAX_INVALID" "\<not> has_info t HEAP_XMAX_COMMITTED" by blast
  then show ?thesis
  proof cases
    case inv
    with upd assms plain show ?thesis by (simp add: SatisfiesVacuum_xmax_def vacuum_ok_def)
  next
    case com
    with upd assms plain show ?thesis
      by (auto simp: SatisfiesVacuum_xmax_def vacuum_ok_def unless_local_def local_only_def TransactionIdPrecedes_def)
  next
    case other
    note unhinted = vacuum_unhinted [OF other plain(1,2)]
    consider (run) "TransactionIdGetStatus env (t_xmax t) = XID_INPROGRESS \<and> TransactionIdIsInProgress env (t_xmax t)"
      | (finished) "vac_committed env (t_xmax t)" "xid_done env (t_xmax t)"
      | (gone) "vac_gone env (t_xmax t)" "xid_gone env (t_xmax t)"
      using status_agreesD [OF agrees] by blast
    then show ?thesis
    proof cases
      case run
      then show ?thesis using unhinted(1) assms plain by (simp add: vacuum_ok_def)
    next
      case finished
      have "good_hint env t (SetHintBits env t HEAP_XMAX_COMMITTED (t_xmax t))"
        by (rule good_xmax_committed) (use assms plain finished in simp_all)
      then show ?thesis using unhinted(2) [OF finished(1)] assms plain finished(2)
        by (auto simp: vacuum_ok_def unless_local_def local_only_def TransactionIdPrecedes_def)
    next
      case gone
      have "good_hint env t (SetHintBits env t HEAP_XMAX_INVALID InvalidTransactionId)"
        by (rule good_xmax_invalid) (use assms plain gone in simp_all)
      then show ?thesis using unhinted(3) [OF gone(1)] assms plain gone(2)
        by (auto simp: vacuum_ok_def status_error_def)
    qed
  qed
qed

lemma vacuum_ok_view:
  assumes "same_but_hints t t'"
  shows "vacuum_ok env t' OldestXmin r = vacuum_ok env t OldestXmin r"
proof -
  note v = same_but_hints_views [OF assms]
  have "insert_in_progress env t' = insert_in_progress env t"
    "HeapTupleHeaderXminFrozen t' = HeapTupleHeaderXminFrozen t"
    using assms by (simp_all add: insert_in_progress_def same_but_hints_def)
  with v show ?thesis by (cases r) (simp_all add: vacuum_ok_def)
qed

lemma vacuum_xmin_committed:
  assumes "hints_ok env t" "\<not> HeapTupleHeaderXminCommitted t" "\<not> HeapTupleHeaderXminInvalid t"
    and "xid_done env (t_xmin t)" "inserted env t" "status_agrees env"
  shows "case SatisfiesVacuum_xmax env
        (if \<not> isAnalyzing then SetHintBits env t HEAP_XMIN_COMMITTED (t_xmin t) else t) OldestXmin of
      Inl e \<Rightarrow> status_unknown env t
    | Inr (r, t') \<Rightarrow> vacuum_ok env t OldestXmin r \<and> good_hint env t t'"
proof -
  let ?t = "if \<not> isAnalyzing then SetHintBits env t HEAP_XMIN_COMMITTED (t_xmin t) else t"
  have good: "good_hint env t ?t" using assms by (auto intro: good_xmin_committed)
  then have t: "hints_ok env ?t" "same_but_hints t ?t" by (simp_all add: good_hint_def)
  have "inserted env ?t" using assms(5) same_but_hints_views(2) [OF t(2), of env] by simp
  note rest = vacuum_xmax [OF t(1) this assms(6), of OldestXmin]
  have xmax: "t_xmax ?t = t_xmax t" by simp
  show ?thesis
    using rest unfolding vacuum_ok_view [OF t(2)] xmax
    by (auto simp: status_unknown_def split: sum.splits prod.splits intro: good_hint_trans [OF good])
qed


lemma sample_agrees: "status_agrees sample_env"
proof -
  have "\<not> (2 :: uint64) \<le> 1" by (simp add: word_le_nat_alt)
  then show ?thesis
    by (auto simp: status_agrees_def TransactionIdGetStatus_def sample_env_def COMMITSEQNO_IS_COMMITTED_def
        COMMITSEQNO_IS_ABORTED_def COMMITSEQNO_ABORTED_def MAX_COMMITSEQNO_def COMMITSEQNO_FROZEN_def Let_def)
qed


text \<open>
  \<open>HeapTupleIsSurelyDead\<close>, the shortcut that consults no transaction log, never calls a tuple dead that
  \<open>HeapTupleSatisfiesVacuum\<close> would keep: whatever the state of the transaction system, \<open>Vacuum\<close> answers
  \<open>HEAPTUPLE_DEAD\<close> for it and does not touch the header.
\<close>

theorem HeapTupleIsSurelyDead_sound:
  assumes "HeapTupleIsSurelyDead t OldestXmin" and "\<not> local_only env"
  shows "HeapTupleSatisfiesVacuum env t OldestXmin isAnalyzing = Inr (HEAPTUPLE_DEAD, t)"
proof (cases "HeapTupleHeaderXminCommitted t")
  case False
  with assms(1) have "HeapTupleHeaderXminInvalid t" by (simp add: HeapTupleIsSurelyDead_def split: if_splits)
  with False show ?thesis by (simp add: HeapTupleSatisfiesVacuum_def)
next
  case True
  with assms(1) have "\<not> has_info t HEAP_XMAX_INVALID" "\<not> HEAP_XMAX_IS_LOCKED_ONLY t" "\<not> has_info t HEAP_XMAX_IS_MULTI"
    "has_info t HEAP_XMAX_COMMITTED" "TransactionIdPrecedes (t_xmax t) OldestXmin"
    by (simp_all add: HeapTupleIsSurelyDead_def split: if_splits)
  with True assms(2) show ?thesis
    by (auto simp: HeapTupleSatisfiesVacuum_def SatisfiesVacuum_xmax_def unless_local_def local_only_def)
qed

theorem HeapTupleIsSurelyDead_witness:
  "HeapTupleSatisfiesVacuum sample_env (sample_tuple 10 20 0 (HEAP_XMIN_COMMITTED OR HEAP_XMAX_COMMITTED)) 50 False =
     Inr (HEAPTUPLE_DEAD, sample_tuple 10 20 0 (HEAP_XMIN_COMMITTED OR HEAP_XMAX_COMMITTED))"
  by (rule HeapTupleIsSurelyDead_sound)
    (simp_all add: HeapTupleIsSurelyDead_def sample_simps local_only_def TransactionIdPrecedes_def)

text \<open>
  A tuple that the current transaction inserted and then updated under a multixact is reported as being
  inserted: the routine compares the multixact id, not its updater, with the current transaction.
\<close>

lemma vacuum_own_multi_reports_insert:
  "HeapTupleSatisfiesVacuum sample_env (sample_tuple 100 8 0 HEAP_XMAX_IS_MULTI) 50 False =
     Inr (HEAPTUPLE_INSERT_IN_PROGRESS, sample_tuple 100 8 0 HEAP_XMAX_IS_MULTI)"
  "updater sample_env (sample_tuple 100 8 0 HEAP_XMAX_IS_MULTI) = Some 100"
  by (simp_all add: HeapTupleSatisfiesVacuum_def sample_simps Let_def)

end
