(* ===== verification/MVCC.thy ===== *)
theory MVCC
  imports MVCC_Checks Visibility
begin

text \<open>
  Correctness of the MVCC visibility check. The specification \<open>visible_mvcc\<close> knows neither hint bits nor
  the CSN log's transient states: a transaction is visible when it has a commit sequence number below
  the one of the snapshot. The routine computes it whenever the transactions involved are settled, and the
  answer does not change when others commit later.
\<close>

section \<open>Specification\<close>

definition visible_xid :: "xact_env \<Rightarrow> SnapshotData \<Rightarrow> TransactionId \<Rightarrow> bool" where
  "visible_xid env snap x \<longleftrightarrow>
     (let csn = TransactionIdGetCommitSeqNo env False x
      in COMMITSEQNO_IS_COMMITTED csn \<and> csn < snapshotcsn snap)"

definition mvcc_inserted :: "xact_env \<Rightarrow> SnapshotData \<Rightarrow> HeapTupleHeader \<Rightarrow> bool" where
  "mvcc_inserted env snap t \<longleftrightarrow> HeapTupleHeaderXminFrozen t \<or> visible_xid env snap (t_xmin t) \<or>
     \<not> IsVersionMVCCSnapshot snap \<and> own_insert env t \<and> HeapTupleHeaderGetCmin env t < curcid snap"

definition mvcc_deleted :: "xact_env \<Rightarrow> SnapshotData \<Rightarrow> HeapTupleHeader \<Rightarrow> bool" where
  "mvcc_deleted env snap t \<longleftrightarrow>
     (case updater env t of
        None \<Rightarrow> False
      | Some x \<Rightarrow>
          if TransactionIdIsCurrentTransactionId env x \<and> (\<not> IsVersionMVCCSnapshot snap \<or> has_info t HEAP_XMAX_IS_MULTI)
          then HeapTupleHeaderGetCmax env t < curcid snap
          else visible_xid env snap x)"

definition visible_mvcc :: "xact_env \<Rightarrow> SnapshotData \<Rightarrow> HeapTupleHeader \<Rightarrow> bool" where
  "visible_mvcc env snap t \<longleftrightarrow> mvcc_inserted env snap t \<and> \<not> mvcc_deleted env snap t"

text \<open>
  The CSN log agrees with the commit log and the process array, no transaction is in the middle of
  its commit, and the snapshot's \<open>xmin\<close> is a lower bound: every transaction before it that committed is visible.
\<close>

definition csn_settled :: "xact_env \<Rightarrow> SnapshotData \<Rightarrow> bool" where
  "csn_settled env snap \<longleftrightarrow> (\<forall>x. let csn = TransactionIdGetCommitSeqNo env False x in
     \<not> COMMITSEQNO_IS_COMMITTING csn \<and>
     (COMMITSEQNO_IS_COMMITTED csn \<longleftrightarrow> TransactionIdDidCommit env x) \<and>
     (COMMITSEQNO_IS_COMMITTED csn \<longrightarrow> TransactionIdGetCommitSeqNo env True x = csn) \<and>
     (COMMITSEQNO_IS_COMMITTED csn \<or> csn = COMMITSEQNO_ABORTED \<longrightarrow>
        \<not> TransactionIdIsInProgress env x \<and> \<not> TransactionIdIsCurrentTransactionId env x) \<and>
     (COMMITSEQNO_IS_COMMITTED csn \<and> x < xmin snap \<longrightarrow> csn < snapshotcsn snap))"

definition mvcc_session :: "xact_env \<Rightarrow> bool" where
  "mvcc_session env \<longleftrightarrow> \<not> GTM_LITE_MODE env \<and> \<not> (XactReadOnly env \<and> enable_show_any_tuples env)"

definition combo_known :: "xact_env \<Rightarrow> HeapTupleHeader \<Rightarrow> bool" where
  "combo_known env t \<longleftrightarrow> (own_insert env t \<and> has_info t HEAP_COMBOCID \<longrightarrow> unat (t_cid t) < length (comboCids env))"

definition csn_unknown :: "xact_env \<Rightarrow> HeapTupleHeader \<Rightarrow> bool" where
  "csn_unknown env t \<longleftrightarrow> (\<exists>x \<in> {t_xmin t, t_xmax t}. xid_gone env x \<and> \<not> LatestFetchCSNDidAbort env x)"

section \<open>The tests of one transaction id\<close>

lemma aborted_not_committed: "\<not> COMMITSEQNO_IS_COMMITTED COMMITSEQNO_ABORTED"
proof -
  have "\<not> (2 :: uint64) \<le> 1" by (simp add: word_le_nat_alt)
  then show ?thesis
    by (simp add: COMMITSEQNO_IS_COMMITTED_def COMMITSEQNO_ABORTED_def MAX_COMMITSEQNO_def COMMITSEQNO_FROZEN_def)
qed

lemma settledD:
  assumes "csn_settled env snap"
  shows "\<not> COMMITSEQNO_IS_COMMITTING (TransactionIdGetCommitSeqNo env False x)"
    and "COMMITSEQNO_IS_COMMITTED (TransactionIdGetCommitSeqNo env False x) = TransactionIdDidCommit env x"
    and "TransactionIdDidCommit env x \<Longrightarrow> TransactionIdGetCommitSeqNo env True x = TransactionIdGetCommitSeqNo env False x"
    and "TransactionIdDidCommit env x \<Longrightarrow> x < xmin snap \<Longrightarrow> visible_xid env snap x"
    and "TransactionIdIsCurrentTransactionId env x \<Longrightarrow> \<not> visible_xid env snap x"
    and "\<not> TransactionIdDidCommit env x \<Longrightarrow> \<not> visible_xid env snap x"
    and "TransactionIdGetStatus env x = XID_COMMITTED \<Longrightarrow> xid_done env x"
    and "TransactionIdGetStatus env x = XID_ABORTED \<Longrightarrow> xid_gone env x"
  using assms aborted_not_committed unfolding csn_settled_def Let_def
  by (auto simp: visible_xid_def Let_def xid_done_def xid_gone_def TransactionIdGetStatus_def
      COMMITSEQNO_IS_ABORTED_def split: if_splits)

lemma XidVisible_settled:
  assumes "csn_settled env snap"
  shows "XidVisibleInSnapshot ((env, t) # ws) x snap =
    Some (Inr (visible_xid env snap x, TransactionIdGetStatus env x, False, (env, t) # ws))"
  using settledD(1) [OF assms]
  by (auto simp: XidVisibleInSnapshot_def visible_xid_def TransactionIdGetStatus_def Let_def COMMITSEQNO_IS_ABORTED_def)

lemma CommittedXidVisible_settled:
  assumes "csn_settled env snap" and "TransactionIdDidCommit env x" and "\<not> GTM_LITE_MODE env"
  shows "CommittedXidVisibleInSnapshot ((env, t) # ws) x snap = Some (Inr (visible_xid env snap x, (env, t) # ws))"
proof (cases "x < xmin snap")
  case True
  with settledD(4) [OF assms(1,2)] assms(3) show ?thesis
    by (simp add: CommittedXidVisibleInSnapshot_def TransactionIdPrecedes_def)
next
  case False
  with settledD(1-3) [OF assms(1), of x] assms(2) show ?thesis
    by (auto simp: CommittedXidVisibleInSnapshot_def TransactionIdPrecedes_def visible_xid_def Let_def)
qed

lemma gtm_off: "\<not> GTM_LITE_MODE env \<Longrightarrow> gtm_lite_visible m ((env, t) # ws) x snap st eq = Some (False, False, (env, t) # ws)"
  by (simp add: gtm_lite_visible_def)

text \<open>The hint bits set after a test are true.\<close>

definition hinted_worlds :: "xact_env \<Rightarrow> HeapTupleHeader \<Rightarrow> worlds \<Rightarrow> worlds \<Rightarrow> bool" where
  "hinted_worlds env t later ws' \<longleftrightarrow> (\<exists>t'. ws' = (env, t') # later \<and> good_hint env t t')"

lemma hinted_refl [simp]: "hints_ok env t \<Longrightarrow> hinted_worlds env t later ((env, t) # later)"
  by (simp add: hinted_worlds_def)

lemma set_hints_xmin:
  assumes "hints_ok env t" "csn_settled env snap" "\<not> HeapTupleHeaderXminCommitted t" "\<not> HeapTupleHeaderXminInvalid t"
  shows "case set_hints (TransactionIdGetStatus env (t_xmin t)) HEAP_XMIN_COMMITTED HEAP_XMIN_INVALID t_xmin ((env, t) # later) of
      Inl e \<Rightarrow> xid_gone env (t_xmin t) \<and> \<not> LatestFetchCSNDidAbort env (t_xmin t)
    | Inr ws' \<Rightarrow> hinted_worlds env t later ws'"
  using assms settledD(7,8) [OF assms(2), of "t_xmin t"]
  by (auto simp: set_hints_def status_error_def hinted_worlds_def intro: good_xmin_committed good_xmin_invalid)

lemma set_hints_xmax:
  assumes "hints_ok env t" "csn_settled env snap" "updater env t = Some (t_xmax t)"
  shows "case set_hints (TransactionIdGetStatus env (t_xmax t)) HEAP_XMAX_COMMITTED HEAP_XMAX_INVALID t_xmax ((env, t) # later) of
      Inl e \<Rightarrow> xid_gone env (t_xmax t) \<and> \<not> LatestFetchCSNDidAbort env (t_xmax t)
    | Inr ws' \<Rightarrow> hinted_worlds env t later ws'"
  using assms settledD(7,8) [OF assms(2), of "t_xmax t"]
  by (auto simp: set_hints_def status_error_def hinted_worlds_def intro!: good_xmax_committed good_xmax_invalid)

section \<open>The routine\<close>

lemma mvcc_xmax_test:
  assumes "hints_ok env t" and settled: "csn_settled env snap" and gtm: "\<not> GTM_LITE_MODE env"
  shows "case SatisfiesMVCC_xmax ((env, t) # later) snap of
      None \<Rightarrow> False
    | Some (Inl e) \<Rightarrow> xid_gone env (t_xmax t) \<and> \<not> LatestFetchCSNDidAbort env (t_xmax t)
    | Some (Inr (v, w, ws')) \<Rightarrow> v = (\<not> mvcc_deleted env snap t) \<and> hinted_worlds env t later ws'"
proof (cases rule: updater_cases [of t env])
  case locked
  with assms show ?thesis by (auto simp: SatisfiesMVCC_xmax.simps mvcc_deleted_def)
next
  case multi
  let ?x = "MultiXactGetUpdateXid env (t_xmax t)"
  have gone: "has_info t HEAP_XMAX_INVALID \<Longrightarrow> \<not> mvcc_deleted env snap t"
    using hints_xmax(2) [OF assms(1) multi(3)] settledD(6) [OF settled, of ?x] multi
    by (auto simp: mvcc_deleted_def xid_gone_def)
  have multi_test: "SatisfiesMVCC_multi ((env, t) # later) snap =
      Some (Inr (\<not> mvcc_deleted env snap t, False, (env, t) # later))"
    using settledD(6) [OF settled, of ?x] multi
    by (auto simp: SatisfiesMVCC_multi_def Let_def XidVisible_settled [OF settled] mvcc_deleted_def
        CommittedXidVisible_settled [OF settled _ gtm])
  show ?thesis using multi gone multi_test assms(1) by (auto simp: SatisfiesMVCC_xmax.simps)
next
  case plain
  note upd = hints_xmax [OF assms(1) plain(3)]
  consider (inv) "has_info t HEAP_XMAX_INVALID"
    | (com) "\<not> has_info t HEAP_XMAX_INVALID" "has_info t HEAP_XMAX_COMMITTED"
    | (own) "\<not> has_info t HEAP_XMAX_INVALID" "\<not> has_info t HEAP_XMAX_COMMITTED"
        "\<not> IsVersionMVCCSnapshot snap \<and> TransactionIdIsCurrentTransactionId env (t_xmax t)"
    | (other) "\<not> has_info t HEAP_XMAX_INVALID" "\<not> has_info t HEAP_XMAX_COMMITTED"
        "\<not> (\<not> IsVersionMVCCSnapshot snap \<and> TransactionIdIsCurrentTransactionId env (t_xmax t))" by blast
  then show ?thesis
  proof cases
    case inv
    then have "\<not> mvcc_deleted env snap t" using upd(2) settledD(6) [OF settled, of "t_xmax t"] plain
      by (auto simp: mvcc_deleted_def xid_gone_def)
    with inv assms show ?thesis by (simp add: SatisfiesMVCC_xmax.simps)
  next
    case com
    then have "xid_done env (t_xmax t)" using upd by simp
    with com plain assms show ?thesis
      by (auto simp: SatisfiesMVCC_xmax.simps mvcc_deleted_def xid_done_def gtm_off
          CommittedXidVisible_settled [OF settled _ gtm])
  next
    case own
    with plain assms show ?thesis by (auto simp: SatisfiesMVCC_xmax.simps mvcc_deleted_def)
  next
    case other
    have del: "mvcc_deleted env snap t = visible_xid env snap (t_xmax t)"
      using other plain by (auto simp: mvcc_deleted_def)
    show ?thesis using set_hints_xmax [OF assms(1) settled plain(3), of later] other plain
      by (auto simp: SatisfiesMVCC_xmax.simps XidVisible_settled [OF settled] del gtm gtm_off hinted_worlds_def
          split: sum.splits)
  qed
qed

lemma mvcc_own_test:
  assumes "hints_ok env t" and "own_ok env t" and own: "own_insert env t" and "csn_settled env snap"
    and version: "\<not> IsVersionMVCCSnapshot snap" and "combo_known env t"
  shows "case SatisfiesMVCC_own env t snap of
      Inl e \<Rightarrow> False
    | Inr (v, w, t') \<Rightarrow> v = visible_mvcc env snap t \<and> good_hint env t t'"
proof -
  have ins: "mvcc_inserted env snap t = (HeapTupleHeaderGetCmin env t < curcid snap)"
    using own version settledD(5) [OF assms(4), of "t_xmin t"] by (auto simp: mvcc_inserted_def own_insert_def)
  have stream: "has_info t HEAP_COMBOCID \<Longrightarrow> CheckStreamCombocid env t = Inr False"
    using assms(6) own by (simp add: CheckStreamCombocid_def combo_known_def)
  show ?thesis
  proof (cases rule: updater_cases [of t env])
    case locked
    then have "\<not> mvcc_deleted env snap t" by (simp add: mvcc_deleted_def)
    with locked assms(1) stream show ?thesis by (auto simp: SatisfiesMVCC_own_def Let_def ins visible_mvcc_def)
  next
    case multi
    have "mvcc_deleted env snap t = (TransactionIdIsCurrentTransactionId env (MultiXactGetUpdateXid env (t_xmax t)) \<and>
        HeapTupleHeaderGetCmax env t < curcid snap)"
      using multi version assms(2) own settledD(6) [OF assms(4)] by (auto simp: mvcc_deleted_def own_ok_def xid_gone_def)
    with multi assms(1) stream hints_xmax [OF assms(1) multi(3)] show ?thesis
      by (auto simp: SatisfiesMVCC_own_def Let_def ins visible_mvcc_def xid_gone_def)
  next
    case plain
    have del: "mvcc_deleted env snap t = (TransactionIdIsCurrentTransactionId env (t_xmax t) \<and>
        HeapTupleHeaderGetCmax env t < curcid snap)"
      using plain version assms(2) own settledD(6) [OF assms(4)] by (auto simp: mvcc_deleted_def own_ok_def xid_gone_def)
    have "\<not> TransactionIdIsCurrentTransactionId env (t_xmax t) \<Longrightarrow> xid_gone env (t_xmax t)"
      using plain assms(2) own by (auto simp: own_ok_def)
    then have "\<not> TransactionIdIsCurrentTransactionId env (t_xmax t) \<Longrightarrow>
        good_hint env t (SetHintBits env t HEAP_XMAX_INVALID InvalidTransactionId)"
      using plain assms(1) by (auto intro: good_xmax_invalid)
    with plain assms(1) stream hints_xmax [OF assms(1) plain(3)] show ?thesis
      by (auto simp: SatisfiesMVCC_own_def Let_def ins del visible_mvcc_def xid_gone_def)
  qed
qed

lemma mvcc_xmin_test:
  assumes "hints_ok env t" and "own_ok env t" and settled: "csn_settled env snap" and gtm: "\<not> GTM_LITE_MODE env"
    and "combo_known env t"
  shows "case SatisfiesMVCC_xmin ((env, t) # later) snap of
      None \<Rightarrow> False
    | Some (Inl e) \<Rightarrow> xid_gone env (t_xmin t) \<and> \<not> LatestFetchCSNDidAbort env (t_xmin t)
    | Some (Inr (Answer v w ws')) \<Rightarrow> v = visible_mvcc env snap t \<and> hinted_worlds env t later ws'
    | Some (Inr (CheckXmax ws')) \<Rightarrow> mvcc_inserted env snap t \<and> hinted_worlds env t later ws'"
proof (cases "HeapTupleHeaderXminCommitted t")
  case True
  show ?thesis
  proof (cases "HeapTupleHeaderXminFrozen t")
    case frozen: True
    with True assms show ?thesis by (simp add: SatisfiesMVCC_xmin_def mvcc_inserted_def)
  next
    case False
    with True assms(1) have d: "xid_done env (t_xmin t)" by (simp add: hints_ok_def)
    then have "\<not> own_insert env t" by (simp add: own_insert_def xid_done_def)
    with d False True assms show ?thesis
      by (auto simp: SatisfiesMVCC_xmin_def CommittedXidVisible_settled [OF settled _ gtm] xid_done_def gtm_off
          mvcc_inserted_def visible_mvcc_def)
  qed
next
  case False
  then have nf: "\<not> HeapTupleHeaderXminFrozen t" using frozen_committed by blast
  consider (inv) "HeapTupleHeaderXminInvalid t"
    | (own) "\<not> HeapTupleHeaderXminInvalid t" "\<not> IsVersionMVCCSnapshot snap"
        "TransactionIdIsCurrentTransactionId env (t_xmin t)"
    | (other) "\<not> HeapTupleHeaderXminInvalid t"
        "\<not> (\<not> IsVersionMVCCSnapshot snap \<and> TransactionIdIsCurrentTransactionId env (t_xmin t))" by blast
  then show ?thesis
  proof cases
    case inv
    with assms(1) have "xid_gone env (t_xmin t)" by (simp add: hints_ok_def)
    with nf settledD(6) [OF settled, of "t_xmin t"] have "\<not> mvcc_inserted env snap t"
      by (auto simp: mvcc_inserted_def own_insert_def xid_gone_def)
    with inv False assms(1) show ?thesis by (simp add: SatisfiesMVCC_xmin_def visible_mvcc_def)
  next
    case own
    then have "own_insert env t" using nf by (simp add: own_insert_def)
    from mvcc_own_test [OF assms(1,2) this settled own(2) assms(5)] show ?thesis
      using own False by (auto simp: SatisfiesMVCC_xmin_def hinted_worlds_def split: sum.splits prod.splits)
  next
    case other
    have ins: "mvcc_inserted env snap t = visible_xid env snap (t_xmin t)"
      using other nf by (auto simp: mvcc_inserted_def own_insert_def)
    show ?thesis using set_hints_xmin [OF assms(1) settled False other(1), of later] other False
      by (auto simp: SatisfiesMVCC_xmin_def XidVisible_settled [OF settled] ins visible_mvcc_def gtm gtm_off
          hinted_worlds_def split: sum.splits)
  qed
qed

lemma mvcc_views:
  assumes "same_but_hints t t'"
  shows "mvcc_deleted env snap t' = mvcc_deleted env snap t"
    and "mvcc_inserted env snap t' = mvcc_inserted env snap t"
    and "visible_mvcc env snap t' = visible_mvcc env snap t"
proof -
  note v = same_but_hints_views [OF assms]
  show d: "mvcc_deleted env snap t' = mvcc_deleted env snap t"
    using v by (simp add: mvcc_deleted_def cong: option.case_cong)
  show i: "mvcc_inserted env snap t' = mvcc_inserted env snap t"
    using v assms by (simp add: mvcc_inserted_def same_but_hints_def)
  show "visible_mvcc env snap t' = visible_mvcc env snap t" using d i by (simp add: visible_mvcc_def)
qed

lemma mvcc_core:
  assumes "hints_ok env t" and "own_ok env t" and settled: "csn_settled env snap" and session: "mvcc_session env"
    and "combo_known env t"
  shows "case HeapTupleSatisfiesMVCC ((env, t) # later) snap of
      None \<Rightarrow> False
    | Some (Inl e) \<Rightarrow> csn_unknown env t
    | Some (Inr (v, w, ws')) \<Rightarrow> v = visible_mvcc env snap t \<and> hinted_worlds env t later ws'"
proof -
  have gtm: "\<not> GTM_LITE_MODE env" and "\<not> (XactReadOnly env \<and> enable_show_any_tuples env)"
    using session by (simp_all add: mvcc_session_def)
  then have run: "HeapTupleSatisfiesMVCC ((env, t) # later) snap =
      (case SatisfiesMVCC_xmin ((env, t) # later) snap of
          None \<Rightarrow> None
        | Some (Inl e) \<Rightarrow> Some (Inl e)
        | Some (Inr (Answer v write ws)) \<Rightarrow> Some (Inr (v, write, ws))
        | Some (Inr (CheckXmax ws)) \<Rightarrow> SatisfiesMVCC_xmax ws snap)"
    by (auto simp: HeapTupleSatisfiesMVCC_def)
  note first = mvcc_xmin_test [OF assms(1,2) settled gtm assms(5), of later]
  show ?thesis
  proof (cases "\<exists>ws'. SatisfiesMVCC_xmin ((env, t) # later) snap = Some (Inr (CheckXmax ws'))")
    case False
    with run first show ?thesis
      by (auto simp: csn_unknown_def split: option.splits sum.splits mvcc_step.splits)
  next
    case True
    then obtain t' where x: "SatisfiesMVCC_xmin ((env, t) # later) snap = Some (Inr (CheckXmax ((env, t') # later)))"
      and good: "good_hint env t t'" and ins: "mvcc_inserted env snap t"
      using first by (auto simp: hinted_worlds_def)
    have t': "hints_ok env t'" "same_but_hints t t'" using good by (simp_all add: good_hint_def)
    then have "t_xmax t' = t_xmax t" by (simp add: same_but_hints_def)
    with mvcc_xmax_test [OF t'(1) settled gtm, of later] ins show ?thesis
      unfolding run x option.case sum.case mvcc_step.case mvcc_views(1) [OF t'(2)]
      by (auto simp: visible_mvcc_def csn_unknown_def hinted_worlds_def split: option.splits sum.splits
          intro: good_hint_trans [OF good])
  qed
qed

section \<open>Properties\<close>


definition sample_snapshot :: "CommitSeqNo \<Rightarrow> SnapshotData" where
  "sample_snapshot csn = \<lparr>satisfies = SNAPSHOT_MVCC, xmin = 10, xmax = 150, xip = [100], subxip = [],
     snapshotcsn = csn, prepared_array = [], takenDuringRecovery = False, curcid = 6,
     gtm_snapshot_type = GTM_SNAPSHOT_TYPE_LOCAL\<rparr>"

lemma sample_csn:
  "COMMITSEQNO_IS_COMMITTED 1000" "COMMITSEQNO_IS_COMMITTED 2000" "\<not> COMMITSEQNO_IS_COMMITTED 0"
  "\<not> COMMITSEQNO_IS_COMMITTED 1"
  "\<not> COMMITSEQNO_IS_COMMITTING 1000" "\<not> COMMITSEQNO_IS_COMMITTING 2000" "\<not> COMMITSEQNO_IS_COMMITTING 0"
  "\<not> COMMITSEQNO_IS_COMMITTING 1"
  using aborted_not_committed
  by (simp_all add: COMMITSEQNO_IS_COMMITTED_def COMMITSEQNO_IS_COMMITTING_def COMMITSEQNO_ABORTED_def
      MAX_COMMITSEQNO_def COMMITSEQNO_FROZEN_def COMMITSEQNO_COMMIT_INPROGRESS_def)

lemma sample_settled: "csn_settled sample_env (sample_snapshot csn)"
  unfolding csn_settled_def Let_def
  by (simp add: sample_env_def sample_csn COMMITSEQNO_ABORTED_def sample_snapshot_def)


text \<open>
  A later moment: the session is the same, and a transaction whose commit sequence number is new has got
  one that is not below the snapshot's.
\<close>

definition later_moment :: "xact_env \<Rightarrow> xact_env \<Rightarrow> SnapshotData \<Rightarrow> bool" where
  "later_moment env env' snap \<longleftrightarrow>
     TransactionIdIsCurrentTransactionId env' = TransactionIdIsCurrentTransactionId env \<and>
     MultiXactGetUpdateXid env' = MultiXactGetUpdateXid env \<and> comboCids env' = comboCids env \<and>
     SS_STANDBY_MODE_WITH_REMOTE_EXECUTE env' = SS_STANDBY_MODE_WITH_REMOTE_EXECUTE env \<and>
     (\<forall>x. TransactionIdGetCommitSeqNo env' False x = TransactionIdGetCommitSeqNo env False x \<or>
        \<not> COMMITSEQNO_IS_COMMITTED (TransactionIdGetCommitSeqNo env False x) \<and>
        (COMMITSEQNO_IS_COMMITTED (TransactionIdGetCommitSeqNo env' False x) \<longrightarrow>
          snapshotcsn snap \<le> TransactionIdGetCommitSeqNo env' False x))"

lemma later_visible_xid:
  assumes "later_moment env env' snap"
  shows "visible_xid env' snap x = visible_xid env snap x"
proof -
  have "TransactionIdGetCommitSeqNo env' False x = TransactionIdGetCommitSeqNo env False x \<or>
      \<not> COMMITSEQNO_IS_COMMITTED (TransactionIdGetCommitSeqNo env False x) \<and>
      (COMMITSEQNO_IS_COMMITTED (TransactionIdGetCommitSeqNo env' False x) \<longrightarrow>
        snapshotcsn snap \<le> TransactionIdGetCommitSeqNo env' False x)"
    using assms unfolding later_moment_def by blast
  then show ?thesis by (auto simp: visible_xid_def Let_def)
qed

lemma later_visible_mvcc:
  assumes "later_moment env env' snap" and "same_but_hints t t'"
  shows "visible_mvcc env' snap t' = visible_mvcc env snap t"
proof -
  note l = later_visible_xid [OF assms(1)]
  have e: "updater env' t = updater env t" "own_insert env' t = own_insert env t"
    "HeapTupleHeaderGetCmin env' t = HeapTupleHeaderGetCmin env t" "HeapTupleHeaderGetCmax env' t = HeapTupleHeaderGetCmax env t"
    "TransactionIdIsCurrentTransactionId env' = TransactionIdIsCurrentTransactionId env"
    using assms(1) by (simp_all add: later_moment_def updater_def own_insert_def HeapTupleHeaderGetCmin_def
        HeapTupleHeaderGetCmax_def GetRealCmin_def GetRealCmax_def)
  have "visible_mvcc env' snap t = visible_mvcc env snap t"
    by (simp add: visible_mvcc_def mvcc_inserted_def mvcc_deleted_def e l cong: option.case_cong)
  with mvcc_views(3) [OF assms(2)] show ?thesis by simp
qed

text \<open>
  C20. Snapshots are stable: a tuple tested again with the same snapshot at a later moment, after other
  transactions have committed with sequence numbers that are not below the snapshot's, and after others
  have set hint bits, gets the same answer.
\<close>

theorem HeapTupleSatisfiesMVCC_stable:
  assumes "hints_ok env t" "own_ok env t" "csn_settled env snap" "mvcc_session env" "combo_known env t"
    and "hints_ok env' t'" "own_ok env' t'" "csn_settled env' snap" "mvcc_session env'" "combo_known env' t'"
    and "later_moment env env' snap" and "same_but_hints t t'"
  shows "case (HeapTupleSatisfiesMVCC ((env, t) # ws) snap, HeapTupleSatisfiesMVCC ((env', t') # ws') snap) of
      (Some (Inr (v, _, _)), Some (Inr (v', _, _))) \<Rightarrow> v' = v
    | _ \<Rightarrow> csn_unknown env t \<or> csn_unknown env' t'"
  using mvcc_core [OF assms(1-5), of ws] mvcc_core [OF assms(6-10), of ws'] later_visible_mvcc [OF assms(11,12)]
  by (auto split: option.splits sum.splits prod.splits)

text \<open>At the later moment transaction 200 has committed with sequence number 3000.\<close>

definition later_env :: xact_env where
  "later_env = sample_env\<lparr>
     TransactionIdIsInProgress := (\<lambda>x. x = 100),
     TransactionIdDidCommit := (\<lambda>x. x = 10 \<or> x = 20 \<or> x = 200),
     TransactionIdGetCommitSeqNo := (\<lambda>_ x. if x = 10 then 1000 else if x = 20 then 2000
       else if x = 200 then 3000 else if x = 100 then 0 else 1)\<rparr>"

theorem HeapTupleSatisfiesMVCC_stable_witness:
  "case (HeapTupleSatisfiesMVCC [(sample_env, sample_tuple 10 200 0 0)] (sample_snapshot 1500),
         HeapTupleSatisfiesMVCC [(later_env, sample_tuple 10 200 0 HEAP_XMIN_COMMITTED)] (sample_snapshot 1500)) of
     (Some (Inr (v, _, _)), Some (Inr (v', _, _))) \<Rightarrow> v' = v
   | _ \<Rightarrow> csn_unknown sample_env (sample_tuple 10 200 0 0) \<or>
       csn_unknown later_env (sample_tuple 10 200 0 HEAP_XMIN_COMMITTED)"
proof (rule HeapTupleSatisfiesMVCC_stable)
  have csn3: "COMMITSEQNO_IS_COMMITTED 3000" "\<not> COMMITSEQNO_IS_COMMITTING 3000"
    by (simp_all add: COMMITSEQNO_IS_COMMITTED_def COMMITSEQNO_IS_COMMITTING_def MAX_COMMITSEQNO_def
        COMMITSEQNO_FROZEN_def COMMITSEQNO_COMMIT_INPROGRESS_def)
  show "csn_settled later_env (sample_snapshot 1500)"
    unfolding csn_settled_def Let_def
    by (simp add: later_env_def sample_env_def sample_csn csn3 COMMITSEQNO_ABORTED_def sample_snapshot_def)
  show "later_moment sample_env later_env (sample_snapshot 1500)"
    by (simp add: later_moment_def later_env_def sample_env_def sample_csn csn3 sample_snapshot_def)
  have bits: "bit HEAP_XMIN_COMMITTED j \<longleftrightarrow> j = 8" for j
    unfolding infomask_powers by (rule bit_power16) simp
  show "same_but_hints (sample_tuple 10 200 0 0) (sample_tuple 10 200 0 HEAP_XMIN_COMMITTED)"
    by (auto simp: same_but_hints_def sample_tuple_def xmin_flags bits)
qed ((rule sample_settled | simp add: later_env_def sample_simps mvcc_session_def combo_known_def)+)

lemma XidVisible_answer:
  "XidVisibleInSnapshot_loop looped ws x snap = Some (Inr (v, st, sync, ws')) \<Longrightarrow>
    v = visible_xid (fst (hd ws')) snap x \<and> (looped \<longrightarrow> sync) \<and>
    tl ws' = (if sync \<and> \<not> looped then tl (tl ws) else tl ws)"
proof (induction ws arbitrary: looped)
  case (Cons w ws)
  obtain env tup where w: "w = (env, tup)" by (cases w)
  have ab: "\<not> visible_xid (set_csn env x COMMITSEQNO_ABORTED) snap x"
    using aborted_not_committed by (simp add: visible_xid_def set_csn_def)
  show ?case
  proof (cases "COMMITSEQNO_IS_COMMITTING (TransactionIdGetCommitSeqNo env False x)")
    case True
    then show ?thesis using Cons.prems Cons.IH [of True] ab
      by (auto simp: w Let_def visible_xid_def split: if_splits)
  next
    case False
    then show ?thesis using Cons.prems by (auto simp: w Let_def visible_xid_def split: if_splits)
  qed
qed simp

lemma XidVisible_returns:
  "XidVisibleInSnapshot_loop True (w # ws) x snap \<noteq> None"
  "XidVisibleInSnapshot_loop False (w # w' # ws) x snap \<noteq> None"
proof -
  show r: "XidVisibleInSnapshot_loop True (w # ws) x snap \<noteq> None" for w ws
    by (cases w) (simp add: Let_def)
  show "XidVisibleInSnapshot_loop False (w # w' # ws) x snap \<noteq> None"
    using r [of w' ws] by (cases w) (auto simp: Let_def simp del: XidVisibleInSnapshot_loop.simps(2)
      simp: XidVisibleInSnapshot_loop.simps(2) [of False _ _ "w' # ws"])
qed

lemma CommittedXidVisible_returns:
  "CommittedXidVisibleInSnapshot_loop True (w # ws) x snap \<noteq> None"
  "CommittedXidVisibleInSnapshot_loop False (w # w' # ws) x snap \<noteq> None"
proof -
  show r: "CommittedXidVisibleInSnapshot_loop True (w # ws) x snap \<noteq> None" for w ws
    by (cases w) (simp add: Let_def)
  show "CommittedXidVisibleInSnapshot_loop False (w # w' # ws) x snap \<noteq> None"
    using r [of w' ws] by (cases w) (auto simp: Let_def simp del: CommittedXidVisibleInSnapshot_loop.simps(2)
      simp: CommittedXidVisibleInSnapshot_loop.simps(2) [of False _ _ "w' # ws"])
qed


section \<open>Time capsule\<close>

lemma version_core:
  assumes "hints_ok env t" and "own_ok env t" and "csn_settled env snap" and "mvcc_session env" and "combo_known env t"
  shows "case HeapTupleSatisfiesVersionMVCC ((env, t) # later) snap of
      None \<Rightarrow> False
    | Some (Inl e) \<Rightarrow> csn_unknown env t
    | Some (Inr (v, ws')) \<Rightarrow> v = visible_mvcc env snap t \<and> hinted_worlds env t later ws'"
  using mvcc_core [OF assms, of later]
  by (auto simp: HeapTupleSatisfiesVersionMVCC_def split: option.splits sum.splits)

definition sees_now :: "xact_env \<Rightarrow> HeapTupleHeader \<Rightarrow> bool" where
  "sees_now env t \<longleftrightarrow> visible_now env t \<and> \<not> own_multi_update env t"

lemma now_on_worlds_core:
  assumes "hinted_worlds env t later ws" and "own_ok env t" and "env_ok env"
  shows "case now_on_worlds ws of
      Inl e \<Rightarrow> status_unknown env t
    | Inr (v, w, ws') \<Rightarrow> v = sees_now env t \<and> hinted_worlds env t later ws'"
proof -
  obtain t' where ws: "ws = (env, t') # later" and good: "good_hint env t t'"
    using assms(1) by (auto simp: hinted_worlds_def)
  then have t': "hints_ok env t'" "same_but_hints t t'" by (simp_all add: good_hint_def)
  have "own_ok env t'" using assms(2) same_but_hints_views(4) [OF t'(2), of env] by simp
  from now_core [OF t'(1) this assms(3)] show ?thesis
    using now_views(2,3) [OF t'(2), of env] t'(2)
    by (auto simp: now_on_worlds_def ws hinted_worlds_def sees_now_def status_unknown_def same_but_hints_def
        split: sum.splits intro: good_hint_trans [OF good])
qed



section \<open>Logical decoding\<close>

lemma XidVisibleInDecode_eq: "XidVisibleInDecodeSnapshot env x snap = (visible_xid env snap x, TransactionIdGetStatus env x)"
  by (simp add: XidVisibleInDecodeSnapshot_def visible_xid_def TransactionIdGetStatus_def Let_def COMMITSEQNO_IS_ABORTED_def)

lemma CommittedXidVisibleInDecode_eq:
  "csn_settled env snap \<Longrightarrow> TransactionIdDidCommit env x \<Longrightarrow>
    CommittedXidVisibleInDecodeSnapshot env x snap = visible_xid env snap x"
  using settledD(1-3) [of env snap x] by (simp add: CommittedXidVisibleInDecodeSnapshot_def visible_xid_def Let_def)

text \<open>A tuple that the current transaction has not touched and whose updater is not named by a multixact.\<close>

definition foreign_tuple :: "xact_env \<Rightarrow> HeapTupleHeader \<Rightarrow> bool" where
  "foreign_tuple env t \<longleftrightarrow> \<not> TransactionIdIsCurrentTransactionId env (t_xmin t) \<and>
     (HEAP_XMAX_IS_LOCKED_ONLY t \<or> \<not> has_info t HEAP_XMAX_IS_MULTI \<and> \<not> TransactionIdIsCurrentTransactionId env (t_xmax t))"

lemma decode_xmax_test:
  assumes "hints_ok env t" and settled: "csn_settled env snap" and gtm: "\<not> GTM_LITE_MODE env" and "foreign_tuple env t"
  shows "case HeapTupleXmaxCheckDecodeMVCC ((env, t) # later) snap of
      None \<Rightarrow> False
    | Some (Inl e) \<Rightarrow> xid_gone env (t_xmax t) \<and> \<not> LatestFetchCSNDidAbort env (t_xmax t)
    | Some (Inr (a, ws')) \<Rightarrow> a = (if mvcc_deleted env snap t then None else Some True) \<and> hinted_worlds env t later ws'"
proof (cases rule: updater_cases [of t env])
  case locked
  with assms show ?thesis by (auto simp: HeapTupleXmaxCheckDecodeMVCC_def mvcc_deleted_def)
next
  case multi
  with assms(4) show ?thesis by (simp add: foreign_tuple_def)
next
  case plain
  note upd = hints_xmax [OF assms(1) plain(3)]
  have del: "mvcc_deleted env snap t = visible_xid env snap (t_xmax t)"
    using plain assms(4) by (auto simp: mvcc_deleted_def foreign_tuple_def)
  consider (inv) "has_info t HEAP_XMAX_INVALID"
    | (com) "\<not> has_info t HEAP_XMAX_INVALID" "has_info t HEAP_XMAX_COMMITTED"
    | (other) "\<not> has_info t HEAP_XMAX_INVALID" "\<not> has_info t HEAP_XMAX_COMMITTED" by blast
  then show ?thesis
  proof cases
    case inv
    then have "\<not> mvcc_deleted env snap t" using upd(2) settledD(6) [OF settled, of "t_xmax t"] del
      by (auto simp: xid_gone_def)
    with inv assms show ?thesis by (simp add: HeapTupleXmaxCheckDecodeMVCC_def)
  next
    case com
    then have "TransactionIdDidCommit env (t_xmax t)" using upd by (simp add: xid_done_def)
    with com plain assms show ?thesis
      by (auto simp: HeapTupleXmaxCheckDecodeMVCC_def del gtm_off CommittedXidVisibleInDecode_eq [OF settled])
  next
    case other
    show ?thesis using set_hints_xmax [OF assms(1) settled plain(3), of later] other plain
      by (auto simp: HeapTupleXmaxCheckDecodeMVCC_def XidVisibleInDecode_eq del gtm gtm_off hinted_worlds_def
          split: sum.splits)
  qed
qed

lemma decode_xmin_test:
  assumes "hints_ok env t" and settled: "csn_settled env snap" and gtm: "\<not> GTM_LITE_MODE env" and "foreign_tuple env t"
  shows "case (if \<not> HeapTupleHeaderXminCommitted t then HeapTupleUncommitedXminCheckDecodeMVCC ((env, t) # later) snap
        else HeapTupleCommitedXminCheckDecodeMVCC ((env, t) # later) snap) of
      None \<Rightarrow> False
    | Some (Inl e) \<Rightarrow> xid_gone env (t_xmin t) \<and> \<not> LatestFetchCSNDidAbort env (t_xmin t)
    | Some (Inr (a, ws')) \<Rightarrow> a = (if mvcc_inserted env snap t then None else Some False) \<and> hinted_worlds env t later ws'"
proof -
  have foreign: "\<not> TransactionIdIsCurrentTransactionId env (t_xmin t)" using assms(4) by (simp add: foreign_tuple_def)
  then have ins: "mvcc_inserted env snap t = (HeapTupleHeaderXminFrozen t \<or> visible_xid env snap (t_xmin t))"
    by (auto simp: mvcc_inserted_def own_insert_def)
  show ?thesis
  proof (cases "HeapTupleHeaderXminCommitted t")
    case True
    then have "HeapTupleHeaderXminFrozen t \<or> TransactionIdDidCommit env (t_xmin t)"
      using assms(1) by (auto simp: hints_ok_def xid_done_def)
    with True assms(1) show ?thesis
      by (auto simp: HeapTupleCommitedXminCheckDecodeMVCC_def ins gtm_off [OF gtm] CommittedXidVisibleInDecode_eq [OF settled])
  next
    case False
    then have nf: "\<not> HeapTupleHeaderXminFrozen t" using frozen_committed by blast
    show ?thesis
    proof (cases "HeapTupleHeaderXminInvalid t")
      case True
      then have "\<not> visible_xid env snap (t_xmin t)"
        using assms(1) settledD(6) [OF settled, of "t_xmin t"] by (auto simp: hints_ok_def xid_gone_def)
      with True False nf assms(1) ins show ?thesis by (simp add: HeapTupleUncommitedXminCheckDecodeMVCC_def)
    next
      case valid: False
      from set_hints_xmin [OF assms(1) settled False valid, of later] show ?thesis
        using False valid nf foreign
        by (auto simp: HeapTupleUncommitedXminCheckDecodeMVCC_def XidVisibleInDecode_eq ins gtm gtm_off hinted_worlds_def
            split: sum.splits)
    qed
  qed
qed

lemma decode_core:
  assumes "hints_ok env t" and settled: "csn_settled env snap" and session: "mvcc_session env" and "foreign_tuple env t"
  shows "case HeapTupleSatisfiesDecodeMVCC ((env, t) # later) snap of
      None \<Rightarrow> False
    | Some (Inl e) \<Rightarrow> csn_unknown env t
    | Some (Inr (v, ws')) \<Rightarrow> v = visible_mvcc env snap t \<and> hinted_worlds env t later ws'"
proof -
  have gtm: "\<not> GTM_LITE_MODE env" and show_any: "(XactReadOnly env \<and> enable_show_any_tuples env) = False"
    using session by (auto simp: mvcc_session_def)
  let ?first = "if \<not> HeapTupleHeaderXminCommitted t then HeapTupleUncommitedXminCheckDecodeMVCC ((env, t) # later) snap
        else HeapTupleCommitedXminCheckDecodeMVCC ((env, t) # later) snap"
  note first = decode_xmin_test [OF assms(1) settled gtm assms(4), of later]
  have run: "HeapTupleSatisfiesDecodeMVCC ((env, t) # later) snap = (case ?first of
          None \<Rightarrow> None
        | Some (Inl e) \<Rightarrow> Some (Inl e)
        | Some (Inr (Some visible, ws)) \<Rightarrow> Some (Inr (visible, ws))
        | Some (Inr (None, ws)) \<Rightarrow>
            (case HeapTupleXmaxCheckDecodeMVCC ws snap of
               None \<Rightarrow> None
             | Some (Inl e) \<Rightarrow> Some (Inl e)
             | Some (Inr (Some visible, ws)) \<Rightarrow> Some (Inr (visible, ws))
             | Some (Inr (None, ws)) \<Rightarrow> Some (Inr (False, ws))))"
    unfolding HeapTupleSatisfiesDecodeMVCC_def by (simp only: list.sel prod.sel show_any if_False)
  show ?thesis
  proof (cases "\<exists>ws'. ?first = Some (Inr (None, ws'))")
    case False
    with first show ?thesis unfolding run
      by (auto simp: visible_mvcc_def csn_unknown_def split: option.splits sum.splits if_splits)
  next
    case True
    then obtain t' where x: "?first = Some (Inr (None, (env, t') # later))"
      and good: "good_hint env t t'" and ins: "mvcc_inserted env snap t"
      using first by (auto simp: hinted_worlds_def split: if_splits)
    have t': "hints_ok env t'" "same_but_hints t t'" using good by (simp_all add: good_hint_def)
    then have f: "foreign_tuple env t'" "t_xmax t' = t_xmax t"
      using assms(4) same_but_hints_views(7,8) [OF t'(2)] by (simp_all add: foreign_tuple_def same_but_hints_def)
    note second = decode_xmax_test [OF t'(1) settled gtm f(1), of later]
    show ?thesis using second ins f(2)
      unfolding run x option.case sum.case prod.case mvcc_views(1) [OF t'(2)]
      by (auto simp: visible_mvcc_def csn_unknown_def hinted_worlds_def split: option.splits sum.splits if_splits
          intro: good_hint_trans [OF good])
  qed
qed

text \<open>
  Parallel decoding sees what MVCC sees: on tuples of other transactions whose updater is not named by a
  multixact, \<open>HeapTupleSatisfiesDecodeMVCC\<close> and \<open>HeapTupleSatisfiesMVCC\<close> give the same answer for the same snapshot.
\<close>

theorem decode_agrees_with_mvcc:
  assumes "hints_ok env t" and "csn_settled env snap" and "mvcc_session env" and "foreign_tuple env t"
  shows "case (HeapTupleSatisfiesDecodeMVCC ((env, t) # later) snap, HeapTupleSatisfiesMVCC ((env, t) # later) snap) of
      (Some (Inr (v, _)), Some (Inr (v', _, _))) \<Rightarrow> v = v'
    | _ \<Rightarrow> csn_unknown env t"
proof -
  have "own_ok env t" "combo_known env t"
    using assms(4) by (simp_all add: own_ok_def combo_known_def own_insert_def foreign_tuple_def)
  from mvcc_core [OF assms(1) this(1) assms(2,3) this(2), of later] decode_core [OF assms, of later] show ?thesis
    by (auto split: option.splits sum.splits prod.splits)
qed

theorem decode_agrees_with_mvcc_witness:
  "case (HeapTupleSatisfiesDecodeMVCC [(sample_env, sample_tuple 10 20 0 0)] (sample_snapshot 2500),
         HeapTupleSatisfiesMVCC [(sample_env, sample_tuple 10 20 0 0)] (sample_snapshot 2500)) of
     (Some (Inr (v, _)), Some (Inr (v', _, _))) \<Rightarrow> v = v'
   | _ \<Rightarrow> csn_unknown sample_env (sample_tuple 10 20 0 0)"
  by (rule decode_agrees_with_mvcc [OF _ sample_settled]) (simp_all add: sample_simps mvcc_session_def foreign_tuple_def)

text \<open>
  With a multixact they differ: the tuple was updated by transaction 20, which the snapshot sees, and decoding
  still finds it.
\<close>

lemma decode_ignores_multixact_updater:
  "HeapTupleSatisfiesDecodeMVCC [(sample_env, sample_tuple 10 7 0 HEAP_XMAX_IS_MULTI)] (sample_snapshot 2500) =
     Some (Inr (True, [(sample_env, SetHintBits sample_env (sample_tuple 10 7 0 HEAP_XMAX_IS_MULTI) HEAP_XMIN_COMMITTED 10)]))"
  "\<not> visible_mvcc sample_env (sample_snapshot 2500) (sample_tuple 10 7 0 HEAP_XMAX_IS_MULTI)"
  by (simp_all add: HeapTupleSatisfiesDecodeMVCC_def HeapTupleUncommitedXminCheckDecodeMVCC_def
      HeapTupleXmaxCheckDecodeMVCC_def XidVisibleInDecodeSnapshot_def set_hints_def SetHintBits_def
      visible_mvcc_def mvcc_inserted_def mvcc_deleted_def visible_xid_def sample_simps sample_snapshot_def sample_csn Let_def
      TransactionIdIsValid_def InvalidTransactionId_def)

text \<open>
  A historic snapshot: a transaction other than the decoded one is visible when it committed below \<open>xmin\<close> or is
  listed as committed between \<open>xmin\<close> and \<open>xmax\<close>.
\<close>

definition historic_xid :: "xact_env \<Rightarrow> SnapshotData \<Rightarrow> TransactionId \<Rightarrow> bool" where
  "historic_xid env snap x \<longleftrightarrow>
     (if x < xmin snap then TransactionIdDidCommit env x else x < xmax snap \<and> x \<in> set (xip snap))"

definition visible_historic :: "xact_env \<Rightarrow> SnapshotData \<Rightarrow> HeapTupleHeader \<Rightarrow> CommandId \<Rightarrow> CommandId \<Rightarrow> bool" where
  "visible_historic env snap t cmin cmax \<longleftrightarrow>
     (if t_xmin t \<in> set (subxip snap) then cmin < curcid snap
      else HeapTupleHeaderXminFrozen t \<or> historic_xid env snap (t_xmin t)) \<and>
     \<not> (if t_xmax t \<in> set (subxip snap) then cmax < curcid snap else historic_xid env snap (t_xmax t))"

text \<open>
  The listed transactions have committed, the ids of the decoded transaction have not aborted, and a frozen
  tuple is older than the snapshot.
\<close>

definition historic_ok :: "xact_env \<Rightarrow> SnapshotData \<Rightarrow> HeapTupleHeader \<Rightarrow> bool" where
  "historic_ok env snap t \<longleftrightarrow>
     (\<forall>x \<in> set (xip snap). TransactionIdDidCommit env x) \<and> (\<forall>x \<in> set (subxip snap). \<not> xid_gone env x) \<and>
     (HeapTupleHeaderXminFrozen t \<longrightarrow> t_xmin t < xmin snap \<and> t_xmin t \<notin> set (subxip snap))"

lemma historic_xid_gone: "historic_ok env snap t \<Longrightarrow> xid_gone env x \<Longrightarrow> \<not> historic_xid env snap x \<and> x \<notin> set (subxip snap)"
  by (auto simp: historic_ok_def historic_xid_def xid_gone_def split: if_splits)

lemma historic_xmin:
  assumes "hints_ok env t" and "historic_ok env snap t"
  shows "HistoricMVCC_xmin env t snap (Some (cmin, cmax)) =
    Inr (if t_xmin t \<in> set (subxip snap) then cmin < curcid snap
      else HeapTupleHeaderXminFrozen t \<or> historic_xid env snap (t_xmin t))"
proof (cases "HeapTupleHeaderXminInvalid t")
  case True
  then have "xid_gone env (t_xmin t)" using assms(1) by (simp add: hints_ok_def)
  with historic_xid_gone [OF assms(2)] True frozen_not_invalid show ?thesis by (auto simp: HistoricMVCC_xmin_def)
next
  case False
  have "HeapTupleHeaderXminCommitted t \<Longrightarrow> HeapTupleHeaderXminFrozen t \<or> TransactionIdDidCommit env (t_xmin t)"
    using assms(1) by (auto simp: hints_ok_def xid_done_def)
  with False assms(2) frozen_committed [of t] show ?thesis
    by (auto simp: HistoricMVCC_xmin_def TransactionIdInArray_def TransactionIdPrecedes_def historic_xid_def historic_ok_def)
qed

text \<open>
  \<open>HeapTupleSatisfiesHistoricMVCC\<close> on a tuple that is not just locked, with the command ids
  recorded for it: it answers as the catalog stood at the decoded command. For the decoded transaction's own tuples the
  recorded command ids decide, and without a record it reports an error.
\<close>

theorem HeapTupleSatisfiesHistoricMVCC_correct:
  assumes "hints_ok env t" and "historic_ok env snap t" and "\<not> HEAP_XMAX_IS_LOCKED_ONLY t" and "\<not> has_info t HEAP_XMAX_IS_MULTI"
  shows "HeapTupleSatisfiesHistoricMVCC env t snap (Some (cmin, cmax)) = Inr (visible_historic env snap t cmin cmax) \<and>
    (t_xmin t \<in> set (subxip snap) \<and> \<not> HeapTupleHeaderXminInvalid t \<longrightarrow>
      HeapTupleSatisfiesHistoricMVCC env t snap None = Inl ERRCODE_NO_DATA_FOUND)"
proof (intro conjI impI)
  have upd: "updater env t = Some (t_xmax t)" using assms(3,4) by (simp add: updater_def)
  note h = hints_xmax [OF assms(1) upd]
  have inv: "has_info t HEAP_XMAX_INVALID \<Longrightarrow> \<not> historic_xid env snap (t_xmax t) \<and> t_xmax t \<notin> set (subxip snap)"
    using h(2) historic_xid_gone [OF assms(2)] by blast
  show "HeapTupleSatisfiesHistoricMVCC env t snap (Some (cmin, cmax)) = Inr (visible_historic env snap t cmin cmax)"
    using inv h(1)
    by (auto simp: HeapTupleSatisfiesHistoricMVCC_def historic_xmin [OF assms(1,2)] visible_historic_def historic_xid_def
        TransactionIdInArray_def TransactionIdPrecedes_def xid_done_def)
next
  assume "t_xmin t \<in> set (subxip snap) \<and> \<not> HeapTupleHeaderXminInvalid t"
  then show "HeapTupleSatisfiesHistoricMVCC env t snap None = Inl ERRCODE_NO_DATA_FOUND"
    by (simp add: HeapTupleSatisfiesHistoricMVCC_def HistoricMVCC_xmin_def TransactionIdInArray_def)
qed

definition sample_historic :: SnapshotData where
  "sample_historic = (sample_snapshot 0)\<lparr>satisfies := SNAPSHOT_HISTORIC_MVCC, xmin := 15, xip := [20], subxip := [100]\<rparr>"

theorem HeapTupleSatisfiesHistoricMVCC_witness:
  "HeapTupleSatisfiesHistoricMVCC sample_env (sample_tuple 10 20 0 0) sample_historic (Some (3, 4)) =
     Inr (visible_historic sample_env sample_historic (sample_tuple 10 20 0 0) 3 4) \<and>
   HeapTupleSatisfiesHistoricMVCC sample_env (sample_tuple 100 20 0 0) sample_historic None = Inl ERRCODE_NO_DATA_FOUND"
  using HeapTupleSatisfiesHistoricMVCC_correct [of sample_env "sample_tuple 10 20 0 0" sample_historic 3 4]
    HeapTupleSatisfiesHistoricMVCC_correct [of sample_env "sample_tuple 100 20 0 0" sample_historic]
  by (simp add: sample_simps historic_ok_def sample_historic_def sample_snapshot_def)

text \<open>
  A lock is taken for a deletion: the catalog tuple is only locked, by transaction 20 which has committed,
  and the historic snapshot does not see it any more.
\<close>

lemma historic_takes_lock_for_delete:
  "HeapTupleSatisfiesHistoricMVCC sample_env (sample_tuple 10 20 0 HEAP_XMAX_EXCL_LOCK) sample_historic None = Inr False"
  "HEAP_XMAX_IS_LOCKED_ONLY (sample_tuple 10 20 0 HEAP_XMAX_EXCL_LOCK)"
  by (simp_all add: HeapTupleSatisfiesHistoricMVCC_def HistoricMVCC_xmin_def TransactionIdInArray_def
      TransactionIdPrecedes_def sample_historic_def sample_snapshot_def sample_simps)

section \<open>Serialization failures\<close>



end
