(* ===== verification/Reorder_Buffer.thy ===== *)
theory Reorder_Buffer
  imports Binary_Heap
begin

text \<open>
  The iterator of \<open>src/gausskernel/storage/replication/logical/reorderbuffer.cpp\<close> over the changes
  of a transaction and its subtransactions: a k-way merge on a binary heap, with changes that were
  spilled to disk and are read back in batches. A client of the interface \<open>heap_order\<close>.

  A spill file is the list of the changes it holds, one file per WAL segment; a file exists when it is not empty.
  The bytes of a change and I/O errors are not modelled, nor is the memory that \<open>old_change\<close> frees.
\<close>

section \<open>Transactions and spill files\<close>

record 'a ReorderBufferChange =
  lsn :: uint64
  action :: 'a

record 'a ReorderBufferTXN =
  first_lsn :: uint64
  final_lsn :: uint64
  is_known_as_subxact :: bool
  serialized :: bool
  nentries :: nat
  nentries_mem :: nat
  changes :: "'a ReorderBufferChange list"
  snap_files :: "nat \<Rightarrow> 'a ReorderBufferChange list"

text \<open>\<open>XLogSegSize\<close> is configured when the server is built; 16 MB is the default.\<close>

definition XLogSegSize :: nat where
  "XLogSegSize = 16777216"

definition seg_of :: "uint64 \<Rightarrow> nat" where
  "seg_of p = unat p div XLogSegSize"

definition serialize_change ::
  "'a ReorderBufferChange \<Rightarrow> (nat \<Rightarrow> 'a ReorderBufferChange list) \<Rightarrow> nat \<Rightarrow> 'a ReorderBufferChange list" where
  "serialize_change change files = files(seg_of (lsn change) := files (seg_of (lsn change)) @ [change])"

text \<open>\<open>ReorderBufferSerializeTXN\<close> for one transaction: each change moves \<open>final_lsn\<close> up if need be.\<close>

definition serialize_txn :: "'a ReorderBufferTXN \<Rightarrow> 'a ReorderBufferTXN" where
  "serialize_txn txn = txn\<lparr>snap_files := fold serialize_change (changes txn) (snap_files txn),
     final_lsn := fold (\<lambda>change final. if final < lsn change then lsn change else final) (changes txn) (final_lsn txn),
     changes := [], serialized := True, nentries_mem := 0\<rparr>"

text \<open>
  A family is the list of a top-level transaction, number 0, and its subtransactions; the subtransactions that are known
  as such are in the list \<open>subtxns\<close> of the top-level one and are serialized with it.
\<close>

definition ReorderBufferSerializeTXN :: "nat \<Rightarrow> 'a ReorderBufferTXN list \<Rightarrow> 'a ReorderBufferTXN list" where
  "ReorderBufferSerializeTXN i ts =
     map (\<lambda>(j, t). if j = i \<or> (i = 0 \<and> is_known_as_subxact t) then serialize_txn t else t) (enumerate 0 ts)"

text \<open>
  \<open>limit\<close> is the outcome of the two tests of \<open>ReorderBufferCheckSerializeTXN\<close> on the memory used by the transaction and
  by the whole buffer, against options of the output plugin.
\<close>

definition ReorderBufferCheckSerializeTXN :: "nat \<Rightarrow> bool \<Rightarrow> nat \<Rightarrow> 'a ReorderBufferTXN list \<Rightarrow> 'a ReorderBufferTXN list" where
  "ReorderBufferCheckSerializeTXN max_changes limit i ts =
     (if nentries_mem (ts ! i) \<ge> max_changes \<or> limit then ReorderBufferSerializeTXN i ts else ts)"

definition ReorderBufferQueueChange ::
  "nat \<Rightarrow> bool \<Rightarrow> nat \<Rightarrow> 'a ReorderBufferChange \<Rightarrow> 'a ReorderBufferTXN list \<Rightarrow> 'a ReorderBufferTXN list" where
  "ReorderBufferQueueChange max_changes limit i change ts =
     (let txn = ts ! i
      in ReorderBufferCheckSerializeTXN max_changes limit i
           (ts[i := txn\<lparr>changes := changes txn @ [change], nentries := nentries txn + 1, nentries_mem := nentries_mem txn + 1\<rparr>]))"

text \<open>The transaction as \<open>ReorderBufferTXNByXid\<close> creates it, zeroed by \<open>ReorderBufferGetTXN\<close>.\<close>

definition ReorderBufferGetTXN :: "uint64 \<Rightarrow> 'a ReorderBufferTXN" where
  "ReorderBufferGetTXN start = \<lparr>first_lsn = start, final_lsn = 0, is_known_as_subxact = False, serialized = False, nentries = 0,
     nentries_mem = 0, changes = [], snap_files = (\<lambda>_. [])\<rparr>"

text \<open>
  The subtransaction joins the list \<open>subtxns\<close> of its top-level transaction, or is there already; base snapshots and the list
  of all top-level transactions are not part of the family.
\<close>

definition ReorderBufferAssignChild :: "nat \<Rightarrow> 'a ReorderBufferTXN list \<Rightarrow> 'a ReorderBufferTXN list" where
  "ReorderBufferAssignChild i ts = ts[i := (ts ! i)\<lparr>is_known_as_subxact := True\<rparr>]"

text \<open>
  \<open>ReorderBufferCommitChild\<close> for every subtransaction and the start of \<open>ReorderBufferCommit\<close>: the commit LSNs are noted.
\<close>

definition commit_lsns :: "uint64 list \<Rightarrow> 'a ReorderBufferTXN list \<Rightarrow> 'a ReorderBufferTXN list" where
  "commit_lsns ls ts = map2 (\<lambda>l t. t\<lparr>final_lsn := l, is_known_as_subxact := True\<rparr>) ls ts"

text \<open>
  The loop of \<open>ReorderBufferRestoreChanges\<close>: \<open>fd\<close> is the position in the open file (\<open>None\<close> for \<open>-1\<close>), \<open>got\<close> the
  changes restored so far.
\<close>

function restore_loop ::
  "nat \<Rightarrow> nat \<Rightarrow> nat \<Rightarrow> (nat \<Rightarrow> 'c list) \<Rightarrow> 'c list \<Rightarrow> nat option \<Rightarrow> nat \<Rightarrow> 'c list \<times> nat option \<times> nat" where
  "restore_loop max_changes first_segno last_segno files got fd segno =
     (if length got < max_changes \<and> segno \<le> last_segno then
        (case fd of
           None \<Rightarrow>
             (let segno' = (if segno = 0 then first_segno else segno)
              in if files segno' = [] then restore_loop max_changes first_segno last_segno files got None (segno' + 1)
                 else restore_loop max_changes first_segno last_segno files (got @ [files segno' ! 0]) (Some 1) segno')
         | Some pos \<Rightarrow>
             if pos \<ge> length (files segno) then restore_loop max_changes first_segno last_segno files got None (segno + 1)
             else restore_loop max_changes first_segno last_segno files (got @ [files segno ! pos]) (Some (pos + 1)) segno)
      else (got, fd, segno))"
  by pat_completeness auto
termination
  by (relation "measures [\<lambda>(m, f, l, fs, got, fd, segno). l + 1 - segno, \<lambda>(m, f, l, fs, got, fd, segno). m - length got]") auto

declare restore_loop.simps [simp del]

text \<open>The number of changes restored is the length of the in-memory list afterwards.\<close>

definition ReorderBufferRestoreChanges ::
  "nat \<Rightarrow> 'a ReorderBufferTXN \<Rightarrow> nat option \<Rightarrow> nat \<Rightarrow> 'a ReorderBufferTXN \<times> nat option \<times> nat" where
  "ReorderBufferRestoreChanges max_changes txn fd segno =
     (let (got, fd, segno) =
        restore_loop max_changes (seg_of (first_lsn txn)) (seg_of (final_lsn txn)) (snap_files txn) [] fd segno
      in (txn\<lparr>changes := got, nentries_mem := length got\<rparr>, fd, segno))"

section \<open>The iterator\<close>

text \<open>An entry has the position of its change in the list of the transaction, whose number is \<open>txn_no\<close>.\<close>

record ReorderBufferIterTXNEntry =
  entry_lsn :: uint64
  change_pos :: nat
  txn_no :: nat
  fd :: "nat option"
  segno :: nat

record 'a ReorderBufferIterTXNState =
  txns :: "'a ReorderBufferTXN list"
  heap :: "nat binaryheap"
  entries :: "ReorderBufferIterTXNEntry list"

definition ReorderBufferIterCompare :: "ReorderBufferIterTXNEntry list \<Rightarrow> nat comparator" where
  "ReorderBufferIterCompare es a b =
     (let pos_a = entry_lsn (es ! a); pos_b = entry_lsn (es ! b)
      in if pos_a < pos_b then 1 else if pos_a = pos_b then 0 else -1)"

text \<open>
  One transaction of \<open>ReorderBufferIterTXNInit\<close>; number 0 is the top-level one. The \<open>ereport\<close> of
  \<open>binaryheap_add_unordered\<close> is an error of the call.
\<close>

definition iter_add_txn ::
  "nat \<Rightarrow> nat \<Rightarrow> 'a ReorderBufferIterTXNState \<Rightarrow> 'a ReorderBufferIterTXNState result" where
  "iter_add_txn max_changes i state =
     (let txn = txns state ! i
      in if nentries txn > 0 then
           let (ts, f, s) =
                 (if serialized txn then
                    let ts = ReorderBufferSerializeTXN i (txns state);
                        (txn', f, s) = ReorderBufferRestoreChanges max_changes (ts ! i) None 0
                    in (ts[i := txn'], f, s)
                  else (txns state, None, 0));
               cur_change = hd (changes (ts ! i));
               off = length (entries state);
               es = entries state @ [\<lparr>entry_lsn = lsn cur_change, change_pos = 0, txn_no = i, fd = f, segno = s\<rparr>]
           in case binaryheap_add_unordered (heap state) off of
                Inl e \<Rightarrow> Inl e
              | Inr h \<Rightarrow> Inr \<lparr>txns = ts, heap = h, entries = es\<rparr>
         else Inr state)"

primrec iter_add_txns ::
  "nat \<Rightarrow> nat list \<Rightarrow> 'a ReorderBufferIterTXNState \<Rightarrow> 'a ReorderBufferIterTXNState result" where
  "iter_add_txns max_changes [] state = Inr state"
| "iter_add_txns max_changes (i # is) state =
     (case iter_add_txn max_changes i state of Inl e \<Rightarrow> Inl e | Inr state \<Rightarrow> iter_add_txns max_changes is state)"

definition ReorderBufferIterTXNInit ::
  "nat \<Rightarrow> 'a ReorderBufferTXN list \<Rightarrow> 'a ReorderBufferIterTXNState result" where
  "ReorderBufferIterTXNInit max_changes ts =
     (let nr_txns = length (filter (\<lambda>txn. nentries txn > 0) ts);
          state = \<lparr>txns = ts, heap = binaryheap_allocate nr_txns (replicate nr_txns 0), entries = []\<rparr>
      in case iter_add_txns max_changes [0..<length ts] state of
           Inl e \<Rightarrow> Inl e
         | Inr state \<Rightarrow> Inr (state\<lparr>heap := binaryheap_build (ReorderBufferIterCompare (entries state)) (heap state)\<rparr>))"

definition replace_entry ::
  "'a ReorderBufferIterTXNState \<Rightarrow> nat \<Rightarrow> ReorderBufferIterTXNEntry \<Rightarrow> 'a ReorderBufferTXN \<Rightarrow> 'a ReorderBufferIterTXNState" where
  "replace_entry state off entry txn =
     (let es = (entries state)[off := entry]
      in state\<lparr>txns := (txns state)[txn_no entry := txn], entries := es,
           heap := the (binaryheap_replace_first (ReorderBufferIterCompare es) (heap state) off)\<rparr>)"

definition remove_entry ::
  "'a ReorderBufferIterTXNState \<Rightarrow> nat \<Rightarrow> ReorderBufferIterTXNEntry \<Rightarrow> 'a ReorderBufferTXN \<Rightarrow> 'a ReorderBufferIterTXNState" where
  "remove_entry state off entry txn =
     (let es = (entries state)[off := entry]
      in state\<lparr>txns := (txns state)[txn_no entry := txn], entries := es,
           heap := snd (the (binaryheap_remove_first (ReorderBufferIterCompare es) (heap state)))\<rparr>)"

text \<open>\<open>None\<close> is the \<open>NULL\<close> change.\<close>

definition ReorderBufferIterTXNNext ::
  "nat \<Rightarrow> 'a ReorderBufferIterTXNState \<Rightarrow> 'a ReorderBufferChange option \<times> 'a ReorderBufferIterTXNState" where
  "ReorderBufferIterTXNNext max_changes state =
     (if bh_size (heap state) = 0 then (None, state)
      else
        let off = the (binaryheap_first (heap state));
            entry = entries state ! off;
            txn = txns state ! txn_no entry;
            change = changes txn ! change_pos entry
        in if change_pos entry + 1 < length (changes txn) then
             (Some change, replace_entry state off
                (entry\<lparr>change_pos := change_pos entry + 1, entry_lsn := lsn (changes txn ! (change_pos entry + 1))\<rparr>) txn)
           else if nentries txn \<noteq> nentries_mem txn then
             (let txn1 = txn\<lparr>changes := take (change_pos entry) (changes txn)\<rparr>;
                  (txn2, f, s) = ReorderBufferRestoreChanges max_changes txn1 (fd entry) (segno entry);
                  entry = entry\<lparr>fd := f, segno := s\<rparr>
              in if length (changes txn2) > 0 then
                   (Some change, replace_entry state off
                      (entry\<lparr>change_pos := 0, entry_lsn := lsn (hd (changes txn2))\<rparr>) txn2)
                 else (Some change, remove_entry state off entry txn2))
           else (Some change, remove_entry state off entry txn))"

text \<open>The loop of the caller: \<open>while ((change = ReorderBufferIterTXNNext(rb, iterstate)) != NULL)\<close>, for at most \<open>n\<close> changes.\<close>

primrec iter_changes :: "nat \<Rightarrow> nat \<Rightarrow> 'a ReorderBufferIterTXNState \<Rightarrow> 'a ReorderBufferChange list" where
  "iter_changes 0 max_changes state = []"
| "iter_changes (Suc n) max_changes state =
     (case ReorderBufferIterTXNNext max_changes state of
        (None, _) \<Rightarrow> []
      | (Some change, state) \<Rightarrow> change # iter_changes n max_changes state)"

text \<open>
  What the decoder tells the buffer about a family, in the order of the WAL: a change of transaction \<open>i\<close>, or that \<open>i\<close> is
  a subtransaction.
\<close>

datatype 'a wal_event = Change nat bool "'a ReorderBufferChange" | Assign nat

fun decode_event :: "nat \<Rightarrow> 'a wal_event \<Rightarrow> 'a ReorderBufferTXN list \<Rightarrow> 'a ReorderBufferTXN list" where
  "decode_event max_changes (Change i limit change) ts = ReorderBufferQueueChange max_changes limit i change ts"
| "decode_event max_changes (Assign i) ts = ReorderBufferAssignChild i ts"

fun event_changes :: "(nat \<Rightarrow> bool) \<Rightarrow> 'a wal_event \<Rightarrow> 'a ReorderBufferChange list" where
  "event_changes P (Change i limit change) = (if P i then [change] else [])"
| "event_changes P (Assign i) = []"

abbreviation wal_changes :: "(nat \<Rightarrow> bool) \<Rightarrow> 'a wal_event list \<Rightarrow> 'a ReorderBufferChange list" where
  "wal_changes P evs \<equiv> concat (map (event_changes P) evs)"

interpretation reorder: heap_order "ReorderBufferIterCompare es" for es
  by unfold_locales (auto simp: ReorderBufferIterCompare_def Let_def split: if_splits)

section \<open>Reading back\<close>

text \<open>What is still to be read.\<close>

definition unread :: "nat \<Rightarrow> nat \<Rightarrow> (nat \<Rightarrow> 'c list) \<Rightarrow> nat option \<Rightarrow> nat \<Rightarrow> 'c list" where
  "unread fst_seg lst files f s =
     (case f of
        None \<Rightarrow> concat (map files [if s = 0 then fst_seg else s..<lst + 1])
      | Some pos \<Rightarrow> if s \<le> lst then drop pos (files s) @ concat (map files [s + 1..<lst + 1]) else [])"

lemma unread_first: "s \<le> lst \<Longrightarrow> concat (map files [s..<lst + 1]) = files s @ concat (map files [s + 1..<lst + 1])"
  by (simp add: upt_rec)

lemma restore_loop_eq:
  assumes "fst_seg \<le> lst"
  shows "case restore_loop m fst_seg lst files got f s of (got', f', s') \<Rightarrow>
    got' = got @ take (m - length got) (unread fst_seg lst files f s) \<and>
    unread fst_seg lst files f' s' = drop (m - length got) (unread fst_seg lst files f s)"
  using assms
proof (induction m fst_seg lst files got f s rule: restore_loop.induct)
  case (1 m fst_seg lst files got f s)
  note step = restore_loop.simps [of m fst_seg lst files got f s]
  show ?case
  proof (cases "length got < m \<and> s \<le> lst")
    case False
    then have "restore_loop m fst_seg lst files got f s = (got, f, s)" by (simp only: step if_False)
    moreover have "m - length got = 0 \<or> unread fst_seg lst files f s = []"
      using False by (cases f) (auto simp: unread_def)
    ultimately show ?thesis by auto
  next
    case True
    then have m: "m - length got = Suc (m - Suc (length got))" by arith
    show ?thesis
    proof (cases f)
      case None
      define s1 where "s1 = (if s = 0 then fst_seg else s)"
      have s1: "s1 \<le> lst" using True "1.prems" by (simp add: s1_def)
      have u: "unread fst_seg lst files f s = files s1 @ concat (map files [s1 + 1..<lst + 1])"
        using unread_first [OF s1, of files] None by (simp add: unread_def s1_def)
      show ?thesis
      proof (cases "files s1 = []")
        case empty: True
        have r: "restore_loop m fst_seg lst files got f s = restore_loop m fst_seg lst files got None (s1 + 1)"
          unfolding step using True None empty by (simp add: s1_def [symmetric])
        have "unread fst_seg lst files None (s1 + 1) = unread fst_seg lst files f s"
          using u empty by (simp add: unread_def)
        with "1.IH"(1) [OF True None s1_def empty "1.prems"] show ?thesis unfolding r by simp
      next
        case False
        have r: "restore_loop m fst_seg lst files got f s =
            restore_loop m fst_seg lst files (got @ [files s1 ! 0]) (Some 1) s1"
          unfolding step using True None False by (simp add: s1_def [symmetric])
        have "unread fst_seg lst files f s = files s1 ! 0 # unread fst_seg lst files (Some 1) s1"
          using u s1 False by (cases "files s1") (simp_all add: unread_def)
        with "1.IH"(2) [OF True None s1_def False "1.prems"] m show ?thesis unfolding r
          by (simp split: prod.splits)
      qed
    next
      case (Some pos)
      show ?thesis
      proof (cases "length (files s) \<le> pos")
        case eof: True
        have r: "restore_loop m fst_seg lst files got f s = restore_loop m fst_seg lst files got None (s + 1)"
          unfolding step using True Some eof by simp
        have "unread fst_seg lst files f s = unread fst_seg lst files None (s + 1)"
          using eof True Some by (simp add: unread_def)
        with "1.IH"(3) [OF True Some eof "1.prems"] show ?thesis unfolding r by simp
      next
        case False
        have r: "restore_loop m fst_seg lst files got f s =
            restore_loop m fst_seg lst files (got @ [files s ! pos]) (Some (pos + 1)) s"
          unfolding step using True Some False by simp
        have "unread fst_seg lst files f s = files s ! pos # unread fst_seg lst files (Some (pos + 1)) s"
          using True False Some by (simp add: unread_def Cons_nth_drop_Suc)
        with "1.IH"(4) [OF True Some False "1.prems"] m show ?thesis unfolding r
          by (simp split: prod.splits)
      qed
    qed
  qed
qed

text \<open>The spill files of a transaction, split by segment, hold its changes in order.\<close>

lemma filter_less_Suc:
  fixes g :: "'c \<Rightarrow> nat"
  assumes "sorted_wrt (\<lambda>a b. g a \<le> g b) xs"
  shows "filter (\<lambda>x. g x < Suc n) xs = filter (\<lambda>x. g x < n) xs @ filter (\<lambda>x. g x = n) xs"
  using assms
proof (induction xs)
  case (Cons x xs)
  show ?case
  proof (cases "g x < n")
    case False
    then have "filter (\<lambda>x. g x < n) xs = []" using Cons.prems by (force simp: filter_empty_conv)
    with Cons False show ?thesis by (auto simp: less_Suc_eq)
  qed (use Cons in auto)
qed simp

lemma concat_segments:
  fixes g :: "'c \<Rightarrow> nat"
  assumes "sorted_wrt (\<lambda>a b. g a \<le> g b) xs" and "\<And>x. x \<in> set xs \<Longrightarrow> a \<le> g x" and "a \<le> b"
  shows "concat (map (\<lambda>s. filter (\<lambda>x. g x = s) xs) [a..<b]) = filter (\<lambda>x. g x < b) xs"
  using assms(3)
proof (induction b rule: dec_induct)
  case base
  then show ?case using assms(2) by (auto simp: filter_empty_conv not_less)
next
  case (step b)
  then show ?case using filter_less_Suc [OF assms(1)] by simp
qed

lemma fold_serialize:
  "fold serialize_change cs files s = files s @ filter (\<lambda>c. seg_of (lsn c) = s) cs"
  by (induction cs arbitrary: files) (simp_all add: serialize_change_def)

lemma seg_of_mono: "p \<le> q \<Longrightarrow> seg_of p \<le> seg_of q"
  by (simp add: seg_of_def div_le_mono word_le_nat_alt)

text \<open>
  A transaction with the changes \<open>H\<close> in LSN order, of which the first ones may have been spilled; then the same after the
  commit has been seen.
\<close>

abbreviation lsn_sorted :: "'a ReorderBufferChange list \<Rightarrow> bool" where
  "lsn_sorted \<equiv> sorted_wrt (\<lambda>a b. lsn a \<le> lsn b)"

definition open_ok :: "'a ReorderBufferTXN \<Rightarrow> 'a ReorderBufferChange list \<Rightarrow> bool" where
  "open_ok t H \<longleftrightarrow>
     (\<exists>D. H = D @ changes t \<and> snap_files t = (\<lambda>s. filter (\<lambda>c. seg_of (lsn c) = s) D) \<and> (D \<noteq> [] \<longrightarrow> serialized t)) \<and>
     nentries t = length H \<and> nentries_mem t = length (changes t) \<and> lsn_sorted H \<and> (\<forall>c \<in> set H. first_lsn t \<le> lsn c)"

definition txn_ok :: "'a ReorderBufferTXN \<Rightarrow> 'a ReorderBufferChange list \<Rightarrow> bool" where
  "txn_ok t H \<longleftrightarrow> open_ok t H \<and> first_lsn t \<le> final_lsn t \<and> (\<forall>c \<in> set H. lsn c \<le> final_lsn t)"

definition txn_unread :: "'a ReorderBufferTXN \<Rightarrow> nat option \<Rightarrow> nat \<Rightarrow> 'a ReorderBufferChange list" where
  "txn_unread t = unread (seg_of (first_lsn t)) (seg_of (final_lsn t)) (snap_files t)"

lemma txn_unread_cong:
  "first_lsn t' = first_lsn t \<Longrightarrow> final_lsn t' = final_lsn t \<Longrightarrow> snap_files t' = snap_files t \<Longrightarrow>
    txn_unread t' = txn_unread t"
  by (simp add: txn_unread_def)

lemma serialize_final:
  "\<forall>c \<in> set cs. lsn c \<le> f \<Longrightarrow> fold (\<lambda>change final. if final < lsn change then lsn change else final) cs f = f"
  by (induction cs) (auto simp: not_less)

lemma serialize_txn_open: "open_ok t H \<Longrightarrow> open_ok (serialize_txn t) H"
  by (auto simp: open_ok_def serialize_txn_def fold_serialize fun_eq_iff)

lemma serialize_txn_ok:
  assumes "txn_ok t H"
  shows "txn_ok (serialize_txn t) H" "changes (serialize_txn t) = []"
proof -
  have "set (changes t) \<subseteq> set H" using assms by (auto simp: txn_ok_def open_ok_def)
  then have "final_lsn (serialize_txn t) = final_lsn t"
    using assms by (auto simp: serialize_txn_def txn_ok_def open_ok_def intro!: serialize_final)
  with assms show "txn_ok (serialize_txn t) H" by (simp add: txn_ok_def serialize_txn_open) (simp add: serialize_txn_def)
qed (simp add: serialize_txn_def)

lemma length_SerializeTXN [simp]: "length (ReorderBufferSerializeTXN i ts) = length ts"
  by (simp add: ReorderBufferSerializeTXN_def)

lemma nth_SerializeTXN:
  "j < length ts \<Longrightarrow> ReorderBufferSerializeTXN i ts ! j =
    (if j = i \<or> (i = 0 \<and> is_known_as_subxact (ts ! j)) then serialize_txn (ts ! j) else ts ! j)"
  by (simp add: ReorderBufferSerializeTXN_def nth_enumerate_eq)

lemma spilled_unread:
  assumes "txn_ok t H" and "changes t = []"
  shows "txn_unread t None 0 = H"
proof -
  have files: "snap_files t = (\<lambda>s. filter (\<lambda>c. seg_of (lsn c) = s) H)" using assms by (auto simp: txn_ok_def open_ok_def)
  have sorted: "sorted_wrt (\<lambda>a b. seg_of (lsn a) \<le> seg_of (lsn b)) H"
    by (rule sorted_wrt_mono_rel [of H "\<lambda>a b. lsn a \<le> lsn b"]) (use assms in \<open>auto simp: txn_ok_def open_ok_def seg_of_mono\<close>)
  have b: "seg_of (first_lsn t) \<le> seg_of (lsn c)" "seg_of (lsn c) \<le> seg_of (final_lsn t)" if "c \<in> set H" for c
    using assms(1) that by (auto simp: txn_ok_def open_ok_def seg_of_mono)
  have le: "seg_of (first_lsn t) \<le> seg_of (final_lsn t) + 1"
    using assms(1) seg_of_mono [of "first_lsn t" "final_lsn t"] by (simp add: txn_ok_def open_ok_def)
  have "txn_unread t None 0 =
      concat (map (\<lambda>s. filter (\<lambda>c. seg_of (lsn c) = s) H) [seg_of (first_lsn t)..<seg_of (final_lsn t) + 1])"
    by (simp add: txn_unread_def unread_def files)
  also have "\<dots> = filter (\<lambda>c. seg_of (lsn c) < seg_of (final_lsn t) + 1) H"
    by (rule concat_segments [OF sorted b(1) le])
  also have "\<dots> = H" using b(2) by (force simp: filter_id_conv less_Suc_eq_le)
  finally show ?thesis .
qed

lemma unspilled_unread:
  assumes "txn_ok t H" and "\<not> serialized t"
  shows "txn_unread t None 0 = []" and "changes t = H"
  using assms by (auto simp: txn_ok_def open_ok_def txn_unread_def unread_def)

lemma RestoreChanges_eq:
  assumes "ReorderBufferRestoreChanges m t f s = (t', f', s')" and "first_lsn t \<le> final_lsn t"
  shows "changes t' = take m (txn_unread t f s)" and "txn_unread t' f' s' = drop m (txn_unread t f s)"
    and "nentries_mem t' = length (changes t')" and "nentries t' = nentries t"
    and "first_lsn t' = first_lsn t" and "final_lsn t' = final_lsn t"
  using assms restore_loop_eq [OF seg_of_mono [OF assms(2)], where m = m and files = "snap_files t" and got = "[]" and f = f and s = s]
  by (auto simp: ReorderBufferRestoreChanges_def txn_unread_def split: prod.splits)

section \<open>The merge\<close>

definition entry_rest :: "'a ReorderBufferIterTXNState \<Rightarrow> nat \<Rightarrow> 'a ReorderBufferChange list" where
  "entry_rest st off =
     (let e = entries st ! off; t = txns st ! txn_no e
      in drop (change_pos e) (changes t) @ txn_unread t (fd e) (segno e))"

definition entry_ok :: "'a ReorderBufferIterTXNState \<Rightarrow> nat \<Rightarrow> bool" where
  "entry_ok st off \<longleftrightarrow>
     (let e = entries st ! off; t = txns st ! txn_no e
      in off < length (entries st) \<and> txn_no e < length (txns st) \<and> change_pos e < length (changes t) \<and>
         entry_lsn e = lsn (changes t ! change_pos e) \<and> first_lsn t \<le> final_lsn t \<and>
         nentries_mem t + length (txn_unread t (fd e) (segno e)) \<le> nentries t)"

definition iter_inv :: "'a ReorderBufferIterTXNState \<Rightarrow> nat set \<Rightarrow> bool" where
  "iter_inv st S \<longleftrightarrow> finite S \<and> heap_invar (ReorderBufferIterCompare (entries st)) (heap st) \<and>
     heap_elems (heap st) = mset_set S \<and> inj_on (\<lambda>off. txn_no (entries st ! off)) S \<and> (\<forall>off \<in> S. entry_ok st off)"

lemma entry_rest_Cons:
  assumes "entry_ok st off"
  shows "entry_rest st off \<noteq> []" and "lsn (hd (entry_rest st off)) = entry_lsn (entries st ! off)"
    and "hd (entry_rest st off) = changes (txns st ! txn_no (entries st ! off)) ! change_pos (entries st ! off)"
  using assms by (auto simp: entry_ok_def entry_rest_def Let_def hd_append hd_drop_conv_nth)

lemma heap_nodes_distinct:
  assumes "heap_wf h" and "heap_elems h = mset_set S" and "finite S"
  shows "distinct (take (bh_size h) (bh_nodes h))" and "set (take (bh_size h) (bh_nodes h)) = S"
proof -
  have m: "mset (take (bh_size h) (bh_nodes h)) = mset_set S" using assms(2) by (simp add: heap_elems_def)
  then show "set (take (bh_size h) (bh_nodes h)) = S" using assms(3) by (metis finite_set_mset_mset_set set_mset_mset)
  show "distinct (take (bh_size h) (bh_nodes h))" using m assms(3)
    by (metis count_mset_set(1,2,3) distinct_count_atmost_1 finite_set_mset_mset_set set_mset_mset)
qed

text \<open>What \<open>ReorderBufferIterTXNNext\<close> does with the entry at the top of the heap.\<close>

lemma Next_eq:
  assumes "iter_inv st S" and "S \<noteq> {}"
  obtains off where "off \<in> S" and "binaryheap_first (heap st) = Some off" and "bh_nodes (heap st) ! 0 = off"
    and "0 < bh_size (heap st)"
    and "\<And>x. x \<in> S \<Longrightarrow> entry_lsn (entries st ! off) \<le> entry_lsn (entries st ! x)"
proof -
  have inv: "heap_invar (ReorderBufferIterCompare (entries st)) (heap st)" and el: "heap_elems (heap st) = mset_set S"
    and fin: "finite S" using assms(1) by (simp_all add: iter_inv_def)
  have wf: "heap_wf (heap st)" using inv by (simp add: heap_invar_def)
  have "bh_size (heap st) = card S" using size_heap_elems [OF wf] el by simp
  then have size: "0 < bh_size (heap st)" using fin assms(2) card_gt_0_iff by metis
  let ?off = "bh_nodes (heap st) ! 0"
  have first: "binaryheap_first (heap st) = Some ?off"
    using inv size by (simp add: binaryheap_first_def binaryheap_empty_def heap_invar_def)
  have "take (bh_size (heap st)) (bh_nodes (heap st)) ! 0 \<in> set (take (bh_size (heap st)) (bh_nodes (heap st)))"
    using size wf by (intro nth_mem) (simp add: heap_wf_def)
  then have "?off \<in> S" using heap_nodes_distinct(2) [OF wf el fin] size by simp
  moreover have "entry_lsn (entries st ! ?off) \<le> entry_lsn (entries st ! x)" if "x \<in> S" for x
    using reorder.first_max [OF inv, of x] that el fin
    by (simp add: ReorderBufferIterCompare_def Let_def split: if_splits)
  ultimately show ?thesis using that first size by blast
qed

text \<open>The other entries do not notice a change of one entry and of its transaction.\<close>

lemma other_entries:
  assumes inv: "iter_inv st S" and off: "off \<in> S" and x: "x \<in> S" "x \<noteq> off"
    and e: "txn_no e = txn_no (entries st ! off)"
    and st': "txns st' = (txns st)[txn_no e := t]" "entries st' = (entries st)[off := e]"
  shows "entries st' ! x = entries st ! x" and "entry_rest st' x = entry_rest st x" and "entry_ok st' x"
proof -
  have ne: "txn_no (entries st ! x) \<noteq> txn_no e"
    using inv off x e by (auto simp: iter_inv_def dest: inj_onD)
  show "entries st' ! x = entries st ! x" using st' x by simp
  with ne show "entry_rest st' x = entry_rest st x" by (simp add: entry_rest_def st')
  have "entry_ok st x" using inv x by (simp add: iter_inv_def)
  with ne x show "entry_ok st' x" by (simp add: entry_ok_def st' Let_def)
qed

lemma changed_entry:
  assumes inv: "iter_inv st S" and off: "off \<in> S" and e: "txn_no e = txn_no (entries st ! off)"
    and st': "txns st' = (txns st)[txn_no e := t]" "entries st' = (entries st)[off := e]"
  shows "entry_rest st' off = drop (change_pos e) (changes t) @ txn_unread t (fd e) (segno e)"
    and "change_pos e < length (changes t) \<Longrightarrow> entry_lsn e = lsn (changes t ! change_pos e) \<Longrightarrow>
      first_lsn t \<le> final_lsn t \<Longrightarrow> nentries_mem t + length (txn_unread t (fd e) (segno e)) \<le> nentries t \<Longrightarrow>
      entry_ok st' off"
    and "inj_on (\<lambda>off. txn_no (entries st' ! off)) S"
proof -
  have ok: "off < length (entries st)" "txn_no e < length (txns st)"
    using inv off e by (auto simp: iter_inv_def entry_ok_def Let_def)
  then show "entry_rest st' off = drop (change_pos e) (changes t) @ txn_unread t (fd e) (segno e)"
    by (simp add: entry_rest_def st')
  show "change_pos e < length (changes t) \<Longrightarrow> entry_lsn e = lsn (changes t ! change_pos e) \<Longrightarrow>
      first_lsn t \<le> final_lsn t \<Longrightarrow> nentries_mem t + length (txn_unread t (fd e) (segno e)) \<le> nentries t \<Longrightarrow>
      entry_ok st' off"
    using ok by (simp add: entry_ok_def st' Let_def)
  have "txn_no (entries st' ! x) = txn_no (entries st ! x)" for x
    using ok e by (cases "x = off") (simp_all add: st')
  then show "inj_on (\<lambda>off. txn_no (entries st' ! off)) S" using inv by (simp add: iter_inv_def)
qed

lemma compare_frame:
  "a \<noteq> off \<Longrightarrow> b \<noteq> off \<Longrightarrow>
    ReorderBufferIterCompare (es[off := e]) a b = ReorderBufferIterCompare es a b"
  by (simp add: ReorderBufferIterCompare_def)

lemma replace_entry_ok:
  assumes inv: "iter_inv st S" and off: "off \<in> S" "bh_nodes (heap st) ! 0 = off"
    and e: "txn_no e = txn_no (entries st ! off)"
    and new: "change_pos e < length (changes t)" "entry_lsn e = lsn (changes t ! change_pos e)"
      "first_lsn t \<le> final_lsn t" "nentries_mem t + length (txn_unread t (fd e) (segno e)) \<le> nentries t"
  shows "iter_inv (replace_entry st off e t) S"
    and "entry_rest (replace_entry st off e t) off = drop (change_pos e) (changes t) @ txn_unread t (fd e) (segno e)"
    and "\<And>x. x \<in> S \<Longrightarrow> x \<noteq> off \<Longrightarrow> entry_rest (replace_entry st off e t) x = entry_rest st x"
proof -
  let ?st = "replace_entry st off e t"
  let ?es = "(entries st)[off := e]"
  have st': "txns ?st = (txns st)[txn_no e := t]" "entries ?st = ?es" by (simp_all add: replace_entry_def Let_def)
  note oth = other_entries [OF inv off(1) _ _ e st'] and chg = changed_entry [OF inv off(1) e st']
  have hinv: "heap_invar (ReorderBufferIterCompare (entries st)) (heap st)" and el: "heap_elems (heap st) = mset_set S"
    and fin: "finite S" using inv by (simp_all add: iter_inv_def)
  have wf: "heap_wf (heap st)" and bh: "bh_has_heap_property (heap st)"
    and hprop: "heap_property (ReorderBufferIterCompare (entries st)) (heap st)" using hinv by (simp_all add: heap_invar_def)
  note dist = heap_nodes_distinct [OF wf el fin]
  have size: "0 < bh_size (heap st)" using off(1) dist(2) by (cases "bh_size (heap st)") auto
  have neq: "bh_nodes (heap st) ! i \<noteq> off" if "0 < i" "i < bh_size (heap st)" for i
  proof -
    have "take (bh_size (heap st)) (bh_nodes (heap st)) ! i \<noteq> take (bh_size (heap st)) (bh_nodes (heap st)) ! 0"
      using that wf by (intro distinct_conv_nth [THEN iffD1, OF dist(1), rule_format]) (auto simp: heap_wf_def)
    with that off(2) show ?thesis by simp
  qed
  have ok: "heap_ok (ReorderBufferIterCompare ?es) (heap st) i"
    if "0 < i" "i < bh_size (heap st)" "(i - 1) div 2 \<noteq> 0" for i
  proof -
    have "heap_ok (ReorderBufferIterCompare (entries st)) (heap st) i" using hprop that by (simp add: heap_property_def)
    moreover have "bh_nodes (heap st) ! ((i - 1) div 2) \<noteq> off" "bh_nodes (heap st) ! i \<noteq> off"
      using that neq [of "(i - 1) div 2"] neq [of i] by (simp_all del: One_nat_def)
    ultimately show ?thesis by (simp add: heap_ok_def compare_frame)
  qed
  obtain h' where r: "binaryheap_replace_first (ReorderBufferIterCompare ?es) (heap st) off = Some h'"
    using size bh by (simp add: binaryheap_replace_first_def binaryheap_empty_def Let_def)
  have h: "heap ?st = h'" using r by (simp add: replace_entry_def Let_def)
  have "heap_invar (ReorderBufferIterCompare ?es) h' \<and> heap_elems h' = add_mset off (heap_elems (heap st) - {#off#})"
    using reorder.replace_first_general [OF wf bh _ r] ok off(2) by blast
  moreover have "add_mset off (mset_set S - {#off#}) = mset_set S"
    using off(1) fin by (simp add: insert_DiffM)
  ultimately have "heap_invar (ReorderBufferIterCompare ?es) (heap ?st)" "heap_elems (heap ?st) = mset_set S"
    by (simp_all add: h el)
  moreover have "entry_ok ?st x" if "x \<in> S" for x
    using oth(3) [of x] chg(2) new that by (cases "x = off") auto
  ultimately show "iter_inv ?st S" using fin chg(3) by (simp add: iter_inv_def st')
  show "entry_rest ?st off = drop (change_pos e) (changes t) @ txn_unread t (fd e) (segno e)" by (rule chg(1))
  show "entry_rest ?st x = entry_rest st x" if "x \<in> S" "x \<noteq> off" for x using oth(2) that by blast
qed

lemma remove_entry_ok:
  assumes inv: "iter_inv st S" and off: "off \<in> S" "bh_nodes (heap st) ! 0 = off"
    and e: "txn_no e = txn_no (entries st ! off)" "entry_lsn e = entry_lsn (entries st ! off)"
  shows "iter_inv (remove_entry st off e t) (S - {off})"
    and "\<And>x. x \<in> S \<Longrightarrow> x \<noteq> off \<Longrightarrow> entry_rest (remove_entry st off e t) x = entry_rest st x"
proof -
  let ?st = "remove_entry st off e t"
  let ?es = "(entries st)[off := e]"
  have st': "txns ?st = (txns st)[txn_no e := t]" "entries ?st = ?es" by (simp_all add: remove_entry_def Let_def)
  note oth = other_entries [OF inv off(1) _ _ e(1) st'] and chg = changed_entry [OF inv off(1) e(1) st']
  have "entry_lsn (?es ! a) = entry_lsn (entries st ! a)" for a
    using e(2) by (cases "off < length (entries st)"; cases "a = off") (simp_all add: list_update_beyond)
  then have cmp: "ReorderBufferIterCompare ?es = ReorderBufferIterCompare (entries st)"
    by (simp add: ReorderBufferIterCompare_def fun_eq_iff)
  have hinv: "heap_invar (ReorderBufferIterCompare ?es) (heap st)" and el: "heap_elems (heap st) = mset_set S"
    and fin: "finite S" using inv by (simp_all add: iter_inv_def cmp)
  have "0 < bh_size (heap st)"
    using off(1) heap_nodes_distinct(2) [OF _ el fin] hinv by (cases "bh_size (heap st)") (auto simp: heap_invar_def)
  then obtain d h' where r: "binaryheap_remove_first (ReorderBufferIterCompare ?es) (heap st) = Some (d, h')"
    using remove_first_succeeds [OF hinv] by auto
  have h: "heap ?st = h'" using r by (simp add: remove_entry_def Let_def)
  note rem = reorder.remove_first_correct [OF hinv r]
  then have "mset_set S = add_mset off (heap_elems h')" using off(2) el by simp
  moreover have "mset_set S = add_mset off (mset_set (S - {off}))"
    using off(1) fin by (simp add: mset_set.remove)
  ultimately have el': "heap_elems h' = mset_set (S - {off})" by simp
  show rest: "\<And>x. x \<in> S \<Longrightarrow> x \<noteq> off \<Longrightarrow> entry_rest ?st x = entry_rest st x" using oth(2) by blast
  have "inj_on (\<lambda>off. txn_no (entries ?st ! off)) (S - {off})" using chg(3) by (rule inj_on_diff)
  then show "iter_inv ?st (S - {off})" using fin rem el' oth(3) by (simp add: iter_inv_def st' h)
qed

text \<open>One call: the change with the least LSN of all that are left.\<close>

lemma Next_step:
  assumes inv: "iter_inv st S" and ne: "S \<noteq> {}" and m: "0 < m"
  obtains off c st' S' where "off \<in> S" and "ReorderBufferIterTXNNext m st = (Some c, st')" and "iter_inv st' S'"
    and "\<And>x. x \<in> S \<Longrightarrow> lsn c \<le> lsn (hd (entry_rest st x))"
    and "\<And>x. x \<in> S \<Longrightarrow> x \<noteq> off \<Longrightarrow> entry_rest st' x = entry_rest st x"
    and "S' = S \<and> entry_rest st off = c # entry_rest st' off \<or> S' = S - {off} \<and> entry_rest st off = [c]"
proof -
  obtain off where off: "off \<in> S" "binaryheap_first (heap st) = Some off" "bh_nodes (heap st) ! 0 = off"
    and size: "0 < bh_size (heap st)"
    and least: "\<And>x. x \<in> S \<Longrightarrow> entry_lsn (entries st ! off) \<le> entry_lsn (entries st ! x)"
    using Next_eq [OF inv ne] by blast
  have ok: "entry_ok st x" if "x \<in> S" for x using inv that by (simp add: iter_inv_def)
  define e where "e = entries st ! off"
  define t where "t = txns st ! txn_no e"
  define c where "c = changes t ! change_pos e"
  have e: "change_pos e < length (changes t)" "entry_lsn e = lsn c" "first_lsn t \<le> final_lsn t"
    "nentries_mem t + length (txn_unread t (fd e) (segno e)) \<le> nentries t"
    using ok [OF off(1)] by (simp_all add: entry_ok_def Let_def e_def t_def c_def)
  have rest: "entry_rest st off = c # drop (Suc (change_pos e)) (changes t) @ txn_unread t (fd e) (segno e)"
    using e(1) by (simp add: entry_rest_def Let_def e_def [symmetric] t_def [symmetric] c_def Cons_nth_drop_Suc [symmetric])
  have hd: "lsn c \<le> lsn (hd (entry_rest st x))" if "x \<in> S" for x
    using least [OF that] e(2) entry_rest_Cons(2) [OF ok [OF that]] by (simp add: e_def)
  have N: "ReorderBufferIterTXNNext m st =
      (if change_pos e + 1 < length (changes t) then
         (Some c, replace_entry st off (e\<lparr>change_pos := change_pos e + 1, entry_lsn := lsn (changes t ! (change_pos e + 1))\<rparr>) t)
       else if nentries t \<noteq> nentries_mem t then
         (let txn1 = t\<lparr>changes := take (change_pos e) (changes t)\<rparr>;
              (txn2, f, s) = ReorderBufferRestoreChanges m txn1 (fd e) (segno e);
              entry = e\<lparr>fd := f, segno := s\<rparr>
          in if length (changes txn2) > 0 then
               (Some c, replace_entry st off (entry\<lparr>change_pos := 0, entry_lsn := lsn (hd (changes txn2))\<rparr>) txn2)
             else (Some c, remove_entry st off entry txn2))
       else (Some c, remove_entry st off e t))"
    using size off(2) by (simp only: ReorderBufferIterTXNNext_def Let_def option.sel e_def t_def c_def) simp
  have no: "txn_no e = txn_no (entries st ! off)" "entry_lsn e = entry_lsn (entries st ! off)" by (simp_all add: e_def)
  consider "change_pos e + 1 < length (changes t)"
    | "\<not> change_pos e + 1 < length (changes t)" "nentries t \<noteq> nentries_mem t"
    | "\<not> change_pos e + 1 < length (changes t)" "nentries t = nentries_mem t" by blast
  then show thesis
  proof cases
    case 1
    let ?e = "e\<lparr>change_pos := change_pos e + 1, entry_lsn := lsn (changes t ! (change_pos e + 1))\<rparr>"
    have r: "ReorderBufferIterTXNNext m st = (Some c, replace_entry st off ?e t)" using 1 by (simp add: N)
    note rep = replace_entry_ok [OF inv off(1,3), where e = ?e and t = t]
    show thesis
      by (rule that [OF off(1) r rep(1) hd rep(3)]) (use 1 e no rest rep(2) in auto)
  next
    case 2
    define t1 where "t1 = t\<lparr>changes := take (change_pos e) (changes t)\<rparr>"
    obtain t2 f s where R: "ReorderBufferRestoreChanges m t1 (fd e) (segno e) = (t2, f, s)" by (metis prod_cases3)
    have "first_lsn t1 \<le> final_lsn t1" using e(3) by (simp add: t1_def)
    note R' = RestoreChanges_eq [OF R this]
    have u: "txn_unread t1 = txn_unread t" by (rule txn_unread_cong) (simp_all add: t1_def)
    have last: "entry_rest st off = c # txn_unread t (fd e) (segno e)" using 2(1) rest by simp
    show thesis
    proof (cases "changes t2 = []")
      case True
      have r: "ReorderBufferIterTXNNext m st = (Some c, remove_entry st off (e\<lparr>fd := f, segno := s\<rparr>) t2)"
        using 2 True R by (simp add: N t1_def)
      note rep = remove_entry_ok [OF inv off(1,3), where e = "e\<lparr>fd := f, segno := s\<rparr>" and t = t2]
      show thesis
        by (rule that [OF off(1) r rep(1) hd rep(2)]) (use no last True R'(1) u m in auto)
    next
      case False
      let ?e = "e\<lparr>fd := f, segno := s, change_pos := 0, entry_lsn := lsn (hd (changes t2))\<rparr>"
      have r: "ReorderBufferIterTXNNext m st = (Some c, replace_entry st off ?e t2)"
        using 2 False R by (simp add: N t1_def)
      have new: "change_pos ?e < length (changes t2)" "entry_lsn ?e = lsn (changes t2 ! change_pos ?e)"
        "first_lsn t2 \<le> final_lsn t2" "txn_no ?e = txn_no (entries st ! off)"
        using False R' e(3) no by (simp_all add: hd_conv_nth t1_def)
      have "nentries t2 = nentries t" using R'(4) by (simp add: t1_def)
      moreover have "nentries_mem t2 + length (txn_unread t2 f s) = length (txn_unread t (fd e) (segno e))"
        using R'(1,2,3) u by simp
      ultimately have cnt: "nentries_mem t2 + length (txn_unread t2 (fd ?e) (segno ?e)) \<le> nentries t2" using e(4) by simp
      note rep = replace_entry_ok [OF inv off(1,3) new(4,1,2,3) cnt]
      have "entry_rest (replace_entry st off ?e t2) off = txn_unread t (fd e) (segno e)"
        using rep(2) R'(1,2) u by simp
      with last show thesis by (intro that [OF off(1) r rep(1) hd rep(3)]) auto
    qed
  next
    case 3
    have r: "ReorderBufferIterTXNNext m st = (Some c, remove_entry st off e t)" using 3 by (simp add: N)
    note rep = remove_entry_ok [OF inv off(1,3) no, where t = t]
    show thesis by (rule that [OF off(1) r rep(1) hd rep(2)]) (use 3 e(4) rest in auto)
  qed
qed

definition all_rests :: "'a ReorderBufferIterTXNState \<Rightarrow> nat set \<Rightarrow> 'a ReorderBufferChange multiset" where
  "all_rests st S = (\<Sum>x \<in> S. mset (entry_rest st x))"

lemma all_rests_step:
  assumes "finite S" and "off \<in> S" and "\<And>x. x \<in> S \<Longrightarrow> x \<noteq> off \<Longrightarrow> entry_rest st' x = entry_rest st x"
    and "S' = S \<and> entry_rest st off = c # entry_rest st' off \<or> S' = S - {off} \<and> entry_rest st off = [c]"
  shows "all_rests st S = add_mset c (all_rests st' S')"
proof -
  have "(\<Sum>x \<in> S - {off}. mset (entry_rest st' x)) = (\<Sum>x \<in> S - {off}. mset (entry_rest st x))"
    using assms(3) by (intro sum.cong) auto
  then show ?thesis using assms(1,2,4) by (auto simp: all_rests_def sum.remove [of S off])
qed

lemma set_all_rests: "finite S \<Longrightarrow> set_mset (all_rests st S) = (\<Union>x \<in> S. set (entry_rest st x))"
  by (induction S rule: finite_induct) (simp_all add: all_rests_def)

lemma all_rests_least:
  assumes "finite S" and "\<And>x. x \<in> S \<Longrightarrow> lsn_sorted (entry_rest st x)"
    and "\<And>x. x \<in> S \<Longrightarrow> lsn c \<le> lsn (hd (entry_rest st x))" and "d \<in># all_rests st S"
  shows "lsn c \<le> lsn d"
proof -
  obtain x where x: "x \<in> S" "d \<in> set (entry_rest st x)" using assms(1,4) by (auto simp: set_all_rests)
  then have "lsn (hd (entry_rest st x)) \<le> lsn d"
    using assms(2) [OF x(1)] by (cases "entry_rest st x") auto
  with assms(3) [OF x(1)] show ?thesis by order
qed

lemma iter_changes_merge:
  assumes "iter_inv st S" and "0 < m" and "\<And>x. x \<in> S \<Longrightarrow> lsn_sorted (entry_rest st x)" and "size (all_rests st S) \<le> n"
  shows "mset (iter_changes n m st) = all_rests st S \<and> lsn_sorted (iter_changes n m st)"
  using assms
proof (induction n arbitrary: st S)
  case 0
  then show ?case by simp
next
  case (Suc n)
  have fin: "finite S" using Suc.prems(1) by (simp add: iter_inv_def)
  show ?case
  proof (cases "S = {}")
    case True
    then have "bh_size (heap st) = 0"
      using Suc.prems(1) size_heap_elems [of "heap st"] by (simp add: iter_inv_def heap_invar_def)
    with True show ?thesis by (simp add: ReorderBufferIterTXNNext_def all_rests_def)
  next
    case False
    obtain off c st' S' where off: "off \<in> S" and N: "ReorderBufferIterTXNNext m st = (Some c, st')"
      and inv': "iter_inv st' S'" and least: "\<And>x. x \<in> S \<Longrightarrow> lsn c \<le> lsn (hd (entry_rest st x))"
      and oth: "\<And>x. x \<in> S \<Longrightarrow> x \<noteq> off \<Longrightarrow> entry_rest st' x = entry_rest st x"
      and S': "S' = S \<and> entry_rest st off = c # entry_rest st' off \<or> S' = S - {off} \<and> entry_rest st off = [c]"
      using Next_step [OF Suc.prems(1) False Suc.prems(2)] by blast
    have all: "all_rests st S = add_mset c (all_rests st' S')" by (rule all_rests_step [OF fin off oth S'])
    have "lsn_sorted (entry_rest st' x)" if "x \<in> S'" for x
    proof (cases "x = off")
      case True
      then show ?thesis using that S' Suc.prems(3) [OF off] by auto
    next
      case False
      then show ?thesis using that S' oth [of x] Suc.prems(3) [of x] by auto
    qed
    with Suc.IH [OF inv' Suc.prems(2)] all Suc.prems(4)
    have ih: "mset (iter_changes n m st') = all_rests st' S'" "lsn_sorted (iter_changes n m st')" by auto
    have "lsn c \<le> lsn d" if "d \<in> set (iter_changes n m st')" for d
    proof (rule all_rests_least [OF fin Suc.prems(3) least])
      show "d \<in># all_rests st S" using that ih(1) all by (metis insert_iff set_mset_add_mset_insert set_mset_mset)
    qed auto
    with ih all show ?thesis by (simp add: N)
  qed
qed

section \<open>The start of the iteration\<close>

definition add_inv :: "'a ReorderBufferChange list list \<Rightarrow> nat \<Rightarrow> 'a ReorderBufferIterTXNState \<Rightarrow> bool" where
  "add_inv Hs k st \<longleftrightarrow> length (txns st) = length Hs \<and> heap_wf (heap st) \<and>
     bh_space (heap st) = length (filter (\<lambda>i. Hs ! i \<noteq> []) [0..<length Hs]) \<and>
     heap_elems (heap st) = mset_set {0..<length (entries st)} \<and>
     map txn_no (entries st) = filter (\<lambda>i. Hs ! i \<noteq> []) [0..<k] \<and>
     (\<forall>i. k \<le> i \<longrightarrow> i < length Hs \<longrightarrow> txn_ok (txns st ! i) (Hs ! i)) \<and>
     (\<forall>off < length (entries st). entry_ok st off \<and> entry_rest st off = Hs ! txn_no (entries st ! off))"

text \<open>The entry made for a transaction, and what the call does to the transactions.\<close>

lemma start_txn:
  assumes ok: "\<And>i. k \<le> i \<Longrightarrow> i < length ts \<Longrightarrow> txn_ok (ts ! i) (Hs ! i)" and k: "k < length ts" and m: "0 < m"
    and r: "(ts', f, s) = (if serialized (ts ! k) then
        let ts1 = ReorderBufferSerializeTXN k ts;
            (txn', f, s) = ReorderBufferRestoreChanges m (ts1 ! k) None 0
        in (ts1[k := txn'], f, s)
      else (ts, None, 0))"
  shows "length ts' = length ts" and "\<And>i. i < k \<Longrightarrow> ts' ! i = ts ! i"
    and "\<And>i. k < i \<Longrightarrow> i < length ts \<Longrightarrow> txn_ok (ts' ! i) (Hs ! i)"
    and "changes (ts' ! k) @ txn_unread (ts' ! k) f s = Hs ! k" and "Hs ! k \<noteq> [] \<Longrightarrow> changes (ts' ! k) \<noteq> []"
    and "first_lsn (ts' ! k) \<le> final_lsn (ts' ! k)"
    and "nentries_mem (ts' ! k) + length (txn_unread (ts' ! k) f s) = nentries (ts' ! k)"
proof -
  have tk: "txn_ok (ts ! k) (Hs ! k)" using ok k by simp
  define ts1 where "ts1 = ReorderBufferSerializeTXN k ts"
  have ts1: "length ts1 = length ts" "ts1 ! k = serialize_txn (ts ! k)"
    "\<And>i. i < k \<Longrightarrow> ts1 ! i = ts ! i" "\<And>i. k < i \<Longrightarrow> i < length ts \<Longrightarrow> txn_ok (ts1 ! i) (Hs ! i)"
    using k ok by (auto simp: ts1_def nth_SerializeTXN serialize_txn_ok(1))
  obtain t2 f2 s2 where R: "ReorderBufferRestoreChanges m (ts1 ! k) None 0 = (t2, f2, s2)" by (metis prod_cases3)
  have s: "txn_ok (ts1 ! k) (Hs ! k)" "changes (ts1 ! k) = []" using serialize_txn_ok [OF tk] by (simp_all add: ts1)
  have le: "first_lsn (ts1 ! k) \<le> final_lsn (ts1 ! k)" using s by (simp add: txn_ok_def open_ok_def)
  note R' = RestoreChanges_eq [OF R le] and u = spilled_unread [OF s]
  have cnt: "nentries (ts1 ! k) = length (Hs ! k)" using s by (simp add: txn_ok_def open_ok_def)
  have out: "(ts', f, s) = (if serialized (ts ! k) then (ts1[k := t2], f2, s2) else (ts, None, 0))"
    unfolding r ts1_def [symmetric] Let_def R by simp
  consider (spilled) "ts' = ts1[k := t2]" "f = f2" "s = s2" | (memory) "ts' = ts" "f = None" "s = 0" "\<not> serialized (ts ! k)"
    using out by (auto split: if_splits)
  note branches = this
  show "length ts' = length ts" by (cases rule: branches) (simp_all add: ts1)
  show "ts' ! i = ts ! i" if "i < k" for i using that by (cases rule: branches) (simp_all add: ts1)
  show "txn_ok (ts' ! i) (Hs ! i)" if "k < i" "i < length ts" for i
    using that ok by (cases rule: branches) (simp_all add: ts1)
  have k1: "k < length ts1" using k by (simp add: ts1)
  show "changes (ts' ! k) @ txn_unread (ts' ! k) f s = Hs ! k"
    using R'(1,2) u unspilled_unread [OF tk] k1 by (cases rule: branches) simp_all
  show "changes (ts' ! k) \<noteq> []" if "Hs ! k \<noteq> []"
    using R'(1) u unspilled_unread [OF tk] k1 m that by (cases rule: branches) simp_all
  show "first_lsn (ts' ! k) \<le> final_lsn (ts' ! k)"
    using R'(5,6) le tk k1 by (cases rule: branches) (simp_all add: txn_ok_def open_ok_def)
  show "nentries_mem (ts' ! k) + length (txn_unread (ts' ! k) f s) = nentries (ts' ! k)"
    using R'(1-4) cnt u tk unspilled_unread [OF tk] k1 by (cases rule: branches) (simp_all add: txn_ok_def open_ok_def)
qed

lemma old_entry:
  assumes "off < length (entries st)" and "txn_no (entries st ! off) < k" and "k < length (txns st)"
    and "txns st' = ts'" "length ts' = length (txns st)" "\<And>i. i < k \<Longrightarrow> ts' ! i = txns st ! i" "entries st' = entries st @ [e]"
  shows "entry_ok st' off = entry_ok st off" and "entry_rest st' off = entry_rest st off"
  using assms by (simp_all add: entry_ok_def entry_rest_def nth_append)

lemma iter_add_txn_ok:
  assumes inv: "add_inv Hs k st" and k: "k < length Hs" and m: "0 < m"
  shows "\<exists>st'. iter_add_txn m k st = Inr st' \<and> add_inv Hs (Suc k) st'"
proof -
  let ?t = "txns st ! k"
  have len: "length (txns st) = length Hs" and wf: "heap_wf (heap st)"
    and space: "bh_space (heap st) = length (filter (\<lambda>i. Hs ! i \<noteq> []) [0..<length Hs])"
    and el: "heap_elems (heap st) = mset_set {0..<length (entries st)}"
    and nos: "map txn_no (entries st) = filter (\<lambda>i. Hs ! i \<noteq> []) [0..<k]"
    and oks: "\<And>i. k \<le> i \<Longrightarrow> i < length (txns st) \<Longrightarrow> txn_ok (txns st ! i) (Hs ! i)"
    and olds: "\<And>off. off < length (entries st) \<Longrightarrow> entry_ok st off \<and> entry_rest st off = Hs ! txn_no (entries st ! off)"
    using inv unfolding add_inv_def by auto
  have n: "nentries ?t = length (Hs ! k)" using oks [of k] k len by (simp add: txn_ok_def open_ok_def)
  show ?thesis
  proof (cases "Hs ! k = []")
    case True
    then show ?thesis using n inv by (auto simp: iter_add_txn_def add_inv_def)
  next
    case False
    obtain ts' f s where ts': "(ts', f, s) = (if serialized ?t then
        let ts1 = ReorderBufferSerializeTXN k (txns st);
            (txn', f, s) = ReorderBufferRestoreChanges m (ts1 ! k) None 0
        in (ts1[k := txn'], f, s)
      else (txns st, None, 0))" by (metis prod_cases3)
    have kt: "k < length (txns st)" using k len by simp
    note start = start_txn [OF oks kt m ts']
    let ?e = "\<lparr>entry_lsn = lsn (hd (changes (ts' ! k))), change_pos = 0, txn_no = k, fd = f, segno = s\<rparr>"
    have "size (heap_elems (heap st)) = length (entries st)" using el by simp
    then have size: "bh_size (heap st) = length (filter (\<lambda>i. Hs ! i \<noteq> []) [0..<k])"
      using size_heap_elems [OF wf] arg_cong [OF nos, of length] by simp
    have "[0..<length Hs] = [0..<k] @ k # [Suc k..<length Hs]"
      using k upt_add_eq_append [of 0 k "length Hs - k"] by (simp add: upt_conv_Cons)
    then have "bh_size (heap st) < bh_space (heap st)" unfolding size space using False by simp
    then obtain h where h: "binaryheap_add_unordered (heap st) (length (entries st)) = Inr h"
      by (simp add: binaryheap_add_unordered_def)
    note add = add_unordered_elems [OF wf h]
    let ?st = "\<lparr>txns = ts', heap = h, entries = entries st @ [?e]\<rparr>"
    have r: "iter_add_txn m k st = Inr ?st"
      unfolding iter_add_txn_def Let_def
      using n False by (simp add: ts' [symmetric, unfolded Let_def] h del: if_split split del: if_split)
    have new: "entry_ok ?st (length (entries st))" "entry_rest ?st (length (entries st)) = Hs ! k"
      using start(1,4-7) False kt by (simp_all add: entry_ok_def entry_rest_def hd_conv_nth)
    have "txn_no (entries st ! off) < k" if "off < length (entries st)" for off
    proof -
      have "txn_no (entries st ! off) \<in> set (map txn_no (entries st))" using that by simp
      then show ?thesis unfolding nos by simp
    qed
    then have "entry_ok ?st off" "entry_rest ?st off = Hs ! txn_no (entries st ! off)" if "off < length (entries st)" for off
      using old_entry [OF that _ kt, where st' = ?st and ts' = ts' and e = ?e] start(1,2) olds that by auto
    with new have "\<forall>off < length (entries ?st). entry_ok ?st off \<and> entry_rest ?st off = Hs ! txn_no (entries ?st ! off)"
      by (auto simp: less_Suc_eq nth_append)
    moreover have "heap_elems h = mset_set {0..<length (entries ?st)}"
      using add el by (simp add: atLeast0_lessThan_Suc)
    ultimately have "add_inv Hs (Suc k) ?st"
      using add space nos start(1,3) len False by (simp add: add_inv_def)
    with r show ?thesis by blast
  qed
qed

lemma iter_add_txns_ok:
  "add_inv Hs k st \<Longrightarrow> k \<le> length Hs \<Longrightarrow> 0 < m \<Longrightarrow>
    \<exists>st'. iter_add_txns m [k..<length Hs] st = Inr st' \<and> add_inv Hs (length Hs) st'"
proof (induction "length Hs - k" arbitrary: k st)
  case 0
  then show ?case by auto
next
  case (Suc n)
  then have "k < length Hs" by arith
  with iter_add_txn_ok [OF Suc.prems(1)] Suc.prems(3) obtain st1
    where st1: "iter_add_txn m k st = Inr st1" "add_inv Hs (Suc k) st1" by blast
  moreover have "[k..<length Hs] = k # [Suc k..<length Hs]" using \<open>k < length Hs\<close> by (rule upt_conv_Cons)
  ultimately show ?case using Suc.hyps(1) [of "Suc k" st1] Suc.hyps(2) Suc.prems(3) \<open>k < length Hs\<close> by simp
qed

lemma sum_filter_lists:
  "(\<Sum>x = 0..<length xs. f (xs ! x)) = sum_list (map f xs)"
  by (simp add: sum_list_sum_nth)

lemma mset_concat_nonempty:
  "sum_list (map (\<lambda>i. mset (Hs ! i)) (filter (\<lambda>i. Hs ! i \<noteq> []) [0..<length Hs])) = mset (concat Hs)"
proof -
  have "sum_list (map (\<lambda>i. mset (Hs ! i)) (filter (\<lambda>i. Hs ! i \<noteq> []) is)) = sum_list (map (\<lambda>i. mset (Hs ! i)) is)" for "is"
    by (induction "is") auto
  moreover have "map (\<lambda>i. mset (Hs ! i)) [0..<length Hs] = map mset Hs" by (rule nth_equalityI) simp_all
  moreover have "mset (concat Hs) = sum_list (map mset Hs)" by (simp add: mset_concat)
  ultimately show ?thesis by (simp only:)
qed

lemma Init_ok:
  assumes ok: "list_all2 txn_ok ts Hs" and m: "0 < m"
  obtains st where "ReorderBufferIterTXNInit m ts = Inr st" and "iter_inv st {0..<length (entries st)}"
    and "\<And>x. x < length (entries st) \<Longrightarrow> lsn_sorted (entry_rest st x)"
    and "all_rests st {0..<length (entries st)} = mset (concat Hs)"
    and "map txn_no (entries st) = filter (\<lambda>i. Hs ! i \<noteq> []) [0..<length Hs]"
    and "\<And>x. x < length (entries st) \<Longrightarrow> entry_rest st x = Hs ! txn_no (entries st ! x)"
proof -
  have len: "length ts = length Hs" and oks: "\<And>i. i < length Hs \<Longrightarrow> txn_ok (ts ! i) (Hs ! i)"
    using ok by (auto simp: list_all2_conv_all_nth)
  define nr where "nr = length (filter (\<lambda>txn. nentries txn > 0) ts)"
  have "filter (\<lambda>txn. nentries txn > 0) ts = map (\<lambda>i. ts ! i) (filter (\<lambda>i. nentries (ts ! i) > 0) [0..<length ts])"
    by (metis (no_types, lifting) filter_map map_nth comp_apply filter_cong)
  moreover have "filter (\<lambda>i. nentries (ts ! i) > 0) [0..<length ts] = filter (\<lambda>i. Hs ! i \<noteq> []) [0..<length Hs]"
    using oks by (auto simp: len txn_ok_def open_ok_def intro!: filter_cong)
  ultimately have nr: "nr = length (filter (\<lambda>i. Hs ! i \<noteq> []) [0..<length Hs])" by (simp add: nr_def)
  let ?st0 = "\<lparr>txns = ts, heap = binaryheap_allocate nr (replicate nr 0), entries = []\<rparr>"
  have "add_inv Hs 0 ?st0"
    using len oks nr by (simp add: add_inv_def binaryheap_allocate_def heap_wf_def heap_elems_def)
  with iter_add_txns_ok [of Hs 0 ?st0 m] m obtain st1
    where st1: "iter_add_txns m [0..<length Hs] ?st0 = Inr st1" "add_inv Hs (length Hs) st1" by auto
  let ?c = "ReorderBufferIterCompare (entries st1)"
  let ?st = "st1\<lparr>heap := binaryheap_build ?c (heap st1)\<rparr>"
  let ?S = "{0..<length (entries ?st)}"
  have nos: "map txn_no (entries st1) = filter (\<lambda>i. Hs ! i \<noteq> []) [0..<length Hs]"
    and wf: "heap_wf (heap st1)" and el: "heap_elems (heap st1) = mset_set {0..<length (entries st1)}"
    and es: "\<And>off. off < length (entries st1) \<Longrightarrow> entry_ok st1 off \<and> entry_rest st1 off = Hs ! txn_no (entries st1 ! off)"
    using st1(2) unfolding add_inv_def by auto
  have same: "entry_ok ?st off = entry_ok st1 off" "entry_rest ?st off = entry_rest st1 off" for off
    by (simp_all add: entry_ok_def entry_rest_def)
  have r: "ReorderBufferIterTXNInit m ts = Inr ?st"
    using st1(1) len by (simp add: ReorderBufferIterTXNInit_def nr_def [symmetric])
  have "distinct (map txn_no (entries st1))" unfolding nos by simp
  then have "inj_on (\<lambda>off. txn_no (entries st1 ! off)) ?S"
    by (fastforce simp: inj_on_def distinct_conv_nth)
  then have inv: "iter_inv ?st ?S"
    using reorder.build_correct(1,2) [OF wf, of "entries st1"] el es by (simp add: iter_inv_def same)
  have "txn_no (entries st1 ! x) < length Hs" if "x < length (entries st1)" for x
  proof -
    have "txn_no (entries st1 ! x) \<in> set (map txn_no (entries st1))" using that by simp
    then show ?thesis unfolding nos by simp
  qed
  then have sorted: "lsn_sorted (entry_rest ?st x)" if "x < length (entries ?st)" for x
    using that oks es by (auto simp: same txn_ok_def open_ok_def)
  have "all_rests ?st ?S = (\<Sum>x = 0..<length (entries st1). mset (Hs ! txn_no (entries st1 ! x)))"
    using es by (simp add: all_rests_def same)
  also have "\<dots> = sum_list (map (\<lambda>i. mset (Hs ! i)) (map txn_no (entries st1)))"
    by (simp add: sum_filter_lists [symmetric])
  also have "\<dots> = mset (concat Hs)" unfolding nos by (rule mset_concat_nonempty)
  finally have all: "all_rests ?st ?S = mset (concat Hs)" .
  show thesis by (rule that [OF r inv sorted all]) (use nos es same in auto)
qed

section \<open>Order within a transaction\<close>

text \<open>The changes with the LSN \<open>l\<close> come in the order of the one transaction that has them.\<close>

lemma iter_changes_stable:
  assumes "iter_inv st S" and "0 < m" and "\<And>x. x \<in> S \<Longrightarrow> x \<noteq> y \<Longrightarrow> filter (\<lambda>c. lsn c = l) (entry_rest st x) = []"
    and "size (all_rests st S) \<le> n"
  shows "filter (\<lambda>c. lsn c = l) (iter_changes n m st) = (if y \<in> S then filter (\<lambda>c. lsn c = l) (entry_rest st y) else [])"
  using assms
proof (induction n arbitrary: st S)
  case 0
  have "finite S" using "0.prems"(1) by (simp add: iter_inv_def)
  moreover have "all_rests st S = {#}" using "0.prems"(4) by simp
  ultimately have "(\<Union>x \<in> S. set (entry_rest st x)) = {}" using set_all_rests [of S st] by (metis set_mset_empty)
  then have "y \<in> S \<Longrightarrow> entry_rest st y = []" by simp
  then show ?case by simp
next
  case (Suc n)
  have fin: "finite S" using Suc.prems(1) by (simp add: iter_inv_def)
  show ?case
  proof (cases "S = {}")
    case True
    then have "bh_size (heap st) = 0"
      using Suc.prems(1) size_heap_elems [of "heap st"] by (simp add: iter_inv_def heap_invar_def)
    with True show ?thesis by (simp add: ReorderBufferIterTXNNext_def)
  next
    case False
    obtain off c st' S' where off: "off \<in> S" and N: "ReorderBufferIterTXNNext m st = (Some c, st')"
      and inv': "iter_inv st' S'" and "\<And>x. x \<in> S \<Longrightarrow> lsn c \<le> lsn (hd (entry_rest st x))"
      and oth: "\<And>x. x \<in> S \<Longrightarrow> x \<noteq> off \<Longrightarrow> entry_rest st' x = entry_rest st x"
      and S': "S' = S \<and> entry_rest st off = c # entry_rest st' off \<or> S' = S - {off} \<and> entry_rest st off = [c]"
      using Next_step [OF Suc.prems(1) False Suc.prems(2)] by blast
    have all: "all_rests st S = add_mset c (all_rests st' S')" by (rule all_rests_step [OF fin off oth S'])
    let ?F = "filter (\<lambda>c. lsn c = l)"
    have oth': "?F (entry_rest st' x) = ?F (entry_rest st x)" if "x \<in> S" "x \<noteq> off" for x using oth [OF that] by simp
    have c: "?F (entry_rest st off) = ?F [c] @ (if off \<in> S' then ?F (entry_rest st' off) else [])"
      using S' off by (elim disjE conjE) simp_all
    have S'': "S' \<subseteq> S" "S - {off} \<subseteq> S'" using S' by auto
    have none: "?F (entry_rest st' x) = []" if "x \<in> S'" "x \<noteq> y" for x
    proof (cases "x = off")
      case True
      then show ?thesis using that Suc.prems(3) [OF off] c by simp
    next
      case False
      then show ?thesis using that S''(1) oth' [of x] Suc.prems(3) [of x] by auto
    qed
    have ih: "?F (iter_changes n m st') = (if y \<in> S' then ?F (entry_rest st' y) else [])"
    proof (rule Suc.IH [OF inv' Suc.prems(2) none])
      show "size (all_rests st' S') \<le> n" using Suc.prems(4) all by simp
    qed
    have it: "?F (iter_changes (Suc n) m st) = ?F [c] @ ?F (iter_changes n m st')" by (simp add: N)
    show ?thesis
    proof (cases "y = off")
      case True
      then show ?thesis unfolding it ih using c off by simp
    next
      case False
      then have "?F [c] = []" using Suc.prems(3) [OF off] c by (metis append_is_Nil_conv)
      moreover have "y \<in> S' \<longleftrightarrow> y \<in> S" using False S'' by blast
      ultimately show ?thesis unfolding it ih using False oth' [of y] by (cases "y \<in> S") simp_all
    qed
  qed
qed

section \<open>From the WAL to the iterator\<close>

lemma length_QueueChange [simp]: "length (ReorderBufferQueueChange m limit i c ts) = length ts"
  by (simp add: ReorderBufferQueueChange_def ReorderBufferCheckSerializeTXN_def Let_def)

lemma length_decode [simp]: "length (decode_event m ev ts) = length ts"
  by (cases ev) (simp_all add: ReorderBufferAssignChild_def)

lemma serialize_txn_first [simp]: "first_lsn (serialize_txn t) = first_lsn t"
  by (simp add: serialize_txn_def)

lemma CheckSerialize_open:
  assumes "j < length ts" and "open_ok (ts ! j) H"
  shows "open_ok (ReorderBufferCheckSerializeTXN m limit i ts ! j) H"
    and "first_lsn (ReorderBufferCheckSerializeTXN m limit i ts ! j) = first_lsn (ts ! j)"
  using assms by (simp_all add: ReorderBufferCheckSerializeTXN_def nth_SerializeTXN serialize_txn_open)

lemma queue_open:
  assumes "open_ok t H" and "lsn_sorted (H @ [c])" and "first_lsn t \<le> lsn c"
  shows "open_ok (t\<lparr>changes := changes t @ [c], nentries := nentries t + 1, nentries_mem := nentries_mem t + 1\<rparr>) (H @ [c])"
  using assms by (auto simp: open_ok_def)

lemma decode_event_open:
  assumes "j < length ts" and "open_ok (ts ! j) H" and "lsn_sorted (H @ event_changes (\<lambda>i. i = j) ev)"
    and "\<And>c. c \<in> set (event_changes (\<lambda>i. i = j) ev) \<Longrightarrow> first_lsn (ts ! j) \<le> lsn c"
  shows "open_ok (decode_event m ev ts ! j) (H @ event_changes (\<lambda>i. i = j) ev)"
    and "first_lsn (decode_event m ev ts ! j) = first_lsn (ts ! j)"
proof -
  have "open_ok (decode_event m ev ts ! j) (H @ event_changes (\<lambda>i. i = j) ev) \<and>
    first_lsn (decode_event m ev ts ! j) = first_lsn (ts ! j)"
  proof (cases ev)
    case (Change i limit c)
    let ?t = "ts ! i"
    let ?ts = "ts[i := ?t\<lparr>changes := changes ?t @ [c], nentries := nentries ?t + 1, nentries_mem := nentries_mem ?t + 1\<rparr>]"
    have "open_ok (?ts ! j) (H @ event_changes (\<lambda>i. i = j) ev) \<and> first_lsn (?ts ! j) = first_lsn (ts ! j)"
      using assms queue_open [of "ts ! j" H c] by (cases "i = j") (simp_all add: Change)
    then have "open_ok (?ts ! j) (H @ event_changes (\<lambda>i. i = j) ev)" "first_lsn (?ts ! j) = first_lsn (ts ! j)" by auto
    moreover have "j < length ?ts" using assms(1) by simp
    moreover have "decode_event m ev ts = ReorderBufferCheckSerializeTXN m limit i ?ts"
      by (simp add: Change ReorderBufferQueueChange_def Let_def)
    ultimately show ?thesis using CheckSerialize_open by metis
  next
    case (Assign i)
    then show ?thesis using assms(1,2) by (cases "i = j") (simp_all add: ReorderBufferAssignChild_def open_ok_def)
  qed
  then show "open_ok (decode_event m ev ts ! j) (H @ event_changes (\<lambda>i. i = j) ev)"
    and "first_lsn (decode_event m ev ts ! j) = first_lsn (ts ! j)" by simp_all
qed

lemma length_decode_all [simp]: "length (fold (decode_event m) evs ts) = length ts"
  by (induction evs arbitrary: ts) simp_all

lemma decode_open:
  assumes "j < length ts" and "open_ok (ts ! j) H" and "lsn_sorted (H @ wal_changes (\<lambda>i. i = j) evs)"
    and "\<And>c. c \<in> set (wal_changes (\<lambda>i. i = j) evs) \<Longrightarrow> first_lsn (ts ! j) \<le> lsn c"
  shows "open_ok (fold (decode_event m) evs ts ! j) (H @ wal_changes (\<lambda>i. i = j) evs) \<and>
    first_lsn (fold (decode_event m) evs ts ! j) = first_lsn (ts ! j)"
  using assms
proof (induction evs arbitrary: ts H)
  case (Cons ev evs)
  let ?H = "H @ event_changes (\<lambda>i. i = j) ev"
  have "lsn_sorted ?H" using Cons.prems(3) by (simp add: sorted_wrt_append)
  note ev = decode_event_open [OF Cons.prems(1,2) this, of m]
  have le: "first_lsn (ts ! j) \<le> lsn c" if "c \<in> set (event_changes (\<lambda>i. i = j) ev)" for c
    using Cons.prems(4) that by simp
  have "first_lsn (decode_event m ev ts ! j) \<le> lsn c" if "c \<in> set (wal_changes (\<lambda>i. i = j) evs)" for c
    using Cons.prems(4) [of c] that ev(2) [OF le] by simp
  with Cons.IH [of "decode_event m ev ts" ?H] ev [OF le] Cons.prems(1,3) show ?case by simp
qed simp

lemma GetTXN_open: "open_ok (ReorderBufferGetTXN start) []"
  by (simp add: ReorderBufferGetTXN_def open_ok_def)

lemma commit_ok:
  assumes "open_ok t H" and "first_lsn t \<le> l" and "\<And>c. c \<in> set H \<Longrightarrow> lsn c \<le> l"
  shows "txn_ok (t\<lparr>final_lsn := l, is_known_as_subxact := True\<rparr>) H"
  using assms by (auto simp: txn_ok_def open_ok_def)

lemma event_changes_mono: "set (event_changes (\<lambda>i. P i \<and> Q i) ev) \<subseteq> set (event_changes P ev)"
  by (cases ev) auto

lemma sorted_sublist_changes: "lsn_sorted (wal_changes P evs) \<Longrightarrow> lsn_sorted (wal_changes (\<lambda>i. P i \<and> Q i) evs)"
proof (induction evs)
  case (Cons ev evs)
  have "set (wal_changes (\<lambda>i. P i \<and> Q i) evs) \<subseteq> set (wal_changes P evs)"
    using event_changes_mono by fastforce
  with Cons show ?case by (cases ev) (auto simp: sorted_wrt_append)
qed simp

lemma one_txn_filter:
  assumes "\<And>j limit d. Change j limit d \<in> set evs \<Longrightarrow> lsn d = l \<Longrightarrow> j = i"
  shows "filter (\<lambda>c. lsn c = l) (wal_changes (\<lambda>j. j = k) evs) =
    (if k = i then filter (\<lambda>c. lsn c = l) (wal_changes (\<lambda>_. True) evs) else [])"
  using assms
proof (induction evs)
  case (Cons ev evs)
  have "filter (\<lambda>c. lsn c = l) (wal_changes (\<lambda>j. j = k) evs) =
      (if k = i then filter (\<lambda>c. lsn c = l) (wal_changes (\<lambda>_. True) evs) else [])"
    by (rule Cons.IH) (use Cons.prems in auto)
  note ih = this
  show ?case
  proof (cases ev)
    case (Change j limit d)
    then have "lsn d = l \<Longrightarrow> j = i" using Cons.prems [of j limit d] by simp
    with ih show ?thesis by (cases "lsn d = l") (simp_all add: Change)
  qed (use ih in simp)
qed simp

lemma in_event_changes: "c \<in> set (event_changes P ev) \<longleftrightarrow> (\<exists>i limit. ev = Change i limit c \<and> P i)"
  by (cases ev) auto

lemma decode_commit_ok:
  assumes "length commits = length firsts"
    and "lsn_sorted (wal_changes (\<lambda>_. True) evs)"
    and b: "\<And>i limit c. Change i limit c \<in> set evs \<Longrightarrow> i < length firsts \<and> firsts ! i \<le> lsn c \<and> lsn c \<le> commits ! i"
    and le: "\<And>i. i < length firsts \<Longrightarrow> firsts ! i \<le> commits ! i"
  shows "list_all2 txn_ok (commit_lsns commits (fold (decode_event m) evs (map ReorderBufferGetTXN firsts)))
    (map (\<lambda>j. wal_changes (\<lambda>i. i = j) evs) [0..<length firsts])"
proof -
  let ?ts = "map ReorderBufferGetTXN firsts :: 'a ReorderBufferTXN list"
  have "txn_ok ((fold (decode_event m) evs ?ts ! j)\<lparr>final_lsn := commits ! j, is_known_as_subxact := True\<rparr>) (wal_changes (\<lambda>i. i = j) evs)"
    if j: "j < length firsts" for j
  proof -
    have cs: "\<exists>limit. Change j limit c \<in> set evs" if "c \<in> set (wal_changes (\<lambda>i. i = j) evs)" for c
      using that by (auto simp: in_event_changes)
    have first: "first_lsn (?ts ! j) = firsts ! j" using j by (simp add: ReorderBufferGetTXN_def)
    have "lsn_sorted ([] @ wal_changes (\<lambda>i. i = j) evs)" using sorted_sublist_changes [OF assms(2), of "\<lambda>i. i = j"] by simp
    moreover have "first_lsn (?ts ! j) \<le> lsn c" if "c \<in> set (wal_changes (\<lambda>i. i = j) evs)" for c
      unfolding first using cs [OF that] b by blast
    moreover have "open_ok (?ts ! j) []" using j by (simp add: GetTXN_open)
    moreover have "j < length ?ts" using j by simp
    ultimately have "open_ok (fold (decode_event m) evs ?ts ! j) ([] @ wal_changes (\<lambda>i. i = j) evs) \<and>
        first_lsn (fold (decode_event m) evs ?ts ! j) = first_lsn (?ts ! j)"
      by (intro decode_open)
    then show ?thesis unfolding first using cs b le [OF j] by (intro commit_ok) auto
  qed
  then show ?thesis using assms(1) by (simp add: list_all2_conv_all_nth commit_lsns_def)
qed

lemma wal_changes_split:
  assumes "\<And>i limit c. Change i limit c \<in> set evs \<Longrightarrow> i < n"
  shows "mset (concat (map (\<lambda>j. wal_changes (\<lambda>i. i = j) evs) [0..<n])) = mset (wal_changes (\<lambda>_. True) evs)"
  using assms
proof (induction evs)
  case Nil
  then show ?case by (induction n) auto
next
  case (Cons ev evs)
  have one: "(\<Sum>j \<leftarrow> [0..<n]. mset (event_changes (\<lambda>i. i = j) ev)) = mset (event_changes (\<lambda>_. True) ev)"
  proof (cases ev)
    case (Change i limit c)
    then have "i < n" using Cons.prems by auto
    then show ?thesis
      by (simp add: Change interv_sum_list_conv_sum_set_nat if_distrib sum.delta cong: if_cong)
  qed (simp add: interv_sum_list_conv_sum_set_nat)
  have "mset (concat (map (\<lambda>j. wal_changes (\<lambda>i. i = j) evs) [0..<n])) = mset (wal_changes (\<lambda>_. True) evs)"
    by (rule Cons.IH) (use Cons.prems in auto)
  with one show ?case by (simp add: mset_concat comp_def sum_list_addf)
qed

section \<open>Properties\<close>

text \<open>
  The iteration over committed transactions is, for every LSN that one transaction alone has, in the order of that
  transaction.
\<close>

lemma iter_filter:
  assumes inv: "iter_inv st {0..<length (entries st)}" and m: "0 < m" and n: "size (all_rests st {0..<length (entries st)}) \<le> n"
    and nos: "map txn_no (entries st) = filter (\<lambda>i. Hs ! i \<noteq> []) [0..<length Hs]"
    and rest: "\<And>x. x < length (entries st) \<Longrightarrow> entry_rest st x = Hs ! txn_no (entries st ! x)"
    and i: "i < length Hs" and only: "\<And>k. k < length Hs \<Longrightarrow> k \<noteq> i \<Longrightarrow> filter (\<lambda>c. lsn c = l) (Hs ! k) = []"
  shows "filter (\<lambda>c. lsn c = l) (iter_changes n m st) = filter (\<lambda>c. lsn c = l) (Hs ! i)"
proof -
  let ?S = "{0..<length (entries st)}"
  have no: "txn_no (entries st ! x) < length Hs" if "x \<in> ?S" for x
  proof -
    have "txn_no (entries st ! x) \<in> set (map txn_no (entries st))" using that by simp
    then show ?thesis unfolding nos by simp
  qed
  show ?thesis
  proof (cases "Hs ! i = []")
    case True
    have "filter (\<lambda>c. lsn c = l) (entry_rest st x) = []" if "x \<in> ?S" for x
      using only [OF no [OF that]] rest [of x] that True by (cases "txn_no (entries st ! x) = i") simp_all
    then show ?thesis using iter_changes_stable [OF inv m _ n, of "length (entries st)" l] True by simp
  next
    case False
    then have "i \<in> set (map txn_no (entries st))" unfolding nos using i by simp
    then obtain y where y: "y < length (entries st)" "txn_no (entries st ! y) = i" by (auto simp: in_set_conv_nth)
    have "filter (\<lambda>c. lsn c = l) (entry_rest st x) = []" if "x \<in> ?S" "x \<noteq> y" for x
    proof -
      have "distinct (map txn_no (entries st))" unfolding nos by simp
      then have "txn_no (entries st ! x) \<noteq> i" using that y nth_eq_iff_index_eq [of "map txn_no (entries st)" x y] by auto
      with only [OF no [OF that(1)]] rest [of x] that show ?thesis by simp
    qed
    then show ?thesis using iter_changes_stable [OF inv m _ n, of y l] y rest [of y] by simp
  qed
qed

text \<open>
  C11. Logical decoding replays a transaction in WAL order: whatever changes of the transaction and its subtransactions the
  decoder queued, however they were interleaved, spilled to disk and assigned to the top-level transaction on the way,
  the loop over \<open>ReorderBufferIterTXNNext\<close> after the commit returns exactly these changes, each once, in the order of
  the WAL, and then ends. The WAL position of a change belongs to one transaction and lies between the first LSN
  and the commit LSN of that transaction.
\<close>

theorem reorder_buffer_replays_wal_order:
  assumes m: "0 < max_changes" and len: "length commits = length firsts"
    and sorted: "lsn_sorted (wal_changes (\<lambda>_. True) evs)"
    and bounds: "\<And>i limit c. Change i limit c \<in> set evs \<Longrightarrow> i < length firsts \<and> firsts ! i \<le> lsn c \<and> lsn c \<le> commits ! i"
    and le: "\<And>i. i < length firsts \<Longrightarrow> firsts ! i \<le> commits ! i"
    and one: "\<And>i j limit limit' c d. Change i limit c \<in> set evs \<Longrightarrow> Change j limit' d \<in> set evs \<Longrightarrow> lsn c = lsn d \<Longrightarrow> i = j"
    and n: "length (wal_changes (\<lambda>_. True) evs) \<le> n"
  shows "\<exists>state. ReorderBufferIterTXNInit max_changes
      (commit_lsns commits (fold (decode_event max_changes) evs (map ReorderBufferGetTXN firsts))) = Inr state \<and>
    iter_changes n max_changes state = wal_changes (\<lambda>_. True) evs"
proof -
  let ?wal = "wal_changes (\<lambda>_. True) evs"
  let ?Hs = "map (\<lambda>j. wal_changes (\<lambda>i. i = j) evs) [0..<length firsts]"
  have "list_all2 txn_ok (commit_lsns commits (fold (decode_event max_changes) evs (map ReorderBufferGetTXN firsts))) ?Hs"
    using len sorted bounds le by (rule decode_commit_ok)
  then obtain st where r: "ReorderBufferIterTXNInit max_changes
      (commit_lsns commits (fold (decode_event max_changes) evs (map ReorderBufferGetTXN firsts))) = Inr st"
    and inv: "iter_inv st {0..<length (entries st)}" and srt: "\<And>x. x < length (entries st) \<Longrightarrow> lsn_sorted (entry_rest st x)"
    and all: "all_rests st {0..<length (entries st)} = mset (concat ?Hs)"
    and nos: "map txn_no (entries st) = filter (\<lambda>i. ?Hs ! i \<noteq> []) [0..<length ?Hs]"
    and rest: "\<And>x. x < length (entries st) \<Longrightarrow> entry_rest st x = ?Hs ! txn_no (entries st ! x)"
    using m by (rule Init_ok) (rule that)
  have "mset (concat ?Hs) = mset ?wal" by (rule wal_changes_split) (use bounds in blast)
  then have wal: "all_rests st {0..<length (entries st)} = mset ?wal" using all by (simp only:)
  then have size: "size (all_rests st {0..<length (entries st)}) \<le> n" using n by (simp only: size_mset)
  have merge: "mset (iter_changes n max_changes st) = mset ?wal" "lsn_sorted (iter_changes n max_changes st)"
    using iter_changes_merge [OF inv m _ size] srt wal by auto
  have eq: "filter (\<lambda>c. lsn k = lsn c) (iter_changes n max_changes st) = filter (\<lambda>c. lsn k = lsn c) ?wal"
    if "k \<in> set (iter_changes n max_changes st)" for k
  proof -
    have "k \<in> set ?wal" using that merge(1) by (metis set_mset_mset)
    then obtain i limit where i: "Change i limit k \<in> set evs" by (auto simp: in_event_changes)
    have F: "filter (\<lambda>c. lsn c = lsn k) (wal_changes (\<lambda>j. j = k') evs) =
        (if k' = i then filter (\<lambda>c. lsn c = lsn k) ?wal else [])" for k'
      by (rule one_txn_filter) (use one i in metis)
    have "filter (\<lambda>c. lsn c = lsn k) (iter_changes n max_changes st) = filter (\<lambda>c. lsn c = lsn k) (?Hs ! i)"
      by (rule iter_filter [OF inv m size nos rest]) (use bounds [OF i] F in auto)
    also have "\<dots> = filter (\<lambda>c. lsn c = lsn k) ?wal" using bounds [OF i] F [of i] by simp
    finally show ?thesis unfolding eq_commute [of "lsn k"] .
  qed
  have "sort_key lsn ?wal = iter_changes n max_changes st"
    using merge eq by (intro properties_for_sort_key) (simp_all add: sorted_map)
  moreover have "sort_key lsn ?wal = ?wal" using sorted by (intro sort_key_id_if_sorted) (simp add: sorted_map)
  ultimately show ?thesis using r by simp
qed

definition sample_wal :: "nat wal_event list" where
  "sample_wal = [Change 0 False \<lparr>lsn = 100, action = 1\<rparr>, Change 1 False \<lparr>lsn = 200, action = 2\<rparr>,
     Change 0 False \<lparr>lsn = 300, action = 3\<rparr>, Assign 1, Change 1 True \<lparr>lsn = 300000000, action = 4\<rparr>,
     Change 0 True \<lparr>lsn = 400000000, action = 5\<rparr>]"

theorem reorder_buffer_replays_wal_order_witness:
  "\<exists>state. ReorderBufferIterTXNInit 2
      (commit_lsns [500000000, 450000000] (fold (decode_event 2) sample_wal (map ReorderBufferGetTXN [100, 200]))) = Inr state \<and>
    iter_changes 10 2 state = map (\<lambda>(l, a). \<lparr>lsn = l, action = a\<rparr>)
      [(100, 1), (200, 2), (300, 3), (300000000, 4), (400000000, 5)]"
proof -
  have wal: "wal_changes (\<lambda>_. True) sample_wal = map (\<lambda>(l, a). \<lparr>lsn = l, action = a\<rparr>)
      [(100, 1), (200, 2), (300, 3), (300000000, 4), (400000000, 5)]" by (simp add: sample_wal_def)
  have "\<exists>state. ReorderBufferIterTXNInit 2
      (commit_lsns [500000000, 450000000] (fold (decode_event 2) sample_wal (map ReorderBufferGetTXN [100, 200]))) = Inr state \<and>
    iter_changes 10 2 state = wal_changes (\<lambda>_. True) sample_wal"
  proof (rule reorder_buffer_replays_wal_order)
    show "lsn_sorted (wal_changes (\<lambda>_. True) sample_wal)" unfolding wal by simp
    show "length (wal_changes (\<lambda>_. True) sample_wal) \<le> 10" unfolding wal by simp
  qed (auto simp: sample_wal_def less_Suc_eq)
  then show ?thesis unfolding wal .
qed

end
