(* ===== verification/Xact_State.thy ===== *)
theory Xact_State
  imports Tuple_Header
begin

text \<open>
  The transaction block state machine of \<open>src/gausskernel/storage/access/transam/xact.cpp\<close>: the stack of
  transaction states of a session, the commands BEGIN, COMMIT, ROLLBACK, PREPARE, SAVEPOINT, RELEASE and ROLLBACK TO,
  and what the main loop calls before and after every command and after an error.

  The session record has the stack \<open>frames\<close>, current transaction first and \<open>TopTransactionStateData\<close> last, the
  counters of the transaction, the settings the code reads, and of the shared state the next transaction id and what
  the commit log gets to know. Memory contexts, resource owners, locks, undo records, callbacks, statistics and log messages
  (\<open>ereport\<close> below ERROR) are not modelled, nor is the distributed build. Undo pointers are left out with the undo
  actions, so the states \<open>TBLOCK_UNDO\<close> and \<open>TBLOCK_SUBUNDO\<close> are never entered.
\<close>

section \<open>The state of a session\<close>

datatype TransState = TRANS_DEFAULT | TRANS_START | TRANS_INPROGRESS | TRANS_COMMIT | TRANS_ABORT | TRANS_PREPARE | TRANS_UNDO

datatype TBlockState = TBLOCK_DEFAULT | TBLOCK_STARTED | TBLOCK_BEGIN | TBLOCK_INPROGRESS | TBLOCK_END | TBLOCK_ABORT
  | TBLOCK_ABORT_END | TBLOCK_ABORT_PENDING | TBLOCK_PREPARE | TBLOCK_UNDO | TBLOCK_SUBBEGIN | TBLOCK_SUBINPROGRESS
  | TBLOCK_SUBRELEASE | TBLOCK_SUBCOMMIT | TBLOCK_SUBABORT | TBLOCK_SUBABORT_END | TBLOCK_SUBABORT_PENDING
  | TBLOCK_SUBRESTART | TBLOCK_SUBABORT_RESTART | TBLOCK_SUBUNDO

record TransactionStateData =
  transactionId :: TransactionId
  subTransactionId :: uint32
  sp_name :: "string option"
  savepointLevel :: int
  trans_state :: TransState
  blockState :: TBlockState
  nestingLevel :: int
  childXids :: "TransactionId list"
  maxChildXids :: nat

text \<open>
  \<open>'i\<close> is what statements write; \<open>written\<close> has every item with the transaction id it was written under, \<open>committed\<close>
  and \<open>aborted\<close> the ids with that status in the commit log, \<open>prepared\<close> the prepared transactions. \<open>commit_error\<close> says
  that the pre-commit work of a top-level commit or prepare fails (a deferred constraint, a refused PREPARE),
  \<open>xid_allowed\<close> that the server may assign transaction ids (no recovery, no switchover), \<open>nested_begin_warns\<close> the
  condition on the kind of node in \<open>BeginTransactionBlock\<close>.
\<close>

record 'i xact_session =
  frames :: "TransactionStateData list"
  currentSubTransactionId :: uint32
  currentCommandId :: CommandId
  currentCommandIdUsed :: bool
  prepareGID :: "string option"
  handlesDestroyedInCancelQuery :: bool
  portal_stp_exception_counter :: nat
  stp_savepoint_cnt :: nat
  phony_autocommit :: bool
  nested_begin_warns :: bool
  xid_allowed :: bool
  commit_error :: bool
  nextXid :: TransactionId
  committed :: "TransactionId list"
  aborted :: "TransactionId list"
  prepared :: "(string option \<times> TransactionId list) list"
  written :: "(TransactionId \<times> 'i) list"

text \<open>
  A call returns, raises an error (\<open>ereport(ERROR)\<close>, control goes to the error handler of the main loop with the state as it is), or
  ends the session (\<open>ereport(FATAL)\<close>).
\<close>

datatype ('s, 'a) outcome = Returns 'a 's | Raises 's | Dies

fun then_do :: "('s, unit) outcome \<Rightarrow> ('s \<Rightarrow> ('s, 'a) outcome) \<Rightarrow> ('s, 'a) outcome" where
  "then_do (Returns _ s) f = f s"
| "then_do (Raises s) f = Raises s"
| "then_do Dies f = Dies"

abbreviation ok :: "'s \<Rightarrow> ('s, unit) outcome" where
  "ok \<equiv> Returns ()"

lemma then_do_cong [fundef_cong]:
  "m = m' \<Longrightarrow> (\<And>s. m' = ok s \<Longrightarrow> f s = f' s) \<Longrightarrow> then_do m f = then_do m' f'"
  by (cases m') auto

definition cur :: "'i xact_session \<Rightarrow> TransactionStateData" where
  "cur s = hd (frames s)"

definition upd_cur :: "(TransactionStateData \<Rightarrow> TransactionStateData) \<Rightarrow> 'i xact_session \<Rightarrow> 'i xact_session" where
  "upd_cur f s = (case frames s of [] \<Rightarrow> s | c # ps \<Rightarrow> s\<lparr>frames := f c # ps\<rparr>)"

abbreviation set_block :: "TBlockState \<Rightarrow> 'i xact_session \<Rightarrow> 'i xact_session" where
  "set_block b \<equiv> upd_cur (\<lambda>f. f\<lparr>blockState := b\<rparr>)"

abbreviation set_state :: "TransState \<Rightarrow> 'i xact_session \<Rightarrow> 'i xact_session" where
  "set_state t \<equiv> upd_cur (\<lambda>f. f\<lparr>trans_state := t\<rparr>)"

definition top_block :: "'i xact_session \<Rightarrow> TBlockState" where
  "top_block s = blockState (last (frames s))"

section \<open>Transaction ids and commands\<close>

definition TransactionIdAdvance :: "TransactionId \<Rightarrow> TransactionId" where
  "TransactionIdAdvance xid = xid + 1"

text \<open>Ids are given to all parents that have none first, from the top down.\<close>

fun AssignTransactionId :: "TransactionStateData list \<Rightarrow> TransactionId \<Rightarrow> TransactionStateData list \<times> TransactionId" where
  "AssignTransactionId [] next = ([], next)"
| "AssignTransactionId (s # ps) next =
     (if TransactionIdIsValid (transactionId s) then (s # ps, next)
      else let (ps, xid) = AssignTransactionId ps next in (s\<lparr>transactionId := xid\<rparr> # ps, TransactionIdAdvance xid))"

definition GetCurrentTransactionId :: "'i xact_session \<Rightarrow> ('i xact_session, unit) outcome" where
  "GetCurrentTransactionId s =
     (if TransactionIdIsValid (transactionId (cur s)) then ok s
      else if \<not> xid_allowed s then Raises s
      else let (fs, next) = AssignTransactionId (frames s) (nextXid s) in ok (s\<lparr>frames := fs, nextXid := next\<rparr>))"

definition InvalidCommandId :: CommandId where
  "InvalidCommandId = 0xFFFFFFFF"

definition CommandCounterIncrement :: "'i xact_session \<Rightarrow> ('i xact_session, unit) outcome" where
  "CommandCounterIncrement s =
     (if currentCommandIdUsed s then
        let c = currentCommandId s + 1
        in if c = InvalidCommandId then Raises s else ok (s\<lparr>currentCommandId := c, currentCommandIdUsed := False\<rparr>)
      else ok s)"

text \<open>One INSERT, UPDATE or DELETE of an item: it is stored under the current transaction id and command id.\<close>

definition write_item :: "'i \<Rightarrow> 'i xact_session \<Rightarrow> ('i xact_session, unit) outcome" where
  "write_item i s =
     then_do (GetCurrentTransactionId s) (\<lambda>s.
       ok (s\<lparr>currentCommandIdUsed := True, written := written s @ [(transactionId (cur s), i)]\<rparr>))"

section \<open>Starting and ending one level\<close>

definition PushTransaction :: "'i xact_session \<Rightarrow> ('i xact_session, unit) outcome" where
  "PushTransaction s =
     (let subid = currentSubTransactionId s + 1; p = cur s
      in if subid = 0 then Raises s
         else ok (s\<lparr>currentSubTransactionId := subid,
                frames := \<lparr>transactionId = InvalidTransactionId, subTransactionId = subid, sp_name = None,
                  savepointLevel = savepointLevel p, trans_state = TRANS_DEFAULT, blockState = TBLOCK_SUBBEGIN,
                  nestingLevel = nestingLevel p + 1, childXids = [], maxChildXids = 0\<rparr> # frames s\<rparr>))"

definition PopTransaction :: "'i xact_session \<Rightarrow> ('i xact_session, unit) outcome" where
  "PopTransaction s =
     (case frames s of
        c # p # ps \<Rightarrow> ok (s\<lparr>frames := p # ps, currentSubTransactionId := subTransactionId p\<rparr>)
      | _ \<Rightarrow> Dies)"

definition StartSubTransaction :: "'i xact_session \<Rightarrow> ('i xact_session, unit) outcome" where
  "StartSubTransaction s = ok (upd_cur (\<lambda>f. f\<lparr>trans_state := TRANS_INPROGRESS, transactionId := InvalidTransactionId\<rparr>) s)"

definition MaxChildXids :: nat where
  "MaxChildXids = 134217727"

text \<open>\<open>MaxAllocSize / sizeof(TransactionId)\<close> is \<open>MaxChildXids\<close>.\<close>

definition AtSubCommit_childXids :: "'i xact_session \<Rightarrow> ('i xact_session, unit) outcome" where
  "AtSubCommit_childXids s =
     (case frames s of
        c # p # ps \<Rightarrow>
          (let new_nChildXids = length (childXids p) + length (childXids c) + 1;
               new_maxChildXids = min (new_nChildXids * 2) MaxChildXids
           in if maxChildXids p < new_nChildXids \<and> new_maxChildXids < new_nChildXids then Raises s
              else ok (s\<lparr>frames := c\<lparr>childXids := [], maxChildXids := 0\<rparr> #
                     p\<lparr>childXids := childXids p @ transactionId c # childXids c,
                       maxChildXids := (if maxChildXids p < new_nChildXids then new_maxChildXids else maxChildXids p)\<rparr> # ps\<rparr>))
      | _ \<Rightarrow> Dies)"

definition CommitSubTransaction :: "'i xact_session \<Rightarrow> ('i xact_session, unit) outcome" where
  "CommitSubTransaction s =
     then_do (CommandCounterIncrement (set_state TRANS_COMMIT s)) (\<lambda>s.
     then_do (if TransactionIdIsValid (transactionId (cur s)) then AtSubCommit_childXids s else ok s) (\<lambda>s.
     PopTransaction (set_state TRANS_DEFAULT s)))"

definition RecordTransactionAbort :: "'i xact_session \<Rightarrow> 'i xact_session" where
  "RecordTransactionAbort s =
     (if TransactionIdIsValid (transactionId (cur s))
      then s\<lparr>aborted := aborted s @ transactionId (cur s) # childXids (cur s)\<rparr> else s)"

definition AbortSubTransaction :: "'i xact_session \<Rightarrow> 'i xact_session" where
  "AbortSubTransaction s =
     (let s = RecordTransactionAbort (set_state TRANS_ABORT s)
      in if TransactionIdIsValid (transactionId (cur s)) then upd_cur (\<lambda>f. f\<lparr>childXids := [], maxChildXids := 0\<rparr>) s else s)"

definition CleanupSubTransaction :: "'i xact_session \<Rightarrow> ('i xact_session, unit) outcome" where
  "CleanupSubTransaction s = PopTransaction (set_state TRANS_DEFAULT s)"

text \<open>The stack is emptied first; the fields are those of \<open>TopTransactionStateData\<close>.\<close>

definition StartTransaction :: "'i xact_session \<Rightarrow> ('i xact_session, unit) outcome" where
  "StartTransaction s =
     ok (s\<lparr>frames := [(last (frames s))\<lparr>transactionId := InvalidTransactionId, subTransactionId := 1, trans_state := TRANS_INPROGRESS,
             nestingLevel := 1, childXids := [], maxChildXids := 0\<rparr>],
           currentSubTransactionId := 1, currentCommandId := 0, currentCommandIdUsed := False,
           handlesDestroyedInCancelQuery := False\<rparr>)"

definition reset_frame :: "TransactionStateData \<Rightarrow> TransactionStateData" where
  "reset_frame f = f\<lparr>transactionId := InvalidTransactionId, subTransactionId := 0, nestingLevel := 0, childXids := [],
     maxChildXids := 0, trans_state := TRANS_DEFAULT\<rparr>"

text \<open>
  The work of \<open>CommitTransaction\<close> before the commit record (deferred triggers, cursors, ON COMMIT actions, serialization checks,
  notifications) may fail, which \<open>commit_error\<close> says; then the ids of the transaction and of its subcommitted children are
  committed together, and the state is reset. \<open>PrepareTransaction\<close> gives the same ids to a prepared transaction, under the
  identifier that \<open>PrepareTransactionBlock\<close> has saved; \<open>AbortTransaction\<close> records them as aborted.
\<close>

definition CommitTransaction :: "'i xact_session \<Rightarrow> ('i xact_session, unit) outcome" where
  "CommitTransaction s =
     (let s = s\<lparr>handlesDestroyedInCancelQuery := False\<rparr>
      in if commit_error s then Raises s
         else ok (upd_cur reset_frame (s\<lparr>committed := committed s @
                (if TransactionIdIsValid (transactionId (cur s)) then transactionId (cur s) # childXids (cur s) else [])\<rparr>)))"

definition PrepareTransaction :: "'i xact_session \<Rightarrow> ('i xact_session, unit) outcome" where
  "PrepareTransaction s =
     then_do (GetCurrentTransactionId s) (\<lambda>s.
       if commit_error s then Raises s
       else ok (upd_cur reset_frame (s\<lparr>prepared := prepared s @ [(prepareGID s, transactionId (cur s) # childXids (cur s))],
              prepareGID := None\<rparr>)))"

definition AbortTransaction :: "'i xact_session \<Rightarrow> 'i xact_session" where
  "AbortTransaction s = RecordTransactionAbort (set_state TRANS_ABORT s)"

definition CleanupTransaction :: "'i xact_session \<Rightarrow> ('i xact_session, unit) outcome" where
  "CleanupTransaction s = (if trans_state (cur s) \<noteq> TRANS_ABORT then Dies else ok (upd_cur reset_frame s))"

end
