(* ===== verification/Xact_Block.thy ===== *)
theory Xact_Block
  imports Xact_State
begin

text \<open>
  The commands of the transaction block state machine of \<open>xact.cpp\<close>: \<open>StartTransactionCommand\<close>,
  \<open>CommitTransactionCommand\<close> and \<open>AbortCurrentTransaction\<close>, which the main loop calls around every statement, the
  routines behind BEGIN, COMMIT, ROLLBACK, PREPARE, SAVEPOINT, RELEASE and ROLLBACK TO, the internal subtransactions of
  procedures, and the statement loop of \<open>postgres.cpp\<close> and \<open>utility.cpp\<close> as far as transactions are concerned.
\<close>

section \<open>Length of the stack\<close>

lemma upd_cur_simps [simp]:
  "length (frames (upd_cur f s)) = length (frames s)" "frames s = c # ps \<Longrightarrow> frames (upd_cur f s) = f c # ps"
  by (simp_all add: upd_cur_def split: list.splits)

lemma CommandCounterIncrement_frames: "CommandCounterIncrement s = ok s' \<Longrightarrow> frames s' = frames s"
  by (auto simp: CommandCounterIncrement_def Let_def split: if_splits)

lemma PopTransaction_length: "PopTransaction s = ok s' \<Longrightarrow> length (frames s) = Suc (length (frames s'))"
  by (auto simp: PopTransaction_def split: list.splits)

lemma AtSubCommit_length: "AtSubCommit_childXids s = ok s' \<Longrightarrow> length (frames s') = length (frames s)"
  by (auto simp: AtSubCommit_childXids_def Let_def split: list.splits if_splits)

lemma then_do_ok: "then_do m f = ok s' \<longleftrightarrow> (\<exists>s. m = ok s \<and> f s = ok s')"
  by (cases m) auto

lemma CommitSubTransaction_length:
  assumes "CommitSubTransaction s = ok s'"
  shows "length (frames s) = Suc (length (frames s'))"
proof -
  obtain s1 s2 where 1: "CommandCounterIncrement (set_state TRANS_COMMIT s) = ok s1"
    and 2: "(if TransactionIdIsValid (transactionId (cur s1)) then AtSubCommit_childXids s1 else ok s1) = ok s2"
    and 3: "PopTransaction (set_state TRANS_DEFAULT s2) = ok s'"
    using assms unfolding CommitSubTransaction_def then_do_ok by blast
  have "length (frames s2) = length (frames s1)" using 2 AtSubCommit_length by (auto split: if_splits)
  with PopTransaction_length [OF 3] CommandCounterIncrement_frames [OF 1] show ?thesis by simp
qed

lemma CleanupSubTransaction_length: "CleanupSubTransaction s = ok s' \<Longrightarrow> length (frames s) = Suc (length (frames s'))"
  unfolding CleanupSubTransaction_def by (drule PopTransaction_length) simp

lemma AbortSubTransaction_length [simp]: "length (frames (AbortSubTransaction s)) = length (frames s)"
  by (simp add: AbortSubTransaction_def RecordTransactionAbort_def Let_def)

section \<open>Before a command\<close>

definition StartTransactionCommand :: "bool \<Rightarrow> 'i xact_session \<Rightarrow> ('i xact_session, unit) outcome" where
  "StartTransactionCommand STP_rollback s =
     (case blockState (cur s) of
        TBLOCK_DEFAULT \<Rightarrow> then_do (StartTransaction s) (\<lambda>s. ok (set_block TBLOCK_STARTED s))
      | TBLOCK_INPROGRESS \<Rightarrow> ok s
      | TBLOCK_SUBINPROGRESS \<Rightarrow> ok s
      | TBLOCK_ABORT \<Rightarrow> ok (if STP_rollback then set_block TBLOCK_DEFAULT s else s)
      | TBLOCK_SUBABORT \<Rightarrow> ok (if STP_rollback then set_block TBLOCK_DEFAULT s else s)
      | _ \<Rightarrow> Raises s)"

section \<open>Out of everything\<close>

text \<open>One iteration of the loop of \<open>AbortOutOfAnyTransaction\<close>.\<close>

definition abort_out_body :: "bool \<Rightarrow> 'i xact_session \<Rightarrow> ('i xact_session, unit) outcome" where
  "abort_out_body reserve s =
     (let cleanup = (\<lambda>s. then_do (CleanupTransaction s) (\<lambda>s. ok (set_block TBLOCK_DEFAULT s)))
      in case blockState (cur s) of
        TBLOCK_DEFAULT \<Rightarrow>
          if reserve then Dies
          else if trans_state (cur s) = TRANS_DEFAULT then ok s
          else CleanupTransaction (AbortTransaction
                 (if trans_state (cur s) = TRANS_START then set_state TRANS_INPROGRESS s else s))
      | TBLOCK_STARTED \<Rightarrow> if reserve then Dies else cleanup (AbortTransaction s)
      | TBLOCK_BEGIN \<Rightarrow> if reserve then Dies else cleanup (AbortTransaction s)
      | TBLOCK_END \<Rightarrow> cleanup (AbortTransaction s)
      | TBLOCK_ABORT_PENDING \<Rightarrow> cleanup (AbortTransaction s)
      | TBLOCK_PREPARE \<Rightarrow> cleanup (AbortTransaction s)
      | TBLOCK_INPROGRESS \<Rightarrow>
          if reserve then ok (set_block TBLOCK_ABORT (AbortTransaction s)) else cleanup (AbortTransaction s)
      | TBLOCK_UNDO \<Rightarrow> cleanup (AbortTransaction s)
      | TBLOCK_ABORT \<Rightarrow> if reserve then Dies else cleanup s
      | TBLOCK_ABORT_END \<Rightarrow> if reserve then Dies else cleanup s
      | TBLOCK_SUBBEGIN \<Rightarrow> if reserve then Dies else CleanupSubTransaction (AbortSubTransaction s)
      | TBLOCK_SUBABORT_END \<Rightarrow> if reserve then Dies else CleanupSubTransaction s
      | TBLOCK_SUBABORT_RESTART \<Rightarrow> if reserve then Dies else CleanupSubTransaction s
      | TBLOCK_SUBABORT \<Rightarrow> CleanupSubTransaction s
      | _ \<Rightarrow> CleanupSubTransaction (AbortSubTransaction s))"

text \<open>The loop ends because every iteration pops a level, or leaves the top level in another state.\<close>

definition abort_out_measure :: "'i xact_session \<Rightarrow> nat" where
  "abort_out_measure s = 3 * length (frames s) +
     (case blockState (cur s) of TBLOCK_DEFAULT \<Rightarrow> 0 | TBLOCK_ABORT \<Rightarrow> 1 | _ \<Rightarrow> 2)"

lemma cur_upd_cur [simp]: "frames s \<noteq> [] \<Longrightarrow> cur (upd_cur f s) = f (cur s)"
  by (cases "frames s") (simp_all add: cur_def)

lemma frames_RecordTransactionAbort [simp]: "frames (RecordTransactionAbort s) = frames s"
  by (simp add: RecordTransactionAbort_def)

lemma AbortTransaction_length [simp]: "length (frames (AbortTransaction s)) = length (frames s)"
  by (simp add: AbortTransaction_def)

lemma AbortTransaction_Nil [simp]: "frames (AbortTransaction s) = [] \<longleftrightarrow> frames s = []"
  by (metis AbortTransaction_length length_0_conv)

lemma blockState_AbortTransaction [simp]: "blockState (cur (AbortTransaction s)) = blockState (cur s)"
  by (cases "frames s") (simp_all add: AbortTransaction_def cur_def upd_cur_def)

lemma CleanupTransaction_length: "CleanupTransaction s = ok s' \<Longrightarrow> length (frames s') = length (frames s)"
  by (auto simp: CleanupTransaction_def split: if_splits)

lemma blockState_CleanupTransaction:
  "CleanupTransaction s = ok s' \<Longrightarrow> blockState (cur s') = blockState (cur s)"
  by (cases "frames s") (auto simp: CleanupTransaction_def reset_frame_def cur_def upd_cur_def split: if_splits)

lemma abort_out_pop:
  assumes "length (frames s) = Suc (length (frames s'))"
  shows "abort_out_measure s' < abort_out_measure s"
  using assms by (simp add: abort_out_measure_def split: TBlockState.split)

lemma abort_out_decreases:
  assumes "abort_out_body reserve s = ok s'" and "blockState (cur s') \<noteq> TBLOCK_DEFAULT" and "frames s \<noteq> []"
  shows "abort_out_measure s' < abort_out_measure s"
proof (cases "\<exists>t. length (frames t) = length (frames s) \<and> CleanupSubTransaction t = ok s'")
  case True
  then show ?thesis by (metis abort_out_pop CleanupSubTransaction_length)
next
  case False
  have no: "CleanupSubTransaction t \<noteq> ok s'" if "length (frames t) = length (frames s)" for t using False that by blast
  have clean: "then_do (CleanupTransaction t) (\<lambda>s. ok (set_block TBLOCK_DEFAULT s)) \<noteq> ok s'"
    if "length (frames t) = length (frames s)" for t
  proof
    assume "then_do (CleanupTransaction t) (\<lambda>s. ok (set_block TBLOCK_DEFAULT s)) = ok s'"
    then obtain u where u: "CleanupTransaction t = ok u" "s' = set_block TBLOCK_DEFAULT u" by (auto simp: then_do_ok)
    then have "frames u \<noteq> []" using that assms(3) CleanupTransaction_length [OF u(1)] by auto
    with u(2) assms(2) show False by simp
  qed
  show ?thesis
    using assms no no [of "AbortSubTransaction s"] clean clean [of "AbortTransaction s"]
    by (cases "blockState (cur s)"; cases reserve)
       (auto simp: abort_out_body_def abort_out_measure_def then_do_ok split: if_splits
         dest: CleanupTransaction_length blockState_CleanupTransaction)
qed

text \<open>There is always a current transaction state.\<close>

function AbortOutOfAnyTransaction :: "bool \<Rightarrow> 'i xact_session \<Rightarrow> ('i xact_session, unit) outcome" where
  "AbortOutOfAnyTransaction reserve s =
     (if frames s = [] then Dies
      else then_do (abort_out_body reserve s) (\<lambda>s.
        if reserve \<and> length (frames s) = 1 \<and> blockState (cur s) = TBLOCK_ABORT then ok s
        else if blockState (cur s) = TBLOCK_DEFAULT then ok s
        else AbortOutOfAnyTransaction reserve s))"
  by pat_completeness auto
termination
  by (relation "measure (\<lambda>(reserve, s). abort_out_measure s)") (auto intro: abort_out_decreases)

declare AbortOutOfAnyTransaction.simps [simp del]

section \<open>After a command\<close>

text \<open>\<open>do CommitSubTransaction() while (s->blockState == b)\<close>\<close>

function commit_subs_while :: "TBlockState \<Rightarrow> 'i xact_session \<Rightarrow> ('i xact_session, unit) outcome" where
  "commit_subs_while b s =
     then_do (CommitSubTransaction s) (\<lambda>s. if blockState (cur s) = b then commit_subs_while b s else ok s)"
  by pat_completeness auto
termination
  by (relation "measure (\<lambda>(b, s). length (frames s))") (auto dest: CommitSubTransaction_length)

declare commit_subs_while.simps [simp del]

definition finish_subbegin :: "'i xact_session \<Rightarrow> ('i xact_session, unit) outcome" where
  "finish_subbegin s = then_do (StartSubTransaction s) (\<lambda>s. ok (set_block TBLOCK_SUBINPROGRESS s))"

definition finish_commit :: "'i xact_session \<Rightarrow> ('i xact_session, unit) outcome" where
  "finish_commit s = then_do (CommitTransaction s) (\<lambda>s. ok (set_block TBLOCK_DEFAULT s))"

definition finish_prepare :: "'i xact_session \<Rightarrow> ('i xact_session, unit) outcome" where
  "finish_prepare s = then_do (PrepareTransaction s) (\<lambda>s. ok (set_block TBLOCK_DEFAULT s))"

definition DefineSavepoint :: "string option \<Rightarrow> 'i xact_session \<Rightarrow> ('i xact_session, unit) outcome" where
  "DefineSavepoint nm s =
     (if blockState (cur s) \<in> {TBLOCK_INPROGRESS, TBLOCK_SUBINPROGRESS}
      then then_do (PushTransaction s) (\<lambda>s. ok (if nm \<noteq> None then upd_cur (\<lambda>f. f\<lparr>sp_name := nm\<rparr>) s else s))
      else Dies)"

text \<open>
  \<open>CommitTransactionCommand(true)\<close> is called here with a subtransaction in \<open>TBLOCK_SUBBEGIN\<close>, so that it is
  \<open>finish_subbegin\<close>.
\<close>

definition BeginInternalSubTransaction :: "string option \<Rightarrow> 'i xact_session \<Rightarrow> ('i xact_session, unit) outcome" where
  "BeginInternalSubTransaction nm s =
     (if blockState (cur s) \<in> {TBLOCK_STARTED, TBLOCK_INPROGRESS, TBLOCK_END, TBLOCK_PREPARE, TBLOCK_SUBINPROGRESS}
      then then_do (PushTransaction s) (\<lambda>s.
           then_do (finish_subbegin (if nm \<noteq> None then upd_cur (\<lambda>f. f\<lparr>sp_name := nm\<rparr>) s else s))
             (StartTransactionCommand True))
      else Dies)"

text \<open>The subtransaction is started again under its name.\<close>

definition restart_savepoint ::
  "bool \<Rightarrow> string option \<Rightarrow> int \<Rightarrow> 'i xact_session \<Rightarrow> ('i xact_session, unit) outcome" where
  "restart_savepoint STP nm lev s =
     (let named = upd_cur (\<lambda>f. f\<lparr>sp_name := nm, savepointLevel := lev\<rparr>)
      in if STP then then_do (BeginInternalSubTransaction None s) (\<lambda>s. ok (named s))
         else then_do (DefineSavepoint None s) (\<lambda>s. finish_subbegin (named s)))"

function CommitTransactionCommand :: "bool \<Rightarrow> 'i xact_session \<Rightarrow> ('i xact_session, unit) outcome" where
  "CommitTransactionCommand STP_commit s =
     (case blockState (cur s) of
        TBLOCK_DEFAULT \<Rightarrow> Dies
      | TBLOCK_STARTED \<Rightarrow> finish_commit s
      | TBLOCK_BEGIN \<Rightarrow> ok (set_block TBLOCK_INPROGRESS s)
      | TBLOCK_INPROGRESS \<Rightarrow>
          then_do (CommandCounterIncrement s) (\<lambda>s. if STP_commit then finish_commit s else ok s)
      | TBLOCK_SUBINPROGRESS \<Rightarrow>
          then_do (CommandCounterIncrement s) (\<lambda>s.
            if STP_commit \<or> top_block s = TBLOCK_STARTED
            then then_do (commit_subs_while TBLOCK_SUBINPROGRESS s) finish_commit
            else ok s)
      | TBLOCK_END \<Rightarrow> finish_commit s
      | TBLOCK_ABORT \<Rightarrow> ok s
      | TBLOCK_SUBABORT \<Rightarrow> ok s
      | TBLOCK_ABORT_END \<Rightarrow> then_do (CleanupTransaction s) (\<lambda>s. ok (set_block TBLOCK_DEFAULT s))
      | TBLOCK_ABORT_PENDING \<Rightarrow>
          then_do (CleanupTransaction (AbortTransaction s)) (\<lambda>s. ok (set_block TBLOCK_DEFAULT s))
      | TBLOCK_PREPARE \<Rightarrow> finish_prepare s
      | TBLOCK_SUBBEGIN \<Rightarrow> finish_subbegin s
      | TBLOCK_SUBRELEASE \<Rightarrow> commit_subs_while TBLOCK_SUBRELEASE s
      | TBLOCK_SUBCOMMIT \<Rightarrow>
          then_do (commit_subs_while TBLOCK_SUBCOMMIT s) (\<lambda>s.
            if blockState (cur s) = TBLOCK_END then finish_commit s
            else if blockState (cur s) = TBLOCK_PREPARE then finish_prepare s
            else Raises s)
      | TBLOCK_SUBABORT_END \<Rightarrow> then_do (CleanupSubTransaction s) (CommitTransactionCommand STP_commit)
      | TBLOCK_SUBABORT_PENDING \<Rightarrow>
          then_do (CleanupSubTransaction (AbortSubTransaction s)) (\<lambda>s.
            if handlesDestroyedInCancelQuery s then AbortOutOfAnyTransaction True s
            else CommitTransactionCommand STP_commit s)
      | TBLOCK_SUBRESTART \<Rightarrow>
          (let nm = sp_name (cur s); lev = savepointLevel (cur s)
           in then_do (CleanupSubTransaction (AbortSubTransaction s)) (\<lambda>s.
                if handlesDestroyedInCancelQuery s then AbortOutOfAnyTransaction True s
                else restart_savepoint STP_commit nm lev s))
      | TBLOCK_SUBABORT_RESTART \<Rightarrow>
          (let nm = sp_name (cur s); lev = savepointLevel (cur s)
           in then_do (CleanupSubTransaction s) (restart_savepoint STP_commit nm lev))
      | _ \<Rightarrow> Dies)"
  by pat_completeness auto
termination
  by (relation "measure (\<lambda>(STP_commit, s). length (frames s))") (auto dest: CleanupSubTransaction_length)

declare CommitTransactionCommand.simps [simp del]

section \<open>After an error\<close>

text \<open>The loop over the subtransactions in \<open>TBLOCK_SUBINPROGRESS\<close>.\<close>

function abort_subs_while :: "'i xact_session \<Rightarrow> ('i xact_session, unit) outcome" where
  "abort_subs_while s =
     then_do (CleanupSubTransaction (set_block TBLOCK_SUBABORT (AbortSubTransaction s))) (\<lambda>s.
       if blockState (cur s) = TBLOCK_SUBINPROGRESS then abort_subs_while s else ok s)"
  by pat_completeness auto
termination
  by (relation "measure (\<lambda>s. length (frames s))") (auto dest: CleanupSubTransaction_length)

declare abort_subs_while.simps [simp del]

definition abort_top :: "'i xact_session \<Rightarrow> ('i xact_session, unit) outcome" where
  "abort_top s = then_do (CleanupTransaction (AbortTransaction s)) (\<lambda>s. ok (set_block TBLOCK_DEFAULT s))"

function AbortCurrentTransaction :: "bool \<Rightarrow> 'i xact_session \<Rightarrow> ('i xact_session, unit) outcome" where
  "AbortCurrentTransaction STP_rollback s =
     (case blockState (cur s) of
        TBLOCK_DEFAULT \<Rightarrow>
          if trans_state (cur s) = TRANS_DEFAULT then ok s
          else CleanupTransaction (AbortTransaction
                 (if trans_state (cur s) = TRANS_START then set_state TRANS_INPROGRESS s else s))
      | TBLOCK_STARTED \<Rightarrow>
          if phony_autocommit s \<or> STP_rollback then abort_top s else ok (set_block TBLOCK_ABORT (AbortTransaction s))
      | TBLOCK_BEGIN \<Rightarrow> abort_top s
      | TBLOCK_INPROGRESS \<Rightarrow>
          if STP_rollback then CleanupTransaction (set_block TBLOCK_DEFAULT (AbortTransaction s))
          else ok (set_block TBLOCK_ABORT (AbortTransaction s))
      | TBLOCK_END \<Rightarrow> abort_top s
      | TBLOCK_ABORT \<Rightarrow> ok s
      | TBLOCK_SUBABORT \<Rightarrow> ok s
      | TBLOCK_ABORT_END \<Rightarrow> then_do (CleanupTransaction s) (\<lambda>s. ok (set_block TBLOCK_DEFAULT s))
      | TBLOCK_ABORT_PENDING \<Rightarrow> abort_top s
      | TBLOCK_PREPARE \<Rightarrow> abort_top s
      | TBLOCK_SUBINPROGRESS \<Rightarrow>
          then_do
            (if STP_rollback \<or> top_block s = TBLOCK_STARTED
             then then_do (abort_subs_while s) (\<lambda>s.
                    abort_top (if trans_state (cur s) = TRANS_START then set_state TRANS_INPROGRESS s else s))
             else ok (set_block TBLOCK_SUBABORT (AbortSubTransaction s)))
            (\<lambda>s. if handlesDestroyedInCancelQuery s then AbortOutOfAnyTransaction True s else ok s)
      | TBLOCK_SUBABORT_END \<Rightarrow> then_do (CleanupSubTransaction s) (AbortCurrentTransaction STP_rollback)
      | TBLOCK_SUBABORT_RESTART \<Rightarrow> then_do (CleanupSubTransaction s) (AbortCurrentTransaction STP_rollback)
      | TBLOCK_UNDO \<Rightarrow> Dies
      | TBLOCK_SUBUNDO \<Rightarrow> Dies
      | _ \<Rightarrow>
          then_do (CleanupSubTransaction (AbortSubTransaction s)) (\<lambda>s.
            if handlesDestroyedInCancelQuery s then AbortOutOfAnyTransaction True s
            else AbortCurrentTransaction STP_rollback s))"
  by pat_completeness auto
termination
  by (relation "measure (\<lambda>(STP_rollback, s). length (frames s))") (auto dest: CleanupSubTransaction_length)

declare AbortCurrentTransaction.simps [simp del]

section \<open>Transaction commands\<close>

definition BeginTransactionBlock :: "'i xact_session \<Rightarrow> ('i xact_session, unit) outcome" where
  "BeginTransactionBlock s =
     (case blockState (cur s) of
        TBLOCK_STARTED \<Rightarrow> ok (set_block TBLOCK_BEGIN s)
      | TBLOCK_INPROGRESS \<Rightarrow> if nested_begin_warns s then ok s else Raises s
      | TBLOCK_SUBINPROGRESS \<Rightarrow> if nested_begin_warns s then ok s else Raises s
      | TBLOCK_ABORT \<Rightarrow> if nested_begin_warns s then ok s else Raises s
      | TBLOCK_SUBABORT \<Rightarrow> if nested_begin_warns s then ok s else Raises s
      | _ \<Rightarrow> Dies)"

text \<open>
  The loops that mark every level for commit or for abort, up to the top-level transaction; \<open>None\<close> is the FATAL error of
  an unexpected state.
\<close>

fun mark_commit :: "TransactionStateData list \<Rightarrow> TransactionStateData list option" where
  "mark_commit [] = None"
| "mark_commit [s] = (if blockState s = TBLOCK_INPROGRESS then Some [s\<lparr>blockState := TBLOCK_END\<rparr>] else None)"
| "mark_commit (s # p # ps) =
     (if blockState s = TBLOCK_SUBINPROGRESS
      then map_option ((#) (s\<lparr>blockState := TBLOCK_SUBCOMMIT\<rparr>)) (mark_commit (p # ps)) else None)"

fun SubTransactionBlockAbort :: "TransactionStateData list \<Rightarrow> TransactionStateData list option" where
  "SubTransactionBlockAbort [] = None"
| "SubTransactionBlockAbort [s] =
     (if blockState s = TBLOCK_INPROGRESS then Some [s\<lparr>blockState := TBLOCK_ABORT_PENDING\<rparr>]
      else if blockState s = TBLOCK_ABORT then Some [s\<lparr>blockState := TBLOCK_ABORT_END\<rparr>]
      else None)"
| "SubTransactionBlockAbort (s # p # ps) =
     (if blockState s = TBLOCK_SUBINPROGRESS
      then map_option ((#) (s\<lparr>blockState := TBLOCK_SUBABORT_PENDING\<rparr>)) (SubTransactionBlockAbort (p # ps))
      else if blockState s = TBLOCK_SUBABORT
      then map_option ((#) (s\<lparr>blockState := TBLOCK_SUBABORT_END\<rparr>)) (SubTransactionBlockAbort (p # ps))
      else None)"

definition with_frames ::
  "TransactionStateData list option \<Rightarrow> 'a \<Rightarrow> 'i xact_session \<Rightarrow> ('i xact_session, 'a) outcome" where
  "with_frames fs r s = (case fs of None \<Rightarrow> Dies | Some fs \<Rightarrow> Returns r (s\<lparr>frames := fs\<rparr>))"

definition EndTransactionBlock :: "'i xact_session \<Rightarrow> ('i xact_session, bool) outcome" where
  "EndTransactionBlock s =
     (case blockState (cur s) of
        TBLOCK_INPROGRESS \<Rightarrow> Returns True (set_block TBLOCK_END s)
      | TBLOCK_ABORT \<Rightarrow> Returns False (set_block TBLOCK_ABORT_END s)
      | TBLOCK_SUBINPROGRESS \<Rightarrow> with_frames (mark_commit (frames s)) True s
      | TBLOCK_SUBABORT \<Rightarrow> with_frames (SubTransactionBlockAbort (frames s)) False s
      | TBLOCK_STARTED \<Rightarrow> Returns True s
      | _ \<Rightarrow> Dies)"

definition PrepareTransactionBlock :: "string \<Rightarrow> 'i xact_session \<Rightarrow> ('i xact_session, bool) outcome" where
  "PrepareTransactionBlock gid s =
     (case EndTransactionBlock s of
        Returns result s \<Rightarrow>
          if result then
            if top_block s = TBLOCK_END
            then Returns True (s\<lparr>prepareGID := Some gid,
                   frames := butlast (frames s) @ [(last (frames s))\<lparr>blockState := TBLOCK_PREPARE\<rparr>]\<rparr>)
            else Returns False s
          else Returns False s
      | Raises s \<Rightarrow> Raises s
      | Dies \<Rightarrow> Dies)"

definition UserAbortTransactionBlock :: "'i xact_session \<Rightarrow> ('i xact_session, unit) outcome" where
  "UserAbortTransactionBlock s =
     (case blockState (cur s) of
        TBLOCK_INPROGRESS \<Rightarrow> ok (set_block TBLOCK_ABORT_PENDING s)
      | TBLOCK_ABORT \<Rightarrow> ok (set_block TBLOCK_ABORT_END s)
      | TBLOCK_SUBINPROGRESS \<Rightarrow> with_frames (SubTransactionBlockAbort (frames s)) () s
      | TBLOCK_SUBABORT \<Rightarrow> with_frames (SubTransactionBlockAbort (frames s)) () s
      | TBLOCK_STARTED \<Rightarrow> ok (set_block TBLOCK_ABORT_PENDING s)
      | _ \<Rightarrow> Dies)"

section \<open>Savepoints\<close>

text \<open>The level of the target, counted from the current transaction.\<close>

definition FindTargetSavepoint :: "string option \<Rightarrow> 'i xact_session \<Rightarrow> nat option" where
  "FindTargetSavepoint nm s =
     (case find (\<lambda>i. sp_name (frames s ! i) = nm) [0..<length (frames s)] of
        None \<Rightarrow> None
      | Some i \<Rightarrow> if savepointLevel (frames s ! i) = savepointLevel (cur s) then Some i else None)"

definition CheckReleaseSavepointBlockState :: "bool \<Rightarrow> 'i xact_session \<Rightarrow> ('i xact_session, unit) outcome" where
  "CheckReleaseSavepointBlockState inSTP s =
     (case blockState (cur s) of
        TBLOCK_INPROGRESS \<Rightarrow> Raises s
      | TBLOCK_SUBINPROGRESS \<Rightarrow> ok s
      | TBLOCK_STARTED \<Rightarrow> if inSTP then ok s else Dies
      | _ \<Rightarrow> Dies)"

text \<open>The counters that procedures keep of their savepoints.\<close>

definition drop_stp_savepoint :: "bool \<Rightarrow> TransactionStateData \<Rightarrow> 'i xact_session \<Rightarrow> 'i xact_session" where
  "drop_stp_savepoint inSTP f s =
     (if inSTP then
        if sp_name f \<noteq> None \<and> stp_savepoint_cnt s > 0 then s\<lparr>stp_savepoint_cnt := stp_savepoint_cnt s - 1\<rparr>
        else if sp_name f = None \<and> portal_stp_exception_counter s > 0
        then s\<lparr>portal_stp_exception_counter := portal_stp_exception_counter s - 1\<rparr>
        else s
      else s)"

definition ReleaseSavepoint :: "string option \<Rightarrow> bool \<Rightarrow> 'i xact_session \<Rightarrow> ('i xact_session, unit) outcome" where
  "ReleaseSavepoint nm inSTP s =
     then_do (CheckReleaseSavepointBlockState inSTP s) (\<lambda>s.
       case FindTargetSavepoint nm s of
         None \<Rightarrow> Raises s
       | Some target \<Rightarrow>
           ok (fold (drop_stp_savepoint inSTP) (take (target + 1) (frames s))
             (s\<lparr>frames := map (\<lambda>f. f\<lparr>blockState := TBLOCK_SUBRELEASE\<rparr>) (take (target + 1) (frames s)) @
                           drop (target + 1) (frames s)\<rparr>)))"

definition CheckRollbackSavepointBlockState :: "bool \<Rightarrow> 'i xact_session \<Rightarrow> ('i xact_session, unit) outcome" where
  "CheckRollbackSavepointBlockState inSTP s =
     (case blockState (cur s) of
        TBLOCK_INPROGRESS \<Rightarrow> Raises s
      | TBLOCK_ABORT \<Rightarrow> Raises s
      | TBLOCK_SUBINPROGRESS \<Rightarrow> ok s
      | TBLOCK_SUBABORT \<Rightarrow> ok s
      | TBLOCK_STARTED \<Rightarrow> if inSTP then ok s else Dies
      | _ \<Rightarrow> Dies)"

text \<open>Levels before the target are to be aborted, the target is to be restarted; \<open>None\<close> is a FATAL error.\<close>

fun mark_rollback_to :: "nat \<Rightarrow> TransactionStateData list \<Rightarrow> TransactionStateData list option" where
  "mark_rollback_to n [] = None"
| "mark_rollback_to 0 (s # ps) =
     (if blockState s = TBLOCK_SUBINPROGRESS then Some (s\<lparr>blockState := TBLOCK_SUBRESTART\<rparr> # ps)
      else if blockState s = TBLOCK_SUBABORT then Some (s\<lparr>blockState := TBLOCK_SUBABORT_RESTART\<rparr> # ps)
      else None)"
| "mark_rollback_to (Suc n) (s # ps) =
     (if blockState s = TBLOCK_SUBINPROGRESS
      then map_option ((#) (s\<lparr>blockState := TBLOCK_SUBABORT_PENDING\<rparr>)) (mark_rollback_to n ps)
      else if blockState s = TBLOCK_SUBABORT
      then map_option ((#) (s\<lparr>blockState := TBLOCK_SUBABORT_END\<rparr>)) (mark_rollback_to n ps)
      else None)"

definition RollbackToSavepoint :: "string option \<Rightarrow> bool \<Rightarrow> 'i xact_session \<Rightarrow> ('i xact_session, unit) outcome" where
  "RollbackToSavepoint nm inSTP s =
     then_do (CheckRollbackSavepointBlockState inSTP s) (\<lambda>s.
       case FindTargetSavepoint nm s of
         None \<Rightarrow> Raises s
       | Some target \<Rightarrow>
           with_frames (mark_rollback_to target (frames s)) ()
             (fold (drop_stp_savepoint inSTP) (take target (frames s)) s))"

definition ReleaseCurrentSubTransaction :: "'i xact_session \<Rightarrow> ('i xact_session, unit) outcome" where
  "ReleaseCurrentSubTransaction s =
     (if blockState (cur s) \<noteq> TBLOCK_SUBINPROGRESS then Raises s else CommitSubTransaction s)"

definition RollbackAndReleaseCurrentSubTransaction :: "bool \<Rightarrow> 'i xact_session \<Rightarrow> ('i xact_session, unit) outcome" where
  "RollbackAndReleaseCurrentSubTransaction inSTP s =
     (case blockState (cur s) of
        TBLOCK_SUBINPROGRESS \<Rightarrow> CleanupSubTransaction (AbortSubTransaction s)
      | TBLOCK_SUBABORT \<Rightarrow> CleanupSubTransaction s
      | TBLOCK_SUBBEGIN \<Rightarrow> if inSTP then CleanupSubTransaction s else Dies
      | _ \<Rightarrow> Dies)"

section \<open>Questions about the state\<close>

definition IsTransactionBlock :: "'i xact_session \<Rightarrow> bool" where
  "IsTransactionBlock s \<longleftrightarrow>
     (if portal_stp_exception_counter s > 0 \<and> blockState (cur s) = TBLOCK_SUBINPROGRESS then False
      else blockState (cur s) \<notin> {TBLOCK_DEFAULT, TBLOCK_STARTED})"

definition IsSubTransaction :: "'i xact_session \<Rightarrow> bool" where
  "IsSubTransaction s \<longleftrightarrow> nestingLevel (cur s) \<ge> 2"

definition IsAbortedTransactionBlockState :: "'i xact_session \<Rightarrow> bool" where
  "IsAbortedTransactionBlockState s \<longleftrightarrow> blockState (cur s) \<in> {TBLOCK_ABORT, TBLOCK_SUBABORT}"

definition PreventTransactionChain :: "bool \<Rightarrow> 'i xact_session \<Rightarrow> ('i xact_session, unit) outcome" where
  "PreventTransactionChain isTopLevel s =
     (if IsTransactionBlock s then Raises s
      else if IsSubTransaction s then Raises s
      else if \<not> isTopLevel then Raises s
      else if blockState (cur s) \<notin> {TBLOCK_DEFAULT, TBLOCK_STARTED} then Dies
      else ok s)"

definition RequireTransactionChain :: "bool \<Rightarrow> 'i xact_session \<Rightarrow> ('i xact_session, unit) outcome" where
  "RequireTransactionChain isTopLevel s =
     (if IsTransactionBlock s then ok s
      else if IsSubTransaction s then ok s
      else if \<not> isTopLevel then ok s
      else Raises s)"

definition IsInTransactionChain :: "bool \<Rightarrow> 'i xact_session \<Rightarrow> bool" where
  "IsInTransactionChain isTopLevel s \<longleftrightarrow>
     IsTransactionBlock s \<or> IsSubTransaction s \<or> \<not> isTopLevel \<or> blockState (cur s) \<notin> {TBLOCK_DEFAULT, TBLOCK_STARTED}"

definition TransactionBlockStatusCode :: "'i xact_session \<Rightarrow> char option" where
  "TransactionBlockStatusCode s =
     (case blockState (cur s) of
        TBLOCK_DEFAULT \<Rightarrow> Some (CHR ''I'')
      | TBLOCK_STARTED \<Rightarrow> Some (CHR ''I'')
      | TBLOCK_BEGIN \<Rightarrow> Some (CHR ''T'')
      | TBLOCK_SUBBEGIN \<Rightarrow> Some (CHR ''T'')
      | TBLOCK_INPROGRESS \<Rightarrow> Some (CHR ''T'')
      | TBLOCK_SUBINPROGRESS \<Rightarrow> Some (CHR ''T'')
      | TBLOCK_END \<Rightarrow> Some (CHR ''T'')
      | TBLOCK_SUBRELEASE \<Rightarrow> Some (CHR ''T'')
      | TBLOCK_SUBCOMMIT \<Rightarrow> Some (CHR ''T'')
      | TBLOCK_PREPARE \<Rightarrow> Some (CHR ''T'')
      | TBLOCK_UNDO \<Rightarrow> None
      | TBLOCK_SUBUNDO \<Rightarrow> None
      | _ \<Rightarrow> Some (CHR ''E''))"

text \<open>The binary search in the subcommitted children, and the walk up the stack.\<close>

function child_search :: "TransactionId \<Rightarrow> TransactionId list \<Rightarrow> int \<Rightarrow> int \<Rightarrow> bool" where
  "child_search xid xs low high =
     (if low \<le> high then
        let middle = low + (high - low) div 2; probe = xs ! nat middle
        in if probe = xid then True
           else if TransactionIdPrecedes probe xid then child_search xid xs (middle + 1) high
           else child_search xid xs low (middle - 1)
      else False)"
  by pat_completeness auto
termination
  by (relation "measure (\<lambda>(xid, xs, low, high). nat (high - low + 1))") auto

declare child_search.simps [simp del]

fun is_current_xid :: "TransactionId \<Rightarrow> TransactionStateData list \<Rightarrow> bool" where
  "is_current_xid xid [] = False"
| "is_current_xid xid (s # ps) =
     (if trans_state s \<in> {TRANS_ABORT, TRANS_UNDO} then is_current_xid xid ps
      else if \<not> TransactionIdIsValid (transactionId s) then is_current_xid xid ps
      else if xid = transactionId s then True
      else if child_search xid (childXids s) 0 (int (length (childXids s)) - 1) then True
      else is_current_xid xid ps)"

definition TransactionIdIsCurrentTransactionId :: "TransactionId \<Rightarrow> 'i xact_session \<Rightarrow> bool" where
  "TransactionIdIsCurrentTransactionId xid s \<longleftrightarrow> (if xid < 3 then False else is_current_xid xid (frames s))"

section \<open>Statements\<close>

text \<open>
  What a client may send: the transaction commands, or a statement that writes items and then, if the flag is set, fails or is
  cancelled.
\<close>

datatype 'i stmt =
    TRANS_STMT_BEGIN
  | TRANS_STMT_COMMIT
  | TRANS_STMT_ROLLBACK
  | TRANS_STMT_PREPARE string
  | TRANS_STMT_SAVEPOINT string
  | TRANS_STMT_RELEASE string
  | TRANS_STMT_ROLLBACK_TO string
  | DML "'i list" bool

fun IsTransactionExitStmt :: "'i stmt \<Rightarrow> bool" where
  "IsTransactionExitStmt TRANS_STMT_COMMIT = True"
| "IsTransactionExitStmt TRANS_STMT_ROLLBACK = True"
| "IsTransactionExitStmt (TRANS_STMT_PREPARE gid) = True"
| "IsTransactionExitStmt (TRANS_STMT_ROLLBACK_TO nm) = True"
| "IsTransactionExitStmt _ = False"

fun write_items :: "'i list \<Rightarrow> 'i xact_session \<Rightarrow> ('i xact_session, unit) outcome" where
  "write_items [] s = ok s"
| "write_items (i # is) s = then_do (write_item i s) (write_items is)"

fun forget_result :: "('s, bool) outcome \<Rightarrow> ('s, unit) outcome" where
  "forget_result (Returns _ s) = ok s"
| "forget_result (Raises s) = Raises s"
| "forget_result Dies = Dies"

fun ProcessUtility :: "'i stmt \<Rightarrow> 'i xact_session \<Rightarrow> ('i xact_session, unit) outcome" where
  "ProcessUtility TRANS_STMT_BEGIN s = BeginTransactionBlock s"
| "ProcessUtility TRANS_STMT_COMMIT s = forget_result (EndTransactionBlock s)"
| "ProcessUtility TRANS_STMT_ROLLBACK s = UserAbortTransactionBlock s"
| "ProcessUtility (TRANS_STMT_PREPARE gid) s = forget_result (PrepareTransactionBlock gid s)"
| "ProcessUtility (TRANS_STMT_SAVEPOINT nm) s =
     then_do (RequireTransactionChain True s) (\<lambda>s.
     then_do (GetCurrentTransactionId s) (DefineSavepoint (Some nm)))"
| "ProcessUtility (TRANS_STMT_RELEASE nm) s = then_do (RequireTransactionChain True s) (ReleaseSavepoint (Some nm) False)"
| "ProcessUtility (TRANS_STMT_ROLLBACK_TO nm) s =
     then_do (RequireTransactionChain True s) (RollbackToSavepoint (Some nm) False)"
| "ProcessUtility (DML is fails) s = then_do (write_items is s) (\<lambda>s. if fails then Raises s else ok s)"

text \<open>
  One statement of \<open>exec_simple_query\<close>, with the error handler of the main loop; \<open>None\<close> means that the session is gone.
\<close>

definition exec_simple_query :: "'i stmt \<Rightarrow> 'i xact_session \<Rightarrow> 'i xact_session option" where
  "exec_simple_query stmt s =
     (let run =
        then_do (StartTransactionCommand False s) (\<lambda>s.
          if IsAbortedTransactionBlockState s \<and> \<not> IsTransactionExitStmt stmt then Raises s
          else then_do (ProcessUtility stmt s) (CommitTransactionCommand False))
      in case run of
           Returns _ s \<Rightarrow> Some s
         | Raises s \<Rightarrow> (case AbortCurrentTransaction False s of Returns _ s \<Rightarrow> Some s | _ \<Rightarrow> None)
         | Dies \<Rightarrow> None)"

lemma exec_simple_query_aborted:
  assumes "IsAbortedTransactionBlockState s" and "\<not> IsTransactionExitStmt stmt"
  shows "exec_simple_query stmt s = (case AbortCurrentTransaction False s of Returns _ s \<Rightarrow> Some s | _ \<Rightarrow> None)"
  using assms by (auto simp: exec_simple_query_def StartTransactionCommand_def IsAbortedTransactionBlockState_def)

lemma exec_simple_query_run:
  assumes "StartTransactionCommand False s = ok s1" and "\<not> (IsAbortedTransactionBlockState s \<and> \<not> IsTransactionExitStmt stmt)"
  shows "exec_simple_query stmt s = (case then_do (ProcessUtility stmt s1) (CommitTransactionCommand False) of
      Returns _ s \<Rightarrow> Some s
    | Raises s \<Rightarrow> (case AbortCurrentTransaction False s of Returns _ s \<Rightarrow> Some s | _ \<Rightarrow> None)
    | Dies \<Rightarrow> None)"
proof -
  have "\<not> (IsAbortedTransactionBlockState s1 \<and> \<not> IsTransactionExitStmt stmt)"
    using assms by (auto simp: StartTransactionCommand_def StartTransaction_def IsAbortedTransactionBlockState_def cur_def upd_cur_def
        split: TBlockState.splits)
  then show ?thesis unfolding exec_simple_query_def Let_def assms(1) then_do.simps by (simp only: if_False)
qed

end
