(* ===== verification/Transactions.thy ===== *)
theory Transactions
  imports Xact_Block "HOL-Library.Multiset"
begin

text \<open>
  What the transaction block state machine guarantees: a session survives every sequence of statements and errors, and
  its statements have the meaning of nested transactions.
\<close>

section \<open>Shapes of the stack\<close>

text \<open>A transaction block in progress, with the open savepoints.\<close>

fun live :: "TransactionStateData list \<Rightarrow> bool" where
  "live [] = False"
| "live [t] = (blockState t = TBLOCK_INPROGRESS \<and> trans_state t = TRANS_INPROGRESS \<and> sp_name t = None)"
| "live (s # p # ps) = (blockState s = TBLOCK_SUBINPROGRESS \<and> trans_state s = TRANS_INPROGRESS \<and> live (p # ps))"

text \<open>Between two statements.\<close>

inductive ready :: "TransactionStateData list \<Rightarrow> bool" where
  idle: "blockState t = TBLOCK_DEFAULT \<Longrightarrow> trans_state t = TRANS_DEFAULT \<Longrightarrow> sp_name t = None \<Longrightarrow>
    \<not> TransactionIdIsValid (transactionId t) \<Longrightarrow> ready [t]"
| in_block: "live fs \<Longrightarrow> ready fs"
| failed: "blockState t = TBLOCK_ABORT \<Longrightarrow> trans_state t = TRANS_ABORT \<Longrightarrow> sp_name t = None \<Longrightarrow> ready [t]"
| sub_failed: "blockState c = TBLOCK_SUBABORT \<Longrightarrow> trans_state c = TRANS_ABORT \<Longrightarrow> live fs \<Longrightarrow> ready (c # fs)"

text \<open>Where an error may leave the stack.\<close>

inductive recoverable :: "TransactionStateData list \<Rightarrow> bool" where
  rec_ready: "ready fs \<Longrightarrow> recoverable fs"
| rec_top: "blockState t \<in> {TBLOCK_STARTED, TBLOCK_BEGIN, TBLOCK_END, TBLOCK_ABORT_PENDING, TBLOCK_PREPARE} \<Longrightarrow>
    sp_name t = None \<Longrightarrow> recoverable [t]"
| rec_abort_end: "blockState t = TBLOCK_ABORT_END \<Longrightarrow> trans_state t = TRANS_ABORT \<Longrightarrow> sp_name t = None \<Longrightarrow> recoverable [t]"
| rec_sub: "blockState c \<in> {TBLOCK_SUBBEGIN, TBLOCK_SUBRELEASE, TBLOCK_SUBCOMMIT, TBLOCK_SUBABORT_PENDING, TBLOCK_SUBRESTART,
    TBLOCK_SUBABORT_END, TBLOCK_SUBABORT_RESTART} \<Longrightarrow> recoverable fs \<Longrightarrow> recoverable (c # fs)"

text \<open>What a command leaves for \<open>CommitTransactionCommand\<close>.\<close>

inductive commit_chain :: "TransactionStateData list \<Rightarrow> bool" where
  "blockState t \<in> {TBLOCK_END, TBLOCK_PREPARE} \<Longrightarrow> sp_name t = None \<Longrightarrow> commit_chain [t]"
| "blockState c = TBLOCK_SUBCOMMIT \<Longrightarrow> commit_chain fs \<Longrightarrow> commit_chain (c # fs)"

inductive release_chain :: "TransactionStateData list \<Rightarrow> bool" where
  "live fs \<Longrightarrow> release_chain fs"
| "blockState c = TBLOCK_SUBRELEASE \<Longrightarrow> release_chain fs \<Longrightarrow> release_chain (c # fs)"

inductive finishing :: "TransactionStateData list \<Rightarrow> bool" where
  fin_started: "blockState t = TBLOCK_STARTED \<Longrightarrow> sp_name t = None \<Longrightarrow> finishing [t]"
| fin_begin: "blockState t = TBLOCK_BEGIN \<Longrightarrow> trans_state t = TRANS_INPROGRESS \<Longrightarrow> sp_name t = None \<Longrightarrow> finishing [t]"
| fin_abort: "blockState t = TBLOCK_ABORT_PENDING \<Longrightarrow> sp_name t = None \<Longrightarrow> finishing [t]"
| fin_abort_end: "blockState t = TBLOCK_ABORT_END \<Longrightarrow> trans_state t = TRANS_ABORT \<Longrightarrow> sp_name t = None \<Longrightarrow> finishing [t]"
| fin_live: "live fs \<Longrightarrow> finishing fs"
| fin_commit: "commit_chain fs \<Longrightarrow> finishing fs"
| fin_savepoint: "blockState c = TBLOCK_SUBBEGIN \<Longrightarrow> live fs \<Longrightarrow> finishing (c # fs)"
| fin_release: "blockState c = TBLOCK_SUBRELEASE \<Longrightarrow> release_chain fs \<Longrightarrow> finishing (c # fs)"
| fin_sub_abort: "blockState c \<in> {TBLOCK_SUBABORT_END, TBLOCK_SUBABORT_PENDING} \<Longrightarrow> finishing fs \<Longrightarrow> finishing (c # fs)"
| fin_restart: "blockState c \<in> {TBLOCK_SUBRESTART, TBLOCK_SUBABORT_RESTART} \<Longrightarrow> live fs \<Longrightarrow> finishing (c # fs)"

lemma live_not_Nil [simp]: "live fs \<Longrightarrow> fs \<noteq> []"
  by auto

lemma live_blockState: "live fs \<Longrightarrow> blockState (hd fs) \<in> {TBLOCK_INPROGRESS, TBLOCK_SUBINPROGRESS}"
  by (induction fs rule: live.induct) auto

lemma live_top: "live fs \<Longrightarrow> blockState (last fs) = TBLOCK_INPROGRESS"
  by (induction fs rule: live.induct) auto

lemma live_state: "live fs \<Longrightarrow> trans_state (hd fs) = TRANS_INPROGRESS"
  by (induction fs rule: live.induct) auto

lemma live_Cons: "live (c # fs) \<Longrightarrow> fs \<noteq> [] \<Longrightarrow> blockState c = TBLOCK_SUBINPROGRESS \<and> trans_state c = TRANS_INPROGRESS \<and> live fs"
  by (cases fs) auto

lemma ready_not_Nil: "ready fs \<Longrightarrow> fs \<noteq> []"
  by (induction fs rule: ready.induct) auto

lemma recoverable_not_Nil: "recoverable fs \<Longrightarrow> fs \<noteq> []"
  by (induction fs rule: recoverable.induct) (auto simp: ready_not_Nil)

lemma commit_chain_not_Nil: "commit_chain fs \<Longrightarrow> fs \<noteq> []"
  by (induction fs rule: commit_chain.induct) auto

lemma release_chain_not_Nil: "release_chain fs \<Longrightarrow> fs \<noteq> []"
  by (induction fs rule: release_chain.induct) auto

lemma finishing_not_Nil: "finishing fs \<Longrightarrow> fs \<noteq> []"
  by (induction fs rule: finishing.induct) (auto simp: commit_chain_not_Nil)

text \<open>Errors while a block is being finished can be recovered from.\<close>

lemma commit_chain_recoverable: "commit_chain fs \<Longrightarrow> recoverable fs"
  by (induction fs rule: commit_chain.induct) (auto intro: rec_top rec_sub)

lemma release_chain_recoverable: "release_chain fs \<Longrightarrow> recoverable fs"
  by (induction fs rule: release_chain.induct) (auto intro: rec_ready in_block rec_sub)

lemma finishing_recoverable: "finishing fs \<Longrightarrow> recoverable fs"
  by (induction fs rule: finishing.induct)
     (auto intro: rec_top rec_abort_end rec_sub rec_ready in_block commit_chain_recoverable release_chain_recoverable)

section \<open>The session survives\<close>

text \<open>The effect of the primitives on the stack.\<close>

lemma frames_upd_cur: "frames (upd_cur f s) = (case frames s of [] \<Rightarrow> [] | c # ps \<Rightarrow> f c # ps)"
  by (simp add: upd_cur_def split: list.splits)

lemma cur_frames: "frames s = c # fs \<Longrightarrow> cur s = c"
  by (simp add: cur_def)

definition own_xids :: "TransactionStateData \<Rightarrow> TransactionId list" where
  "own_xids f = (if TransactionIdIsValid (transactionId f) then transactionId f # childXids f else [])"

lemma PopTransaction_eq:
  "frames s = c # p # ps \<Longrightarrow> PopTransaction s = ok (s\<lparr>frames := p # ps, currentSubTransactionId := subTransactionId p\<rparr>)"
  by (simp add: PopTransaction_def)

lemma CleanupSub_eq:
  "frames s = c # fs \<Longrightarrow> fs \<noteq> [] \<Longrightarrow>
    CleanupSubTransaction s = ok (s\<lparr>frames := fs, currentSubTransactionId := subTransactionId (hd fs)\<rparr>)"
  by (cases fs) (simp_all add: CleanupSubTransaction_def PopTransaction_eq upd_cur_def)

definition aborted_sub :: "TransactionStateData \<Rightarrow> TransactionStateData" where
  "aborted_sub c = (if TransactionIdIsValid (transactionId c) then c\<lparr>trans_state := TRANS_ABORT, childXids := [], maxChildXids := 0\<rparr>
     else c\<lparr>trans_state := TRANS_ABORT\<rparr>)"

lemma aborted_sub_simps [simp]:
  "blockState (aborted_sub c) = blockState c" "trans_state (aborted_sub c) = TRANS_ABORT" "sp_name (aborted_sub c) = sp_name c"
  "savepointLevel (aborted_sub c) = savepointLevel c" "transactionId (aborted_sub c) = transactionId c"
  by (simp_all add: aborted_sub_def)

lemma AbortSub_eq:
  "frames s = c # fs \<Longrightarrow> AbortSubTransaction s = s\<lparr>frames := aborted_sub c # fs, aborted := aborted s @ own_xids c\<rparr>"
  by (cases "TransactionIdIsValid (transactionId c)")
     (simp_all add: AbortSubTransaction_def RecordTransactionAbort_def upd_cur_def cur_def own_xids_def aborted_sub_def)

lemma AbortTransaction_eq:
  "frames s = c # fs \<Longrightarrow>
    AbortTransaction s = s\<lparr>frames := c\<lparr>trans_state := TRANS_ABORT\<rparr> # fs, aborted := aborted s @ own_xids c\<rparr>"
  by (simp add: AbortTransaction_def RecordTransactionAbort_def upd_cur_def cur_def own_xids_def)

lemma abort_top_eq:
  "frames s = [t] \<Longrightarrow>
    abort_top s = ok (s\<lparr>frames := [(reset_frame t)\<lparr>blockState := TBLOCK_DEFAULT\<rparr>], aborted := aborted s @ own_xids t\<rparr>)"
  by (simp add: abort_top_def AbortTransaction_eq CleanupTransaction_def cur_def upd_cur_def reset_frame_def)

lemma cleanup_top_eq:
  "frames s = [t] \<Longrightarrow> trans_state t = TRANS_ABORT \<Longrightarrow>
    then_do (CleanupTransaction s) (\<lambda>s. ok (set_block TBLOCK_DEFAULT s)) = ok (s\<lparr>frames := [(reset_frame t)\<lparr>blockState := TBLOCK_DEFAULT\<rparr>]\<rparr>)"
  by (simp add: CleanupTransaction_def cur_def upd_cur_def reset_frame_def)

lemma reset_ready [simp]: "sp_name t = None \<Longrightarrow> ready [(reset_frame t)\<lparr>blockState := TBLOCK_DEFAULT\<rparr>]"
  by (rule idle) (simp_all add: reset_frame_def TransactionIdIsValid_def)

text \<open>After an error the session is ready again.\<close>

lemma AbortCurrentTransaction_ready:
  assumes "recoverable fs" and "frames s = fs" and "\<not> handlesDestroyedInCancelQuery s"
  shows "\<exists>s'. AbortCurrentTransaction False s = ok s' \<and> ready (frames s') \<and> \<not> handlesDestroyedInCancelQuery s'"
  using assms
proof (induction fs arbitrary: s rule: recoverable.induct)
  case (rec_ready fs)
  note s = rec_ready.prems(1) and nh = rec_ready.prems(2)
  show ?case using rec_ready.hyps(1)
  proof (cases rule: ready.cases)
    case in_block
    obtain c ps where c: "frames s = c # ps" using in_block s by (cases "frames s") auto
    with in_block s have lv: "live (c # ps)" by simp
    show ?thesis
    proof (cases ps)
      case Nil
      with lv have "blockState c = TBLOCK_INPROGRESS" "sp_name c = None" by simp_all
      then show ?thesis using c Nil nh
        by (simp add: AbortCurrentTransaction.simps [of _ s] cur_def AbortTransaction_eq upd_cur_def failed)
    next
      case (Cons p ps')
      have l: "blockState c = TBLOCK_SUBINPROGRESS" "live ps" using lv Cons by simp_all
      then have "top_block s = TBLOCK_INPROGRESS" using live_top [of ps] c Cons by (simp add: top_block_def)
      then show ?thesis using c l nh
        by (simp add: AbortCurrentTransaction.simps [of _ s] cur_def AbortSub_eq upd_cur_def sub_failed)
    qed
  qed (use s nh rec_ready.hyps(1) in \<open>auto simp: AbortCurrentTransaction.simps [of _ s] cur_def\<close>)
next
  case (rec_top t)
  note s = rec_top.prems(1)
  show ?case using rec_top s
    by (auto simp: AbortCurrentTransaction.simps [of _ s] cur_def abort_top_eq AbortTransaction_eq upd_cur_def intro!: failed)
next
  case (rec_abort_end t)
  note s = rec_abort_end.prems(1)
  show ?case using rec_abort_end s
    by (simp add: AbortCurrentTransaction.simps [of _ s] cur_def cleanup_top_eq)
next
  case (rec_sub c fs)
  note s = rec_sub.prems(1) and ne = recoverable_not_Nil [OF rec_sub.hyps(2)]
  let ?s1 = "s\<lparr>frames := fs, currentSubTransactionId := subTransactionId (hd fs)\<rparr>"
  let ?s2 = "?s1\<lparr>aborted := aborted s @ own_xids c\<rparr>"
  have 1: "\<exists>s'. AbortCurrentTransaction False ?s1 = ok s' \<and> ready (frames s') \<and> \<not> handlesDestroyedInCancelQuery s'"
    by (rule rec_sub.IH) (use rec_sub.prems(2) in simp_all)
  have 2: "\<exists>s'. AbortCurrentTransaction False ?s2 = ok s' \<and> ready (frames s') \<and> \<not> handlesDestroyedInCancelQuery s'"
    by (rule rec_sub.IH) (use rec_sub.prems(2) in simp_all)
  have pop: "CleanupSubTransaction s = ok ?s1" "CleanupSubTransaction (AbortSubTransaction s) = ok ?s2"
    using s ne by (simp_all add: AbortSub_eq CleanupSub_eq)
  have "AbortCurrentTransaction False s = AbortCurrentTransaction False ?s1 \<or>
      AbortCurrentTransaction False s = AbortCurrentTransaction False ?s2"
    using rec_sub.hyps(1) rec_sub.prems(2) cur_frames [OF s]
    by (subst (1 3) AbortCurrentTransaction.simps) (elim insertE emptyE; simp add: pop)
  with 1 2 show ?case by (elim disjE) simp_all
qed

text \<open>Ending a subtransaction.\<close>

definition same_frame :: "TransactionStateData \<Rightarrow> TransactionStateData \<Rightarrow> bool" where
  "same_frame p q \<longleftrightarrow> blockState p = blockState q \<and> trans_state p = trans_state q \<and> sp_name p = sp_name q \<and>
     savepointLevel p = savepointLevel q"

lemma same_frame_refl [simp]: "same_frame p p"
  by (simp add: same_frame_def)

lemma live_same: "same_frame p q \<Longrightarrow> live (p # ps) = live (q # ps)"
  by (cases ps) (simp_all add: same_frame_def)

inductive_cases commit_chain_ConsE: "commit_chain (c # fs)"

lemma commit_chain_same:
  assumes "commit_chain (q # ps)" and "same_frame p q"
  shows "commit_chain (p # ps)"
  using assms by (auto elim!: commit_chain_ConsE simp: same_frame_def intro: commit_chain.intros)

lemma CommitSub_cases:
  assumes f: "frames s = c # p # ps" and h: "\<not> handlesDestroyedInCancelQuery s"
  obtains (raised) s' c' where "CommitSubTransaction s = Raises s'" "frames s' = c' # p # ps" "blockState c' = blockState c"
      "\<not> handlesDestroyedInCancelQuery s'"
  | (popped) s' p' where "CommitSubTransaction s = ok s'" "frames s' = p' # ps" "same_frame p' p"
      "\<not> handlesDestroyedInCancelQuery s'"
proof (cases "CommandCounterIncrement (set_state TRANS_COMMIT s)")
  case (Returns u s1)
  then have s1: "frames s1 = c\<lparr>trans_state := TRANS_COMMIT\<rparr> # p # ps" "\<not> handlesDestroyedInCancelQuery s1"
    using f h by (auto simp: CommandCounterIncrement_def upd_cur_def Let_def split: if_splits)
  have S: "CommitSubTransaction s =
      then_do (if TransactionIdIsValid (transactionId (cur s1)) then AtSubCommit_childXids s1 else ok s1)
        (\<lambda>s. PopTransaction (set_state TRANS_DEFAULT s))"
    using Returns by (simp add: CommitSubTransaction_def)
  show thesis
  proof (cases "TransactionIdIsValid (transactionId (cur s1))")
    case True
    show thesis
    proof (cases "AtSubCommit_childXids s1")
      case (Returns u s2)
      then obtain c2 p2 where s2: "frames s2 = c2 # p2 # ps" "same_frame p2 p" "\<not> handlesDestroyedInCancelQuery s2"
        using s1 by (auto simp: AtSubCommit_childXids_def Let_def same_frame_def split: if_splits)
      then have "CommitSubTransaction s = ok ((set_state TRANS_DEFAULT s2)\<lparr>frames := p2 # ps, currentSubTransactionId := subTransactionId p2\<rparr>)"
        unfolding S using True Returns by (simp add: PopTransaction_def frames_upd_cur)
      then show thesis by (rule popped) (use s2 in \<open>auto simp: upd_cur_def\<close>)
    next
      case (Raises s2)
      then have "s2 = s1" using s1 by (auto simp: AtSubCommit_childXids_def Let_def split: if_splits)
      then show thesis using True Raises s1 by (intro raised [of s1 "c\<lparr>trans_state := TRANS_COMMIT\<rparr>"]) (simp_all add: S)
    next
      case Dies
      then show thesis using s1 by (auto simp: AtSubCommit_childXids_def Let_def split: if_splits)
    qed
  next
    case False
    then have "CommitSubTransaction s = ok ((set_state TRANS_DEFAULT s1)\<lparr>frames := p # ps, currentSubTransactionId := subTransactionId p\<rparr>)"
      unfolding S using s1 by (simp add: PopTransaction_def frames_upd_cur)
    then show thesis by (rule popped) (use s1 in \<open>auto simp: upd_cur_def\<close>)
  qed
next
  case (Raises s1)
  then have "s1 = set_state TRANS_COMMIT s" by (auto simp: CommandCounterIncrement_def Let_def split: if_splits)
  then show thesis using Raises f h
    by (intro raised [of s1 "c\<lparr>trans_state := TRANS_COMMIT\<rparr>"]) (simp_all add: CommitSubTransaction_def upd_cur_def)
next
  case Dies
  then show thesis by (auto simp: CommandCounterIncrement_def Let_def split: if_splits)
qed

definition settles :: "('i xact_session, unit) outcome \<Rightarrow> bool" where
  "settles m \<longleftrightarrow> (case m of
      Returns _ s \<Rightarrow> ready (frames s) \<and> \<not> handlesDestroyedInCancelQuery s
    | Raises s \<Rightarrow> recoverable (frames s) \<and> \<not> handlesDestroyedInCancelQuery s
    | Dies \<Rightarrow> False)"

lemma commit_subs_release:
  assumes "release_chain fs" and "frames s = c # fs" and "blockState c = TBLOCK_SUBRELEASE" and "\<not> handlesDestroyedInCancelQuery s"
  shows "settles (commit_subs_while TBLOCK_SUBRELEASE s)"
  using assms
proof (induction fs arbitrary: s c rule: release_chain.induct)
  case (1 fs)
  obtain p ps where fs: "fs = p # ps" using 1 by (cases fs) auto
  show ?case using "1.prems"(1,3) unfolding fs
  proof (cases rule: CommitSub_cases)
    case (raised s' c')
    have "recoverable (p # ps)" using 1 fs by (simp add: rec_ready in_block)
    with raised 1 have "recoverable (frames s')" by (simp add: rec_sub)
    with raised show ?thesis by (simp add: commit_subs_while.simps [of _ s] settles_def)
  next
    case (popped s' p')
    then have "live (frames s')" using 1 fs live_same by simp
    moreover from live_blockState [OF this] have "blockState (cur s') \<noteq> TBLOCK_SUBRELEASE" by (auto simp: cur_def)
    ultimately show ?thesis using popped by (simp add: commit_subs_while.simps [of _ s] settles_def in_block)
  qed
next
  case (2 d fs)
  show ?case using "2.prems"(1,3)
  proof (cases rule: CommitSub_cases)
    case (raised s' c')
    have "recoverable (d # fs)" using 2 release_chain_recoverable by (simp add: rec_sub)
    with raised 2 have "recoverable (frames s')" by (simp add: rec_sub)
    with raised show ?thesis by (simp add: commit_subs_while.simps [of _ s] settles_def)
  next
    case (popped s' p')
    then have b: "blockState p' = TBLOCK_SUBRELEASE" using 2 by (simp add: same_frame_def)
    have "settles (commit_subs_while TBLOCK_SUBRELEASE s')" by (rule "2.IH" [OF popped(2) b popped(4)])
    with popped b show ?thesis by (simp add: commit_subs_while.simps [of _ s] cur_def)
  qed
qed

lemma finish_settles:
  assumes "frames s = [t]" and "blockState t \<in> {TBLOCK_STARTED, TBLOCK_END, TBLOCK_PREPARE}" and "sp_name t = None"
    and "\<not> handlesDestroyedInCancelQuery s"
  shows "settles (finish_commit s)" and "settles (finish_prepare s)"
proof -
  have rec: "recoverable [t]" using assms(2,3) by (auto intro: rec_top)
  show "settles (finish_commit s)" using assms rec
    by (simp add: settles_def finish_commit_def CommitTransaction_def Let_def upd_cur_def)
  obtain t' x where A: "AssignTransactionId [t] (nextXid s) = ([t'], x)" "blockState t' = blockState t" "sp_name t' = sp_name t"
    by (cases "TransactionIdIsValid (transactionId t)") auto
  have rec': "recoverable [t']" using assms(2,3) A(2,3) by (auto intro: rec_top)
  show "settles (finish_prepare s)" using assms rec rec' A
    by (simp add: settles_def finish_prepare_def PrepareTransaction_def GetCurrentTransactionId_def upd_cur_def)
qed

lemma commit_subs_commit:
  assumes "commit_chain fs" and "frames s = c # fs" and "blockState c = TBLOCK_SUBCOMMIT" and "\<not> handlesDestroyedInCancelQuery s"
  shows "(\<exists>s' t. commit_subs_while TBLOCK_SUBCOMMIT s = ok s' \<and> frames s' = [t] \<and> blockState t \<in> {TBLOCK_END, TBLOCK_PREPARE} \<and> sp_name t = None \<and>
      \<not> handlesDestroyedInCancelQuery s') \<or>
    (\<exists>s'. commit_subs_while TBLOCK_SUBCOMMIT s = Raises s' \<and> recoverable (frames s') \<and> \<not> handlesDestroyedInCancelQuery s')"
  using assms
proof (induction fs arbitrary: s c rule: commit_chain.induct)
  case (1 t)
  show ?case using "1.prems"(1,3)
  proof (cases rule: CommitSub_cases)
    case (raised s' c')
    have "recoverable [t]" using 1 by (auto intro: rec_top)
    with raised 1 have "recoverable (frames s')" by (simp add: rec_sub)
    with raised show ?thesis by (simp add: commit_subs_while.simps [of _ s])
  next
    case (popped s' p')
    then have b: "blockState p' \<in> {TBLOCK_END, TBLOCK_PREPARE}" "sp_name p' = None" using 1 by (simp_all add: same_frame_def)
    from b(1) have "blockState (cur s') \<noteq> TBLOCK_SUBCOMMIT" using popped by (auto simp: cur_def)
    then have "commit_subs_while TBLOCK_SUBCOMMIT s = ok s'" using popped by (simp add: commit_subs_while.simps [of _ s])
    with popped b show ?thesis by blast
  qed
next
  case (2 d fs)
  show ?case using "2.prems"(1,3)
  proof (cases rule: CommitSub_cases)
    case (raised s' c')
    have "recoverable (d # fs)" using 2 commit_chain_recoverable by (simp add: rec_sub)
    with raised 2 have "recoverable (frames s')" by (simp add: rec_sub)
    with raised show ?thesis by (simp add: commit_subs_while.simps [of _ s])
  next
    case (popped s' p')
    then have b: "blockState p' = TBLOCK_SUBCOMMIT" using 2 by (simp add: same_frame_def)
    have "commit_subs_while TBLOCK_SUBCOMMIT s = commit_subs_while TBLOCK_SUBCOMMIT s'"
      using popped b by (simp add: commit_subs_while.simps [of _ s] cur_def)
    with "2.IH" [OF popped(2) b popped(4)] show ?thesis by simp
  qed
qed

lemma restart_settles:
  assumes "live (frames s)" and "\<not> handlesDestroyedInCancelQuery s"
  shows "settles (restart_savepoint False nm lev s)"
proof (cases "currentSubTransactionId s + 1 = 0")
  case True
  then show ?thesis using assms live_blockState [OF assms(1)]
    by (auto simp: restart_savepoint_def DefineSavepoint_def PushTransaction_def settles_def cur_def intro: rec_ready in_block)
next
  case False
  have "live (c # frames s)" if "blockState c = TBLOCK_SUBINPROGRESS" "trans_state c = TRANS_INPROGRESS" for c
    using assms(1) that by (cases "frames s") simp_all
  then show ?thesis using assms False live_blockState [OF assms(1)]
    by (auto simp: restart_savepoint_def DefineSavepoint_def PushTransaction_def finish_subbegin_def StartSubTransaction_def
        settles_def cur_def upd_cur_def Let_def intro!: in_block)
qed

lemma CommitTransactionCommand_settles:
  assumes "finishing fs" and "frames s = fs" and "\<not> handlesDestroyedInCancelQuery s"
  shows "settles (CommitTransactionCommand False s)"
  using assms
proof (induction fs arbitrary: s rule: finishing.induct)
  case (fin_started t)
  then show ?case using finish_settles(1) [of s t] by (simp add: CommitTransactionCommand.simps [of _ s] cur_def)
next
  case (fin_begin t)
  then show ?case by (simp add: CommitTransactionCommand.simps [of _ s] cur_def settles_def upd_cur_def in_block)
next
  case (fin_abort t)
  then have "CommitTransactionCommand False s = abort_top s"
    by (simp add: CommitTransactionCommand.simps [of _ s] cur_def abort_top_def)
  with fin_abort show ?case by (simp add: abort_top_eq settles_def)
next
  case (fin_abort_end t)
  then show ?case by (simp add: CommitTransactionCommand.simps [of _ s] cur_def settles_def cleanup_top_eq)
next
  case (fin_live fs)
  have "\<not> top_block s = TBLOCK_STARTED" using live_top [OF fin_live(1)] fin_live by (simp add: top_block_def)
  moreover have "recoverable fs" "ready fs" using fin_live by (auto intro: rec_ready in_block)
  ultimately show ?case using fin_live live_blockState [OF fin_live(1)]
    by (auto simp: CommitTransactionCommand.simps [of _ s] cur_def settles_def CommandCounterIncrement_def Let_def top_block_def)
next
  case (fin_commit fs)
  show ?case using fin_commit(1)
  proof (cases rule: commit_chain.cases)
    case (1 t)
    then show ?thesis using fin_commit finish_settles [of s t]
      by (auto simp: CommitTransactionCommand.simps [of _ s] cur_def)
  next
    case (2 c gs)
    show ?thesis using commit_subs_commit [OF 2(3), of s c] 2 fin_commit
      by (auto simp: CommitTransactionCommand.simps [of _ s] cur_def finish_settles settles_def [of "Raises _"])
  qed
next
  case (fin_savepoint c fs)
  have "live (c' # fs)" if "blockState c' = TBLOCK_SUBINPROGRESS" "trans_state c' = TRANS_INPROGRESS" for c'
    using fin_savepoint(2) that by (cases fs) simp_all
  with fin_savepoint show ?case
    by (simp add: CommitTransactionCommand.simps [of _ s] cur_def finish_subbegin_def StartSubTransaction_def settles_def upd_cur_def in_block)
next
  case (fin_release c fs)
  then show ?case using commit_subs_release [OF fin_release(2)]
    by (simp add: CommitTransactionCommand.simps [of _ s] cur_def)
next
  case (fin_sub_abort c fs)
  note ne = finishing_not_Nil [OF fin_sub_abort(2)]
  let ?s1 = "s\<lparr>frames := fs, currentSubTransactionId := subTransactionId (hd fs)\<rparr>"
  let ?s2 = "?s1\<lparr>aborted := aborted s @ own_xids c\<rparr>"
  have 1: "settles (CommitTransactionCommand False ?s1)" by (rule fin_sub_abort.IH) (use fin_sub_abort.prems(2) in simp_all)
  have 2: "settles (CommitTransactionCommand False ?s2)" by (rule fin_sub_abort.IH) (use fin_sub_abort.prems(2) in simp_all)
  have pop: "CleanupSubTransaction s = ok ?s1" "CleanupSubTransaction (AbortSubTransaction s) = ok ?s2"
    using fin_sub_abort.prems(1) ne by (simp_all add: AbortSub_eq CleanupSub_eq)
  have "CommitTransactionCommand False s = CommitTransactionCommand False ?s1 \<or>
      CommitTransactionCommand False s = CommitTransactionCommand False ?s2"
    using fin_sub_abort.hyps(1) fin_sub_abort.prems(2) cur_frames [OF fin_sub_abort.prems(1)]
    by (subst (1 3) CommitTransactionCommand.simps) (elim insertE emptyE; simp add: pop)
  with 1 2 show ?case by (elim disjE) simp_all
next
  case (fin_restart c fs)
  let ?s1 = "s\<lparr>frames := fs, currentSubTransactionId := subTransactionId (hd fs)\<rparr>"
  let ?s2 = "?s1\<lparr>aborted := aborted s @ own_xids c\<rparr>"
  have pop: "CleanupSubTransaction s = ok ?s1" "CleanupSubTransaction (AbortSubTransaction s) = ok ?s2"
    using fin_restart by (simp_all add: AbortSub_eq CleanupSub_eq)
  have "settles (restart_savepoint False nm lev ?s1)" "settles (restart_savepoint False nm lev ?s2)" for nm lev
    using fin_restart by (simp_all add: restart_settles)
  then show ?case using fin_restart pop cur_frames [OF fin_restart.prems(1)]
    by (auto simp: CommitTransactionCommand.simps [of _ s])
qed

text \<open>What the commands do to the stack.\<close>

lemma mark_commit_live:
  "live fs \<Longrightarrow> \<exists>gs. mark_commit fs = Some gs \<and> commit_chain gs \<and> blockState (last gs) = TBLOCK_END \<and>
    commit_chain (butlast gs @ [(last gs)\<lparr>blockState := TBLOCK_PREPARE\<rparr>])"
proof (induction fs rule: live.induct)
  case (3 s p ps)
  then obtain gs where "mark_commit (p # ps) = Some gs" "commit_chain gs" "blockState (last gs) = TBLOCK_END"
    "commit_chain (butlast gs @ [(last gs)\<lparr>blockState := TBLOCK_PREPARE\<rparr>])" by auto
  moreover from this have "gs \<noteq> []" using commit_chain_not_Nil by blast
  ultimately show ?case using 3 by (auto intro: commit_chain.intros(2))
qed (auto intro: commit_chain.intros)

lemma mark_abort_live: "live fs \<Longrightarrow> \<exists>gs. SubTransactionBlockAbort fs = Some gs \<and> finishing gs"
  by (induction fs rule: live.induct) (auto simp: fin_abort fin_sub_abort)

lemma mark_abort_sub_failed:
  "live fs \<Longrightarrow> blockState c = TBLOCK_SUBABORT \<Longrightarrow> \<exists>gs. SubTransactionBlockAbort (c # fs) = Some gs \<and> finishing gs"
  using mark_abort_live [of fs] by (cases fs) (auto simp: fin_sub_abort)

lemma mark_rollback_live:
  "live fs \<Longrightarrow> n < length fs - 1 \<Longrightarrow> \<exists>gs. mark_rollback_to n fs = Some gs \<and> finishing gs"
proof (induction n fs rule: mark_rollback_to.induct)
  case (2 s ps)
  then have "live ps" "blockState s = TBLOCK_SUBINPROGRESS" by (cases ps; simp)+
  then show ?case by (auto intro: fin_restart)
next
  case (3 n s ps)
  then have "live ps" "blockState s = TBLOCK_SUBINPROGRESS" "n < length ps - 1" by (cases ps; simp)+
  with 3 show ?case by (auto simp: fin_sub_abort)
qed simp

lemma live_drop: "live fs \<Longrightarrow> n < length fs \<Longrightarrow> live (drop n fs)"
proof (induction fs arbitrary: n rule: live.induct)
  case (3 s p ps)
  then show ?case by (cases n) auto
qed (auto split: nat.splits)

lemma release_chain_append:
  "(\<And>f. f \<in> set xs \<Longrightarrow> blockState f = TBLOCK_SUBRELEASE) \<Longrightarrow> live fs \<Longrightarrow> release_chain (xs @ fs)"
  by (induction xs) (auto intro: release_chain.intros)

lemma release_marked:
  assumes "live fs" and "i < length fs - 1"
  shows "finishing (map (\<lambda>f. f\<lparr>blockState := TBLOCK_SUBRELEASE\<rparr>) (take (i + 1) fs) @ drop (i + 1) fs)"
proof (cases fs)
  case (Cons c gs)
  have "live (drop (i + 1) fs)" using assms by (intro live_drop) auto
  then have "release_chain (map (\<lambda>f. f\<lparr>blockState := TBLOCK_SUBRELEASE\<rparr>) (take i gs) @ drop i gs)"
    using Cons by (intro release_chain_append) auto
  with Cons show ?thesis by (simp add: fin_release)
qed (use assms in simp)

lemma AssignTransactionId_same:
  "AssignTransactionId fs x = (gs, y) \<Longrightarrow> list_all2 same_frame gs fs"
proof (induction fs x arbitrary: gs y rule: AssignTransactionId.induct)
  case (2 s ps n)
  then show ?case by (auto simp: same_frame_def list_all2_refl split: if_splits prod.splits)
qed simp

lemma live_all2: "list_all2 same_frame gs fs \<Longrightarrow> live gs = live fs"
proof (induction fs arbitrary: gs rule: live.induct)
  case (3 s p ps)
  then show ?case by (auto simp: list_all2_Cons2 same_frame_def)
qed (auto simp: list_all2_Cons2 same_frame_def)

section \<open>Statements\<close>

text \<open>What a command leaves behind is there to be finished, or an error that can be recovered from.\<close>

definition proceeds :: "('i xact_session, unit) outcome \<Rightarrow> bool" where
  "proceeds m \<longleftrightarrow> (case m of
      Returns _ s \<Rightarrow> finishing (frames s) \<and> \<not> handlesDestroyedInCancelQuery s
    | Raises s \<Rightarrow> recoverable (frames s) \<and> \<not> handlesDestroyedInCancelQuery s
    | Dies \<Rightarrow> False)"

lemma proceeds_simps [simp]:
  "proceeds (Returns u s) \<longleftrightarrow> finishing (frames s) \<and> \<not> handlesDestroyedInCancelQuery s"
  "proceeds (Raises s) \<longleftrightarrow> recoverable (frames s) \<and> \<not> handlesDestroyedInCancelQuery s"
  "\<not> proceeds Dies"
  by (simp_all add: proceeds_def)

definition started :: "TransactionStateData list \<Rightarrow> bool" where
  "started fs \<longleftrightarrow> (\<exists>t. fs = [t] \<and> blockState t = TBLOCK_STARTED \<and> trans_state t = TRANS_INPROGRESS \<and> sp_name t = None \<and>
     nestingLevel t = 1)"

lemma StartTransactionCommand_cases:
  assumes "ready (frames s)" and "\<not> handlesDestroyedInCancelQuery s"
  obtains (started) s' where "StartTransactionCommand False s = ok s'" "started (frames s')" "\<not> handlesDestroyedInCancelQuery s'"
      "blockState (cur s) = TBLOCK_DEFAULT"
  | (live) "StartTransactionCommand False s = ok s" "live (frames s)"
  | (failed) t where "StartTransactionCommand False s = ok s" "frames s = [t]" "blockState t = TBLOCK_ABORT" "trans_state t = TRANS_ABORT"
      "sp_name t = None"
  | (sub_failed) c fs where "StartTransactionCommand False s = ok s" "frames s = c # fs" "blockState c = TBLOCK_SUBABORT"
      "trans_state c = TRANS_ABORT" "live fs"
  using assms(1)
proof (cases rule: ready.cases)
  case (idle t)
  show ?thesis
    by (rule started) (use idle in \<open>auto simp: StartTransactionCommand_def cur_def StartTransaction_def upd_cur_def started_def\<close>)
next
  case in_block
  then have "StartTransactionCommand False s = ok s"
    using live_blockState [OF in_block] by (auto simp: StartTransactionCommand_def cur_def)
  with in_block show ?thesis by (rule live [rotated])
next
  case (failed t)
  then show ?thesis by (intro that(3) [of t]) (auto simp: StartTransactionCommand_def cur_def)
next
  case (sub_failed c fs)
  then show ?thesis by (intro that(4) [of c fs]) (auto simp: StartTransactionCommand_def cur_def)
qed

lemma GetCurrentTransactionId_cases:
  obtains (raised) "GetCurrentTransactionId s = Raises s"
  | (assigned) s' where "GetCurrentTransactionId s = ok s'" "list_all2 same_frame (frames s') (frames s)"
      "handlesDestroyedInCancelQuery s' = handlesDestroyedInCancelQuery s"
proof (cases "AssignTransactionId (frames s) (nextXid s)")
  case (Pair fs x)
  show thesis
    using raised assigned [of s] assigned [of "s\<lparr>frames := fs, nextXid := x\<rparr>"] AssignTransactionId_same [OF Pair] Pair
    by (cases "TransactionIdIsValid (transactionId (cur s))"; cases "xid_allowed s")
       (auto simp: GetCurrentTransactionId_def list_all2_refl)
qed

lemma same_frames_trans: "list_all2 same_frame a b \<Longrightarrow> list_all2 same_frame b c \<Longrightarrow> list_all2 same_frame a c"
  by (rule list_all2_trans [of same_frame same_frame same_frame]) (auto simp: same_frame_def)

lemma write_items_same:
  "\<exists>s'. (write_items is s = ok s' \<or> write_items is s = Raises s') \<and> list_all2 same_frame (frames s') (frames s) \<and>
    handlesDestroyedInCancelQuery s' = handlesDestroyedInCancelQuery s"
proof (induction "is" arbitrary: s)
  case Nil
  show ?case by (intro exI [of _ s]) (simp add: list_all2_refl)
next
  case (Cons i "is")
  show ?case
  proof (cases s rule: GetCurrentTransactionId_cases)
    case raised
    then show ?thesis by (intro exI [of _ s]) (simp add: write_item_def list_all2_refl)
  next
    case (assigned s1)
    let ?s2 = "s1\<lparr>currentCommandIdUsed := True, written := written s1 @ [(transactionId (cur s1), i)]\<rparr>"
    obtain s' where s': "write_items is ?s2 = ok s' \<or> write_items is ?s2 = Raises s'"
      "list_all2 same_frame (frames s') (frames ?s2)" "handlesDestroyedInCancelQuery s' = handlesDestroyedInCancelQuery ?s2"
      using Cons [of ?s2] by blast
    have "write_items (i # is) s = write_items is ?s2" using assigned by (simp add: write_item_def)
    moreover have "list_all2 same_frame (frames s') (frames s)"
      using same_frames_trans [OF s'(2)] assigned(2) by simp
    ultimately show ?thesis using s' assigned by (intro exI [of _ s']) simp
  qed
qed

lemma live_length_last: "live fs \<Longrightarrow> sp_name (last fs) = None"
  by (induction fs rule: live.induct) auto

lemma FindTarget_live:
  assumes "live (frames s)" and "FindTargetSavepoint (Some nm) s = Some i"
  shows "i < length (frames s) - 1"
proof -
  have i: "i < length (frames s)" "sp_name (frames s ! i) = Some nm"
    using assms(2) by (auto simp: FindTargetSavepoint_def find_Some_iff split: option.splits if_splits)
  have "sp_name (frames s ! (length (frames s) - 1)) = None"
    using live_length_last [OF assms(1)] last_conv_nth [of "frames s"] assms(1) by auto
  with i show ?thesis by (cases "i = length (frames s) - 1") auto
qed

lemma FindTarget_sub_failed:
  assumes "frames s = c # fs" and "live fs" and "FindTargetSavepoint (Some nm) s = Some i"
  shows "i < length fs"
proof -
  have i: "i < length (frames s)" "sp_name (frames s ! i) = Some nm"
    using assms(3) by (auto simp: FindTargetSavepoint_def find_Some_iff split: option.splits if_splits)
  have "sp_name (frames s ! length fs) = None"
    using live_length_last [OF assms(2)] last_conv_nth [of "frames s"] assms(1,2) by (auto split: if_splits)
  with i show ?thesis using assms(1) by (cases "i = length fs") auto
qed

lemma drop_stp_False [simp]: "fold (drop_stp_savepoint False) xs s = s"
  by (induction xs arbitrary: s) (simp_all add: drop_stp_savepoint_def)

text \<open>Statements outside a transaction block.\<close>

lemma ProcessUtility_started:
  assumes st: "started (frames s)" and h: "\<not> handlesDestroyedInCancelQuery s"
  shows "proceeds (ProcessUtility stmt s)"
proof -
  obtain t where t: "frames s = [t]" "blockState t = TBLOCK_STARTED" "trans_state t = TRANS_INPROGRESS" "sp_name t = None" "nestingLevel t = 1"
    using st by (auto simp: started_def)
  note c = cur_frames [OF t(1)]
  have rec: "recoverable (frames s)" "finishing (frames s)" using t by (simp_all add: rec_top fin_started)
  have req: "RequireTransactionChain True s = Raises s"
    using t by (simp add: RequireTransactionChain_def IsTransactionBlock_def IsSubTransaction_def c)
  show ?thesis
  proof (cases stmt)
    case (DML "is" fails)
    obtain s' where s': "write_items is s = ok s' \<or> write_items is s = Raises s'" "list_all2 same_frame (frames s') (frames s)"
      "handlesDestroyedInCancelQuery s' = handlesDestroyedInCancelQuery s" using write_items_same by blast
    then obtain t' where t': "frames s' = [t']" "same_frame t' t" using t by (auto simp: list_all2_Cons2)
    then have "recoverable (frames s')" "finishing (frames s')" using t by (simp_all add: same_frame_def rec_top fin_started)
    with s' h show ?thesis by (auto simp: DML)
  next
    case (TRANS_STMT_PREPARE gid)
    then show ?thesis using t h rec by (simp add: PrepareTransactionBlock_def EndTransactionBlock_def c top_block_def)
  qed (use t h rec req in \<open>simp_all add: BeginTransactionBlock_def EndTransactionBlock_def UserAbortTransactionBlock_def c upd_cur_def
        fin_begin fin_abort\<close>)
qed

text \<open>Statements in a transaction block.\<close>

lemma ProcessUtility_live:
  assumes lv: "live (frames s)" and h: "\<not> handlesDestroyedInCancelQuery s"
  shows "proceeds (ProcessUtility stmt s)"
proof -
  have rec: "recoverable (frames s)" "finishing (frames s)" using lv by (simp_all add: rec_ready in_block fin_live)
  have b: "blockState (cur s) = TBLOCK_INPROGRESS \<or> blockState (cur s) = TBLOCK_SUBINPROGRESS"
    using live_blockState [OF lv] by (auto simp: cur_def)
  have req: "RequireTransactionChain True s = ok s \<or> RequireTransactionChain True s = Raises s"
    by (simp add: RequireTransactionChain_def)
  have single: "\<exists>t. frames s = [t]" if "blockState (cur s) = TBLOCK_INPROGRESS"
    using lv that by (cases "frames s" rule: live.cases) (auto simp: cur_def)
  obtain gs where gs: "mark_commit (frames s) = Some gs" "commit_chain gs" "blockState (last gs) = TBLOCK_END"
    "commit_chain (butlast gs @ [(last gs)\<lparr>blockState := TBLOCK_PREPARE\<rparr>])" using mark_commit_live [OF lv] by blast
  obtain as where as: "SubTransactionBlockAbort (frames s) = Some as" "finishing as" using mark_abort_live [OF lv] by blast
  have single_marks: "frames (set_block TBLOCK_END s) = gs" "frames (set_block TBLOCK_ABORT_PENDING s) = as"
    if "blockState (cur s) = TBLOCK_INPROGRESS"
    using single [OF that] gs(1) as(1) that by (auto simp: cur_def upd_cur_def)
  have "\<exists>s'. EndTransactionBlock s = Returns True s' \<and> frames s' = gs \<and> \<not> handlesDestroyedInCancelQuery s'"
    using b gs h single_marks(1) by (auto simp: EndTransactionBlock_def with_frames_def upd_cur_def split: list.splits)
  then obtain s1 where s1: "EndTransactionBlock s = Returns True s1" "frames s1 = gs" "\<not> handlesDestroyedInCancelQuery s1" by blast
  have "\<exists>s'. UserAbortTransactionBlock s = ok s' \<and> frames s' = as \<and> \<not> handlesDestroyedInCancelQuery s'"
    using b as h single_marks(2) by (auto simp: UserAbortTransactionBlock_def with_frames_def upd_cur_def split: list.splits)
  then obtain s2 where s2: "UserAbortTransactionBlock s = ok s2" "frames s2 = as" "\<not> handlesDestroyedInCancelQuery s2" by blast
  show ?thesis
  proof (cases stmt)
    case (DML "is" fails)
    obtain s' where s': "write_items is s = ok s' \<or> write_items is s = Raises s'" "list_all2 same_frame (frames s') (frames s)"
      "handlesDestroyedInCancelQuery s' = handlesDestroyedInCancelQuery s" using write_items_same by blast
    then have "live (frames s')" using lv live_all2 by blast
    then have "recoverable (frames s')" "finishing (frames s')" by (simp_all add: rec_ready in_block fin_live)
    with s' h show ?thesis by (auto simp: DML)
  next
    case (TRANS_STMT_SAVEPOINT nm)
    show ?thesis
    proof (cases s rule: GetCurrentTransactionId_cases)
      case raised
      then show ?thesis using req h rec by (auto simp: TRANS_STMT_SAVEPOINT)
    next
      case (assigned s3)
      then have "live (frames s3)" using lv live_all2 by blast
      then have "proceeds (DefineSavepoint (Some nm) s3)"
        using live_blockState [of "frames s3"] assigned h
        by (auto simp: DefineSavepoint_def PushTransaction_def cur_def upd_cur_def Let_def fin_savepoint rec_ready in_block)
      then show ?thesis using req h rec assigned by (auto simp: TRANS_STMT_SAVEPOINT)
    qed
  next
    case (TRANS_STMT_RELEASE nm)
    have "proceeds (ReleaseSavepoint (Some nm) False s)"
    proof (cases "FindTargetSavepoint (Some nm) s")
      case None
      then show ?thesis using b h rec by (auto simp: ReleaseSavepoint_def CheckReleaseSavepointBlockState_def)
    next
      case (Some i)
      then show ?thesis using b h rec release_marked [OF lv FindTarget_live [OF lv Some]]
        by (auto simp: ReleaseSavepoint_def CheckReleaseSavepointBlockState_def)
    qed
    then show ?thesis using req h rec by (auto simp: TRANS_STMT_RELEASE)
  next
    case (TRANS_STMT_ROLLBACK_TO nm)
    have "proceeds (RollbackToSavepoint (Some nm) False s)"
    proof (cases "FindTargetSavepoint (Some nm) s")
      case None
      then show ?thesis using b h rec by (auto simp: RollbackToSavepoint_def CheckRollbackSavepointBlockState_def)
    next
      case (Some i)
      then show ?thesis using b h rec mark_rollback_live [OF lv FindTarget_live [OF lv Some]]
        by (auto simp: RollbackToSavepoint_def CheckRollbackSavepointBlockState_def with_frames_def)
    qed
    then show ?thesis using req h rec by (auto simp: TRANS_STMT_ROLLBACK_TO)
  qed (use b h rec gs as s1 s2 in \<open>auto simp: BeginTransactionBlock_def PrepareTransactionBlock_def top_block_def fin_commit\<close>)
qed

text \<open>Statements in a failed transaction block; only those that leave it get that far.\<close>

lemma ProcessUtility_failed:
  assumes "frames s = [t]" and "blockState t = TBLOCK_ABORT" and "trans_state t = TRANS_ABORT" and "sp_name t = None"
    and h: "\<not> handlesDestroyedInCancelQuery s" and exit: "IsTransactionExitStmt stmt"
  shows "proceeds (ProcessUtility stmt s)"
proof -
  note c = cur_frames [OF assms(1)]
  have rec: "recoverable (frames s)" using assms by (simp add: rec_ready failed)
  have req: "RequireTransactionChain True s = ok s"
    using assms(2) by (simp add: RequireTransactionChain_def IsTransactionBlock_def c)
  show ?thesis using exit assms(1-5) rec req
    by (cases stmt) (auto simp: PrepareTransactionBlock_def EndTransactionBlock_def UserAbortTransactionBlock_def RollbackToSavepoint_def
        CheckRollbackSavepointBlockState_def c upd_cur_def fin_abort_end)
qed

lemma ProcessUtility_sub_failed:
  assumes f: "frames s = c # fs" and c: "blockState c = TBLOCK_SUBABORT" "trans_state c = TRANS_ABORT" and lv: "live fs"
    and h: "\<not> handlesDestroyedInCancelQuery s" and exit: "IsTransactionExitStmt stmt"
  shows "proceeds (ProcessUtility stmt s)"
proof -
  note cr = cur_frames [OF f]
  have rec: "recoverable (frames s)" using f c lv by (simp add: rec_ready sub_failed)
  have req: "RequireTransactionChain True s = ok s"
    using c by (simp add: RequireTransactionChain_def IsTransactionBlock_def cr)
  obtain as where as: "SubTransactionBlockAbort (frames s) = Some as" "finishing as"
    using mark_abort_sub_failed [OF lv c(1)] f by auto
  have rb: "proceeds (RollbackToSavepoint (Some nm) False s)" for nm
  proof (cases "FindTargetSavepoint (Some nm) s")
    case None
    then show ?thesis using h rec c by (auto simp: RollbackToSavepoint_def CheckRollbackSavepointBlockState_def cr)
  next
    case (Some i)
    note i = FindTarget_sub_failed [OF f lv Some]
    have "\<exists>gs. mark_rollback_to i (frames s) = Some gs \<and> finishing gs"
    proof (cases i)
      case 0
      then show ?thesis using f c lv by (simp add: fin_restart)
    next
      case (Suc j)
      then have "j < length fs - 1" using i by arith
      then obtain gs where "mark_rollback_to j fs = Some gs" "finishing gs" using mark_rollback_live [OF lv] by blast
      then show ?thesis using f c Suc by (simp add: fin_sub_abort)
    qed
    then show ?thesis using Some h rec c
      by (auto simp: RollbackToSavepoint_def CheckRollbackSavepointBlockState_def cr with_frames_def)
  qed
  show ?thesis using exit c h rec req as rb
    by (cases stmt) (auto simp: PrepareTransactionBlock_def EndTransactionBlock_def UserAbortTransactionBlock_def cr with_frames_def)
qed

lemma exec_ready:
  assumes rd: "ready (frames s)" and h: "\<not> handlesDestroyedInCancelQuery s"
  shows "\<exists>s'. exec_simple_query stmt s = Some s' \<and> ready (frames s') \<and> \<not> handlesDestroyedInCancelQuery s'"
proof (cases "IsAbortedTransactionBlockState s \<and> \<not> IsTransactionExitStmt stmt")
  case True
  then show ?thesis using AbortCurrentTransaction_ready [OF rec_ready [OF rd] refl h] by (auto simp: exec_simple_query_aborted)
next
  case False
  have "\<exists>s1. StartTransactionCommand False s = ok s1 \<and> proceeds (ProcessUtility stmt s1)"
    using rd h
  proof (cases rule: StartTransactionCommand_cases)
    case (started s')
    then show ?thesis using ProcessUtility_started by blast
  next
    case live
    then show ?thesis using ProcessUtility_live h by blast
  next
    case (failed t)
    then have "IsTransactionExitStmt stmt" using False by (simp add: IsAbortedTransactionBlockState_def cur_def)
    with failed h show ?thesis using ProcessUtility_failed by blast
  next
    case (sub_failed c fs)
    then have "IsTransactionExitStmt stmt" using False by (simp add: IsAbortedTransactionBlockState_def cur_def)
    with sub_failed h show ?thesis using ProcessUtility_sub_failed by blast
  qed
  then obtain s1 where s1: "StartTransactionCommand False s = ok s1" "proceeds (ProcessUtility stmt s1)" by blast
  let ?run = "then_do (ProcessUtility stmt s1) (CommitTransactionCommand False)"
  have st: "settles ?run"
  proof (cases "ProcessUtility stmt s1")
    case (Returns u s2)
    then show ?thesis using s1(2) CommitTransactionCommand_settles [OF _ refl, of s2] by simp
  qed (use s1(2) in \<open>simp_all add: settles_def\<close>)
  have e: "exec_simple_query stmt s = (case ?run of Returns _ s \<Rightarrow> Some s
      | Raises s \<Rightarrow> (case AbortCurrentTransaction False s of Returns _ s \<Rightarrow> Some s | _ \<Rightarrow> None) | Dies \<Rightarrow> None)"
    by (rule exec_simple_query_run [OF s1(1) False])
  show ?thesis
  proof (cases ?run)
    case (Raises s2)
    then obtain s3 where "AbortCurrentTransaction False s2 = ok s3" "ready (frames s3)" "\<not> handlesDestroyedInCancelQuery s3"
      using AbortCurrentTransaction_ready [OF _ refl, of s2] st by (auto simp: settles_def)
    with Raises show ?thesis by (simp add: e)
  qed (use st in \<open>simp_all add: e settles_def\<close>)
qed

text \<open>
  A session over time: it begins idle; clients send statements, the settings of the session and the fate of the next commit
  are whatever they are, and other sessions take transaction ids.
\<close>

definition new_session :: "bool \<Rightarrow> bool \<Rightarrow> TransactionId \<Rightarrow> 'i xact_session" where
  "new_session auto warns xid =
     \<lparr>frames = [\<lparr>transactionId = InvalidTransactionId, subTransactionId = 0, sp_name = None, savepointLevel = 0,
        trans_state = TRANS_DEFAULT, blockState = TBLOCK_DEFAULT, nestingLevel = 0, childXids = [], maxChildXids = 0\<rparr>],
      currentSubTransactionId = 0, currentCommandId = 0, currentCommandIdUsed = False, prepareGID = None,
      handlesDestroyedInCancelQuery = False, portal_stp_exception_counter = 0, stp_savepoint_cnt = 0, phony_autocommit = auto,
      nested_begin_warns = warns, xid_allowed = True, commit_error = False, nextXid = xid, committed = [], aborted = [],
      prepared = [], written = []\<rparr>"

inductive session_run :: "'i xact_session \<Rightarrow> bool" where
  start: "session_run (new_session auto warns xid)"
| statement: "session_run s \<Longrightarrow> exec_simple_query stmt s = Some s' \<Longrightarrow> session_run s'"
| settings: "session_run s \<Longrightarrow>
    session_run (s\<lparr>phony_autocommit := auto, nested_begin_warns := warns, xid_allowed := allowed, commit_error := err\<rparr>)"
| others: "session_run s \<Longrightarrow> session_run (s\<lparr>nextXid := xid\<rparr>)"

lemma session_run_ready: "session_run s \<Longrightarrow> ready (frames s) \<and> \<not> handlesDestroyedInCancelQuery s"
proof (induction s rule: session_run.induct)
  case (start auto warns xid)
  then show ?case by (simp add: new_session_def ready.idle TransactionIdIsValid_def)
next
  case (statement s stmt s')
  then show ?case using exec_ready [of s stmt] by auto
qed simp_all



section \<open>Leaving every transaction\<close>

definition is_idle :: "'i xact_session \<Rightarrow> bool" where
  "is_idle s \<longleftrightarrow> (\<exists>t. frames s = [t] \<and> blockState t = TBLOCK_DEFAULT \<and> trans_state t = TRANS_DEFAULT)"

lemma abort_out_top:
  assumes f: "frames s = [t]" and b: "blockState t \<in> {TBLOCK_STARTED, TBLOCK_BEGIN, TBLOCK_INPROGRESS, TBLOCK_END, TBLOCK_ABORT_PENDING, TBLOCK_PREPARE} \<or>
      blockState t \<in> {TBLOCK_ABORT, TBLOCK_ABORT_END} \<and> trans_state t = TRANS_ABORT"
  shows "\<exists>s'. AbortOutOfAnyTransaction False s = ok s' \<and> is_idle s'"
proof -
  let ?t = "(reset_frame t)\<lparr>blockState := TBLOCK_DEFAULT\<rparr>"
  have "\<exists>s'. abort_out_body False s = ok s' \<and> frames s' = [?t]"
    using f b by (auto simp: abort_out_body_def Let_def cur_def AbortTransaction_eq CleanupTransaction_def upd_cur_def reset_frame_def)
  then obtain s' where "abort_out_body False s = ok s'" "frames s' = [?t]" by blast
  then show ?thesis using f
    by (subst AbortOutOfAnyTransaction.simps) (simp add: cur_def is_idle_def reset_frame_def)
qed

lemma abort_out_sub:
  assumes f: "frames s = c # fs" "fs \<noteq> []" and b: "blockState c \<in> {TBLOCK_SUBBEGIN, TBLOCK_SUBINPROGRESS, TBLOCK_SUBRELEASE, TBLOCK_SUBCOMMIT,
      TBLOCK_SUBABORT, TBLOCK_SUBABORT_PENDING, TBLOCK_SUBRESTART, TBLOCK_SUBABORT_END, TBLOCK_SUBABORT_RESTART}"
  obtains s' where "frames s' = fs"
    and "AbortOutOfAnyTransaction False s = (if blockState (hd fs) = TBLOCK_DEFAULT then ok s' else AbortOutOfAnyTransaction False s')"
proof -
  have "\<exists>s'. abort_out_body False s = ok s' \<and> frames s' = fs"
    using f b by (auto simp: abort_out_body_def Let_def cur_def AbortSub_eq CleanupSub_eq)
  then obtain s' where s': "abort_out_body False s = ok s'" "frames s' = fs" by blast
  have "AbortOutOfAnyTransaction False s = (if blockState (hd fs) = TBLOCK_DEFAULT then ok s' else AbortOutOfAnyTransaction False s')"
    using s' f by (subst AbortOutOfAnyTransaction.simps) (simp add: cur_def)
  with s'(2) that show thesis by blast
qed

lemma abort_out_live:
  assumes "live fs" and "frames s = fs"
  shows "\<exists>s'. AbortOutOfAnyTransaction False s = ok s' \<and> is_idle s'"
  using assms
proof (induction fs arbitrary: s rule: live.induct)
  case (2 t)
  then show ?case by (intro abort_out_top) auto
next
  case (3 c p ps)
  obtain s' where s': "frames s' = p # ps"
    "AbortOutOfAnyTransaction False s = (if blockState (hd (p # ps)) = TBLOCK_DEFAULT then ok s' else AbortOutOfAnyTransaction False s')"
    by (rule abort_out_sub [OF "3.prems"(2)]) (use "3.prems"(1) in auto)
  have "live (p # ps)" using "3.prems"(1) by simp
  with "3.IH" [OF this s'(1)] live_blockState [OF this] s'(2) show ?case by auto
qed simp

lemma recoverable_default:
  assumes "recoverable fs" and "blockState (hd fs) = TBLOCK_DEFAULT"
  obtains t where "fs = [t]" and "trans_state t = TRANS_DEFAULT"
  using assms
proof (cases rule: recoverable.cases)
  case rec_ready
  then show thesis
  proof (cases rule: ready.cases)
    case in_block
    then show thesis using live_blockState [OF in_block] assms(2) by simp
  qed (use assms(2) that in auto)
qed (use assms(2) in auto)

lemma AbortOutOfAnyTransaction_idle:
  assumes "recoverable fs" and "frames s = fs"
  shows "\<exists>s'. AbortOutOfAnyTransaction False s = ok s' \<and> is_idle s'"
  using assms
proof (induction fs arbitrary: s rule: recoverable.induct)
  case (rec_ready fs)
  note s = rec_ready.prems
  show ?case using rec_ready.hyps
  proof (cases rule: ready.cases)
    case (idle t)
    then have "AbortOutOfAnyTransaction False s = ok s"
      using s by (subst AbortOutOfAnyTransaction.simps) (simp add: abort_out_body_def cur_def Let_def)
    then show ?thesis using idle s by (simp add: is_idle_def)
  next
    case in_block
    then show ?thesis using s by (rule abort_out_live)
  next
    case (failed t)
    then show ?thesis using s by (intro abort_out_top) auto
  next
    case (sub_failed c gs)
    obtain s' where s': "frames s' = gs"
      "AbortOutOfAnyTransaction False s = (if blockState (hd gs) = TBLOCK_DEFAULT then ok s' else AbortOutOfAnyTransaction False s')"
      by (rule abort_out_sub [of s c gs]) (use sub_failed s in auto)
    then show ?thesis using abort_out_live [OF sub_failed(4) s'(1)] live_blockState [OF sub_failed(4)] by auto
  qed
next
  case (rec_top t)
  then show ?case by (intro abort_out_top) auto
next
  case (rec_abort_end t)
  then show ?case by (intro abort_out_top) auto
next
  case (rec_sub c fs)
  obtain s' where s': "frames s' = fs"
    "AbortOutOfAnyTransaction False s = (if blockState (hd fs) = TBLOCK_DEFAULT then ok s' else AbortOutOfAnyTransaction False s')"
    by (rule abort_out_sub [of s c fs]) (use rec_sub recoverable_not_Nil in auto)
  show ?case
  proof (cases "blockState (hd fs) = TBLOCK_DEFAULT")
    case True
    obtain t where "fs = [t]" "trans_state t = TRANS_DEFAULT" by (rule recoverable_default [OF rec_sub.hyps(2) True])
    then show ?thesis using s' True by (simp add: is_idle_def)
  next
    case False
    then show ?thesis using rec_sub.IH [OF s'(1)] s'(2) by simp
  qed
qed



text \<open>
  When the connection handles to other nodes were destroyed and an error ends a procedure's subtransaction in a statement of its own,
  \<open>AbortCurrentTransaction\<close> has already left the transaction when it calls \<open>AbortOutOfAnyTransaction\<close>, which does not expect that: the
  session ends with a FATAL error.
\<close>

lemma destroyed_handles_are_fatal:
  assumes "frames s = [c, t]" and "blockState c = TBLOCK_SUBINPROGRESS" and "blockState t = TBLOCK_STARTED" and "trans_state t = TRANS_INPROGRESS"
    and "handlesDestroyedInCancelQuery s"
  shows "AbortCurrentTransaction False s = Dies"
proof -
  let ?s1 = "s\<lparr>frames := [t], currentSubTransactionId := subTransactionId t, aborted := aborted s @ own_xids c\<rparr>"
  let ?s2 = "?s1\<lparr>frames := [(reset_frame t)\<lparr>blockState := TBLOCK_DEFAULT\<rparr>], aborted := aborted ?s1 @ own_xids t\<rparr>"
  have "CleanupSubTransaction (set_block TBLOCK_SUBABORT (AbortSubTransaction s)) = ok ?s1"
    using assms(1) by (simp add: AbortSub_eq upd_cur_def CleanupSub_eq)
  then have 1: "abort_subs_while s = ok ?s1" using assms(3) by (subst abort_subs_while.simps) (simp add: cur_def)
  have 2: "abort_top ?s1 = ok ?s2" by (rule abort_top_eq) simp
  have 3: "AbortOutOfAnyTransaction True ?s2 = Dies"
    by (subst AbortOutOfAnyTransaction.simps) (simp add: abort_out_body_def Let_def cur_def)
  have "AbortCurrentTransaction False s = then_do (then_do (abort_subs_while s) (\<lambda>s. abort_top (if trans_state (cur s) = TRANS_START
      then set_state TRANS_INPROGRESS s else s))) (\<lambda>s. if handlesDestroyedInCancelQuery s then AbortOutOfAnyTransaction True s else ok s)"
    using assms by (subst AbortCurrentTransaction.simps) (simp add: cur_def top_block_def)
  also have "\<dots> = Dies" unfolding 1 then_do.simps using 2 3 assms(4,5) by (simp add: cur_def)
  finally show ?thesis .
qed

end
