(* ===== verification/Savepoints.thy ===== *)
theory Savepoints
  imports Transactions
begin

text \<open>
  The statements of a session have the meaning of nested transactions: a transaction is a list of levels, each with the items
  written on it; a statement writes on the innermost level, SAVEPOINT opens a level, RELEASE merges levels, ROLLBACK TO and
  errors drop them, and only COMMIT makes items durable.
\<close>

section \<open>The specification\<close>

type_synonym 'i level = "string option \<times> 'i multiset"

datatype 'i txn_spec = Idle | Active "'i level list" | Failed | SubFailed "string option" "'i level list"

record 'i db_spec =
  durable :: "'i multiset"
  prepared_txns :: "(string option \<times> 'i multiset) list"
  txn :: "'i txn_spec"

definition all_items :: "'i level list \<Rightarrow> 'i multiset" where
  "all_items ls = sum_list (map snd ls)"

fun find_level :: "string \<Rightarrow> 'i level list \<Rightarrow> nat option" where
  "find_level nm [] = None"
| "find_level nm (l # ls) = (if fst l = Some nm then Some 0 else map_option Suc (find_level nm ls))"

text \<open>A failing statement outside a block fails alone, or, without autocommit, fails the transaction it started.\<close>

fun spec_fail :: "bool \<Rightarrow> 'i txn_spec \<Rightarrow> 'i txn_spec" where
  "spec_fail auto Idle = (if auto then Idle else Failed)"
| "spec_fail auto (Active (l # m # ls)) = SubFailed (fst l) (m # ls)"
| "spec_fail auto (Active _) = Failed"
| "spec_fail auto t = t"

definition release_to :: "nat \<Rightarrow> 'i level list \<Rightarrow> 'i level list" where
  "release_to i ls = (case drop (i + 1) ls of [] \<Rightarrow> [] | (nm, w) # ms \<Rightarrow> (nm, w + all_items (take (i + 1) ls)) # ms)"

definition rollback_to :: "nat \<Rightarrow> 'i level list \<Rightarrow> 'i level list" where
  "rollback_to i ls = (fst (ls ! i), {#}) # drop (i + 1) ls"

text \<open>
  \<open>auto\<close> is the setting for autocommit, \<open>warns\<close> whether a nested BEGIN only gives a warning, and \<open>err\<close> whether a commit
  fails.
\<close>

fun spec_step :: "bool \<Rightarrow> bool \<Rightarrow> bool \<Rightarrow> 'i stmt \<Rightarrow> 'i db_spec \<Rightarrow> 'i db_spec" where
  "spec_step auto warns err TRANS_STMT_BEGIN db =
     (case txn db of
        Idle \<Rightarrow> db\<lparr>txn := Active [(None, {#})]\<rparr>
      | Active ls \<Rightarrow> if warns then db else db\<lparr>txn := spec_fail auto (txn db)\<rparr>
      | _ \<Rightarrow> db)"
| "spec_step auto warns err TRANS_STMT_COMMIT db =
     (case txn db of
        Idle \<Rightarrow> if err then db\<lparr>txn := spec_fail auto Idle\<rparr> else db
      | Active ls \<Rightarrow> if err then db\<lparr>txn := Idle\<rparr> else db\<lparr>durable := durable db + all_items ls, txn := Idle\<rparr>
      | _ \<Rightarrow> db\<lparr>txn := Idle\<rparr>)"
| "spec_step auto warns err TRANS_STMT_ROLLBACK db = db\<lparr>txn := Idle\<rparr>"
| "spec_step auto warns err (TRANS_STMT_PREPARE gid) db =
     (case txn db of
        Idle \<Rightarrow> if err then db\<lparr>txn := spec_fail auto Idle\<rparr> else db
      | Active ls \<Rightarrow> if err then db\<lparr>txn := Idle\<rparr>
                    else db\<lparr>prepared_txns := prepared_txns db @ [(Some gid, all_items ls)], txn := Idle\<rparr>
      | _ \<Rightarrow> db\<lparr>txn := Idle\<rparr>)"
| "spec_step auto warns err (TRANS_STMT_SAVEPOINT nm) db =
     (case txn db of
        Active ls \<Rightarrow> db\<lparr>txn := Active ((Some nm, {#}) # ls)\<rparr>
      | t \<Rightarrow> db\<lparr>txn := spec_fail auto t\<rparr>)"
| "spec_step auto warns err (TRANS_STMT_RELEASE nm) db =
     (case txn db of
        Active ls \<Rightarrow> (case find_level nm ls of
            None \<Rightarrow> db\<lparr>txn := spec_fail auto (txn db)\<rparr>
          | Some i \<Rightarrow> db\<lparr>txn := Active (release_to i ls)\<rparr>)
      | t \<Rightarrow> db\<lparr>txn := spec_fail auto t\<rparr>)"
| "spec_step auto warns err (TRANS_STMT_ROLLBACK_TO nm) db =
     (let ls = (case txn db of Active ls \<Rightarrow> ls | SubFailed n ls \<Rightarrow> (n, {#}) # ls | _ \<Rightarrow> [])
      in case find_level nm ls of
           None \<Rightarrow> db\<lparr>txn := spec_fail auto (txn db)\<rparr>
         | Some i \<Rightarrow> db\<lparr>txn := Active (rollback_to i ls)\<rparr>)"
| "spec_step auto warns err (DML is fails) db =
     (case txn db of
        Idle \<Rightarrow> if fails \<or> err then db\<lparr>txn := spec_fail auto Idle\<rparr> else db\<lparr>durable := durable db + mset is\<rparr>
      | Active ls \<Rightarrow> if fails then db\<lparr>txn := spec_fail auto (txn db)\<rparr>
                    else db\<lparr>txn := Active ((fst (hd ls), snd (hd ls) + mset is) # tl ls)\<rparr>
      | _ \<Rightarrow> db)"

section \<open>The abstraction\<close>

text \<open>The ids whose items a frame stands for.\<close>

definition acc_xids :: "TransactionStateData \<Rightarrow> TransactionId list" where
  "acc_xids f = (if trans_state f = TRANS_ABORT then [] else own_xids f)"

lemma acc_xids_block [simp]: "acc_xids (f\<lparr>blockState := b\<rparr>) = acc_xids f"
  by (simp add: acc_xids_def own_xids_def)

definition items_of :: "(TransactionId \<times> 'i) list \<Rightarrow> TransactionId set \<Rightarrow> 'i multiset" where
  "items_of W X = mset (map snd (filter (\<lambda>w. fst w \<in> X) W))"

definition levels :: "(TransactionId \<times> 'i) list \<Rightarrow> TransactionStateData list \<Rightarrow> 'i level list" where
  "levels W fs = map (\<lambda>f. (sp_name f, items_of W (set (acc_xids f)))) fs"

definition abs_txn :: "(TransactionId \<times> 'i) list \<Rightarrow> TransactionStateData list \<Rightarrow> 'i txn_spec" where
  "abs_txn W fs =
     (case blockState (hd fs) of
        TBLOCK_DEFAULT \<Rightarrow> Idle
      | TBLOCK_ABORT \<Rightarrow> Failed
      | TBLOCK_SUBABORT \<Rightarrow> SubFailed (sp_name (hd fs)) (levels W (tl fs))
      | _ \<Rightarrow> Active (levels W fs))"

definition abs_db :: "'i xact_session \<Rightarrow> 'i db_spec" where
  "abs_db s = \<lparr>durable = items_of (written s) (set (committed s)),
     prepared_txns = map (\<lambda>(g, xs). (g, items_of (written s) (set xs))) (prepared s),
     txn = abs_txn (written s) (frames s)\<rparr>"

lemma items_of_union: "X \<inter> Y = {} \<Longrightarrow> items_of W (X \<union> Y) = items_of W X + items_of W Y"
  by (induction W) (auto simp: items_of_def)

lemma items_of_empty [simp]: "items_of W {} = {#}"
  by (simp add: items_of_def)

lemma items_of_append: "items_of (W @ V) X = items_of W X + items_of V X"
  by (simp add: items_of_def)

lemma items_of_fresh: "(\<And>w. w \<in> set W \<Longrightarrow> fst w \<notin> Y) \<Longrightarrow> items_of W (X \<union> Y) = items_of W X"
  unfolding items_of_def by (rule arg_cong [of _ _ "\<lambda>ws. mset (map snd ws)"], rule filter_cong) auto

section \<open>Transaction ids\<close>

text \<open>All ids of the open transaction: top level first, and on every level the transaction before its children.\<close>

fun live_xids :: "TransactionStateData list \<Rightarrow> TransactionId list" where
  "live_xids [] = []"
| "live_xids (s # ps) = live_xids ps @ acc_xids s"

fun parents_ok :: "TransactionStateData list \<Rightarrow> bool" where
  "parents_ok (c # p # ps) \<longleftrightarrow>
     (TransactionIdIsValid (transactionId c) \<longrightarrow> TransactionIdIsValid (transactionId p)) \<and> parents_ok (p # ps)"
| "parents_ok _ \<longleftrightarrow> True"

definition frames_ok :: "TransactionStateData list \<Rightarrow> bool" where
  "frames_ok fs \<longleftrightarrow> sorted_wrt (<) (live_xids fs) \<and> parents_ok fs \<and>
     (\<forall>f \<in> set fs. \<not> TransactionIdIsValid (transactionId f) \<longrightarrow> childXids f = []) \<and>
     (\<forall>f \<in> set fs. savepointLevel f = 0)"

definition ids_ok ::
  "TransactionId set \<Rightarrow> TransactionId set \<Rightarrow> TransactionId set \<Rightarrow> TransactionId set \<Rightarrow> TransactionId \<Rightarrow>
     (TransactionId \<times> 'i) list \<Rightarrow> bool" where
  "ids_ok L C A P n W \<longleftrightarrow> 3 \<le> n \<and> (\<forall>x \<in> L \<union> C \<union> A \<union> P. 3 \<le> x \<and> x < n) \<and>
     L \<inter> (C \<union> A \<union> P) = {} \<and> C \<inter> (A \<union> P) = {} \<and> A \<inter> P = {} \<and> (\<forall>w \<in> set W. fst w \<in> L \<union> C \<union> A \<union> P)"

definition xids_ok :: "'i xact_session \<Rightarrow> bool" where
  "xids_ok s \<longleftrightarrow> frames_ok (frames s) \<and>
     ids_ok (set (live_xids (frames s))) (set (committed s)) (set (aborted s)) (\<Union>p \<in> set (prepared s). set (snd p)) (nextXid s) (written s)"

lemma ids_okI:
  assumes "3 \<le> n" and "\<And>x. x \<in> L \<Longrightarrow> 3 \<le> x \<and> x < n" and "\<And>x. x \<in> C \<Longrightarrow> 3 \<le> x \<and> x < n" and "\<And>x. x \<in> A \<Longrightarrow> 3 \<le> x \<and> x < n"
    and "\<And>x. x \<in> P \<Longrightarrow> 3 \<le> x \<and> x < n" and "L \<inter> (C \<union> A \<union> P) = {}" and "C \<inter> (A \<union> P) = {}" and "A \<inter> P = {}"
    and "\<And>w. w \<in> set W \<Longrightarrow> fst w \<in> L \<union> C \<union> A \<union> P"
  shows "ids_ok L C A P n W"
  unfolding ids_ok_def using assms by (intro conjI ballI) auto

lemma ids_okD:
  assumes "ids_ok L C A P n W"
  shows "3 \<le> n" and "x \<in> L \<Longrightarrow> 3 \<le> x \<and> x < n" and "x \<in> C \<Longrightarrow> 3 \<le> x \<and> x < n" and "x \<in> A \<Longrightarrow> 3 \<le> x \<and> x < n"
    and "x \<in> P \<Longrightarrow> 3 \<le> x \<and> x < n" and "L \<inter> (C \<union> A \<union> P) = {}" and "C \<inter> (A \<union> P) = {}" and "A \<inter> P = {}"
    and "w \<in> set W \<Longrightarrow> fst w < n" and "w \<in> set W \<Longrightarrow> fst w \<in> L \<union> C \<union> A \<union> P"
  using assms unfolding ids_ok_def by auto

lemma ids_ok_move:
  assumes ok: "ids_ok L C A P n W" and X: "X \<subseteq> L" and L': "L' = L - X"
  shows "ids_ok L' (C \<union> X) A P n W" and "ids_ok L' C (A \<union> X) P n W" and "ids_ok L' C A (P \<union> X) n W"
proof -
  note d = ids_okD [OF ok]
  have bX: "3 \<le> x \<and> x < n" if "x \<in> X" for x using X d(2) that by blast
  have bL: "3 \<le> x \<and> x < n" if "x \<in> L'" for x using L' d(2) that by blast
  have W: "fst w \<in> L' \<union> (C \<union> X) \<union> A \<union> P" "fst w \<in> L' \<union> C \<union> (A \<union> X) \<union> P" "fst w \<in> L' \<union> C \<union> A \<union> (P \<union> X)" if "w \<in> set W" for w
    using d(10) [OF that] L' by blast+
  show "ids_ok L' (C \<union> X) A P n W"
  proof (rule ids_okI)
    show "L' \<inter> (C \<union> X \<union> A \<union> P) = {}" using d(6) X L' by blast
    show "(C \<union> X) \<inter> (A \<union> P) = {}" using d(6,7) X by blast
  qed (use d(1-5) bX bL W(1) d(8) in auto)
  show "ids_ok L' C (A \<union> X) P n W"
  proof (rule ids_okI)
    show "L' \<inter> (C \<union> (A \<union> X) \<union> P) = {}" using d(6) X L' by blast
    show "C \<inter> (A \<union> X \<union> P) = {}" using d(6,7) X by blast
    show "(A \<union> X) \<inter> P = {}" using d(6,8) X by blast
  qed (use d(1-5) bX bL W(2) in auto)
  show "ids_ok L' C A (P \<union> X) n W"
  proof (rule ids_okI)
    show "L' \<inter> (C \<union> A \<union> (P \<union> X)) = {}" using d(6) X L' by blast
    show "C \<inter> (A \<union> (P \<union> X)) = {}" using d(6,7) X by blast
    show "A \<inter> (P \<union> X) = {}" using d(6,8) X by blast
  qed (use d(1-5) bX bL W(3) in auto)
qed

lemma ids_ok_new:
  assumes ok: "ids_ok L C A P n W" and m: "n \<le> m" and N: "\<And>x. x \<in> N \<Longrightarrow> n \<le> x \<and> x < m"
  shows "ids_ok (L \<union> N) C A P m W"
proof -
  note d = ids_okD [OF ok]
  have up: "3 \<le> x \<and> x < m" if "3 \<le> x \<and> x < n" for x using that m by (auto intro: less_le_trans)
  have new: "3 \<le> x \<and> x < m" if "x \<in> N" for x using N [OF that] d(1) by (auto intro: order_trans)
  have old: "x \<notin> N" if "x < n" for x using N that by (auto simp: not_less [symmetric])
  have "N \<inter> (C \<union> A \<union> P) = {}" using old d(3,4,5) by blast
  then show ?thesis
  proof (intro ids_okI)
    show "fst w \<in> L \<union> N \<union> C \<union> A \<union> P" if "w \<in> set W" for w using d(10) [OF that] by blast
    show "3 \<le> m" using d(1) m by (rule order_trans)
    show "3 \<le> x \<and> x < m" if "x \<in> L \<union> N" for x using that d(2) up new by blast
  qed (use d up in \<open>blast+\<close>)
qed

lemma ids_ok_write: "ids_ok L C A P n W \<Longrightarrow> x \<in> L \<Longrightarrow> ids_ok L C A P n (W @ [(x, i)])"
  unfolding ids_ok_def by auto

section \<open>Assigning ids\<close>

definition assigned_frame :: "TransactionId \<Rightarrow> TransactionId \<Rightarrow> TransactionStateData \<Rightarrow> TransactionStateData \<Rightarrow> bool" where
  "assigned_frame n m g f \<longleftrightarrow> same_frame g f \<and>
     (g = f \<or> \<not> TransactionIdIsValid (transactionId f) \<and> n \<le> transactionId g \<and> transactionId g < m \<and>
        g = f\<lparr>transactionId := transactionId g\<rparr>)"

lemma word_Suc:
  fixes x :: TransactionId
  assumes "unat x < 2 ^ 64 - 1"
  shows "unat (x + 1) = unat x + 1" and "x < x + 1"
proof -
  have "unat x + unat (1 :: TransactionId) < 2 ^ LENGTH(64)" using assms by simp
  then show "unat (x + 1) = unat x + 1" by (simp only: unat_add_lem) simp
  then show "x < x + 1" by (simp add: word_less_nat_alt)
qed

lemma valid_ge_3: "3 \<le> x \<Longrightarrow> TransactionIdIsValid x"
  by (auto simp: TransactionIdIsValid_def InvalidTransactionId_def)

lemma acc_xids_assigned:
  assumes "assigned_frame n m g f" and "\<not> TransactionIdIsValid (transactionId f) \<longrightarrow> childXids f = []" and "3 \<le> n"
  shows "set (acc_xids g) \<subseteq> set (acc_xids f) \<union> {n..<m}" and "set (acc_xids f) \<subseteq> set (acc_xids g)"
    and "\<not> TransactionIdIsValid (transactionId g) \<longrightarrow> childXids g = []"
proof -
  consider "g = f" | "\<not> TransactionIdIsValid (transactionId f)" "n \<le> transactionId g" "transactionId g < m" "childXids g = []"
    using assms(1,2) unfolding assigned_frame_def by (metis TransactionStateData.select_convs(8) TransactionStateData.update_convs(1) TransactionStateData.surjective)
  then show "set (acc_xids g) \<subseteq> set (acc_xids f) \<union> {n..<m}" and "set (acc_xids f) \<subseteq> set (acc_xids g)"
    and "\<not> TransactionIdIsValid (transactionId g) \<longrightarrow> childXids g = []"
    using assms(2) by (cases; auto simp: acc_xids_def own_xids_def)+
qed

text \<open>New ids come after all others, on the innermost levels.\<close>

lemma AssignTransactionId_ok:
  assumes "frames_ok fs" and "\<And>x. x \<in> set (live_xids fs) \<Longrightarrow> x < n" and "3 \<le> n" and "unat n + length fs < 2 ^ 64"
    and "\<And>f. f \<in> set fs \<Longrightarrow> trans_state f \<noteq> TRANS_ABORT" and "AssignTransactionId fs n = (gs, m)"
  shows "list_all2 (assigned_frame n m) gs fs \<and> n \<le> m \<and> unat m \<le> unat n + length fs \<and> sorted_wrt (<) (live_xids gs) \<and>
    (\<forall>x \<in> set (live_xids gs). x < m) \<and> parents_ok gs \<and> (fs \<noteq> [] \<longrightarrow> TransactionIdIsValid (transactionId (hd gs)))"
  using assms
proof (induction fs arbitrary: gs m)
  case Nil
  then show ?case by simp
next
  case (Cons f fs)
  have fok: "frames_ok fs" using Cons.prems(1) by (cases fs) (auto simp: frames_ok_def sorted_wrt_append)
  show ?case
  proof (cases "TransactionIdIsValid (transactionId f)")
    case True
    then have r: "gs = f # fs" "m = n" using Cons.prems(6) by auto
    have "list_all2 (assigned_frame n m) gs (f # fs)" by (simp add: r list_all2_refl assigned_frame_def)
    then show ?thesis using Cons.prems(1,2) True by (simp add: r frames_ok_def)
  next
    case False
    then obtain hs x where h: "AssignTransactionId fs n = (hs, x)" and r: "gs = f\<lparr>transactionId := x\<rparr> # hs" "m = TransactionIdAdvance x"
      using Cons.prems(6) by (auto split: prod.splits)
    have ih: "list_all2 (assigned_frame n x) hs fs" "n \<le> x" "unat x \<le> unat n + length fs" "sorted_wrt (<) (live_xids hs)"
      "\<forall>y \<in> set (live_xids hs). y < x" "parents_ok hs" "fs \<noteq> [] \<longrightarrow> TransactionIdIsValid (transactionId (hd hs))"
      using Cons.IH [OF fok _ Cons.prems(3) _ _ h] Cons.prems(2,4,5) by auto
    have x: "unat x < 2 ^ 64 - 1" "3 \<le> x" using ih(2,3) Cons.prems(3,4) by (simp, auto intro: order_trans)
    have m: "m = x + 1" "x < m" "unat m = unat x + 1" using word_Suc [OF x(1)] by (simp_all add: r TransactionIdAdvance_def)
    have a: "acc_xids (f\<lparr>transactionId := x\<rparr>) = [x]"
      using False Cons.prems(1,5) valid_ge_3 [OF x(2)] by (simp add: acc_xids_def own_xids_def frames_ok_def)
    have "list_all2 (assigned_frame n m) hs fs"
      using ih(1) by (rule list_all2_mono) (auto simp: assigned_frame_def intro: less_trans [OF _ m(2)])
    moreover have "assigned_frame n m (f\<lparr>transactionId := x\<rparr>) f"
      using False ih(2) m(2) by (simp add: assigned_frame_def same_frame_def)
    moreover have "parents_ok gs" using ih(1,6,7) r by (cases hs; cases fs) auto
    moreover have "n \<le> m" using ih(2) m(2) by (auto intro: order_trans less_imp_le)
    moreover have "y < m" if "y \<in> set (live_xids hs)" for y using ih(5) that m(2) by (auto intro: less_trans)
    ultimately show ?thesis using ih(3,4,5) m a valid_ge_3 [OF x(2)] by (auto simp: r(1) sorted_wrt_append)
  qed
qed

text \<open>What most steps leave alone.\<close>

definition keeps :: "'i xact_session \<Rightarrow> 'i xact_session \<Rightarrow> bool" where
  "keeps s s' \<longleftrightarrow> committed s' = committed s \<and> prepared s' = prepared s \<and> commit_error s' = commit_error s \<and>
     phony_autocommit s' = phony_autocommit s \<and> nested_begin_warns s' = nested_begin_warns s \<and> xid_allowed s' = xid_allowed s \<and>
     handlesDestroyedInCancelQuery s' = handlesDestroyedInCancelQuery s \<and> prepareGID s' = prepareGID s"

lemma keeps_refl [simp]: "keeps s s"
  by (simp add: keeps_def)

lemma keeps_trans: "keeps s s' \<Longrightarrow> keeps s' s'' \<Longrightarrow> keeps s s''"
  by (simp add: keeps_def)

lemma live_xids_append: "live_xids (xs @ ys) = live_xids ys @ live_xids xs"
  by (induction xs) simp_all

lemma set_live_xids: "set (live_xids fs) = (\<Union>f \<in> set fs. set (acc_xids f))"
  by (induction fs) auto

lemma sorted_distinct: "sorted_wrt (<) (xs :: TransactionId list) \<Longrightarrow> distinct xs"
  by (induction xs) auto

text \<open>Levels do not notice ids that nothing was written under.\<close>

lemma levels_assigned:
  assumes "list_all2 (assigned_frame n m) gs fs" and "\<And>f. f \<in> set fs \<Longrightarrow> \<not> TransactionIdIsValid (transactionId f) \<longrightarrow> childXids f = []"
    and "3 \<le> n" and "\<And>w. w \<in> set W \<Longrightarrow> fst w < n"
  shows "levels W gs = levels W fs"
  using assms(1,2)
proof (induction gs fs rule: list_all2_induct)
  case (Cons g gs f fs)
  have a: "set (acc_xids g) \<subseteq> set (acc_xids f) \<union> {n..<m}" "set (acc_xids f) \<subseteq> set (acc_xids g)"
    using acc_xids_assigned(1,2) [OF Cons.hyps(1) _ assms(3)] Cons.prems by auto
  then have "set (acc_xids g) = set (acc_xids f) \<union> (set (acc_xids g) \<inter> {n..<m})" by blast
  moreover have "items_of W (set (acc_xids f) \<union> (set (acc_xids g) \<inter> {n..<m})) = items_of W (set (acc_xids f))"
    using assms(4) by (intro items_of_fresh) (auto simp: not_le [symmetric])
  ultimately have "items_of W (set (acc_xids g)) = items_of W (set (acc_xids f))" by simp
  moreover have "sp_name g = sp_name f" using Cons.hyps(1) by (simp add: assigned_frame_def same_frame_def)
  ultimately show ?case using Cons by (simp add: levels_def)
qed simp

lemma GetCurrentTransactionId_ok:
  assumes ok: "xids_ok s" and ne: "frames s \<noteq> []" and na: "\<And>f. f \<in> set (frames s) \<Longrightarrow> trans_state f \<noteq> TRANS_ABORT"
    and room: "xid_allowed s" "unat (nextXid s) + length (frames s) < 2 ^ 64"
  obtains fs m where "GetCurrentTransactionId s = ok (s\<lparr>frames := fs, nextXid := m\<rparr>)" and "xids_ok (s\<lparr>frames := fs, nextXid := m\<rparr>)"
    and "fs \<noteq> []" and "TransactionIdIsValid (transactionId (hd fs))" and "list_all2 same_frame fs (frames s)"
    and "levels (written s) fs = levels (written s) (frames s)"
proof (cases "TransactionIdIsValid (transactionId (cur s))")
  case True
  have "s\<lparr>frames := frames s, nextXid := nextXid s\<rparr> = s" by simp
  then show thesis using that [where fs = "frames s" and m = "nextXid s"] True ok ne
    by (simp add: GetCurrentTransactionId_def cur_def list_all2_refl)
next
  case False
  obtain fs m where A: "AssignTransactionId (frames s) (nextXid s) = (fs, m)" by fastforce
  have fok: "frames_ok (frames s)" and iok: "ids_ok (set (live_xids (frames s))) (set (committed s)) (set (aborted s))
      (\<Union>p \<in> set (prepared s). set (snd p)) (nextXid s) (written s)" using ok by (simp_all add: xids_ok_def)
  have a: "list_all2 (assigned_frame (nextXid s) m) fs (frames s)" "nextXid s \<le> m" "sorted_wrt (<) (live_xids fs)"
    "parents_ok fs" "TransactionIdIsValid (transactionId (hd fs))"
    using AssignTransactionId_ok [OF fok _ ids_okD(1) [OF iok] room(2) na A] ids_okD(2) [OF iok] ne by auto
  have nc: "\<not> TransactionIdIsValid (transactionId f) \<longrightarrow> childXids f = []" if "f \<in> set (frames s)" for f
    using fok that by (simp add: frames_ok_def)
  have same: "list_all2 same_frame fs (frames s)" using a(1) by (rule list_all2_mono) (simp add: assigned_frame_def)
  have pw: "\<exists>f \<in> set (frames s). assigned_frame (nextXid s) m g f" if "g \<in> set fs" for g
    using a(1) that by (metis list_all2_conv_all_nth in_set_conv_nth)
  have pw': "\<exists>g \<in> set fs. assigned_frame (nextXid s) m g f" if "f \<in> set (frames s)" for f
    using a(1) that by (metis list_all2_conv_all_nth in_set_conv_nth)
  have fok': "frames_ok fs" unfolding frames_ok_def
  proof (intro conjI ballI)
    fix g assume g: "g \<in> set fs"
    then obtain f where f: "f \<in> set (frames s)" "assigned_frame (nextXid s) m g f" using pw by blast
    show "\<not> TransactionIdIsValid (transactionId g) \<longrightarrow> childXids g = []"
      using acc_xids_assigned(3) [OF f(2) nc [OF f(1)] ids_okD(1) [OF iok]] .
    have "savepointLevel g = savepointLevel f" using f(2) by (simp add: assigned_frame_def same_frame_def)
    then show "savepointLevel g = 0" using fok f(1) by (simp add: frames_ok_def)
  qed (use a in simp_all)
  have "set (live_xids fs) \<subseteq> set (live_xids (frames s)) \<union> {nextXid s..<m}"
    using pw acc_xids_assigned(1) [OF _ nc ids_okD(1) [OF iok]] unfolding set_live_xids by fastforce
  moreover have "set (live_xids (frames s)) \<subseteq> set (live_xids fs)"
    using pw' acc_xids_assigned(2) [OF _ nc ids_okD(1) [OF iok]] unfolding set_live_xids by fastforce
  ultimately have "set (live_xids fs) = set (live_xids (frames s)) \<union> (set (live_xids fs) \<inter> {nextXid s..<m})" by blast
  then have "ids_ok (set (live_xids fs)) (set (committed s)) (set (aborted s)) (\<Union>p \<in> set (prepared s). set (snd p)) m (written s)"
    using ids_ok_new [OF iok a(2), of "set (live_xids fs) \<inter> {nextXid s..<m}"] by simp
  with fok' have "xids_ok (s\<lparr>frames := fs, nextXid := m\<rparr>)" by (simp add: xids_ok_def)
  moreover have "levels (written s) fs = levels (written s) (frames s)"
    using levels_assigned [OF a(1) nc ids_okD(1) [OF iok] ids_okD(9) [OF iok]] by auto
  moreover have "fs \<noteq> []" using same ne by auto
  ultimately show thesis using that [where fs = fs and m = m] False room(1) A a(5) same by (simp add: GetCurrentTransactionId_def)
qed

section \<open>Writing\<close>

lemma write_items_valid:
  "TransactionIdIsValid (transactionId (cur s)) \<Longrightarrow>
    write_items is s = ok (s\<lparr>currentCommandIdUsed := currentCommandIdUsed s \<or> is \<noteq> [],
      written := written s @ map (\<lambda>i. (transactionId (cur s), i)) is\<rparr>)"
proof (induction "is" arbitrary: s)
  case (Cons i "is")
  let ?s = "s\<lparr>currentCommandIdUsed := True, written := written s @ [(transactionId (cur s), i)]\<rparr>"
  have "write_items (i # is) s = write_items is ?s"
    using Cons.prems by (simp add: write_item_def GetCurrentTransactionId_def)
  moreover have "cur ?s = cur s" by (simp add: cur_def)
  ultimately show ?case using Cons.IH [of ?s] Cons.prems by simp
qed simp

lemma items_of_write:
  "items_of (map (\<lambda>i. (x, i)) is) X = (if x \<in> X then mset is else {#})"
  by (simp add: items_of_def filter_map comp_def multiset.map_comp)

lemma levels_write:
  assumes "distinct (live_xids (f # fs))" and "x \<in> set (acc_xids f)"
  shows "levels (W @ map (\<lambda>i. (x, i)) is) (f # fs) = (sp_name f, items_of W (set (acc_xids f)) + mset is) # levels W fs"
proof -
  have "x \<notin> set (acc_xids g)" if "g \<in> set fs" for g using assms that by (auto simp: set_live_xids)
  then show ?thesis using assms(2) by (simp add: levels_def items_of_append items_of_write)
qed

lemma write_items_ok:
  assumes ok: "xids_ok s" and ne: "frames s \<noteq> []" and na: "\<And>f. f \<in> set (frames s) \<Longrightarrow> trans_state f \<noteq> TRANS_ABORT"
    and room: "xid_allowed s" "unat (nextXid s) + length (frames s) < 2 ^ 64"
  obtains s' where "write_items is s = ok s'" and "xids_ok s'" and "list_all2 same_frame (frames s') (frames s)" and "keeps s s'"
    and "levels (written s') (frames s') = (fst (hd (levels (written s) (frames s))), snd (hd (levels (written s) (frames s))) + mset is) #
      tl (levels (written s) (frames s))"
    and "durable (abs_db s') = durable (abs_db s)" and "prepared_txns (abs_db s') = prepared_txns (abs_db s)"
    and "currentCommandId s' = currentCommandId s"
proof (cases "is")
  case Nil
  have "levels (written s) (frames s) \<noteq> []" using ne by (simp add: levels_def)
  then show thesis using that [of s] Nil ok by (simp add: list_all2_refl)
next
  case (Cons i js)
  obtain fs m where G: "GetCurrentTransactionId s = ok (s\<lparr>frames := fs, nextXid := m\<rparr>)" and ok1: "xids_ok (s\<lparr>frames := fs, nextXid := m\<rparr>)"
    and fs: "fs \<noteq> []" and v: "TransactionIdIsValid (transactionId (hd fs))" and same: "list_all2 same_frame fs (frames s)"
    and lev: "levels (written s) fs = levels (written s) (frames s)"
    by (rule GetCurrentTransactionId_ok [OF ok ne na room]) auto
  let ?s1 = "s\<lparr>frames := fs, nextXid := m\<rparr>"
  have v1: "TransactionIdIsValid (transactionId (cur ?s1))" using v by (simp add: cur_def)
  have "write_items is s = write_items is ?s1"
    using G v1 by (simp add: Cons write_item_def GetCurrentTransactionId_def [of ?s1])
  also have "\<dots> = ok (?s1\<lparr>currentCommandIdUsed := currentCommandIdUsed ?s1 \<or> is \<noteq> [],
      written := written s @ map (\<lambda>i. (transactionId (hd fs), i)) is\<rparr>)" (is "_ = ok ?s2")
    using write_items_valid [OF v1] by (simp add: cur_def)
  finally have w: "write_items is s = ok ?s2" .
  obtain f gs where f: "fs = f # gs" using fs by (cases fs) auto
  obtain z zs where "frames s = z # zs" "same_frame f z" using same f by (auto simp: list_all2_Cons1)
  then have "z \<in> set (frames s)" "same_frame f z" by simp_all
  with na have "trans_state f \<noteq> TRANS_ABORT" by (metis same_frame_def)
  then have x: "transactionId (hd fs) \<in> set (acc_xids f)" using v f by (simp add: acc_xids_def own_xids_def)
  then have xl: "transactionId (hd fs) \<in> set (live_xids fs)" using f by simp
  have iok: "ids_ok (set (live_xids fs)) (set (committed s)) (set (aborted s)) (\<Union>p \<in> set (prepared s). set (snd p)) m (written s)"
    and fok: "frames_ok fs" using ok1 by (simp_all add: xids_ok_def)
  have wr: "ids_ok (set (live_xids fs)) (set (committed s)) (set (aborted s)) (\<Union>p \<in> set (prepared s). set (snd p)) m
      (written s @ map (\<lambda>i. (transactionId (hd fs), i)) js)" for js
    using iok xl unfolding ids_ok_def by auto
  have "xids_ok ?s2" using fok wr by (simp add: xids_ok_def)
  moreover have "levels (written ?s2) (frames ?s2) = (fst (hd (levels (written s) (frames s))),
      snd (hd (levels (written s) (frames s))) + mset is) # tl (levels (written s) (frames s))"
    using levels_write [OF _ x, of gs "written s" "is"] fok lev [symmetric] sorted_distinct [of "live_xids fs"]
    by (simp add: f frames_ok_def) (simp add: levels_def)
  moreover have nc: "transactionId (hd fs) \<notin> set (committed s)" "\<And>p. p \<in> set (prepared s) \<Longrightarrow> transactionId (hd fs) \<notin> set (snd p)"
    using ids_okD(6) [OF iok] xl by auto
  then have "durable (abs_db ?s2) = durable (abs_db s)" "prepared_txns (abs_db ?s2) = prepared_txns (abs_db s)"
    by (auto simp: abs_db_def items_of_append items_of_write)
  ultimately show thesis using that [OF w] same by (simp add: keeps_def)
qed

section \<open>Merging levels\<close>

definition cci_ok :: "'i xact_session \<Rightarrow> bool" where
  "cci_ok s \<longleftrightarrow> (currentCommandIdUsed s \<longrightarrow> currentCommandId s + 1 \<noteq> InvalidCommandId)"

lemma CCI_ok:
  assumes "cci_ok s"
  obtains s' where "CommandCounterIncrement s = ok s'" and "frames s' = frames s" and "cci_ok s'" and "keeps s s'"
    and "aborted s' = aborted s" and "nextXid s' = nextXid s" and "written s' = written s"
  using assms that by (cases "currentCommandIdUsed s") (auto simp: CommandCounterIncrement_def cci_ok_def Let_def keeps_def)

lemma xids_ok_frames:
  assumes "xids_ok s" and "frames_ok (frames s')" and "set (live_xids (frames s')) = set (live_xids (frames s))" and "keeps s s'"
    and "aborted s' = aborted s" and "nextXid s' = nextXid s" and "written s' = written s"
  shows "xids_ok s'"
  using assms by (simp add: xids_ok_def keeps_def)

lemma CommitSubTransaction_ok:
  assumes f: "frames s = c # p # ps" and na: "trans_state c \<noteq> TRANS_ABORT" "trans_state p \<noteq> TRANS_ABORT" and ok: "xids_ok s" and cci: "cci_ok s"
    and room: "length (live_xids (frames s)) \<le> MaxChildXids"
  obtains s' p' where "CommitSubTransaction s = ok s'" and "frames s' = p' # ps" and "same_frame p' p"
    and "acc_xids p' = acc_xids p @ acc_xids c" and "xids_ok s'" and "cci_ok s'" and "keeps s s'" and "written s' = written s"
    and "nextXid s' = nextXid s"
proof -
  have fok: "frames_ok (c # p # ps)" using ok f by (simp add: xids_ok_def)
  have c0: "cci_ok (set_state TRANS_COMMIT s)" using cci f by (simp add: cci_ok_def upd_cur_def)
  obtain s1 where C: "CommandCounterIncrement (set_state TRANS_COMMIT s) = ok s1" and f1: "frames s1 = frames (set_state TRANS_COMMIT s)"
    and cci1: "cci_ok s1" and k1: "keeps (set_state TRANS_COMMIT s) s1"
    and w1: "aborted s1 = aborted (set_state TRANS_COMMIT s)" "nextXid s1 = nextXid (set_state TRANS_COMMIT s)"
      "written s1 = written (set_state TRANS_COMMIT s)" by (rule CCI_ok [OF c0])
  have f1': "frames s1 = c\<lparr>trans_state := TRANS_COMMIT\<rparr> # p # ps" using f1 f by (simp add: upd_cur_def)
  have w: "aborted s1 = aborted s" "nextXid s1 = nextXid s" "written s1 = written s" "keeps s s1"
    using w1 k1 f by (simp_all add: upd_cur_def keeps_def)
  have live_eq: "live_xids (p' # ps) = live_xids (frames s)" if "acc_xids p' = acc_xids p @ acc_xids c" for p'
    using that f by simp
  define p' where "p' = (if TransactionIdIsValid (transactionId c)
    then p\<lparr>childXids := childXids p @ transactionId c # childXids c,
      maxChildXids := (if maxChildXids p < length (childXids p) + length (childXids c) + 1
        then min ((length (childXids p) + length (childXids c) + 1) * 2) MaxChildXids else maxChildXids p)\<rparr> else p)"
  have p': "same_frame p' p" "transactionId p' = transactionId p" "savepointLevel p' = savepointLevel p"
    by (simp_all add: p'_def same_frame_def)
  have acc: "acc_xids p' = acc_xids p @ acc_xids c"
    using fok na by (auto simp: p'_def acc_xids_def own_xids_def frames_ok_def)
  have fits: "length (childXids p) + length (childXids c) + 1 \<le> MaxChildXids" if "TransactionIdIsValid (transactionId c)"
  proof -
    have "TransactionIdIsValid (transactionId p)" using fok that by (simp add: frames_ok_def)
    then show ?thesis using room that na f by (simp add: acc_xids_def own_xids_def)
  qed
  have "CommitSubTransaction s = ok (s1\<lparr>frames := p' # ps, currentSubTransactionId := subTransactionId p'\<rparr>)" (is "_ = ok ?s2")
  proof (cases "TransactionIdIsValid (transactionId c)")
    case True
    let ?n = "length (childXids p) + length (childXids c) + 1"
    have nlt: "\<not> min (?n * 2) MaxChildXids < ?n" using fits [OF True] by (simp add: min_def)
    have sub: "subTransactionId p' = subTransactionId p" by (simp add: p'_def)
    have "AtSubCommit_childXids s1 = ok (s1\<lparr>frames := c\<lparr>trans_state := TRANS_COMMIT, childXids := [], maxChildXids := 0\<rparr> # p' # ps\<rparr>)"
      unfolding AtSubCommit_childXids_def f1' list.case Let_def p'_def using True nlt by (simp del: min_less_iff_conj)
    then show ?thesis unfolding CommitSubTransaction_def C then_do.simps using True f1'
      by (simp add: cur_def PopTransaction_def upd_cur_def)
  next
    case False
    then show ?thesis unfolding CommitSubTransaction_def C then_do.simps using f1'
      by (simp add: cur_def PopTransaction_def upd_cur_def p'_def)
  qed
  moreover have "frames_ok (p' # ps)"
  proof -
    have "parents_ok (p' # ps)" using fok p'(2) by (cases ps) (auto simp: frames_ok_def)
    moreover have "childXids p' = []" if "\<not> TransactionIdIsValid (transactionId p')"
      using fok that p'(2) by (auto simp: frames_ok_def p'_def)
    ultimately show ?thesis using fok acc p'(3) by (simp add: frames_ok_def)
  qed
  then have "xids_ok ?s2"
    using w live_eq [OF acc] by (intro xids_ok_frames [OF ok]) (simp_all add: keeps_def)
  moreover have "keeps s ?s2" "written ?s2 = written s" "cci_ok ?s2" "nextXid ?s2 = nextXid s" using w cci1 by (simp_all add: keeps_def cci_ok_def)
  ultimately show thesis using that [of ?s2 p'] p'(1) acc by simp
qed

lemma commit_subs_ok:
  assumes "frames s = c # xs @ p # ps" and "blockState c = b" and "\<And>f. f \<in> set xs \<Longrightarrow> blockState f = b"
    and "\<And>f. f \<in> set (c # xs @ [p]) \<Longrightarrow> trans_state f \<noteq> TRANS_ABORT" and "blockState p \<noteq> b" and "xids_ok s" and "cci_ok s"
    and "length (live_xids (frames s)) \<le> MaxChildXids"
  shows "\<exists>s' p'. commit_subs_while b s = ok s' \<and> frames s' = p' # ps \<and> same_frame p' p \<and>
    acc_xids p' = acc_xids p @ live_xids (c # xs) \<and> xids_ok s' \<and> cci_ok s' \<and> keeps s s' \<and> written s' = written s \<and>
    nextXid s' = nextXid s"
  using assms
proof (induction xs arbitrary: s c)
  case Nil
  obtain s' p' where s': "CommitSubTransaction s = ok s'" "frames s' = p' # ps" "same_frame p' p" "acc_xids p' = acc_xids p @ acc_xids c"
    "xids_ok s'" "cci_ok s'" "keeps s s'" "written s' = written s" "nextXid s' = nextXid s"
    by (rule CommitSubTransaction_ok [of s c p ps]) (use Nil.prems in auto)
  have "commit_subs_while b s = ok s'"
    using s'(1-3) Nil.prems(5) by (simp add: commit_subs_while.simps [of b s] cur_def same_frame_def)
  with s' show ?case by auto
next
  case (Cons d xs)
  obtain s1 d' where s1: "CommitSubTransaction s = ok s1" "frames s1 = d' # xs @ p # ps" "same_frame d' d" "acc_xids d' = acc_xids d @ acc_xids c"
    "xids_ok s1" "cci_ok s1" "keeps s s1" "written s1 = written s" "nextXid s1 = nextXid s"
    by (rule CommitSubTransaction_ok [of s c d "xs @ p # ps"]) (use Cons.prems in auto)
  have bd: "blockState d' = b" using s1(3) Cons.prems(3) by (simp add: same_frame_def)
  have "live_xids (frames s1) = live_xids (frames s)" using s1(2,4) Cons.prems(1) by (simp add: live_xids_append)
  moreover have "trans_state f \<noteq> TRANS_ABORT" if "f \<in> set (d' # xs @ [p])" for f
  proof (cases "f = d'")
    case True
    have "trans_state d \<noteq> TRANS_ABORT" using Cons.prems(4) [of d] by simp
    with True s1(3) show ?thesis by (simp add: same_frame_def)
  next
    case False
    then show ?thesis using that Cons.prems(4) by simp
  qed
  ultimately have "\<exists>s' p'. commit_subs_while b s1 = ok s' \<and> frames s' = p' # ps \<and> same_frame p' p \<and>
      acc_xids p' = acc_xids p @ live_xids (d' # xs) \<and> xids_ok s' \<and> cci_ok s' \<and> keeps s1 s' \<and> written s' = written s1 \<and>
      nextXid s' = nextXid s1"
    using Cons.prems s1 bd by (intro Cons.IH) auto
  moreover have "commit_subs_while b s = commit_subs_while b s1"
    using s1(1,2) bd by (simp add: commit_subs_while.simps [of b s] cur_def)
  moreover have "live_xids (d' # xs) = live_xids (c # d # xs)" using s1(4) by simp
  ultimately show ?case using s1(7,8,9) keeps_trans by fastforce
qed

text \<open>The items of merged levels.\<close>

lemma all_items_levels:
  assumes "distinct (live_xids fs)"
  shows "all_items (levels W fs) = items_of W (set (live_xids fs))"
  using assms
proof (induction fs)
  case (Cons f fs)
  then have "items_of W (set (live_xids fs) \<union> set (acc_xids f)) = items_of W (set (live_xids fs)) + items_of W (set (acc_xids f))"
    by (intro items_of_union) auto
  with Cons show ?case by (simp add: all_items_def levels_def)
qed (simp add: all_items_def levels_def)

section \<open>Dropping levels\<close>

lemma xids_ok_abort:
  assumes ok: "xids_ok s" and "set X \<subseteq> set (live_xids (frames s))" and "set (live_xids (frames s')) = set (live_xids (frames s)) - set X"
    and "frames_ok (frames s')" and "keeps s s'" and "aborted s' = aborted s @ X" and "nextXid s' = nextXid s" and "written s' = written s"
  shows "xids_ok s'"
proof -
  have "ids_ok (set (live_xids (frames s))) (set (committed s)) (set (aborted s)) (\<Union>p \<in> set (prepared s). set (snd p)) (nextXid s) (written s)"
    using ok by (simp add: xids_ok_def)
  from ids_ok_move(2) [OF this assms(2,3)] show ?thesis using assms(4-8) by (simp add: xids_ok_def keeps_def)
qed

lemma frames_ok_tl: "frames_ok (c # fs) \<Longrightarrow> fs \<noteq> [] \<Longrightarrow> frames_ok fs"
  by (cases fs) (auto simp: frames_ok_def sorted_wrt_append)

lemma live_xids_Cons_disjoint:
  assumes "frames_ok (c # fs)"
  shows "set (live_xids fs) \<inter> set (acc_xids c) = {}"
  using assms sorted_distinct [of "live_xids (c # fs)"] by (auto simp: frames_ok_def)

text \<open>Levels that are marked for abort are popped one after the other.\<close>

lemma abort_chain_ok:
  assumes "frames s = xs @ fs" and "fs \<noteq> []" and "\<not> handlesDestroyedInCancelQuery s" and "xids_ok s"
    and "\<And>f. f \<in> set xs \<Longrightarrow> blockState f = TBLOCK_SUBABORT_PENDING \<and> trans_state f \<noteq> TRANS_ABORT \<or>
      blockState f = TBLOCK_SUBABORT_END \<and> trans_state f = TRANS_ABORT"
  shows "\<exists>s'. CommitTransactionCommand False s = CommitTransactionCommand False s' \<and> frames s' = fs \<and> xids_ok s' \<and> keeps s s' \<and>
    written s' = written s \<and> nextXid s' = nextXid s \<and> currentCommandId s' = currentCommandId s \<and> currentCommandIdUsed s' = currentCommandIdUsed s \<and>
    currentSubTransactionId s' \<in> insert (currentSubTransactionId s) (subTransactionId ` set (frames s))"
  using assms
proof (induction xs arbitrary: s)
  case Nil
  then show ?case by (intro exI [of _ s]) simp
next
  case (Cons c xs)
  let ?gs = "xs @ fs"
  let ?s1 = "s\<lparr>frames := ?gs, currentSubTransactionId := subTransactionId (hd ?gs), aborted := aborted s @ acc_xids c\<rparr>"
  have f: "frames s = c # ?gs" "?gs \<noteq> []" using Cons.prems(1,2) by simp_all
  have fok: "frames_ok (c # ?gs)" using Cons.prems(4) f by (simp add: xids_ok_def)
  have step: "CommitTransactionCommand False s = CommitTransactionCommand False ?s1"
  proof (cases "blockState c = TBLOCK_SUBABORT_PENDING")
    case True
    then have "acc_xids c = own_xids c" using Cons.prems(5) [of c] by (auto simp: acc_xids_def)
    then have "CleanupSubTransaction (AbortSubTransaction s) = ok ?s1" using f by (simp add: AbortSub_eq CleanupSub_eq)
    then show ?thesis using True Cons.prems(3) cur_frames [OF f(1)] by (subst CommitTransactionCommand.simps) simp
  next
    case False
    then have "acc_xids c = []" "blockState c = TBLOCK_SUBABORT_END" using Cons.prems(5) [of c] by (auto simp: acc_xids_def)
    then have "CleanupSubTransaction s = ok ?s1" using f by (simp add: CleanupSub_eq)
    then show ?thesis using \<open>blockState c = TBLOCK_SUBABORT_END\<close> cur_frames [OF f(1)] by (subst CommitTransactionCommand.simps) simp
  qed
  have "xids_ok ?s1"
    using live_xids_Cons_disjoint [OF fok] frames_ok_tl [OF fok f(2)] f(1)
    by (intro xids_ok_abort [OF Cons.prems(4), of "acc_xids c"]) (auto simp: keeps_def)
  with Cons.IH [of ?s1] Cons.prems obtain s' where s': "CommitTransactionCommand False ?s1 = CommitTransactionCommand False s'"
    "frames s' = fs" "xids_ok s'" "keeps ?s1 s'" "written s' = written s" "nextXid s' = nextXid s"
    "currentCommandId s' = currentCommandId s" "currentCommandIdUsed s' = currentCommandIdUsed s"
    "currentSubTransactionId s' \<in> insert (subTransactionId (hd ?gs)) (subTransactionId ` set ?gs)" by auto
  have "keeps s s'" using s'(4) by (simp add: keeps_def)
  moreover have "subTransactionId (hd ?gs) \<in> subTransactionId ` set ?gs" using f(2) by (intro imageI hd_in_set)
  ultimately show ?case using step s' f(1) by (intro exI [of _ s']) auto
qed

section \<open>Ending a transaction\<close>

lemma abs_db_txn:
  assumes "written s' = written s" and "keeps s s'"
  shows "abs_db s' = (abs_db s)\<lparr>txn := abs_txn (written s) (frames s')\<rparr>"
  using assms by (simp add: abs_db_def keeps_def)

lemma frames_ok_reset: "frames_ok [t] \<Longrightarrow> frames_ok [(reset_frame t)\<lparr>blockState := b\<rparr>]"
  by (simp add: frames_ok_def reset_frame_def acc_xids_def own_xids_def TransactionIdIsValid_def)

lemma live_xids_reset [simp]: "acc_xids (reset_frame t) = []"
  by (simp add: acc_xids_def own_xids_def reset_frame_def TransactionIdIsValid_def)

lemma acc_own: "trans_state t \<noteq> TRANS_ABORT \<Longrightarrow> acc_xids t = own_xids t"
  by (simp add: acc_xids_def)

text \<open>A transaction that is rolled back leaves no trace; one that failed waits for ROLLBACK.\<close>

lemma abort_top_ok:
  assumes "frames s = [t]" and "trans_state t \<noteq> TRANS_ABORT" and ok: "xids_ok s"
  obtains s' where "abort_top s = ok s'" and "xids_ok s'" and "abs_db s' = (abs_db s)\<lparr>txn := Idle\<rparr>"
proof -
  let ?s = "s\<lparr>frames := [(reset_frame t)\<lparr>blockState := TBLOCK_DEFAULT\<rparr>], aborted := aborted s @ own_xids t\<rparr>"
  have "xids_ok ?s"
    using ok assms frames_ok_reset acc_own [OF assms(2)]
    by (intro xids_ok_abort [OF ok, of "own_xids t"]) (simp_all add: xids_ok_def keeps_def)
  moreover have "abs_db ?s = (abs_db s)\<lparr>txn := Idle\<rparr>" by (simp add: abs_db_def abs_txn_def)
  ultimately show thesis using that abort_top_eq [OF assms(1)] by blast
qed

lemma cleanup_top_ok:
  assumes "frames s = [t]" and "trans_state t = TRANS_ABORT" and ok: "xids_ok s"
  obtains s' where "then_do (CleanupTransaction s) (\<lambda>s. ok (set_block TBLOCK_DEFAULT s)) = ok s'" and "xids_ok s'"
    and "abs_db s' = (abs_db s)\<lparr>txn := Idle\<rparr>"
proof -
  let ?s = "s\<lparr>frames := [(reset_frame t)\<lparr>blockState := TBLOCK_DEFAULT\<rparr>]\<rparr>"
  have "xids_ok ?s"
    using ok assms frames_ok_reset by (intro xids_ok_abort [OF ok, of "[]"]) (simp_all add: xids_ok_def keeps_def acc_xids_def [of t])
  moreover have "abs_db ?s = (abs_db s)\<lparr>txn := Idle\<rparr>" by (simp add: abs_db_def abs_txn_def)
  ultimately show thesis using that cleanup_top_eq [OF assms(1,2)] by blast
qed

lemma fail_top_ok:
  assumes "frames s = [t]" and "trans_state t \<noteq> TRANS_ABORT" and ok: "xids_ok s"
  shows "xids_ok (set_block TBLOCK_ABORT (AbortTransaction s))"
    and "abs_db (set_block TBLOCK_ABORT (AbortTransaction s)) = (abs_db s)\<lparr>txn := Failed\<rparr>"
proof -
  let ?t = "t\<lparr>trans_state := TRANS_ABORT, blockState := TBLOCK_ABORT\<rparr>"
  let ?s = "s\<lparr>frames := [?t], aborted := aborted s @ own_xids t\<rparr>"
  have e: "set_block TBLOCK_ABORT (AbortTransaction s) = ?s" using assms(1) by (simp add: AbortTransaction_eq upd_cur_def)
  have "acc_xids ?t = []" by (simp add: acc_xids_def)
  moreover have "frames_ok [t]" using ok assms(1) by (simp add: xids_ok_def)
  ultimately have "frames_ok [?t]" by (simp add: frames_ok_def)
  then show "xids_ok (set_block TBLOCK_ABORT (AbortTransaction s))"
    unfolding e using assms acc_own [OF assms(2)] \<open>acc_xids ?t = []\<close>
    by (intro xids_ok_abort [OF ok, of "own_xids t"]) (simp_all add: keeps_def)
  show "abs_db (set_block TBLOCK_ABORT (AbortTransaction s)) = (abs_db s)\<lparr>txn := Failed\<rparr>"
    unfolding e by (simp add: abs_db_def abs_txn_def)
qed

lemma fail_sub_ok:
  assumes f: "frames s = c # fs" and "fs \<noteq> []" and "trans_state c \<noteq> TRANS_ABORT" and ok: "xids_ok s"
  shows "xids_ok (set_block TBLOCK_SUBABORT (AbortSubTransaction s))"
    and "abs_db (set_block TBLOCK_SUBABORT (AbortSubTransaction s)) = (abs_db s)\<lparr>txn := SubFailed (sp_name c) (levels (written s) fs)\<rparr>"
proof -
  let ?c = "(aborted_sub c)\<lparr>blockState := TBLOCK_SUBABORT\<rparr>"
  let ?s = "s\<lparr>frames := ?c # fs, aborted := aborted s @ own_xids c\<rparr>"
  have e: "set_block TBLOCK_SUBABORT (AbortSubTransaction s) = ?s" using f by (simp add: AbortSub_eq upd_cur_def)
  have a: "acc_xids ?c = []" "acc_xids c = own_xids c" using assms(3) by (simp_all add: acc_xids_def)
  have fok: "frames_ok (c # fs)" using ok f by (simp add: xids_ok_def)
  have "parents_ok (?c # fs)" using fok by (cases fs) (auto simp: frames_ok_def)
  moreover have "sorted_wrt (<) (live_xids fs)" using fok by (simp add: frames_ok_def sorted_wrt_append)
  moreover have "childXids ?c = []" if "\<not> TransactionIdIsValid (transactionId ?c)"
    using fok that by (simp add: frames_ok_def aborted_sub_def)
  ultimately have "frames_ok (?c # fs)" using fok a by (simp add: frames_ok_def)
  then show "xids_ok (set_block TBLOCK_SUBABORT (AbortSubTransaction s))"
    unfolding e using f a live_xids_Cons_disjoint [OF fok]
    by (intro xids_ok_abort [OF ok, of "own_xids c"]) (auto simp: keeps_def)
  show "abs_db (set_block TBLOCK_SUBABORT (AbortSubTransaction s)) = (abs_db s)\<lparr>txn := SubFailed (sp_name c) (levels (written s) fs)\<rparr>"
    unfolding e by (simp add: abs_db_def abs_txn_def)
qed

text \<open>A commit makes the items of the transaction durable; a prepared transaction keeps them.\<close>

lemma finish_commit_ok:
  assumes f: "frames s = [t]" and "trans_state t \<noteq> TRANS_ABORT" and ok: "xids_ok s" and "\<not> commit_error s"
  obtains s' where "finish_commit s = ok s'" and "xids_ok s'"
    and "abs_db s' = (abs_db s)\<lparr>durable := durable (abs_db s) + items_of (written s) (set (acc_xids t)), txn := Idle\<rparr>"
proof -
  let ?s = "s\<lparr>handlesDestroyedInCancelQuery := False, frames := [(reset_frame t)\<lparr>blockState := TBLOCK_DEFAULT\<rparr>],
    committed := committed s @ own_xids t\<rparr>"
  have e: "finish_commit s = ok ?s"
    using f assms(4) by (simp add: finish_commit_def CommitTransaction_def Let_def cur_def upd_cur_def own_xids_def)
  have a: "acc_xids t = own_xids t" using acc_own [OF assms(2)] .
  have iok: "ids_ok (set (live_xids [t])) (set (committed s)) (set (aborted s)) (\<Union>p \<in> set (prepared s). set (snd p)) (nextXid s) (written s)"
    using ok f by (simp add: xids_ok_def)
  have "xids_ok ?s"
    using ids_ok_move(1) [OF iok, of "set (own_xids t)" "{}"] ok f a by (simp add: xids_ok_def frames_ok_reset)
  moreover have "set (committed s) \<inter> set (own_xids t) = {}" using ids_okD(6) [OF iok] a by auto
  then have "abs_db ?s = (abs_db s)\<lparr>durable := durable (abs_db s) + items_of (written s) (set (acc_xids t)), txn := Idle\<rparr>"
    by (simp add: abs_db_def abs_txn_def items_of_union a)
  ultimately show thesis using that e by blast
qed

lemma finish_commit_error:
  assumes "commit_error s"
  shows "finish_commit s = Raises (s\<lparr>handlesDestroyedInCancelQuery := False\<rparr>)"
  using assms by (simp add: finish_commit_def CommitTransaction_def Let_def)

lemma GetCurrentTransactionId_top:
  assumes f: "frames s = [t]" and na: "trans_state t \<noteq> TRANS_ABORT" and ok: "xids_ok s"
    and room: "xid_allowed s" "unat (nextXid s) + 1 < 2 ^ 64"
  obtains t' m where "GetCurrentTransactionId s = ok (s\<lparr>frames := [t'], nextXid := m\<rparr>)" and "xids_ok (s\<lparr>frames := [t'], nextXid := m\<rparr>)"
    and "TransactionIdIsValid (transactionId t')" and "same_frame t' t"
    and "items_of (written s) (set (acc_xids t')) = items_of (written s) (set (acc_xids t))"
proof (rule GetCurrentTransactionId_ok [OF ok])
  fix fs m assume r: "GetCurrentTransactionId s = ok (s\<lparr>frames := fs, nextXid := m\<rparr>)" "xids_ok (s\<lparr>frames := fs, nextXid := m\<rparr>)"
    "fs \<noteq> []" "TransactionIdIsValid (transactionId (hd fs))" "list_all2 same_frame fs (frames s)" "levels (written s) fs = levels (written s) (frames s)"
  then obtain t' where "fs = [t']" "same_frame t' t" using f by (auto simp: list_all2_Cons2)
  with r f show thesis by (intro that [where t' = t' and m = m]) (simp_all add: levels_def)
qed (use assms in auto)

lemma finish_prepare_ok:
  assumes f: "frames s = [t]" and na: "trans_state t \<noteq> TRANS_ABORT" and ok: "xids_ok s" and err: "\<not> commit_error s"
    and room: "xid_allowed s" "unat (nextXid s) + 1 < 2 ^ 64"
  obtains s' where "finish_prepare s = ok s'" and "xids_ok s'"
    and "abs_db s' = (abs_db s)\<lparr>prepared_txns := prepared_txns (abs_db s) @ [(prepareGID s, items_of (written s) (set (acc_xids t)))], txn := Idle\<rparr>"
proof -
  obtain t' m where G: "GetCurrentTransactionId s = ok (s\<lparr>frames := [t'], nextXid := m\<rparr>)" and ok1: "xids_ok (s\<lparr>frames := [t'], nextXid := m\<rparr>)"
    and v: "TransactionIdIsValid (transactionId t')" and same: "same_frame t' t"
    and it: "items_of (written s) (set (acc_xids t')) = items_of (written s) (set (acc_xids t))"
    by (rule GetCurrentTransactionId_top [OF f na ok room])
  have "trans_state t' \<noteq> TRANS_ABORT" using na same by (simp add: same_frame_def)
  then have a: "acc_xids t' = transactionId t' # childXids t'" using v by (simp add: acc_xids_def own_xids_def)
  let ?s = "s\<lparr>frames := [(reset_frame t')\<lparr>blockState := TBLOCK_DEFAULT\<rparr>], nextXid := m,
    prepared := prepared s @ [(prepareGID s, acc_xids t')], prepareGID := None\<rparr>"
  have e: "finish_prepare s = ok ?s"
    unfolding finish_prepare_def PrepareTransaction_def G then_do.simps using err by (simp add: a cur_def upd_cur_def)
  have iok: "ids_ok (set (live_xids [t'])) (set (committed s)) (set (aborted s)) (\<Union>p \<in> set (prepared s). set (snd p)) m (written s)"
    using ok1 by (simp add: xids_ok_def)
  have "xids_ok ?s"
    using ids_ok_move(3) [OF iok, of "set (acc_xids t')" "{}"] ok1 by (simp add: xids_ok_def frames_ok_reset Un_commute)
  moreover have "abs_db ?s = (abs_db s)\<lparr>prepared_txns := prepared_txns (abs_db s) @ [(prepareGID s, items_of (written s) (set (acc_xids t)))], txn := Idle\<rparr>"
    by (simp add: abs_db_def abs_txn_def it)
  ultimately show thesis using that e by blast
qed

lemma finish_prepare_error:
  assumes f: "frames s = [t]" and na: "trans_state t \<noteq> TRANS_ABORT" and ok: "xids_ok s" and err: "commit_error s"
    and room: "xid_allowed s" "unat (nextXid s) + 1 < 2 ^ 64"
  obtains t' m where "finish_prepare s = Raises (s\<lparr>frames := [t'], nextXid := m\<rparr>)" and "xids_ok (s\<lparr>frames := [t'], nextXid := m\<rparr>)"
    and "same_frame t' t"
proof -
  obtain t' m where G: "GetCurrentTransactionId s = ok (s\<lparr>frames := [t'], nextXid := m\<rparr>)" and r: "xids_ok (s\<lparr>frames := [t'], nextXid := m\<rparr>)"
    "same_frame t' t" by (rule GetCurrentTransactionId_top [OF f na ok room])
  have "finish_prepare s = Raises (s\<lparr>frames := [t'], nextXid := m\<rparr>)"
    unfolding finish_prepare_def PrepareTransaction_def G then_do.simps using err by simp
  with r that show thesis by blast
qed

section \<open>Opening a level\<close>

definition new_frame :: "string option \<Rightarrow> 'i xact_session \<Rightarrow> TransactionStateData" where
  "new_frame nm s = \<lparr>transactionId = InvalidTransactionId, subTransactionId = currentSubTransactionId s + 1, sp_name = nm,
     savepointLevel = savepointLevel (cur s), trans_state = TRANS_INPROGRESS, blockState = TBLOCK_SUBINPROGRESS,
     nestingLevel = nestingLevel (cur s) + 1, childXids = [], maxChildXids = 0\<rparr>"

definition open_level :: "string option \<Rightarrow> 'i xact_session \<Rightarrow> 'i xact_session" where
  "open_level nm s = s\<lparr>currentSubTransactionId := currentSubTransactionId s + 1, frames := new_frame nm s # frames s\<rparr>"

lemma open_level_ok:
  assumes ok: "xids_ok s" and ne: "frames s \<noteq> []" and lv: "blockState (cur s) \<in> {TBLOCK_INPROGRESS, TBLOCK_SUBINPROGRESS}"
  shows "xids_ok (open_level nm s)" and "abs_db (open_level nm s) = (abs_db s)\<lparr>txn := Active ((nm, {#}) # levels (written s) (frames s))\<rparr>"
proof -
  have a: "acc_xids (new_frame nm s) = []" by (simp add: new_frame_def acc_xids_def own_xids_def TransactionIdIsValid_def)
  have b: "blockState (new_frame nm s) = TBLOCK_SUBINPROGRESS" "sp_name (new_frame nm s) = nm" by (simp_all add: new_frame_def)
  have "frames_ok (new_frame nm s # frames s)"
    using ok ne a by (cases "frames s") (auto simp: xids_ok_def frames_ok_def new_frame_def TransactionIdIsValid_def cur_def)
  then show "xids_ok (open_level nm s)" using a by (intro xids_ok_frames [OF ok]) (simp_all add: open_level_def keeps_def)
  show "abs_db (open_level nm s) = (abs_db s)\<lparr>txn := Active ((nm, {#}) # levels (written s) (frames s))\<rparr>"
    using a by (simp add: open_level_def abs_db_def abs_txn_def levels_def b)
qed

lemma savepoint_opens:
  assumes ne: "frames s \<noteq> []" and lv: "blockState (cur s) \<in> {TBLOCK_INPROGRESS, TBLOCK_SUBINPROGRESS}" and "currentSubTransactionId s + 1 \<noteq> 0"
  shows "then_do (DefineSavepoint (Some nm) s) (CommitTransactionCommand False) = ok (open_level (Some nm) s)"
    and "restart_savepoint False n (savepointLevel (cur s)) s = ok (open_level n s)"
proof -
  have "then_do (DefineSavepoint (Some nm) s) (CommitTransactionCommand False) = then_do (DefineSavepoint (Some nm) s) finish_subbegin"
    using assms by (simp add: DefineSavepoint_def PushTransaction_def Let_def upd_cur_def CommitTransactionCommand.simps cur_def)
  then show "then_do (DefineSavepoint (Some nm) s) (CommitTransactionCommand False) = ok (open_level (Some nm) s)"
    using assms by (simp add: DefineSavepoint_def PushTransaction_def Let_def upd_cur_def finish_subbegin_def StartSubTransaction_def
        open_level_def new_frame_def)
  show "restart_savepoint False n (savepointLevel (cur s)) s = ok (open_level n s)"
    using assms by (simp add: restart_savepoint_def DefineSavepoint_def PushTransaction_def Let_def upd_cur_def finish_subbegin_def
        StartSubTransaction_def open_level_def new_frame_def)
qed

end
