(* ===== verification/Nested_Transactions.thy ===== *)
theory Nested_Transactions
  imports Savepoints
begin

text \<open>
  The statements of a session implement the specification of nested transactions, one lemma per state of the session and kind
  of statement, and the refinement theorem.
\<close>

section \<open>What a statement ends in\<close>

definition handled :: "('i xact_session, unit) outcome \<Rightarrow> 'i xact_session option" where
  "handled r = (case r of Returns _ s \<Rightarrow> Some s
     | Raises s \<Rightarrow> (case AbortCurrentTransaction False s of Returns _ s \<Rightarrow> Some s | _ \<Rightarrow> None) | Dies \<Rightarrow> None)"

definition lands :: "'i db_spec \<Rightarrow> 'i xact_session option \<Rightarrow> bool" where
  "lands d r \<longleftrightarrow> (\<exists>s. r = Some s \<and> xids_ok s \<and> abs_db s = d)"

lemma lands_ok [simp]: "lands d (handled (ok s)) \<longleftrightarrow> xids_ok s \<and> abs_db s = d"
  by (simp add: lands_def handled_def)

lemma lands_raised:
  assumes "AbortCurrentTransaction False s = ok s'" and "xids_ok s'" and "abs_db s' = d"
  shows "lands d (handled (Raises s))"
  using assms by (simp add: lands_def handled_def)

text \<open>Errors: in a statement of its own, while a transaction ends, inside a block, and in a failed block.\<close>

lemma started_error:
  assumes f: "frames s = [t]" "blockState t = TBLOCK_STARTED" and na: "trans_state t \<noteq> TRANS_ABORT" and ok: "xids_ok s"
  shows "lands ((abs_db s)\<lparr>txn := spec_fail (phony_autocommit s) Idle\<rparr>) (handled (Raises s))"
proof (cases "phony_autocommit s")
  case True
  obtain s' where s': "abort_top s = ok s'" "xids_ok s'" "abs_db s' = (abs_db s)\<lparr>txn := Idle\<rparr>"
    by (rule abort_top_ok [OF f(1) na ok])
  then have "AbortCurrentTransaction False s = ok s'"
    using True f by (simp add: AbortCurrentTransaction.simps [of _ s] cur_def)
  then show ?thesis using s' True by (intro lands_raised) simp_all
next
  case False
  then have "AbortCurrentTransaction False s = ok (set_block TBLOCK_ABORT (AbortTransaction s))"
    using f by (simp add: AbortCurrentTransaction.simps [of _ s] cur_def)
  then show ?thesis using fail_top_ok [OF f(1) na ok] False by (intro lands_raised) simp_all
qed

lemma ending_error:
  assumes f: "frames s = [t]" "blockState t \<in> {TBLOCK_END, TBLOCK_PREPARE}" and na: "trans_state t \<noteq> TRANS_ABORT" and ok: "xids_ok s"
  shows "lands ((abs_db s)\<lparr>txn := Idle\<rparr>) (handled (Raises s))"
proof -
  obtain s' where s': "abort_top s = ok s'" "xids_ok s'" "abs_db s' = (abs_db s)\<lparr>txn := Idle\<rparr>"
    by (rule abort_top_ok [OF f(1) na ok])
  then have "AbortCurrentTransaction False s = ok s'"
    using f by (auto simp: AbortCurrentTransaction.simps [of _ s] cur_def)
  then show ?thesis using s' by (intro lands_raised) simp_all
qed

lemma txn_live: "live (frames s) \<Longrightarrow> txn (abs_db s) = Active (levels (written s) (frames s))"
  using live_blockState [of "frames s"] by (auto simp: abs_db_def abs_txn_def)

lemma live_na:
  assumes "live fs" and "f \<in> set fs"
  shows "trans_state f \<noteq> TRANS_ABORT"
  using assms by (induction fs rule: live.induct) auto

lemma live_error:
  assumes lv: "live (frames s)" and ok: "xids_ok s" and h: "\<not> handlesDestroyedInCancelQuery s"
  shows "lands ((abs_db s)\<lparr>txn := spec_fail auto (txn (abs_db s))\<rparr>) (handled (Raises s))"
proof -
  obtain c fs where f: "frames s = c # fs" using lv by (cases "frames s") auto
  have na: "trans_state c \<noteq> TRANS_ABORT" using live_na [OF lv] f by simp
  show ?thesis
  proof (cases fs)
    case Nil
    then have "AbortCurrentTransaction False s = ok (set_block TBLOCK_ABORT (AbortTransaction s))"
      using f lv by (simp add: AbortCurrentTransaction.simps [of _ s] cur_def)
    then show ?thesis using fail_top_ok [of s c] na ok f Nil
      by (intro lands_raised) (simp_all add: txn_live [OF lv] levels_def)
  next
    case (Cons d gs)
    have b: "blockState c = TBLOCK_SUBINPROGRESS" "live fs" using lv f Cons by simp_all
    have "top_block s \<noteq> TBLOCK_STARTED" using live_top [OF lv] by (simp add: top_block_def)
    then have "AbortCurrentTransaction False s = ok (set_block TBLOCK_SUBABORT (AbortSubTransaction s))"
      using f b h by (simp add: AbortCurrentTransaction.simps [of _ s] cur_def AbortSub_eq upd_cur_def)
    then show ?thesis using fail_sub_ok [OF f _ na ok] Cons
      by (intro lands_raised) (simp_all add: txn_live [OF lv] f levels_def)
  qed
qed

lemma failed_error:
  assumes "IsAbortedTransactionBlockState s" and "xids_ok s"
  shows "lands (abs_db s) (handled (Raises s))"
  using assms by (intro lands_raised [of s s]) (auto simp: AbortCurrentTransaction.simps [of _ s] IsAbortedTransactionBlockState_def)

text \<open>The end of a statement inside a block.\<close>

lemma xids_ok_cci: "CommandCounterIncrement s = ok s' \<Longrightarrow> frames s' = frames s \<Longrightarrow> keeps s s' \<Longrightarrow> aborted s' = aborted s \<Longrightarrow>
    nextXid s' = nextXid s \<Longrightarrow> written s' = written s \<Longrightarrow> xids_ok s \<Longrightarrow> xids_ok s' \<and> abs_db s' = abs_db s"
  using abs_db_txn [of s' s] by (simp add: xids_ok_def keeps_def abs_db_def)

lemma live_command_end:
  assumes lv: "live (frames s)" and ok: "xids_ok s" and cci: "cci_ok s"
  shows "lands (abs_db s) (handled (CommitTransactionCommand False s))"
proof -
  obtain s' where s': "CommandCounterIncrement s = ok s'" "frames s' = frames s" "keeps s s'" "aborted s' = aborted s"
    "nextXid s' = nextXid s" "written s' = written s" by (rule CCI_ok [OF cci])
  have "top_block s' \<noteq> TBLOCK_STARTED" using live_top [OF lv] s'(2) by (simp add: top_block_def)
  then have "CommitTransactionCommand False s = ok s'"
    using live_blockState [OF lv] s'(1) by (auto simp: CommitTransactionCommand.simps [of _ s] cur_def)
  then show ?thesis using xids_ok_cci [OF s' ok] by simp
qed

section \<open>Room\<close>

text \<open>
  None of the counters is exhausted: transaction ids, command ids, subtransaction ids, the array of subcommitted children. No
  procedure has left its exception counter set.
\<close>

definition room :: "'i xact_session \<Rightarrow> bool" where
  "room s \<longleftrightarrow> xid_allowed s \<and> unat (nextXid s) + length (frames s) + 1 < 2 ^ 64 \<and> currentCommandId s + 1 \<noteq> InvalidCommandId \<and>
     currentSubTransactionId s + 1 \<noteq> 0 \<and> (\<forall>f \<in> set (frames s). subTransactionId f + 1 \<noteq> 0) \<and>
     length (live_xids (frames s)) \<le> MaxChildXids \<and> portal_stp_exception_counter s = 0"

lemma room_cci: "room s \<Longrightarrow> cci_ok s"
  by (simp add: room_def cci_ok_def)

section \<open>Statements outside a transaction block\<close>

text \<open>The transaction that \<open>StartTransactionCommand\<close> starts.\<close>

lemma StartTransaction_ok:
  assumes idle: "frames s = [t]" "blockState t = TBLOCK_DEFAULT" and ok: "xids_ok s" and h: "\<not> handlesDestroyedInCancelQuery s"
    and sp: "sp_name t = None" and nv: "\<not> TransactionIdIsValid (transactionId t)"
  obtains s' t' where "StartTransactionCommand False s = ok s'" and "frames s' = [t']" and "blockState t' = TBLOCK_STARTED"
    and "trans_state t' = TRANS_INPROGRESS" and "sp_name t' = None" and "nestingLevel t' = 1" and "acc_xids t' = []" and "xids_ok s'" and "keeps s s'"
    and "abs_db s = (abs_db s')\<lparr>txn := Idle\<rparr>" and "nextXid s' = nextXid s"
proof -
  let ?t = "t\<lparr>transactionId := InvalidTransactionId, subTransactionId := 1, trans_state := TRANS_INPROGRESS, nestingLevel := 1,
    childXids := [], maxChildXids := 0, blockState := TBLOCK_STARTED\<rparr>"
  let ?s = "s\<lparr>frames := [?t], currentSubTransactionId := 1, currentCommandId := 0, currentCommandIdUsed := False,
    handlesDestroyedInCancelQuery := False\<rparr>"
  have a: "acc_xids ?t = []" by (simp add: acc_xids_def own_xids_def TransactionIdIsValid_def)
  have st: "StartTransactionCommand False s = ok ?s"
    using idle by (simp add: StartTransactionCommand_def StartTransaction_def cur_def upd_cur_def)
  have "frames_ok [?t]" using ok idle(1) a by (simp add: xids_ok_def frames_ok_def)
  moreover have "acc_xids t = []" using nv by (simp add: acc_xids_def own_xids_def)
  ultimately have "xids_ok ?s" using a idle(1) by (intro xids_ok_frames [OF ok]) (simp_all add: keeps_def h)
  moreover have "abs_db s = (abs_db ?s)\<lparr>txn := Idle\<rparr>" using idle by (simp add: abs_db_def abs_txn_def)
  ultimately show thesis using that [where s' = ?s and t' = ?t] st a h sp by (simp add: keeps_def)
qed

text \<open>A statement of its own commits at its end, if that does not fail.\<close>

lemma started_end:
  assumes f: "frames s = [t]" "blockState t = TBLOCK_STARTED" and na: "trans_state t \<noteq> TRANS_ABORT" and ok: "xids_ok s"
  shows "lands (if commit_error s then (abs_db s)\<lparr>txn := spec_fail (phony_autocommit s) Idle\<rparr>
      else (abs_db s)\<lparr>durable := durable (abs_db s) + items_of (written s) (set (acc_xids t)), txn := Idle\<rparr>)
    (handled (CommitTransactionCommand False s))"
proof -
  have e: "CommitTransactionCommand False s = finish_commit s" using f by (simp add: CommitTransactionCommand.simps [of _ s] cur_def)
  show ?thesis
  proof (cases "commit_error s")
    case True
    let ?s = "s\<lparr>handlesDestroyedInCancelQuery := False\<rparr>"
    have "xids_ok ?s" "abs_db ?s = abs_db s" using ok by (simp_all add: xids_ok_def abs_db_def)
    then show ?thesis using started_error [of ?s t] f na True by (simp add: e finish_commit_error)
  next
    case False
    show ?thesis by (rule finish_commit_ok [OF f(1) na ok False]) (simp add: e False)
  qed
qed

lemma started_statement:
  assumes f: "frames s = [t]" "blockState t = TBLOCK_STARTED" and tr: "trans_state t = TRANS_INPROGRESS" and sp: "sp_name t = None"
    and nl: "nestingLevel t = 1" and a: "acc_xids t = []" and ok: "xids_ok s" and rm: "xid_allowed s" "unat (nextXid s) + 1 < 2 ^ 64"
  shows "lands (spec_step (phony_autocommit s) (nested_begin_warns s) (commit_error s) stmt ((abs_db s)\<lparr>txn := Idle\<rparr>))
    (handled (then_do (ProcessUtility stmt s) (CommitTransactionCommand False)))"
proof -
  note c = cur_frames [OF f(1)]
  have na: "trans_state t \<noteq> TRANS_ABORT" using tr by simp
  have req: "RequireTransactionChain True s = Raises s"
    using f nl by (simp add: RequireTransactionChain_def IsTransactionBlock_def IsSubTransaction_def c)
  note err = started_error [OF f na ok]
  note fin = started_end [OF f na ok, unfolded a, simplified]
  show ?thesis
  proof (cases stmt)
    case TRANS_STMT_BEGIN
    let ?s = "s\<lparr>frames := [t\<lparr>blockState := TBLOCK_INPROGRESS\<rparr>]\<rparr>"
    have "then_do (ProcessUtility stmt s) (CommitTransactionCommand False) = ok ?s"
      using f by (simp add: TRANS_STMT_BEGIN BeginTransactionBlock_def c upd_cur_def CommitTransactionCommand.simps cur_def)
    moreover have "xids_ok ?s" using ok f(1) a by (simp add: xids_ok_def frames_ok_def)
    moreover have "abs_db ?s = (abs_db s)\<lparr>txn := Active [(None, {#})]\<rparr>" using a sp by (simp add: abs_db_def abs_txn_def levels_def)
    ultimately show ?thesis by (simp add: TRANS_STMT_BEGIN)
  next
    case TRANS_STMT_COMMIT
    then show ?thesis using fin f by (simp add: EndTransactionBlock_def c split: if_splits)
  next
    case TRANS_STMT_ROLLBACK
    let ?s = "set_block TBLOCK_ABORT_PENDING s"
    have f': "frames ?s = [t\<lparr>blockState := TBLOCK_ABORT_PENDING\<rparr>]" using f by (simp add: upd_cur_def)
    have na': "trans_state (t\<lparr>blockState := TBLOCK_ABORT_PENDING\<rparr>) \<noteq> TRANS_ABORT" using tr by simp
    have "xids_ok ?s" using ok f by (simp add: xids_ok_def upd_cur_def frames_ok_def)
    then obtain s' where s': "abort_top ?s = ok s'" "xids_ok s'" "abs_db s' = (abs_db ?s)\<lparr>txn := Idle\<rparr>"
      by (rule abort_top_ok [OF f' na'])
    have "then_do (ProcessUtility stmt s) (CommitTransactionCommand False) = abort_top ?s"
      using f f' by (simp add: TRANS_STMT_ROLLBACK UserAbortTransactionBlock_def c CommitTransactionCommand.simps cur_def abort_top_def)
    moreover have "(abs_db ?s)\<lparr>txn := Idle\<rparr> = (abs_db s)\<lparr>txn := Idle\<rparr>" using f by (simp add: abs_db_def upd_cur_def)
    ultimately show ?thesis using s' by (simp add: TRANS_STMT_ROLLBACK)
  next
    case (TRANS_STMT_PREPARE gid)
    then show ?thesis using fin f by (simp add: PrepareTransactionBlock_def EndTransactionBlock_def c top_block_def split: if_splits)
  next
    case (DML "is" fails)
    obtain s' where w: "write_items is s = ok s'" "xids_ok s'" "list_all2 same_frame (frames s') (frames s)" "keeps s s'"
      and lev: "levels (written s') (frames s') = (fst (hd (levels (written s) (frames s))), snd (hd (levels (written s) (frames s))) + mset is) #
        tl (levels (written s) (frames s))"
      and d: "durable (abs_db s') = durable (abs_db s)" "prepared_txns (abs_db s') = prepared_txns (abs_db s)"
      by (rule write_items_ok [OF ok, of "is"]) (use f na rm in auto)
    obtain t' where t': "frames s' = [t']" "same_frame t' t" using w(3) f by (auto simp: list_all2_Cons2)
    have t'': "blockState t' = TBLOCK_STARTED" "trans_state t' \<noteq> TRANS_ABORT" using t'(2) f(2) tr by (simp_all add: same_frame_def)
    have it: "items_of (written s') (set (acc_xids t')) = mset is" using lev f t' a by (simp add: levels_def)
    have db: "(abs_db s')\<lparr>txn := x\<rparr> = (abs_db s)\<lparr>txn := x\<rparr>" "(abs_db s')\<lparr>durable := y, txn := x\<rparr> = (abs_db s)\<lparr>durable := y, txn := x\<rparr>"
      "(abs_db s)\<lparr>txn := x, durable := y\<rparr> = (abs_db s)\<lparr>durable := y, txn := x\<rparr>" for x y using d by simp_all
    have k: "phony_autocommit s' = phony_autocommit s" "commit_error s' = commit_error s" using w(4) by (simp_all add: keeps_def)
    show ?thesis
      using started_error [OF t'(1) t'' w(2)] started_end [OF t'(1) t'' w(2)] w(1) d k
      by (simp add: DML it db split: if_splits)
  qed (use err req in simp_all)
qed

section \<open>Marks\<close>

text \<open>The loops over the stack change only the block states.\<close>

lemma marked_frames:
  fixes b :: "TransactionStateData \<Rightarrow> TBlockState"
  shows "live_xids (map (\<lambda>f. f\<lparr>blockState := b f\<rparr>) fs) = live_xids fs"
    and "levels W (map (\<lambda>f. f\<lparr>blockState := b f\<rparr>) fs) = levels W fs"
    and "parents_ok (map (\<lambda>f. f\<lparr>blockState := b f\<rparr>) fs) = parents_ok fs"
    and "frames_ok (map (\<lambda>f. f\<lparr>blockState := b f\<rparr>) fs) = frames_ok fs"
proof -
  show l: "live_xids (map (\<lambda>f. f\<lparr>blockState := b f\<rparr>) fs) = live_xids fs" by (induction fs) simp_all
  show "levels W (map (\<lambda>f. f\<lparr>blockState := b f\<rparr>) fs) = levels W fs" by (simp add: levels_def)
  show p: "parents_ok (map (\<lambda>f. f\<lparr>blockState := b f\<rparr>) fs) = parents_ok fs" by (induction fs rule: parents_ok.induct) simp_all
  show "frames_ok (map (\<lambda>f. f\<lparr>blockState := b f\<rparr>) fs) = frames_ok fs" using l p by (simp add: frames_ok_def)
qed

lemma frames_ok_unmarked:
  assumes "map (\<lambda>f. f\<lparr>blockState := TBLOCK_DEFAULT\<rparr>) gs = map (\<lambda>f. f\<lparr>blockState := TBLOCK_DEFAULT\<rparr>) fs"
  shows "frames_ok gs = frames_ok fs"
  using assms marked_frames(4) [of "\<lambda>_. TBLOCK_DEFAULT"] by metis

lemma xids_ok_marked:
  assumes ok: "xids_ok s" and fs: "frames s' = map (\<lambda>f. f\<lparr>blockState := b f\<rparr>) (frames s)" and "committed s' = committed s" "prepared s' = prepared s"
    "aborted s' = aborted s" "nextXid s' = nextXid s" "written s' = written s"
  shows "xids_ok s'"
  using ok assms(3-7) by (simp add: xids_ok_def fs marked_frames)

lemma abs_db_same:
  assumes "committed s' = committed s" and "prepared s' = prepared s" and "written s' = written s"
  shows "durable (abs_db s') = durable (abs_db s)" and "prepared_txns (abs_db s') = prepared_txns (abs_db s)"
    and "(abs_db s')\<lparr>txn := x\<rparr> = (abs_db s)\<lparr>txn := x\<rparr>"
    and "(abs_db s')\<lparr>durable := d, txn := x\<rparr> = (abs_db s)\<lparr>durable := d, txn := x\<rparr>"
    and "(abs_db s')\<lparr>prepared_txns := q, txn := x\<rparr> = (abs_db s)\<lparr>prepared_txns := q, txn := x\<rparr>"
  using assms by (simp_all add: abs_db_def)

definition sub_block :: "TransactionStateData \<Rightarrow> bool" where
  "sub_block f \<longleftrightarrow> blockState f = TBLOCK_SUBINPROGRESS \<and> trans_state f = TRANS_INPROGRESS \<or>
     blockState f = TBLOCK_SUBABORT \<and> trans_state f = TRANS_ABORT"

lemma live_split:
  assumes "live fs"
  obtains xs t where "fs = xs @ [t]" and "blockState t = TBLOCK_INPROGRESS" and "trans_state t = TRANS_INPROGRESS"
    and "\<And>f. f \<in> set xs \<Longrightarrow> blockState f = TBLOCK_SUBINPROGRESS \<and> trans_state f = TRANS_INPROGRESS"
  using assms
proof (induction fs arbitrary: thesis rule: live.induct)
  case (3 s p ps)
  obtain xs t where "p # ps = xs @ [t]" "blockState t = TBLOCK_INPROGRESS" "trans_state t = TRANS_INPROGRESS"
    "\<And>f. f \<in> set xs \<Longrightarrow> blockState f = TBLOCK_SUBINPROGRESS \<and> trans_state f = TRANS_INPROGRESS"
    by (rule "3.IH") (use "3.prems"(2) in simp_all)
  moreover have "blockState s = TBLOCK_SUBINPROGRESS" "trans_state s = TRANS_INPROGRESS" using "3.prems"(2) by simp_all
  ultimately show ?case by (intro "3.prems"(1) [of "s # xs" t]) auto
qed auto

lemma mark_commit_eq:
  assumes "\<And>f. f \<in> set xs \<Longrightarrow> blockState f = TBLOCK_SUBINPROGRESS" and "blockState t = TBLOCK_INPROGRESS"
  shows "mark_commit (xs @ [t]) = Some (map (\<lambda>f. f\<lparr>blockState := TBLOCK_SUBCOMMIT\<rparr>) xs @ [t\<lparr>blockState := TBLOCK_END\<rparr>])"
  using assms
proof (induction xs)
  case (Cons f xs)
  then show ?case by (cases xs) auto
qed simp

definition abort_mark :: "TransactionStateData \<Rightarrow> TBlockState" where
  "abort_mark f = (if blockState f = TBLOCK_SUBINPROGRESS then TBLOCK_SUBABORT_PENDING else TBLOCK_SUBABORT_END)"

definition restart_mark :: "TransactionStateData \<Rightarrow> TBlockState" where
  "restart_mark f = (if blockState f = TBLOCK_SUBINPROGRESS then TBLOCK_SUBRESTART else TBLOCK_SUBABORT_RESTART)"

lemma mark_abort_eq:
  assumes "\<And>f. f \<in> set xs \<Longrightarrow> sub_block f" and "blockState t = TBLOCK_INPROGRESS"
  shows "SubTransactionBlockAbort (xs @ [t]) = Some (map (\<lambda>f. f\<lparr>blockState := abort_mark f\<rparr>) xs @ [t\<lparr>blockState := TBLOCK_ABORT_PENDING\<rparr>])"
  using assms
proof (induction xs)
  case (Cons f xs)
  then have "sub_block f" by simp
  with Cons show ?case by (cases xs) (auto simp: abort_mark_def sub_block_def)
qed simp

lemma mark_rollback_eq:
  assumes "\<And>f. f \<in> set xs \<Longrightarrow> sub_block f" and "sub_block f"
  shows "mark_rollback_to (length xs) (xs @ f # ps) =
    Some (map (\<lambda>f. f\<lparr>blockState := abort_mark f\<rparr>) xs @ f\<lparr>blockState := restart_mark f\<rparr> # ps)"
  using assms
proof (induction xs)
  case Nil
  then show ?case by (auto simp: restart_mark_def sub_block_def)
next
  case (Cons g xs)
  then have "sub_block g" by simp
  with Cons show ?case by (auto simp: abort_mark_def sub_block_def)
qed

section \<open>Committing a block\<close>

text \<open>All levels are merged into the top-level transaction, which then commits or is prepared.\<close>

lemma commit_levels:
  assumes f: "frames s = xs @ [t]" and sub: "\<And>f. f \<in> set xs \<Longrightarrow> blockState f = TBLOCK_SUBCOMMIT" and t: "blockState t \<in> {TBLOCK_END, TBLOCK_PREPARE}"
    and na: "\<And>f. f \<in> set (frames s) \<Longrightarrow> trans_state f \<noteq> TRANS_ABORT" and ok: "xids_ok s" and cci: "cci_ok s"
    and len: "length (live_xids (frames s)) \<le> MaxChildXids"
  obtains s' t' where "CommitTransactionCommand False s = (if blockState t = TBLOCK_END then finish_commit s' else finish_prepare s')"
    and "frames s' = [t']" and "blockState t' = blockState t" and "trans_state t' \<noteq> TRANS_ABORT" and "acc_xids t' = live_xids (frames s)"
    and "xids_ok s'" and "keeps s s'" and "written s' = written s" and "nextXid s' = nextXid s"
proof (cases xs)
  case Nil
  then have "CommitTransactionCommand False s = (if blockState t = TBLOCK_END then finish_commit s else finish_prepare s)"
    using f t by (auto simp: CommitTransactionCommand.simps [of _ s] cur_def)
  then show thesis using f Nil na [of t] ok by (intro that [where s' = s and t' = t]) simp_all
next
  case (Cons c ys)
  obtain s' t' where s': "commit_subs_while TBLOCK_SUBCOMMIT s = ok s'" "frames s' = [t']" "same_frame t' t"
    "acc_xids t' = acc_xids t @ live_xids (c # ys)" "xids_ok s'" "keeps s s'" "written s' = written s" "nextXid s' = nextXid s"
    using commit_subs_ok [of s c ys t "[]" TBLOCK_SUBCOMMIT] f sub t na ok cci len Cons by auto
  have b: "blockState t' = blockState t" "trans_state t' = trans_state t" using s'(3) by (simp_all add: same_frame_def)
  have "CommitTransactionCommand False s = (if blockState t = TBLOCK_END then finish_commit s' else finish_prepare s')"
    using f Cons sub [of c] s'(1,2) b t by (auto simp: CommitTransactionCommand.simps [of _ s] cur_def)
  moreover have "acc_xids t' = live_xids (frames s)" using s'(4) f Cons by (simp add: live_xids_append)
  ultimately show thesis using s' b na [of t] f by (intro that [where s' = s' and t' = t']) simp_all
qed

definition end_mark :: "TBlockState \<Rightarrow> TransactionStateData \<Rightarrow> TBlockState" where
  "end_mark e f = (if blockState f = TBLOCK_INPROGRESS then e else TBLOCK_SUBCOMMIT)"

definition end_marked :: "TBlockState \<Rightarrow> string option \<Rightarrow> 'i xact_session \<Rightarrow> 'i xact_session" where
  "end_marked e g s = s\<lparr>frames := map (\<lambda>f. f\<lparr>blockState := end_mark e f\<rparr>) (frames s), prepareGID := g\<rparr>"

lemma EndTransactionBlock_live:
  assumes "live (frames s)"
  shows "EndTransactionBlock s = Returns True (end_marked TBLOCK_END (prepareGID s) s)"
proof -
  obtain xs t where fs: "frames s = xs @ [t]" and t: "blockState t = TBLOCK_INPROGRESS" "trans_state t = TRANS_INPROGRESS"
    and xs: "\<And>f. f \<in> set xs \<Longrightarrow> blockState f = TBLOCK_SUBINPROGRESS \<and> trans_state f = TRANS_INPROGRESS" by (rule live_split [OF assms]) blast
  have "map (\<lambda>f. f\<lparr>blockState := TBLOCK_SUBCOMMIT\<rparr>) xs @ [t\<lparr>blockState := TBLOCK_END\<rparr>] =
      map (\<lambda>f. f\<lparr>blockState := end_mark TBLOCK_END f\<rparr>) (frames s)" using fs xs t by (auto simp: end_mark_def)
  with mark_commit_eq [of xs t] xs t fs
  have "mark_commit (frames s) = Some (map (\<lambda>f. f\<lparr>blockState := end_mark TBLOCK_END f\<rparr>) (frames s))" by simp
  then show ?thesis using t xs fs
    by (cases xs) (auto simp: EndTransactionBlock_def with_frames_def cur_def upd_cur_def end_marked_def end_mark_def)
qed

lemma merged_levels:
  assumes lv: "live (frames s)" and ok: "xids_ok s" and rm: "room s" and e: "e \<in> {TBLOCK_END, TBLOCK_PREPARE}"
  obtains s' t' where "CommitTransactionCommand False (end_marked e g s) = (if e = TBLOCK_END then finish_commit s' else finish_prepare s')"
    and "frames s' = [t']" and "blockState t' = e" and "trans_state t' \<noteq> TRANS_ABORT" and "xids_ok s'"
    and "items_of (written s') (set (acc_xids t')) = all_items (levels (written s) (frames s))" and "keeps (s\<lparr>prepareGID := g\<rparr>) s'"
    and "written s' = written s" and "nextXid s' = nextXid s"
proof -
  obtain xs t where fs: "frames s = xs @ [t]" and t: "blockState t = TBLOCK_INPROGRESS" "trans_state t = TRANS_INPROGRESS"
    and xs: "\<And>f. f \<in> set xs \<Longrightarrow> blockState f = TBLOCK_SUBINPROGRESS \<and> trans_state f = TRANS_INPROGRESS" by (rule live_split [OF lv]) blast
  let ?s = "end_marked e g s"
  let ?t = "t\<lparr>blockState := end_mark e t\<rparr>"
  have fm: "frames ?s = map (\<lambda>f. f\<lparr>blockState := end_mark e f\<rparr>) (frames s)" by (simp add: end_marked_def)
  have ok1: "xids_ok ?s" by (rule xids_ok_marked [OF ok fm]) (simp_all add: end_marked_def)
  have lx: "live_xids (frames ?s) = live_xids (frames s)" unfolding fm by (rule marked_frames)
  have et: "blockState ?t = e" using t by (simp add: end_mark_def)
  obtain s' t' where s': "CommitTransactionCommand False ?s = (if blockState ?t = TBLOCK_END then finish_commit s' else finish_prepare s')"
    "frames s' = [t']" "blockState t' = blockState ?t" "trans_state t' \<noteq> TRANS_ABORT" "acc_xids t' = live_xids (frames ?s)" "xids_ok s'"
    "keeps ?s s'" "written s' = written ?s" "nextXid s' = nextXid ?s"
  proof (rule commit_levels [of ?s "map (\<lambda>f. f\<lparr>blockState := end_mark e f\<rparr>) xs" ?t])
    show "cci_ok ?s" using room_cci [OF rm] by (simp add: cci_ok_def end_marked_def)
    show "length (live_xids (frames ?s)) \<le> MaxChildXids" using rm lx by (simp add: room_def)
  qed (use xs t ok1 fs fm e et in \<open>auto simp: end_mark_def\<close>)
  have "items_of (written s') (set (acc_xids t')) = all_items (levels (written s) (frames s))"
    using all_items_levels [where fs = "frames s" and W = "written s"] ok sorted_distinct s'(5,8)
    by (simp add: marked_frames end_marked_def xids_ok_def frames_ok_def)
  then show thesis using s' et by (intro that [where s' = s' and t' = t']) (simp_all add: keeps_def end_marked_def)
qed

lemma live_commit:
  assumes lv: "live (frames s)" and ok: "xids_ok s" and rm: "room s"
  shows "lands (spec_step auto warns (commit_error s) TRANS_STMT_COMMIT (abs_db s))
    (handled (then_do (ProcessUtility TRANS_STMT_COMMIT s) (CommitTransactionCommand False)))"
proof -
  obtain s' t' where s': "CommitTransactionCommand False (end_marked TBLOCK_END (prepareGID s) s) = finish_commit s'" "frames s' = [t']"
    "blockState t' = TBLOCK_END" "trans_state t' \<noteq> TRANS_ABORT" "xids_ok s'"
    "items_of (written s') (set (acc_xids t')) = all_items (levels (written s) (frames s))" "keeps s s'" "written s' = written s"
    by (rule merged_levels [OF lv ok rm, of TBLOCK_END "prepareGID s"]) simp_all
  have run: "then_do (ProcessUtility TRANS_STMT_COMMIT s) (CommitTransactionCommand False) = finish_commit s'"
    using EndTransactionBlock_live [OF lv] s'(1) by simp
  have k: "committed s' = committed s" "prepared s' = prepared s" "commit_error s' = commit_error s" using s'(7) by (simp_all add: keeps_def)
  note db = abs_db_same [OF k(1,2) s'(8)]
  have "lands (spec_step auto warns (commit_error s) TRANS_STMT_COMMIT (abs_db s)) (handled (finish_commit s'))"
  proof (cases "commit_error s")
    case True
    let ?r = "s'\<lparr>handlesDestroyedInCancelQuery := False\<rparr>"
    have "xids_ok ?r" "abs_db ?r = abs_db s'" using s'(5) by (simp_all add: xids_ok_def abs_db_def)
    then show ?thesis using ending_error [of ?r t'] s'(2-4) True k(3) db by (simp add: finish_commit_error txn_live [OF lv])
  next
    case False
    then have "\<not> commit_error s'" using k(3) by simp
    then show ?thesis
      by (rule finish_commit_ok [OF s'(2,4,5)]) (use False db s'(6) in \<open>simp add: txn_live [OF lv]\<close>)
  qed
  then show ?thesis unfolding run .
qed

lemma PrepareTransactionBlock_live:
  assumes "live (frames s)"
  shows "PrepareTransactionBlock gid s = Returns True (end_marked TBLOCK_PREPARE (Some gid) s)"
proof -
  obtain xs t where fs: "frames s = xs @ [t]" and t: "blockState t = TBLOCK_INPROGRESS" "trans_state t = TRANS_INPROGRESS"
    and xs: "\<And>f. f \<in> set xs \<Longrightarrow> blockState f = TBLOCK_SUBINPROGRESS \<and> trans_state f = TRANS_INPROGRESS" by (rule live_split [OF assms]) blast
  then show ?thesis
    by (simp add: PrepareTransactionBlock_def EndTransactionBlock_live [OF assms] top_block_def end_marked_def end_mark_def)
qed

lemma live_prepare:
  assumes lv: "live (frames s)" and ok: "xids_ok s" and rm: "room s"
  shows "lands (spec_step auto warns (commit_error s) (TRANS_STMT_PREPARE gid) (abs_db s))
    (handled (then_do (ProcessUtility (TRANS_STMT_PREPARE gid) s) (CommitTransactionCommand False)))"
proof -
  obtain s' t' where s': "CommitTransactionCommand False (end_marked TBLOCK_PREPARE (Some gid) s) = finish_prepare s'" "frames s' = [t']"
    "blockState t' = TBLOCK_PREPARE" "trans_state t' \<noteq> TRANS_ABORT" "xids_ok s'"
    "items_of (written s') (set (acc_xids t')) = all_items (levels (written s) (frames s))" "keeps (s\<lparr>prepareGID := Some gid\<rparr>) s'"
    "written s' = written s" "nextXid s' = nextXid s"
    by (rule merged_levels [OF lv ok rm, of TBLOCK_PREPARE "Some gid"]) simp_all
  have run: "then_do (ProcessUtility (TRANS_STMT_PREPARE gid) s) (CommitTransactionCommand False) = finish_prepare s'"
    using PrepareTransactionBlock_live [OF lv] s'(1) by simp
  have k: "committed s' = committed s" "prepared s' = prepared s" "commit_error s' = commit_error s" "prepareGID s' = Some gid"
    "xid_allowed s'" "unat (nextXid s') + 1 < 2 ^ 64" using s'(7,9) rm by (simp_all add: keeps_def room_def)
  note db = abs_db_same [OF k(1,2) s'(8)]
  have "lands (spec_step auto warns (commit_error s) (TRANS_STMT_PREPARE gid) (abs_db s)) (handled (finish_prepare s'))"
  proof (cases "commit_error s")
    case True
    then have "commit_error s'" using k(3) by simp
    then obtain t2 m where p: "finish_prepare s' = Raises (s'\<lparr>frames := [t2], nextXid := m\<rparr>)" "xids_ok (s'\<lparr>frames := [t2], nextXid := m\<rparr>)"
      "same_frame t2 t'" by (rule finish_prepare_error [OF s'(2,4,5) _ k(5,6)])
    have "(abs_db (s'\<lparr>frames := [t2], nextXid := m\<rparr>))\<lparr>txn := Idle\<rparr> = (abs_db s)\<lparr>txn := Idle\<rparr>"
      using db(3) by (simp add: abs_db_def)
    moreover have "blockState t2 = TBLOCK_PREPARE" "trans_state t2 \<noteq> TRANS_ABORT" using p(3) s'(3,4) by (simp_all add: same_frame_def)
    ultimately show ?thesis using ending_error [of "s'\<lparr>frames := [t2], nextXid := m\<rparr>" t2] p True by (simp add: txn_live [OF lv])
  next
    case False
    then have "\<not> commit_error s'" using k(3) by simp
    then show ?thesis
      by (rule finish_prepare_ok [OF s'(2,4,5) _ k(5,6)]) (use False db s'(6) k(4) in \<open>simp add: txn_live [OF lv]\<close>)
  qed
  then show ?thesis unfolding run .
qed

section \<open>Rolling back\<close>

lemma sub_block_pending:
  assumes "\<And>f. f \<in> set xs \<Longrightarrow> sub_block f" and "g \<in> set (map (\<lambda>f. f\<lparr>blockState := abort_mark f\<rparr>) xs)"
  shows "blockState g = TBLOCK_SUBABORT_PENDING \<and> trans_state g \<noteq> TRANS_ABORT \<or> blockState g = TBLOCK_SUBABORT_END \<and> trans_state g = TRANS_ABORT"
proof -
  obtain f where "g = f\<lparr>blockState := abort_mark f\<rparr>" "sub_block f" using assms by auto
  then show ?thesis by (auto simp: sub_block_def abort_mark_def)
qed

text \<open>A whole block, failed levels included.\<close>

lemma abort_block:
  assumes fs: "frames s = xs @ [t]" and xs: "\<And>f. f \<in> set xs \<Longrightarrow> sub_block f" and t: "blockState t = TBLOCK_INPROGRESS" "trans_state t = TRANS_INPROGRESS"
    and ok: "xids_ok s" and h: "\<not> handlesDestroyedInCancelQuery s"
  shows "lands ((abs_db s)\<lparr>txn := Idle\<rparr>) (handled (CommitTransactionCommand False
    (s\<lparr>frames := map (\<lambda>f. f\<lparr>blockState := abort_mark f\<rparr>) xs @ [t\<lparr>blockState := TBLOCK_ABORT_PENDING\<rparr>]\<rparr>)))"
proof -
  let ?b = "\<lambda>f. if blockState f = TBLOCK_INPROGRESS then TBLOCK_ABORT_PENDING else abort_mark f"
  let ?xs = "map (\<lambda>f. f\<lparr>blockState := abort_mark f\<rparr>) xs"
  let ?t = "t\<lparr>blockState := TBLOCK_ABORT_PENDING\<rparr>"
  let ?s = "s\<lparr>frames := ?xs @ [?t]\<rparr>"
  have nb: "blockState f \<noteq> TBLOCK_INPROGRESS" if "f \<in> set xs" for f using xs [OF that] by (auto simp: sub_block_def)
  have "frames ?s = map (\<lambda>f. f\<lparr>blockState := ?b f\<rparr>) (frames s)" using fs t nb by auto
  then have ok1: "xids_ok ?s" by (rule xids_ok_marked [OF ok]) simp_all
  obtain s' where s': "CommitTransactionCommand False ?s = CommitTransactionCommand False s'" "frames s' = [?t]" "xids_ok s'" "keeps ?s s'"
    "written s' = written ?s"
    using abort_chain_ok [of ?s ?xs "[?t]"] sub_block_pending [OF xs] h ok1 by auto
  have na: "trans_state ?t \<noteq> TRANS_ABORT" using t by simp
  have "CommitTransactionCommand False s' = abort_top s'"
    using s'(2) by (simp add: CommitTransactionCommand.simps [of _ s'] cur_def abort_top_def)
  then have run: "CommitTransactionCommand False ?s = abort_top s'" using s'(1) by simp
  have "(abs_db s')\<lparr>txn := Idle\<rparr> = (abs_db s)\<lparr>txn := Idle\<rparr>" using s'(4,5) by (intro abs_db_same) (simp_all add: keeps_def)
  then show ?thesis unfolding run by (rule_tac abort_top_ok [OF s'(2) na s'(3)]) simp
qed

text \<open>The levels down to a savepoint, which is opened again.\<close>

lemma rollback_levels:
  assumes fs: "frames s = xs @ f # ps" and xs: "\<And>f. f \<in> set xs \<Longrightarrow> sub_block f" and f: "sub_block f" and lv: "live ps"
    and ok: "xids_ok s" and h: "\<not> handlesDestroyedInCancelQuery s" and rm: "room s"
  shows "lands ((abs_db s)\<lparr>txn := Active ((sp_name f, {#}) # levels (written s) ps)\<rparr>) (handled (CommitTransactionCommand False
    (s\<lparr>frames := map (\<lambda>f. f\<lparr>blockState := abort_mark f\<rparr>) xs @ f\<lparr>blockState := restart_mark f\<rparr> # ps\<rparr>)))"
proof -
  let ?xs = "map (\<lambda>f. f\<lparr>blockState := abort_mark f\<rparr>) xs"
  let ?f = "f\<lparr>blockState := restart_mark f\<rparr>"
  let ?s = "s\<lparr>frames := ?xs @ ?f # ps\<rparr>"
  have ps: "ps \<noteq> []" using lv by auto
  have "live_xids (?xs @ ?f # ps) = live_xids (frames s)" by (simp add: fs live_xids_append marked_frames)
  moreover have "frames_ok (?xs @ ?f # ps)"
    using ok frames_ok_unmarked [of "?xs @ ?f # ps" "frames s"] by (simp add: fs xids_ok_def)
  ultimately have ok1: "xids_ok ?s" using ok by (simp add: xids_ok_def)
  obtain s1 where s1: "CommitTransactionCommand False ?s = CommitTransactionCommand False s1" "frames s1 = ?f # ps" "xids_ok s1" "keeps ?s s1"
    "written s1 = written ?s"
    using abort_chain_ok [of ?s ?xs "?f # ps"] sub_block_pending [OF xs] h ok1 by auto
  have h1: "\<not> handlesDestroyedInCancelQuery s1" using s1(4) h by (simp add: keeps_def)
  have fok: "frames_ok (?f # ps)" using s1(2,3) by (simp add: xids_ok_def)
  have lev: "savepointLevel ?f = 0" "savepointLevel (hd ps) = 0" using fok ps by (auto simp: frames_ok_def)
  let ?s2 = "s1\<lparr>frames := ps, currentSubTransactionId := subTransactionId (hd ps), aborted := aborted s1 @ acc_xids f\<rparr>"
  have "CommitTransactionCommand False s1 = restart_savepoint False (sp_name f) (savepointLevel (cur ?s2)) ?s2"
  proof (cases "blockState f = TBLOCK_SUBINPROGRESS")
    case True
    then have "own_xids ?f = acc_xids f" using f by (auto simp: sub_block_def acc_xids_def own_xids_def)
    then have "CleanupSubTransaction (AbortSubTransaction s1) = ok ?s2" using s1(2) ps by (simp add: AbortSub_eq CleanupSub_eq)
    moreover have "blockState ?f = TBLOCK_SUBRESTART" using True by (simp add: restart_mark_def)
    ultimately show ?thesis using h1 lev cur_frames [OF s1(2)]
      by (simp add: CommitTransactionCommand.simps [of _ s1] Let_def cur_def)
  next
    case False
    then have "acc_xids f = []" using f by (auto simp: sub_block_def acc_xids_def)
    then have "CleanupSubTransaction s1 = ok ?s2" using s1(2) ps by (simp add: CleanupSub_eq)
    moreover have "blockState ?f = TBLOCK_SUBABORT_RESTART" using False by (simp add: restart_mark_def)
    ultimately show ?thesis using lev cur_frames [OF s1(2)]
      by (simp add: CommitTransactionCommand.simps [of _ s1] Let_def cur_def)
  qed
  moreover have lv2: "frames ?s2 \<noteq> []" "blockState (cur ?s2) \<in> {TBLOCK_INPROGRESS, TBLOCK_SUBINPROGRESS}"
    using ps live_blockState [OF lv] by (simp_all add: cur_def)
  moreover have "subTransactionId (hd ps) + 1 \<noteq> 0" using rm ps fs by (simp add: room_def)
  then have "currentSubTransactionId ?s2 + 1 \<noteq> 0" by simp
  ultimately have "CommitTransactionCommand False ?s = ok (open_level (sp_name f) ?s2)" using savepoint_opens(2) [of ?s2] s1(1) by simp
  moreover have "xids_ok ?s2"
    using live_xids_Cons_disjoint [OF fok] frames_ok_tl [OF fok ps] s1(2)
    by (intro xids_ok_abort [OF s1(3), of "acc_xids f"]) (auto simp: keeps_def)
  note ol = open_level_ok [OF this lv2, of "sp_name f"]
  have "abs_db (open_level (sp_name f) ?s2) = (abs_db s)\<lparr>txn := Active ((sp_name f, {#}) # levels (written s) ps)\<rparr>"
    unfolding ol(2) using s1(4,5) by (simp add: abs_db_def keeps_def)
  ultimately show ?thesis using ol(1) by simp
qed

section \<open>Finding and releasing savepoints\<close>

lemma find_map_index: "find P (map f xs) = map_option f (find (\<lambda>x. P (f x)) xs)"
  by (induction xs) simp_all

lemma find_level_eq: "find_level nm (levels W fs) = find (\<lambda>i. sp_name (fs ! i) = Some nm) [0..<length fs]"
proof (induction fs)
  case (Cons f fs)
  have "[0..<length (f # fs)] = 0 # map Suc [0..<length fs]" by (simp add: upt_conv_Cons map_Suc_upt del: upt_Suc)
  with Cons show ?case by (simp add: levels_def find_map_index del: upt_Suc)
qed (simp add: levels_def)

lemma FindTargetSavepoint_eq:
  assumes "frames_ok (frames s)" and "frames s \<noteq> []"
  shows "FindTargetSavepoint (Some nm) s = find_level nm (levels W (frames s))"
proof -
  have "savepointLevel (frames s ! i) = savepointLevel (cur s)" if "i < length (frames s)" for i
    using assms that by (simp add: frames_ok_def cur_def)
  then have "find (\<lambda>i. sp_name (frames s ! i) = Some nm) [0..<length (frames s)] = Some i \<Longrightarrow>
      savepointLevel (frames s ! i) = savepointLevel (cur s)" for i by (auto simp: find_Some_iff)
  then show ?thesis unfolding FindTargetSavepoint_def find_level_eq by (simp split: option.split)
qed

lemma live_target:
  assumes lv: "live (frames s)" and i: "FindTargetSavepoint (Some nm) s = Some i"
  obtains xs f ps where "frames s = xs @ f # ps" and "length xs = i" and "live ps" and "sub_block f"
    and "\<And>f. f \<in> set xs \<Longrightarrow> sub_block f"
proof -
  have n: "i < length (frames s) - 1" by (rule FindTarget_live [OF lv i])
  obtain ys t where fs: "frames s = ys @ [t]" and t: "blockState t = TBLOCK_INPROGRESS" "trans_state t = TRANS_INPROGRESS"
    and ys: "\<And>f. f \<in> set ys \<Longrightarrow> blockState f = TBLOCK_SUBINPROGRESS \<and> trans_state f = TRANS_INPROGRESS" by (rule live_split [OF lv]) blast
  have i': "i < length ys" using n fs by simp
  have "frames s = take i ys @ ys ! i # (drop (i + 1) ys @ [t])" using fs id_take_nth_drop [OF i'] by simp
  moreover have "live (drop (i + 1) (frames s))" using lv n by (intro live_drop) simp_all
  then have "live (drop (i + 1) ys @ [t])" using fs i' by simp
  moreover have "sub_block f" if "f \<in> set (take i ys)" for f using ys in_set_takeD [OF that] by (simp add: sub_block_def)
  moreover have "sub_block (ys ! i)" using ys [OF nth_mem [OF i']] by (simp add: sub_block_def)
  ultimately show thesis using i' by (intro that [where xs = "take i ys" and f = "ys ! i" and ps = "drop (i + 1) ys @ [t]"]) simp_all
qed

lemma release_levels:
  assumes fs: "frames s = xs @ p # ps" and ne: "xs \<noteq> []" and lv: "live (frames s)" and lv': "live (p # ps)"
    and ok: "xids_ok s" and rm: "room s"
  shows "lands ((abs_db s)\<lparr>txn := Active ((sp_name p, items_of (written s) (set (acc_xids p)) + all_items (levels (written s) xs)) # levels (written s) ps)\<rparr>)
    (handled (CommitTransactionCommand False (s\<lparr>frames := map (\<lambda>f. f\<lparr>blockState := TBLOCK_SUBRELEASE\<rparr>) xs @ p # ps\<rparr>)))"
proof -
  obtain c ys where xs: "xs = c # ys" using ne by (cases xs) auto
  let ?xs = "map (\<lambda>f. f\<lparr>blockState := TBLOCK_SUBRELEASE\<rparr>) xs"
  let ?s = "s\<lparr>frames := ?xs @ p # ps\<rparr>"
  have lx: "live_xids (frames ?s) = live_xids (frames s)" by (simp add: fs live_xids_append marked_frames)
  have "frames_ok (?xs @ p # ps)" using ok frames_ok_unmarked [of "?xs @ p # ps" "frames s"] by (simp add: fs xids_ok_def)
  then have ok1: "xids_ok ?s" using ok lx by (simp add: xids_ok_def)
  have bp: "blockState p \<in> {TBLOCK_INPROGRESS, TBLOCK_SUBINPROGRESS}" using live_blockState [OF lv'] by simp
  have na: "trans_state f \<noteq> TRANS_ABORT" if f: "f \<in> set (frames ?s)" for f
  proof -
    have "\<exists>g \<in> set (frames s). trans_state f = trans_state g" using f fs by (auto simp: bex_Un)
    then show ?thesis using live_na [OF lv] by metis
  qed
  have cci: "cci_ok ?s" using room_cci [OF rm] by (simp add: cci_ok_def)
  have "\<exists>s' p'. commit_subs_while TBLOCK_SUBRELEASE ?s = ok s' \<and> frames s' = p' # ps \<and> same_frame p' p \<and>
      acc_xids p' = acc_xids p @ live_xids (c\<lparr>blockState := TBLOCK_SUBRELEASE\<rparr> # map (\<lambda>f. f\<lparr>blockState := TBLOCK_SUBRELEASE\<rparr>) ys) \<and>
      xids_ok s' \<and> cci_ok s' \<and> keeps ?s s' \<and> written s' = written ?s \<and> nextXid s' = nextXid ?s"
  proof (rule commit_subs_ok)
    show "trans_state f \<noteq> TRANS_ABORT" if "f \<in> set (c\<lparr>blockState := TBLOCK_SUBRELEASE\<rparr> # map (\<lambda>f. f\<lparr>blockState := TBLOCK_SUBRELEASE\<rparr>) ys @ [p])" for f
      using na [of f] that xs by auto
    show "length (live_xids (frames ?s)) \<le> MaxChildXids" using rm lx by (simp add: room_def)
  qed (use xs bp ok1 cci in auto)
  then obtain s' p' where s': "commit_subs_while TBLOCK_SUBRELEASE ?s = ok s'" "frames s' = p' # ps" "same_frame p' p"
    "acc_xids p' = acc_xids p @ live_xids xs" "xids_ok s'" "keeps ?s s'" "written s' = written s"
    by (auto simp: xs marked_frames)
  have run: "CommitTransactionCommand False ?s = ok s'" using s'(1) xs by (subst CommitTransactionCommand.simps) (simp add: cur_def)
  have "distinct (live_xids (frames s))" using ok by (intro sorted_distinct) (simp add: xids_ok_def frames_ok_def)
  then have d: "distinct (live_xids xs)" "set (acc_xids p) \<inter> set (live_xids xs) = {}" by (auto simp: fs live_xids_append)
  have it: "items_of (written s) (set (acc_xids p')) = items_of (written s) (set (acc_xids p)) + all_items (levels (written s) xs)"
    by (simp add: s'(4) items_of_union [OF d(2)] all_items_levels [OF d(1)])
  have "live (frames s')" using lv' live_same [OF s'(3)] s'(2) by simp
  then have "txn (abs_db s') = Active ((sp_name p, items_of (written s) (set (acc_xids p)) + all_items (levels (written s) xs)) # levels (written s) ps)"
    using s'(2,3,7) it by (simp add: txn_live levels_def same_frame_def)
  moreover have "abs_db s' = (abs_db s)\<lparr>txn := txn (abs_db s')\<rparr>" using s'(6,7) by (simp add: abs_db_def keeps_def)
  ultimately show ?thesis using s'(5) by (simp add: run)
qed

section \<open>Statements in a transaction block\<close>

lemma require_live:
  assumes "live (frames s)" and "room s"
  shows "RequireTransactionChain True s = ok s"
  using assms live_blockState [OF assms(1)] by (auto simp: RequireTransactionChain_def IsTransactionBlock_def room_def cur_def)

lemma live_dml:
  assumes lv: "live (frames s)" and ok: "xids_ok s" and h: "\<not> handlesDestroyedInCancelQuery s" and rm: "room s"
  shows "lands (spec_step auto warns err (DML is fails) (abs_db s))
    (handled (then_do (ProcessUtility (DML is fails) s) (CommitTransactionCommand False)))"
proof -
  have ne: "frames s \<noteq> []" using lv by auto
  obtain s' where w: "write_items is s = ok s'" "xids_ok s'" "list_all2 same_frame (frames s') (frames s)" "keeps s s'"
    and lev: "levels (written s') (frames s') = (fst (hd (levels (written s) (frames s))), snd (hd (levels (written s) (frames s))) + mset is) #
      tl (levels (written s) (frames s))"
    and d: "durable (abs_db s') = durable (abs_db s)" "prepared_txns (abs_db s') = prepared_txns (abs_db s)"
    and c: "currentCommandId s' = currentCommandId s"
    by (rule write_items_ok [OF ok ne, of "is"]) (use live_na [OF lv] rm in \<open>auto simp: room_def\<close>)
  have lv': "live (frames s')" using w(3) lv live_all2 by blast
  have cci: "cci_ok s'" using c rm by (simp add: cci_ok_def room_def)
  have h': "\<not> handlesDestroyedInCancelQuery s'" using h w(4) by (simp add: keeps_def)
  let ?L = "levels (written s) (frames s)"
  have tx: "txn (abs_db s') = Active ((fst (hd ?L), snd (hd ?L) + mset is) # tl ?L)" using txn_live [OF lv'] lev by simp
  have sf: "spec_fail auto (Active ((fst (hd ?L), snd (hd ?L) + mset is) # tl ?L)) = spec_fail auto (Active ?L)"
    using ne by (cases "frames s" rule: live.cases) (simp_all add: levels_def)
  have db: "abs_db s' = (abs_db s)\<lparr>txn := txn (abs_db s')\<rparr>" "(abs_db s')\<lparr>txn := x\<rparr> = (abs_db s)\<lparr>txn := x\<rparr>" for x using d by simp_all
  show ?thesis
  proof (cases fails)
    case True
    then show ?thesis using live_error [OF lv' w(2) h', of auto] w(1) by (simp add: txn_live [OF lv] tx sf db(2))
  next
    case False
    then show ?thesis using live_command_end [OF lv' w(2) cci] w(1) db(1) tx by (simp add: txn_live [OF lv])
  qed
qed

lemma live_savepoint:
  assumes lv: "live (frames s)" and ok: "xids_ok s" and rm: "room s"
  shows "lands (spec_step auto warns err (TRANS_STMT_SAVEPOINT nm) (abs_db s))
    (handled (then_do (ProcessUtility (TRANS_STMT_SAVEPOINT nm) s) (CommitTransactionCommand False)))"
proof -
  have ne: "frames s \<noteq> []" using lv by auto
  obtain fs m where G: "GetCurrentTransactionId s = ok (s\<lparr>frames := fs, nextXid := m\<rparr>)" and ok1: "xids_ok (s\<lparr>frames := fs, nextXid := m\<rparr>)"
    and fs: "fs \<noteq> []" and same: "list_all2 same_frame fs (frames s)" and lev: "levels (written s) fs = levels (written s) (frames s)"
    by (rule GetCurrentTransactionId_ok [OF ok ne]) (use live_na [OF lv] rm in \<open>auto simp: room_def\<close>)
  let ?s = "s\<lparr>frames := fs, nextXid := m\<rparr>"
  have "live fs" using same lv live_all2 by blast
  then have b: "blockState (cur ?s) \<in> {TBLOCK_INPROGRESS, TBLOCK_SUBINPROGRESS}" using live_blockState [of fs] by (simp add: cur_def)
  have sub: "currentSubTransactionId ?s + 1 \<noteq> 0" and ne': "frames ?s \<noteq> []" using rm fs by (simp_all add: room_def)
  have "then_do (ProcessUtility (TRANS_STMT_SAVEPOINT nm) s) (CommitTransactionCommand False) =
      then_do (DefineSavepoint (Some nm) ?s) (CommitTransactionCommand False)"
    using require_live [OF lv rm] G by simp
  also have "\<dots> = ok (open_level (Some nm) ?s)" by (rule savepoint_opens(1) [OF ne' b sub])
  finally have run: "then_do (ProcessUtility (TRANS_STMT_SAVEPOINT nm) s) (CommitTransactionCommand False) = ok (open_level (Some nm) ?s)" .
  have "(abs_db ?s)\<lparr>txn := x\<rparr> = (abs_db s)\<lparr>txn := x\<rparr>" for x by (rule abs_db_same) simp_all
  then show ?thesis unfolding run using open_level_ok [OF ok1 ne' b, of "Some nm"] lev by (simp add: txn_live [OF lv])
qed

lemma live_release:
  assumes lv: "live (frames s)" and ok: "xids_ok s" and h: "\<not> handlesDestroyedInCancelQuery s" and rm: "room s"
  shows "lands (spec_step auto warns err (TRANS_STMT_RELEASE nm) (abs_db s))
    (handled (then_do (ProcessUtility (TRANS_STMT_RELEASE nm) s) (CommitTransactionCommand False)))"
proof -
  have ne: "frames s \<noteq> []" and fok: "frames_ok (frames s)" using lv ok by (auto simp: xids_ok_def)
  note ft = FindTargetSavepoint_eq [OF fok ne, of nm "written s"]
  have b: "blockState (cur s) = TBLOCK_INPROGRESS \<or> blockState (cur s) = TBLOCK_SUBINPROGRESS"
    using live_blockState [OF lv] by (auto simp: cur_def)
  have P: "ProcessUtility (TRANS_STMT_RELEASE nm) s = ReleaseSavepoint (Some nm) False s" using require_live [OF lv rm] by simp
  show ?thesis
  proof (cases "FindTargetSavepoint (Some nm) s")
    case None
    then have "ReleaseSavepoint (Some nm) False s = Raises s"
      using b by (auto simp: ReleaseSavepoint_def CheckReleaseSavepointBlockState_def)
    then show ?thesis using live_error [OF lv ok h, of auto] None ft by (simp add: P txn_live [OF lv] del: ProcessUtility.simps)
  next
    case (Some i)
    obtain xs f ps where fs: "frames s = xs @ f # ps" and i: "length xs = i" and ps: "live ps"
      by (rule live_target [OF lv Some]) blast
    obtain p qs where p: "ps = p # qs" using ps by (cases ps) auto
    have "\<not> blockState (cur s) = TBLOCK_INPROGRESS" using lv fs p by (cases xs) (auto simp: cur_def dest: live_Cons)
    then have "ReleaseSavepoint (Some nm) False s = ok (s\<lparr>frames := map (\<lambda>f. f\<lparr>blockState := TBLOCK_SUBRELEASE\<rparr>) (xs @ [f]) @ p # qs\<rparr>)"
      using b Some fs i p by (simp add: ReleaseSavepoint_def CheckReleaseSavepointBlockState_def drop_stp_savepoint_def)
    moreover have "release_to i (levels (written s) (frames s)) =
        (sp_name p, items_of (written s) (set (acc_xids p)) + all_items (levels (written s) (xs @ [f]))) # levels (written s) qs"
      using i by (simp add: release_to_def fs p levels_def)
    ultimately show ?thesis
      using release_levels [of s "xs @ [f]" p qs] lv ps ok rm fs p Some ft by (simp add: P txn_live [OF lv] del: ProcessUtility.simps)
  qed
qed

lemma rollback_target:
  assumes fs: "frames s = xs @ f # ps" and xs: "\<And>f. f \<in> set xs \<Longrightarrow> sub_block f" and f: "sub_block f" and lv: "live ps"
    and ok: "xids_ok s" and h: "\<not> handlesDestroyedInCancelQuery s" and rm: "room s" and target: "FindTargetSavepoint (Some nm) s = Some (length xs)"
  shows "lands ((abs_db s)\<lparr>txn := Active (rollback_to (length xs) (levels (written s) (frames s)))\<rparr>)
    (handled (then_do (RollbackToSavepoint (Some nm) False s) (CommitTransactionCommand False)))"
proof -
  have "blockState (cur s) \<in> {TBLOCK_SUBINPROGRESS, TBLOCK_SUBABORT}"
    using fs xs f by (cases xs) (auto simp: cur_def sub_block_def)
  moreover have "mark_rollback_to (length xs) (frames s) =
      Some (map (\<lambda>f. f\<lparr>blockState := abort_mark f\<rparr>) xs @ f\<lparr>blockState := restart_mark f\<rparr> # ps)"
    unfolding fs by (rule mark_rollback_eq) (use xs f in auto)
  ultimately have "RollbackToSavepoint (Some nm) False s =
      ok (s\<lparr>frames := map (\<lambda>f. f\<lparr>blockState := abort_mark f\<rparr>) xs @ f\<lparr>blockState := restart_mark f\<rparr> # ps\<rparr>)"
    using target by (auto simp: RollbackToSavepoint_def CheckRollbackSavepointBlockState_def with_frames_def)
  moreover have "rollback_to (length xs) (levels (written s) (frames s)) = (sp_name f, {#}) # levels (written s) ps"
    by (simp add: rollback_to_def fs levels_def nth_append)
  ultimately show ?thesis using rollback_levels [OF fs xs f lv ok h rm] by simp
qed

lemma live_rollback_to:
  assumes lv: "live (frames s)" and ok: "xids_ok s" and h: "\<not> handlesDestroyedInCancelQuery s" and rm: "room s"
  shows "lands (spec_step auto warns err (TRANS_STMT_ROLLBACK_TO nm) (abs_db s))
    (handled (then_do (ProcessUtility (TRANS_STMT_ROLLBACK_TO nm) s) (CommitTransactionCommand False)))"
proof -
  have ne: "frames s \<noteq> []" and fok: "frames_ok (frames s)" using lv ok by (auto simp: xids_ok_def)
  note ft = FindTargetSavepoint_eq [OF fok ne, of nm "written s"]
  have b: "blockState (cur s) = TBLOCK_INPROGRESS \<or> blockState (cur s) = TBLOCK_SUBINPROGRESS"
    using live_blockState [OF lv] by (auto simp: cur_def)
  have P: "ProcessUtility (TRANS_STMT_ROLLBACK_TO nm) s = RollbackToSavepoint (Some nm) False s" using require_live [OF lv rm] by simp
  show ?thesis
  proof (cases "FindTargetSavepoint (Some nm) s")
    case None
    then have "RollbackToSavepoint (Some nm) False s = Raises s"
      using b by (auto simp: RollbackToSavepoint_def CheckRollbackSavepointBlockState_def)
    then show ?thesis using live_error [OF lv ok h, of auto] None ft by (simp add: P txn_live [OF lv] del: ProcessUtility.simps)
  next
    case (Some i)
    obtain xs f ps where fs: "frames s = xs @ f # ps" and i: "length xs = i" and r: "live ps" "sub_block f" "\<And>f. f \<in> set xs \<Longrightarrow> sub_block f"
      by (rule live_target [OF lv Some]) blast
    show ?thesis using rollback_target [OF fs r(3,2,1) ok h rm] Some ft i
      by (simp add: P txn_live [OF lv] del: ProcessUtility.simps)
  qed
qed

lemma live_statement:
  assumes lv: "live (frames s)" and ok: "xids_ok s" and h: "\<not> handlesDestroyedInCancelQuery s" and rm: "room s"
  shows "lands (spec_step (phony_autocommit s) (nested_begin_warns s) (commit_error s) stmt (abs_db s))
    (handled (then_do (ProcessUtility stmt s) (CommitTransactionCommand False)))"
proof (cases stmt)
  case TRANS_STMT_BEGIN
  have b: "blockState (cur s) = TBLOCK_INPROGRESS \<or> blockState (cur s) = TBLOCK_SUBINPROGRESS"
    using live_blockState [OF lv] by (auto simp: cur_def)
  then have "BeginTransactionBlock s = (if nested_begin_warns s then ok s else Raises s)" by (auto simp: BeginTransactionBlock_def)
  then show ?thesis using live_command_end [OF lv ok room_cci [OF rm]] live_error [OF lv ok h, of "phony_autocommit s"]
    by (simp add: TRANS_STMT_BEGIN txn_live [OF lv])
next
  case TRANS_STMT_ROLLBACK
  obtain xs t where fs: "frames s = xs @ [t]" and t: "blockState t = TBLOCK_INPROGRESS" "trans_state t = TRANS_INPROGRESS"
    and xs: "\<And>f. f \<in> set xs \<Longrightarrow> blockState f = TBLOCK_SUBINPROGRESS \<and> trans_state f = TRANS_INPROGRESS" by (rule live_split [OF lv]) blast
  have sb: "\<And>f. f \<in> set xs \<Longrightarrow> sub_block f" using xs by (simp add: sub_block_def)
  have "SubTransactionBlockAbort (frames s) =
      Some (map (\<lambda>f. f\<lparr>blockState := abort_mark f\<rparr>) xs @ [t\<lparr>blockState := TBLOCK_ABORT_PENDING\<rparr>])"
    unfolding fs by (rule mark_abort_eq) (use sb t in auto)
  then have "UserAbortTransactionBlock s =
      ok (s\<lparr>frames := map (\<lambda>f. f\<lparr>blockState := abort_mark f\<rparr>) xs @ [t\<lparr>blockState := TBLOCK_ABORT_PENDING\<rparr>]\<rparr>)"
    using fs t xs by (cases xs) (auto simp: UserAbortTransactionBlock_def with_frames_def cur_def upd_cur_def)
  then show ?thesis using abort_block [OF fs sb t ok h] by (simp add: TRANS_STMT_ROLLBACK)
next
  case TRANS_STMT_COMMIT
  show ?thesis unfolding TRANS_STMT_COMMIT by (rule live_commit [OF lv ok rm])
next
  case (TRANS_STMT_PREPARE gid)
  show ?thesis unfolding TRANS_STMT_PREPARE by (rule live_prepare [OF lv ok rm])
next
  case (TRANS_STMT_SAVEPOINT nm)
  show ?thesis unfolding TRANS_STMT_SAVEPOINT by (rule live_savepoint [OF lv ok rm])
next
  case (TRANS_STMT_RELEASE nm)
  show ?thesis unfolding TRANS_STMT_RELEASE by (rule live_release [OF lv ok h rm])
next
  case (TRANS_STMT_ROLLBACK_TO nm)
  show ?thesis unfolding TRANS_STMT_ROLLBACK_TO by (rule live_rollback_to [OF lv ok h rm])
next
  case (DML "is" fails)
  show ?thesis unfolding DML by (rule live_dml [OF lv ok h rm])
qed

section \<open>Statements in a failed block\<close>

lemma failed_statement:
  assumes f: "frames s = [t]" "blockState t = TBLOCK_ABORT" "trans_state t = TRANS_ABORT" and ok: "xids_ok s" and ex: "IsTransactionExitStmt stmt"
  shows "lands (spec_step auto warns err stmt (abs_db s)) (handled (then_do (ProcessUtility stmt s) (CommitTransactionCommand False)))"
proof -
  note c = cur_frames [OF f(1)]
  have tx: "txn (abs_db s) = Failed" using f by (simp add: abs_db_def abs_txn_def)
  have req: "RequireTransactionChain True s = ok s" using f(2) by (simp add: RequireTransactionChain_def IsTransactionBlock_def c)
  have ab: "IsAbortedTransactionBlockState s" using f by (simp add: IsAbortedTransactionBlockState_def c)
  let ?t = "t\<lparr>blockState := TBLOCK_ABORT_END\<rparr>"
  let ?s = "s\<lparr>frames := [?t]\<rparr>"
  have "xids_ok ?s" using ok f(1) by (simp add: xids_ok_def frames_ok_def)
  then obtain s' where s': "then_do (CleanupTransaction ?s) (\<lambda>s. ok (set_block TBLOCK_DEFAULT s)) = ok s'" "xids_ok s'"
    "abs_db s' = (abs_db ?s)\<lparr>txn := Idle\<rparr>"
    using cleanup_top_ok [of ?s ?t] f(3) by auto
  have run: "CommitTransactionCommand False ?s = ok s'" using s'(1) by (simp add: CommitTransactionCommand.simps cur_def)
  have end_block: "lands ((abs_db s)\<lparr>txn := Idle\<rparr>) (handled (CommitTransactionCommand False ?s))"
    using s'(2,3) by (simp add: run abs_db_def)
  have db: "(abs_db s)\<lparr>txn := Failed\<rparr> = abs_db s" using tx by simp
  show ?thesis using ex end_block failed_error [OF ab ok] f(1,2) tx req
    by (cases stmt) (auto simp: db EndTransactionBlock_def UserAbortTransactionBlock_def PrepareTransactionBlock_def RollbackToSavepoint_def
        CheckRollbackSavepointBlockState_def c upd_cur_def)
qed

lemma sub_failed_statement:
  assumes f: "frames s = c # fs" and c: "blockState c = TBLOCK_SUBABORT" "trans_state c = TRANS_ABORT" and lv: "live fs"
    and ok: "xids_ok s" and h: "\<not> handlesDestroyedInCancelQuery s" and rm: "room s" and ex: "IsTransactionExitStmt stmt"
  shows "lands (spec_step auto warns err stmt (abs_db s)) (handled (then_do (ProcessUtility stmt s) (CommitTransactionCommand False)))"
proof -
  note cr = cur_frames [OF f]
  have ac: "acc_xids c = []" using c by (simp add: acc_xids_def)
  have tx: "txn (abs_db s) = SubFailed (sp_name c) (levels (written s) fs)" using f c by (simp add: abs_db_def abs_txn_def)
  have lev: "(sp_name c, {#}) # levels (written s) fs = levels (written s) (frames s)" using f ac by (simp add: levels_def)
  have req: "RequireTransactionChain True s = ok s" using c by (simp add: RequireTransactionChain_def IsTransactionBlock_def cr)
  have ab: "IsAbortedTransactionBlockState s" using c by (simp add: IsAbortedTransactionBlockState_def cr)
  have db: "(abs_db s)\<lparr>txn := SubFailed (sp_name c) (levels (written s) fs)\<rparr> = abs_db s" using tx by simp
  obtain xs t where fs: "fs = xs @ [t]" and t: "blockState t = TBLOCK_INPROGRESS" "trans_state t = TRANS_INPROGRESS"
    and xs: "\<And>f. f \<in> set xs \<Longrightarrow> blockState f = TBLOCK_SUBINPROGRESS \<and> trans_state f = TRANS_INPROGRESS" by (rule live_split [OF lv]) blast
  have sb: "sub_block f" if "f \<in> set (c # xs)" for f using that c xs by (auto simp: sub_block_def)
  have f': "frames s = (c # xs) @ [t]" using f fs by simp
  let ?s = "s\<lparr>frames := map (\<lambda>f. f\<lparr>blockState := abort_mark f\<rparr>) (c # xs) @ [t\<lparr>blockState := TBLOCK_ABORT_PENDING\<rparr>]\<rparr>"
  have "SubTransactionBlockAbort (frames s) = Some (frames ?s)"
    unfolding f' by (simp only: mark_abort_eq [OF sb t(1)]) simp
  then have m: "with_frames (SubTransactionBlockAbort (frames s)) r s = Returns r ?s" for r by (simp add: with_frames_def)
  note end_block = abort_block [OF f' sb t ok h]
  have rb: "lands (spec_step auto warns err (TRANS_STMT_ROLLBACK_TO nm) (abs_db s))
      (handled (then_do (RollbackToSavepoint (Some nm) False s) (CommitTransactionCommand False)))" for nm
  proof (cases "FindTargetSavepoint (Some nm) s")
    case None
    then have "find_level nm (levels (written s) (frames s)) = None"
      using FindTargetSavepoint_eq [of s nm "written s"] ok f by (simp add: xids_ok_def)
    moreover have "RollbackToSavepoint (Some nm) False s = Raises s"
      using None c by (simp add: RollbackToSavepoint_def CheckRollbackSavepointBlockState_def cr)
    ultimately show ?thesis using failed_error [OF ab ok] by (simp add: tx lev db)
  next
    case (Some i)
    have i: "i < length (c # xs)" using FindTarget_sub_failed [OF f lv Some] fs by simp
    let ?xs = "take i (c # xs)" and ?ps = "drop (Suc i) (c # xs) @ [t]"
    have s: "frames s = ?xs @ (c # xs) ! i # ?ps" unfolding f' using id_take_nth_drop [OF i] by simp
    have "live (drop i fs)" using lv i fs by (intro live_drop) simp_all
    then have lv': "live ?ps" using fs i by simp
    have "find_level nm (levels (written s) (frames s)) = Some i"
      using FindTargetSavepoint_eq [of s nm "written s"] ok f Some by (simp add: xids_ok_def)
    moreover have "lands ((abs_db s)\<lparr>txn := Active (rollback_to (length ?xs) (levels (written s) (frames s)))\<rparr>)
        (handled (then_do (RollbackToSavepoint (Some nm) False s) (CommitTransactionCommand False)))"
    proof (rule rollback_target [OF s _ _ lv' ok h rm])
      show "sub_block f" if "f \<in> set ?xs" for f using sb in_set_takeD [OF that] by blast
      show "sub_block ((c # xs) ! i)" using sb nth_mem [OF i] by blast
      show "FindTargetSavepoint (Some nm) s = Some (length ?xs)" using Some i by simp
    qed
    ultimately show ?thesis using i by (simp add: tx lev)
  qed
  show ?thesis
  proof (cases stmt)
    case (TRANS_STMT_ROLLBACK_TO nm)
    then show ?thesis using rb [of nm] req by simp
  qed (use ex end_block c tx in \<open>simp_all add: m EndTransactionBlock_def UserAbortTransactionBlock_def PrepareTransactionBlock_def cr\<close>)
qed

section \<open>The refinement\<close>

lemma statement_lands:
  assumes rd: "ready (frames s)" and h: "\<not> handlesDestroyedInCancelQuery s" and ok: "xids_ok s" and rm: "room s"
  shows "lands (spec_step (phony_autocommit s) (nested_begin_warns s) (commit_error s) stmt (abs_db s)) (exec_simple_query stmt s)"
  using rd
proof (cases rule: ready.cases)
  case (idle t)
  obtain s' t' where s': "StartTransactionCommand False s = ok s'" "frames s' = [t']" "blockState t' = TBLOCK_STARTED"
    "trans_state t' = TRANS_INPROGRESS" "sp_name t' = None" "nestingLevel t' = 1" "acc_xids t' = []" "xids_ok s'" "keeps s s'"
    "abs_db s = (abs_db s')\<lparr>txn := Idle\<rparr>" "nextXid s' = nextXid s"
    by (rule StartTransaction_ok [OF idle(1,2) ok h idle(4,5)])
  have "\<not> IsAbortedTransactionBlockState s" using idle by (simp add: IsAbortedTransactionBlockState_def cur_def)
  then have e: "exec_simple_query stmt s = handled (then_do (ProcessUtility stmt s') (CommitTransactionCommand False))"
    using exec_simple_query_run [OF s'(1)] by (simp add: handled_def)
  have "xid_allowed s'" "unat (nextXid s') + 1 < 2 ^ 64" using rm s'(9,11) idle(1) by (simp_all add: room_def keeps_def)
  from started_statement [OF s'(2-8) this, of stmt] show ?thesis using s'(9,10) by (simp add: e keeps_def)
next
  case in_block
  have b: "blockState (cur s) = TBLOCK_INPROGRESS \<or> blockState (cur s) = TBLOCK_SUBINPROGRESS"
    using live_blockState [OF in_block] by (auto simp: cur_def)
  then have "StartTransactionCommand False s = ok s" "\<not> IsAbortedTransactionBlockState s"
    by (auto simp: StartTransactionCommand_def IsAbortedTransactionBlockState_def)
  then have "exec_simple_query stmt s = handled (then_do (ProcessUtility stmt s) (CommitTransactionCommand False))"
    using exec_simple_query_run [of s s stmt] by (simp add: handled_def)
  then show ?thesis using live_statement [OF in_block ok h rm, of stmt] by simp
next
  case (failed t)
  have ab: "IsAbortedTransactionBlockState s" "StartTransactionCommand False s = ok s"
    using failed by (simp_all add: IsAbortedTransactionBlockState_def StartTransactionCommand_def cur_def)
  have db: "(abs_db s)\<lparr>txn := Failed\<rparr> = abs_db s" "txn (abs_db s) = Failed" using failed by (simp_all add: abs_db_def abs_txn_def)
  show ?thesis
  proof (cases "IsTransactionExitStmt stmt")
    case True
    then have "exec_simple_query stmt s = handled (then_do (ProcessUtility stmt s) (CommitTransactionCommand False))"
      using exec_simple_query_run [OF ab(2)] by (simp add: handled_def)
    then show ?thesis using failed_statement [OF failed(1-3) ok True] by simp
  next
    case False
    then have "exec_simple_query stmt s = handled (Raises s)" using exec_simple_query_aborted [OF ab(1)] by (simp add: handled_def)
    then show ?thesis using failed_error [OF ab(1) ok] False db(2) by (cases stmt) (simp_all add: db(1))
  qed
next
  case (sub_failed c fs)
  have ab: "IsAbortedTransactionBlockState s" "StartTransactionCommand False s = ok s"
    using sub_failed by (simp_all add: IsAbortedTransactionBlockState_def StartTransactionCommand_def cur_def)
  have tx: "txn (abs_db s) = SubFailed (sp_name c) (levels (written s) fs)" using sub_failed by (simp add: abs_db_def abs_txn_def)
  have db: "(abs_db s)\<lparr>txn := SubFailed (sp_name c) (levels (written s) fs)\<rparr> = abs_db s" using tx by simp
  show ?thesis
  proof (cases "IsTransactionExitStmt stmt")
    case True
    then have "exec_simple_query stmt s = handled (then_do (ProcessUtility stmt s) (CommitTransactionCommand False))"
      using exec_simple_query_run [OF ab(2)] by (simp add: handled_def)
    then show ?thesis using sub_failed_statement [OF sub_failed ok h rm True] by simp
  next
    case False
    then have "exec_simple_query stmt s = handled (Raises s)" using exec_simple_query_aborted [OF ab(1)] by (simp add: handled_def)
    then show ?thesis using failed_error [OF ab(1) ok] False tx by (cases stmt) (simp_all add: db)
  qed
qed

text \<open>A session that is served by the database: nothing runs out, and transaction ids only grow.\<close>

inductive served :: "'i xact_session \<Rightarrow> bool" where
  connect: "3 \<le> xid \<Longrightarrow> served (new_session auto warns xid)"
| query: "served s \<Longrightarrow> room s \<Longrightarrow> exec_simple_query stmt s = Some s' \<Longrightarrow> served s'"
| settings: "served s \<Longrightarrow>
    served (s\<lparr>phony_autocommit := auto, nested_begin_warns := warns, xid_allowed := allowed, commit_error := err\<rparr>)"
| others: "served s \<Longrightarrow> nextXid s \<le> xid \<Longrightarrow> served (s\<lparr>nextXid := xid\<rparr>)"

lemma served_session_run: "served s \<Longrightarrow> session_run s"
  by (induction s rule: served.induct) (auto intro: session_run.intros)

lemma served_xids_ok: "served s \<Longrightarrow> xids_ok s"
proof (induction s rule: served.induct)
  case (connect xid auto warns)
  then show ?case
    by (simp add: new_session_def xids_ok_def frames_ok_def ids_ok_def acc_xids_def own_xids_def TransactionIdIsValid_def)
next
  case (query s stmt s')
  then show ?case using statement_lands [of s stmt] session_run_ready [OF served_session_run [OF query.hyps(1)]] by (auto simp: lands_def)
next
  case (settings s auto warns allowed err)
  then show ?case by (simp add: xids_ok_def)
next
  case (others s xid)
  then have "ids_ok (set (live_xids (frames s)) \<union> {}) (set (committed s)) (set (aborted s)) (\<Union>p \<in> set (prepared s). set (snd p)) xid (written s)"
    by (intro ids_ok_new [of _ _ _ _ "nextXid s"]) (simp_all add: xids_ok_def)
  with others show ?case by (simp add: xids_ok_def)
qed





section \<open>Own transaction ids\<close>

lemma child_search_eq:
  assumes "sorted_wrt (<) xs" and "0 \<le> low" and "high < int (length xs)"
  shows "child_search xid xs low high \<longleftrightarrow> (\<exists>i. low \<le> i \<and> i \<le> high \<and> xs ! nat i = xid)"
  using assms
proof (induction xid xs low high rule: child_search.induct)
  case (1 xid xs low high)
  show ?case
  proof (cases "low \<le> high")
    case False
    then show ?thesis by (subst child_search.simps) auto
  next
    case True
    define m where "m = low + (high - low) div 2"
    have m: "low \<le> m" "m \<le> high" using True by (auto simp: m_def)
    have mono: "xs ! nat i < xs ! nat j" if "low \<le> i" "i < j" "j \<le> high" for i j
      using sorted_wrt_nth_less [OF "1.prems"(1), of "nat i" "nat j"] that "1.prems"(2,3) by auto
    have e: "child_search xid xs low high = (if xs ! nat m = xid then True
        else if xs ! nat m < xid then child_search xid xs (m + 1) high else child_search xid xs low (m - 1))"
      by (subst child_search.simps) (simp add: True Let_def TransactionIdPrecedes_def m_def)
    consider "xs ! nat m = xid" | "xs ! nat m < xid" | "xid < xs ! nat m" by fastforce
    then show ?thesis
    proof cases
      case 1
      then have "\<exists>i. low \<le> i \<and> i \<le> high \<and> xs ! nat i = xid" using m by blast
      with e 1 show ?thesis by simp
    next
      case 2
      have "child_search xid xs (m + 1) high = (\<exists>i. m + 1 \<le> i \<and> i \<le> high \<and> xs ! nat i = xid)"
        using "1.IH"(1) [OF True m_def refl] 2 "1.prems" m by (simp add: TransactionIdPrecedes_def)
      moreover have "m < i" if "low \<le> i" "xs ! nat i = xid" for i
      proof (rule ccontr)
        assume "\<not> m < i"
        then consider "i = m" | "i < m" by linarith
        then show False using mono [of i m] 2 that m by cases (auto dest: less_asym)
      qed
      then have "(m + 1 \<le> i \<and> i \<le> high \<and> xs ! nat i = xid) = (low \<le> i \<and> i \<le> high \<and> xs ! nat i = xid)" for i using m by force
      moreover have "child_search xid xs low high = child_search xid xs (m + 1) high" using e 2 by auto
      ultimately show ?thesis by simp
    next
      case 3
      have "child_search xid xs low (m - 1) = (\<exists>i. low \<le> i \<and> i \<le> m - 1 \<and> xs ! nat i = xid)"
        using "1.IH"(2) [OF True m_def refl] 3 "1.prems" m by (auto simp: TransactionIdPrecedes_def)
      moreover have "i < m" if "i \<le> high" "xs ! nat i = xid" for i
      proof (rule ccontr)
        assume "\<not> i < m"
        then consider "i = m" | "m < i" by linarith
        then show False using mono [of m i] 3 that m by cases (auto dest: less_asym)
      qed
      then have "(low \<le> i \<and> i \<le> m - 1 \<and> xs ! nat i = xid) = (low \<le> i \<and> i \<le> high \<and> xs ! nat i = xid)" for i using m by force
      moreover have "child_search xid xs low high = child_search xid xs low (m - 1)" using e 3 by (auto dest: less_asym)
      ultimately show ?thesis by simp
    qed
  qed
qed

lemma child_search_set:
  assumes "sorted_wrt (<) xs"
  shows "child_search xid xs 0 (int (length xs) - 1) \<longleftrightarrow> xid \<in> set xs"
proof -
  have "child_search xid xs 0 (int (length xs) - 1) \<longleftrightarrow> (\<exists>i. 0 \<le> i \<and> i \<le> int (length xs) - 1 \<and> xs ! nat i = xid)"
    using assms by (rule child_search_eq) simp_all
  also have "\<dots> \<longleftrightarrow> (\<exists>n. n < length xs \<and> xs ! n = xid)"
  proof
    assume "\<exists>n. n < length xs \<and> xs ! n = xid"
    then obtain n where "n < length xs" "xs ! n = xid" by blast
    then show "\<exists>i. 0 \<le> i \<and> i \<le> int (length xs) - 1 \<and> xs ! nat i = xid" by (intro exI [of _ "int n"]) simp
  next
    assume "\<exists>i. 0 \<le> i \<and> i \<le> int (length xs) - 1 \<and> xs ! nat i = xid"
    then obtain i where "0 \<le> i" "i \<le> int (length xs) - 1" "xs ! nat i = xid" by blast
    then show "\<exists>n. n < length xs \<and> xs ! n = xid" by (intro exI [of _ "nat i"]) auto
  qed
  finally show ?thesis by (simp add: in_set_conv_nth)
qed

lemma is_current_xid_eq:
  assumes "sorted_wrt (<) (live_xids fs)" and "\<And>f. f \<in> set fs \<Longrightarrow> trans_state f \<noteq> TRANS_UNDO"
  shows "is_current_xid xid fs \<longleftrightarrow> xid \<in> set (live_xids fs)"
  using assms
proof (induction fs)
  case (Cons f fs)
  have IH: "is_current_xid xid fs \<longleftrightarrow> xid \<in> set (live_xids fs)" using Cons by (simp add: sorted_wrt_append)
  show ?case
  proof (cases "trans_state f = TRANS_ABORT \<or> \<not> TransactionIdIsValid (transactionId f)")
    case True
    then show ?thesis using IH Cons.prems(2) [of f] by (auto simp: acc_xids_def own_xids_def)
  next
    case False
    then have a: "acc_xids f = transactionId f # childXids f" by (simp add: acc_xids_def own_xids_def)
    then have "sorted_wrt (<) (childXids f)" using Cons.prems(1) by (simp add: sorted_wrt_append)
    then show ?thesis using False IH Cons.prems(2) [of f] a by (auto simp: child_search_set)
  qed
qed simp

lemma ready_not_undo: "ready fs \<Longrightarrow> f \<in> set fs \<Longrightarrow> trans_state f \<noteq> TRANS_UNDO"
proof (induction fs rule: ready.induct)
  case (in_block fs)
  then show ?case by (induction fs rule: live.induct) auto
next
  case (sub_failed c fs)
  have "trans_state f \<noteq> TRANS_UNDO" if "f \<in> set fs" using sub_failed.hyps(3) that by (induction fs rule: live.induct) auto
  with sub_failed show ?case by auto
qed auto

lemma own_xid_iff:
  assumes "served s"
  shows "TransactionIdIsCurrentTransactionId xid s \<longleftrightarrow> xid \<in> set (live_xids (frames s))"
proof -
  have ok: "frames_ok (frames s)" and iok: "ids_ok (set (live_xids (frames s))) (set (committed s)) (set (aborted s))
      (\<Union>p \<in> set (prepared s). set (snd p)) (nextXid s) (written s)" using served_xids_ok [OF assms] by (simp_all add: xids_ok_def)
  have "ready (frames s)" using session_run_ready [OF served_session_run [OF assms]] by simp
  then have "is_current_xid xid (frames s) \<longleftrightarrow> xid \<in> set (live_xids (frames s))"
    using ok ready_not_undo by (intro is_current_xid_eq) (auto simp: frames_ok_def)
  moreover have "\<not> xid < 3" if "xid \<in> set (live_xids (frames s))" using ids_okD(2) [OF iok that] by (simp add: not_less)
  ultimately show ?thesis by (auto simp: TransactionIdIsCurrentTransactionId_def)
qed

text \<open>
  C9. \<open>TransactionIdIsCurrentTransactionId\<close> answers by binary search in the arrays of subcommitted children, which the
  order of ids makes correct: the answer is yes exactly for the ids of the levels that have not failed, their parents' and those of
  subtransactions merged into them.
\<close>

theorem TransactionIdIsCurrentTransactionId_correct:
  assumes "served s"
  shows "TransactionIdIsCurrentTransactionId xid s \<longleftrightarrow>
    (\<exists>f \<in> set (frames s). trans_state f \<noteq> TRANS_ABORT \<and> TransactionIdIsValid (transactionId f) \<and>
       (xid = transactionId f \<or> xid \<in> set (childXids f)))"
  unfolding own_xid_iff [OF assms] set_live_xids by (auto simp: acc_xids_def own_xids_def)

text \<open>A small session, for the examples.\<close>

lemma example_session:
  obtains s1 s2 f where "exec_simple_query TRANS_STMT_BEGIN (new_session True True 3) = Some s1" and "exec_simple_query (DML [7 :: nat] False) s1 = Some s2"
    and "served s2" and "frames s2 = [f]" and "transactionId f = 3" and "trans_state f = TRANS_INPROGRESS" and "childXids f = []"
    and "written s2 = [(3, 7)]" and "committed s2 = []"
proof -
  let ?n = "new_session True True 3 :: nat xact_session"
  have "map_option (\<lambda>s. (map (\<lambda>f. (transactionId f, subTransactionId f, trans_state f, childXids f)) (frames s), nextXid s, currentCommandId s,
      currentSubTransactionId s, xid_allowed s, portal_stp_exception_counter s)) (exec_simple_query TRANS_STMT_BEGIN ?n) =
    Some ([(0, 1, TRANS_INPROGRESS, [])], 3, 0, 1, True, 0)" by code_simp
  then obtain s1 f1 where s1: "exec_simple_query TRANS_STMT_BEGIN ?n = Some s1" "frames s1 = [f1]" "transactionId f1 = 0" "subTransactionId f1 = 1"
    "childXids f1 = []" "nextXid s1 = 3" "currentCommandId s1 = 0" "currentSubTransactionId s1 = 1" "xid_allowed s1" "portal_stp_exception_counter s1 = 0"
    by auto
  have "map_option (\<lambda>s. (map (\<lambda>f. (transactionId f, trans_state f, childXids f)) (frames s), written s, committed s))
      (Option.bind (exec_simple_query TRANS_STMT_BEGIN ?n) (exec_simple_query (DML [7] False))) = Some ([(3, TRANS_INPROGRESS, [])], [(3, 7)], [])"
    by code_simp
  then obtain s2 f where s2: "exec_simple_query (DML [7] False) s1 = Some s2" "frames s2 = [f]" "transactionId f = 3"
    "trans_state f = TRANS_INPROGRESS" "childXids f = []" "written s2 = [(3, 7)]" "committed s2 = []" using s1(1) by auto
  have r: "room ?n" "room s1"
    using s1 by (simp_all add: room_def new_session_def InvalidCommandId_def acc_xids_def own_xids_def TransactionIdIsValid_def InvalidTransactionId_def)
  have "served s2"
    by (rule served.query [OF served.query [OF served.connect r(1) s1(1)] r(2) s2(1)]) simp
  with s1(1) s2 show thesis by (rule_tac that)
qed

theorem TransactionIdIsCurrentTransactionId_witness:
  "\<exists>s1 s2. exec_simple_query TRANS_STMT_BEGIN (new_session True True 3) = Some s1 \<and> exec_simple_query (DML [7 :: nat] False) s1 = Some s2 \<and>
     TransactionIdIsCurrentTransactionId 3 s2 \<and> \<not> TransactionIdIsCurrentTransactionId 4 s2"
proof (rule example_session)
  fix s1 s2 :: "nat xact_session" and f assume s: "exec_simple_query TRANS_STMT_BEGIN (new_session True True 3) = Some s1"
    "exec_simple_query (DML [7] False) s1 = Some s2" "served s2" "frames s2 = [f]" "transactionId f = 3" "trans_state f = TRANS_INPROGRESS"
    "childXids f = []"
  from TransactionIdIsCurrentTransactionId_correct [OF s(3), of 3] TransactionIdIsCurrentTransactionId_correct [OF s(3), of 4]
  show ?thesis using s by (simp add: TransactionIdIsValid_def InvalidTransactionId_def)
qed

end
