(* ===== verification/Session_Reads.thy ===== *)
theory Session_Reads
  imports Nested_Transactions Visibility_Checks
begin

text \<open>
  Transactions and visibility together: the transaction system that a session sees, and that the rows which
  \<open>HeapTupleSatisfiesSelf\<close> shows it are those of the specification of nested transactions.
\<close>

section \<open>The transaction system of a session\<close>

text \<open>
  The questions that the visibility routines ask, answered from the state of the session: its own ids from the stack, the
  commit log, and the prepared transactions, which count as running.
\<close>

definition session_view :: "xact_env \<Rightarrow> 'i xact_session \<Rightarrow> xact_env" where
  "session_view env s = env\<lparr>TransactionIdIsCurrentTransactionId := (\<lambda>x. TransactionIdIsCurrentTransactionId x s),
     TransactionIdIsInProgress := (\<lambda>x. x \<in> set (live_xids (frames s)) \<union> (\<Union>p \<in> set (prepared s). set (snd p))),
     TransactionIdDidCommit := (\<lambda>x. x \<in> set (committed s)),
     LatestFetchTransactionIdDidAbort := (\<lambda>x. x \<in> set (aborted s))\<rparr>"

text \<open>A row inserted under an id and not deleted since; its hint bits are right.\<close>

definition row_of :: "'i xact_session \<Rightarrow> TransactionId \<Rightarrow> HeapTupleHeader \<Rightarrow> bool" where
  "row_of s x t \<longleftrightarrow> t_xmin t = x \<and> has_info t HEAP_XMAX_INVALID \<and>
     (HeapTupleHeaderXminCommitted t \<longrightarrow> x \<in> set (committed s)) \<and> (HeapTupleHeaderXminInvalid t \<longrightarrow> x \<in> set (aborted s))"

definition sees :: "xact_env \<Rightarrow> 'i xact_session \<Rightarrow> HeapTupleHeader \<Rightarrow> bool" where
  "sees env s t = (case HeapTupleSatisfiesSelf (session_view env s) t of Inl _ \<Rightarrow> False | Inr (v, _) \<Rightarrow> v)"

fun open_items :: "'i txn_spec \<Rightarrow> 'i multiset" where
  "open_items Idle = {#}"
| "open_items (Active ls) = all_items ls"
| "open_items Failed = {#}"
| "open_items (SubFailed n ls) = all_items ls"

lemma SetHintBits_keeps_xmax_invalid:
  "has_info t HEAP_XMAX_INVALID \<Longrightarrow> has_info (SetHintBits env t HEAP_XMIN_COMMITTED x) HEAP_XMAX_INVALID"
  by (simp add: has_info_bit SetHintBits_other_bits)

lemma sees_iff:
  assumes sv: "served s" and row: "row_of s x t" and x: "x \<in> set (live_xids (frames s)) \<union> set (committed s) \<union> set (aborted s) \<union>
      (\<Union>p \<in> set (prepared s). set (snd p))"
  shows "(\<exists>v t'. HeapTupleSatisfiesSelf (session_view env s) t = Inr (v, t')) \<and>
    (sees env s t \<longleftrightarrow> x \<in> set (live_xids (frames s)) \<union> set (committed s))"
proof -
  let ?e = "session_view env s" and ?L = "set (live_xids (frames s))" and ?P = "\<Union>p \<in> set (prepared s). set (snd p)"
  have iok: "ids_ok ?L (set (committed s)) (set (aborted s)) ?P (nextXid s) (written s)" using served_xids_ok [OF sv] by (simp add: xids_ok_def)
  note dis = ids_okD(6-8) [OF iok]
  have r: "t_xmin t = x" "has_info t HEAP_XMAX_INVALID" and hc: "HeapTupleHeaderXminCommitted t \<Longrightarrow> x \<in> set (committed s)"
    and hi: "HeapTupleHeaderXminInvalid t \<Longrightarrow> x \<in> set (aborted s)" using row by (auto simp: row_of_def)
  have e: "xact_env.TransactionIdIsCurrentTransactionId ?e x \<longleftrightarrow> x \<in> ?L" "TransactionIdIsInProgress ?e x \<longleftrightarrow> x \<in> ?L \<union> ?P"
    "TransactionIdDidCommit ?e x \<longleftrightarrow> x \<in> set (committed s)" "LatestFetchTransactionIdDidAbort ?e x \<longleftrightarrow> x \<in> set (aborted s)"
    using own_xid_iff [OF sv] by (simp_all add: session_view_def)
  have sm: "SatisfiesSelf_xmax ?e u = Inr (True, u)" if "has_info u HEAP_XMAX_INVALID" for u using that by (simp add: SatisfiesSelf_xmax_def)
  consider "x \<in> ?L" "x \<notin> set (committed s)" "x \<notin> set (aborted s)" | "x \<in> set (committed s)" "x \<notin> ?L" "x \<notin> ?P" "x \<notin> set (aborted s)"
    | "x \<in> set (aborted s)" "x \<notin> ?L" "x \<notin> ?P" "x \<notin> set (committed s)" | "x \<in> ?P" "x \<notin> ?L" "x \<notin> set (committed s)" "x \<notin> set (aborted s)"
    using x dis by blast
  then show ?thesis
  proof cases
    case 1
    then show ?thesis using hc hi r e
      by (auto simp: sees_def HeapTupleSatisfiesSelf_def DealCurrentTansactionNotCommited_def)
  next
    case 2
    then show ?thesis using hi r e sm [OF r(2)] sm [OF SetHintBits_keeps_xmax_invalid [OF r(2)]]
      by (cases "HeapTupleHeaderXminCommitted t") (auto simp: sees_def HeapTupleSatisfiesSelf_def)
  next
    case 3
    then show ?thesis using hc r e by (auto simp: sees_def HeapTupleSatisfiesSelf_def)
  next
    case 4
    then show ?thesis using hc hi r e by (auto simp: sees_def HeapTupleSatisfiesSelf_def)
  qed
qed

lemma open_items_eq:
  assumes "served s"
  shows "open_items (txn (abs_db s)) = items_of (written s) (set (live_xids (frames s)))"
proof -
  have "sorted_wrt (<) (live_xids (frames s))" using served_xids_ok [OF assms] by (simp add: xids_ok_def frames_ok_def)
  then have d: "distinct (live_xids (frames s))" by (rule sorted_distinct)
  have "ready (frames s)" using session_run_ready [OF served_session_run [OF assms]] by simp
  then show ?thesis
  proof (cases rule: ready.cases)
    case (idle t)
    then show ?thesis by (simp add: abs_db_def abs_txn_def acc_xids_def own_xids_def)
  next
    case in_block
    then show ?thesis using all_items_levels [OF d, of "written s"] by (simp add: txn_live)
  next
    case (failed t)
    then show ?thesis by (simp add: abs_db_def abs_txn_def acc_xids_def)
  next
    case (sub_failed c fs)
    have "acc_xids c = []" using sub_failed by (simp add: acc_xids_def)
    then show ?thesis using sub_failed d all_items_levels [of fs "written s"] by (simp add: abs_db_def abs_txn_def)
  qed
qed



end
