(* ===== verification/Lock_Table.thy ===== *)
theory Lock_Table
  imports Prelude
begin

text \<open>
  The shared lock table of \<open>src/gausskernel/storage/lmgr/lock.cpp\<close> and \<open>proc.cpp\<close>: lock modes and their conflicts, requesting, granting,
  releasing and waiting for locks. A partition lock is held during each of these, so that each is one step. The fast path for
  weak relation locks, the per-backend table of locks already held, hash codes and partitions, semaphores, signals, shared-storage locks and the
  information kept for messages (\<open>ProcBlockerUpdate\<close>, wait events) are not modelled.
\<close>

section \<open>Lock modes\<close>

type_synonym LOCKMODE = nat
type_synonym LOCKMASK = uint32

definition LOCKBIT_ON :: "LOCKMODE \<Rightarrow> LOCKMASK" where
  "LOCKBIT_ON lockmode = push_bit lockmode 1"

definition LOCKBIT_OFF :: "LOCKMODE \<Rightarrow> LOCKMASK" where
  "LOCKBIT_OFF lockmode = NOT (push_bit lockmode 1)"

abbreviation (input) AccessShareLock :: LOCKMODE where "AccessShareLock \<equiv> 1"
abbreviation (input) RowShareLock :: LOCKMODE where "RowShareLock \<equiv> 2"
abbreviation (input) RowExclusiveLock :: LOCKMODE where "RowExclusiveLock \<equiv> 3"
abbreviation (input) ShareUpdateExclusiveLock :: LOCKMODE where "ShareUpdateExclusiveLock \<equiv> 4"
abbreviation (input) ShareLock :: LOCKMODE where "ShareLock \<equiv> 5"
abbreviation (input) ShareRowExclusiveLock :: LOCKMODE where "ShareRowExclusiveLock \<equiv> 6"
abbreviation (input) ExclusiveLock :: LOCKMODE where "ExclusiveLock \<equiv> 7"
abbreviation (input) AccessExclusiveLock :: LOCKMODE where "AccessExclusiveLock \<equiv> 8"

definition lockbits :: "LOCKMODE list \<Rightarrow> LOCKMASK" where
  "lockbits ms = foldr (\<lambda>m r. LOCKBIT_ON m OR r) ms 0"

definition LockConflicts :: "LOCKMASK list" where
  "LockConflicts =
    [0,
     lockbits [AccessExclusiveLock],
     lockbits [ExclusiveLock, AccessExclusiveLock],
     lockbits [ShareLock, ShareRowExclusiveLock, ExclusiveLock, AccessExclusiveLock],
     lockbits [ShareUpdateExclusiveLock, ShareLock, ShareRowExclusiveLock, ExclusiveLock, AccessExclusiveLock],
     lockbits [RowExclusiveLock, ShareUpdateExclusiveLock, ShareRowExclusiveLock, ExclusiveLock, AccessExclusiveLock],
     lockbits [RowExclusiveLock, ShareUpdateExclusiveLock, ShareLock, ShareRowExclusiveLock, ExclusiveLock, AccessExclusiveLock],
     lockbits [RowShareLock, RowExclusiveLock, ShareUpdateExclusiveLock, ShareLock, ShareRowExclusiveLock, ExclusiveLock,
       AccessExclusiveLock],
     lockbits [AccessShareLock, RowShareLock, RowExclusiveLock, ShareUpdateExclusiveLock, ShareLock, ShareRowExclusiveLock,
       ExclusiveLock, AccessExclusiveLock]]"

text \<open>Both lock methods, the default one and the one of user locks, have the same modes and this table.\<close>

definition numLockModes :: nat where
  "numLockModes = AccessExclusiveLock"

definition conflictTab :: "LOCKMODE \<Rightarrow> LOCKMASK" where
  "conflictTab lockmode = LockConflicts ! lockmode"

definition DoLockModesConflict :: "LOCKMODE \<Rightarrow> LOCKMODE \<Rightarrow> bool" where
  "DoLockModesConflict mode1 mode2 \<longleftrightarrow> conflictTab mode1 AND LOCKBIT_ON mode2 \<noteq> 0"

section \<open>Locks and processes\<close>

record LOCKTAG =
  locktag_field1 :: uint32
  locktag_field2 :: uint32
  locktag_field3 :: uint32
  locktag_field4 :: uint32
  locktag_field5 :: uint16
  locktag_type :: uint8
  locktag_lockmethodid :: uint8

type_synonym procid = nat

text \<open>
  A pointer to a \<open>PGPROC\<close> is a number, a pointer to a \<open>LOCK\<close> its tag, under which the hash table has it once, and a pointer to a
  \<open>PROCLOCK\<close> its hash key, lock and process. \<open>links\<close> says whether the process is linked into a wait queue (\<open>links.next \<noteq> NULL\<close>);
  \<open>vacuumFlags\<close> is the field of its \<open>PGXACT\<close>.
\<close>

record PGPROC =
  pid :: uint64
  links :: bool
  lockGroupLeader :: "procid option"
  lockGroupMembers :: "procid list"
  waitLock :: "LOCKTAG option"
  waitProcLock :: "(LOCKTAG \<times> procid) option"
  waitLockMode :: LOCKMODE
  heldLocks :: LOCKMASK
  waitStatus :: int
  vacuumFlags :: uint8

record PROCLOCK =
  myProc :: procid
  groupLeader :: procid
  holdMask :: LOCKMASK

record LOCK =
  grantMask :: LOCKMASK
  waitMask :: LOCKMASK
  procLocks :: "PROCLOCK list"
  waitProcs :: "procid list"
  requested :: "LOCKMODE \<Rightarrow> int"
  nRequested :: int
  granted :: "LOCKMODE \<Rightarrow> int"
  nGranted :: int

record lock_space =
  procs :: "procid \<Rightarrow> PGPROC"
  locks :: "LOCKTAG \<Rightarrow> LOCK option"

text \<open>
  Threads of one stream query work for the same transaction with different processes. The group of a query has the thread of the top consumer, and the threads of
  its producers in an array, from index 1.
\<close>

record StreamNodeGroup =
  m_pid :: uint64
  m_streamArray :: "uint64 option list"

definition inNodeGroup :: "StreamNodeGroup \<Rightarrow> uint64 \<Rightarrow> uint64 \<Rightarrow> bool" where
  "inNodeGroup g pid1 pid2 =
     (if pid1 = pid2 then False
      else if pid1 = m_pid g \<or> pid2 = m_pid g then list_ex (\<lambda>t. t = Some pid2 \<or> t = Some pid1) (tl (m_streamArray g))
      else False)"

definition IsInSameTransaction ::
  "StreamNodeGroup list \<Rightarrow> StreamNodeGroup option \<Rightarrow> (procid \<Rightarrow> PGPROC) \<Rightarrow> procid \<Rightarrow> procid \<Rightarrow> bool" where
  "IsInSameTransaction cursorNodeGroupList global_obj ps p q =
     (if cursorNodeGroupList \<noteq> [] \<and> list_ex (\<lambda>g. inNodeGroup g (pid (ps p)) (pid (ps q))) cursorNodeGroupList then True
      else case global_obj of None \<Rightarrow> False | Some g \<Rightarrow> inNodeGroup g (pid (ps p)) (pid (ps q)))"

text \<open>
  What the running thread knows: its process, whether it takes part in a stream query (\<open>in_stream\<close>: \<open>StreamTopConsumerAmI() || StreamThreadAmI()\<close>) or has an open cursor over one, which processes then belong to the same
  transaction (\<open>same_transaction\<close>, the answers of \<open>IsInSameTransaction\<close> for the stream objects of its session), whether the shared hash tables have room, and thread-local variables.
\<close>

record lock_thread =
  me :: procid
  in_stream :: bool
  has_backend_cursor_stream :: bool
  same_transaction :: "procid \<Rightarrow> procid \<Rightarrow> bool"
  lock_room :: bool
  proclock_room :: bool
  max_blocking_autovacuum_proc_num :: nat
  redistribution_cancelable :: bool
  blocking_redistribution_proc :: "procid option"
  blocking_autovacuum_proc :: "procid list"

abbreviation (input) STATUS_OK :: int where "STATUS_OK \<equiv> 0"
abbreviation (input) STATUS_FOUND :: int where "STATUS_FOUND \<equiv> 1"
abbreviation (input) STATUS_WAITING :: int where "STATUS_WAITING \<equiv> 2"
abbreviation (input) STATUS_FOUND_NEED_CANCEL :: int where "STATUS_FOUND_NEED_CANCEL \<equiv> 3"
abbreviation (input) STATUS_ERROR :: int where "STATUS_ERROR \<equiv> - 1"

definition PROC_IS_AUTOVACUUM :: uint8 where
  "PROC_IS_AUTOVACUUM = 1"

definition PROC_IS_REDIST :: uint8 where
  "PROC_IS_REDIST = 16"

definition lock_at :: "lock_space \<Rightarrow> LOCKTAG \<Rightarrow> LOCK" where
  "lock_at s l = the (locks s l)"

definition proclock_at :: "LOCK \<Rightarrow> procid \<Rightarrow> PROCLOCK" where
  "proclock_at k p = the (List.find (\<lambda>pl. myProc pl = p) (procLocks k))"

definition upd_proc :: "procid \<Rightarrow> (PGPROC \<Rightarrow> PGPROC) \<Rightarrow> lock_space \<Rightarrow> lock_space" where
  "upd_proc p f s = s\<lparr>procs := (procs s)(p := f (procs s p))\<rparr>"

definition upd_lock :: "LOCKTAG \<Rightarrow> (LOCK \<Rightarrow> LOCK) \<Rightarrow> lock_space \<Rightarrow> lock_space" where
  "upd_lock l f s = s\<lparr>locks := (locks s)(l := map_option f (locks s l))\<rparr>"

definition upd_proclock :: "procid \<Rightarrow> (PROCLOCK \<Rightarrow> PROCLOCK) \<Rightarrow> PROCLOCK list \<Rightarrow> PROCLOCK list" where
  "upd_proclock p f = map (\<lambda>pl. if myProc pl = p then f pl else pl)"

text \<open>\<open>(proc->lockGroupLeader == NULL) ? proc : proc->lockGroupLeader\<close>\<close>

definition leader_of :: "lock_space \<Rightarrow> procid \<Rightarrow> procid" where
  "leader_of s p = (case lockGroupLeader (procs s p) of None \<Rightarrow> p | Some q \<Rightarrow> q)"

definition IsOtherProcRedistribution :: "lock_space \<Rightarrow> procid \<Rightarrow> bool" where
  "IsOtherProcRedistribution s p \<longleftrightarrow> vacuumFlags (procs s p) AND PROC_IS_REDIST \<noteq> 0"

section \<open>Conflicts with granted locks\<close>

definition IsInSameLockGroup :: "PROCLOCK \<Rightarrow> PROCLOCK \<Rightarrow> bool" where
  "IsInSameLockGroup pl1 pl2 \<longleftrightarrow> myProc pl1 \<noteq> myProc pl2 \<and> groupLeader pl1 = groupLeader pl2"

definition in_lock_group :: "lock_thread \<Rightarrow> lock_space \<Rightarrow> PROCLOCK \<Rightarrow> bool" where
  "in_lock_group th s pl \<longleftrightarrow> groupLeader pl \<noteq> me th \<or> lockGroupLeader (procs s (me th)) \<noteq> None"

text \<open>\<open>myHolding\<close>: how many of the granted locks of a mode are our own.\<close>

definition my_holding :: "lock_thread \<Rightarrow> lock_space \<Rightarrow> LOCK \<Rightarrow> PROCLOCK \<Rightarrow> procid \<Rightarrow> LOCKMODE \<Rightarrow> int" where
  "my_holding th s k pl p i =
     (if holdMask pl AND LOCKBIT_ON i \<noteq> 0 then 1 else 0) +
     (if in_stream th \<or> has_backend_cursor_stream th \<or> in_lock_group th s pl
      then int (length (filter (\<lambda>other.
             (\<not> in_lock_group th s pl \<and> same_transaction th (myProc other) p \<or>
              in_lock_group th s pl \<and> IsInSameLockGroup pl other) \<and> holdMask other AND LOCKBIT_ON i \<noteq> 0) (procLocks k)))
      else 0)"

definition other_locks :: "lock_thread \<Rightarrow> lock_space \<Rightarrow> LOCK \<Rightarrow> PROCLOCK \<Rightarrow> procid \<Rightarrow> LOCKMASK" where
  "other_locks th s k pl p =
     fold (\<lambda>i r. if granted k i > my_holding th s k pl p i then r OR LOCKBIT_ON i else r) [1..<numLockModes + 1] 0"

text \<open>The last holder that is a redistribution worker in the way of a DROP or TRUNCATE.\<close>

definition find_redistribution :: "lock_thread \<Rightarrow> lock_space \<Rightarrow> LOCK \<Rightarrow> procid \<Rightarrow> LOCKMODE \<Rightarrow> lock_thread" where
  "find_redistribution th s k p lockmode =
     (if redistribution_cancelable th \<and> lockmode = AccessExclusiveLock
      then fold (\<lambda>other t.
             if pid (procs s (myProc other)) \<noteq> pid (procs s p) \<and> conflictTab lockmode AND holdMask other \<noteq> 0 \<and>
                IsOtherProcRedistribution s (myProc other)
             then t\<lparr>blocking_redistribution_proc := Some (myProc other)\<rparr> else t) (procLocks k) th
      else th)"

definition LockCheckConflicts :: "lock_thread \<Rightarrow> lock_space \<Rightarrow> LOCKMODE \<Rightarrow> LOCKTAG \<Rightarrow> procid \<Rightarrow> int \<times> lock_thread" where
  "LockCheckConflicts th s lockmode l p =
     (let k = lock_at s l; pl = proclock_at k p in
      if conflictTab lockmode AND grantMask k = 0 then (STATUS_OK, th)
      else let th' = find_redistribution th s k p lockmode in
        if conflictTab lockmode AND other_locks th s k pl p = 0 then (STATUS_OK, th')
        else case blocking_redistribution_proc th' of
          None \<Rightarrow> (STATUS_FOUND, th')
        | Some r \<Rightarrow> if IsOtherProcRedistribution s r then (STATUS_FOUND_NEED_CANCEL, th')
                    else (STATUS_FOUND, th'\<lparr>blocking_redistribution_proc := None\<rparr>))"

section \<open>Granting and waking\<close>

definition GrantLock :: "LOCKTAG \<Rightarrow> procid \<Rightarrow> LOCKMODE \<Rightarrow> lock_space \<Rightarrow> lock_space" where
  "GrantLock l p lockmode = upd_lock l (\<lambda>k. k\<lparr>
     nGranted := nGranted k + 1,
     granted := (granted k)(lockmode := granted k lockmode + 1),
     grantMask := grantMask k OR LOCKBIT_ON lockmode,
     waitMask := (if granted k lockmode + 1 = requested k lockmode then waitMask k AND LOCKBIT_OFF lockmode else waitMask k),
     procLocks := upd_proclock p (\<lambda>pl. pl\<lparr>holdMask := holdMask pl OR LOCKBIT_ON lockmode\<rparr>) (procLocks k)\<rparr>)"

text \<open>Taking a process off the queue it waits in. \<open>SHMQueueDelete\<close> clears its links.\<close>

definition ProcWakeup :: "procid \<Rightarrow> int \<Rightarrow> lock_space \<Rightarrow> lock_space" where
  "ProcWakeup p status s =
     (if \<not> links (procs s p) then s
      else upd_proc p (\<lambda>q. q\<lparr>links := False, waitLock := None, waitProcLock := None, waitStatus := status\<rparr>)
        (upd_lock (the (waitLock (procs s p))) (\<lambda>k. k\<lparr>waitProcs := remove1 p (waitProcs k)\<rparr>) s))"

text \<open>
  One pass over the queue as it was at the start: the code saves the next process before it takes one off. A waiter is woken
  unless it conflicts with a waiter ahead of it that stays, or with a lock held.
\<close>

primrec wakeup_scan ::
  "LOCKTAG \<Rightarrow> procid list \<Rightarrow> LOCKMASK \<Rightarrow> lock_thread \<times> lock_space \<Rightarrow> lock_thread \<times> lock_space" where
  "wakeup_scan l [] ahead ts = ts"
| "wakeup_scan l (p # ps) ahead ts =
     (let (th, s) = ts; lockmode = waitLockMode (procs s p) in
      if conflictTab lockmode AND ahead \<noteq> 0 then wakeup_scan l ps (ahead OR LOCKBIT_ON lockmode) (th, s)
      else let (status, th') = LockCheckConflicts th s lockmode l p in
        if status = STATUS_OK then wakeup_scan l ps ahead (th', ProcWakeup p STATUS_OK (GrantLock l p lockmode s))
        else wakeup_scan l ps (ahead OR LOCKBIT_ON lockmode) (th', s))"

definition ProcLockWakeup :: "LOCKTAG \<Rightarrow> lock_thread \<times> lock_space \<Rightarrow> lock_thread \<times> lock_space" where
  "ProcLockWakeup l ts = wakeup_scan l (waitProcs (lock_at (snd ts) l)) 0 ts"

section \<open>Releasing\<close>

definition UnGrantLock :: "LOCKTAG \<Rightarrow> LOCKMODE \<Rightarrow> procid \<Rightarrow> lock_space \<Rightarrow> bool \<times> lock_space" where
  "UnGrantLock l lockmode p s =
     (conflictTab lockmode AND waitMask (lock_at s l) \<noteq> 0,
      upd_lock l (\<lambda>k. k\<lparr>
        nRequested := nRequested k - 1,
        requested := (requested k)(lockmode := requested k lockmode - 1),
        nGranted := nGranted k - 1,
        granted := (granted k)(lockmode := granted k lockmode - 1),
        grantMask := (if granted k lockmode - 1 = 0 then grantMask k AND LOCKBIT_OFF lockmode else grantMask k),
        procLocks := upd_proclock p (\<lambda>pl. pl\<lparr>holdMask := holdMask pl AND LOCKBIT_OFF lockmode\<rparr>) (procLocks k)\<rparr>) s)"

text \<open>The hash entry of a process without locks left goes, then that of a lock without requests; otherwise waiters may be woken.\<close>

definition drop_empty_proclock :: "LOCKTAG \<Rightarrow> procid \<Rightarrow> lock_space \<Rightarrow> lock_space" where
  "drop_empty_proclock l p =
     upd_lock l (\<lambda>k. k\<lparr>procLocks := filter (\<lambda>pl. \<not> (myProc pl = p \<and> holdMask pl = 0)) (procLocks k)\<rparr>)"

definition CleanUpLock :: "LOCKTAG \<Rightarrow> procid \<Rightarrow> bool \<Rightarrow> lock_thread \<times> lock_space \<Rightarrow> lock_thread \<times> lock_space" where
  "CleanUpLock l p wakeupNeeded ts =
     (let th = fst ts; s = drop_empty_proclock l p (snd ts) in
      if nRequested (lock_at s l) = 0 then (th, s\<lparr>locks := (locks s)(l := None)\<rparr>)
      else if wakeupNeeded then ProcLockWakeup l (th, s)
      else (th, s))"

definition RemoveFromWaitQueue :: "procid \<Rightarrow> lock_thread \<times> lock_space \<Rightarrow> lock_thread \<times> lock_space" where
  "RemoveFromWaitQueue p ts =
     (let th = fst ts; s = snd ts; l = the (waitLock (procs s p)); proclock = the (waitProcLock (procs s p));
          lockmode = waitLockMode (procs s p);
          s1 = upd_lock l (\<lambda>k. k\<lparr>
             waitProcs := remove1 p (waitProcs k),
             nRequested := nRequested k - 1,
             requested := (requested k)(lockmode := requested k lockmode - 1),
             waitMask := (if granted k lockmode = requested k lockmode - 1 then waitMask k AND LOCKBIT_OFF lockmode else waitMask k)\<rparr>) s;
          s2 = upd_proc p (\<lambda>q. q\<lparr>links := False, waitLock := None, waitProcLock := None, waitStatus := STATUS_ERROR\<rparr>) s1
      in CleanUpLock l (snd proclock) True (th, s2))"

text \<open>The part of \<open>LockRelease\<close> that works on the shared table; \<open>False\<close> with a warning if the mode is not held.\<close>

definition release_shared :: "LOCKTAG \<Rightarrow> LOCKMODE \<Rightarrow> lock_thread \<times> lock_space \<Rightarrow> bool \<times> lock_thread \<times> lock_space" where
  "release_shared l lockmode ts =
     (let th = fst ts; s = snd ts in
      if holdMask (proclock_at (lock_at s l) (me th)) AND LOCKBIT_ON lockmode = 0 then (False, ts)
      else let (wakeupNeeded, s') = UnGrantLock l lockmode (me th) s in (True, CleanUpLock l (me th) wakeupNeeded (th, s')))"

text \<open>
  \<open>LockReleaseAll\<close> for the locks of one lock method that the process holds, in the order of its lists; each comes with the
  \<open>releaseMask\<close> of its entry, the modes that the scan over the thread's own table has marked. \<open>None\<close> is the panic for a mark that is not held.
\<close>

definition ungrant_marked :: "LOCKTAG \<Rightarrow> procid \<Rightarrow> LOCKMASK \<Rightarrow> lock_space \<Rightarrow> bool \<times> lock_space" where
  "ungrant_marked l p release s =
     fold (\<lambda>i (wakeupNeeded, s). if release AND LOCKBIT_ON i \<noteq> 0
                     then (case UnGrantLock l i p s of (w, s') \<Rightarrow> (wakeupNeeded \<or> w, s')) else (wakeupNeeded, s))
       [1..<numLockModes + 1] (False, s)"

definition release_proclock :: "bool \<Rightarrow> LOCKTAG \<Rightarrow> LOCKMASK \<Rightarrow> lock_thread \<times> lock_space \<Rightarrow> (lock_thread \<times> lock_space) option" where
  "release_proclock allLocks l releaseMask ts =
     (let th = fst ts; p = me th; held = holdMask (proclock_at (lock_at (snd ts) l) p);
          release = (if allLocks then held else releaseMask) in
      if \<not> allLocks \<and> releaseMask AND NOT held \<noteq> 0 then None
      else if release = 0 \<and> held \<noteq> 0 then Some ts
      else case ungrant_marked l p release (snd ts) of (wakeupNeeded, s) \<Rightarrow> Some (CleanUpLock l p wakeupNeeded (th, s)))"

primrec LockReleaseAll ::
  "uint8 \<Rightarrow> bool \<Rightarrow> (LOCKTAG \<times> LOCKMASK) list \<Rightarrow> lock_thread \<times> lock_space \<Rightarrow> (lock_thread \<times> lock_space) option" where
  "LockReleaseAll lockmethodid allLocks [] ts = Some ts"
| "LockReleaseAll lockmethodid allLocks (pl # pls) ts =
     (if locktag_lockmethodid (fst pl) \<noteq> lockmethodid then LockReleaseAll lockmethodid allLocks pls ts
      else case release_proclock allLocks (fst pl) (snd pl) ts of
          None \<Rightarrow> None
        | Some ts' \<Rightarrow> LockReleaseAll lockmethodid allLocks pls ts')"

section \<open>Requesting\<close>

definition new_lock :: LOCK where
  "new_lock = \<lparr>grantMask = 0, waitMask = 0, procLocks = [], waitProcs = [], requested = (\<lambda>_. 0), nRequested = 0,
     granted = (\<lambda>_. 0), nGranted = 0\<rparr>"

datatype setup_result = NO_PROCLOCK | PROCLOCK_READY | ALREADY_HELD

text \<open>
  \<open>NO_PROCLOCK\<close> is the null pointer returned when a hash table is full; \<open>ALREADY_HELD\<close> the error
  \<open>ERRCODE_LOCK_NOT_AVAILABLE\<close>, raised after the counts have been incremented.
\<close>

definition SetupLockInTable :: "lock_thread \<Rightarrow> procid \<Rightarrow> LOCKTAG \<Rightarrow> LOCKMODE \<Rightarrow> lock_space \<Rightarrow> setup_result \<times> lock_space" where
  "SetupLockInTable th p l lockmode s =
     (if locks s l = None \<and> \<not> lock_room th then (NO_PROCLOCK, s)
      else let s1 = (if locks s l = None then s\<lparr>locks := (locks s)(l \<mapsto> new_lock)\<rparr> else s);
               k = lock_at s1 l; found = (\<exists>pl \<in> set (procLocks k). myProc pl = p) in
        if \<not> found \<and> \<not> proclock_room th
        then (NO_PROCLOCK, if nRequested k = 0 then s1\<lparr>locks := (locks s1)(l := None)\<rparr> else s1)
        else let s2 = (if found then s1
                       else upd_lock l (\<lambda>k. k\<lparr>procLocks := procLocks k @ [\<lparr>myProc = p, groupLeader = leader_of s p, holdMask = 0\<rparr>]\<rparr>) s1);
                 s3 = upd_lock l (\<lambda>k. k\<lparr>nRequested := nRequested k + 1,
                        requested := (requested k)(lockmode := requested k lockmode + 1)\<rparr>) s2
             in (if holdMask (proclock_at (lock_at s3 l) p) AND LOCKBIT_ON lockmode \<noteq> 0 then ALREADY_HELD else PROCLOCK_READY, s3))"

text \<open>
  Where \<open>ProcSleep\<close> puts a process that holds locks: in front of the first waiter that has to wait for it. That waiter may hold a lock
  in its way (an early deadlock), or the place may be free of conflicts, and then the lock is granted at once.
\<close>

datatype sleep_place = Sleep_Before nat | Early_Deadlock nat | Skip_Wait

primrec sleep_scan ::
  "lock_space \<Rightarrow> LOCKTAG \<Rightarrow> LOCKMODE \<Rightarrow> LOCKMASK \<Rightarrow> procid list \<Rightarrow> nat \<Rightarrow> LOCKMASK \<Rightarrow> lock_thread \<Rightarrow> sleep_place \<times> lock_thread" where
  "sleep_scan s l lockmode held [] i ahead th = (Sleep_Before i, th)"
| "sleep_scan s l lockmode held (q # qs) i ahead th =
     (if lockGroupLeader (procs s (me th)) \<noteq> None \<and> lockGroupLeader (procs s (me th)) = lockGroupLeader (procs s q)
      then sleep_scan s l lockmode held qs (i + 1) ahead th
      else if conflictTab (waitLockMode (procs s q)) AND held \<noteq> 0 then
        if conflictTab lockmode AND heldLocks (procs s q) \<noteq> 0 then (Early_Deadlock i, th)
        else if conflictTab lockmode AND ahead = 0 then
          let (status, th') = LockCheckConflicts th s lockmode l (me th) in
          if status = STATUS_OK then (Skip_Wait, th') else (Sleep_Before i, th')
        else (Sleep_Before i, th)
      else sleep_scan s l lockmode held qs (i + 1) (ahead OR LOCKBIT_ON (waitLockMode (procs s q))) th)"

definition my_held_locks :: "lock_thread \<Rightarrow> lock_space \<Rightarrow> LOCKTAG \<Rightarrow> LOCKMASK" where
  "my_held_locks th s l =
     (case lockGroupLeader (procs s (me th)) of None \<Rightarrow> heldLocks (procs s (me th))
      | Some g \<Rightarrow> fold (\<lambda>pl r. if groupLeader pl = g then r OR holdMask pl else r) (procLocks (lock_at s l)) (heldLocks (procs s (me th))))"

definition join_queue :: "LOCKTAG \<Rightarrow> LOCKMODE \<Rightarrow> nat \<Rightarrow> procid \<Rightarrow> lock_space \<Rightarrow> lock_space" where
  "join_queue l lockmode i p s =
     upd_proc p (\<lambda>q. q\<lparr>links := True, waitLock := Some l, waitProcLock := Some (l, p), waitLockMode := lockmode,
         waitStatus := STATUS_WAITING\<rparr>)
       (upd_lock l (\<lambda>k. k\<lparr>waitProcs := take i (waitProcs k) @ [p] @ drop i (waitProcs k),
          waitMask := waitMask k OR LOCKBIT_ON lockmode\<rparr>) s)"

datatype sleep_result = Got_Lock | Asleep | Deadlock | Corrupt_Queue

text \<open>
  \<open>ProcSleep\<close> up to the point where the process goes to sleep; \<open>Corrupt_Queue\<close> is the error raised for a process
  that is waiting already. In the build for a single node a stream thread looks at the granted locks once more.
\<close>

definition ProcSleep :: "LOCKTAG \<Rightarrow> LOCKMODE \<Rightarrow> lock_thread \<times> lock_space \<Rightarrow> sleep_result \<times> lock_thread \<times> lock_space" where
  "ProcSleep l lockmode ts =
     (let th = fst ts; s = snd ts; held = my_held_locks th s l; queue = waitProcs (lock_at s l);
          (place, th1) = (if held \<noteq> 0 then sleep_scan s l lockmode held queue 0 0 th else (Sleep_Before (length queue), th)) in
      if place = Skip_Wait then (Got_Lock, th1, GrantLock l (me th) lockmode s)
      else let (status, th2) = (if in_stream th then LockCheckConflicts th1 s lockmode l (me th) else (STATUS_FOUND, th1)) in
        if status = STATUS_OK then (Got_Lock, th2, GrantLock l (me th) lockmode s)
        else if waitStatus (procs s (me th)) = STATUS_WAITING then (Corrupt_Queue, th2, s)
        else case place of
          Early_Deadlock i \<Rightarrow> (Deadlock, RemoveFromWaitQueue (me th) (th2, join_queue l lockmode i (me th) s))
        | Sleep_Before i \<Rightarrow> (Asleep, th2, join_queue l lockmode i (me th) s)
        | Skip_Wait \<Rightarrow> (Got_Lock, th2, s))"

datatype lock_error = OUT_OF_MEMORY | LOCK_ALREADY_HELD | DEADLOCK_DETECTED | QUEUE_CORRUPTED
datatype acquire_result = LOCKACQUIRE_OK | LOCKACQUIRE_NOT_AVAIL | LOCKACQUIRE_WAITS | LOCKACQUIRE_ERROR lock_error

text \<open>The request in \<open>LockAcquireExtendedXC\<close> that conflicts with waiters: the first redistribution worker among them may be cancelled.\<close>

definition waiting_redistribution :: "lock_thread \<Rightarrow> lock_space \<Rightarrow> LOCKMODE \<Rightarrow> LOCKTAG \<Rightarrow> int \<times> lock_thread" where
  "waiting_redistribution th s lockmode l =
     (case List.find (IsOtherProcRedistribution s) (waitProcs (lock_at s l)) of
        Some q \<Rightarrow> if redistribution_cancelable th \<and> lockmode = AccessExclusiveLock
                  then (STATUS_FOUND_NEED_CANCEL, th\<lparr>blocking_redistribution_proc := Some q\<rparr>) else (STATUS_FOUND, th)
      | None \<Rightarrow> (STATUS_FOUND, th))"

text \<open>A failed request without waiting: the entries made for it go.\<close>

definition undo_request :: "LOCKTAG \<Rightarrow> LOCKMODE \<Rightarrow> procid \<Rightarrow> lock_space \<Rightarrow> lock_space" where
  "undo_request l lockmode p s =
     upd_lock l (\<lambda>k. k\<lparr>nRequested := nRequested k - 1, requested := (requested k)(lockmode := requested k lockmode - 1)\<rparr>)
       (drop_empty_proclock l p s)"

text \<open>
  The part of \<open>LockAcquireExtendedXC\<close> that works on the shared table, up to the grant, the refusal or the sleep.
  \<open>CancelBlockedRedistWorker\<close> takes the blocking process (\<open>GetBlockingRedistributionPgproc\<close>) and signals it.
\<close>

definition acquire_shared ::
  "LOCKTAG \<Rightarrow> LOCKMODE \<Rightarrow> bool \<Rightarrow> bool \<Rightarrow> lock_thread \<times> lock_space \<Rightarrow> acquire_result \<times> lock_thread \<times> lock_space" where
  "acquire_shared l lockmode dontWait reportMemoryError ts =
     (let th = fst ts; p = me th; (setup, s) = SetupLockInTable th p l lockmode (snd ts) in
      case setup of
        NO_PROCLOCK \<Rightarrow> (if reportMemoryError then LOCKACQUIRE_ERROR OUT_OF_MEMORY else LOCKACQUIRE_NOT_AVAIL, th, s)
      | ALREADY_HELD \<Rightarrow> (LOCKACQUIRE_ERROR LOCK_ALREADY_HELD, th, s)
      | PROCLOCK_READY \<Rightarrow>
          let (status, th1) = (if conflictTab lockmode AND waitMask (lock_at s l) \<noteq> 0 then waiting_redistribution th s lockmode l
                               else LockCheckConflicts th s lockmode l p) in
          if status = STATUS_OK then (LOCKACQUIRE_OK, th1, GrantLock l p lockmode s)
          else if dontWait then (LOCKACQUIRE_NOT_AVAIL, th1, undo_request l lockmode p s)
          else let th2 = (if status = STATUS_FOUND_NEED_CANCEL
                          then th1\<lparr>blocking_redistribution_proc := None, redistribution_cancelable := False\<rparr> else th1);
                   s1 = upd_proc p (\<lambda>q. q\<lparr>heldLocks := holdMask (proclock_at (lock_at s l) p)\<rparr>) s in
            case ProcSleep l lockmode (th2, s1) of
              (Got_Lock, ts') \<Rightarrow> (LOCKACQUIRE_OK, ts')
            | (Asleep, ts') \<Rightarrow> (LOCKACQUIRE_WAITS, ts')
            | (Deadlock, ts') \<Rightarrow> (LOCKACQUIRE_ERROR DEADLOCK_DETECTED, ts')
            | (Corrupt_Queue, ts') \<Rightarrow> (LOCKACQUIRE_ERROR QUEUE_CORRUPTED, ts'))"

section \<open>Lock groups\<close>

definition BecomeLockGroupLeader :: "procid \<Rightarrow> lock_space \<Rightarrow> lock_space" where
  "BecomeLockGroupLeader p s =
     (if lockGroupLeader (procs s p) = Some p then s
      else upd_proc p (\<lambda>q. q\<lparr>lockGroupLeader := Some p, lockGroupMembers := p # lockGroupMembers q\<rparr>) s)"

definition BecomeLockGroupMember :: "procid \<Rightarrow> procid \<Rightarrow> lock_space \<Rightarrow> lock_space" where
  "BecomeLockGroupMember leader p s =
     upd_proc leader (\<lambda>q. q\<lparr>lockGroupMembers := lockGroupMembers q @ [p]\<rparr>) (upd_proc p (\<lambda>q. q\<lparr>lockGroupLeader := Some leader\<rparr>) s)"

end
