(* ===== verification/Lock_Invariants.thy ===== *)
theory Lock_Invariants
  imports Lock_Table
begin

text \<open>
  What the lock table keeps: the counts and masks of a lock describe its holders and waiters, no two processes hold conflicting
  locks, and every waiter is kept waiting by somebody.
\<close>

section \<open>Masks\<close>

lemma bit_LOCKBIT_ON [simp]: "bit (LOCKBIT_ON m) i \<longleftrightarrow> i = m \<and> m < 32"
  by (auto simp: LOCKBIT_ON_def bit_simps)

lemma bit_LOCKBIT_OFF [simp]: "bit (LOCKBIT_OFF m) i \<longleftrightarrow> i < 32 \<and> i \<noteq> m"
  by (auto simp: LOCKBIT_OFF_def bit_simps)

lemma bit_lt_32: "bit (w :: 32 word) i \<Longrightarrow> i < 32"
  using bit_imp_le_length [of w i] by simp

lemma mask_meets: "(a :: LOCKMASK) AND b \<noteq> 0 \<longleftrightarrow> (\<exists>i. bit a i \<and> bit b i)"
  by (auto simp: bit_eq_iff bit_simps) (metis bit_lt_32)

lemma mask_disjoint: "(a :: LOCKMASK) AND b = 0 \<longleftrightarrow> (\<forall>i. bit a i \<longrightarrow> \<not> bit b i)"
  using mask_meets [of a b] by blast

lemma mask_bit [simp]: "(a :: LOCKMASK) AND LOCKBIT_ON m = 0 \<longleftrightarrow> \<not> bit a m"
  by (auto simp: mask_disjoint dest: bit_lt_32)

lemma mask_zero: "(a :: LOCKMASK) = 0 \<longleftrightarrow> (\<forall>i. \<not> bit a i)"
  by (auto simp: bit_eq_iff) (metis bit_lt_32)

definition conflicts :: "LOCKMODE \<Rightarrow> LOCKMODE \<Rightarrow> bool" where
  "conflicts m i \<longleftrightarrow> bit (conflictTab m) i"

abbreviation modes :: "LOCKMODE set" where
  "modes \<equiv> {1..8}"

lemma conflict_table:
  "list_all (\<lambda>m. list_all (\<lambda>i. bit (conflictTab m) i \<longrightarrow> 1 \<le> i \<and> i \<le> 8 \<and> bit (conflictTab i) m) [0..<32]) [0..<9]"
  by code_simp

lemma conflicts_table: "conflicts m i \<Longrightarrow> m \<in> modes \<Longrightarrow> i \<in> modes \<and> conflicts i m"
  using conflict_table bit_lt_32 [of "conflictTab m" i]
  unfolding conflicts_def list_all_iff by (metis atLeastAtMost_iff atLeastLessThan_iff less_Suc_eq_le eval_nat_numeral(3) set_upt zero_le)

lemma conflicts_mode [dest]: "conflicts m i \<Longrightarrow> m \<in> modes \<Longrightarrow> i \<in> modes"
  using conflicts_table by blast

lemma conflicts_sym: "m \<in> modes \<Longrightarrow> i \<in> modes \<Longrightarrow> conflicts m i \<longleftrightarrow> conflicts i m"
  using conflicts_table by blast

lemma DoLockModesConflict_iff: "DoLockModesConflict m i \<longleftrightarrow> conflicts m i"
  by (simp add: DoLockModesConflict_def conflicts_def)

text \<open>A mask holds a mode that conflicts.\<close>

lemma conflictTab_meets: "conflictTab m AND w \<noteq> 0 \<longleftrightarrow> (\<exists>i. conflicts m i \<and> bit w i)"
  by (simp add: mask_meets conflicts_def)

section \<open>Counts\<close>

definition holders :: "LOCK \<Rightarrow> LOCKMODE \<Rightarrow> int" where
  "holders k i = int (length (filter (\<lambda>pl. bit (holdMask pl) i) (procLocks k)))"

definition waiters :: "(procid \<Rightarrow> PGPROC) \<Rightarrow> LOCK \<Rightarrow> LOCKMODE \<Rightarrow> int" where
  "waiters ps k i = int (length (filter (\<lambda>p. waitLockMode (ps p) = i) (waitProcs k)))"

text \<open>A request that has been counted, but is neither granted nor in the queue yet.\<close>

definition pending :: "(procid \<times> LOCKMODE) option \<Rightarrow> LOCKMODE \<Rightarrow> int" where
  "pending pend i = (case pend of Some (p, m) \<Rightarrow> if m = i then 1 else 0 | None \<Rightarrow> 0)"

definition counts_ok :: "(procid \<Rightarrow> PGPROC) \<Rightarrow> (procid \<times> LOCKMODE) option \<Rightarrow> LOCK \<Rightarrow> bool" where
  "counts_ok ps pend k \<longleftrightarrow>
     (\<forall>i. granted k i = holders k i) \<and>
     (\<forall>i. requested k i = holders k i + waiters ps k i + pending pend i) \<and>
     nGranted k = (\<Sum>i \<in> modes. holders k i) \<and>
     nRequested k = (\<Sum>i \<in> modes. requested k i) \<and>
     (\<forall>i. bit (grantMask k) i \<longleftrightarrow> holders k i > 0) \<and>
     (\<forall>i. waiters ps k i > 0 \<longrightarrow> bit (waitMask k) i) \<and>
     (\<forall>i. bit (waitMask k) i \<longrightarrow> waiters ps k i + pending pend i > 0)"

definition waiter_ok :: "lock_space \<Rightarrow> LOCKTAG \<Rightarrow> LOCK \<Rightarrow> procid \<Rightarrow> bool" where
  "waiter_ok s l k p \<longleftrightarrow>
     waitLock (procs s p) = Some l \<and> waitProcLock (procs s p) = Some (l, p) \<and> links (procs s p) \<and>
     waitStatus (procs s p) = STATUS_WAITING \<and> waitLockMode (procs s p) \<in> modes \<and>
     (\<exists>pl \<in> set (procLocks k). myProc pl = p \<and> holdMask pl = heldLocks (procs s p) \<and> \<not> bit (holdMask pl) (waitLockMode (procs s p)))"

text \<open>Only a waiter, a process with a pending request, or one about to be cleaned up has an entry without holding a lock.\<close>

definition proclock_ok ::
  "lock_space \<Rightarrow> (procid \<times> LOCKMODE) option \<Rightarrow> procid option \<Rightarrow> LOCK \<Rightarrow> PROCLOCK \<Rightarrow> bool" where
  "proclock_ok s pend spare k pl \<longleftrightarrow>
     (\<forall>i. bit (holdMask pl) i \<longrightarrow> i \<in> modes) \<and> groupLeader pl = leader_of s (myProc pl) \<and>
     (holdMask pl = 0 \<longrightarrow> myProc pl \<in> set (waitProcs k) \<or> (\<exists>m. pend = Some (myProc pl, m)) \<or> spare = Some (myProc pl))"

definition pend_ok :: "lock_space \<Rightarrow> (procid \<times> LOCKMODE) option \<Rightarrow> LOCK \<Rightarrow> bool" where
  "pend_ok s pend k \<longleftrightarrow> (\<forall>p m. pend = Some (p, m) \<longrightarrow>
     m \<in> modes \<and> p \<notin> set (waitProcs k) \<and> (\<exists>pl \<in> set (procLocks k). myProc pl = p \<and> \<not> bit (holdMask pl) m))"

definition lock_ok :: "lock_space \<Rightarrow> LOCKTAG \<Rightarrow> (procid \<times> LOCKMODE) option \<Rightarrow> procid option \<Rightarrow> LOCK \<Rightarrow> bool" where
  "lock_ok s l pend spare k \<longleftrightarrow>
     distinct (map myProc (procLocks k)) \<and> distinct (waitProcs k) \<and> counts_ok (procs s) pend k \<and> pend_ok s pend k \<and>
     (\<forall>p \<in> set (waitProcs k). waiter_ok s l k p) \<and> (\<forall>pl \<in> set (procLocks k). proclock_ok s pend spare k pl)"

definition links_ok :: "lock_space \<Rightarrow> bool" where
  "links_ok s \<longleftrightarrow> (\<forall>p. links (procs s p) \<or> waitStatus (procs s p) = STATUS_WAITING \<longrightarrow>
     (\<exists>l k. locks s l = Some k \<and> p \<in> set (waitProcs k)))"

definition locks_ok :: "lock_space \<Rightarrow> bool" where
  "locks_ok s \<longleftrightarrow> (\<forall>l k. locks s l = Some k \<longrightarrow> lock_ok s l None None k \<and> procLocks k \<noteq> []) \<and> links_ok s"

text \<open>In the middle of an operation on one lock.\<close>

definition at_lock ::
  "lock_space \<Rightarrow> LOCKTAG \<Rightarrow> (procid \<times> LOCKMODE) option \<Rightarrow> procid option \<Rightarrow> LOCK \<Rightarrow> bool" where
  "at_lock s l pend spare k \<longleftrightarrow> locks s l = Some k \<and> lock_ok s l pend spare k \<and> links_ok s \<and>
     (\<forall>l' k'. l' \<noteq> l \<longrightarrow> locks s l' = Some k' \<longrightarrow> lock_ok s l' None None k' \<and> procLocks k' \<noteq> [])"

lemma at_lock_of: "locks_ok s \<Longrightarrow> locks s l = Some k \<Longrightarrow> at_lock s l None None k"
  by (simp add: locks_ok_def at_lock_def)

lemma locks_ok_of: "at_lock s l None None k \<Longrightarrow> procLocks k \<noteq> [] \<Longrightarrow> locks_ok s"
  unfolding locks_ok_def at_lock_def by (metis option.inject)

lemma lock_ok_cong:
  assumes "\<And>p. p \<in> set (waitProcs k) \<Longrightarrow> procs s' p = procs s p" "\<And>p. leader_of s' p = leader_of s p"
  shows "lock_ok s' l pend spare k \<longleftrightarrow> lock_ok s l pend spare k"
proof -
  have "waiters (procs s') k i = waiters (procs s) k i" for i
    using assms(1) by (auto simp: waiters_def intro!: arg_cong [where f = length] filter_cong)
  then have "counts_ok (procs s') pend k \<longleftrightarrow> counts_ok (procs s) pend k" by (simp add: counts_ok_def)
  then show ?thesis
    using assms by (simp add: lock_ok_def pend_ok_def waiter_ok_def proclock_ok_def)
qed

section \<open>Conflicts with granted locks\<close>

text \<open>Processes whose locks do not conflict: members of a lock group, or the threads of a stream query.\<close>

definition together :: "lock_thread \<Rightarrow> lock_space \<Rightarrow> PROCLOCK \<Rightarrow> PROCLOCK \<Rightarrow> bool" where
  "together th s pl other \<longleftrightarrow>
     (if in_lock_group th s pl then IsInSameLockGroup pl other else (in_stream th \<or> has_backend_cursor_stream th) \<and> same_transaction th (myProc other) (myProc pl))"

definition blocked_by :: "LOCKMODE \<Rightarrow> PROCLOCK \<Rightarrow> bool" where
  "blocked_by m other \<longleftrightarrow> (\<exists>i. conflicts m i \<and> bit (holdMask other) i)"

lemma fold_or_bit:
  "bit (fold (\<lambda>i r. if P i then r OR LOCKBIT_ON i else r) xs r0) j \<longleftrightarrow> bit r0 j \<or> (j \<in> set xs \<and> P j \<and> j < 32)"
  by (induction xs arbitrary: r0) (auto simp: bit_simps)

lemma bit_other_locks: "bit (other_locks th s k pl p) i \<longleftrightarrow> i \<in> modes \<and> granted k i > my_holding th s k pl p i"
  unfolding other_locks_def by (subst fold_or_bit) (auto simp: numLockModes_def)

lemma my_holding_eq:
  assumes d: "distinct (map myProc (procLocks k))" and pl: "pl \<in> set (procLocks k)"
    and irr: "\<And>q. \<not> same_transaction th q q"
  shows "my_holding th s k pl (myProc pl) i =
    int (length (filter (\<lambda>other. (other = pl \<or> together th s pl other) \<and> bit (holdMask other) i) (procLocks k)))"
proof -
  let ?T = "\<lambda>other. together th s pl other \<and> bit (holdMask other) i"
  have self: "\<not> together th s pl pl" using irr by (simp add: together_def IsInSameLockGroup_def)
  have "length (filter (\<lambda>other. (other = pl \<or> together th s pl other) \<and> bit (holdMask other) i) ks) =
      length (filter ?T ks) + (if pl \<in> set ks \<and> bit (holdMask pl) i then 1 else 0)" if "distinct ks" for ks
    using that self by (induction ks) auto
  from this [of "procLocks k"] show ?thesis
    using pl d by (auto simp: my_holding_def together_def distinct_map intro: arg_cong [where f = length] filter_cong)
qed

lemma filter_less_iff: "length (filter (\<lambda>x. P x \<and> Q x) xs) < length (filter Q xs) \<longleftrightarrow> (\<exists>x \<in> set xs. Q x \<and> \<not> P x)"
proof (induction xs)
  case (Cons a xs)
  have "length (filter (\<lambda>x. P x \<and> Q x) xs) \<le> length (filter Q xs)" by (induction xs) auto
  with Cons show ?case by auto
qed simp

lemma find_unique: "distinct (map f xs) \<Longrightarrow> x \<in> set xs \<Longrightarrow> List.find (\<lambda>y. f y = f x) xs = Some x"
  by (induction xs) (auto simp: image_iff)

lemma proclock_at_eq:
  "distinct (map myProc (procLocks k)) \<Longrightarrow> pl \<in> set (procLocks k) \<Longrightarrow> proclock_at k (myProc pl) = pl"
  by (simp add: proclock_at_def find_unique)

lemma LockCheckConflicts_ok_iff:
  assumes k: "locks s l = Some k" and c: "counts_ok (procs s) pend k" and d: "distinct (map myProc (procLocks k))"
    and pl: "pl \<in> set (procLocks k)" and m: "m \<in> modes" and irr: "\<And>q. \<not> same_transaction th q q"
  shows "fst (LockCheckConflicts th s m l (myProc pl)) = STATUS_OK \<longleftrightarrow>
    (\<forall>other \<in> set (procLocks k). other \<noteq> pl \<and> \<not> together th s pl other \<longrightarrow> \<not> blocked_by m other)"
proof -
  have held: "bit (grantMask k) i \<longleftrightarrow> (\<exists>other \<in> set (procLocks k). bit (holdMask other) i)" for i
    using c by (auto simp: counts_ok_def holders_def filter_empty_conv)
  have gr: "granted k i = int (length (filter (\<lambda>other. bit (holdMask other) i) (procLocks k)))" for i
    using c by (simp add: counts_ok_def holders_def)
  have other: "bit (other_locks th s k pl (myProc pl)) i \<longleftrightarrow> i \<in> modes \<and>
      (\<exists>other \<in> set (procLocks k). bit (holdMask other) i \<and> \<not> (other = pl \<or> together th s pl other))" for i
    unfolding bit_other_locks my_holding_eq [OF d pl irr] gr by (auto simp: filter_less_iff)
  have "conflictTab m AND other_locks th s k pl (myProc pl) = 0 \<longleftrightarrow>
      (\<forall>other \<in> set (procLocks k). other \<noteq> pl \<and> \<not> together th s pl other \<longrightarrow> \<not> blocked_by m other)"
    using conflictTab_meets [of m "other_locks th s k pl (myProc pl)"] conflicts_mode [OF _ m] unfolding other blocked_by_def by blast
  moreover have "conflictTab m AND grantMask k = 0 \<longleftrightarrow> (\<forall>other \<in> set (procLocks k). \<not> blocked_by m other)"
    using conflictTab_meets [of m "grantMask k"] unfolding held blocked_by_def by blast
  ultimately show ?thesis
    using k by (auto simp: LockCheckConflicts_def lock_at_def proclock_at_eq [OF d pl] Let_def split: option.splits)
qed

section \<open>Changing one lock\<close>

lemma upd_lock_simps [simp]:
  "procs (upd_lock l f s) = procs s" "locks (upd_lock l f s) = (locks s)(l := map_option f (locks s l))"
  by (simp_all add: upd_lock_def)

lemma upd_proc_simps [simp]:
  "procs (upd_proc p f s) = (procs s)(p := f (procs s p))" "locks (upd_proc p f s) = locks s"
  by (simp_all add: upd_proc_def)

lemma leader_of_cong: "lockGroupLeader (procs s' p) = lockGroupLeader (procs s p) \<Longrightarrow> leader_of s' p = leader_of s p"
  by (simp add: leader_of_def)

lemma at_lock_change:
  assumes a: "at_lock s l pend spare k" and new: "lock_ok s l pend' spare' (F k)"
    and w: "waitProcs (F k) = waitProcs k"
  shows "at_lock (upd_lock l F s) l pend' spare' (F k)"
proof -
  have same: "lock_ok (upd_lock l F s) l' pd sp k' \<longleftrightarrow> lock_ok s l' pd sp k'" for l' pd sp k'
    by (rule lock_ok_cong) (simp_all add: leader_of_def)
  have "links_ok (upd_lock l F s)"
    using a w unfolding at_lock_def links_ok_def by (simp add: fun_upd_def) (metis option.inject)
  then show ?thesis using a new by (simp add: at_lock_def same)
qed

lemma at_lock_dequeue:
  assumes a: "at_lock s l pend spare k" and new: "lock_ok s l pend' spare' (F k)"
    and p: "p \<in> set (waitProcs k)" "waitProcs (F k) = remove1 p (waitProcs k)"
    and g: "\<not> links (g (procs s p))" "waitStatus (g (procs s p)) \<noteq> STATUS_WAITING"
      "lockGroupLeader (g (procs s p)) = lockGroupLeader (procs s p)"
  shows "at_lock (upd_proc p g (upd_lock l F s)) l pend' spare' (F k)"
proof -
  let ?s = "upd_proc p g (upd_lock l F s)"
  have lead: "leader_of ?s q = leader_of s q" for q by (rule leader_of_cong) (simp add: g)
  have d: "distinct (waitProcs k)" "waiter_ok s l k p" using a p by (auto simp: at_lock_def lock_ok_def)
  have there: "lock_ok ?s l pend' spare' (F k)"
    by (subst lock_ok_cong [of _ _ s]) (use new p d lead in auto)
  have others: "lock_ok ?s l' None None k'" if "l' \<noteq> l" "locks s l' = Some k'" for l' k'
  proof -
    have ok: "lock_ok s l' None None k'" using a that by (simp add: at_lock_def)
    then have "p \<notin> set (waitProcs k')" using d(2) that(1) by (auto simp: lock_ok_def waiter_ok_def)
    then show ?thesis by (subst lock_ok_cong [of _ _ s]) (use ok lead in auto)
  qed
  have "links_ok ?s"
    unfolding links_ok_def
  proof (intro allI impI)
    fix q assume q: "links (procs ?s q) \<or> waitStatus (procs ?s q) = STATUS_WAITING"
    then have ne: "q \<noteq> p" using g by auto
    with q obtain l' k' where "locks s l' = Some k'" "q \<in> set (waitProcs k')"
      using a by (auto simp: at_lock_def links_ok_def)
    then show "\<exists>l k. locks ?s l = Some k \<and> q \<in> set (waitProcs k)"
      using ne a p d by (cases "l' = l") (auto simp: at_lock_def)
  qed
  with there others show ?thesis using a by (auto simp: at_lock_def)
qed

text \<open>Counting the holders and waiters after a change.\<close>

lemma length_filter_swap:
  assumes "distinct (map f xs)" "x \<in> set xs"
  shows "int (length (filter P (map (\<lambda>y. if f y = f x then g y else y) xs))) =
    int (length (filter P xs)) - (if P x then 1 else 0) + (if P (g x) then 1 else 0)"
  using assms
proof (induction xs)
  case (Cons a xs)
  have same: "map (\<lambda>y. if f y = f a then g y else y) xs = xs" if "f a \<notin> f ` set xs"
    using that by (intro map_idI) (metis image_eqI)
  show ?case using Cons same by (cases "x = a") auto
qed simp

lemma length_filter_remove1:
  "x \<in> set xs \<Longrightarrow> distinct xs \<Longrightarrow> int (length (filter P (remove1 x xs))) = int (length (filter P xs)) - (if P x then 1 else 0)"
  by (induction xs) auto

lemma sum_modes_upd:
  fixes f :: "LOCKMODE \<Rightarrow> int"
  assumes "m \<in> modes" shows "(\<Sum>i \<in> modes. f i + (if i = m then c else 0)) = (\<Sum>i \<in> modes. f i) + c"
  using assms by (simp add: sum.distrib)

definition grant_entry :: "procid \<Rightarrow> LOCKMODE \<Rightarrow> LOCK \<Rightarrow> LOCK" where
  "grant_entry p m k = k\<lparr>
     nGranted := nGranted k + 1, granted := (granted k)(m := granted k m + 1), grantMask := grantMask k OR LOCKBIT_ON m,
     waitMask := (if granted k m + 1 = requested k m then waitMask k AND LOCKBIT_OFF m else waitMask k),
     procLocks := upd_proclock p (\<lambda>pl. pl\<lparr>holdMask := holdMask pl OR LOCKBIT_ON m\<rparr>) (procLocks k)\<rparr>"

lemma GrantLock_entry: "GrantLock l p m = upd_lock l (grant_entry p m)"
  unfolding GrantLock_def grant_entry_def by (rule refl)

lemma grant_entry_simps [simp]:
  "waitProcs (grant_entry p m k) = waitProcs k" "requested (grant_entry p m k) = requested k"
  "nRequested (grant_entry p m k) = nRequested k" "nGranted (grant_entry p m k) = nGranted k + 1"
  "granted (grant_entry p m k) = (granted k)(m := granted k m + 1)"
  "grantMask (grant_entry p m k) = grantMask k OR LOCKBIT_ON m"
  "waitMask (grant_entry p m k) = (if granted k m + 1 = requested k m then waitMask k AND LOCKBIT_OFF m else waitMask k)"
  "procLocks (grant_entry p m k) = upd_proclock p (\<lambda>pl. pl\<lparr>holdMask := holdMask pl OR LOCKBIT_ON m\<rparr>) (procLocks k)"
  by (simp_all add: grant_entry_def)

lemma myProc_upd [simp]: "(\<And>pl. myProc (f pl) = myProc pl) \<Longrightarrow> map myProc (upd_proclock p f pls) = map myProc pls"
  by (simp add: upd_proclock_def)

lemma set_upd_proclock: "set (upd_proclock p f pls) = (\<lambda>pl. if myProc pl = p then f pl else pl) ` set pls"
  by (simp add: upd_proclock_def)

lemma lock_ok_grant:
  assumes ok: "lock_ok s l (Some (p, m)) spare k"
  shows "lock_ok s l None spare (grant_entry p m k)"
proof -
  let ?k = "grant_entry p m k"
  have m: "m \<in> modes" and q: "p \<notin> set (waitProcs k)" and d: "distinct (map myProc (procLocks k))"
    using ok by (auto simp: lock_ok_def pend_ok_def)
  obtain pl where pl: "pl \<in> set (procLocks k)" "myProc pl = p" "\<not> bit (holdMask pl) m"
    using ok by (auto simp: lock_ok_def pend_ok_def)
  have c: "counts_ok (procs s) (Some (p, m)) k" using ok by (simp add: lock_ok_def)
  have h: "holders ?k i = holders k i + (if i = m then 1 else 0)" for i
    using length_filter_swap [OF d pl(1), of "\<lambda>x. bit (holdMask x) i" "\<lambda>pl. pl\<lparr>holdMask := holdMask pl OR LOCKBIT_ON m\<rparr>"] pl m
    by (auto simp: holders_def upd_proclock_def bit_simps)
  have w: "waiters (procs s) ?k i = waiters (procs s) k i" for i by (simp add: waiters_def)
  have "counts_ok (procs s) None ?k"
    unfolding counts_ok_def
  proof (intro conjI allI impI)
    show "granted ?k i = holders ?k i" for i using c by (simp add: counts_ok_def h)
    show "requested ?k i = holders ?k i + waiters (procs s) ?k i + pending None i" for i
      using c by (simp add: counts_ok_def h w pending_def)
    show "nGranted ?k = (\<Sum>i \<in> modes. holders ?k i)"
      using c m by (simp only: h sum_modes_upd [OF m]) (simp add: counts_ok_def)
    show "nRequested ?k = (\<Sum>i \<in> modes. requested ?k i)" using c by (simp add: counts_ok_def)
    have nn: "holders k i \<ge> 0" "waiters (procs s) k i \<ge> 0" for i by (simp_all add: holders_def waiters_def)
    show "bit (grantMask ?k) i \<longleftrightarrow> holders ?k i > 0" for i
      using c m nn(1) [of i] by (auto simp: counts_ok_def h bit_simps)
    have g: "granted k m + 1 = requested k m \<longleftrightarrow> waiters (procs s) k m = 0"
      using c by (simp add: counts_ok_def pending_def)
    show "bit (waitMask ?k) i" if "waiters (procs s) ?k i > 0" for i
    proof -
      have "bit (waitMask k) i" using that c by (simp add: counts_ok_def w)
      then show ?thesis using that g by (auto simp: w bit_simps dest: bit_lt_32)
    qed
    show "waiters (procs s) ?k i + pending None i > 0" if "bit (waitMask ?k) i" for i
    proof (cases "i = m")
      case True then show ?thesis using that g nn(2) [of m] by (auto simp: w pending_def bit_simps split: if_splits)
    next
      case False then show ?thesis using that c by (auto simp: counts_ok_def w pending_def bit_simps split: if_splits)
    qed
  qed
  moreover have "waiter_ok s l ?k x" if "x \<in> set (waitProcs k)" for x
  proof -
    have "x \<noteq> p" "waiter_ok s l k x" using that q ok by (auto simp: lock_ok_def)
    then show ?thesis by (auto simp: waiter_ok_def set_upd_proclock)
  qed
  moreover have "proclock_ok s None spare ?k x" if "x \<in> set (procLocks ?k)" for x
    using that ok m by (fastforce simp: lock_ok_def proclock_ok_def set_upd_proclock bit_simps mask_zero)
  ultimately show ?thesis
    using ok by (simp add: lock_ok_def pend_ok_def)
qed

lemma counts_nonneg: "holders k i \<ge> 0" "waiters ps k i \<ge> 0" "pending pend i \<ge> 0"
  by (simp_all add: holders_def waiters_def pending_def split: option.splits prod.splits)

text \<open>A waiter leaves the queue: its request is pending again.\<close>

definition dequeue_entry :: "procid \<Rightarrow> LOCK \<Rightarrow> LOCK" where
  "dequeue_entry p k = k\<lparr>waitProcs := remove1 p (waitProcs k)\<rparr>"

lemma waiters_dequeue:
  "p \<in> set (waitProcs k) \<Longrightarrow> distinct (waitProcs k) \<Longrightarrow>
    waiters ps (dequeue_entry p k) i = waiters ps k i - (if waitLockMode (ps p) = i then 1 else 0)"
  by (simp add: waiters_def dequeue_entry_def length_filter_remove1)

lemma lock_ok_dequeue:
  assumes ok: "lock_ok s l None spare k" and p: "p \<in> set (waitProcs k)"
  shows "lock_ok s l (Some (p, waitLockMode (procs s p))) spare (dequeue_entry p k)"
proof -
  let ?k = "dequeue_entry p k" and ?m = "waitLockMode (procs s p)"
  have d: "distinct (waitProcs k)" and c: "counts_ok (procs s) None k" and wp: "waiter_ok s l k p"
    using ok p by (auto simp: lock_ok_def)
  have h: "holders ?k i = holders k i" for i by (simp add: holders_def dequeue_entry_def)
  have w: "waiters (procs s) ?k i + pending (Some (p, ?m)) i = waiters (procs s) k i" for i
    by (simp add: waiters_dequeue [OF p d] pending_def)
  have "counts_ok (procs s) (Some (p, ?m)) ?k"
    unfolding counts_ok_def h
  proof (intro conjI allI impI)
    show "requested ?k i = holders k i + waiters (procs s) ?k i + pending (Some (p, ?m)) i" for i
      using c w [of i] by (simp add: counts_ok_def dequeue_entry_def pending_def)
    show "bit (waitMask ?k) i" if "waiters (procs s) ?k i > 0" for i
      using that c waiters_dequeue [OF p d, of "procs s" i] by (auto simp: counts_ok_def dequeue_entry_def split: if_splits)
    show "waiters (procs s) ?k i + pending (Some (p, ?m)) i > 0" if "bit (waitMask ?k) i" for i
      unfolding w using that c by (simp add: counts_ok_def dequeue_entry_def pending_def)
  qed (use c in \<open>simp_all add: counts_ok_def dequeue_entry_def\<close>)
  moreover have "pend_ok s (Some (p, ?m)) ?k" using wp d by (auto simp: pend_ok_def waiter_ok_def dequeue_entry_def)
  moreover have "proclock_ok s (Some (p, ?m)) spare ?k x" if "x \<in> set (procLocks k)" for x
    using ok that d by (auto simp: lock_ok_def proclock_ok_def dequeue_entry_def)
  ultimately show ?thesis
    using ok d by (auto simp: lock_ok_def dequeue_entry_def waiter_ok_def)
qed

text \<open>A pending request is withdrawn.\<close>

definition withdraw_entry :: "LOCKMODE \<Rightarrow> LOCK \<Rightarrow> LOCK" where
  "withdraw_entry m k = k\<lparr>nRequested := nRequested k - 1, requested := (requested k)(m := requested k m - 1),
     waitMask := (if granted k m = requested k m - 1 then waitMask k AND LOCKBIT_OFF m else waitMask k)\<rparr>"

lemma lock_ok_withdraw:
  assumes ok: "lock_ok s l (Some (p, m)) None k"
  shows "lock_ok s l None (Some p) (withdraw_entry m k)"
proof -
  let ?k = "withdraw_entry m k"
  have c: "counts_ok (procs s) (Some (p, m)) k" and m: "m \<in> modes" using ok by (auto simp: lock_ok_def pend_ok_def)
  have h: "holders ?k i = holders k i" "waiters ps ?k i = waiters ps k i" for ps i
    by (simp_all add: holders_def waiters_def withdraw_entry_def)
  have g: "granted k m = requested k m - 1 \<longleftrightarrow> waiters (procs s) k m = 0"
    using c by (simp add: counts_ok_def pending_def)
  have r: "requested ?k i = requested k i + (if i = m then - 1 else 0)" for i by (simp add: withdraw_entry_def)
  have "counts_ok (procs s) None ?k"
    unfolding counts_ok_def h
  proof (intro conjI allI impI)
    show "requested ?k i = holders k i + waiters (procs s) k i + pending None i" for i
      using c by (simp add: counts_ok_def r pending_def)
    show "nRequested ?k = (\<Sum>i \<in> modes. requested ?k i)"
      unfolding r sum_modes_upd [OF m] using c by (simp add: counts_ok_def withdraw_entry_def)
    show "bit (waitMask ?k) i" if "waiters (procs s) k i > 0" for i
    proof -
      have "bit (waitMask k) i" using that c by (simp add: counts_ok_def)
      then show ?thesis using that g by (auto simp: withdraw_entry_def bit_simps dest: bit_lt_32)
    qed
    show "waiters (procs s) k i + pending None i > 0" if "bit (waitMask ?k) i" for i
    proof (cases "i = m")
      case True then show ?thesis
        using that g counts_nonneg(2) [of "procs s" k m] by (auto simp: pending_def withdraw_entry_def bit_simps split: if_splits)
    next
      case False then show ?thesis using that c by (auto simp: counts_ok_def pending_def withdraw_entry_def bit_simps split: if_splits)
    qed
  qed (use c in \<open>simp_all add: counts_ok_def withdraw_entry_def\<close>)
  then show ?thesis
    using ok by (auto simp: lock_ok_def withdraw_entry_def waiter_ok_def proclock_ok_def pend_ok_def)
qed

text \<open>The process that is done with the lock gives up its entry if nothing is left on it.\<close>

definition drop_entry :: "procid \<Rightarrow> LOCK \<Rightarrow> LOCK" where
  "drop_entry p k = k\<lparr>procLocks := filter (\<lambda>pl. \<not> (myProc pl = p \<and> holdMask pl = 0)) (procLocks k)\<rparr>"

lemma drop_empty_proclock_entry: "drop_empty_proclock l p = upd_lock l (drop_entry p)"
  unfolding drop_empty_proclock_def drop_entry_def by (rule refl)

lemma lock_ok_drop:
  assumes ok: "lock_ok s l None (Some p) k" and p: "p \<notin> set (waitProcs k)"
  shows "lock_ok s l None None (drop_entry p k)"
proof -
  let ?k = "drop_entry p k"
  have h: "holders ?k i = holders k i" "waiters ps ?k i = waiters ps k i" for ps i
    by (auto simp: holders_def waiters_def drop_entry_def intro!: arg_cong [where f = length] filter_cong)
  have "counts_ok (procs s) None ?k"
    using ok unfolding lock_ok_def counts_ok_def h by (simp add: drop_entry_def)
  moreover have "waiter_ok s l ?k x" if "x \<in> set (waitProcs k)" for x
  proof -
    have "x \<noteq> p" "waiter_ok s l k x" using that p ok by (auto simp: lock_ok_def)
    then show ?thesis by (auto simp: waiter_ok_def drop_entry_def)
  qed
  moreover have "proclock_ok s None None ?k x" if "x \<in> set (procLocks ?k)" for x
    using that ok by (auto simp: lock_ok_def proclock_ok_def drop_entry_def)
  moreover have "distinct (map myProc (procLocks ?k))" using ok by (simp add: lock_ok_def drop_entry_def distinct_map_filter)
  ultimately show ?thesis using ok by (simp add: lock_ok_def pend_ok_def) (simp add: drop_entry_def)
qed

lemma nRequested_zero_iff:
  assumes ok: "lock_ok s l None None k"
  shows "nRequested k = 0 \<longleftrightarrow> procLocks k = []"
proof
  have c: "counts_ok (procs s) None k" using ok by (simp add: lock_ok_def)
  have sum: "nRequested k = (\<Sum>i \<in> modes. holders k i + waiters (procs s) k i)"
    using c by (simp add: counts_ok_def pending_def)
  assume "nRequested k = 0"
  then have zero: "holders k i = 0 \<and> waiters (procs s) k i = 0" if "i \<in> modes" for i
    using that counts_nonneg(1) [of k] counts_nonneg(2) [of "procs s" k]
    unfolding sum by (subst (asm) sum_nonneg_eq_0_iff) (auto intro: add_nonneg_nonneg dest!: bspec [of _ _ i] simp: add_nonneg_eq_0_iff)
  show "procLocks k = []"
  proof (rule ccontr)
    assume "procLocks k \<noteq> []"
    then obtain pl where pl: "pl \<in> set (procLocks k)" by (meson last_in_set)
    then have pok: "proclock_ok s None None k pl" using ok by (simp add: lock_ok_def)
    show False
    proof (cases "holdMask pl = 0")
      case True
      then have "myProc pl \<in> set (waitProcs k)" using pok by (simp add: proclock_ok_def)
      moreover then have "waitLockMode (procs s (myProc pl)) \<in> modes" using ok by (auto simp: lock_ok_def waiter_ok_def)
      ultimately show False using zero [of "waitLockMode (procs s (myProc pl))"] by (auto simp: waiters_def filter_empty_conv)
    next
      case False
      then obtain i where "bit (holdMask pl) i" "i \<in> modes" using pok by (auto simp: proclock_ok_def mask_zero)
      then show False using zero [of i] pl by (auto simp: holders_def filter_empty_conv)
    qed
  qed
next
  assume e: "procLocks k = []"
  moreover have "waitProcs k = []" using ok e by (cases "waitProcs k") (auto simp: lock_ok_def waiter_ok_def)
  ultimately show "nRequested k = 0" using ok by (simp add: lock_ok_def counts_ok_def holders_def waiters_def pending_def)
qed

text \<open>A lock is given back.\<close>

definition ungrant_entry :: "procid \<Rightarrow> LOCKMODE \<Rightarrow> LOCK \<Rightarrow> LOCK" where
  "ungrant_entry p m k = k\<lparr>
     nRequested := nRequested k - 1, requested := (requested k)(m := requested k m - 1),
     nGranted := nGranted k - 1, granted := (granted k)(m := granted k m - 1),
     grantMask := (if granted k m - 1 = 0 then grantMask k AND LOCKBIT_OFF m else grantMask k),
     procLocks := upd_proclock p (\<lambda>pl. pl\<lparr>holdMask := holdMask pl AND LOCKBIT_OFF m\<rparr>) (procLocks k)\<rparr>"

lemma UnGrantLock_entry:
  "UnGrantLock l m p s = (conflictTab m AND waitMask (lock_at s l) \<noteq> 0, upd_lock l (ungrant_entry p m) s)"
  unfolding UnGrantLock_def ungrant_entry_def by (rule refl)

lemma ungrant_entry_simps [simp]:
  "waitProcs (ungrant_entry p m k) = waitProcs k" "requested (ungrant_entry p m k) = (requested k)(m := requested k m - 1)"
  "nRequested (ungrant_entry p m k) = nRequested k - 1" "nGranted (ungrant_entry p m k) = nGranted k - 1"
  "granted (ungrant_entry p m k) = (granted k)(m := granted k m - 1)"
  "grantMask (ungrant_entry p m k) = (if granted k m - 1 = 0 then grantMask k AND LOCKBIT_OFF m else grantMask k)"
  "waitMask (ungrant_entry p m k) = waitMask k"
  "procLocks (ungrant_entry p m k) = upd_proclock p (\<lambda>pl. pl\<lparr>holdMask := holdMask pl AND LOCKBIT_OFF m\<rparr>) (procLocks k)"
  by (simp_all add: ungrant_entry_def)

lemma lock_ok_spare: "lock_ok s l None None k \<Longrightarrow> lock_ok s l None spare k"
  by (auto simp: lock_ok_def proclock_ok_def)

lemma lock_ok_ungrant:
  assumes ok: "lock_ok s l None (Some p) k" and pl: "pl \<in> set (procLocks k)" "myProc pl = p" "bit (holdMask pl) m"
    and q: "p \<notin> set (waitProcs k)"
  shows "lock_ok s l None (Some p) (ungrant_entry p m k)"
proof -
  let ?k = "ungrant_entry p m k"
  have d: "distinct (map myProc (procLocks k))" and c: "counts_ok (procs s) None k" using ok by (auto simp: lock_ok_def)
  have m: "m \<in> modes" using ok pl by (auto simp: lock_ok_def proclock_ok_def)
  have h: "holders ?k i = holders k i + (if i = m then - 1 else 0)" for i
    using length_filter_swap [OF d pl(1), of "\<lambda>x. bit (holdMask x) i" "\<lambda>pl. pl\<lparr>holdMask := holdMask pl AND LOCKBIT_OFF m\<rparr>"] pl
    by (auto simp: holders_def upd_proclock_def bit_simps dest: bit_lt_32)
  have w: "waiters (procs s) ?k i = waiters (procs s) k i" for i by (simp add: waiters_def)
  have r: "requested ?k i = requested k i + (if i = m then - 1 else 0)" for i by simp
  have "counts_ok (procs s) None ?k"
    unfolding counts_ok_def
  proof (intro conjI allI impI)
    show "granted ?k i = holders ?k i" for i using c by (simp add: counts_ok_def h)
    show "requested ?k i = holders ?k i + waiters (procs s) ?k i + pending None i" for i
      using c by (simp add: counts_ok_def h w pending_def)
    show "nGranted ?k = (\<Sum>i \<in> modes. holders ?k i)" using c by (simp only: h sum_modes_upd [OF m]) (simp add: counts_ok_def)
    show "nRequested ?k = (\<Sum>i \<in> modes. requested ?k i)" using c by (simp only: r sum_modes_upd [OF m]) (simp add: counts_ok_def)
    show "bit (grantMask ?k) i \<longleftrightarrow> holders ?k i > 0" for i
      using c counts_nonneg(1) [of ?k i] by (auto simp: counts_ok_def h bit_simps split: if_splits dest: bit_lt_32)
    show "bit (waitMask ?k) i" if "waiters (procs s) ?k i > 0" for i using that c by (simp add: counts_ok_def w)
    show "waiters (procs s) ?k i + pending None i > 0" if "bit (waitMask ?k) i" for i using that c by (simp add: counts_ok_def w)
  qed
  moreover have "waiter_ok s l ?k x" if "x \<in> set (waitProcs k)" for x
  proof -
    have "x \<noteq> p" "waiter_ok s l k x" using that q ok by (auto simp: lock_ok_def)
    then show ?thesis by (auto simp: waiter_ok_def set_upd_proclock)
  qed
  moreover have "proclock_ok s None (Some p) ?k x" if "x \<in> set (procLocks ?k)" for x
    using that ok by (auto simp: lock_ok_def proclock_ok_def set_upd_proclock bit_simps)
  ultimately show ?thesis using ok by (simp add: lock_ok_def pend_ok_def)
qed

text \<open>A request is entered.\<close>

definition setup_entry :: "lock_space \<Rightarrow> procid \<Rightarrow> LOCKMODE \<Rightarrow> LOCK \<Rightarrow> LOCK" where
  "setup_entry s p m k =
     (let k1 = (if \<exists>pl \<in> set (procLocks k). myProc pl = p then k
                else k\<lparr>procLocks := procLocks k @ [\<lparr>myProc = p, groupLeader = leader_of s p, holdMask = 0\<rparr>]\<rparr>)
      in k1\<lparr>nRequested := nRequested k1 + 1, requested := (requested k1)(m := requested k1 m + 1)\<rparr>)"

lemma setup_entry_simps [simp]:
  "waitProcs (setup_entry s p m k) = waitProcs k" "requested (setup_entry s p m k) = (requested k)(m := requested k m + 1)"
  "nRequested (setup_entry s p m k) = nRequested k + 1" "nGranted (setup_entry s p m k) = nGranted k"
  "granted (setup_entry s p m k) = granted k" "grantMask (setup_entry s p m k) = grantMask k"
  "waitMask (setup_entry s p m k) = waitMask k"
  "procLocks (setup_entry s p m k) = (if \<exists>pl \<in> set (procLocks k). myProc pl = p then procLocks k
     else procLocks k @ [\<lparr>myProc = p, groupLeader = leader_of s p, holdMask = 0\<rparr>])"
  by (simp_all add: setup_entry_def Let_def)

lemma lock_ok_setup:
  assumes ok: "lock_ok s l None None k" and m: "m \<in> modes" and q: "p \<notin> set (waitProcs k)"
    and free: "\<And>pl. pl \<in> set (procLocks k) \<Longrightarrow> myProc pl = p \<Longrightarrow> \<not> bit (holdMask pl) m"
  shows "lock_ok s l (Some (p, m)) None (setup_entry s p m k)"
proof -
  let ?k = "setup_entry s p m k"
  have c: "counts_ok (procs s) None k" using ok by (simp add: lock_ok_def)
  have h: "holders ?k i = holders k i" "waiters ps ?k i = waiters ps k i" for ps i
    by (simp_all add: holders_def waiters_def)
  have r: "requested ?k i = requested k i + (if i = m then 1 else 0)" for i by simp
  have "counts_ok (procs s) (Some (p, m)) ?k"
    unfolding counts_ok_def h
  proof (intro conjI allI impI)
    show "requested ?k i = holders k i + waiters (procs s) k i + pending (Some (p, m)) i" for i
      unfolding r using c by (simp add: counts_ok_def pending_def)
    show "nRequested ?k = (\<Sum>i \<in> modes. requested ?k i)"
      unfolding r sum_modes_upd [OF m] using c by (simp add: counts_ok_def)
    show "waiters (procs s) k i + pending (Some (p, m)) i > 0" if "bit (waitMask ?k) i" for i
    proof -
      have "waiters (procs s) k i > 0" using that c by (simp add: counts_ok_def pending_def)
      then show ?thesis using counts_nonneg(3) [of "Some (p, m)" i] by linarith
    qed
  qed (use c in \<open>simp_all add: counts_ok_def\<close>)
  moreover have "pend_ok s (Some (p, m)) ?k" using m q free by (auto simp: pend_ok_def)
  moreover have "waiter_ok s l ?k x" if "x \<in> set (waitProcs k)" for x
    using ok that by (auto simp: lock_ok_def waiter_ok_def)
  moreover have "proclock_ok s (Some (p, m)) None ?k x" if "x \<in> set (procLocks ?k)" for x
    using that ok by (auto simp: lock_ok_def proclock_ok_def split: if_splits)
  moreover have "distinct (map myProc (procLocks ?k))" using ok by (auto simp: lock_ok_def)
  ultimately show ?thesis using ok by (simp add: lock_ok_def)
qed

text \<open>A pending request joins the queue.\<close>

definition join_entry :: "procid \<Rightarrow> LOCKMODE \<Rightarrow> nat \<Rightarrow> LOCK \<Rightarrow> LOCK" where
  "join_entry p m i k = k\<lparr>waitProcs := take i (waitProcs k) @ [p] @ drop i (waitProcs k), waitMask := waitMask k OR LOCKBIT_ON m\<rparr>"

lemma set_insert_at: "set (take i xs @ [p] @ drop i xs) = insert p (set xs)"
  by (metis Un_insert_right append_take_drop_id list.simps(15) set_append append_Cons append_Nil)

lemma length_filter_insert_at:
  "length (filter P (take i xs @ [p] @ drop i xs)) = length (filter P xs) + (if P p then 1 else 0)"
proof -
  have "length (filter P (take i xs)) + length (filter P (drop i xs)) = length (filter P xs)"
    by (metis append_take_drop_id filter_append length_append)
  then show ?thesis by simp
qed

lemma distinct_insert_at: "distinct (take i xs @ [p] @ drop i xs) \<longleftrightarrow> distinct xs \<and> p \<notin> set xs"
proof -
  have "distinct (take i xs @ drop i xs) = distinct xs" "set (take i xs) \<union> set (drop i xs) = set xs"
    by (simp_all only: append_take_drop_id) (metis append_take_drop_id set_append)
  then show ?thesis by (auto simp only: distinct_append distinct.simps set_simps set_append)
qed

end
