(* ===== verification/Lock_Safety.thy ===== *)
theory Lock_Safety
  imports Lock_Invariants
begin

text \<open>
  The operations of the lock table keep its invariants; processes never hold conflicting locks, and waiters are woken when they can be.
\<close>

section \<open>The counts of the lock table\<close>

lemma at_lock_pl:
  assumes "at_lock s l (Some (p, m)) spare k"
  obtains pl where "pl \<in> set (procLocks k)" "myProc pl = p" "proclock_at k p = pl" "\<not> bit (holdMask pl) m" "m \<in> modes"
    "p \<notin> set (waitProcs k)"
proof -
  from assms obtain pl where "pl \<in> set (procLocks k)" "myProc pl = p" "\<not> bit (holdMask pl) m" "m \<in> modes" "p \<notin> set (waitProcs k)"
    by (auto simp: at_lock_def lock_ok_def pend_ok_def)
  moreover then have "proclock_at k p = pl" using assms proclock_at_eq by (auto simp: at_lock_def lock_ok_def)
  ultimately show thesis using that by blast
qed

text \<open>A process that is not linked is in no queue.\<close>

lemma not_linked:
  assumes "at_lock s l pend spare k" "\<not> links (procs s p)" "locks s l' = Some k'"
  shows "p \<notin> set (waitProcs k')"
  using assms by (cases "l' = l") (auto simp: at_lock_def lock_ok_def waiter_ok_def)

lemma at_lock_join:
  assumes a: "at_lock s l (Some (p, m)) None k" and free: "\<not> links (procs s p)"
    and held: "heldLocks (procs s p) = holdMask (proclock_at k p)"
  shows "at_lock (join_queue l m i p s) l None None (join_entry p m i k)"
proof -
  let ?s = "join_queue l m i p s" and ?k = "join_entry p m i k"
  obtain pl where pl: "pl \<in> set (procLocks k)" "myProc pl = p" "proclock_at k p = pl" "\<not> bit (holdMask pl) m" and m: "m \<in> modes"
      and q: "p \<notin> set (waitProcs k)"
    by (rule at_lock_pl [OF a]) blast
  have ok: "lock_ok s l (Some (p, m)) None k" and there: "locks s l = Some k" using a by (auto simp: at_lock_def)
  then have c: "counts_ok (procs s) (Some (p, m)) k" by (simp add: lock_ok_def)
  have lead: "leader_of ?s x = leader_of s x" for x by (rule leader_of_cong) (simp add: join_queue_def)
  have same: "procs ?s x = procs s x" if "x \<noteq> p" for x using that by (simp add: join_queue_def)
  have entry: "locks ?s = (locks s)(l \<mapsto> ?k)" using there by (simp add: join_queue_def join_entry_def)
  have wp: "waitProcs ?k = take i (waitProcs k) @ [p] @ drop i (waitProcs k)" by (simp add: join_entry_def)
  have swp: "set (waitProcs ?k) = insert p (set (waitProcs k))" unfolding wp by (rule set_insert_at)
  have h: "holders ?k j = holders k j" for j by (simp add: holders_def join_entry_def)
  have w: "waiters (procs ?s) ?k j = waiters (procs s) k j + pending (Some (p, m)) j" for j
  proof -
    have "filter (\<lambda>x. waitLockMode (procs ?s x) = j) (waitProcs k) = filter (\<lambda>x. waitLockMode (procs s x) = j) (waitProcs k)"
      using q same by (auto intro!: filter_cong) (metis same)+
    moreover have "waitLockMode (procs ?s p) = m" by (simp add: join_queue_def)
    ultimately show ?thesis unfolding waiters_def wp by (simp only: length_filter_insert_at) (simp add: pending_def)
  qed
  have "counts_ok (procs ?s) None ?k"
    unfolding counts_ok_def h w
  proof (intro conjI allI impI)
    show "requested ?k j = holders k j + (waiters (procs s) k j + pending (Some (p, m)) j) + pending None j" for j
      using c by (simp add: counts_ok_def join_entry_def pending_def)
    show "bit (waitMask ?k) j" if "waiters (procs s) k j + pending (Some (p, m)) j > 0" for j
      using that c m by (auto simp: counts_ok_def join_entry_def bit_simps pending_def split: if_splits)
    show "waiters (procs s) k j + pending (Some (p, m)) j + pending None j > 0" if "bit (waitMask ?k) j" for j
      using that c counts_nonneg(2) [of "procs s" k j]
      by (auto simp: counts_ok_def join_entry_def bit_simps pending_def split: if_splits)
  qed (use c in \<open>simp_all add: counts_ok_def join_entry_def\<close>)
  moreover have "waiter_ok ?s l ?k x" if "x \<in> set (waitProcs ?k)" for x
  proof (cases "x = p")
    case True
    then show ?thesis using pl m held by (auto simp: waiter_ok_def join_queue_def join_entry_def)
  next
    case False
    then have "waiter_ok s l k x" using that ok by (auto simp: lock_ok_def swp)
    then show ?thesis using same [OF False] by (simp add: waiter_ok_def) (simp add: join_entry_def)
  qed
  moreover have "proclock_ok ?s None None ?k x" if "x \<in> set (procLocks k)" for x
    using that ok by (auto simp: lock_ok_def proclock_ok_def lead swp)
  moreover have "distinct (waitProcs ?k)" using ok q unfolding wp distinct_insert_at by (simp add: lock_ok_def)
  ultimately have "lock_ok ?s l None None ?k" using ok by (simp add: lock_ok_def pend_ok_def) (simp add: join_entry_def)
  moreover have "lock_ok ?s l' None None k' \<and> procLocks k' \<noteq> []" if "l' \<noteq> l" "locks s l' = Some k'" for l' k'
  proof -
    have "p \<notin> set (waitProcs k')" by (rule not_linked [OF a free that(2)])
    then show ?thesis using a that by (subst lock_ok_cong [of _ _ s]) (auto simp: at_lock_def lead same intro: same)
  qed
  moreover have "links_ok ?s"
    unfolding links_ok_def
  proof (intro allI impI)
    fix x assume x: "links (procs ?s x) \<or> waitStatus (procs ?s x) = STATUS_WAITING"
    show "\<exists>l k. locks ?s l = Some k \<and> x \<in> set (waitProcs k)"
    proof (cases "x = p")
      case True then show ?thesis by (intro exI [of _ l] exI [of _ ?k]) (simp add: entry swp)
    next
      case False
      then obtain l' k' where "locks s l' = Some k'" "x \<in> set (waitProcs k')"
        using a x by (auto simp: at_lock_def links_ok_def same)
      then have "(l' \<noteq> l \<and> locks ?s l' = Some k') \<or> x \<in> set (waitProcs k)" using there by (cases "l' = l") (simp_all add: entry)
      moreover have "locks ?s l = Some ?k" by (simp add: entry)
      ultimately show ?thesis using swp \<open>x \<in> set (waitProcs k')\<close> by blast
    qed
  qed
  ultimately show ?thesis by (auto simp: at_lock_def entry)
qed


section \<open>Waking waiters\<close>

definition wake :: "LOCKTAG \<Rightarrow> procid \<Rightarrow> lock_space \<Rightarrow> lock_space" where
  "wake l p s = ProcWakeup p STATUS_OK (GrantLock l p (waitLockMode (procs s p)) s)"

definition wake_entry :: "lock_space \<Rightarrow> procid \<Rightarrow> LOCK \<Rightarrow> LOCK" where
  "wake_entry s p k = grant_entry p (waitLockMode (procs s p)) (dequeue_entry p k)"

lemma at_lock_waiter: "at_lock s l pend spare k \<Longrightarrow> p \<in> set (waitProcs k) \<Longrightarrow> waiter_ok s l k p"
  by (auto simp: at_lock_def lock_ok_def)

lemma wake_eq:
  assumes a: "at_lock s l None spare k" and p: "p \<in> set (waitProcs k)"
  shows "wake l p s = upd_proc p (\<lambda>q. q\<lparr>links := False, waitLock := None, waitProcLock := None, waitStatus := STATUS_OK\<rparr>)
    (upd_lock l (wake_entry s p) s)"
proof -
  have there: "links (procs s p)" "waitLock (procs s p) = Some l" "locks s l = Some k"
    using at_lock_waiter [OF a p] a by (auto simp: waiter_ok_def at_lock_def)
  have "(grant_entry p m k)\<lparr>waitProcs := remove1 p (waitProcs k)\<rparr> = grant_entry p m (dequeue_entry p k)" for m
    by (rule LOCK.equality) (simp_all add: dequeue_entry_def)
  then show ?thesis
    using there by (simp add: wake_def ProcWakeup_def GrantLock_entry upd_lock_def upd_proc_def wake_entry_def)
qed

lemma at_lock_wake:
  assumes a: "at_lock s l None None k" and p: "p \<in> set (waitProcs k)"
  shows "at_lock (wake l p s) l None None (wake_entry s p k)"
  unfolding wake_eq [OF a p]
proof (rule at_lock_dequeue [OF a])
  show "lock_ok s l None None (wake_entry s p k)"
    unfolding wake_entry_def using a p by (auto simp: at_lock_def intro!: lock_ok_grant lock_ok_dequeue)
qed (use p in \<open>simp_all add: wake_entry_def dequeue_entry_def\<close>)

lemma wakeup_scan_Cons:
  "wakeup_scan l (p # ps) ahead (th, s) =
     (if conflictTab (waitLockMode (procs s p)) AND ahead \<noteq> 0
      then wakeup_scan l ps (ahead OR LOCKBIT_ON (waitLockMode (procs s p))) (th, s)
      else let r = LockCheckConflicts th s (waitLockMode (procs s p)) l p in
        if fst r = STATUS_OK then wakeup_scan l ps ahead (snd r, wake l p s)
        else wakeup_scan l ps (ahead OR LOCKBIT_ON (waitLockMode (procs s p))) (snd r, s))"
  by (simp add: wake_def Let_def split: prod.splits)

declare wakeup_scan.simps(2) [simp del]

lemma procs_wake:
  assumes "at_lock s l None spare k" "p \<in> set (waitProcs k)" "q \<noteq> p"
  shows "procs (wake l p s) q = procs s q"
  using assms by (simp add: wake_eq)

text \<open>
  A rule for the pass over the queue: a property of the state, the mask and the rest of the queue holds at the end if waking and skipping keep it.
\<close>

lemma wakeup_scan_rule:
  assumes "P th s k ahead ps" "at_lock s l None None k" "set ps \<subseteq> set (waitProcs k)" "distinct ps"
    and skip: "\<And>th th' s k ahead p ps. P th s k ahead (p # ps) \<Longrightarrow> at_lock s l None None k \<Longrightarrow> p \<in> set (waitProcs k) \<Longrightarrow>
      conflictTab (waitLockMode (procs s p)) AND ahead \<noteq> 0 \<or>
        fst (LockCheckConflicts th s (waitLockMode (procs s p)) l p) \<noteq> STATUS_OK \<Longrightarrow>
      th' = th \<or> th' = snd (LockCheckConflicts th s (waitLockMode (procs s p)) l p) \<Longrightarrow>
      P th' s k (ahead OR LOCKBIT_ON (waitLockMode (procs s p))) ps"
    and wk: "\<And>th s k ahead p ps. P th s k ahead (p # ps) \<Longrightarrow> at_lock s l None None k \<Longrightarrow> p \<in> set (waitProcs k) \<Longrightarrow> p \<notin> set ps \<Longrightarrow>
      conflictTab (waitLockMode (procs s p)) AND ahead = 0 \<Longrightarrow>
      fst (LockCheckConflicts th s (waitLockMode (procs s p)) l p) = STATUS_OK \<Longrightarrow>
      P (snd (LockCheckConflicts th s (waitLockMode (procs s p)) l p)) (wake l p s) (wake_entry s p k) ahead ps"
  shows "\<exists>th' s' k' ahead'. wakeup_scan l ps ahead (th, s) = (th', s') \<and> at_lock s' l None None k' \<and> P th' s' k' ahead' []"
  using assms(1-4)
proof (induction ps arbitrary: th s k ahead)
  case Nil then show ?case by auto
next
  case (Cons p ps)
  let ?m = "waitLockMode (procs s p)"
  let ?r = "LockCheckConflicts th s ?m l p"
  have p: "p \<in> set (waitProcs k)" "set ps \<subseteq> set (waitProcs k)" "distinct ps" "p \<notin> set ps" using Cons.prems by auto
  have rest: "set ps \<subseteq> set (waitProcs (wake_entry s p k))"
    using p Cons.prems(2) by (auto simp: wake_entry_def dequeue_entry_def at_lock_def lock_ok_def)
  consider (ahead) "conflictTab ?m AND ahead \<noteq> 0" | (held) "conflictTab ?m AND ahead = 0" "fst ?r \<noteq> STATUS_OK"
    | (wake) "conflictTab ?m AND ahead = 0" "fst ?r = STATUS_OK" by blast
  then show ?case
  proof cases
    case ahead
    then show ?thesis
      using Cons.IH [OF skip [OF Cons.prems(1,2) p(1), of th] Cons.prems(2) p(2,3)] by (simp add: wakeup_scan_Cons)
  next
    case held
    then show ?thesis
      using Cons.IH [OF skip [OF Cons.prems(1,2) p(1), of "snd ?r"] Cons.prems(2) p(2,3)] by (simp add: wakeup_scan_Cons Let_def)
  next
    case wake
    then show ?thesis
      using Cons.IH [OF wk [OF Cons.prems(1,2) p(1,4) wake] at_lock_wake [OF Cons.prems(2) p(1)] rest p(3)]
      by (simp add: wakeup_scan_Cons Let_def)
  qed
qed

section \<open>Holders and waiters\<close>

text \<open>
  The threads of one query: \<open>sib\<close> is a symmetric relation that has all pairs of processes which a thread takes to be of the same transaction.
  The answers of \<open>IsInSameTransaction\<close> meet this, see below: no process is its own companion, and the relation is symmetric.
\<close>

definition thread_ok :: "(procid \<Rightarrow> procid \<Rightarrow> bool) \<Rightarrow> lock_thread \<Rightarrow> bool" where
  "thread_ok sib th \<longleftrightarrow> (\<forall>p q. same_transaction th p q \<longrightarrow> p \<noteq> q \<and> sib p q) \<and> (\<forall>p q. sib p q \<longrightarrow> sib q p)"

lemma inNodeGroup_sym: "inNodeGroup g a b \<longleftrightarrow> inNodeGroup g b a"
  by (auto simp: inNodeGroup_def list_ex_iff)

lemma IsInSameTransaction_thread_ok:
  assumes "same_transaction th = IsInSameTransaction cursors global ps"
  shows "thread_ok (IsInSameTransaction cursors global ps) th"
proof -
  have "p \<noteq> q" if "IsInSameTransaction cursors global ps p q" for p q
    using that by (auto simp: IsInSameTransaction_def inNodeGroup_def list_ex_iff split: if_splits option.splits)
  moreover have "IsInSameTransaction cursors global ps p q \<longleftrightarrow> IsInSameTransaction cursors global ps q p" for p q
    unfolding IsInSameTransaction_def by (subst inNodeGroup_sym) (simp add: inNodeGroup_sym split: option.splits)
  ultimately show ?thesis using assms by (auto simp: thread_ok_def)
qed

definition groups_ok :: "lock_space \<Rightarrow> bool" where
  "groups_ok s \<longleftrightarrow> (\<forall>p g. lockGroupLeader (procs s p) = Some g \<longrightarrow> lockGroupLeader (procs s g) = Some g)"

definition companions :: "(procid \<Rightarrow> procid \<Rightarrow> bool) \<Rightarrow> PROCLOCK \<Rightarrow> PROCLOCK \<Rightarrow> bool" where
  "companions sib pl pl' \<longleftrightarrow> myProc pl = myProc pl' \<or> groupLeader pl = groupLeader pl' \<or> sib (myProc pl) (myProc pl')"

definition conflict_free :: "(procid \<Rightarrow> procid \<Rightarrow> bool) \<Rightarrow> LOCK \<Rightarrow> bool" where
  "conflict_free sib k \<longleftrightarrow> (\<forall>pl \<in> set (procLocks k). \<forall>pl' \<in> set (procLocks k). \<forall>i j.
     bit (holdMask pl) i \<longrightarrow> bit (holdMask pl') j \<longrightarrow> conflicts i j \<longrightarrow> companions sib pl pl')"

text \<open>Somebody keeps a waiter waiting: a holder outside its group, or a waiter ahead of it.\<close>

definition held_up :: "lock_space \<Rightarrow> LOCK \<Rightarrow> procid \<Rightarrow> bool" where
  "held_up s k p \<longleftrightarrow>
     (\<exists>other \<in> set (procLocks k). groupLeader other \<noteq> leader_of s p \<and> blocked_by (waitLockMode (procs s p)) other) \<or>
     (\<exists>q \<in> set (takeWhile (\<lambda>x. x \<noteq> p) (waitProcs k)). conflicts (waitLockMode (procs s p)) (waitLockMode (procs s q)))"

definition no_lost_wakeup :: "lock_space \<Rightarrow> LOCK \<Rightarrow> bool" where
  "no_lost_wakeup s k \<longleftrightarrow> (\<forall>p \<in> set (waitProcs k). held_up s k p)"

text \<open>The invariant of the lock table.\<close>

definition table_ok :: "(procid \<Rightarrow> procid \<Rightarrow> bool) \<Rightarrow> lock_space \<Rightarrow> bool" where
  "table_ok sib s \<longleftrightarrow> locks_ok s \<and> groups_ok s \<and>
     (\<forall>l k. locks s l = Some k \<longrightarrow> conflict_free sib k \<and> no_lost_wakeup s k)"

lemma LockCheckConflicts_thread:
  "same_transaction (snd (LockCheckConflicts th s m l p)) = same_transaction th"
  "me (snd (LockCheckConflicts th s m l p)) = me th"
  "in_stream (snd (LockCheckConflicts th s m l p)) = in_stream th"
proof -
  have "same_transaction (find_redistribution th s k p m) = same_transaction th \<and>
      me (find_redistribution th s k p m) = me th \<and> in_stream (find_redistribution th s k p m) = in_stream th" for k
  proof -
    have "same_transaction (fold (\<lambda>other t. if Q other then t\<lparr>blocking_redistribution_proc := f other\<rparr> else t) xs th) =
        same_transaction th \<and>
        me (fold (\<lambda>other t. if Q other then t\<lparr>blocking_redistribution_proc := f other\<rparr> else t) xs th) = me th \<and>
        in_stream (fold (\<lambda>other t. if Q other then t\<lparr>blocking_redistribution_proc := f other\<rparr> else t) xs th) = in_stream th"
      for Q f and xs :: "PROCLOCK list"
      by (induction xs arbitrary: th) simp_all
    then show ?thesis by (simp add: find_redistribution_def)
  qed
  then show "same_transaction (snd (LockCheckConflicts th s m l p)) = same_transaction th"
    "me (snd (LockCheckConflicts th s m l p)) = me th"
    "in_stream (snd (LockCheckConflicts th s m l p)) = in_stream th"
    by (simp_all add: LockCheckConflicts_def Let_def split: option.splits)
qed

lemma thread_ok_check [simp]: "thread_ok sib (snd (LockCheckConflicts th s m l p)) \<longleftrightarrow> thread_ok sib th"
  by (simp add: thread_ok_def LockCheckConflicts_thread)

lemma check_conflicts:
  assumes a: "at_lock s l pend spare k" and th: "thread_ok sib th" and g: "groups_ok s"
    and pl: "pl \<in> set (procLocks k)" "myProc pl = p" and m: "m \<in> modes"
  shows "fst (LockCheckConflicts th s m l p) = STATUS_OK \<Longrightarrow> other \<in> set (procLocks k) \<Longrightarrow> blocked_by m other \<Longrightarrow> companions sib pl other"
    and "fst (LockCheckConflicts th s m l p) \<noteq> STATUS_OK \<Longrightarrow>
      \<exists>other \<in> set (procLocks k). groupLeader other \<noteq> leader_of s p \<and> blocked_by m other"
proof -
  have there: "locks s l = Some k" and c: "counts_ok (procs s) pend k" and d: "distinct (map myProc (procLocks k))"
    and pls: "\<And>pl. pl \<in> set (procLocks k) \<Longrightarrow> groupLeader pl = leader_of s (myProc pl)"
    using a by (auto simp: at_lock_def lock_ok_def proclock_ok_def)
  have irr: "\<And>q. \<not> same_transaction th q q" using th by (auto simp: thread_ok_def)
  note iff = LockCheckConflicts_ok_iff [OF there c d pl(1) m irr, unfolded pl(2)]
  show "companions sib pl other" if "fst (LockCheckConflicts th s m l p) = STATUS_OK" "other \<in> set (procLocks k)" "blocked_by m other"
    using that iff th by (auto simp: together_def IsInSameLockGroup_def companions_def thread_ok_def split: if_splits)
  assume "fst (LockCheckConflicts th s m l p) \<noteq> STATUS_OK"
  then obtain other where o: "other \<in> set (procLocks k)" "other \<noteq> pl" "\<not> together th s pl other" "blocked_by m other"
    using iff by blast
  have ne: "myProc other \<noteq> p" using o(1,2) pl d by (auto simp: distinct_map inj_on_def)
  have "groupLeader other \<noteq> leader_of s p"
  proof
    assume eq: "groupLeader other = leader_of s p"
    then have same: "groupLeader other = groupLeader pl" using pls pl by simp
    show False
    proof (cases "in_lock_group th s pl")
      case True then show False using o same ne pl by (simp add: together_def IsInSameLockGroup_def)
    next
      case False
      then have me: "groupLeader pl = me th" "lockGroupLeader (procs s (me th)) = None" by (auto simp: in_lock_group_def)
      then have "leader_of s (myProc other) = me th" using pls [OF o(1)] same by simp
      then show False using g me ne pl same pls [OF pl(1)] unfolding groups_ok_def leader_of_def by (auto split: option.splits)
    qed
  qed
  with o show "\<exists>other \<in> set (procLocks k). groupLeader other \<noteq> leader_of s p \<and> blocked_by m other" by blast
qed

lemma conflict_free_grant:
  assumes cf: "conflict_free sib k" and sym: "\<And>p q. sib p q \<Longrightarrow> sib q p"
    and pl: "pl \<in> set (procLocks k)" "myProc pl = p" and d: "distinct (map myProc (procLocks k))" and m: "m \<in> modes"
    and new: "\<And>other. other \<in> set (procLocks k) \<Longrightarrow> blocked_by m other \<Longrightarrow> companions sib pl other"
    and bits: "\<And>pl i. pl \<in> set (procLocks k) \<Longrightarrow> bit (holdMask pl) i \<Longrightarrow> i \<in> modes"
  shows "conflict_free sib (grant_entry p m k)"
proof -
  let ?up = "\<lambda>x. if myProc x = p then x\<lparr>holdMask := holdMask x OR LOCKBIT_ON m\<rparr> else x"
  have uniq: "x = pl" if "x \<in> set (procLocks k)" "myProc x = p" for x using that pl d by (auto simp: distinct_map inj_on_def)
  have same: "companions sib (?up x) (?up y) \<longleftrightarrow> companions sib x y" for x y by (simp add: companions_def)
  have rev: "companions sib x y \<Longrightarrow> companions sib y x" for x y using sym by (auto simp: companions_def)
  have held: "bit (holdMask (?up x)) i \<longleftrightarrow> bit (holdMask x) i \<or> (myProc x = p \<and> i = m)" for x i
    using m by (auto simp: bit_simps)
  have "companions sib x y"
    if xy: "x \<in> set (procLocks k)" "y \<in> set (procLocks k)"
      and b: "bit (holdMask x) i \<or> (myProc x = p \<and> i = m)" "bit (holdMask y) j \<or> (myProc y = p \<and> j = m)" and c: "conflicts i j"
    for x y i j
    using b
  proof (elim disjE)
    assume "bit (holdMask x) i" "bit (holdMask y) j"
    then show ?thesis using cf xy c by (auto simp: conflict_free_def)
  next
    assume "myProc x = p \<and> i = m" "bit (holdMask y) j"
    then show ?thesis using new [of y] uniq [OF xy(1)] c xy(2) by (auto simp: blocked_by_def)
  next
    assume x: "bit (holdMask x) i" and y: "myProc y = p \<and> j = m"
    then have "blocked_by m x" using c conflicts_sym [OF bits [OF xy(1) x] m] by (auto simp: blocked_by_def)
    then show ?thesis using new [OF xy(1)] uniq [OF xy(2)] y rev by blast
  next
    assume "myProc x = p \<and> i = m" "myProc y = p \<and> j = m"
    then show ?thesis by (simp add: companions_def)
  qed
  then show ?thesis
    unfolding conflict_free_def grant_entry_simps set_upd_proclock ball_simps(9) held same by blast
qed

lemma at_lock_bits: "at_lock s l pend spare k \<Longrightarrow> pl \<in> set (procLocks k) \<Longrightarrow> bit (holdMask pl) i \<Longrightarrow> i \<in> modes"
  by (auto simp: at_lock_def lock_ok_def proclock_ok_def)

lemma at_lock_distinct: "at_lock s l pend spare k \<Longrightarrow> distinct (map myProc (procLocks k)) \<and> distinct (waitProcs k)"
  by (simp add: at_lock_def lock_ok_def)

lemma at_lock_waiter_pl:
  assumes a: "at_lock s l pend spare k" and p: "p \<in> set (waitProcs k)"
  obtains pl where "pl \<in> set (procLocks k)" "myProc pl = p" "waitLockMode (procs s p) \<in> modes"
  using at_lock_waiter [OF a p] by (auto simp: waiter_ok_def)

text \<open>Hard blockers stay when locks are granted.\<close>

lemma blocked_by_grant:
  assumes "\<exists>other \<in> set (procLocks k). groupLeader other \<noteq> g \<and> blocked_by m other"
  shows "\<exists>other \<in> set (procLocks (grant_entry p i k)). groupLeader other \<noteq> g \<and> blocked_by m other"
proof -
  from assms obtain other where o: "other \<in> set (procLocks k)" "groupLeader other \<noteq> g" "blocked_by m other" by blast
  let ?o = "if myProc other = p then other\<lparr>holdMask := holdMask other OR LOCKBIT_ON i\<rparr> else other"
  have "?o \<in> set (procLocks (grant_entry p i k))" using o(1) by (simp add: set_upd_proclock)
  moreover have "groupLeader ?o \<noteq> g" "blocked_by m ?o" using o by (auto simp: blocked_by_def bit_simps)
  ultimately show ?thesis by blast
qed

lemma takeWhile_upto: "p \<notin> set xs \<Longrightarrow> takeWhile (\<lambda>x. x \<noteq> p) (xs @ p # ys) = xs"
  by (induction xs) auto

lemma takeWhile_prefix: "p \<in> set xs \<Longrightarrow> takeWhile (\<lambda>x. x \<noteq> p) (xs @ ys) = takeWhile (\<lambda>x. x \<noteq> p) xs"
  by (induction xs) auto

text \<open>The other locks, while one is being worked on.\<close>

definition elsewhere :: "(procid \<Rightarrow> procid \<Rightarrow> bool) \<Rightarrow> lock_space \<Rightarrow> LOCKTAG \<Rightarrow> bool" where
  "elsewhere sib s l \<longleftrightarrow> groups_ok s \<and>
     (\<forall>l' k'. l' \<noteq> l \<longrightarrow> locks s l' = Some k' \<longrightarrow> conflict_free sib k' \<and> no_lost_wakeup s k')"

lemma held_up_cong:
  assumes "\<And>q. q \<in> set (waitProcs k) \<Longrightarrow> procs s' q = procs s q" "\<And>q. leader_of s' q = leader_of s q" "p \<in> set (waitProcs k)"
  shows "held_up s' k p \<longleftrightarrow> held_up s k p"
proof -
  have "q \<in> set (waitProcs k)" if "q \<in> set (takeWhile P (waitProcs k))" for q P using that by (rule set_takeWhileD [THEN conjunct1])
  then show ?thesis unfolding held_up_def using assms by auto
qed

lemma elsewhere_upd_lock [simp]: "elsewhere sib (upd_lock l F s) l \<longleftrightarrow> elsewhere sib s l"
proof -
  have "no_lost_wakeup (upd_lock l F s) k \<longleftrightarrow> no_lost_wakeup s k" for k by (simp add: no_lost_wakeup_def held_up_def leader_of_def)
  then show ?thesis by (simp add: elsewhere_def groups_ok_def)
qed

lemma elsewhere_upd_proc:
  assumes e: "elsewhere sib s l" and g: "lockGroupLeader (f (procs s p)) = lockGroupLeader (procs s p)"
    and p: "\<And>l' k'. l' \<noteq> l \<Longrightarrow> locks s l' = Some k' \<Longrightarrow> p \<notin> set (waitProcs k')"
  shows "elsewhere sib (upd_proc p f s) l"
proof -
  let ?s = "upd_proc p f s"
  have lead: "leader_of ?s q = leader_of s q" for q by (rule leader_of_cong) (simp add: g)
  have "no_lost_wakeup ?s k' \<longleftrightarrow> no_lost_wakeup s k'" if "l' \<noteq> l" "locks s l' = Some k'" for l' k'
    using p [OF that] unfolding no_lost_wakeup_def by (intro ball_cong refl held_up_cong) (auto simp: lead)
  then show ?thesis using e g by (auto simp: elsewhere_def groups_ok_def)
qed

lemma waits_here:
  assumes "at_lock s l pend spare k" "p \<in> set (waitProcs k)" "l' \<noteq> l" "locks s l' = Some k'"
  shows "p \<notin> set (waitProcs k')"
  using assms by (auto simp: at_lock_def lock_ok_def waiter_ok_def)

lemma elsewhere_wake:
  assumes a: "at_lock s l None spare k" and p: "p \<in> set (waitProcs k)" and e: "elsewhere sib s l"
  shows "elsewhere sib (wake l p s) l"
  unfolding wake_eq [OF a p]
  by (rule elsewhere_upd_proc) (use e waits_here [OF a p] in auto)

lemma leader_of_wake:
  assumes "at_lock s l None spare k" "p \<in> set (waitProcs k)" shows "leader_of (wake l p s) q = leader_of s q"
  by (rule leader_of_cong) (simp add: wake_eq [OF assms])

text \<open>
  The pass over the queue: what has been passed (\<open>sk\<close>) stays at the front of the queue, \<open>ahead\<close> are its modes, and each of it is held up.
\<close>

definition scanned :: "(procid \<Rightarrow> procid \<Rightarrow> bool) \<Rightarrow> LOCKTAG \<Rightarrow> lock_thread \<Rightarrow> lock_space \<Rightarrow> LOCK \<Rightarrow> LOCKMASK \<Rightarrow> procid list \<Rightarrow> bool" where
  "scanned sib l th s k ahead ps \<longleftrightarrow> thread_ok sib th \<and> elsewhere sib s l \<and> conflict_free sib k \<and> procLocks k \<noteq> [] \<and>
     (\<exists>sk. waitProcs k = sk @ ps \<and> (\<forall>i. bit ahead i \<longleftrightarrow> (\<exists>q \<in> set sk. waitLockMode (procs s q) = i)) \<and> (\<forall>q \<in> set sk. held_up s k q))"

lemma scanned_skip:
  assumes sc: "scanned sib l th s k ahead (p # ps)" and a: "at_lock s l None None k" and p: "p \<in> set (waitProcs k)"
    and why: "conflictTab (waitLockMode (procs s p)) AND ahead \<noteq> 0 \<or>
      fst (LockCheckConflicts th s (waitLockMode (procs s p)) l p) \<noteq> STATUS_OK"
    and th': "th' = th \<or> th' = snd (LockCheckConflicts th s (waitLockMode (procs s p)) l p)"
  shows "scanned sib l th' s k (ahead OR LOCKBIT_ON (waitLockMode (procs s p))) ps"
proof -
  let ?m = "waitLockMode (procs s p)"
  obtain sk where sk: "waitProcs k = sk @ p # ps" "\<And>i. bit ahead i \<longleftrightarrow> (\<exists>q \<in> set sk. waitLockMode (procs s q) = i)"
      "\<And>q. q \<in> set sk \<Longrightarrow> held_up s k q"
    using sc by (auto simp: scanned_def)
  have th: "thread_ok sib th" "groups_ok s" using sc by (auto simp: scanned_def elsewhere_def)
  obtain pl where pl: "pl \<in> set (procLocks k)" "myProc pl = p" and m: "?m \<in> modes" by (rule at_lock_waiter_pl [OF a p]) blast
  have before: "takeWhile (\<lambda>x. x \<noteq> p) (waitProcs k) = sk"
    using at_lock_distinct [OF a] sk(1) by (simp add: takeWhile_upto)
  have "held_up s k p"
    using why
  proof
    assume "conflictTab ?m AND ahead \<noteq> 0"
    then show ?thesis unfolding held_up_def before conflictTab_meets sk(2) by blast
  next
    assume "fst (LockCheckConflicts th s ?m l p) \<noteq> STATUS_OK"
    then show ?thesis unfolding held_up_def using check_conflicts(2) [OF a th pl m] by blast
  qed
  then have "\<forall>q \<in> set (sk @ [p]). held_up s k q" using sk by auto
  moreover have "bit (ahead OR LOCKBIT_ON ?m) i \<longleftrightarrow> (\<exists>q \<in> set (sk @ [p]). waitLockMode (procs s q) = i)" for i
    using sk(2) m by (auto simp: bit_simps)
  ultimately show ?thesis
    using sc th' sk(1) unfolding scanned_def by (auto intro!: exI [of _ "sk @ [p]"])
qed

lemma scanned_wake:
  assumes sc: "scanned sib l th s k ahead (p # ps)" and a: "at_lock s l None None k" and p: "p \<in> set (waitProcs k)" "p \<notin> set ps"
    and clear: "conflictTab (waitLockMode (procs s p)) AND ahead = 0"
      "fst (LockCheckConflicts th s (waitLockMode (procs s p)) l p) = STATUS_OK"
  shows "scanned sib l (snd (LockCheckConflicts th s (waitLockMode (procs s p)) l p)) (wake l p s) (wake_entry s p k) ahead ps"
proof -
  let ?m = "waitLockMode (procs s p)" and ?k = "wake_entry s p k" and ?s = "wake l p s"
  obtain sk where sk: "waitProcs k = sk @ p # ps" "\<And>i. bit ahead i \<longleftrightarrow> (\<exists>q \<in> set sk. waitLockMode (procs s q) = i)"
      "\<And>q. q \<in> set sk \<Longrightarrow> held_up s k q"
    using sc by (auto simp: scanned_def)
  have th: "thread_ok sib th" "groups_ok s" and cf: "conflict_free sib k" and e: "elsewhere sib s l"
    using sc by (auto simp: scanned_def elsewhere_def)
  obtain pl where pl: "pl \<in> set (procLocks k)" "myProc pl = p" and m: "?m \<in> modes" by (rule at_lock_waiter_pl [OF a p(1)]) blast
  have psk: "p \<notin> set sk" using at_lock_distinct [OF a] sk(1) by simp
  have wp: "waitProcs ?k = sk @ ps" using sk(1) psk by (simp add: wake_entry_def dequeue_entry_def remove1_append)
  have same: "procs ?s q = procs s q" if "q \<in> set sk" for q
    by (rule procs_wake [OF a p(1)]) (use that psk in auto)
  have "conflict_free sib (dequeue_entry p k)" using cf by (simp add: conflict_free_def dequeue_entry_def)
  then have cf': "conflict_free sib ?k"
    unfolding wake_entry_def
  proof (rule conflict_free_grant)
    show "sib x y \<Longrightarrow> sib y x" for x y using th by (auto simp: thread_ok_def)
    show "other \<in> set (procLocks (dequeue_entry p k)) \<Longrightarrow> blocked_by ?m other \<Longrightarrow> companions sib pl other" for other
      using check_conflicts(1) [OF a th pl m clear(2)] by (simp add: dequeue_entry_def)
  qed (use pl m at_lock_distinct [OF a] at_lock_bits [OF a] in \<open>auto simp: dequeue_entry_def\<close>)
  moreover have "held_up ?s ?k q" if q: "q \<in> set sk" for q
  proof -
    have tw: "takeWhile (\<lambda>x. x \<noteq> q) (waitProcs ?k) = takeWhile (\<lambda>x. x \<noteq> q) sk"
      "takeWhile (\<lambda>x. x \<noteq> q) (waitProcs k) = takeWhile (\<lambda>x. x \<noteq> q) sk"
      unfolding wp sk(1) using q by (simp_all add: takeWhile_prefix)
    have sub: "x \<in> set sk" if "x \<in> set (takeWhile (\<lambda>x. x \<noteq> q) sk)" for x using that by (rule set_takeWhileD [THEN conjunct1])
    show ?thesis
      using sk(3) [OF q] unfolding held_up_def tw leader_of_wake [OF a p(1)] same [OF q]
    proof
      assume "\<exists>other \<in> set (procLocks k). groupLeader other \<noteq> leader_of s q \<and> blocked_by (waitLockMode (procs s q)) other"
      then have "\<exists>other \<in> set (procLocks ?k). groupLeader other \<noteq> leader_of s q \<and> blocked_by (waitLockMode (procs s q)) other"
        unfolding wake_entry_def by (intro blocked_by_grant) (simp add: dequeue_entry_def)
      then show "(\<exists>other \<in> set (procLocks ?k). groupLeader other \<noteq> leader_of s q \<and> blocked_by (waitLockMode (procs s q)) other) \<or>
        (\<exists>x \<in> set (takeWhile (\<lambda>x. x \<noteq> q) sk). conflicts (waitLockMode (procs s q)) (waitLockMode (procs ?s x)))" ..
    qed (use same sub in fastforce)
  qed
  moreover have "bit ahead i \<longleftrightarrow> (\<exists>q \<in> set sk. waitLockMode (procs ?s q) = i)" for i using sk(2) same by auto
  moreover have "procLocks ?k \<noteq> []" using pl(1) by (auto simp: wake_entry_def dequeue_entry_def upd_proclock_def)
  ultimately show ?thesis
    using th elsewhere_wake [OF a p(1) e] wp unfolding scanned_def by auto
qed

section \<open>Releasing\<close>

lemma table_ok_of:
  assumes a: "at_lock s l None None k" and ne: "procLocks k \<noteq> []" and e: "elsewhere sib s l"
    and k: "conflict_free sib k" "no_lost_wakeup s k"
  shows "table_ok sib s"
  unfolding table_ok_def
proof (intro conjI allI impI)
  have there: "locks s l = Some k" using a by (simp add: at_lock_def)
  show "locks_ok s" by (rule locks_ok_of [OF a ne])
  show "groups_ok s" using e by (simp add: elsewhere_def)
  show "conflict_free sib k'" "no_lost_wakeup s k'" if "locks s l' = Some k'" for l' k'
    using e k there that by (cases "l' = l"; auto simp: elsewhere_def)+
qed

lemma table_ok_at:
  assumes t: "table_ok sib s" and k: "locks s l = Some k"
  shows "at_lock s l None None k" "procLocks k \<noteq> []" "elsewhere sib s l" "conflict_free sib k" "no_lost_wakeup s k"
  using t k at_lock_of [of s l k] by (auto simp: table_ok_def elsewhere_def locks_ok_def)

lemma no_waiters: "at_lock s l pend spare k \<Longrightarrow> procLocks k = [] \<Longrightarrow> waitProcs k = []"
  by (cases "waitProcs k") (auto simp: at_lock_def lock_ok_def waiter_ok_def)

lemma no_lost_wakeup_procs: "procs s' = procs s \<Longrightarrow> no_lost_wakeup s' k \<longleftrightarrow> no_lost_wakeup s k"
  by (simp add: no_lost_wakeup_def held_up_def leader_of_def)

lemma table_ok_delete:
  assumes a: "at_lock s l None None k" and no: "procLocks k = []" and e: "elsewhere sib s l"
  shows "table_ok sib (s\<lparr>locks := (locks s)(l := None)\<rparr>)"
proof -
  let ?s = "s\<lparr>locks := (locks s)(l := None)\<rparr>"
  have "lock_ok ?s l' pend spare k' \<longleftrightarrow> lock_ok s l' pend spare k'" for l' pend spare k'
    by (rule lock_ok_cong) (simp_all add: leader_of_def)
  moreover have "links_ok ?s"
    using a no_waiters [OF a no] unfolding at_lock_def links_ok_def by simp (metis empty_iff list.set(1) option.inject)
  moreover have "no_lost_wakeup ?s k' \<longleftrightarrow> no_lost_wakeup s k'" for k' by (rule no_lost_wakeup_procs) simp
  ultimately show ?thesis
    using a e by (auto simp: table_ok_def locks_ok_def at_lock_def elsewhere_def groups_ok_def)
qed

lemma held_up_drop: "held_up s k q \<Longrightarrow> held_up s (drop_entry p k) q"
  unfolding held_up_def drop_entry_def by (auto simp: blocked_by_def)

text \<open>Waking leaves everybody who stays in the queue held up, whatever the queue was like before.\<close>

lemma ProcLockWakeup_ok:
  assumes a: "at_lock s l None None k" and ne: "procLocks k \<noteq> []" and th: "thread_ok sib th" and e: "elsewhere sib s l"
    and cf: "conflict_free sib k"
  obtains th' s' where "ProcLockWakeup l (th, s) = (th', s')" "table_ok sib s'" "thread_ok sib th'"
proof -
  have "scanned sib l th s k 0 (waitProcs k)" using th e cf ne by (simp add: scanned_def)
  then have "\<exists>th' s' k' ahead'. wakeup_scan l (waitProcs k) 0 (th, s) = (th', s') \<and> at_lock s' l None None k' \<and>
      scanned sib l th' s' k' ahead' []"
    by (rule wakeup_scan_rule [where P = "scanned sib l"]) (use a at_lock_distinct [OF a] scanned_skip scanned_wake in blast)+
  moreover have "lock_at s l = k" using a by (simp add: at_lock_def lock_at_def)
  ultimately obtain th' s' k' where r: "ProcLockWakeup l (th, s) = (th', s')" "at_lock s' l None None k'" "thread_ok sib th'"
      "elsewhere sib s' l" "conflict_free sib k'" "procLocks k' \<noteq> []" "no_lost_wakeup s' k'"
    by (auto simp: ProcLockWakeup_def scanned_def no_lost_wakeup_def)
  then show thesis using that table_ok_of [OF r(2,6,4,5,7)] by blast
qed

lemma CleanUpLock_ok:
  assumes a: "at_lock s l None (Some p) k" and p: "p \<notin> set (waitProcs k)" and th: "thread_ok sib th" and e: "elsewhere sib s l"
    and cf: "conflict_free sib k" and w: "wakeupNeeded \<or> no_lost_wakeup s k"
  obtains th' s' where "CleanUpLock l p wakeupNeeded (th, s) = (th', s')" "table_ok sib s'" "thread_ok sib th'"
proof -
  let ?s = "drop_empty_proclock l p s" and ?k = "drop_entry p k"
  have a': "at_lock ?s l None None ?k"
    unfolding drop_empty_proclock_entry
  proof (rule at_lock_change [OF a])
    show "lock_ok s l None None ?k" using a p by (simp add: at_lock_def lock_ok_drop)
  qed (simp add: drop_entry_def)
  have e': "elsewhere sib ?s l" using e by (simp add: drop_empty_proclock_entry)
  have cf': "conflict_free sib ?k" using cf by (auto simp: conflict_free_def drop_entry_def)
  have k: "lock_at ?s l = ?k" using a' by (simp add: at_lock_def lock_at_def)
  have zero: "nRequested ?k = 0 \<longleftrightarrow> procLocks ?k = []" using a' nRequested_zero_iff by (auto simp: at_lock_def)
  consider (last) "procLocks ?k = []" | (wake) "procLocks ?k \<noteq> []" "wakeupNeeded" | (keep) "procLocks ?k \<noteq> []" "\<not> wakeupNeeded" by blast
  then show thesis
  proof cases
    case last
    then show thesis
      using that [of th "?s\<lparr>locks := (locks ?s)(l := None)\<rparr>"] table_ok_delete [OF a' last e'] th zero k
      by (simp add: CleanUpLock_def Let_def)
  next
    case wake
    obtain th' s' where "ProcLockWakeup l (th, ?s) = (th', s')" "table_ok sib s'" "thread_ok sib th'"
      by (rule ProcLockWakeup_ok [OF a' wake(1) th e' cf'])
    then show thesis using that wake zero k by (simp add: CleanUpLock_def Let_def)
  next
    case keep
    then have "no_lost_wakeup s k" using w by simp
    moreover have "procs ?s = procs s" by (simp add: drop_empty_proclock_entry)
    moreover have "waitProcs ?k = waitProcs k" by (simp add: drop_entry_def)
    ultimately have "no_lost_wakeup ?s ?k"
      using held_up_drop by (subst no_lost_wakeup_procs [of _ s]) (simp_all add: no_lost_wakeup_def)
    then show thesis
      using that [of th ?s] table_ok_of [OF a' keep(1) e' cf'] th keep zero k by (simp add: CleanUpLock_def Let_def)
  qed
qed

text \<open>Giving up a wait.\<close>

definition leave_queue :: "LOCKTAG \<Rightarrow> procid \<Rightarrow> lock_space \<Rightarrow> lock_space" where
  "leave_queue l p s =
     upd_proc p (\<lambda>q. q\<lparr>links := False, waitLock := None, waitProcLock := None, waitStatus := STATUS_ERROR\<rparr>)
       (upd_lock l (\<lambda>k. withdraw_entry (waitLockMode (procs s p)) (dequeue_entry p k)) s)"

lemma RemoveFromWaitQueue_step:
  assumes t: "table_ok sib s" and p: "links (procs s p)"
  obtains l k where "locks s l = Some k" "p \<in> set (waitProcs k)" "RemoveFromWaitQueue p (th, s) = CleanUpLock l p True (th, leave_queue l p s)"
    "at_lock (leave_queue l p s) l None (Some p) (withdraw_entry (waitLockMode (procs s p)) (dequeue_entry p k))"
    "elsewhere sib (leave_queue l p s) l" "conflict_free sib (withdraw_entry (waitLockMode (procs s p)) (dequeue_entry p k))"
    "p \<notin> set (waitProcs (withdraw_entry (waitLockMode (procs s p)) (dequeue_entry p k)))"
proof -
  obtain l k where k: "locks s l = Some k" and pk: "p \<in> set (waitProcs k)"
    using t p by (auto simp: table_ok_def locks_ok_def links_ok_def)
  note a = table_ok_at [OF t k]
  note w = at_lock_waiter [OF a(1) pk, unfolded waiter_ok_def]
  let ?m = "waitLockMode (procs s p)"
  let ?F = "\<lambda>k. withdraw_entry ?m (dequeue_entry p k)"
  let ?g = "\<lambda>q. q\<lparr>links := False, waitLock := None, waitProcLock := None, waitStatus := STATUS_ERROR\<rparr>"
  have F: "(\<lambda>k. k\<lparr>waitProcs := remove1 p (waitProcs k), nRequested := nRequested k - 1,
      requested := (requested k)(?m := requested k ?m - 1),
      waitMask := (if granted k ?m = requested k ?m - 1 then waitMask k AND LOCKBIT_OFF ?m else waitMask k)\<rparr>) = ?F"
    by (rule ext, rule LOCK.equality) (simp_all add: withdraw_entry_def dequeue_entry_def)
  have eq: "RemoveFromWaitQueue p (th, s) = CleanUpLock l p True (th, leave_queue l p s)"
    using w unfolding leave_queue_def F [symmetric] by (simp add: RemoveFromWaitQueue_def Let_def)
  have "lock_ok s l (Some (p, ?m)) None (dequeue_entry p k)" using a(1) pk by (auto simp: at_lock_def intro: lock_ok_dequeue)
  then have "lock_ok s l None (Some p) (?F k)" by (rule lock_ok_withdraw)
  then have a': "at_lock (leave_queue l p s) l None (Some p) (?F k)"
    unfolding leave_queue_def by (rule at_lock_dequeue [OF a(1)]) (use pk in \<open>simp_all add: withdraw_entry_def dequeue_entry_def\<close>)
  have "elsewhere sib (upd_lock l ?F s) l" using a(3) by simp
  then have e: "elsewhere sib (leave_queue l p s) l"
    unfolding leave_queue_def by (rule elsewhere_upd_proc) (use waits_here [OF a(1) pk] in auto)
  have cf: "conflict_free sib (?F k)" using a(4) by (simp add: conflict_free_def withdraw_entry_def dequeue_entry_def)
  have "p \<notin> set (waitProcs (?F k))" using at_lock_distinct [OF a(1)] by (simp add: withdraw_entry_def dequeue_entry_def)
  then show thesis using that [OF k pk eq a' e cf] by blast
qed

lemma RemoveFromWaitQueue_ok:
  assumes t: "table_ok sib s" and p: "links (procs s p)" and th: "thread_ok sib th"
  obtains th' s' where "RemoveFromWaitQueue p (th, s) = (th', s')" "table_ok sib s'" "thread_ok sib th'"
proof -
  obtain l k where step: "RemoveFromWaitQueue p (th, s) = CleanUpLock l p True (th, leave_queue l p s)"
    "at_lock (leave_queue l p s) l None (Some p) (withdraw_entry (waitLockMode (procs s p)) (dequeue_entry p k))"
    "elsewhere sib (leave_queue l p s) l" "conflict_free sib (withdraw_entry (waitLockMode (procs s p)) (dequeue_entry p k))"
    "p \<notin> set (waitProcs (withdraw_entry (waitLockMode (procs s p)) (dequeue_entry p k)))"
    by (rule RemoveFromWaitQueue_step [OF t p, of th])
  from CleanUpLock_ok [OF step(2,5) th step(3,4)] show thesis using that step(1) by metis
qed

text \<open>Releasing: waiters are only looked at when the mode given back conflicts with a mode awaited, and that is enough.\<close>

lemma held_up_ungrant:
  assumes h: "held_up s k q" and noc: "\<not> conflicts (waitLockMode (procs s q)) m"
  shows "held_up s (ungrant_entry p m k) q"
  using h unfolding held_up_def
proof
  assume "\<exists>other \<in> set (procLocks k). groupLeader other \<noteq> leader_of s q \<and> blocked_by (waitLockMode (procs s q)) other"
  then obtain other where o: "other \<in> set (procLocks k)" "groupLeader other \<noteq> leader_of s q"
      "blocked_by (waitLockMode (procs s q)) other" by blast
  let ?o = "if myProc other = p then other\<lparr>holdMask := holdMask other AND LOCKBIT_OFF m\<rparr> else other"
  have "?o \<in> set (procLocks (ungrant_entry p m k))" using o(1) by (simp add: set_upd_proclock)
  moreover have "groupLeader ?o \<noteq> leader_of s q" "blocked_by (waitLockMode (procs s q)) ?o"
    using o noc by (auto simp: blocked_by_def bit_simps dest: bit_lt_32)
  ultimately show "(\<exists>other \<in> set (procLocks (ungrant_entry p m k)). groupLeader other \<noteq> leader_of s q \<and>
      blocked_by (waitLockMode (procs s q)) other) \<or>
    (\<exists>x \<in> set (takeWhile (\<lambda>x. x \<noteq> q) (waitProcs (ungrant_entry p m k))). conflicts (waitLockMode (procs s q)) (waitLockMode (procs s x)))"
    by blast
qed simp

lemma at_lock_spare: "at_lock s l None None k \<Longrightarrow> at_lock s l None spare k"
  by (auto simp: at_lock_def lock_ok_spare)

lemma UnGrantLock_step:
  assumes a: "at_lock s l None (Some p) k" and e: "elsewhere sib s l" and cf: "conflict_free sib k" and w: "w \<or> no_lost_wakeup s k"
    and pl: "pl \<in> set (procLocks k)" "myProc pl = p" "bit (holdMask pl) m" and m: "m \<in> modes" and pk: "p \<notin> set (waitProcs k)"
  obtains w' where "UnGrantLock l m p s = (w', upd_lock l (ungrant_entry p m) s)"
    "at_lock (upd_lock l (ungrant_entry p m) s) l None (Some p) (ungrant_entry p m k)" "elsewhere sib (upd_lock l (ungrant_entry p m) s) l"
    "conflict_free sib (ungrant_entry p m k)" "w \<or> w' \<or> no_lost_wakeup (upd_lock l (ungrant_entry p m) s) (ungrant_entry p m k)"
proof -
  let ?k = "ungrant_entry p m k" and ?s = "upd_lock l (ungrant_entry p m) s"
  have la: "lock_at s l = k" using a by (simp add: at_lock_def lock_at_def)
  have "lock_ok s l None (Some p) ?k" using a pl pk by (auto simp: at_lock_def intro: lock_ok_ungrant)
  then have a': "at_lock ?s l None (Some p) ?k" by (rule at_lock_change [OF a]) simp
  have cf: "conflict_free sib ?k"
    using cf unfolding conflict_free_def ungrant_entry_simps set_upd_proclock
    by (fastforce simp: companions_def bit_simps split: if_splits)
  have "w \<or> conflictTab m AND waitMask k \<noteq> 0 \<or> no_lost_wakeup ?s ?k"
  proof (cases "conflictTab m AND waitMask k = 0")
    case True
    then have noc: "\<not> conflicts m i" if "bit (waitMask k) i" for i using that conflictTab_meets [of m "waitMask k"] by blast
    have "held_up s ?k q" if q: "q \<in> set (waitProcs k)" and nl: "no_lost_wakeup s k" for q
    proof (rule held_up_ungrant)
      show "held_up s k q" using nl q by (simp add: no_lost_wakeup_def)
      have "waitLockMode (procs s q) \<in> modes" "bit (waitMask k) (waitLockMode (procs s q))"
        using at_lock_waiter [OF a q] a q
        by (auto simp: waiter_ok_def at_lock_def lock_ok_def counts_ok_def waiters_def filter_empty_conv)
      then show "\<not> conflicts (waitLockMode (procs s q)) m" using noc conflicts_sym m by blast
    qed
    then have "no_lost_wakeup s k \<Longrightarrow> no_lost_wakeup s ?k" by (simp add: no_lost_wakeup_def)
    then have "no_lost_wakeup s k \<Longrightarrow> no_lost_wakeup ?s ?k" by (subst no_lost_wakeup_procs [of _ s]) simp_all
    then show ?thesis using w by blast
  qed simp
  then show thesis using that a' e cf by (simp add: UnGrantLock_entry la)
qed

lemma release_shared_ok:
  assumes t: "table_ok sib s" and k: "locks s l = Some k" and pl: "pl \<in> set (procLocks k)" "myProc pl = me th"
    and m: "m \<in> modes" and run: "\<not> links (procs s (me th))" and th: "thread_ok sib th"
  obtains r th' s' where "release_shared l m (th, s) = (r, th', s')" "table_ok sib s'" "thread_ok sib th'" "r \<longleftrightarrow> bit (holdMask pl) m"
proof -
  note a = table_ok_at [OF t k]
  have la: "lock_at s l = k" using k by (simp add: lock_at_def)
  have pa: "proclock_at k (me th) = pl" using proclock_at_eq [OF _ pl(1)] at_lock_distinct [OF a(1)] pl(2) by auto
  show thesis
  proof (cases "bit (holdMask pl) m")
    case False
    then show thesis using that [of False th s] t th la pa by (simp add: release_shared_def Let_def)
  next
    case True
    have pk: "me th \<notin> set (waitProcs k)" by (rule not_linked [OF a(1) run k])
    have w0: "False \<or> no_lost_wakeup s k" using a(5) by simp
    obtain w where u: "UnGrantLock l m (me th) s = (w, upd_lock l (ungrant_entry (me th) m) s)"
        "at_lock (upd_lock l (ungrant_entry (me th) m) s) l None (Some (me th)) (ungrant_entry (me th) m k)"
        "elsewhere sib (upd_lock l (ungrant_entry (me th) m) s) l" "conflict_free sib (ungrant_entry (me th) m k)"
        "False \<or> w \<or> no_lost_wakeup (upd_lock l (ungrant_entry (me th) m) s) (ungrant_entry (me th) m k)"
      by (rule UnGrantLock_step [OF at_lock_spare [OF a(1)] a(3,4) w0 pl True m pk])
    have "release_shared l m (th, s) = (True, CleanUpLock l (me th) w (th, upd_lock l (ungrant_entry (me th) m) s))"
      using True u(1) la pa by (simp add: release_shared_def Let_def)
    then show thesis using CleanUpLock_ok [OF u(2) _ th u(3,4)] u(5) pk True that by (metis ungrant_entry_simps(1))
  qed
qed

end
