(* ===== verification/Lock_Acquire.thy ===== *)
theory Lock_Acquire
  imports Lock_Safety
begin

text \<open>Requests keep the invariant of the lock table, whether they are granted, refused, put to sleep or found to deadlock.\<close>

section \<open>Entering a request\<close>

definition not_held :: "lock_space \<Rightarrow> LOCKTAG \<Rightarrow> procid \<Rightarrow> LOCKMODE \<Rightarrow> bool" where
  "not_held s l p m \<longleftrightarrow> (\<forall>k pl. locks s l = Some k \<longrightarrow> pl \<in> set (procLocks k) \<longrightarrow> myProc pl = p \<longrightarrow> \<not> bit (holdMask pl) m)"

definition entered :: "(procid \<Rightarrow> procid \<Rightarrow> bool) \<Rightarrow> lock_space \<Rightarrow> LOCKTAG \<Rightarrow> procid \<Rightarrow> LOCKMODE \<Rightarrow> LOCK \<Rightarrow> bool" where
  "entered sib s l p m k \<longleftrightarrow> at_lock s l (Some (p, m)) None k \<and> elsewhere sib s l \<and> conflict_free sib k \<and> no_lost_wakeup s k \<and>
     (\<forall>i. bit (waitMask k) i \<longleftrightarrow> waiters (procs s) k i > 0)"

lemma at_lock_new:
  assumes t: "table_ok sib s" and no: "locks s l = None"
  shows "at_lock (s\<lparr>locks := (locks s)(l \<mapsto> new_lock)\<rparr>) l None None new_lock"
proof -
  let ?s = "s\<lparr>locks := (locks s)(l \<mapsto> new_lock)\<rparr>"
  have "lock_ok ?s l' pend spare k' \<longleftrightarrow> lock_ok s l' pend spare k'" for l' pend spare k'
    by (rule lock_ok_cong) (simp_all add: leader_of_def)
  moreover have "lock_ok s l None None new_lock"
    by (simp add: lock_ok_def new_lock_def counts_ok_def holders_def waiters_def pending_def pend_ok_def)
  moreover have "links_ok ?s"
    using t no unfolding table_ok_def locks_ok_def links_ok_def by simp (metis option.distinct(1))
  ultimately show ?thesis using t by (auto simp: at_lock_def table_ok_def locks_ok_def)
qed

lemma entered_setup:
  assumes a: "at_lock s l None None k" and e: "elsewhere sib s l" "conflict_free sib k" "no_lost_wakeup s k"
    and m: "m \<in> modes" and run: "\<not> links (procs s p)"
    and free: "\<And>pl. pl \<in> set (procLocks k) \<Longrightarrow> myProc pl = p \<Longrightarrow> \<not> bit (holdMask pl) m"
  shows "entered sib (upd_lock l (setup_entry s p m) s) l p m (setup_entry s p m k)"
proof -
  let ?s = "upd_lock l (setup_entry s p m) s" and ?k = "setup_entry s p m k"
  have there: "locks s l = Some k" using a by (simp add: at_lock_def)
  have q: "p \<notin> set (waitProcs k)" by (rule not_linked [OF a run there])
  have "lock_ok s l (Some (p, m)) None ?k" using a free m q by (auto simp: at_lock_def intro: lock_ok_setup)
  then have "at_lock ?s l (Some (p, m)) None ?k" by (rule at_lock_change [OF a]) simp
  moreover have "conflict_free sib ?k" using e(2) by (auto simp: conflict_free_def)
  moreover have "no_lost_wakeup ?s ?k"
    using e(3) by (subst no_lost_wakeup_procs [of _ s]) (auto simp: no_lost_wakeup_def held_up_def)
  moreover have "bit (waitMask ?k) i \<longleftrightarrow> waiters (procs ?s) ?k i > 0" for i
    using a by (auto simp: at_lock_def lock_ok_def counts_ok_def pending_def waiters_def)
  ultimately show ?thesis using e(1) by (simp add: entered_def)
qed

lemma SetupLockInTable_ok:
  assumes t: "table_ok sib s" and m: "m \<in> modes" and run: "\<not> links (procs s p)" and free: "not_held s l p m"
  shows "fst (SetupLockInTable th p l m s) = NO_PROCLOCK \<and> snd (SetupLockInTable th p l m s) = s \<or>
    fst (SetupLockInTable th p l m s) = PROCLOCK_READY \<and> procs (snd (SetupLockInTable th p l m s)) = procs s \<and>
    (\<exists>k. entered sib (snd (SetupLockInTable th p l m s)) l p m k)"
proof -
  define s1 where "s1 = (if locks s l = None then s\<lparr>locks := (locks s)(l \<mapsto> new_lock)\<rparr> else s)"
  define k where "k = lock_at s1 l"
  have e: "at_lock s1 l None None k" "elsewhere sib s1 l" "conflict_free sib k" "no_lost_wakeup s1 k" "procs s1 = procs s"
  proof -
    show "procs s1 = procs s" by (simp add: s1_def)
    consider "locks s l = None" | k' where "locks s l = Some k'" by blast
    then have "at_lock s1 l None None k \<and> elsewhere sib s1 l \<and> conflict_free sib k \<and> no_lost_wakeup s1 k"
    proof cases
      case 1
      have "no_lost_wakeup s1 k' \<longleftrightarrow> no_lost_wakeup s k'" for k' by (rule no_lost_wakeup_procs) (simp add: s1_def)
      then have "elsewhere sib s1 l" using t 1 by (auto simp: elsewhere_def table_ok_def groups_ok_def s1_def)
      moreover have "k = new_lock" using 1 by (simp add: k_def s1_def lock_at_def)
      ultimately show ?thesis
        using at_lock_new [OF t 1] 1 by (simp add: s1_def conflict_free_def no_lost_wakeup_def new_lock_def)
    next
      case 2
      then show ?thesis using table_ok_at [OF t 2] by (simp add: s1_def k_def lock_at_def)
    qed
    then show "at_lock s1 l None None k" "elsewhere sib s1 l" "conflict_free sib k" "no_lost_wakeup s1 k" by auto
  qed
  have there: "locks s1 l = Some k" using e(1) by (simp add: at_lock_def)
  have free': "\<not> bit (holdMask pl) m" if "pl \<in> set (procLocks k)" "myProc pl = p" for pl
    using free that there by (auto simp: not_held_def s1_def new_lock_def split: if_splits)
  let ?found = "\<exists>pl \<in> set (procLocks k). myProc pl = p"
  let ?s = "upd_lock l (setup_entry s p m) s1"
  have lead: "setup_entry s p m = setup_entry s1 p m" by (rule ext) (simp add: setup_entry_def leader_of_def e(5))
  have ent: "entered sib ?s l p m (setup_entry s p m k)"
    unfolding lead by (rule entered_setup [OF e(1-4) m]) (use run free' e(5) in auto)
  consider (no) "locks s l = None" "\<not> lock_room th" | (full) "\<not> (locks s l = None \<and> \<not> lock_room th)" "\<not> ?found" "\<not> proclock_room th"
    | (ready) "\<not> (locks s l = None \<and> \<not> lock_room th)" "\<not> (\<not> ?found \<and> \<not> proclock_room th)" by argo
  then show ?thesis
  proof cases
    case no then show ?thesis by (simp add: SetupLockInTable_def)
  next
    case full
    have "(if nRequested k = 0 then s1\<lparr>locks := (locks s1)(l := None)\<rparr> else s1) = s"
    proof (cases "locks s l")
      case None
      then show ?thesis by (simp add: s1_def k_def lock_at_def new_lock_def fun_upd_idem)
    next
      case (Some k')
      then have "k = k'" by (simp add: s1_def k_def lock_at_def)
      then have "nRequested k \<noteq> 0" using table_ok_at(2) [OF t Some] nRequested_zero_iff [of s1 l k] e(1) by (auto simp: at_lock_def)
      then show ?thesis using Some by (simp add: s1_def)
    qed
    then show ?thesis using full by (simp add: SetupLockInTable_def Let_def s1_def [symmetric] k_def [symmetric])
  next
    case ready
    have upd: "upd_lock l (\<lambda>k. k\<lparr>nRequested := nRequested k + 1, requested := (requested k)(m := requested k m + 1)\<rparr>)
        (if ?found then s1 else upd_lock l (\<lambda>k. k\<lparr>procLocks := procLocks k @ [\<lparr>myProc = p, groupLeader = leader_of s p, holdMask = 0\<rparr>]\<rparr>) s1)
        = ?s"
      using there by (auto simp: upd_lock_def setup_entry_def)
    have sk: "lock_at ?s l = setup_entry s p m k" using there by (simp add: lock_at_def)
    have "at_lock ?s l (Some (p, m)) None (setup_entry s p m k)" using ent by (simp add: entered_def)
    from at_lock_pl [OF this] have "\<not> bit (holdMask (proclock_at (setup_entry s p m k) p)) m" by metis
    then have "SetupLockInTable th p l m s = (PROCLOCK_READY, ?s)"
      using ready upd by (simp add: SetupLockInTable_def Let_def s1_def [symmetric] k_def [symmetric] sk)
    then show ?thesis using ent e(5) by auto
  qed
qed

section \<open>Granting, refusing, joining the queue\<close>

lemma entered_pl:
  assumes "entered sib s l p m k"
  obtains pl where "pl \<in> set (procLocks k)" "myProc pl = p" "proclock_at k p = pl" "m \<in> modes" "p \<notin> set (waitProcs k)"
  using at_lock_pl [of s l p m None k] assms by (metis entered_def)

lemma held_up_grant: "held_up s k q \<Longrightarrow> held_up s (grant_entry p m k) q"
  unfolding held_up_def grant_entry_simps(1) using blocked_by_grant [of k "leader_of s q" "waitLockMode (procs s q)" p m] by blast

lemma GrantLock_ok:
  assumes e: "entered sib s l p m k" and th: "thread_ok sib th" and ok: "fst (LockCheckConflicts th s m l p) = STATUS_OK"
  shows "table_ok sib (GrantLock l p m s)"
proof -
  have a: "at_lock s l (Some (p, m)) None k" and el: "elsewhere sib s l" using e by (auto simp: entered_def)
  obtain pl where pl: "pl \<in> set (procLocks k)" "myProc pl = p" "m \<in> modes" "p \<notin> set (waitProcs k)"
    by (rule entered_pl [OF e]) blast
  have g: "groups_ok s" using el by (simp add: elsewhere_def)
  let ?s = "upd_lock l (grant_entry p m) s" and ?k = "grant_entry p m k"
  have "lock_ok s l None None ?k" using a by (auto simp: at_lock_def intro: lock_ok_grant)
  then have a': "at_lock ?s l None None ?k" by (rule at_lock_change [OF a]) simp
  have ne: "procLocks ?k \<noteq> []" using pl(1) by (auto simp: upd_proclock_def)
  have cf: "conflict_free sib ?k"
  proof (rule conflict_free_grant [OF _ _ pl(1,2) _ pl(3)])
    show "conflict_free sib k" using e by (simp add: entered_def)
    show "sib x y \<Longrightarrow> sib y x" for x y using th by (auto simp: thread_ok_def)
  qed (use check_conflicts(1) [OF a th g pl(1-3) ok] at_lock_distinct [OF a] at_lock_bits [OF a] in auto)
  have "no_lost_wakeup s ?k"
    using e held_up_grant by (simp add: entered_def no_lost_wakeup_def)
  then have "no_lost_wakeup ?s ?k" by (subst no_lost_wakeup_procs [of _ s]) simp_all
  with table_ok_of [OF a' ne _ cf] el show ?thesis by (simp add: GrantLock_entry)
qed

text \<open>A request that cannot be granted has somebody in its way, holding a lock or in the queue.\<close>

definition in_the_way :: "lock_space \<Rightarrow> LOCK \<Rightarrow> procid \<Rightarrow> LOCKMODE \<Rightarrow> bool" where
  "in_the_way s k p m \<longleftrightarrow> (\<exists>other \<in> set (procLocks k). groupLeader other \<noteq> leader_of s p \<and> blocked_by m other)"

lemma undo_request_ok:
  assumes e: "entered sib s l p m k"
    and other: "in_the_way s k p m \<or> (\<exists>q \<in> set (waitProcs k). conflicts m (waitLockMode (procs s q)))"
  shows "table_ok sib (undo_request l m p s)"
proof -
  have a: "at_lock s l (Some (p, m)) None k" and el: "elsewhere sib s l" and nl: "no_lost_wakeup s k" and cf: "conflict_free sib k"
    using e by (auto simp: entered_def)
  obtain pl where pl: "pl \<in> set (procLocks k)" "myProc pl = p" "m \<in> modes" "p \<notin> set (waitProcs k)"
    by (rule entered_pl [OF e]) blast
  let ?F = "\<lambda>k. drop_entry p (withdraw_entry m k)"
  have there: "locks s l = Some k" using a by (simp add: at_lock_def)
  have g: "granted k m = requested k m - 1 \<longleftrightarrow> waiters (procs s) k m = 0"
    using a by (simp add: at_lock_def lock_ok_def counts_ok_def pending_def)
  have mask: "waitMask k AND LOCKBIT_OFF m = waitMask k" if "waiters (procs s) k m = 0"
  proof -
    have "\<not> bit (waitMask k) m" using e that by (simp add: entered_def)
    then show ?thesis by (intro bit_eqI) (auto simp: bit_simps)
  qed
  have "(if granted k m = requested k m - 1 then waitMask k AND LOCKBIT_OFF m else waitMask k) = waitMask k"
    using mask g by auto
  then have "(drop_entry p k)\<lparr>nRequested := nRequested k - 1, requested := (requested k)(m := requested k m - 1)\<rparr> = ?F k"
    by (intro LOCK.equality) (simp_all add: drop_entry_def withdraw_entry_def)
  then have eq: "undo_request l m p s = upd_lock l ?F s"
    using there unfolding undo_request_def drop_empty_proclock_entry
    by (simp add: upd_lock_def) (simp add: drop_entry_def)
  have "lock_ok s l None (Some p) (withdraw_entry m k)" using a by (auto simp: at_lock_def intro: lock_ok_withdraw)
  then have "lock_ok s l None None (?F k)" by (rule lock_ok_drop) (use pl in \<open>simp add: withdraw_entry_def\<close>)
  then have a': "at_lock (upd_lock l ?F s) l None None (?F k)"
    by (rule at_lock_change [OF a]) (simp add: drop_entry_def withdraw_entry_def)
  have ne: "procLocks (?F k) \<noteq> []"
  proof -
    obtain x where "x \<in> set (procLocks k)" "\<not> (myProc x = p \<and> holdMask x = 0)"
      using other
    proof
      assume "in_the_way s k p m"
      then obtain x where x: "x \<in> set (procLocks k)" "groupLeader x \<noteq> leader_of s p" by (auto simp: in_the_way_def)
      then have "myProc x \<noteq> p" using a by (auto simp: at_lock_def lock_ok_def proclock_ok_def)
      then show thesis using that x by blast
    next
      assume "\<exists>q \<in> set (waitProcs k). conflicts m (waitLockMode (procs s q))"
      then obtain q where q: "q \<in> set (waitProcs k)" by blast
      then show thesis using that at_lock_waiter [OF a q] pl(4) by (auto simp: waiter_ok_def)
    qed
    then have "x \<in> set (procLocks (?F k))" by (simp add: drop_entry_def withdraw_entry_def)
    then show ?thesis by auto
  qed
  have "held_up s (withdraw_entry m k) q \<longleftrightarrow> held_up s k q" for q by (simp add: held_up_def withdraw_entry_def)
  moreover have "waitProcs (?F k) = waitProcs k" by (simp add: drop_entry_def withdraw_entry_def)
  ultimately have "no_lost_wakeup s (?F k)" using nl held_up_drop by (simp add: no_lost_wakeup_def)
  then have "no_lost_wakeup (upd_lock l ?F s) (?F k)" by (subst no_lost_wakeup_procs [of _ s]) simp_all
  moreover have "conflict_free sib (?F k)" using cf by (auto simp: conflict_free_def drop_entry_def withdraw_entry_def)
  ultimately show ?thesis unfolding eq using table_ok_of [OF a' ne] el by simp
qed

lemma takeWhile_insert_at:
  "q \<noteq> p \<Longrightarrow> set (takeWhile (\<lambda>x. x \<noteq> q) xs) \<subseteq> set (takeWhile (\<lambda>x. x \<noteq> q) (take i xs @ [p] @ drop i xs))"
proof (induction xs arbitrary: i)
  case (Cons x xs)
  show ?case
  proof (cases i)
    case 0 then show ?thesis using Cons.prems by auto
  next
    case (Suc n)
    then show ?thesis using Cons.IH [of n] Cons.prems by auto
  qed
qed simp

lemma join_queue_ok:
  assumes e: "entered sib s l p m k" and run: "\<not> links (procs s p)"
    and held: "heldLocks (procs s p) = holdMask (proclock_at k p)"
    and why: "in_the_way s k p m \<or> (\<exists>q \<in> set (take i (waitProcs k)). conflicts m (waitLockMode (procs s q)))"
  shows "table_ok sib (join_queue l m i p s)" "links (procs (join_queue l m i p s) p)"
proof -
  let ?s = "join_queue l m i p s" and ?k = "join_entry p m i k"
  have a: "at_lock s l (Some (p, m)) None k" and el: "elsewhere sib s l" and nl: "no_lost_wakeup s k" and cf: "conflict_free sib k"
    using e by (auto simp: entered_def)
  obtain pl where pl: "pl \<in> set (procLocks k)" "myProc pl = p" "m \<in> modes" "p \<notin> set (waitProcs k)"
    by (rule entered_pl [OF e]) blast
  have there: "locks s l = Some k" using a by (simp add: at_lock_def)
  have a': "at_lock ?s l None None ?k" by (rule at_lock_join [OF a run held])
  have lead: "leader_of ?s x = leader_of s x" for x by (rule leader_of_cong) (simp add: join_queue_def)
  have same: "procs ?s x = procs s x" if "x \<noteq> p" for x using that by (simp add: join_queue_def)
  have el': "elsewhere sib ?s l"
    unfolding join_queue_def
    by (rule elsewhere_upd_proc) (use el not_linked [OF a run] in auto)
  have wp: "waitProcs ?k = take i (waitProcs k) @ [p] @ drop i (waitProcs k)" "procLocks ?k = procLocks k" by (simp_all add: join_entry_def)
  have "held_up ?s ?k q" if "q \<in> set (waitProcs ?k)" for q
  proof (cases "q = p")
    case True
    have "p \<notin> set (take i (waitProcs k))" using pl(4) by (auto dest: in_set_takeD)
    then have "takeWhile (\<lambda>x. x \<noteq> p) (waitProcs ?k) = take i (waitProcs k)" unfolding wp by (simp add: takeWhile_upto)
    moreover have "waitLockMode (procs ?s p) = m" by (simp add: join_queue_def)
    moreover have "procs ?s x = procs s x" if "x \<in> set (take i (waitProcs k))" for x
      using that pl(4) by (intro same) (auto dest: in_set_takeD)
    ultimately show ?thesis using why True unfolding held_up_def in_the_way_def wp(2) lead by auto
  next
    case False
    then have q: "q \<in> set (waitProcs k)" using that unfolding wp set_insert_at by simp
    then have "held_up s k q" using nl by (simp add: no_lost_wakeup_def)
    then show ?thesis
      unfolding held_up_def wp(2) lead same [OF False]
    proof
      assume "\<exists>x \<in> set (takeWhile (\<lambda>x. x \<noteq> q) (waitProcs k)). conflicts (waitLockMode (procs s q)) (waitLockMode (procs s x))"
      then obtain x where x: "x \<in> set (takeWhile (\<lambda>x. x \<noteq> q) (waitProcs k))" "conflicts (waitLockMode (procs s q)) (waitLockMode (procs s x))"
        by blast
      have "x \<in> set (takeWhile (\<lambda>x. x \<noteq> q) (waitProcs ?k))" using x(1) takeWhile_insert_at [OF False, of "waitProcs k" i] wp(1) by auto
      moreover have "procs ?s x = procs s x" using x(1) pl(4) by (intro same) (auto dest: set_takeWhileD)
      then have "conflicts (waitLockMode (procs s q)) (waitLockMode (procs ?s x))" using x(2) by simp
      ultimately show "(\<exists>other \<in> set (procLocks k). groupLeader other \<noteq> leader_of s q \<and> blocked_by (waitLockMode (procs s q)) other) \<or>
          (\<exists>x \<in> set (takeWhile (\<lambda>x. x \<noteq> q) (waitProcs ?k)). conflicts (waitLockMode (procs s q)) (waitLockMode (procs ?s x)))"
        by blast
    qed blast
  qed
  then have "no_lost_wakeup ?s ?k" by (simp add: no_lost_wakeup_def)
  moreover have "conflict_free sib ?k" using cf by (simp add: conflict_free_def wp)
  moreover have "procLocks ?k \<noteq> []" using pl(1) wp(2) by auto
  ultimately show "table_ok sib ?s" using table_ok_of [OF a' _ el'] by blast
  show "links (procs ?s p)" by (simp add: join_queue_def)
qed

section \<open>Going to sleep\<close>

lemma at_lock_upd_proc:
  assumes a: "at_lock s l pend spare k" and run: "\<not> links (procs s p)"
    and f: "links (f (procs s p)) = links (procs s p)" "waitStatus (f (procs s p)) = waitStatus (procs s p)"
      "lockGroupLeader (f (procs s p)) = lockGroupLeader (procs s p)"
  shows "at_lock (upd_proc p f s) l pend spare k"
proof -
  let ?s = "upd_proc p f s"
  have lead: "leader_of ?s q = leader_of s q" for q by (rule leader_of_cong) (simp add: f)
  have "lock_ok ?s l' pd sp k' \<longleftrightarrow> lock_ok s l' pd sp k'" if "locks s l' = Some k'" for l' pd sp k'
    using not_linked [OF a run that] by (intro lock_ok_cong) (auto simp: lead)
  moreover have "links_ok ?s" using a f by (auto simp: at_lock_def links_ok_def)
  ultimately show ?thesis using a by (simp add: at_lock_def)
qed

lemma entered_upd_proc:
  assumes e: "entered sib s l p m k" and run: "\<not> links (procs s p)"
    and f: "links (f (procs s p)) = links (procs s p)" "waitStatus (f (procs s p)) = waitStatus (procs s p)"
      "lockGroupLeader (f (procs s p)) = lockGroupLeader (procs s p)"
  shows "entered sib (upd_proc p f s) l p m k"
proof -
  have a: "at_lock s l (Some (p, m)) None k" and there: "locks s l = Some k" using e by (auto simp: entered_def at_lock_def)
  let ?s = "upd_proc p f s"
  have lead: "leader_of ?s q = leader_of s q" for q by (rule leader_of_cong) (simp add: f)
  have q: "p \<notin> set (waitProcs k)" by (rule not_linked [OF a run there])
  have "held_up ?s k x \<longleftrightarrow> held_up s k x" if "x \<in> set (waitProcs k)" for x
    using q that by (intro held_up_cong) (auto simp: lead)
  moreover have "waiters (procs ?s) k i = waiters (procs s) k i" for i
    using q by (auto simp: waiters_def intro!: arg_cong [where f = length] filter_cong)
  moreover have "elsewhere sib ?s l" by (rule elsewhere_upd_proc) (use e f not_linked [OF a run] in \<open>auto simp: entered_def\<close>)
  ultimately show ?thesis
    using e at_lock_upd_proc [OF a run, where f = f, OF f] by (simp add: entered_def no_lost_wakeup_def)
qed

text \<open>What the scan of the queue finds; \<open>sk\<close> is the part that has been passed.\<close>

lemma sleep_scan_result:
  assumes e: "entered sib s l p m k" and th: "thread_ok sib th" and me: "me th = p"
    and q: "waitProcs k = sk @ qs" and ahead: "\<And>j. bit ahead j \<Longrightarrow> \<exists>x \<in> set sk. waitLockMode (procs s x) = j"
  shows "case sleep_scan s l m held qs (length sk) ahead th of
      (Sleep_Before i, th') \<Rightarrow> thread_ok sib th' \<and> me th' = p \<and> in_stream th' = in_stream th \<and>
        (i = length (waitProcs k) \<or> in_the_way s k p m \<or> (\<exists>x \<in> set (take i (waitProcs k)). conflicts m (waitLockMode (procs s x))))
    | (Early_Deadlock i, th') \<Rightarrow> th' = th \<and> i < length (waitProcs k) \<and> in_the_way s k p m \<and>
        (\<exists>pl \<in> set (procLocks k). myProc pl = waitProcs k ! i \<and> blocked_by m pl) \<and>
        conflictTab (waitLockMode (procs s (waitProcs k ! i))) AND held \<noteq> 0
    | (Skip_Wait, th') \<Rightarrow> thread_ok sib th' \<and> fst (LockCheckConflicts th s m l p) = STATUS_OK"
  using q ahead
proof (induction qs arbitrary: sk ahead)
  case Nil then show ?case using th me by simp
next
  case (Cons x qs)
  have a: "at_lock s l (Some (p, m)) None k" and el: "elsewhere sib s l" using e by (auto simp: entered_def)
  then have g: "groups_ok s" by (simp add: elsewhere_def)
  obtain pl where pl: "pl \<in> set (procLocks k)" "myProc pl = p" "m \<in> modes" "p \<notin> set (waitProcs k)"
    by (rule entered_pl [OF e]) blast
  have nth: "waitProcs k ! length sk = x" "take (length sk) (waitProcs k) = sk" "length sk < length (waitProcs k)"
    using Cons.prems(1) by simp_all
  have x: "x \<in> set (waitProcs k)" "x \<noteq> p" using Cons.prems(1) pl(4) by auto
  obtain xl where xl: "xl \<in> set (procLocks k)" "myProc xl = x" "holdMask xl = heldLocks (procs s x)" "waitLockMode (procs s x) \<in> modes"
    using at_lock_waiter [OF a x(1)] by (auto simp: waiter_ok_def)
  have step: "waitProcs k = (sk @ [x]) @ qs" using Cons.prems(1) by simp
  let ?group = "lockGroupLeader (procs s p) \<noteq> None \<and> lockGroupLeader (procs s p) = lockGroupLeader (procs s x)"
  let ?behind = "conflictTab (waitLockMode (procs s x)) AND held \<noteq> 0"
  have scan: "sleep_scan s l m held (x # qs) (length sk) ahead th =
     (if ?group then sleep_scan s l m held qs (length (sk @ [x])) ahead th
      else if ?behind then
        if conflictTab m AND heldLocks (procs s x) \<noteq> 0 then (Early_Deadlock (length sk), th)
        else if conflictTab m AND ahead = 0 then
          if fst (LockCheckConflicts th s m l p) = STATUS_OK then (Skip_Wait, snd (LockCheckConflicts th s m l p))
          else (Sleep_Before (length sk), snd (LockCheckConflicts th s m l p))
        else (Sleep_Before (length sk), th)
      else sleep_scan s l m held qs (length (sk @ [x])) (ahead OR LOCKBIT_ON (waitLockMode (procs s x))) th)"
    using me by (auto simp: Let_def split: prod.splits)
  note ih = Cons.IH [OF step]
  consider (group) ?group | (past) "\<not> ?group" "\<not> ?behind" | (stop) "\<not> ?group" "?behind" by blast
  then show ?case
  proof cases
    case group
    then show ?thesis unfolding scan if_P [OF group] by (intro ih) (use Cons.prems(2) in auto)
  next
    case past
    then show ?thesis
      unfolding scan if_not_P [OF past(1)] if_not_P [OF past(2)] by (intro ih) (use Cons.prems(2) in \<open>auto simp: bit_simps\<close>)
  next
    case stop
    have lead: "groupLeader xl \<noteq> leader_of s p"
      using a xl(1,2) x(2) stop g unfolding at_lock_def lock_ok_def proclock_ok_def groups_ok_def leader_of_def
      by (auto split: option.splits)
    show ?thesis
    proof (cases "conflictTab m AND heldLocks (procs s x) = 0")
      case False
      then have "blocked_by m xl" unfolding blocked_by_def xl(3) using conflictTab_meets by blast
      then show ?thesis
        unfolding scan if_not_P [OF stop(1)] if_P [OF stop(2)] using stop(2) False nth xl(1,2) lead by (auto simp: in_the_way_def)
    next
      case True
      have way: "in_the_way s k p m" if "fst (LockCheckConflicts th s m l p) \<noteq> STATUS_OK"
        unfolding in_the_way_def by (rule check_conflicts(2) [OF a th g pl(1-3) that])
      have soft: "\<exists>x \<in> set sk. conflicts m (waitLockMode (procs s x))" if "conflictTab m AND ahead \<noteq> 0"
        using that Cons.prems(2) conflictTab_meets [of m ahead] by metis
      show ?thesis
        unfolding scan if_not_P [OF stop(1)] if_P [OF stop(2)]
        using True nth way soft th me by (auto simp: LockCheckConflicts_thread)
    qed
  qed
qed

text \<open>A process goes to sleep only behind somebody who is in its way, and gets the lock at once only without conflict.\<close>

lemma ProcSleep_ok:
  assumes e: "entered sib s l p m k" and th: "thread_ok sib th" and me: "me th = p" and run: "\<not> links (procs s p)"
    and held: "heldLocks (procs s p) = holdMask (proclock_at k p)"
    and why: "in_the_way s k p m \<or> (\<exists>q \<in> set (waitProcs k). conflicts m (waitLockMode (procs s q)))"
  shows "case ProcSleep l m (th, s) of (r, th', s') \<Rightarrow> table_ok sib s' \<and> thread_ok sib th' \<and> r \<noteq> Corrupt_Queue"
proof -
  have a: "at_lock s l (Some (p, m)) None k" and there: "locks s l = Some k" using e by (auto simp: entered_def at_lock_def)
  have k: "lock_at s l = k" using there by (simp add: lock_at_def)
  have awake: "waitStatus (procs s p) \<noteq> STATUS_WAITING"
  proof
    assume "waitStatus (procs s p) = STATUS_WAITING"
    then obtain l' k' where "locks s l' = Some k'" "p \<in> set (waitProcs k')" using a by (auto simp: at_lock_def links_ok_def)
    then show False using not_linked [OF a run] by blast
  qed
  let ?held = "my_held_locks th s l"
  obtain place th1 where place: "(if ?held \<noteq> 0 then sleep_scan s l m ?held (waitProcs k) 0 0 th
      else (Sleep_Before (length (waitProcs k)), th)) = (place, th1)" by (cases "?held = 0") (auto simp: prod_eq_iff)
  have scan: "case sleep_scan s l m ?held (waitProcs k) 0 0 th of
      (Sleep_Before i, th') \<Rightarrow> thread_ok sib th' \<and> me th' = p \<and> in_stream th' = in_stream th \<and>
        (i = length (waitProcs k) \<or> in_the_way s k p m \<or> (\<exists>x \<in> set (take i (waitProcs k)). conflicts m (waitLockMode (procs s x))))
    | (Early_Deadlock i, th') \<Rightarrow> th' = th \<and> i < length (waitProcs k) \<and> in_the_way s k p m \<and>
        (\<exists>pl \<in> set (procLocks k). myProc pl = waitProcs k ! i \<and> blocked_by m pl) \<and>
        conflictTab (waitLockMode (procs s (waitProcs k ! i))) AND ?held \<noteq> 0
    | (Skip_Wait, th') \<Rightarrow> thread_ok sib th' \<and> fst (LockCheckConflicts th s m l p) = STATUS_OK"
    using sleep_scan_result [OF e th me, of "[]" "waitProcs k" 0] by simp
  have th1: "thread_ok sib th1" using scan place th by (auto split: if_splits prod.splits sleep_place.splits)
  define again where "again = (if in_stream th then LockCheckConflicts th1 s m l p else (STATUS_FOUND, th1))"
  have th2: "thread_ok sib (snd again)" using th1 by (simp add: again_def)
  have eq: "ProcSleep l m (th, s) =
     (if place = Skip_Wait then (Got_Lock, th1, GrantLock l p m s)
      else if fst again = STATUS_OK then (Got_Lock, snd again, GrantLock l p m s)
      else case place of
          Early_Deadlock i \<Rightarrow> (Deadlock, RemoveFromWaitQueue p (snd again, join_queue l m i p s))
        | Sleep_Before i \<Rightarrow> (Asleep, snd again, join_queue l m i p s)
        | Skip_Wait \<Rightarrow> (Got_Lock, snd again, s))"
    unfolding ProcSleep_def Let_def fst_conv snd_conv k me place prod.case again_def [symmetric] case_prod_beta
    by (simp add: awake)
  show ?thesis
  proof (cases place)
    case Skip_Wait
    then have "fst (LockCheckConflicts th s m l p) = STATUS_OK" using scan place by (auto split: if_splits)
    then show ?thesis using Skip_Wait th1 GrantLock_ok [OF e th] by (simp add: eq)
  next
    case (Early_Deadlock i)
    have way: "in_the_way s k p m" using scan place Early_Deadlock by (auto split: if_splits)
    show ?thesis
    proof (cases "fst again = STATUS_OK")
      case True
      then show ?thesis using Early_Deadlock th2 GrantLock_ok [OF e th1] by (auto simp: eq again_def split: if_splits)
    next
      case False
      note j = join_queue_ok [OF e run held, of i]
      obtain th' s' where "RemoveFromWaitQueue p (snd again, join_queue l m i p s) = (th', s')" "table_ok sib s'" "thread_ok sib th'"
        by (rule RemoveFromWaitQueue_ok [OF _ _ th2]) (use j way in blast)+
      then show ?thesis using Early_Deadlock False by (simp add: eq)
    qed
  next
    case (Sleep_Before i)
    have "in_the_way s k p m \<or> (\<exists>x \<in> set (take i (waitProcs k)). conflicts m (waitLockMode (procs s x)))"
      using scan place why Sleep_Before by (auto split: if_splits)
    then show ?thesis
      using Sleep_Before th2 GrantLock_ok [OF e th1] join_queue_ok(1) [OF e run held, of i]
      by (auto simp: eq again_def split: if_splits)
  qed
qed

section \<open>Requests\<close>

text \<open>A thread may make requests while its process is not waiting; it asks for modes it does not hold yet (those it holds are in its own table).\<close>

definition may_request :: "(procid \<Rightarrow> procid \<Rightarrow> bool) \<Rightarrow> lock_thread \<Rightarrow> lock_space \<Rightarrow> LOCKTAG \<Rightarrow> LOCKMODE \<Rightarrow> bool" where
  "may_request sib th s l m \<longleftrightarrow> thread_ok sib th \<and> \<not> links (procs s (me th)) \<and> m \<in> modes \<and> not_held s l (me th) m"

lemma waiting_redistribution_thread:
  "fst (waiting_redistribution th s m l) \<noteq> STATUS_OK" "thread_ok sib (snd (waiting_redistribution th s m l)) \<longleftrightarrow> thread_ok sib th"
  "me (snd (waiting_redistribution th s m l)) = me th"
  by (auto simp: waiting_redistribution_def thread_ok_def split: option.splits)

lemma acquire_shared_ok:
  assumes t: "table_ok sib s" and may: "may_request sib th s l m"
  obtains r th' s' where "acquire_shared l m dontWait rme (th, s) = (r, th', s')" "table_ok sib s'" "thread_ok sib th'"
    "r \<notin> {LOCKACQUIRE_ERROR LOCK_ALREADY_HELD, LOCKACQUIRE_ERROR QUEUE_CORRUPTED}"
proof -
  let ?p = "me th" and ?S = "SetupLockInTable th (me th) l m s"
  have th: "thread_ok sib th" and run: "\<not> links (procs s ?p)" and m: "m \<in> modes" and nh: "not_held s l ?p m"
    using may by (auto simp: may_request_def)
  from SetupLockInTable_ok [OF t m run nh, of th] consider (no) "?S = (NO_PROCLOCK, s)" | (ready) s1 k where
    "?S = (PROCLOCK_READY, s1)" "procs s1 = procs s" "entered sib s1 l ?p m k"
    by (metis prod.collapse)
  then show thesis
  proof cases
    case no
    then show thesis using that [of _ th s] t th by (simp add: acquire_shared_def Let_def)
  next
    case ready
    note e = ready(3)
    have a: "at_lock s1 l (Some (?p, m)) None k" and g: "groups_ok s1" using e by (auto simp: entered_def elsewhere_def)
    have k: "lock_at s1 l = k" using a by (simp add: at_lock_def lock_at_def)
    obtain pl where pl: "pl \<in> set (procLocks k)" "myProc pl = ?p" by (rule entered_pl [OF e]) blast
    define c where "c = (if conflictTab m AND waitMask k \<noteq> 0 then waiting_redistribution th s1 m l else LockCheckConflicts th s1 m l ?p)"
    have c: "thread_ok sib (snd c)" "me (snd c) = ?p"
      using th by (auto simp: c_def waiting_redistribution_thread LockCheckConflicts_thread)
    have ok: "fst (LockCheckConflicts th s1 m l ?p) = STATUS_OK" if "fst c = STATUS_OK"
      using that waiting_redistribution_thread(1) by (auto simp: c_def split: if_splits)
    have why: "in_the_way s1 k ?p m \<or> (\<exists>q \<in> set (waitProcs k). conflicts m (waitLockMode (procs s1 q)))" if "fst c \<noteq> STATUS_OK"
    proof (cases "conflictTab m AND waitMask k = 0")
      case True
      then show ?thesis
        using that check_conflicts(2) [OF a th g pl m] unfolding in_the_way_def c_def by auto
    next
      case False
      then obtain i where "conflicts m i" "waiters (procs s1) k i > 0"
        using e conflictTab_meets [of m "waitMask k"] by (auto simp: entered_def)
      then show ?thesis by (auto simp: waiters_def filter_empty_conv)
    qed
    define th2 where "th2 = (if fst c = STATUS_FOUND_NEED_CANCEL
      then (snd c)\<lparr>blocking_redistribution_proc := None, redistribution_cancelable := False\<rparr> else snd c)"
    define s2 where "s2 = upd_proc ?p (\<lambda>q. q\<lparr>heldLocks := holdMask (proclock_at k ?p)\<rparr>) s1"
    have eq: "acquire_shared l m dontWait rme (th, s) =
       (if fst c = STATUS_OK then (LOCKACQUIRE_OK, snd c, GrantLock l ?p m s1)
        else if dontWait then (LOCKACQUIRE_NOT_AVAIL, snd c, undo_request l m ?p s1)
        else case ProcSleep l m (th2, s2) of
              (Got_Lock, ts') \<Rightarrow> (LOCKACQUIRE_OK, ts')
            | (Asleep, ts') \<Rightarrow> (LOCKACQUIRE_WAITS, ts')
            | (Deadlock, ts') \<Rightarrow> (LOCKACQUIRE_ERROR DEADLOCK_DETECTED, ts')
            | (Corrupt_Queue, ts') \<Rightarrow> (LOCKACQUIRE_ERROR QUEUE_CORRUPTED, ts'))"
      unfolding acquire_shared_def Let_def fst_conv snd_conv ready(1) prod.case setup_result.case k c_def [symmetric]
      by (simp add: case_prod_beta th2_def s2_def)
    consider (grant) "fst c = STATUS_OK" | (refuse) "fst c \<noteq> STATUS_OK" dontWait | (sleep) "fst c \<noteq> STATUS_OK" "\<not> dontWait" by blast
    then show thesis
    proof cases
      case grant
      then show thesis using that GrantLock_ok [OF e th ok] c by (simp add: eq)
    next
      case refuse
      then have "acquire_shared l m dontWait rme (th, s) = (LOCKACQUIRE_NOT_AVAIL, snd c, undo_request l m ?p s1)"
        unfolding eq by simp
      then show thesis by (rule that) (use undo_request_ok [OF e why] refuse c in auto)
    next
      case sleep
      have e2: "entered sib s2 l ?p m k"
        unfolding s2_def by (rule entered_upd_proc [OF e]) (use run ready(2) in auto)
      have th2: "thread_ok sib th2" "me th2 = ?p" using c by (auto simp: th2_def thread_ok_def)
      have run2: "\<not> links (procs s2 ?p)" "heldLocks (procs s2 ?p) = holdMask (proclock_at k ?p)"
        using run ready(2) by (simp_all add: s2_def)
      have same: "procs s2 x = procs s1 x" if "x \<noteq> ?p" for x using that by (simp add: s2_def)
      have pq: "?p \<notin> set (waitProcs k)" by (rule entered_pl [OF e]) blast
      have "leader_of s2 ?p = leader_of s1 ?p" by (rule leader_of_cong) (simp add: s2_def)
      then have "in_the_way s2 k ?p m \<or> (\<exists>q \<in> set (waitProcs k). conflicts m (waitLockMode (procs s2 q)))"
        using why [OF sleep(1)] same pq unfolding in_the_way_def by (metis (no_types, lifting))
      from ProcSleep_ok [OF e2 th2(1,2) run2 this] obtain r th' s' where
        r: "ProcSleep l m (th2, s2) = (r, th', s')" "table_ok sib s'" "thread_ok sib th'" "r \<noteq> Corrupt_Queue"
        by (cases "ProcSleep l m (th2, s2)") auto
      then obtain r' where r': "acquire_shared l m dontWait rme (th, s) = (r', th', s')"
          "r' \<notin> {LOCKACQUIRE_ERROR LOCK_ALREADY_HELD, LOCKACQUIRE_ERROR QUEUE_CORRUPTED}"
        unfolding eq using sleep by (cases r) auto
      show thesis by (rule that [OF r'(1) r(2,3) r'(2)])
    qed
  qed
qed

end
