(* ===== verification/Lock_Release.thy ===== *)
theory Lock_Release
  imports Lock_Acquire
begin

text \<open>
  What an operation on one lock leaves alone, and \<open>LockReleaseAll\<close>: the end of a transaction gives back every lock that has been marked,
  wakes who can go on, and leaves the table in order.
\<close>

section \<open>What waking leaves alone\<close>

text \<open>The processes that left a queue.\<close>

definition woken :: "LOCK \<Rightarrow> LOCK \<Rightarrow> procid set" where
  "woken k k' = set (waitProcs k) - set (waitProcs k')"

definition wakes_only :: "LOCKTAG \<Rightarrow> lock_space \<Rightarrow> LOCK \<Rightarrow> lock_space \<Rightarrow> LOCK \<Rightarrow> bool" where
  "wakes_only l s k s' k' \<longleftrightarrow> (\<forall>l'. l' \<noteq> l \<longrightarrow> locks s' l' = locks s l') \<and> (\<exists>P. waitProcs k' = filter P (waitProcs k)) \<and>
     (\<forall>q. q \<notin> woken k k' \<longrightarrow> procs s' q = procs s q) \<and> (\<forall>q \<in> woken k k'. \<not> links (procs s' q)) \<and>
     (\<forall>q. lockGroupLeader (procs s' q) = lockGroupLeader (procs s q)) \<and>
     (\<forall>pl. myProc pl \<notin> woken k k' \<longrightarrow> (pl \<in> set (procLocks k') \<longleftrightarrow> pl \<in> set (procLocks k)))"

lemma wakes_only_refl: "wakes_only l s k s k"
  by (auto simp: wakes_only_def woken_def intro!: exI [of _ "\<lambda>_. True"])

lemma wakes_only_wake:
  assumes w: "wakes_only l s0 k0 s k" and a: "at_lock s l None None k" and p: "p \<in> set (waitProcs k)"
  shows "wakes_only l s0 k0 (wake l p s) (wake_entry s p k)"
proof -
  let ?s = "wake l p s" and ?k = "wake_entry s p k"
  obtain P where P: "waitProcs k = filter P (waitProcs k0)" using w by (auto simp: wakes_only_def)
  have d: "distinct (waitProcs k)" using at_lock_distinct [OF a] by simp
  have wp: "waitProcs ?k = filter (\<lambda>x. x \<noteq> p) (waitProcs k)"
    using d by (auto simp: wake_entry_def dequeue_entry_def distinct_remove1_removeAll removeAll_filter_not_eq intro: filter_cong)
  then have wk: "woken k0 ?k = insert p (woken k0 k)" using p P by (auto simp: woken_def)
  have "waitProcs ?k = filter (\<lambda>x. P x \<and> x \<noteq> p) (waitProcs k0)" using wp P by simp
  moreover have "procs ?s q = procs s0 q" if "q \<notin> woken k0 ?k" for q
    using that w procs_wake [OF a p, of q] by (simp add: wk wakes_only_def)
  moreover have "\<not> links (procs ?s q)" if "q \<in> woken k0 ?k" for q
    using that w procs_wake [OF a p, of q] by (cases "q = p") (auto simp: wk wakes_only_def wake_eq [OF a p])
  moreover have "lockGroupLeader (procs ?s q) = lockGroupLeader (procs s0 q)" for q
    using w by (simp add: wake_eq [OF a p] wakes_only_def)
  moreover have "pl \<in> set (procLocks ?k) \<longleftrightarrow> pl \<in> set (procLocks k0)" if "myProc pl \<notin> woken k0 ?k" for pl
  proof -
    have "pl \<in> set (procLocks ?k) \<longleftrightarrow> pl \<in> set (procLocks k)"
      using that unfolding wk by (auto simp: wake_entry_def set_upd_proclock dequeue_entry_def image_iff)
    then show ?thesis using that w by (auto simp: wk wakes_only_def)
  qed
  moreover have "locks ?s l' = locks s0 l'" if "l' \<noteq> l" for l' using that w by (simp add: wake_eq [OF a p] wakes_only_def)
  ultimately show ?thesis unfolding wakes_only_def by blast
qed

lemma ProcLockWakeup_wakes_only:
  assumes a: "at_lock s l None None k"
  obtains k' where "locks (snd (ProcLockWakeup l (th, s))) l = Some k'" "wakes_only l s k (snd (ProcLockWakeup l (th, s))) k'"
    "me (fst (ProcLockWakeup l (th, s))) = me th"
proof -
  have "\<exists>th' s' k' (ahead' :: LOCKMASK). wakeup_scan l (waitProcs k) 0 (th, s) = (th', s') \<and> at_lock s' l None None k' \<and>
      (wakes_only l s k s' k' \<and> me th' = me th)"
    by (rule wakeup_scan_rule [where P = "\<lambda>th' s' k' ahead ps. wakes_only l s k s' k' \<and> me th' = me th"])
      (use a at_lock_distinct [OF a] wakes_only_refl wakes_only_wake in \<open>auto simp: LockCheckConflicts_thread\<close>)
  moreover have "lock_at s l = k" using a by (simp add: at_lock_def lock_at_def)
  ultimately show thesis using that by (auto simp: ProcLockWakeup_def at_lock_def)
qed

definition holds :: "lock_space \<Rightarrow> LOCKTAG \<Rightarrow> procid \<Rightarrow> LOCKMODE \<Rightarrow> bool" where
  "holds s l p i = (case locks s l of None \<Rightarrow> False | Some k \<Rightarrow> \<exists>pl \<in> set (procLocks k). myProc pl = p \<and> bit (holdMask pl) i)"

text \<open>Cleaning up after a process whose entry for the lock is done with.\<close>

lemma CleanUpLock_leaves:
  assumes a: "at_lock s l None (Some p) k" and p: "p \<notin> set (waitProcs k)" and run: "CleanUpLock l p w (th, s) = (th', s')"
  shows "l' \<noteq> l \<Longrightarrow> locks s' l' = locks s l'" and "procs s' p = procs s p" and "me th' = me th"
    and "holds s' l p i \<longleftrightarrow> holds s l p i"
proof -
  let ?s = "drop_empty_proclock l p s" and ?k = "drop_entry p k"
  have a': "at_lock ?s l None None ?k"
    unfolding drop_empty_proclock_entry
  proof (rule at_lock_change [OF a])
    show "lock_ok s l None None ?k" using a p by (simp add: at_lock_def lock_ok_drop)
  qed (simp add: drop_entry_def)
  have other: "locks ?s l' = locks s l'" if "l' \<noteq> l" for l' using that by (simp add: drop_empty_proclock_entry)
  have pr: "procs ?s = procs s" by (simp add: drop_empty_proclock_entry)
  have own: "holds ?s l p i \<longleftrightarrow> holds s l p i" for i using a a' by (auto simp: holds_def at_lock_def drop_entry_def)
  obtain kw where kw: "locks (snd (ProcLockWakeup l (th, ?s))) l = Some kw" "wakes_only l ?s ?k (snd (ProcLockWakeup l (th, ?s))) kw"
      "me (fst (ProcLockWakeup l (th, ?s))) = me th"
    by (rule ProcLockWakeup_wakes_only [OF a'])
  have nw: "p \<notin> woken ?k kw" using p by (simp add: woken_def drop_entry_def)
  have k: "lock_at ?s l = ?k" using a' by (simp add: at_lock_def lock_at_def)
  have zero: "nRequested ?k = 0 \<longleftrightarrow> procLocks ?k = []" using a' nRequested_zero_iff by (auto simp: at_lock_def)
  consider "s' = ?s\<lparr>locks := (locks ?s)(l := None)\<rparr>" "th' = th" "procLocks ?k = []" | "(th', s') = ProcLockWakeup l (th, ?s)"
    | "s' = ?s" "th' = th"
    using run zero unfolding CleanUpLock_def Let_def fst_conv snd_conv k by (metis prod.inject)
  then have "(\<forall>l'. l' \<noteq> l \<longrightarrow> locks s' l' = locks s l') \<and> procs s' p = procs s p \<and> me th' = me th \<and> (\<forall>i. holds s' l p i \<longleftrightarrow> holds s l p i)"
  proof cases
    case 1
    then have "\<not> holds ?s l p i" for i using a' by (simp add: holds_def at_lock_def)
    then have "\<not> holds s l p i" for i by (simp add: own)
    then show ?thesis using other pr 1 by (simp add: holds_def)
  next
    case 2
    then have w: "s' = snd (ProcLockWakeup l (th, ?s))" "th' = fst (ProcLockWakeup l (th, ?s))" by (metis snd_conv, metis fst_conv)
    then have "holds s' l p i \<longleftrightarrow> holds ?s l p i" for i using kw nw a' by (auto simp: holds_def wakes_only_def at_lock_def)
    then show ?thesis using kw nw other pr own w by (auto simp: wakes_only_def)
  next
    case 3 then show ?thesis using other pr own by auto
  qed
  then show "l' \<noteq> l \<Longrightarrow> locks s' l' = locks s l'" "procs s' p = procs s p" "me th' = me th" "holds s' l p i \<longleftrightarrow> holds s l p i"
    by blast+
qed

section \<open>The end of a transaction\<close>

lemma ungrant_fold:
  assumes "distinct is" "set is \<subseteq> modes" "at_lock s l None (Some p) k" "elsewhere sib s l" "conflict_free sib k" "w \<or> no_lost_wakeup s k"
    and "pl \<in> set (procLocks k)" "myProc pl = p" "p \<notin> set (waitProcs k)" "\<forall>i \<in> set is. bit release i \<longrightarrow> bit (holdMask pl) i"
  shows "\<exists>w' s' k' pl'. fold (\<lambda>i (w, s). if release AND LOCKBIT_ON i \<noteq> 0 then (case UnGrantLock l i p s of (w', s') \<Rightarrow> (w \<or> w', s')) else (w, s)) is (w, s) =
      (w', s') \<and> at_lock s' l None (Some p) k' \<and> elsewhere sib s' l \<and> conflict_free sib k' \<and> (w' \<or> no_lost_wakeup s' k') \<and>
    waitProcs k' = waitProcs k \<and> procs s' = procs s \<and> (\<forall>l'. l' \<noteq> l \<longrightarrow> locks s' l' = locks s l') \<and> pl' \<in> set (procLocks k') \<and> myProc pl' = p \<and>
    (\<forall>i. bit (holdMask pl') i \<longleftrightarrow> bit (holdMask pl) i \<and> \<not> (i \<in> set is \<and> bit release i))"
    (is "\<exists>w' s' k' pl'. fold ?f is (w, s) = (w', s') \<and> ?Q is s k pl w' s' k' pl'")
  using assms
proof (induction "is" arbitrary: w s k pl)
  case Nil
  then show ?case by (intro exI [of _ w] exI [of _ s] exI [of _ k] exI [of _ pl]) simp
next
  case (Cons i "is")
  have i: "i \<in> modes" "i \<notin> set is" using Cons.prems by auto
  show ?case
  proof (cases "bit release i")
    case False
    then have "fold ?f (i # is) (w, s) = fold ?f is (w, s)" by simp
    moreover obtain w' s' k' pl' where "fold ?f is (w, s) = (w', s') \<and> ?Q is s k pl w' s' k' pl'"
      using Cons.IH [of s k w pl] Cons.prems by auto
    ultimately show ?thesis using False by (intro exI [of _ w'] exI [of _ s'] exI [of _ k'] exI [of _ pl']) auto
  next
    case True
    let ?s = "upd_lock l (ungrant_entry p i) s" and ?k = "ungrant_entry p i k" and ?pl = "pl\<lparr>holdMask := holdMask pl AND LOCKBIT_OFF i\<rparr>"
    have held: "bit (holdMask pl) i" using Cons.prems(10) True by simp
    obtain w1 where u: "UnGrantLock l i p s = (w1, ?s)" "at_lock ?s l None (Some p) ?k" "elsewhere sib ?s l" "conflict_free sib ?k"
        "w \<or> w1 \<or> no_lost_wakeup ?s ?k"
      by (rule UnGrantLock_step [OF Cons.prems(3-8) held i(1) Cons.prems(9)])
    have b: "bit (holdMask ?pl) j \<longleftrightarrow> bit (holdMask pl) j \<and> j \<noteq> i" for j by (auto simp: bit_simps dest: bit_lt_32)
    have step: "fold ?f (i # is) (w, s) = fold ?f is (w \<or> w1, ?s)" using True u(1) by simp
    have "distinct is" "set is \<subseteq> modes" "(w \<or> w1) \<or> no_lost_wakeup ?s ?k" using Cons.prems(1,2) u(5) by auto
    note prem = this(1,2) u(2-4) this(3)
    have "?pl \<in> set (procLocks ?k)" unfolding ungrant_entry_simps set_upd_proclock using Cons.prems(7,8) by (intro image_eqI [of _ _ pl]) simp_all
    moreover have "\<forall>j \<in> set is. bit release j \<longrightarrow> bit (holdMask ?pl) j" unfolding b using Cons.prems(10) i(2) by auto
    ultimately obtain w' s' k' pl' where "fold ?f is (w \<or> w1, ?s) = (w', s') \<and> ?Q is ?s ?k ?pl w' s' k' pl'"
      using Cons.IH [OF prem, of ?pl] Cons.prems(8,9) by auto
    then show ?thesis
      using True b step by (intro exI [of _ w'] exI [of _ s'] exI [of _ k'] exI [of _ pl']) (auto simp: i)
  qed
qed

lemma release_proclock_ok:
  assumes t: "table_ok sib s" and th: "thread_ok sib th" and run: "\<not> links (procs s (me th))" and k: "locks s l = Some k"
    and pl: "pl \<in> set (procLocks k)" "myProc pl = me th" and marks: "allLocks \<or> releaseMask AND NOT (holdMask pl) = 0"
  obtains th' s' where "release_proclock allLocks l releaseMask (th, s) = Some (th', s')" "table_ok sib s'" "thread_ok sib th'"
    "me th' = me th" "procs s' (me th) = procs s (me th)" "\<And>l'. l' \<noteq> l \<Longrightarrow> locks s' l' = locks s l'"
    "\<And>i. holds s' l (me th) i \<longleftrightarrow> holds s l (me th) i \<and> \<not> allLocks \<and> \<not> bit releaseMask i"
proof -
  let ?r = "if allLocks then holdMask pl else releaseMask"
  note a = table_ok_at [OF t k]
  have la: "lock_at s l = k" using k by (simp add: lock_at_def)
  have d: "distinct (map myProc (procLocks k))" using at_lock_distinct [OF a(1)] by simp
  have pa: "proclock_at k (me th) = pl" using proclock_at_eq [OF d pl(1)] pl(2) by simp
  have pk: "me th \<notin> set (waitProcs k)" by (rule not_linked [OF a(1) run k])
  have held: "holdMask pl \<noteq> 0" using a(1) pl pk by (auto simp: at_lock_def lock_ok_def proclock_ok_def)
  have sub: "bit ?r i \<Longrightarrow> bit (holdMask pl) i" for i
  proof (rule ccontr)
    assume r: "bit ?r i" "\<not> bit (holdMask pl) i"
    then have "bit (releaseMask AND NOT (holdMask pl)) i" "\<not> allLocks" by (auto simp: bit_simps dest: bit_lt_32 split: if_splits)
    then show False using marks by simp
  qed
  show thesis
  proof (cases "?r = 0")
    case True
    then have "\<not> allLocks" "releaseMask = 0" using held by (auto split: if_splits)
    then have "release_proclock allLocks l releaseMask (th, s) = Some (th, s)"
      using held marks la pa by (simp add: release_proclock_def Let_def)
    then show thesis using that [of th s] t th \<open>\<not> allLocks\<close> \<open>releaseMask = 0\<close> by auto
  next
    case False
    have "distinct [1..<numLockModes + 1]" "set [1..<numLockModes + 1] \<subseteq> modes" by (auto simp: numLockModes_def)
    from ungrant_fold [OF this at_lock_spare [OF a(1)] a(3,4) _ pl pk, of False ?r, folded ungrant_marked_def]
    obtain w' s1 k1 pl1 where u: "ungrant_marked l (me th) ?r s = (w', s1)" "at_lock s1 l None (Some (me th)) k1" "elsewhere sib s1 l"
        "conflict_free sib k1" "w' \<or> no_lost_wakeup s1 k1" "waitProcs k1 = waitProcs k" "procs s1 = procs s"
        "\<forall>l'. l' \<noteq> l \<longrightarrow> locks s1 l' = locks s l'" "pl1 \<in> set (procLocks k1)" "myProc pl1 = me th"
        "\<forall>i. bit (holdMask pl1) i \<longleftrightarrow> bit (holdMask pl) i \<and> \<not> (i \<in> set [1..<numLockModes + 1] \<and> bit ?r i)"
      using a(5) sub by blast
    have pk1: "me th \<notin> set (waitProcs k1)" using u(6) pk by simp
    obtain th' s' where c: "CleanUpLock l (me th) w' (th, s1) = (th', s')" "table_ok sib s'" "thread_ok sib th'"
      by (rule CleanUpLock_ok [OF u(2) pk1 th u(3,4,5)])
    note lv = CleanUpLock_leaves [OF u(2) pk1 c(1)]
    have hm: "bit (holdMask pl1) i \<longleftrightarrow> bit (holdMask pl) i \<and> \<not> bit ?r i" for i
      using u(11) at_lock_bits [OF a(1) pl(1), of i] by (auto simp: numLockModes_def)
    have "holds s1 l (me th) i \<longleftrightarrow> bit (holdMask pl1) i" for i
      using u(2,9,10) at_lock_distinct [OF u(2)] by (auto simp: holds_def at_lock_def distinct_map inj_on_def)
    moreover have "holds s l (me th) i \<longleftrightarrow> bit (holdMask pl) i" for i using k pl d by (auto simp: holds_def distinct_map inj_on_def)
    ultimately have "holds s' l (me th) i \<longleftrightarrow> holds s l (me th) i \<and> \<not> allLocks \<and> \<not> bit releaseMask i" for i
      using lv(4) hm by auto
    moreover have "release_proclock allLocks l releaseMask (th, s) = Some (th', s')"
      using False held marks la pa u(1) c(1) by (auto simp: release_proclock_def Let_def)
    ultimately show thesis using that [of th' s'] c lv u(7,8) by simp
  qed
qed

text \<open>A process that holds no more lock has no entry left: the marks of a scan over its entries concern different locks, and each is still there when its turn comes.\<close>

definition marked :: "lock_thread \<Rightarrow> lock_space \<Rightarrow> bool \<Rightarrow> LOCKTAG \<times> LOCKMASK \<Rightarrow> bool" where
  "marked th s allLocks m \<longleftrightarrow> (case locks s (fst m) of None \<Rightarrow> False
     | Some k \<Rightarrow> \<exists>pl \<in> set (procLocks k). myProc pl = me th \<and> (allLocks \<or> snd m AND NOT (holdMask pl) = 0))"

lemma LockReleaseAll_correct:
  assumes "table_ok sib s" "thread_ok sib th" "\<not> links (procs s (me th))" "distinct (map fst ms)" "list_all (marked th s allLocks) ms"
  shows "\<exists>th' s'. LockReleaseAll meth allLocks ms (th, s) = Some (th', s') \<and> table_ok sib s' \<and> thread_ok sib th' \<and>
    (\<forall>l i. holds s' l (me th) i \<longleftrightarrow>
      holds s l (me th) i \<and> \<not> (locktag_lockmethodid l = meth \<and> (\<exists>m \<in> set ms. fst m = l \<and> (allLocks \<or> bit (snd m) i))))"
  using assms
proof (induction ms arbitrary: th s)
  case Nil then show ?case by auto
next
  case (Cons m ms)
  obtain l rm where m: "m = (l, rm)" by (cases m)
  show ?case
  proof (cases "locktag_lockmethodid l = meth")
    case False
    then show ?thesis using Cons.IH [OF Cons.prems(1-3)] Cons.prems(4,5) m by auto
  next
    case True
    obtain k pl where k: "locks s l = Some k" "pl \<in> set (procLocks k)" "myProc pl = me th" "allLocks \<or> rm AND NOT (holdMask pl) = 0"
      using Cons.prems(5) m by (auto simp: marked_def split: option.splits)
    obtain th1 s1 where r: "release_proclock allLocks l rm (th, s) = Some (th1, s1)" "table_ok sib s1" "thread_ok sib th1" "me th1 = me th"
        "procs s1 (me th) = procs s (me th)" "\<And>l'. l' \<noteq> l \<Longrightarrow> locks s1 l' = locks s l'"
        "\<And>i. holds s1 l (me th) i \<longleftrightarrow> holds s l (me th) i \<and> \<not> allLocks \<and> \<not> bit rm i"
      by (rule release_proclock_ok [OF Cons.prems(1-3) k]) blast
    have l: "l \<notin> fst ` set ms" using Cons.prems(4) m by simp
    then have "locks s1 (fst x) = locks s (fst x)" if "x \<in> set ms" for x using r(6) that by (metis image_eqI)
    then have "list_all (marked th1 s1 allLocks) ms" using Cons.prems(5) unfolding list_all_iff marked_def r(4) by simp
    then obtain th' s' where ih: "LockReleaseAll meth allLocks ms (th1, s1) = Some (th', s')" "table_ok sib s'" "thread_ok sib th'"
      and h: "\<And>l i. holds s' l (me th) i \<longleftrightarrow>
        holds s1 l (me th) i \<and> \<not> (locktag_lockmethodid l = meth \<and> (\<exists>m \<in> set ms. fst m = l \<and> (allLocks \<or> bit (snd m) i)))"
      using Cons.IH [OF r(2,3)] Cons.prems(3,4) r(4,5) by auto
    have other: "holds s1 l' (me th) i \<longleftrightarrow> holds s l' (me th) i" if "l' \<noteq> l" for l' i using r(6) [OF that] by (simp add: holds_def)
    have "holds s' l' (me th) i \<longleftrightarrow> holds s l' (me th) i \<and>
        \<not> (locktag_lockmethodid l' = meth \<and> (\<exists>m \<in> set (m # ms). fst m = l' \<and> (allLocks \<or> bit (snd m) i)))" for l' i
      using h [of l' i] r(7) [of i] other [of l' i] True l m by (cases "l' = l") (auto simp: image_iff)
    then show ?thesis using ih r(1) True m by auto
  qed
qed

section \<open>The outcome of a request\<close>

lemma links_wakeup_scan: "\<not> links (procs (snd ts) q) \<Longrightarrow> \<not> links (procs (snd (wakeup_scan l ps ahead ts)) q)"
proof (induction ps arbitrary: ahead ts)
  case (Cons p ps)
  obtain th s where ts: "ts = (th, s)" by (cases ts)
  have "\<not> links (procs (wake l p s) q)" using Cons.prems ts by (simp add: wake_def ProcWakeup_def GrantLock_def)
  then show ?case using Cons ts by (simp add: wakeup_scan_Cons Let_def)
qed simp

lemma RemoveFromWaitQueue_unlinked: "\<not> links (procs (snd (RemoveFromWaitQueue p ts)) p)"
  unfolding RemoveFromWaitQueue_def CleanUpLock_def ProcLockWakeup_def drop_empty_proclock_def Let_def
  by (auto intro!: links_wakeup_scan)

lemma ProcSleep_outcome:
  assumes "ProcSleep l m (th, s) = (r, th', s')"
  shows "r = Got_Lock \<Longrightarrow> s' = GrantLock l (me th) m s" and "r = Asleep \<Longrightarrow> \<exists>i. s' = join_queue l m i (me th) s"
    and "r = Deadlock \<Longrightarrow> \<not> links (procs s' (me th))"
proof -
  define place where "place = (if my_held_locks th s l \<noteq> 0 then sleep_scan s l m (my_held_locks th s l) (waitProcs (lock_at s l)) 0 0 th
    else (Sleep_Before (length (waitProcs (lock_at s l))), th))"
  define again where "again = (if in_stream th then LockCheckConflicts (snd place) s m l (me th) else (STATUS_FOUND, snd place))"
  have eq: "ProcSleep l m (th, s) =
     (if fst place = Skip_Wait then (Got_Lock, snd place, GrantLock l (me th) m s)
      else if fst again = STATUS_OK then (Got_Lock, snd again, GrantLock l (me th) m s)
      else if waitStatus (procs s (me th)) = STATUS_WAITING then (Corrupt_Queue, snd again, s)
      else case fst place of
          Early_Deadlock i \<Rightarrow> (Deadlock, RemoveFromWaitQueue (me th) (snd again, join_queue l m i (me th) s))
        | Sleep_Before i \<Rightarrow> (Asleep, snd again, join_queue l m i (me th) s)
        | Skip_Wait \<Rightarrow> (Got_Lock, snd again, s))"
    unfolding ProcSleep_def Let_def fst_conv snd_conv place_def [symmetric] case_prod_beta again_def [symmetric] by simp
  show "r = Got_Lock \<Longrightarrow> s' = GrantLock l (me th) m s" "r = Asleep \<Longrightarrow> \<exists>i. s' = join_queue l m i (me th) s"
    using assms unfolding eq by (auto split: if_splits sleep_place.splits)
  show "\<not> links (procs s' (me th))" if "r = Deadlock"
  proof -
    have "\<exists>i th2. (th', s') = RemoveFromWaitQueue (me th) (th2, join_queue l m i (me th) s)"
      using assms that unfolding eq by (auto split: if_splits sleep_place.splits) (metis prod.collapse)
    then show ?thesis using RemoveFromWaitQueue_unlinked by (metis snd_conv)
  qed
qed

lemma SetupLockInTable_ready:
  assumes run: "SetupLockInTable th p l m s = (PROCLOCK_READY, s')"
  shows "s' = upd_lock l (setup_entry s p m) (if locks s l = None then s\<lparr>locks := (locks s)(l \<mapsto> new_lock)\<rparr> else s)"
proof -
  define s1 where "s1 = (if locks s l = None then s\<lparr>locks := (locks s)(l \<mapsto> new_lock)\<rparr> else s)"
  obtain k where k: "locks s1 l = Some k" "lock_at s1 l = k" by (cases "locks s l") (simp_all add: s1_def lock_at_def)
  let ?found = "\<exists>pl \<in> set (procLocks k). myProc pl = p"
  let ?s = "upd_lock l (\<lambda>k. k\<lparr>nRequested := nRequested k + 1, requested := (requested k)(m := requested k m + 1)\<rparr>)
      (if ?found then s1 else upd_lock l (\<lambda>k. k\<lparr>procLocks := procLocks k @ [\<lparr>myProc = p, groupLeader = leader_of s p, holdMask = 0\<rparr>]\<rparr>) s1)"
  have "s' = ?s"
    using run unfolding SetupLockInTable_def Let_def s1_def [symmetric] k(2) by (auto split: if_splits)
  moreover have "?s = upd_lock l (setup_entry s p m) s1" using k(1) by (auto simp: upd_lock_def setup_entry_def)
  ultimately show ?thesis by (simp add: s1_def)
qed

lemma SetupLockInTable_entry:
  assumes run: "SetupLockInTable th p l m s = (PROCLOCK_READY, s')"
  shows "\<exists>k pl. locks s' l = Some k \<and> pl \<in> set (procLocks k) \<and> myProc pl = p" and "holds s' l' q i \<longleftrightarrow> holds s l' q i"
proof -
  let ?k = "if locks s l = None then new_lock else the (locks s l)"
  have s': "locks s' = (locks s)(l \<mapsto> setup_entry s p m ?k)" using SetupLockInTable_ready [OF run] by (auto simp: fun_eq_iff)
  then show "\<exists>k pl. locks s' l = Some k \<and> pl \<in> set (procLocks k) \<and> myProc pl = p" by auto
  show "holds s' l' q i \<longleftrightarrow> holds s l' q i"
    using s' by (cases "l' = l"; cases "locks s l") (auto simp: holds_def new_lock_def)
qed

lemma holds_GrantLock:
  assumes "locks s l = Some k" "pl \<in> set (procLocks k)" "myProc pl = p" "m \<in> modes" shows "holds (GrantLock l p m s) l p m"
proof -
  have k: "locks (GrantLock l p m s) l = Some (grant_entry p m k)" using assms(1) by (simp add: GrantLock_entry)
  have "pl\<lparr>holdMask := holdMask pl OR LOCKBIT_ON m\<rparr> \<in> set (procLocks (grant_entry p m k))"
    using assms(2,3) unfolding grant_entry_simps set_upd_proclock by (intro image_eqI [of _ _ pl]) simp_all
  moreover have "myProc (pl\<lparr>holdMask := holdMask pl OR LOCKBIT_ON m\<rparr>) = p" "bit (holdMask (pl\<lparr>holdMask := holdMask pl OR LOCKBIT_ON m\<rparr>)) m"
    using assms(3,4) by (simp_all add: bit_simps)
  ultimately show ?thesis unfolding holds_def k option.case by blast
qed

lemma acquire_shared_outcome:
  assumes t: "table_ok sib s" and may: "may_request sib th s l m" and run: "acquire_shared l m dontWait rme (th, s) = (r, th', s')"
  shows "r = LOCKACQUIRE_OK \<Longrightarrow> holds s' l (me th) m"
    and "r = LOCKACQUIRE_WAITS \<Longrightarrow> \<not> dontWait \<and> links (procs s' (me th)) \<and> waitLock (procs s' (me th)) = Some l \<and> waitLockMode (procs s' (me th)) = m"
    and "r = LOCKACQUIRE_NOT_AVAIL \<Longrightarrow> (dontWait \<or> \<not> rme) \<and> (\<forall>l' q i. holds s' l' q i \<longleftrightarrow> holds s l' q i)"
    and "r = LOCKACQUIRE_ERROR DEADLOCK_DETECTED \<Longrightarrow> \<not> dontWait \<and> \<not> links (procs s' (me th))"
proof -
  obtain su s1 where su: "SetupLockInTable th (me th) l m s = (su, s1)" by fastforce
  have m: "m \<in> modes" using may by (simp add: may_request_def)
  have no: "s1 = s" if "su = NO_PROCLOCK"
    using SetupLockInTable_ok [OF t m, of "me th" l th] may that su by (auto simp: may_request_def)
  note st = SetupLockInTable_entry [of th "me th" l m s s1]
  define c where "c = (if conflictTab m AND waitMask (lock_at s1 l) \<noteq> 0 then waiting_redistribution th s1 m l else LockCheckConflicts th s1 m l (me th))"
  define th2 where "th2 = (if fst c = STATUS_FOUND_NEED_CANCEL
    then (snd c)\<lparr>blocking_redistribution_proc := None, redistribution_cancelable := False\<rparr> else snd c)"
  define s2 where "s2 = upd_proc (me th) (\<lambda>q. q\<lparr>heldLocks := holdMask (proclock_at (lock_at s1 l) (me th))\<rparr>) s1"
  have me: "me th2 = me th" by (auto simp: th2_def c_def waiting_redistribution_thread LockCheckConflicts_thread)
  obtain sr th3 s3 where sleep: "ProcSleep l m (th2, s2) = (sr, th3, s3)" by (cases "ProcSleep l m (th2, s2)") auto
  note sl = ProcSleep_outcome [OF sleep, unfolded me]
  have entry: "\<exists>k pl. locks s2 l = Some k \<and> pl \<in> set (procLocks k) \<and> myProc pl = me th" if "su = PROCLOCK_READY"
    using st(1) su that by (simp add: s2_def)
  have eq: "acquire_shared l m dontWait rme (th, s) = (case su of
        NO_PROCLOCK \<Rightarrow> (if rme then LOCKACQUIRE_ERROR OUT_OF_MEMORY else LOCKACQUIRE_NOT_AVAIL, th, s1)
      | ALREADY_HELD \<Rightarrow> (LOCKACQUIRE_ERROR LOCK_ALREADY_HELD, th, s1)
      | PROCLOCK_READY \<Rightarrow>
          if fst c = STATUS_OK then (LOCKACQUIRE_OK, snd c, GrantLock l (me th) m s1)
          else if dontWait then (LOCKACQUIRE_NOT_AVAIL, snd c, undo_request l m (me th) s1)
          else case sr of
              Got_Lock \<Rightarrow> (LOCKACQUIRE_OK, th3, s3)
            | Asleep \<Rightarrow> (LOCKACQUIRE_WAITS, th3, s3)
            | Deadlock \<Rightarrow> (LOCKACQUIRE_ERROR DEADLOCK_DETECTED, th3, s3)
            | Corrupt_Queue \<Rightarrow> (LOCKACQUIRE_ERROR QUEUE_CORRUPTED, th3, s3))"
    unfolding acquire_shared_def Let_def fst_conv snd_conv su prod.case c_def [symmetric]
    by (cases su; cases sr) (simp_all add: case_prod_beta th2_def [symmetric] s2_def [symmetric] sleep)
  note cases = setup_result.splits sleep_result.splits if_splits
  show "holds s' l (me th) m" if "r = LOCKACQUIRE_OK"
  proof -
    have su': "su = PROCLOCK_READY" using run that unfolding eq by (auto split: cases)
    from run that have "s' = GrantLock l (me th) m s1 \<or> s' = GrantLock l (me th) m s2" unfolding eq using sl(1) by (auto split: cases)
    then show ?thesis using st(1) [OF su [unfolded su']] entry [OF su'] holds_GrantLock [OF _ _ _ m] by blast
  qed
  show "\<not> dontWait \<and> links (procs s' (me th)) \<and> waitLock (procs s' (me th)) = Some l \<and> waitLockMode (procs s' (me th)) = m"
    if "r = LOCKACQUIRE_WAITS"
  proof -
    have "\<not> dontWait \<and> sr = Asleep \<and> s' = s3" using run that unfolding eq by (auto split: cases)
    then show ?thesis using sl(2) by (auto simp: join_queue_def)
  qed
  show "(dontWait \<or> \<not> rme) \<and> (\<forall>l' q i. holds s' l' q i \<longleftrightarrow> holds s l' q i)" if "r = LOCKACQUIRE_NOT_AVAIL"
  proof -
    have "su = NO_PROCLOCK \<and> \<not> rme \<and> s' = s1 \<or> su = PROCLOCK_READY \<and> dontWait \<and> s' = undo_request l m (me th) s1"
      using run that unfolding eq by (auto split: cases)
    then consider "su = NO_PROCLOCK" "\<not> rme" "s' = s1" | "su = PROCLOCK_READY" "dontWait" "s' = undo_request l m (me th) s1" by blast
    then show ?thesis
    proof cases
      case 1 then show ?thesis using no by simp
    next
      case 2
      have "holds (undo_request l m (me th) s1) l' q i \<longleftrightarrow> holds s1 l' q i" for l' q i
        by (auto simp: undo_request_def drop_empty_proclock_def holds_def split: option.splits)
      then show ?thesis using 2 st(2) su by simp
    qed
  qed
  show "\<not> dontWait \<and> \<not> links (procs s' (me th))" if "r = LOCKACQUIRE_ERROR DEADLOCK_DETECTED"
  proof -
    have "\<not> dontWait \<and> sr = Deadlock \<and> s' = s3" using run that unfolding eq by (auto split: cases)
    then show ?thesis using sl(3) by simp
  qed
qed

end
