(* ===== verification/Deadlock_Check.thy ===== *)
theory Deadlock_Check
  imports Lock_Table
begin

text \<open>
  The deadlock detector, \<open>src/gausskernel/storage/lmgr/deadlock.cpp\<close>: the search for a cycle in the waits-for graph, the
  search for an order of the wait queues without one, and what the process that ran into the deadlock timeout does with the answer.
  The work areas of the thread (\<open>visitedProcs\<close>, \<open>waitOrders\<close>, \<open>curConstraints\<close>, \<open>possibleConstraints\<close>) are values passed along; \<open>MaxBackends\<close> bounds them
  and is the first argument. The time limit of the search (\<open>CheckDeadLockRunningTooLong\<close>) is not modelled.
\<close>

record EDGE =
  waiter :: procid
  blocker :: procid
  awaited :: LOCKTAG

record DEADLOCK_INFO =
  info_locktag :: LOCKTAG
  info_lockmode :: LOCKMODE
  info_pid :: uint64

type_synonym wait_orders = "(LOCKTAG \<times> procid list) list"

datatype deadlock_error = TOO_MANY_VISITED | STACK_DEPTH | INCONSISTENT_RESULTS | DEADLOCK_DISAPPEARED

text \<open>
  The state of a search: the processes visited and the thread, which notes autovacuum workers in its way. A search raises an error, or ends without a
  cycle, or with one: its soft edges, the innermost first, and its \<open>deadlockDetails\<close>.
\<close>

type_synonym search_state = "procid list \<times> lock_thread"
type_synonym search_result = "deadlock_error + (EDGE list \<times> DEADLOCK_INFO list) option \<times> search_state"

section \<open>Blockers worth remembering\<close>

definition remember_autovacuum :: "procid \<Rightarrow> lock_thread \<Rightarrow> lock_thread" where
  "remember_autovacuum p th =
     (if p \<in> set (blocking_autovacuum_proc th) \<or> length (blocking_autovacuum_proc th) \<ge> max_blocking_autovacuum_proc_num th then th
      else th\<lparr>blocking_autovacuum_proc := blocking_autovacuum_proc th @ [p]\<rparr>)"

definition note_hard_blocker :: "lock_space \<Rightarrow> procid \<Rightarrow> procid \<Rightarrow> lock_thread \<Rightarrow> lock_thread" where
  "note_hard_blocker s checkProc p th =
     (if checkProc \<noteq> me th then th
      else if vacuumFlags (procs s p) AND PROC_IS_AUTOVACUUM \<noteq> 0 then remember_autovacuum p th
      else if vacuumFlags (procs s p) AND PROC_IS_REDIST \<noteq> 0 then th\<lparr>blocking_redistribution_proc := Some p\<rparr>
      else th)"

definition note_waiting_autovacuum :: "lock_space \<Rightarrow> procid \<Rightarrow> procid \<Rightarrow> LOCK \<Rightarrow> lock_thread \<Rightarrow> lock_thread" where
  "note_waiting_autovacuum s checkProc checkProcLeader k th =
     (if checkProc = me th \<and> blocking_autovacuum_proc th \<noteq> []
      then fold (\<lambda>p t. if leader_of s p \<noteq> checkProcLeader \<and>
               conflictTab (waitLockMode (procs s checkProc)) AND LOCKBIT_ON (waitLockMode (procs s p)) \<noteq> 0 \<and>
               vacuumFlags (procs s p) AND PROC_IS_AUTOVACUUM \<noteq> 0 then remember_autovacuum p t else t)
             (takeWhile (\<lambda>p. p \<noteq> checkProc) (waitProcs k)) th
      else th)"

section \<open>Searching for a cycle\<close>

definition hard_conflict :: "LOCKMODE \<Rightarrow> PROCLOCK \<Rightarrow> bool" where
  "hard_conflict m pl =
     list_ex (\<lambda>lm. holdMask pl AND LOCKBIT_ON lm \<noteq> 0 \<and> conflictTab m AND LOCKBIT_ON lm \<noteq> 0) [1..<numLockModes + 1]"

definition edge_info :: "lock_space \<Rightarrow> procid \<Rightarrow> LOCKTAG \<Rightarrow> DEADLOCK_INFO" where
  "edge_info s p l = \<lparr>info_locktag = l, info_lockmode = waitLockMode (procs s p), info_pid = pid (procs s p)\<rparr>"

text \<open>Holders of conflicting locks; \<open>rec\<close> is the search from the next process.\<close>

primrec hard_scan ::
  "lock_space \<Rightarrow> (procid \<Rightarrow> search_state \<Rightarrow> search_result) \<Rightarrow> procid \<Rightarrow> procid \<Rightarrow> LOCKTAG \<Rightarrow> PROCLOCK list \<Rightarrow> search_state \<Rightarrow> search_result" where
  "hard_scan s rec checkProc checkProcLeader l [] w = Inr (None, w)"
| "hard_scan s rec checkProc checkProcLeader l (pl # pls) w =
     (if leader_of s (myProc pl) \<noteq> checkProcLeader \<and> hard_conflict (waitLockMode (procs s checkProc)) pl
      then case rec (myProc pl) w of
          Inl e \<Rightarrow> Inl e
        | Inr (Some (edges, details), w') \<Rightarrow> Inr (Some (edges, edge_info s checkProc l # details), w')
        | Inr (None, (v, th)) \<Rightarrow>
            hard_scan s rec checkProc checkProcLeader l pls (v, note_hard_blocker s checkProc (myProc pl) th)
      else hard_scan s rec checkProc checkProcLeader l pls w)"

text \<open>Waiters ahead in the queue, up to the one where the scan stops; \<open>mine\<close> are those that do not count.\<close>

primrec soft_scan ::
  "lock_space \<Rightarrow> (procid \<Rightarrow> search_state \<Rightarrow> search_result) \<Rightarrow> procid \<Rightarrow> procid \<Rightarrow> LOCKTAG \<Rightarrow> (procid \<Rightarrow> bool) \<Rightarrow> (procid \<Rightarrow> bool) \<Rightarrow>
    procid list \<Rightarrow> search_state \<Rightarrow> search_result" where
  "soft_scan s rec checkProc checkProcLeader l stop mine [] w = Inr (None, w)"
| "soft_scan s rec checkProc checkProcLeader l stop mine (p # ps) w =
     (if stop p then Inr (None, w)
      else if LOCKBIT_ON (waitLockMode (procs s p)) AND conflictTab (waitLockMode (procs s checkProc)) \<noteq> 0 \<and> \<not> mine p
      then case rec p w of
          Inl e \<Rightarrow> Inl e
        | Inr (Some (edges, details), w') \<Rightarrow>
            Inr (Some (edges @ [\<lparr>waiter = checkProcLeader, blocker = leader_of s p, awaited = l\<rparr>], edge_info s checkProc l # details), w')
        | Inr (None, w') \<Rightarrow> soft_scan s rec checkProc checkProcLeader l stop mine ps w'
      else soft_scan s rec checkProc checkProcLeader l stop mine ps w)"

definition lastGroupMember :: "lock_space \<Rightarrow> procid \<Rightarrow> procid \<Rightarrow> procid list \<Rightarrow> procid option" where
  "lastGroupMember s checkProc checkProcLeader queue =
     (if lockGroupLeader (procs s checkProc) = None then Some checkProc
      else List.find (\<lambda>p. lockGroupLeader (procs s p) = Some checkProcLeader) (rev queue))"

definition FindLockCycleRecurseMember ::
  "lock_space \<Rightarrow> wait_orders \<Rightarrow> (procid \<Rightarrow> search_state \<Rightarrow> search_result) \<Rightarrow> procid \<Rightarrow> procid \<Rightarrow> search_state \<Rightarrow> search_result" where
  "FindLockCycleRecurseMember s waitOrders rec checkProc checkProcLeader w =
     (let l = the (waitLock (procs s checkProc)); k = lock_at s l in
      case hard_scan s rec checkProc checkProcLeader l (procLocks k) w of
        Inl e \<Rightarrow> Inl e
      | Inr (Some c, w') \<Rightarrow> Inr (Some c, w')
      | Inr (None, (v, th)) \<Rightarrow>
          let w' = (v, note_waiting_autovacuum s checkProc checkProcLeader k th) in
          case List.find (\<lambda>o1. fst o1 = l) waitOrders of
            Some (l', order) \<Rightarrow> soft_scan s rec checkProc checkProcLeader l (\<lambda>p. leader_of s p = checkProc) (\<lambda>p. False) order w'
          | None \<Rightarrow> soft_scan s rec checkProc checkProcLeader l
                (\<lambda>p. Some p = lastGroupMember s checkProc checkProcLeader (waitProcs k)) (\<lambda>p. leader_of s p = checkProcLeader)
                (waitProcs k) w')"

definition is_waiting :: "lock_space \<Rightarrow> procid \<Rightarrow> bool" where
  "is_waiting s p \<longleftrightarrow> links (procs s p) \<and> waitLock (procs s p) \<noteq> None"

primrec member_scan :: "(procid \<Rightarrow> search_state \<Rightarrow> search_result) \<Rightarrow> procid list \<Rightarrow> search_state \<Rightarrow> search_result" where
  "member_scan f [] w = Inr (None, w)"
| "member_scan f (m # ms) w =
     (case f m w of Inl e \<Rightarrow> Inl e | Inr (Some c, w') \<Rightarrow> Inr (Some c, w') | Inr (None, w') \<Rightarrow> member_scan f ms w')"

text \<open>The leader of a group, if it waits, and then the other members that do.\<close>

definition waiting_members :: "lock_space \<Rightarrow> procid \<Rightarrow> procid list" where
  "waiting_members s p =
     (if is_waiting s p then [p] else []) @ filter (\<lambda>q. is_waiting s q \<and> q \<noteq> p) (lockGroupMembers (procs s p))"

text \<open>The first argument is the depth of recursion that the stack has room for.\<close>

fun FindLockCycleRecurse ::
  "nat \<Rightarrow> nat \<Rightarrow> lock_space \<Rightarrow> wait_orders \<Rightarrow> procid \<Rightarrow> search_state \<Rightarrow> search_result" where
  "FindLockCycleRecurse 0 MaxBackends s waitOrders p w = Inl STACK_DEPTH"
| "FindLockCycleRecurse (Suc n) MaxBackends s waitOrders p (visited, th) =
     (let checkProc = leader_of s p in
      if checkProc \<in> set visited then Inr (if hd visited = checkProc then Some ([], []) else None, (visited, th))
      else if length visited \<ge> MaxBackends then Inl TOO_MANY_VISITED
      else member_scan (\<lambda>m. FindLockCycleRecurseMember s waitOrders (FindLockCycleRecurse n MaxBackends s waitOrders) m checkProc)
             (waiting_members s checkProc) (visited @ [checkProc], th))"

text \<open>Each level of the recursion adds a process to \<open>visitedProcs\<close>, so that it is at most \<open>MaxBackends + 1\<close> deep.\<close>

definition FindLockCycle ::
  "nat \<Rightarrow> lock_space \<Rightarrow> wait_orders \<Rightarrow> procid \<Rightarrow> lock_thread \<Rightarrow>
    deadlock_error + (EDGE list \<times> DEADLOCK_INFO list) option \<times> lock_thread" where
  "FindLockCycle MaxBackends s waitOrders p th =
     (case FindLockCycleRecurse (MaxBackends + 1) MaxBackends s waitOrders p ([], th) of
        Inl e \<Rightarrow> Inl e
      | Inr (c, (v, th')) \<Rightarrow> Inr (c, th'))"

section \<open>Reordering a queue\<close>

text \<open>
  \<open>TopoSort\<close> works with positions in the queue. A lock group is represented by its last member in the queue, the others get the count -1.
  \<open>beforeConstraints\<close> counts for a position the constraints that want it before another one; \<open>afterConstraints\<close>, in the code a list linked through the
  constraints, has the positions that have to come before it.
\<close>

definition topo_mark :: "lock_space \<Rightarrow> procid list \<Rightarrow> procid \<Rightarrow> int list \<Rightarrow> nat option \<times> int list" where
  "topo_mark s queue p bs =
     (let js = filter (\<lambda>j. queue ! j = p \<or> lockGroupLeader (procs s (queue ! j)) = Some p) [0..<length queue] in
      if js = [] then (None, bs) else (Some (last js), fold (\<lambda>j b. b[j := -1]) (rev (butlast js)) bs))"

definition topo_constraint :: "lock_space \<Rightarrow> procid list \<Rightarrow> EDGE \<Rightarrow> int list \<times> nat list list \<Rightarrow> int list \<times> nat list list" where
  "topo_constraint s queue c ba =
     (case topo_mark s queue (waiter c) (fst ba) of
        (None, bs) \<Rightarrow> (bs, snd ba)
      | (Some jj, bs) \<Rightarrow>
          (case topo_mark s queue (blocker c) bs of
             (None, bs') \<Rightarrow> (bs', snd ba)
           | (Some kk, bs') \<Rightarrow> (bs'[jj := bs' ! jj + 1], (snd ba)[kk := jj # snd ba ! kk])))"

text \<open>The last position still to be placed that nothing has to come after.\<close>

definition topo_candidate :: "procid option list \<Rightarrow> int list \<Rightarrow> nat option" where
  "topo_candidate topo bs =
     List.find (\<lambda>j. topo ! j \<noteq> None \<and> bs ! j = 0) (rev [0..<length topo])"

definition topo_group :: "lock_space \<Rightarrow> procid \<Rightarrow> procid option \<Rightarrow> bool" where
  "topo_group s g x = (case x of None \<Rightarrow> False | Some q \<Rightarrow> q = g \<or> lockGroupLeader (procs s q) = Some g)"

lemma topo_candidate_Some:
  assumes "topo_candidate topo bs = Some j"
  shows "j < length topo" "topo ! j \<noteq> None" "bs ! j = 0"
  using assms unfolding topo_candidate_def find_Some_iff by (auto simp: rev_nth)

lemma topo_group_leader: "topo_group s (leader_of s q) (Some q)"
  by (simp add: topo_group_def leader_of_def split: option.splits)

text \<open>
  The ordering is filled from its end. A candidate is placed together with its lock group. The variable \<open>last\<close> of the code only saves looking at trailing positions
  that are placed already.
\<close>

function TopoSortScan ::
  "lock_space \<Rightarrow> procid option list \<Rightarrow> int list \<Rightarrow> nat list list \<Rightarrow> procid list \<Rightarrow> procid list option" where
  "TopoSortScan s topo bs after placed =
     (if list_all (\<lambda>x. x = None) topo then Some placed
      else case topo_candidate topo bs of
          None \<Rightarrow> None
        | Some j \<Rightarrow>
            let g = leader_of s (the (topo ! j)) in
            TopoSortScan s (map (\<lambda>x. if topo_group s g x then None else x) topo) (fold (\<lambda>i b. b[i := b ! i - 1]) (after ! j) bs) after
              (rev (map the (filter (topo_group s g) topo)) @ placed))"
  by pat_completeness auto

termination
proof (relation "measure (\<lambda>(s, topo, bs, after, placed). length (filter (\<lambda>x. x \<noteq> None) topo))", goal_cases)
  case (2 s topo bs after placed j g)
  note j = topo_candidate_Some [OF 2(2)]
  let ?f = "\<lambda>x. if topo_group s g x then None else x"
  have "length (filter (\<lambda>x. x \<noteq> None) (map ?f xs)) < length (filter (\<lambda>x. x \<noteq> None) xs)"
    if "x \<in> set xs" "topo_group s g x" for x xs
  proof -
    have le: "length (filter (\<lambda>x. x \<noteq> None) (map ?f ys)) \<le> length (filter (\<lambda>x. x \<noteq> None) ys)" for ys by (induction ys) auto
    show ?thesis using that
    proof (induction xs)
      case (Cons y ys) then show ?case using le [of ys] by (auto simp: topo_group_def less_Suc_eq_le)
    qed simp
  qed
  moreover have "topo ! j \<in> set topo" "topo_group s g (topo ! j)"
    using j 2(3) topo_group_leader [of s "the (topo ! j)"] by auto
  ultimately show ?case by simp
qed simp

declare TopoSortScan.simps [simp del]

definition TopoSort :: "lock_space \<Rightarrow> LOCKTAG \<Rightarrow> EDGE list \<Rightarrow> procid list option" where
  "TopoSort s l constraints =
     (let queue = waitProcs (lock_at s l); n = length queue;
          (bs, after) = fold (topo_constraint s queue) constraints (replicate n 0, replicate n [])
      in TopoSortScan s (map Some queue) bs after [])"

text \<open>\<open>expand_scan\<close> goes backwards over the constraints; those after the current one concern other locks.\<close>

fun expand_scan :: "lock_space \<Rightarrow> EDGE list \<Rightarrow> wait_orders \<Rightarrow> wait_orders option" where
  "expand_scan s [] waitOrders = Some waitOrders"
| "expand_scan s (c # cs) waitOrders =
     (if awaited c \<in> fst ` set waitOrders then expand_scan s cs waitOrders
      else case TopoSort s (awaited c) (rev (c # cs)) of
          None \<Rightarrow> None
        | Some order \<Rightarrow> expand_scan s cs (waitOrders @ [(awaited c, order)]))"

definition ExpandConstraints :: "lock_space \<Rightarrow> EDGE list \<Rightarrow> wait_orders option" where
  "ExpandConstraints s constraints = expand_scan s (rev constraints) []"

section \<open>Searching for an order without deadlock\<close>

text \<open>The processes are checked in turn; a cycle without soft edges ends the test, otherwise the soft edges of the last cycle found are kept.\<close>

primrec check_procs ::
  "nat \<Rightarrow> lock_space \<Rightarrow> wait_orders \<Rightarrow> procid list \<Rightarrow> EDGE list \<Rightarrow> lock_thread \<Rightarrow> deadlock_error + EDGE list option \<times> lock_thread" where
  "check_procs MaxBackends s waitOrders [] softFound th = Inr (Some softFound, th)"
| "check_procs MaxBackends s waitOrders (p # ps) softFound th =
     (case FindLockCycle MaxBackends s waitOrders p th of
        Inl e \<Rightarrow> Inl e
      | Inr (None, th') \<Rightarrow> check_procs MaxBackends s waitOrders ps softFound th'
      | Inr (Some (edges, details), th') \<Rightarrow>
          if edges = [] then Inr (None, th') else check_procs MaxBackends s waitOrders ps edges th')"

text \<open>
  \<open>None\<close> is the answer -1; otherwise the soft edges found, none for the answer 0, with the orders tested. \<open>nPossible\<close> entries of \<open>possibleConstraints\<close>, which has
  room for \<open>4 * MaxBackends\<close>, are in use.
\<close>

definition TestConfiguration ::
  "nat \<Rightarrow> lock_space \<Rightarrow> procid \<Rightarrow> EDGE list \<Rightarrow> nat \<Rightarrow> lock_thread \<Rightarrow> deadlock_error + (EDGE list \<times> wait_orders) option \<times> lock_thread" where
  "TestConfiguration MaxBackends s startProc cur nPossible th =
     (if nPossible + MaxBackends > 4 * MaxBackends then Inr (None, th)
      else case ExpandConstraints s cur of
          None \<Rightarrow> Inr (None, th)
        | Some orders \<Rightarrow>
            (case check_procs MaxBackends s orders (concat (map (\<lambda>c. [waiter c, blocker c]) cur) @ [startProc]) [] th of
               Inl e \<Rightarrow> Inl e
             | Inr (None, th') \<Rightarrow> Inr (None, th')
             | Inr (Some edges, th') \<Rightarrow> Inr (Some (edges, orders), th')))"

text \<open>
  The loop of \<open>DeadLockCheckRecurse\<close> over the soft edges of the cycle found. Without room to save them they are computed again for each but the first;
  \<open>rec\<close> is the search with one more constraint. A solution is a list of wait orders.
\<close>

primrec try_edges ::
  "(lock_thread \<Rightarrow> deadlock_error + (EDGE list \<times> wait_orders) option \<times> lock_thread) \<Rightarrow>
   (EDGE \<Rightarrow> lock_thread \<Rightarrow> deadlock_error + wait_orders option \<times> lock_thread) \<Rightarrow>
   bool \<Rightarrow> EDGE list \<Rightarrow> nat list \<Rightarrow> lock_thread \<Rightarrow> deadlock_error + wait_orders option \<times> lock_thread" where
  "try_edges test rec saved edges [] th = Inr (None, th)"
| "try_edges test rec saved edges (i # is) th =
     (case (if \<not> saved \<and> i > 0 then
              (case test th of
                 Inl e \<Rightarrow> Inl e
               | Inr (r, th') \<Rightarrow>
                   (case r of
                      None \<Rightarrow> Inl INCONSISTENT_RESULTS
                    | Some (es, ws) \<Rightarrow> if length es \<noteq> length edges then Inl INCONSISTENT_RESULTS else Inr (es, th')))
            else Inr (edges, th)) of
        Inl e \<Rightarrow> Inl e
      | Inr (es, th1) \<Rightarrow>
          (case rec (es ! i) th1 of
             Inl e \<Rightarrow> Inl e
           | Inr (Some orders, th2) \<Rightarrow> Inr (Some orders, th2)
           | Inr (None, th2) \<Rightarrow> try_edges test rec saved edges is th2))"

text \<open>The first argument is the room left in \<open>curConstraints\<close>.\<close>

fun DeadLockCheckRecurse ::
  "nat \<Rightarrow> nat \<Rightarrow> lock_space \<Rightarrow> procid \<Rightarrow> EDGE list \<Rightarrow> nat \<Rightarrow> lock_thread \<Rightarrow> deadlock_error + wait_orders option \<times> lock_thread" where
  "DeadLockCheckRecurse room MaxBackends s p cur nPossible th =
     (case TestConfiguration MaxBackends s p cur nPossible th of
        Inl e \<Rightarrow> Inl e
      | Inr (None, th') \<Rightarrow> Inr (None, th')
      | Inr (Some (edges, orders), th') \<Rightarrow>
          if edges = [] then Inr (Some orders, th')
          else case room of
              0 \<Rightarrow> Inr (None, th')
            | Suc n \<Rightarrow>
                let saved = (nPossible + length edges + MaxBackends \<le> 4 * MaxBackends);
                    nPossible' = (if saved then nPossible + length edges else nPossible)
                in try_edges (TestConfiguration MaxBackends s p cur nPossible')
                     (\<lambda>e. DeadLockCheckRecurse n MaxBackends s p (cur @ [e]) nPossible') saved edges [0..<length edges] th')"

declare DeadLockCheckRecurse.simps [simp del]

datatype DeadLockState =
    DS_NOT_YET_CHECKED | DS_LOCK_TIMEOUT | DS_NO_DEADLOCK | DS_SOFT_DEADLOCK | DS_HARD_DEADLOCK
  | DS_BLOCKED_BY_AUTOVACUUM | DS_BLOCKED_BY_REDISTRIBUTION

definition rearrange :: "LOCKTAG \<times> procid list \<Rightarrow> lock_thread \<times> lock_space \<Rightarrow> lock_thread \<times> lock_space" where
  "rearrange order ts =
     (case order of (l, ps) \<Rightarrow> ProcLockWakeup l (fst ts, upd_lock l (\<lambda>k. k\<lparr>waitProcs := ps\<rparr>) (snd ts)))"

definition DeadLockCheck ::
  "nat \<Rightarrow> procid \<Rightarrow> lock_thread \<times> lock_space \<Rightarrow> deadlock_error + (DeadLockState \<times> DEADLOCK_INFO list) \<times> lock_thread \<times> lock_space" where
  "DeadLockCheck MaxBackends p ts =
     (case DeadLockCheckRecurse MaxBackends MaxBackends (snd ts) p [] 0 ((fst ts)\<lparr>blocking_autovacuum_proc := []\<rparr>) of
        Inl e \<Rightarrow> Inl e
      | Inr (None, th) \<Rightarrow>
          (case FindLockCycle MaxBackends (snd ts) [] p th of
             Inl e \<Rightarrow> Inl e
           | Inr (None, th') \<Rightarrow> Inl DEADLOCK_DISAPPEARED
           | Inr (Some (edges, details), th') \<Rightarrow> Inr ((DS_HARD_DEADLOCK, details), th', snd ts))
      | Inr (Some orders, th) \<Rightarrow>
          (case fold rearrange orders (th, snd ts) of
             (th', s') \<Rightarrow>
               if orders \<noteq> [] then Inr ((DS_SOFT_DEADLOCK, []), th', s')
               else if blocking_autovacuum_proc th' \<noteq> [] then Inr ((DS_BLOCKED_BY_AUTOVACUUM, []), th', s')
               else case blocking_redistribution_proc th' of
                   None \<Rightarrow> Inr ((DS_NO_DEADLOCK, []), th', s')
                 | Some r \<Rightarrow> if IsOtherProcRedistribution s' r then Inr ((DS_BLOCKED_BY_REDISTRIBUTION, []), th', s')
                             else Inr ((DS_NO_DEADLOCK, []), th'\<lparr>blocking_redistribution_proc := None\<rparr>, s')))"

text \<open>What a process does when the deadlock timeout fires while it waits. Errors of the search unwind.\<close>

definition CheckDeadLock ::
  "nat \<Rightarrow> lock_thread \<times> lock_space \<Rightarrow> deadlock_error + DeadLockState option \<times> lock_thread \<times> lock_space" where
  "CheckDeadLock MaxBackends ts =
     (if \<not> links (procs (snd ts) (me (fst ts))) then Inr (None, ts)
      else case DeadLockCheck MaxBackends (me (fst ts)) ts of
          Inl e \<Rightarrow> Inl e
        | Inr ((state, details), ts') \<Rightarrow>
            Inr (Some state, if state = DS_HARD_DEADLOCK then RemoveFromWaitQueue (me (fst ts)) ts' else ts'))"

definition GetBlockingAutoVacuumPgproc :: "lock_thread \<Rightarrow> procid option \<times> lock_thread" where
  "GetBlockingAutoVacuumPgproc th =
     (if blocking_autovacuum_proc th = [] then (None, th)
      else (Some (last (blocking_autovacuum_proc th)), th\<lparr>blocking_autovacuum_proc := butlast (blocking_autovacuum_proc th)\<rparr>))"

definition GetBlockingRedistributionPgproc :: "lock_thread \<Rightarrow> procid option \<times> lock_thread" where
  "GetBlockingRedistributionPgproc th = (blocking_redistribution_proc th, th\<lparr>blocking_redistribution_proc := None\<rparr>)"

definition RememberSimpleDeadLock :: "lock_space \<Rightarrow> procid \<Rightarrow> LOCKMODE \<Rightarrow> LOCKTAG \<Rightarrow> procid \<Rightarrow> DEADLOCK_INFO list" where
  "RememberSimpleDeadLock s proc1 lockmode l proc2 =
     [\<lparr>info_locktag = l, info_lockmode = lockmode, info_pid = pid (procs s proc1)\<rparr>,
      \<lparr>info_locktag = the (waitLock (procs s proc2)), info_lockmode = waitLockMode (procs s proc2), info_pid = pid (procs s proc2)\<rparr>]"

end
