(* ===== verification/Deadlock_Search.thy ===== *)
theory Deadlock_Search
  imports Deadlock_Check Lock_Invariants
begin

text \<open>
  The search for a deadlock is a depth-first search: it finds a cycle of the waits-for graph through the process it starts from
  exactly if there is one, and gives up the soft edges of the cycle.
\<close>

section \<open>Depth-first search for a cycle\<close>

text \<open>
  The search without locks and threads: \<open>outs\<close> has the arcs of a node in the order in which they are tried, and a cycle is the list of its arcs.
\<close>

primrec dfs_arcs ::
  "('n \<Rightarrow> 'n list \<Rightarrow> deadlock_error + 'a list option \<times> 'n list) \<Rightarrow> ('a \<Rightarrow> 'n) \<Rightarrow> 'a list \<Rightarrow> 'n list \<Rightarrow>
    deadlock_error + 'a list option \<times> 'n list" where
  "dfs_arcs f target [] v = Inr (None, v)"
| "dfs_arcs f target (a # as) v =
     (case f (target a) v of
        Inl e \<Rightarrow> Inl e
      | Inr (Some path, v') \<Rightarrow> Inr (Some (a # path), v')
      | Inr (None, v') \<Rightarrow> dfs_arcs f target as v')"

primrec dfs ::
  "nat \<Rightarrow> nat \<Rightarrow> ('n \<Rightarrow> 'a list) \<Rightarrow> ('a \<Rightarrow> 'n) \<Rightarrow> 'n \<Rightarrow> 'n list \<Rightarrow> deadlock_error + 'a list option \<times> 'n list" where
  "dfs 0 limit outs target x v = Inl STACK_DEPTH"
| "dfs (Suc n) limit outs target x v =
     (if x \<in> set v then Inr (if hd v = x then Some [] else None, v)
      else if length v \<ge> limit then Inl TOO_MANY_VISITED
      else dfs_arcs (dfs n limit outs target) target (outs x) (v @ [x]))"

fun chain :: "('n \<Rightarrow> 'a list) \<Rightarrow> ('a \<Rightarrow> 'n) \<Rightarrow> 'n \<Rightarrow> 'a list \<Rightarrow> 'n \<Rightarrow> bool" where
  "chain outs target x [] y \<longleftrightarrow> x = y"
| "chain outs target x (a # as) y \<longleftrightarrow> a \<in> set (outs x) \<and> chain outs target (target a) as y"

lemma dfs_arcs_append:
  "dfs_arcs f target (as @ bs) v =
     (case dfs_arcs f target as v of
        Inl e \<Rightarrow> Inl e | Inr (Some path, v') \<Rightarrow> Inr (Some path, v') | Inr (None, v') \<Rightarrow> dfs_arcs f target bs v')"
  by (induction as arbitrary: v) (simp_all split: sum.splits prod.splits option.splits)

text \<open>What a search may find from a node, once the first node visited is fixed.\<close>

definition found :: "('n \<Rightarrow> 'a list) \<Rightarrow> ('a \<Rightarrow> 'n) \<Rightarrow> 'n \<Rightarrow> 'n list \<Rightarrow> 'a list option \<times> 'n list \<Rightarrow> bool" where
  "found outs target x v r \<longleftrightarrow> hd (snd r) = hd v \<and> set v \<subseteq> set (snd r) \<and> snd r \<noteq> [] \<and>
     (case fst r of
        Some path \<Rightarrow> chain outs target x path (hd v)
      | None \<Rightarrow> x \<in> set (snd r) \<and> x \<noteq> hd v \<and>
          (\<forall>y \<in> set (snd r) - set v. \<forall>a \<in> set (outs y). target a \<in> set (snd r) \<and> target a \<noteq> hd v))"

lemma dfs_arcs_found:
  assumes f: "\<And>x v r. v \<noteq> [] \<Longrightarrow> f x v = Inr r \<Longrightarrow> found outs target x v r" and v: "v \<noteq> []" and run: "dfs_arcs f target as v = Inr r"
  shows "hd (snd r) = hd v \<and> set v \<subseteq> set (snd r) \<and> snd r \<noteq> [] \<and>
    (case fst r of
       Some path \<Rightarrow> (\<exists>a path'. path = a # path' \<and> a \<in> set as \<and> chain outs target (target a) path' (hd v))
     | None \<Rightarrow> (\<forall>a \<in> set as. target a \<in> set (snd r) \<and> target a \<noteq> hd v) \<and>
         (\<forall>y \<in> set (snd r) - set v. \<forall>a \<in> set (outs y). target a \<in> set (snd r) \<and> target a \<noteq> hd v))"
  using v run
proof (induction as arbitrary: v)
  case (Cons a as)
  show ?case
  proof (cases "f (target a) v")
    case (Inl e) then show ?thesis using Cons.prems(2) by simp
  next
    case (Inr r1)
    obtain c v' where r1: "r1 = (c, v')" by (cases r1)
    have fd: "found outs target (target a) v (c, v')" using f [OF Cons.prems(1) Inr] r1 by simp
    show ?thesis
    proof (cases c)
      case (Some path)
      then have "r = (Some (a # path), v')" using Cons.prems(2) Inr r1 by simp
      then show ?thesis using fd Some by (simp add: found_def)
    next
      case None
      then have "dfs_arcs f target as v' = Inr r" "v' \<noteq> []" using Cons.prems(2) Inr r1 fd by (simp_all add: found_def)
      note ih = Cons.IH [OF this(2,1)]
      have v': "hd v' = hd v" "set v \<subseteq> set v'" "target a \<in> set v'" "target a \<noteq> hd v"
        "\<And>y b. y \<in> set v' - set v \<Longrightarrow> b \<in> set (outs y) \<Longrightarrow> target b \<in> set v' \<and> target b \<noteq> hd v"
        using fd None by (auto simp: found_def)
      show ?thesis
      proof (cases "fst r")
        case None' : None
        have "target b \<in> set (snd r) \<and> target b \<noteq> hd v" if y: "y \<in> set (snd r) - set v" "b \<in> set (outs y)" for y b
        proof (cases "y \<in> set v'")
          case True then show ?thesis using v' y ih by blast
        next
          case False then show ?thesis using y ih None' v'(1) by (auto simp: split: option.splits)
        qed
        then show ?thesis using ih v' None' by auto
      next
        case Some' : (Some path)
        then show ?thesis using ih v' by auto
      qed
    qed
  qed
qed auto

lemma dfs_found: "v \<noteq> [] \<Longrightarrow> dfs n limit outs target x v = Inr r \<Longrightarrow> found outs target x v r"
proof (induction n arbitrary: x v r)
  case (Suc n)
  show ?case
  proof (cases "x \<in> set v")
    case True
    then show ?thesis using Suc.prems by (auto simp: found_def)
  next
    case False
    then have run: "dfs_arcs (dfs n limit outs target) target (outs x) (v @ [x]) = Inr r"
      using Suc.prems by (simp split: if_splits)
    have "v @ [x] \<noteq> []" by simp
    note res = dfs_arcs_found [where f = "dfs n limit outs target" and outs = outs, OF Suc.IH this run]
    have hd: "hd (v @ [x]) = hd v" "hd v \<in> set v" using Suc.prems(1) by simp_all
    show ?thesis
    proof (cases "fst r")
      case None
      note res' = res [unfolded None option.case hd(1)]
      have own: "\<forall>a \<in> set (outs x). target a \<in> set (snd r) \<and> target a \<noteq> hd v"
        and new: "\<forall>y \<in> set (snd r) - set (v @ [x]). \<forall>a \<in> set (outs y). target a \<in> set (snd r) \<and> target a \<noteq> hd v"
        and sub: "set (v @ [x]) \<subseteq> set (snd r)" "hd (snd r) = hd v" "snd r \<noteq> []"
        using res' by blast+
      have "\<forall>a \<in> set (outs y). target a \<in> set (snd r) \<and> target a \<noteq> hd v" if "y \<in> set (snd r) - set v" for y
        using own new that by (cases "y = x") (simp, force)
      moreover have "x \<noteq> hd v" using False hd(2) by metis
      ultimately show ?thesis unfolding found_def None option.case using sub by auto
    next
      case (Some path)
      note res' = res [unfolded Some option.case hd(1)]
      have "set (v @ [x]) \<subseteq> set (snd r)" "hd (snd r) = hd v" "snd r \<noteq> []" using res' by blast+
      moreover obtain a path' where "path = a # path'" "a \<in> set (outs x)" "chain outs target (target a) path' (hd v)"
        using res' by blast
      ultimately show ?thesis unfolding found_def Some option.case by simp
    qed
  qed
qed simp

definition arcs_rel :: "('n \<Rightarrow> 'a list) \<Rightarrow> ('a \<Rightarrow> 'n) \<Rightarrow> ('n \<times> 'n) set" where
  "arcs_rel outs target = {(x, target a) | x a. a \<in> set (outs x)}"

lemma chain_trancl: "chain outs target x (a # as) y \<Longrightarrow> (x, y) \<in> (arcs_rel outs target)\<^sup>+"
proof (induction as arbitrary: x a)
  case Nil then show ?case by (auto simp: arcs_rel_def)
next
  case (Cons b bs)
  then have "(x, target a) \<in> arcs_rel outs target" "(target a, y) \<in> (arcs_rel outs target)\<^sup>+" by (auto simp: arcs_rel_def)
  then show ?case by (rule trancl_into_trancl2)
qed

text \<open>From nothing visited, the search finds a cycle through its start exactly if there is one.\<close>

lemma dfs_cycle:
  assumes run: "dfs (Suc n) limit outs target x [] = Inr (c, v)"
  shows "(c \<noteq> None \<longleftrightarrow> (x, x) \<in> (arcs_rel outs target)\<^sup>+) \<and> (\<forall>path. c = Some path \<longrightarrow> path \<noteq> [] \<and> chain outs target x path x)"
proof -
  have run': "dfs_arcs (dfs n limit outs target) target (outs x) [x] = Inr (c, v)" using run by (simp split: if_splits)
  note res = dfs_arcs_found [where f = "dfs n limit outs target" and outs = outs, OF dfs_found [of _ n limit outs target] _ run', simplified]
  show ?thesis
  proof (cases c)
    case None
    have v: "x \<in> set v" "\<And>a. a \<in> set (outs x) \<Longrightarrow> target a \<in> set v \<and> target a \<noteq> x"
      "\<And>y a. y \<in> set v \<Longrightarrow> y \<noteq> x \<Longrightarrow> a \<in> set (outs y) \<Longrightarrow> target a \<in> set v \<and> target a \<noteq> x"
      using res None by auto
    have "y \<in> set v \<and> y \<noteq> x" if "(x, y) \<in> (arcs_rel outs target)\<^sup>+" for y
      using that by (induction rule: trancl_induct) (use v in \<open>auto simp: arcs_rel_def\<close>)
    then show ?thesis using None by auto
  next
    case (Some path)
    then obtain a path' where "path = a # path'" "a \<in> set (outs x)" "chain outs target (target a) path' x" using res by auto
    then show ?thesis using Some chain_trancl [of outs target x a path' x] by auto
  qed
qed

text \<open>In a graph with no more nodes than the limit the search ends without error.\<close>

lemma dfs_arcs_total:
  assumes f: "\<And>x v. x \<in> P \<Longrightarrow> set v \<subseteq> P \<Longrightarrow> distinct v \<Longrightarrow> limit < n + length v \<Longrightarrow>
      \<exists>c v'. f x v = Inr (c, v') \<and> set v' \<subseteq> P \<and> distinct v' \<and> length v \<le> length v'"
    and as: "\<And>a. a \<in> set as \<Longrightarrow> target a \<in> P" and v: "set v \<subseteq> P" "distinct v" "limit < n + length v"
  shows "\<exists>c v'. dfs_arcs f target as v = Inr (c, v') \<and> set v' \<subseteq> P \<and> distinct v' \<and> length v \<le> length v'"
  using as v
proof (induction as arbitrary: v)
  case (Cons a as)
  then obtain c v' where r: "f (target a) v = Inr (c, v')" "set v' \<subseteq> P" "distinct v'" "length v \<le> length v'"
    using f [of "target a" v] by auto
  show ?case
  proof (cases c)
    case (Some path) then show ?thesis using r by simp
  next
    case None
    have "\<exists>c v''. dfs_arcs f target as v' = Inr (c, v'') \<and> set v'' \<subseteq> P \<and> distinct v'' \<and> length v' \<le> length v''"
      by (rule Cons.IH) (use Cons.prems r in auto)
    then show ?thesis using r None by auto
  qed
qed auto

lemma dfs_total:
  assumes fin: "finite P" "card P \<le> limit" and closed: "\<And>x a. x \<in> P \<Longrightarrow> a \<in> set (outs x) \<Longrightarrow> target a \<in> P"
  shows "x \<in> P \<Longrightarrow> set v \<subseteq> P \<Longrightarrow> distinct v \<Longrightarrow> limit < n + length v \<Longrightarrow>
    \<exists>c v'. dfs n limit outs target x v = Inr (c, v') \<and> set v' \<subseteq> P \<and> distinct v' \<and> length v \<le> length v'"
proof (induction n arbitrary: x v)
  case 0
  then have "length v \<le> limit" using fin card_mono [of P "set v"] distinct_card [of v] by simp
  then show ?case using 0 by simp
next
  case (Suc n)
  show ?case
  proof (cases "x \<in> set v")
    case True then show ?thesis using Suc.prems by auto
  next
    case False
    have "card (insert x (set v)) \<le> card P" using Suc.prems fin(1) by (intro card_mono) auto
    then have len: "length v < limit" using False fin Suc.prems(3) by (simp add: distinct_card)
    have "\<exists>c v'. dfs_arcs (dfs n limit outs target) target (outs x) (v @ [x]) = Inr (c, v') \<and> set v' \<subseteq> P \<and> distinct v' \<and>
        length (v @ [x]) \<le> length v'"
      by (rule dfs_arcs_total [OF Suc.IH]) (use Suc.prems False closed in auto)
    then show ?thesis using len False by auto
  qed
qed

section \<open>The waits-for graph\<close>

text \<open>
  The nodes are lock groups, named by their leaders. An arc says that a member of a group waits for a process: one that holds a conflicting lock (hard), or one
  that is ahead in the queue with a conflicting request (soft). The order of a queue is the proposed one, if there is a proposal.
\<close>

record arc =
  arc_leader :: procid
  arc_proc :: procid
  arc_target :: procid
  arc_lock :: LOCKTAG
  arc_soft :: bool

definition hard_arcs :: "lock_space \<Rightarrow> procid \<Rightarrow> procid \<Rightarrow> LOCKTAG \<Rightarrow> PROCLOCK list \<Rightarrow> arc list" where
  "hard_arcs s m g l pls =
     map (\<lambda>pl. \<lparr>arc_leader = g, arc_proc = m, arc_target = myProc pl, arc_lock = l, arc_soft = False\<rparr>)
       (filter (\<lambda>pl. leader_of s (myProc pl) \<noteq> g \<and> hard_conflict (waitLockMode (procs s m)) pl) pls)"

definition soft_arcs ::
  "lock_space \<Rightarrow> procid \<Rightarrow> procid \<Rightarrow> LOCKTAG \<Rightarrow> (procid \<Rightarrow> bool) \<Rightarrow> (procid \<Rightarrow> bool) \<Rightarrow> procid list \<Rightarrow> arc list" where
  "soft_arcs s m g l stop mine ps =
     map (\<lambda>p. \<lparr>arc_leader = g, arc_proc = m, arc_target = p, arc_lock = l, arc_soft = True\<rparr>)
       (filter (\<lambda>p. LOCKBIT_ON (waitLockMode (procs s p)) AND conflictTab (waitLockMode (procs s m)) \<noteq> 0 \<and> \<not> mine p)
         (takeWhile (\<lambda>p. \<not> stop p) ps))"

definition queue_arcs :: "lock_space \<Rightarrow> wait_orders \<Rightarrow> procid \<Rightarrow> procid \<Rightarrow> arc list" where
  "queue_arcs s waitOrders m g =
     (let l = the (waitLock (procs s m)); k = lock_at s l in
      case List.find (\<lambda>o1. fst o1 = l) waitOrders of
        Some (l', order) \<Rightarrow> soft_arcs s m g l (\<lambda>p. leader_of s p = m) (\<lambda>p. False) order
      | None \<Rightarrow> soft_arcs s m g l (\<lambda>p. Some p = lastGroupMember s m g (waitProcs k)) (\<lambda>p. leader_of s p = g) (waitProcs k))"

definition member_arcs :: "lock_space \<Rightarrow> wait_orders \<Rightarrow> procid \<Rightarrow> procid \<Rightarrow> arc list" where
  "member_arcs s waitOrders m g =
     (let l = the (waitLock (procs s m)) in hard_arcs s m g l (procLocks (lock_at s l)) @ queue_arcs s waitOrders m g)"

definition wait_arcs :: "lock_space \<Rightarrow> wait_orders \<Rightarrow> procid \<Rightarrow> arc list" where
  "wait_arcs s waitOrders g = concat (map (\<lambda>m. member_arcs s waitOrders m g) (waiting_members s g))"

definition arc_node :: "lock_space \<Rightarrow> arc \<Rightarrow> procid" where
  "arc_node s a = leader_of s (arc_target a)"

definition waits_for :: "lock_space \<Rightarrow> wait_orders \<Rightarrow> (procid \<times> procid) set" where
  "waits_for s waitOrders = arcs_rel (wait_arcs s waitOrders) (arc_node s)"

text \<open>What the code reports of a cycle.\<close>

definition arc_edge :: "lock_space \<Rightarrow> arc \<Rightarrow> EDGE" where
  "arc_edge s a = \<lparr>waiter = arc_leader a, blocker = arc_node s a, awaited = arc_lock a\<rparr>"

definition cycle_report :: "lock_space \<Rightarrow> arc list \<Rightarrow> EDGE list \<times> DEADLOCK_INFO list" where
  "cycle_report s path = (rev (map (arc_edge s) (filter arc_soft path)), map (\<lambda>a. edge_info s (arc_proc a) (arc_lock a)) path)"

definition same_thread :: "lock_thread \<Rightarrow> lock_thread \<Rightarrow> bool" where
  "same_thread th th' \<longleftrightarrow> me th' = me th \<and> same_transaction th' = same_transaction th \<and> in_stream th' = in_stream th"

definition simulates ::
  "lock_space \<Rightarrow> lock_thread \<Rightarrow> search_result \<Rightarrow> deadlock_error + arc list option \<times> procid list \<Rightarrow> bool" where
  "simulates s th r r' =
     (case r of
        Inl e \<Rightarrow> r' = Inl e
      | Inr (c, (v, th')) \<Rightarrow> same_thread th th' \<and> (\<exists>path. r' = Inr (path, v) \<and> c = map_option (cycle_report s) path))"

lemma same_thread_refl [simp]: "same_thread th th"
  by (simp add: same_thread_def)

lemma same_thread_trans: "same_thread th th' \<Longrightarrow> same_thread th' th'' \<Longrightarrow> same_thread th th''"
  by (simp add: same_thread_def)

lemma remember_thread [simp]:
  "me (remember_autovacuum p th) = me th" "same_transaction (remember_autovacuum p th) = same_transaction th"
  "in_stream (remember_autovacuum p th) = in_stream th"
  by (simp_all add: remember_autovacuum_def)

lemma note_hard_thread: "same_thread th (note_hard_blocker s c p th)"
  by (simp add: note_hard_blocker_def same_thread_def)

lemma note_waiting_thread: "same_thread th (note_waiting_autovacuum s c g k th)"
proof -
  have "same_thread th (fold (\<lambda>p t. if P p then remember_autovacuum p t else t) ps th)" for P ps
    by (induction ps arbitrary: th) (auto simp: same_thread_def)
  then show ?thesis by (simp add: note_waiting_autovacuum_def)
qed

lemma simulates_trans: "same_thread th th' \<Longrightarrow> simulates s th' r r' \<Longrightarrow> simulates s th r r'"
  by (auto simp: simulates_def split: sum.splits intro: same_thread_trans)

lemma cycle_report_Cons:
  "cycle_report s (a # path) =
     (fst (cycle_report s path) @ (if arc_soft a then [arc_edge s a] else []), edge_info s (arc_proc a) (arc_lock a) # snd (cycle_report s path))"
  by (simp add: cycle_report_def)

lemma hard_scan_sim:
  assumes rec: "\<And>p v th. simulates s th (rec p (v, th)) (f (leader_of s p) v)"
  shows "simulates s th (hard_scan s rec m g l pls (v, th)) (dfs_arcs f (arc_node s) (hard_arcs s m g l pls) v)"
proof (induction pls arbitrary: v th)
  case (Cons pl pls)
  show ?case
  proof (cases "leader_of s (myProc pl) \<noteq> g \<and> hard_conflict (waitLockMode (procs s m)) pl")
    case True
    let ?a = "\<lparr>arc_leader = g, arc_proc = m, arc_target = myProc pl, arc_lock = l, arc_soft = False\<rparr>"
    have arcs: "hard_arcs s m g l (pl # pls) = ?a # hard_arcs s m g l pls" using True by (simp add: hard_arcs_def)
    have node: "arc_node s ?a = leader_of s (myProc pl)" by (simp add: arc_node_def)
    note sim = rec [where p = "myProc pl" and v = v and th = th]
    show ?thesis
    proof (cases "rec (myProc pl) (v, th)")
      case (Inl e) then show ?thesis using True sim by (simp add: arcs node simulates_def)
    next
      case (Inr r)
      obtain c v' th' where r: "r = (c, v', th')" by (cases r) auto
      then obtain path where p: "f (leader_of s (myProc pl)) v = Inr (path, v')" "c = map_option (cycle_report s) path" "same_thread th th'"
        using sim Inr by (auto simp: simulates_def)
      show ?thesis
      proof (cases path)
        case None
        then show ?thesis
          using True Inr r p simulates_trans [OF same_thread_trans [OF p(3) note_hard_thread] Cons.IH] by (simp add: arcs node)
      next
        case (Some path')
        then show ?thesis using True Inr r p by (simp add: arcs node simulates_def cycle_report_Cons split: prod.splits)
      qed
    qed
  next
    case False
    then have "hard_arcs s m g l (pl # pls) = hard_arcs s m g l pls" by (auto simp: hard_arcs_def)
    then show ?thesis using False Cons.IH by auto
  qed
qed (simp add: hard_arcs_def simulates_def)

lemma soft_scan_sim:
  assumes rec: "\<And>p v th. simulates s th (rec p (v, th)) (f (leader_of s p) v)"
  shows "simulates s th (soft_scan s rec m g l stop mine ps (v, th)) (dfs_arcs f (arc_node s) (soft_arcs s m g l stop mine ps) v)"
proof (induction ps arbitrary: v th)
  case (Cons p ps)
  show ?case
  proof (cases "stop p")
    case True then show ?thesis by (simp add: soft_arcs_def simulates_def)
  next
    case go: False
    show ?thesis
    proof (cases "LOCKBIT_ON (waitLockMode (procs s p)) AND conflictTab (waitLockMode (procs s m)) \<noteq> 0 \<and> \<not> mine p")
      case True
      let ?a = "\<lparr>arc_leader = g, arc_proc = m, arc_target = p, arc_lock = l, arc_soft = True\<rparr>"
      have arcs: "soft_arcs s m g l stop mine (p # ps) = ?a # soft_arcs s m g l stop mine ps" using True go by (simp add: soft_arcs_def)
      have node: "arc_node s ?a = leader_of s p" by (simp add: arc_node_def)
      note sim = rec [where p = p and v = v and th = th]
      show ?thesis
      proof (cases "rec p (v, th)")
        case (Inl e) then show ?thesis using True go sim by (simp add: arcs node simulates_def)
      next
        case (Inr r)
        obtain c v' th' where r: "r = (c, v', th')" by (cases r) auto
        then obtain path where q: "f (leader_of s p) v = Inr (path, v')" "c = map_option (cycle_report s) path" "same_thread th th'"
          using sim Inr by (auto simp: simulates_def)
        show ?thesis
        proof (cases path)
          case None
          then show ?thesis using True go Inr r q simulates_trans [OF q(3) Cons.IH] by (simp add: arcs node)
        next
          case (Some path')
          then show ?thesis
            using True go Inr r q by (simp add: arcs node simulates_def cycle_report_Cons arc_edge_def split: prod.splits)
        qed
      qed
    next
      case False
      then have "soft_arcs s m g l stop mine (p # ps) = soft_arcs s m g l stop mine ps" using go by (auto simp: soft_arcs_def)
      then show ?thesis using False go Cons.IH by auto
    qed
  qed
qed (simp add: soft_arcs_def simulates_def)

lemma simulates_seq:
  assumes r: "simulates s th r (dfs_arcs f (arc_node s) as v)"
    and cont: "\<And>v' th'. same_thread th th' \<Longrightarrow> simulates s th' (cont (v', th')) (dfs_arcs f (arc_node s) bs v')"
  shows "simulates s th
    (case r of Inl e \<Rightarrow> Inl e | Inr (Some c, w') \<Rightarrow> Inr (Some c, w') | Inr (None, w') \<Rightarrow> cont w') (dfs_arcs f (arc_node s) (as @ bs) v)"
proof (cases r)
  case (Inl e) then show ?thesis using r by (simp add: simulates_def dfs_arcs_append)
next
  case (Inr x)
  obtain c v' th' where x: "x = (c, v', th')" by (cases x) auto
  then obtain path where p: "dfs_arcs f (arc_node s) as v = Inr (path, v')" "c = map_option (cycle_report s) path" "same_thread th th'"
    using r Inr by (auto simp: simulates_def)
  show ?thesis
  proof (cases path)
    case None then show ?thesis using Inr x p simulates_trans [OF p(3) cont [OF p(3)]] by (simp add: dfs_arcs_append)
  next
    case (Some path') then show ?thesis using Inr x p by (simp add: dfs_arcs_append simulates_def)
  qed
qed

lemma member_sim:
  assumes rec: "\<And>p v th. simulates s th (rec p (v, th)) (f (leader_of s p) v)"
  shows "simulates s th (FindLockCycleRecurseMember s ws rec m g (v, th)) (dfs_arcs f (arc_node s) (member_arcs s ws m g) v)"
proof -
  let ?l = "the (waitLock (procs s m))"
  let ?k = "lock_at s ?l"
  let ?soft = "\<lambda>w. case List.find (\<lambda>o1. fst o1 = ?l) ws of
      Some (l', order) \<Rightarrow> soft_scan s rec m g ?l (\<lambda>p. leader_of s p = m) (\<lambda>p. False) order w
    | None \<Rightarrow> soft_scan s rec m g ?l (\<lambda>p. Some p = lastGroupMember s m g (waitProcs ?k)) (\<lambda>p. leader_of s p = g) (waitProcs ?k) w"
  have soft: "simulates s th (?soft (v, th)) (dfs_arcs f (arc_node s) (queue_arcs s ws m g) v)" for v th
    by (cases "List.find (\<lambda>o1. fst o1 = ?l) ws") (auto simp: queue_arcs_def Let_def intro: soft_scan_sim [where rec = rec and f = f, OF rec])
  have eq: "FindLockCycleRecurseMember s ws rec m g (v, th) =
    (case hard_scan s rec m g ?l (procLocks ?k) (v, th) of
       Inl e \<Rightarrow> Inl e | Inr (Some c, w') \<Rightarrow> Inr (Some c, w')
     | Inr (None, w') \<Rightarrow> (\<lambda>(v, th). ?soft (v, note_waiting_autovacuum s m g ?k th)) w')"
    by (simp add: FindLockCycleRecurseMember_def Let_def split: sum.splits prod.splits option.splits)
  show ?thesis
    unfolding eq member_arcs_def Let_def
    by (rule simulates_seq [OF hard_scan_sim [where rec = rec and f = f, OF rec]]) (simp add: simulates_trans [OF note_waiting_thread soft])
qed

lemma member_scan_sim:
  assumes F: "\<And>m v th. simulates s th (F m (v, th)) (dfs_arcs f (arc_node s) (A m) v)"
  shows "simulates s th (member_scan F ms (v, th)) (dfs_arcs f (arc_node s) (concat (map A ms)) v)"
proof (induction ms arbitrary: v th)
  case (Cons m ms)
  have "member_scan F (m # ms) (v, th) =
    (case F m (v, th) of Inl e \<Rightarrow> Inl e | Inr (Some c, w') \<Rightarrow> Inr (Some c, w') | Inr (None, w') \<Rightarrow> member_scan F ms w')"
    by simp
  then show ?case
    by (simp only: list.map concat.simps) (rule simulates_seq [OF F Cons.IH])
qed (simp add: simulates_def)

lemma FindLockCycleRecurse_sim:
  "simulates s th (FindLockCycleRecurse n mb s ws p (v, th)) (dfs n mb (wait_arcs s ws) (arc_node s) (leader_of s p) v)"
proof (induction n arbitrary: p v th)
  case 0 then show ?case by (simp add: simulates_def)
next
  case (Suc n)
  show ?case
  proof (cases "leader_of s p \<in> set v \<or> mb \<le> length v")
    case True
    then show ?thesis by (auto simp: simulates_def Let_def cycle_report_def)
  next
    case False
    let ?rec = "FindLockCycleRecurse n mb s ws" and ?g = "leader_of s p" and ?f = "dfs n mb (wait_arcs s ws) (arc_node s)"
    have arcs: "wait_arcs s ws ?g = concat (map (\<lambda>m. member_arcs s ws m ?g) (waiting_members s ?g))" by (simp add: wait_arcs_def)
    have "simulates s th (member_scan (\<lambda>m. FindLockCycleRecurseMember s ws ?rec m ?g) (waiting_members s ?g) (v @ [?g], th))
        (dfs_arcs ?f (arc_node s) (wait_arcs s ws ?g) (v @ [?g]))"
      unfolding arcs by (rule member_scan_sim) (rule member_sim [where f = ?f and s = s, OF Suc.IH])
    then show ?thesis using False by (simp add: Let_def)
  qed
qed

section \<open>What the search finds\<close>

lemma FindLockCycle_dfs:
  obtains (err) e where "dfs (mb + 1) mb (wait_arcs s ws) (arc_node s) (leader_of s p) [] = Inl e" "FindLockCycle mb s ws p th = Inl e"
  | (ok) path v th' where "dfs (mb + 1) mb (wait_arcs s ws) (arc_node s) (leader_of s p) [] = Inr (path, v)"
      "FindLockCycle mb s ws p th = Inr (map_option (cycle_report s) path, th')" "same_thread th th'"
  using FindLockCycleRecurse_sim [of s th "mb + 1" mb ws p "[]"]
  by (auto simp: simulates_def FindLockCycle_def split: sum.splits prod.splits)

definition wait_path :: "lock_space \<Rightarrow> wait_orders \<Rightarrow> procid \<Rightarrow> arc list \<Rightarrow> procid \<Rightarrow> bool" where
  "wait_path s ws = chain (wait_arcs s ws) (arc_node s)"

text \<open>A cycle is found exactly if there is one, and its report is that of a cycle of the graph.\<close>

lemma FindLockCycle_iff:
  assumes "FindLockCycle mb s ws p th = Inr (c, th')"
  shows "c \<noteq> None \<longleftrightarrow> (leader_of s p, leader_of s p) \<in> (waits_for s ws)\<^sup>+"
    and "same_thread th th'"
    and "c = Some r \<Longrightarrow> \<exists>path. path \<noteq> [] \<and> wait_path s ws (leader_of s p) path (leader_of s p) \<and> r = cycle_report s path"
proof -
  show "same_thread th th'" using assms by (cases rule: FindLockCycle_dfs [of mb s ws p th]) simp_all
  obtain path v where d: "dfs (mb + 1) mb (wait_arcs s ws) (arc_node s) (leader_of s p) [] = Inr (path, v)"
      "c = map_option (cycle_report s) path"
    using assms by (cases rule: FindLockCycle_dfs [of mb s ws p th]) simp_all
  note cyc = dfs_cycle [OF d(1) [unfolded add_0_right Suc_eq_plus1 [symmetric]]]
  show "c \<noteq> None \<longleftrightarrow> (leader_of s p, leader_of s p) \<in> (waits_for s ws)\<^sup>+"
    using cyc d(2) by (cases path) (auto simp: waits_for_def)
  show "\<exists>path. path \<noteq> [] \<and> wait_path s ws (leader_of s p) path (leader_of s p) \<and> r = cycle_report s path" if "c = Some r"
    using cyc d(2) that by (auto simp: wait_path_def)
qed

end
