(* ===== verification/Lock_Steps.thy ===== *)
theory Lock_Steps
  imports Lock_Release Deadlock_Search "HOL-Library.Multiset"
begin

text \<open>
  The lock manager as a transition system: processes request, release and give up locks, and run the deadlock check. What holds in
  every state that can be reached this way.
\<close>

section \<open>Reordering queues\<close>

lemma TopoSortScan_perm:
  "TopoSortScan s topo bs after placed = Some order \<Longrightarrow>
    mset order = mset (map the (filter (\<lambda>x. x \<noteq> None) topo)) + mset placed"
proof (induction s topo bs after placed rule: TopoSortScan.induct [case_names step])
  case (step s topo bs after placed)
  show ?case
  proof (cases "list_all (\<lambda>x. x = None) topo")
    case True
    then have "order = placed" using step.prems by (simp add: TopoSortScan.simps [of s topo])
    moreover have "filter (\<lambda>x. x \<noteq> None) topo = []" using True by (simp add: list_all_iff filter_empty_conv)
    ultimately show ?thesis by simp
  next
    case False
    show ?thesis
    proof (cases "topo_candidate topo bs")
      case None
      then show ?thesis using False step.prems by (simp add: TopoSortScan.simps [of s topo])
    next
      case (Some j)
      define g where "g = leader_of s (the (topo ! j))"
      let ?t = "map (\<lambda>x. if topo_group s g x then None else x) topo"
      have "TopoSortScan s topo bs after placed = TopoSortScan s ?t (fold (\<lambda>i b. b[i := b ! i - 1]) (after ! j) bs)
          after (rev (map the (filter (topo_group s g) topo)) @ placed)"
        using False Some by (subst TopoSortScan.simps) (simp add: Let_def g_def)
      then have "mset order = mset (map the (filter (\<lambda>x. x \<noteq> None) ?t)) + mset (rev (map the (filter (topo_group s g) topo)) @ placed)"
        using step.IH [OF False Some g_def] step.prems by simp
      moreover have "mset (map the (filter (\<lambda>x. x \<noteq> None) (map (\<lambda>x. if topo_group s g x then None else x) xs))) +
          mset (map the (filter (topo_group s g) xs)) = mset (map the (filter (\<lambda>x. x \<noteq> None) xs))" for xs
        by (induction xs) (auto simp: topo_group_def)
      ultimately show ?thesis by (simp add: add.assoc [symmetric])
    qed
  qed
qed

lemma TopoSort_perm: "TopoSort s l cs = Some order \<Longrightarrow> mset order = mset (waitProcs (lock_at s l))"
  by (auto simp: TopoSort_def Let_def comp_def dest!: TopoSortScan_perm split: prod.splits)

text \<open>The locks that the detector meets exist, and the orders it proposes have the processes of the queue.\<close>

definition edges_exist :: "lock_space \<Rightarrow> EDGE list \<Rightarrow> bool" where
  "edges_exist s es \<longleftrightarrow> (\<forall>e \<in> set es. locks s (awaited e) \<noteq> None)"

definition orders_perm :: "lock_space \<Rightarrow> wait_orders \<Rightarrow> bool" where
  "orders_perm s ws \<longleftrightarrow> distinct (map fst ws) \<and>
     (\<forall>(l, order) \<in> set ws. locks s l \<noteq> None \<and> mset order = mset (waitProcs (lock_at s l)))"

lemma is_waiting_lock:
  assumes ok: "locks_ok s" and w: "is_waiting s m"
  obtains l k where "waitLock (procs s m) = Some l" "locks s l = Some k" "m \<in> set (waitProcs k)"
proof -
  obtain l k where k: "locks s l = Some k" "m \<in> set (waitProcs k)" using ok w by (auto simp: locks_ok_def links_ok_def is_waiting_def)
  then have "waiter_ok s l k m" using ok by (auto simp: locks_ok_def lock_ok_def)
  then show thesis using that k by (simp add: waiter_ok_def)
qed

lemma wait_arcs_lock:
  assumes ok: "locks_ok s" and a: "a \<in> set (wait_arcs s ws g)"
  shows "locks s (arc_lock a) \<noteq> None"
proof -
  obtain m where m: "m \<in> set (waiting_members s g)" "a \<in> set (member_arcs s ws m g)" using a by (auto simp: wait_arcs_def)
  then have "arc_lock a = the (waitLock (procs s m))"
    by (auto simp: member_arcs_def queue_arcs_def hard_arcs_def soft_arcs_def Let_def split: option.splits)
  moreover have "is_waiting s m" using m(1) by (auto simp: waiting_members_def split: if_splits)
  then obtain l k where "waitLock (procs s m) = Some l" "locks s l = Some k" using is_waiting_lock [OF ok] by metis
  ultimately show ?thesis by simp
qed

lemma chain_arcs: "chain outs target x path y \<Longrightarrow> a \<in> set path \<Longrightarrow> \<exists>z. a \<in> set (outs z)"
  by (induction outs target x path y rule: chain.induct) auto

lemma FindLockCycle_edges_exist:
  assumes "locks_ok s" "FindLockCycle mb s ws p th = Inr (Some (edges, details), th')"
  shows "edges_exist s edges"
proof -
  obtain path where p: "wait_path s ws (leader_of s p) path (leader_of s p)" "(edges, details) = cycle_report s path"
    using FindLockCycle_iff(3) [OF assms(2) refl] by blast
  have "locks s (arc_lock a) \<noteq> None" if a: "a \<in> set path" for a
    using chain_arcs [OF p(1) [unfolded wait_path_def] a] wait_arcs_lock [OF assms(1)] by blast
  then show ?thesis using p(2) by (auto simp: edges_exist_def cycle_report_def arc_edge_def)
qed

lemma check_procs_edges:
  assumes find: "\<And>p th edges details th'. FindLockCycle mb s ws p th = Inr (Some (edges, details), th') \<Longrightarrow> Q edges"
  shows "check_procs mb s ws ps es th = Inr (Some es', th') \<Longrightarrow> Q es \<Longrightarrow> Q es'"
proof (induction ps arbitrary: es th)
  case (Cons p ps)
  then show ?case using find by (auto split: sum.splits prod.splits option.splits if_splits)
qed simp

lemma expand_scan_perm:
  "expand_scan s cs ws = Some ws' \<Longrightarrow> orders_perm s ws \<Longrightarrow> edges_exist s cs \<Longrightarrow> orders_perm s ws'"
  by (induction s cs ws rule: expand_scan.induct)
    (auto simp: orders_perm_def edges_exist_def TopoSort_perm split: if_splits option.splits)

lemma ExpandConstraints_perm: "ExpandConstraints s cs = Some ws \<Longrightarrow> edges_exist s cs \<Longrightarrow> orders_perm s ws"
  unfolding ExpandConstraints_def by (erule expand_scan_perm) (auto simp: orders_perm_def edges_exist_def)

lemma TestConfiguration_perm:
  assumes ok: "locks_ok s" and run: "TestConfiguration mb s p cur n th = Inr (Some (edges, ws), th')" and cur: "edges_exist s cur"
  shows "orders_perm s ws \<and> edges_exist s edges"
proof -
  have "ExpandConstraints s cur = Some ws"
    and c: "check_procs mb s ws (concat (map (\<lambda>c. [waiter c, blocker c]) cur) @ [p]) [] th = Inr (Some edges, th')"
    using run by (auto simp: TestConfiguration_def split: sum.splits prod.splits option.splits if_splits)
  then show ?thesis
    using ExpandConstraints_perm [OF _ cur] check_procs_edges [where Q = "edges_exist s", OF FindLockCycle_edges_exist [OF ok] c] by (simp add: edges_exist_def)
qed

lemma try_edges_orders:
  assumes "try_edges test rec saved edges is th = Inr (Some ws, th')"
    and test: "\<And>th es ws' th'. test th = Inr (Some (es, ws'), th') \<Longrightarrow> Q es" and "Q edges"
    and rec: "\<And>es e i th ws th'. Q es \<Longrightarrow> length es = length edges \<Longrightarrow> i \<in> set is \<Longrightarrow> rec (es ! i) th = Inr (Some ws, th') \<Longrightarrow> P ws"
  shows "P ws"
  using assms(1) rec
proof (induction "is" arbitrary: th)
  case (Cons i "is")
  let ?es = "if \<not> saved \<and> i > 0 then
      (case test th of Inl e \<Rightarrow> Inl e | Inr (r, th') \<Rightarrow>
         (case r of None \<Rightarrow> Inl INCONSISTENT_RESULTS
          | Some (es, ws) \<Rightarrow> if length es \<noteq> length edges then Inl INCONSISTENT_RESULTS else Inr (es, th')))
    else Inr (edges, th)"
  obtain es th1 where es: "?es = Inr (es, th1)" using Cons.prems(1) by (cases ?es) auto
  then have q: "Q es \<and> length es = length edges"
    using test assms(3) by (auto split: if_splits sum.splits prod.splits option.splits)
  show ?case
  proof (cases "rec (es ! i) th1")
    case (Inl e) then show ?thesis using Cons.prems(1) es by simp
  next
    case (Inr r)
    obtain c th2 where r: "r = (c, th2)" by (cases r)
    show ?thesis
    proof (cases c)
      case (Some ws2)
      then have "ws2 = ws" using Cons.prems(1) es Inr r by simp
      then show ?thesis using Cons.prems(2) [of es i th1 ws th2] q Inr r Some by simp
    next
      case None
      then have "try_edges test rec saved edges is th2 = Inr (Some ws, th')" using Cons.prems(1) es Inr r by simp
      then show ?thesis using Cons.IH [of th2] Cons.prems(2) by (metis list.set_intros(2))
    qed
  qed
qed simp

text \<open>A solution of the search has passed a test, under constraints that came from the soft edges of cycles.\<close>

lemma DeadLockCheckRecurse_tested:
  assumes test: "\<And>cur n th es ws th'. TestConfiguration mb s p cur n th = Inr (Some (es, ws), th') \<Longrightarrow> list_all Q cur \<Longrightarrow> list_all Q es"
  shows "DeadLockCheckRecurse room mb s p cur n th = Inr (Some ws, th') \<Longrightarrow> list_all Q cur \<Longrightarrow>
    \<exists>cur n th th'. list_all Q cur \<and> TestConfiguration mb s p cur n th = Inr (Some ([], ws), th')"
proof (induction room arbitrary: cur n th ws th')
  case 0
  then show ?case by (subst (asm) DeadLockCheckRecurse.simps) (auto split: sum.splits prod.splits option.splits if_splits)
next
  case (Suc room)
  show ?case
  proof (cases "\<exists>th1. TestConfiguration mb s p cur n th = Inr (Some ([], ws), th1)")
    case True then show ?thesis using Suc.prems(2) by blast
  next
    case False
    then obtain edges orders th1 where tc: "TestConfiguration mb s p cur n th = Inr (Some (edges, orders), th1)" "edges \<noteq> []"
      using Suc.prems(1) by (subst (asm) DeadLockCheckRecurse.simps) (auto split: sum.splits prod.splits option.splits if_splits)
    obtain saved n' where t: "try_edges (TestConfiguration mb s p cur n') (\<lambda>e. DeadLockCheckRecurse room mb s p (cur @ [e]) n') saved edges
        [0..<length edges] th1 = Inr (Some ws, th')"
      using Suc.prems(1) tc by (subst (asm) DeadLockCheckRecurse.simps) (auto simp: Let_def)
    show ?thesis
    proof (rule try_edges_orders [OF t, where Q = "list_all Q"])
      show "list_all Q es" if "TestConfiguration mb s p cur n' th = Inr (Some (es, ws'), th')" for th es ws' th'
        by (rule test [OF that Suc.prems(2)])
      show "list_all Q edges" by (rule test [OF tc(1) Suc.prems(2)])
      show "\<exists>cur n th th'. list_all Q cur \<and> TestConfiguration mb s p cur n th = Inr (Some ([], ws), th')"
        if es: "list_all Q es" "length es = length edges" "i \<in> set [0..<length edges]"
        and run: "DeadLockCheckRecurse room mb s p (cur @ [es ! i]) n' th = Inr (Some ws, th')" for es i th ws th'
        by (rule Suc.IH [OF run]) (use es Suc.prems(2) in \<open>auto simp: list_all_iff\<close>)
    qed
  qed
qed

lemma edges_exist_all: "edges_exist s = list_all (\<lambda>e. locks s (awaited e) \<noteq> None)"
  by (simp add: edges_exist_def list_all_iff fun_eq_iff)

lemma DeadLockCheckRecurse_perm:
  assumes ok: "locks_ok s" and run: "DeadLockCheckRecurse room mb s p cur n th = Inr (Some ws, th')" and cur: "edges_exist s cur"
  shows "orders_perm s ws"
proof -
  have "\<exists>cur n th th'. edges_exist s cur \<and> TestConfiguration mb s p cur n th = Inr (Some ([], ws), th')"
    unfolding edges_exist_all
    by (rule DeadLockCheckRecurse_tested [OF _ run]) (use TestConfiguration_perm [OF ok] cur in \<open>auto simp: edges_exist_all\<close>)
  then show ?thesis using TestConfiguration_perm [OF ok] by blast
qed

section \<open>The deadlock check keeps the invariant\<close>

lemma counts_ok_queue:
  assumes c: "counts_ok ps pend k" and m: "mset order = mset (waitProcs k)"
  shows "counts_ok ps pend (k\<lparr>waitProcs := order\<rparr>)"
proof -
  have "length (filter P order) = length (filter P (waitProcs k))" for P using m by (metis mset_filter size_mset)
  then have "waiters ps (k\<lparr>waitProcs := order\<rparr>) i = waiters ps k i" "holders (k\<lparr>waitProcs := order\<rparr>) i = holders k i" for i
    by (simp_all add: waiters_def holders_def)
  then show ?thesis using c by (simp add: counts_ok_def)
qed

lemma at_lock_reorder:
  assumes a: "at_lock s l None None k" and m: "mset order = mset (waitProcs k)"
  shows "at_lock (upd_lock l (\<lambda>k. k\<lparr>waitProcs := order\<rparr>) s) l None None (k\<lparr>waitProcs := order\<rparr>)"
proof -
  let ?s = "upd_lock l (\<lambda>k. k\<lparr>waitProcs := order\<rparr>) s" and ?k = "k\<lparr>waitProcs := order\<rparr>"
  have same: "set order = set (waitProcs k)" using m by (metis set_mset_mset)
  have d: "distinct order" using m at_lock_distinct [OF a] by (metis mset_eq_imp_distinct_iff)
  have ok: "lock_ok s l None None k" and there: "locks s l = Some k" using a by (auto simp: at_lock_def)
  have cong: "lock_ok ?s l' pd sp k' \<longleftrightarrow> lock_ok s l' pd sp k'" for l' pd sp k' by (rule lock_ok_cong) (simp_all add: leader_of_def)
  have "counts_ok (procs s) None ?k" using ok m by (auto simp: lock_ok_def intro: counts_ok_queue)
  then have "lock_ok s l None None ?k"
    using ok d same by (simp add: lock_ok_def pend_ok_def proclock_ok_def waiter_ok_def)
  moreover have "links_ok ?s"
    unfolding links_ok_def
  proof (intro allI impI)
    fix p assume "links (procs ?s p) \<or> waitStatus (procs ?s p) = STATUS_WAITING"
    then obtain l' k' where "locks s l' = Some k'" "p \<in> set (waitProcs k')" using a by (auto simp: at_lock_def links_ok_def)
    then show "\<exists>l k. locks ?s l = Some k \<and> p \<in> set (waitProcs k)"
      using there same by (cases "l' = l") (auto intro!: exI [of _ l'])
  qed
  ultimately show ?thesis using a there by (simp add: at_lock_def cong)
qed

lemma rearrange_ok:
  assumes t: "table_ok sib s" and th: "thread_ok sib th" and k: "locks s l = Some k" and m: "mset order = mset (waitProcs k)"
  obtains th' s' where "rearrange (l, order) (th, s) = (th', s')" "table_ok sib s'" "thread_ok sib th'" "\<And>l'. l' \<noteq> l \<Longrightarrow> locks s' l' = locks s l'"
proof -
  note a = table_ok_at [OF t k]
  let ?s = "upd_lock l (\<lambda>k. k\<lparr>waitProcs := order\<rparr>) s"
  note a' = at_lock_reorder [OF a(1) m]
  obtain th' s' where r: "ProcLockWakeup l (th, ?s) = (th', s')" "table_ok sib s'" "thread_ok sib th'"
    by (rule ProcLockWakeup_ok [OF a' _ th]) (use a in \<open>auto simp: conflict_free_def\<close>)
  obtain k' where "wakes_only l ?s (k\<lparr>waitProcs := order\<rparr>) (snd (ProcLockWakeup l (th, ?s))) k'"
    by (rule ProcLockWakeup_wakes_only [OF a'])
  then have "locks s' l' = locks s l'" if "l' \<noteq> l" for l' using r(1) that by (simp add: wakes_only_def)
  then show thesis using that [OF _ r(2,3)] r(1) by (simp add: rearrange_def)
qed

lemma rearrange_all_ok:
  assumes "table_ok sib s" "thread_ok sib th" "orders_perm s ws"
  obtains th' s' where "fold rearrange ws (th, s) = (th', s')" "table_ok sib s'" "thread_ok sib th'"
proof -
  have "table_ok sib (snd (fold rearrange ws (th, s))) \<and> thread_ok sib (fst (fold rearrange ws (th, s)))"
    using assms
  proof (induction ws arbitrary: th s)
    case (Cons w ws)
    obtain l order where w: "w = (l, order)" by (cases w)
    obtain k where k: "locks s l = Some k" "mset order = mset (waitProcs k)"
      using Cons.prems(3) w by (auto simp: orders_perm_def lock_at_def)
    obtain th' s' where r: "rearrange (l, order) (th, s) = (th', s')" "table_ok sib s'" "thread_ok sib th'"
        "\<And>l'. l' \<noteq> l \<Longrightarrow> locks s' l' = locks s l'"
      by (rule rearrange_ok [OF Cons.prems(1,2) k]) blast
    have "locks s' (fst x) = locks s (fst x)" if "x \<in> set ws" for x
      by (rule r(4)) (use that Cons.prems(3) w in \<open>auto simp: orders_perm_def\<close>)
    then have "orders_perm s' ws" using Cons.prems(3) by (fastforce simp: orders_perm_def lock_at_def)
    then show ?case using Cons.IH [OF r(2,3)] r(1) w by simp
  qed simp
  then show thesis using that [of "fst (fold rearrange ws (th, s))" "snd (fold rearrange ws (th, s))"] by simp
qed

text \<open>The search leaves what matters of the thread.\<close>

lemma check_procs_thread: "check_procs mb s ws ps es th = Inr (r, th') \<Longrightarrow> same_thread th th'"
proof (induction ps arbitrary: es th)
  case (Cons p ps)
  obtain c th1 where f: "FindLockCycle mb s ws p th = Inr (c, th1)" using Cons.prems by (auto split: sum.splits)
  note st = FindLockCycle_iff(2) [OF f]
  show ?case
  proof (cases c)
    case None then show ?thesis using Cons f same_thread_trans [OF st] by simp
  next
    case (Some x)
    then show ?thesis using Cons f st same_thread_trans [OF st] by (cases x) (auto split: if_splits)
  qed
qed simp

lemma TestConfiguration_thread: "TestConfiguration mb s p cur n th = Inr (r, th') \<Longrightarrow> same_thread th th'"
  by (auto simp: TestConfiguration_def split: if_splits sum.splits option.splits prod.splits dest: check_procs_thread)

lemma try_edges_thread:
  assumes "try_edges test rec saved edges is th = Inr (r, th')"
    and test: "\<And>th r th'. test th = Inr (r, th') \<Longrightarrow> same_thread th th'" and rec: "\<And>e th r th'. rec e th = Inr (r, th') \<Longrightarrow> same_thread th th'"
  shows "same_thread th th'"
  using assms(1)
proof (induction "is" arbitrary: th)
  case (Cons i "is")
  let ?es = "if \<not> saved \<and> i > 0 then
      (case test th of Inl e \<Rightarrow> Inl e | Inr (r, th') \<Rightarrow>
         (case r of None \<Rightarrow> Inl INCONSISTENT_RESULTS
          | Some (es, ws) \<Rightarrow> if length es \<noteq> length edges then Inl INCONSISTENT_RESULTS else Inr (es, th')))
    else Inr (edges, th)"
  obtain es th1 where es: "?es = Inr (es, th1)" using Cons.prems(1) by (cases ?es) auto
  then have st: "same_thread th th1" using test by (auto split: if_splits sum.splits prod.splits option.splits)
  obtain c th2 where r: "rec (es ! i) th1 = Inr (c, th2)" using Cons.prems es by (cases "rec (es ! i) th1") auto
  have st2: "same_thread th th2" using same_thread_trans [OF st rec [OF r]] .
  show ?case
  proof (cases c)
    case None
    then have "try_edges test rec saved edges is th2 = Inr (r, th')" using Cons.prems(1) es r by simp
    from same_thread_trans [OF st2 Cons.IH [OF this]] show ?thesis .
  next
    case (Some x) then show ?thesis using Cons.prems(1) es r st2 by simp
  qed
qed simp

lemma DeadLockCheckRecurse_thread:
  "DeadLockCheckRecurse room mb s p cur n th = Inr (r, th') \<Longrightarrow> same_thread th th'"
proof (induction room arbitrary: cur n th r th')
  case 0
  then show ?case
    by (subst (asm) DeadLockCheckRecurse.simps) (auto split: sum.splits prod.splits option.splits if_splits dest: TestConfiguration_thread)
next
  case (Suc room)
  obtain x th1 where tc: "TestConfiguration mb s p cur n th = Inr (x, th1)"
    using Suc.prems by (subst (asm) DeadLockCheckRecurse.simps) (auto split: sum.splits)
  note st = TestConfiguration_thread [OF tc]
  show ?case
  proof (cases "x = None \<or> (\<exists>ws. x = Some ([], ws))")
    case True
    then show ?thesis using Suc.prems tc st by (subst (asm) DeadLockCheckRecurse.simps) auto
  next
    case False
    then obtain edges ws where x: "x = Some (edges, ws)" "edges \<noteq> []" by (cases x) auto
    obtain saved n' where t: "try_edges (TestConfiguration mb s p cur n') (\<lambda>e. DeadLockCheckRecurse room mb s p (cur @ [e]) n') saved edges
        [0..<length edges] th1 = Inr (r, th')"
      using Suc.prems tc x by (subst (asm) DeadLockCheckRecurse.simps) (auto simp: Let_def)
    have "same_thread th1 th'" by (rule try_edges_thread [OF t TestConfiguration_thread Suc.IH])
    then show ?thesis by (rule same_thread_trans [OF st])
  qed
qed

lemma thread_ok_same: "same_thread th th' \<Longrightarrow> thread_ok sib th' \<longleftrightarrow> thread_ok sib th"
  by (simp add: same_thread_def thread_ok_def)

lemma DeadLockCheck_ok:
  assumes t: "table_ok sib s" and th: "thread_ok sib th" and run: "DeadLockCheck mb p (th, s) = Inr ((state, details), th', s')"
  shows "table_ok sib s' \<and> thread_ok sib th' \<and> (state = DS_HARD_DEADLOCK \<longrightarrow> s' = s)"
proof -
  let ?th = "th\<lparr>blocking_autovacuum_proc := []\<rparr>"
  have "same_thread th ?th" by (simp add: same_thread_def)
  then have th0: "thread_ok sib ?th" using th by (simp add: thread_ok_same)
  obtain r th1 where r: "DeadLockCheckRecurse mb mb s p [] 0 ?th = Inr (r, th1)"
    using run by (auto simp: DeadLockCheck_def split: sum.splits)
  have th1: "thread_ok sib th1" using DeadLockCheckRecurse_thread [OF r] th0 by (simp add: thread_ok_same)
  show ?thesis
  proof (cases r)
    case None
    then obtain c th2 where f: "FindLockCycle mb s [] p th1 = Inr (Some c, th2)" "s' = s" "th' = th2"
      using run r by (cases "FindLockCycle mb s [] p th1") (auto simp: DeadLockCheck_def split: option.splits prod.splits)
    then show ?thesis using FindLockCycle_iff(2) [OF f(1)] t th1 by (simp add: thread_ok_same)
  next
    case (Some orders)
    have "orders_perm s orders"
      using DeadLockCheckRecurse_perm [OF _ r [unfolded Some]] t by (simp add: edges_exist_def table_ok_def)
    then obtain th2 s2 where f: "fold rearrange orders (th1, s) = (th2, s2)" "table_ok sib s2" "thread_ok sib th2"
      by (rule rearrange_all_ok [OF t th1])
    have "s' = s2 \<and> (th' = th2 \<or> th' = th2\<lparr>blocking_redistribution_proc := None\<rparr>) \<and> state \<noteq> DS_HARD_DEADLOCK"
      using run r Some f(1) by (auto simp: DeadLockCheck_def split: if_splits option.splits)
    moreover have "thread_ok sib (th2\<lparr>blocking_redistribution_proc := None\<rparr>) \<longleftrightarrow> thread_ok sib th2" by (simp add: thread_ok_def)
    ultimately show ?thesis using f by auto
  qed
qed

lemma CheckDeadLock_ok:
  assumes t: "table_ok sib s" and th: "thread_ok sib th" and run: "CheckDeadLock mb (th, s) = Inr (state, th', s')"
  shows "table_ok sib s' \<and> thread_ok sib th'"
proof (cases "links (procs s (me th))")
  case False then show ?thesis using run t th by (simp add: CheckDeadLock_def)
next
  case True
  obtain st details th1 s1 where d1: "DeadLockCheck mb (me th) (th, s) = Inr ((st, details), th1, s1)"
    using run True by (cases "DeadLockCheck mb (me th) (th, s)") (auto simp: CheckDeadLock_def)
  have d2: "(th', s') = (if st = DS_HARD_DEADLOCK then RemoveFromWaitQueue (me th) (th1, s1) else (th1, s1))"
    using run True d1 by (simp add: CheckDeadLock_def split: if_splits)
  note d = d1 d2
  note ok = DeadLockCheck_ok [OF t th d(1)]
  show ?thesis
  proof (cases "st = DS_HARD_DEADLOCK")
    case False then show ?thesis using d(2) ok by simp
  next
    case hard: True
    obtain th2 s2 where "RemoveFromWaitQueue (me th) (th1, s) = (th2, s2)" "table_ok sib s2" "thread_ok sib th2"
      by (rule RemoveFromWaitQueue_ok [OF t True]) (use ok in auto)
    then show ?thesis using d(2) ok hard by simp
  qed
qed

section \<open>Joining a lock group\<close>

text \<open>A change of groups that leaves the leaders of those who have locks or wait for one.\<close>

lemma table_ok_groups:
  assumes t: "table_ok sib s" and same: "locks s' = locks s" and g: "groups_ok s'"
    and p: "\<And>q. links (procs s' q) = links (procs s q)" "\<And>q. waitLock (procs s' q) = waitLock (procs s q)"
      "\<And>q. waitProcLock (procs s' q) = waitProcLock (procs s q)" "\<And>q. waitLockMode (procs s' q) = waitLockMode (procs s q)"
      "\<And>q. heldLocks (procs s' q) = heldLocks (procs s q)" "\<And>q. waitStatus (procs s' q) = waitStatus (procs s q)"
    and lead: "\<And>l k pl. locks s l = Some k \<Longrightarrow> pl \<in> set (procLocks k) \<Longrightarrow> leader_of s' (myProc pl) = leader_of s (myProc pl)"
  shows "table_ok sib s'"
proof -
  have ok: "lock_ok s' l None None k" if k: "locks s l = Some k" for l k
  proof -
    have "lock_ok s l None None k" using t k by (simp add: table_ok_def locks_ok_def)
    moreover have "waiters (procs s') k i = waiters (procs s) k i" for i by (simp add: waiters_def p)
    ultimately show ?thesis using lead [OF k] by (simp add: lock_ok_def counts_ok_def pend_ok_def waiter_ok_def proclock_ok_def p)
  qed
  have up: "no_lost_wakeup s' k" if k: "locks s l = Some k" for l k
  proof -
    have "leader_of s' q = leader_of s q" if "q \<in> set (waitProcs k)" for q
      using at_lock_waiter_pl [OF table_ok_at(1) [OF t k] that] lead [OF k] by metis
    then show ?thesis using table_ok_at(5) [OF t k] by (simp add: no_lost_wakeup_def held_up_def p)
  qed
  have "links_ok s'" using t by (simp add: table_ok_def locks_ok_def links_ok_def p same)
  then show ?thesis using t ok up g unfolding table_ok_def locks_ok_def same by blast
qed

lemma BecomeLockGroupLeader_ok:
  assumes t: "table_ok sib s" and p: "lockGroupLeader (procs s p) = None \<or> lockGroupLeader (procs s p) = Some p"
  shows "table_ok sib (BecomeLockGroupLeader p s)"
proof (cases "lockGroupLeader (procs s p) = Some p")
  case True then show ?thesis using t by (simp add: BecomeLockGroupLeader_def)
next
  case False
  then have b: "BecomeLockGroupLeader p s = upd_proc p (\<lambda>q. q\<lparr>lockGroupLeader := Some p, lockGroupMembers := p # lockGroupMembers q\<rparr>) s"
    by (simp add: BecomeLockGroupLeader_def)
  have g: "lockGroupLeader (procs s q) = Some g \<Longrightarrow> lockGroupLeader (procs s g) = Some g" for q g using t by (auto simp: table_ok_def groups_ok_def)
  have lead: "leader_of (BecomeLockGroupLeader p s) q = leader_of s q" for q
    using False p by (cases "q = p") (simp_all add: b leader_of_def)
  have "groups_ok (BecomeLockGroupLeader p s)" unfolding b groups_ok_def using g by auto
  then show ?thesis by (rule table_ok_groups [OF t, rotated]) (simp_all add: lead, simp_all add: b)
qed

lemma BecomeLockGroupMember_ok:
  assumes t: "table_ok sib s" and p: "lockGroupLeader (procs s p) = None" and g: "lockGroupLeader (procs s g) = Some g"
    and none: "\<And>l k. locks s l = Some k \<Longrightarrow> p \<notin> myProc ` set (procLocks k)"
  shows "table_ok sib (BecomeLockGroupMember g p s)"
proof -
  have gs: "lockGroupLeader (procs s q) = Some g' \<Longrightarrow> lockGroupLeader (procs s g') = Some g'" for q g'
    using t by (auto simp: table_ok_def groups_ok_def)
  then have "groups_ok (BecomeLockGroupMember g p s)" using p g unfolding groups_ok_def BecomeLockGroupMember_def by auto
  moreover have "leader_of (BecomeLockGroupMember g p s) (myProc pl) = leader_of s (myProc pl)"
    if "locks s l = Some k" "pl \<in> set (procLocks k)" for l k pl
    using none [OF that(1)] that(2) by (auto simp: BecomeLockGroupMember_def leader_of_def)
  ultimately show ?thesis by (intro table_ok_groups [OF t]) (simp_all add: BecomeLockGroupMember_def)
qed

section \<open>The lock manager as a transition system\<close>

text \<open>
  A step is one operation of a process, done under the partition locks. A process that waits does nothing but run the deadlock check or give up
  (after an error or a timeout). It asks for modes it does not hold yet: requests for others are counted in the thread's own table.
  The threads are not part of the state: \<open>sib\<close> says which processes are threads of one stream query.
\<close>

inductive lock_step :: "(procid \<Rightarrow> procid \<Rightarrow> bool) \<Rightarrow> nat \<Rightarrow> lock_space \<Rightarrow> lock_space \<Rightarrow> bool" for sib mb where
  acquire: "may_request sib th s l m \<Longrightarrow> acquire_shared l m dontWait rme (th, s) = (r, th', s') \<Longrightarrow> lock_step sib mb s s'"
| release: "thread_ok sib th \<Longrightarrow> \<not> links (procs s (me th)) \<Longrightarrow> holds s l (me th) m \<Longrightarrow> release_shared l m (th, s) = (r, th', s') \<Longrightarrow>
    lock_step sib mb s s'"
| release_all: "thread_ok sib th \<Longrightarrow> \<not> links (procs s (me th)) \<Longrightarrow> distinct (map fst ms) \<Longrightarrow> list_all (marked th s allLocks) ms \<Longrightarrow>
    LockReleaseAll meth allLocks ms (th, s) = Some (th', s') \<Longrightarrow> lock_step sib mb s s'"
| give_up: "thread_ok sib th \<Longrightarrow> links (procs s (me th)) \<Longrightarrow> RemoveFromWaitQueue (me th) (th, s) = (th', s') \<Longrightarrow> lock_step sib mb s s'"
| check: "thread_ok sib th \<Longrightarrow> CheckDeadLock mb (th, s) = Inr (state, th', s') \<Longrightarrow> lock_step sib mb s s'"
| lead: "lockGroupLeader (procs s p) = None \<or> lockGroupLeader (procs s p) = Some p \<Longrightarrow> lock_step sib mb s (BecomeLockGroupLeader p s)"
| join: "lockGroupLeader (procs s p) = None \<Longrightarrow> lockGroupLeader (procs s g) = Some g \<Longrightarrow>
    (\<And>l k. locks s l = Some k \<Longrightarrow> p \<notin> myProc ` set (procLocks k)) \<Longrightarrow> lock_step sib mb s (BecomeLockGroupMember g p s)"

definition no_locks :: "lock_space \<Rightarrow> bool" where
  "no_locks s \<longleftrightarrow> (\<forall>l. locks s l = None) \<and>
     (\<forall>p. \<not> links (procs s p) \<and> waitStatus (procs s p) \<noteq> STATUS_WAITING \<and> lockGroupLeader (procs s p) = None)"

definition lock_reachable :: "(procid \<Rightarrow> procid \<Rightarrow> bool) \<Rightarrow> nat \<Rightarrow> lock_space \<Rightarrow> bool" where
  "lock_reachable sib mb s \<longleftrightarrow> (\<exists>s0. no_locks s0 \<and> (lock_step sib mb)\<^sup>*\<^sup>* s0 s)"

lemma lock_step_ok: "lock_step sib mb s s' \<Longrightarrow> table_ok sib s \<Longrightarrow> table_ok sib s'"
proof (induction rule: lock_step.induct)
  case (acquire th s l m dontWait rme r th' s')
  then show ?case using acquire_shared_ok [OF acquire.prems acquire.hyps(1), of dontWait rme] by (metis prod.inject)
next
  case (release th s l m r th' s')
  obtain k pl where k: "locks s l = Some k" "pl \<in> set (procLocks k)" "myProc pl = me th" "bit (holdMask pl) m"
    using release.hyps(3) by (auto simp: holds_def split: option.splits)
  have "m \<in> modes" using at_lock_bits [OF table_ok_at(1) [OF release.prems k(1)] k(2,4)] .
  then show ?case using release_shared_ok [OF release.prems k(1-3) _ release.hyps(2,1)] release.hyps(4) by (metis prod.inject)
next
  case (release_all th s ms allLocks meth th' s')
  then show ?case using LockReleaseAll_correct [OF release_all.prems release_all.hyps(1-4), of meth] by auto
next
  case (give_up th s th' s')
  then show ?case using RemoveFromWaitQueue_ok [OF give_up.prems give_up.hyps(2,1)] by (metis prod.inject)
next
  case (check th s state th' s')
  then show ?case using CheckDeadLock_ok by blast
qed (simp_all add: BecomeLockGroupLeader_ok BecomeLockGroupMember_ok)

lemma no_locks_ok: "no_locks s \<Longrightarrow> table_ok sib s"
  by (simp add: no_locks_def table_ok_def locks_ok_def links_ok_def groups_ok_def)

text \<open>The invariants of a transition system.\<close>

locale invariant_system =
  fixes start :: "'s \<Rightarrow> bool" and step :: "'s \<Rightarrow> 's \<Rightarrow> bool" and inv :: "'s \<Rightarrow> bool"
  assumes start_inv: "start s \<Longrightarrow> inv s" and step_inv: "step s s' \<Longrightarrow> inv s \<Longrightarrow> inv s'"
begin

lemma steps_inv: "step\<^sup>*\<^sup>* s s' \<Longrightarrow> inv s \<Longrightarrow> inv s'"
  by (induction rule: rtranclp_induct) (auto intro: step_inv)

lemma reachable_inv: "start s0 \<Longrightarrow> step\<^sup>*\<^sup>* s0 s \<Longrightarrow> inv s"
  using steps_inv start_inv by blast

end

interpretation lock_sys: invariant_system no_locks "lock_step sib mb" "table_ok sib" for sib mb
  by unfold_locales (auto intro: no_locks_ok lock_step_ok)

lemma lock_reachable_ok: "lock_reachable sib mb s \<Longrightarrow> table_ok sib s"
  unfolding lock_reachable_def using lock_sys.reachable_inv by blast

end
