(* ===== verification/Lock_Examples.thy ===== *)
theory Lock_Examples
  imports Lock_Steps
begin

text \<open>A small history of the lock manager, in which two processes run into a deadlock over two locks.\<close>

definition relation_tag :: "uint32 \<Rightarrow> LOCKTAG" where
  "relation_tag r = \<lparr>locktag_field1 = 1, locktag_field2 = r, locktag_field3 = 0, locktag_field4 = 0, locktag_field5 = 0, locktag_type = 0,
     locktag_lockmethodid = 1\<rparr>"

definition backend :: "procid \<Rightarrow> PGPROC" where
  "backend i = \<lparr>pid = of_nat i, links = False, lockGroupLeader = None, lockGroupMembers = [], waitLock = None, waitProcLock = None,
     waitLockMode = 0, heldLocks = 0, waitStatus = STATUS_OK, vacuumFlags = 0\<rparr>"

definition backend_thread :: "procid \<Rightarrow> lock_thread" where
  "backend_thread i = \<lparr>me = i, in_stream = False, has_backend_cursor_stream = False, same_transaction = (\<lambda>_ _. False), lock_room = True, proclock_room = True,
     max_blocking_autovacuum_proc_num = 64, redistribution_cancelable = False, blocking_redistribution_proc = None,
     blocking_autovacuum_proc = []\<rparr>"

definition idle_space :: lock_space where
  "idle_space = \<lparr>procs = backend, locks = (\<lambda>_. None)\<rparr>"

definition held_by :: "procid \<Rightarrow> LOCK" where
  "held_by i = \<lparr>grantMask = 256, waitMask = 0, procLocks = [\<lparr>myProc = i, groupLeader = i, holdMask = 256\<rparr>], waitProcs = [],
     requested = (\<lambda>_. 0)(8 := 1), nRequested = 1, granted = (\<lambda>_. 0)(8 := 1), nGranted = 1\<rparr>"

definition contested :: "procid \<Rightarrow> procid \<Rightarrow> LOCK" where
  "contested i j = \<lparr>grantMask = 256, waitMask = 256,
     procLocks = [\<lparr>myProc = i, groupLeader = i, holdMask = 256\<rparr>, \<lparr>myProc = j, groupLeader = j, holdMask = 0\<rparr>], waitProcs = [j],
     requested = (\<lambda>_. 0)(8 := 2), nRequested = 2, granted = (\<lambda>_. 0)(8 := 1), nGranted = 1\<rparr>"

definition backend_waiting :: "procid \<Rightarrow> LOCKTAG \<Rightarrow> PGPROC" where
  "backend_waiting i l = (backend i)\<lparr>links := True, waitLock := Some l, waitProcLock := Some (l, i), waitLockMode := 8, waitStatus := STATUS_WAITING\<rparr>"

lemma exclusive_masks: "LOCKBIT_ON 8 = 256" "conflictTab 8 = 510" "LOCKBIT_OFF 8 = NOT 256"
  by (simp_all add: LOCKBIT_ON_def LOCKBIT_OFF_def conflictTab_def LockConflicts_def lockbits_def)

lemma request_free:
  assumes "locks s l = None" "lockGroupLeader (procs s i) = None"
  shows "acquire_shared l 8 dontWait rme (backend_thread i, s) = (LOCKACQUIRE_OK, backend_thread i, s\<lparr>locks := (locks s)(l \<mapsto> held_by i)\<rparr>)"
  using assms
  by (simp add: acquire_shared_def SetupLockInTable_def Let_def backend_thread_def new_lock_def lock_at_def upd_lock_def leader_of_def
      proclock_at_def exclusive_masks LockCheckConflicts_def GrantLock_def upd_proclock_def held_by_def fun_eq_iff)

lemma request_taken:
  assumes "locks s l = Some (held_by i)" "procs s j = backend j" "i \<noteq> j"
  shows "acquire_shared l 8 False rme (backend_thread j, s) =
    (LOCKACQUIRE_WAITS, backend_thread j, s\<lparr>procs := (procs s)(j := backend_waiting j l), locks := (locks s)(l \<mapsto> contested i j)\<rparr>)"
  using assms
  by (simp add: acquire_shared_def SetupLockInTable_def Let_def backend_thread_def lock_at_def upd_lock_def leader_of_def
      proclock_at_def exclusive_masks LockCheckConflicts_def other_locks_def my_holding_def in_lock_group_def find_redistribution_def
      numLockModes_def upt_rec LOCKBIT_ON_def held_by_def ProcSleep_def my_held_locks_def join_queue_def upd_proc_def backend_def backend_waiting_def
      contested_def fun_eq_iff)

text \<open>Process 1 takes relation 1, process 2 relation 2, then each asks for the other one.\<close>

definition jam :: lock_space where
  "jam = \<lparr>procs = backend(1 := backend_waiting 1 (relation_tag 2), 2 := backend_waiting 2 (relation_tag 1)),
     locks = [relation_tag 2 \<mapsto> contested 2 1, relation_tag 1 \<mapsto> contested 1 2]\<rparr>"

abbreviation (input) alone :: "procid \<Rightarrow> procid \<Rightarrow> bool" where
  "alone \<equiv> (\<lambda>_ _. False)"

lemma backend_thread_ok: "thread_ok alone (backend_thread i)"
  by (simp add: thread_ok_def backend_thread_def)

lemma me_backend_thread [simp]: "me (backend_thread i) = i"
  by (simp add: backend_thread_def)

lemma relation_tag_eq [simp]: "relation_tag a = relation_tag b \<longleftrightarrow> a = b"
  by (simp add: relation_tag_def)

lemma backend_asks:
  assumes "lock_reachable alone mb s" "\<not> links (procs s i)" "\<not> holds s l i m" "m \<in> modes"
    and "acquire_shared l m dontWait rme (backend_thread i, s) = (r, th, s')"
  shows "lock_reachable alone mb s'"
proof -
  have "not_held s l i m" using assms(3) by (auto simp: not_held_def holds_def)
  then have "may_request alone (backend_thread i) s l m" using assms(2,4) backend_thread_ok by (simp add: may_request_def)
  then have "lock_step alone mb s s'" by (rule lock_step.acquire [OF _ assms(5)])
  then show ?thesis using assms(1) unfolding lock_reachable_def by (meson rtranclp.rtrancl_into_rtrancl)
qed

lemma idle_reachable: "lock_reachable sib mb idle_space"
  by (auto simp: lock_reachable_def no_locks_def idle_space_def backend_def intro!: exI [of _ idle_space])

definition two_held :: lock_space where
  "two_held = \<lparr>procs = backend, locks = [relation_tag 1 \<mapsto> held_by 1, relation_tag 2 \<mapsto> held_by 2]\<rparr>"

lemma two_held_reachable: "lock_reachable alone mb two_held"
proof -
  have 1: "lock_reachable alone mb (idle_space\<lparr>locks := (locks idle_space)(relation_tag 1 \<mapsto> held_by 1)\<rparr>)"
    by (rule backend_asks [OF idle_reachable _ _ _ request_free]) (simp_all add: idle_space_def backend_def holds_def)
  have "lock_reachable alone mb (\<lparr>procs = backend, locks = [relation_tag 1 \<mapsto> held_by 1]\<rparr>
      \<lparr>locks := (locks \<lparr>procs = backend, locks = [relation_tag 1 \<mapsto> held_by 1]\<rparr>)(relation_tag 2 \<mapsto> held_by 2)\<rparr>)"
    by (rule backend_asks [OF _ _ _ _ request_free]) (use 1 in \<open>simp_all add: idle_space_def backend_def holds_def\<close>)
  then show ?thesis by (simp add: two_held_def)
qed

lemma jam_reachable: "lock_reachable alone mb jam"
proof -
  let ?s = "two_held\<lparr>procs := backend(1 := backend_waiting 1 (relation_tag 2)), locks := (locks two_held)(relation_tag 2 \<mapsto> contested 2 1)\<rparr>"
  have "acquire_shared (relation_tag 2) 8 False True (backend_thread 1, two_held) = (LOCKACQUIRE_WAITS, backend_thread 1, ?s)"
    using request_taken [of two_held "relation_tag 2" 2 1 True] by (simp add: two_held_def)
  then have 3: "lock_reachable alone mb ?s"
    by (rule backend_asks [OF two_held_reachable, rotated 3]) (simp_all add: two_held_def backend_def held_by_def holds_def)
  have "acquire_shared (relation_tag 1) 8 False True (backend_thread 2, ?s) = (LOCKACQUIRE_WAITS, backend_thread 2, jam)"
    using request_taken [of ?s "relation_tag 1" 1 2 True] by (simp add: two_held_def jam_def fun_upd_twist)
  then show ?thesis
    by (rule backend_asks [OF 3, rotated 3]) (simp_all add: two_held_def backend_def held_by_def holds_def backend_waiting_def)
qed

end
