(* ===== verification/Deadlock_Total.thy ===== *)
theory Deadlock_Total
  imports Lock_Steps
begin

text \<open>
  The deadlock check always gives an answer: with at most \<open>MaxBackends\<close> lock groups that use locks no work area overflows, the tests give the same result when they are repeated,
  and a deadlock that no order of the queues resolves is still there when it is reported.
\<close>

section \<open>Who uses locks\<close>

definition lock_users :: "lock_space \<Rightarrow> procid set" where
  "lock_users s = {leader_of s (myProc pl) | l k pl. locks s l = Some k \<and> pl \<in> set (procLocks k)}"

definition few_procs :: "nat \<Rightarrow> lock_space \<Rightarrow> bool" where
  "few_procs mb s \<longleftrightarrow> finite (lock_users s) \<and> card (lock_users s) \<le> mb"

lemma waiter_user:
  assumes ok: "locks_ok s" and k: "locks s l = Some k" and q: "q \<in> set (waitProcs k)"
  shows "leader_of s q \<in> lock_users s"
proof -
  have "waiter_ok s l k q" using ok k q by (auto simp: locks_ok_def lock_ok_def)
  then obtain pl where "pl \<in> set (procLocks k)" "myProc pl = q" by (auto simp: waiter_ok_def)
  then show ?thesis using k by (auto simp: lock_users_def)
qed

lemma waiting_user: "locks_ok s \<Longrightarrow> links (procs s p) \<Longrightarrow> leader_of s p \<in> lock_users s"
  using waiter_user [of s _ _ p] by (auto simp: locks_ok_def links_ok_def)

text \<open>The queue the search looks at: the proposed order, or else the actual one.\<close>

definition order_of :: "lock_space \<Rightarrow> wait_orders \<Rightarrow> LOCKTAG \<Rightarrow> procid list" where
  "order_of s ws l = (case List.find (\<lambda>o1. fst o1 = l) ws of Some (l', order) \<Rightarrow> order | None \<Rightarrow> waitProcs (lock_at s l))"

lemma order_of_mset:
  assumes "orders_perm s ws" shows "mset (order_of s ws l) = mset (waitProcs (lock_at s l))"
proof (cases "List.find (\<lambda>o1. fst o1 = l) ws")
  case None then show ?thesis by (simp add: order_of_def)
next
  case (Some w)
  then have "w \<in> set ws" "fst w = l" by (auto simp: find_Some_iff)
  then show ?thesis using assms Some by (auto simp: order_of_def orders_perm_def split: prod.splits)
qed

lemma order_of_set: "orders_perm s ws \<Longrightarrow> set (order_of s ws l) = set (waitProcs (lock_at s l))"
  using order_of_mset by (metis set_mset_mset)

lemma queue_arcs_target:
  assumes "a \<in> set (queue_arcs s ws m g)" shows "arc_target a \<in> set (order_of s ws (the (waitLock (procs s m))))"
  using assms set_takeWhileD by (fastforce simp: queue_arcs_def soft_arcs_def order_of_def Let_def split: option.splits)

lemma wait_arcs_users:
  assumes ok: "locks_ok s" and ws: "orders_perm s ws" and a: "a \<in> set (wait_arcs s ws g)"
  shows "arc_node s a \<in> lock_users s"
proof -
  obtain m where m: "m \<in> set (waiting_members s g)" "a \<in> set (member_arcs s ws m g)" using a by (auto simp: wait_arcs_def)
  have "is_waiting s m" using m(1) by (auto simp: waiting_members_def split: if_splits)
  then obtain l k where l: "waitLock (procs s m) = Some l" "locks s l = Some k" using is_waiting_lock [OF ok] by metis
  then have la: "lock_at s l = k" by (simp add: lock_at_def)
  from m(2) consider "a \<in> set (hard_arcs s m g l (procLocks k))" | "a \<in> set (queue_arcs s ws m g)"
    using l la by (auto simp: member_arcs_def Let_def)
  then show ?thesis
  proof cases
    case 1
    then obtain pl where "pl \<in> set (procLocks k)" "arc_target a = myProc pl" by (auto simp: hard_arcs_def)
    then show ?thesis using l(2) unfolding lock_users_def arc_node_def by auto
  next
    case 2
    then have "arc_target a \<in> set (waitProcs k)" using queue_arcs_target [OF 2] order_of_set [OF ws, of l] l la by simp
    then show ?thesis using waiter_user [OF ok l(2)] by (simp add: arc_node_def)
  qed
qed

lemma FindLockCycle_total:
  assumes ok: "locks_ok s" and ws: "orders_perm s ws" and few: "few_procs mb s" and p: "leader_of s p \<in> lock_users s"
  obtains c th' where "FindLockCycle mb s ws p th = Inr (c, th')"
proof -
  have "\<exists>c v'. dfs (mb + 1) mb (wait_arcs s ws) (arc_node s) (leader_of s p) [] = Inr (c, v') \<and> set v' \<subseteq> lock_users s \<and> distinct v' \<and>
      length ([] :: procid list) \<le> length v'"
    by (rule dfs_total) (use few p wait_arcs_users [OF ok ws] in \<open>auto simp: few_procs_def\<close>)
  then show thesis using that by (cases rule: FindLockCycle_dfs [of mb s ws p th]) auto
qed

text \<open>What the search finds does not depend on the thread.\<close>

lemma FindLockCycle_again:
  assumes "FindLockCycle mb s ws p th = Inr (c, th1)" obtains th2 where "FindLockCycle mb s ws p th' = Inr (c, th2)"
  using assms by (cases rule: FindLockCycle_dfs [of mb s ws p th]; cases rule: FindLockCycle_dfs [of mb s ws p th']) auto

lemma check_procs_again: "check_procs mb s ws ps es th = Inr (r, th1) \<Longrightarrow> \<exists>th2. check_procs mb s ws ps es th' = Inr (r, th2)"
proof (induction ps arbitrary: es th th')
  case (Cons p ps)
  obtain c th2 where f: "FindLockCycle mb s ws p th = Inr (c, th2)" using Cons.prems by (auto split: sum.splits)
  obtain th3 where f': "FindLockCycle mb s ws p th' = Inr (c, th3)" by (rule FindLockCycle_again [OF f])
  show ?case
  proof (cases c)
    case None then show ?thesis using Cons.IH [of es th2 th3] Cons.prems f f' by simp
  next
    case (Some x) then show ?thesis using Cons.IH [of "fst x" th2 th3] Cons.prems f f' by (cases x) (auto split: if_splits)
  qed
qed simp

lemma TestConfiguration_again:
  "TestConfiguration mb s p cur n th = Inr (r, th1) \<Longrightarrow> \<exists>th2. TestConfiguration mb s p cur n th' = Inr (r, th2)"
  using check_procs_again [of mb s _ _ "[]" th _ _ th']
  by (fastforce simp: TestConfiguration_def split: if_splits sum.splits option.splits prod.splits)

section \<open>The edges of a cycle\<close>

definition edges_ok :: "lock_space \<Rightarrow> EDGE list \<Rightarrow> bool" where
  "edges_ok s es \<longleftrightarrow> edges_exist s es \<and> (\<forall>e \<in> set es. leader_of s (waiter e) \<in> lock_users s \<and> leader_of s (blocker e) \<in> lock_users s)"

lemma arc_leader_eq: "a \<in> set (wait_arcs s ws g) \<Longrightarrow> arc_leader a = g"
  by (auto simp: wait_arcs_def member_arcs_def hard_arcs_def queue_arcs_def soft_arcs_def Let_def split: option.splits)

lemma wait_path_users:
  assumes ok: "locks_ok s" and ws: "orders_perm s ws"
  shows "chain (wait_arcs s ws) (arc_node s) x path y \<Longrightarrow> x \<in> lock_users s \<Longrightarrow> a \<in> set path \<Longrightarrow>
    arc_leader a \<in> lock_users s \<and> arc_node s a \<in> lock_users s"
proof (induction path arbitrary: x)
  case (Cons b path)
  then have b: "b \<in> set (wait_arcs s ws x)" "chain (wait_arcs s ws) (arc_node s) (arc_node s b) path y" by simp_all
  show ?case
    using Cons.IH [OF b(2) wait_arcs_users [OF ok ws b(1)]] Cons.prems(2,3) wait_arcs_users [OF ok ws b(1)] arc_leader_eq [OF b(1)] by auto
qed simp

lemma lock_users_leader: "groups_ok s \<Longrightarrow> x \<in> lock_users s \<Longrightarrow> leader_of s x = x"
  by (auto simp: lock_users_def leader_of_def groups_ok_def split: option.splits)

lemma FindLockCycle_edges_ok:
  assumes ok: "locks_ok s" "groups_ok s" and ws: "orders_perm s ws" and p: "leader_of s p \<in> lock_users s"
    and run: "FindLockCycle mb s ws p th = Inr (Some (edges, details), th')"
  shows "edges_ok s edges"
proof -
  obtain path where path: "wait_path s ws (leader_of s p) path (leader_of s p)" "(edges, details) = cycle_report s path"
    using FindLockCycle_iff(3) [OF run refl] by blast
  have "arc_leader a \<in> lock_users s \<and> arc_node s a \<in> lock_users s" if "a \<in> set path" for a
    by (rule wait_path_users [OF ok(1) ws path(1) [unfolded wait_path_def] p that])
  then show ?thesis
    using FindLockCycle_edges_exist [OF ok(1) run] path(2) lock_users_leader [OF ok(2)]
    by (auto simp: edges_ok_def cycle_report_def arc_edge_def)
qed

section \<open>Every test gives an answer\<close>

lemma check_procs_total:
  assumes ok: "locks_ok s" "groups_ok s" and ws: "orders_perm s ws" and few: "few_procs mb s"
  shows "\<forall>p \<in> set ps. leader_of s p \<in> lock_users s \<Longrightarrow> edges_ok s es \<Longrightarrow>
    \<exists>r th'. check_procs mb s ws ps es th = Inr (r, th') \<and> (\<forall>es'. r = Some es' \<longrightarrow> edges_ok s es')"
proof (induction ps arbitrary: es th)
  case (Cons p ps)
  then have p: "leader_of s p \<in> lock_users s" by simp
  obtain c th1 where f: "FindLockCycle mb s ws p th = Inr (c, th1)" by (rule FindLockCycle_total [OF ok(1) ws few p])
  show ?case
  proof (cases c)
    case None then show ?thesis using Cons.IH [of es th1] Cons.prems f by simp
  next
    case (Some x)
    obtain edges details where x: "x = (edges, details)" by (cases x)
    have "edges_ok s edges" by (rule FindLockCycle_edges_ok [OF ok ws p f [unfolded Some x]])
    then show ?thesis using Cons.IH [of edges th1] Cons.prems(1) f Some x by simp
  qed
qed simp

lemma TestConfiguration_total:
  assumes ok: "locks_ok s" "groups_ok s" and few: "few_procs mb s" and cur: "edges_ok s cur" and p: "leader_of s p \<in> lock_users s"
  obtains r th' where "TestConfiguration mb s p cur n th = Inr (r, th')" "\<And>es ws. r = Some (es, ws) \<Longrightarrow> edges_ok s es"
proof (cases "n + mb > 4 * mb \<or> ExpandConstraints s cur = None")
  case True then show thesis using that [of None th] by (auto simp: TestConfiguration_def)
next
  case False
  then obtain ws where ws: "ExpandConstraints s cur = Some ws" by auto
  have perm: "orders_perm s ws" using ExpandConstraints_perm [OF ws] cur by (simp add: edges_ok_def)
  have "\<forall>q \<in> set (concat (map (\<lambda>c. [waiter c, blocker c]) cur) @ [p]). leader_of s q \<in> lock_users s" "edges_ok s []"
    using cur p by (auto simp: edges_ok_def edges_exist_def)
  from check_procs_total [OF ok perm few this, of th]
  obtain r th' where c: "check_procs mb s ws (concat (map (\<lambda>c. [waiter c, blocker c]) cur) @ [p]) [] th = Inr (r, th')"
      "\<And>es. r = Some es \<Longrightarrow> edges_ok s es" by auto
  then have "TestConfiguration mb s p cur n th = Inr (map_option (\<lambda>es. (es, ws)) r, th')"
    using False ws by (auto simp: TestConfiguration_def split: option.splits)
  then show thesis using c(2) by (rule that) auto
qed

lemma try_edges_total:
  assumes test: "\<And>th. \<not> saved \<Longrightarrow> \<exists>ws th'. test th = Inr (Some (edges, ws), th')"
    and rec: "\<And>i th. i \<in> set is \<Longrightarrow> \<exists>r th'. rec (edges ! i) th = Inr (r, th')"
  shows "\<exists>r th'. try_edges test rec saved edges is th = Inr (r, th')"
  using rec
proof (induction "is" arbitrary: th)
  case (Cons i "is")
  let ?es = "if \<not> saved \<and> i > 0 then
      (case test th of Inl e \<Rightarrow> Inl e | Inr (r, th') \<Rightarrow>
         (case r of None \<Rightarrow> Inl INCONSISTENT_RESULTS
          | Some (es, ws) \<Rightarrow> if length es \<noteq> length edges then Inl INCONSISTENT_RESULTS else Inr (es, th')))
    else Inr (edges, th)"
  obtain th1 where es: "?es = Inr (edges, th1)" using test [of th] by (cases "\<not> saved \<and> i > 0") auto
  obtain r th2 where r: "rec (edges ! i) th1 = Inr (r, th2)" using Cons.prems [of i th1] by auto
  show ?case
  proof (cases r)
    case None then show ?thesis using Cons.IH [of th2] Cons.prems es r by simp
  next
    case (Some x) then show ?thesis using es r by simp
  qed
qed simp

lemma DeadLockCheckRecurse_total:
  assumes ok: "locks_ok s" "groups_ok s" and few: "few_procs mb s" and p: "leader_of s p \<in> lock_users s"
  shows "edges_ok s cur \<Longrightarrow> \<exists>r th'. DeadLockCheckRecurse room mb s p cur n th = Inr (r, th')"
proof (induction room arbitrary: cur n th)
  case 0
  obtain r th1 where t: "TestConfiguration mb s p cur n th = Inr (r, th1)" by (rule TestConfiguration_total [OF ok few 0 p])
  then show ?case by (subst DeadLockCheckRecurse.simps) (auto split: option.splits)
next
  case (Suc room)
  obtain r th1 where t: "TestConfiguration mb s p cur n th = Inr (r, th1)" "\<And>es ws. r = Some (es, ws) \<Longrightarrow> edges_ok s es"
    by (rule TestConfiguration_total [OF ok few Suc.prems p]) blast
  show ?case
  proof (cases "r = None \<or> (\<exists>ws. r = Some ([], ws))")
    case True then show ?thesis using t(1) by (subst DeadLockCheckRecurse.simps) auto
  next
    case False
    then obtain edges ws where r: "r = Some (edges, ws)" "edges \<noteq> []" by (cases r) auto
    let ?saved = "n + length edges + mb \<le> 4 * mb" and ?n = "if n + length edges + mb \<le> 4 * mb then n + length edges else n"
    have "\<exists>r th'. try_edges (TestConfiguration mb s p cur ?n) (\<lambda>e. DeadLockCheckRecurse room mb s p (cur @ [e]) ?n) ?saved edges
        [0..<length edges] th1 = Inr (r, th')"
    proof (rule try_edges_total)
      show "\<exists>ws th'. TestConfiguration mb s p cur ?n th = Inr (Some (edges, ws), th')" if "\<not> ?saved" for th
        using TestConfiguration_again [OF t(1) [unfolded r(1)], of th] that by simp blast
      show "\<exists>r th'. DeadLockCheckRecurse room mb s p (cur @ [edges ! i]) ?n th = Inr (r, th')" if "i \<in> set [0..<length edges]" for i th
        by (rule Suc.IH) (use Suc.prems t(2) [OF r(1)] that in \<open>auto simp: edges_ok_def edges_exist_def\<close>)
    qed
    then show ?thesis using t(1) r by (subst DeadLockCheckRecurse.simps) (simp add: Let_def)
  qed
qed

text \<open>Without constraints the test is a search in the actual queues, so that a failure of the whole search means that it found a cycle.\<close>

lemma DeadLockCheckRecurse_none:
  assumes run: "DeadLockCheckRecurse room mb s p [] 0 th = Inr (None, th')"
  obtains c th1 where "FindLockCycle mb s [] p th = Inr (Some c, th1)"
proof -
  have "\<exists>c th1. FindLockCycle mb s [] p th = Inr (Some c, th1)"
  proof (cases "FindLockCycle mb s [] p th")
    case (Inl e)
    then show ?thesis
      using run by (subst (asm) DeadLockCheckRecurse.simps) (simp add: TestConfiguration_def ExpandConstraints_def)
  next
    case (Inr x)
    obtain c th1 where x: "x = (c, th1)" by (cases x)
    show ?thesis
    proof (cases c)
      case None
      then show ?thesis
        using run Inr x by (subst (asm) DeadLockCheckRecurse.simps) (simp add: TestConfiguration_def ExpandConstraints_def)
    qed (use Inr x in blast)
  qed
  then show thesis using that by blast
qed

lemma DeadLockCheck_total:
  assumes ok: "locks_ok s" "groups_ok s" and few: "few_procs mb s" and p: "links (procs s p)"
  obtains state details th' s' where "DeadLockCheck mb p (th, s) = Inr ((state, details), th', s')"
proof -
  note pu = waiting_user [OF ok(1) p]
  have "edges_ok s []" by (simp add: edges_ok_def edges_exist_def)
  from DeadLockCheckRecurse_total [OF ok few pu this]
  obtain r th1 where r: "DeadLockCheckRecurse mb mb s p [] 0 (th\<lparr>blocking_autovacuum_proc := []\<rparr>) = Inr (r, th1)" by blast
  show thesis
  proof (cases r)
    case None
    obtain c th2 where "FindLockCycle mb s [] p (th\<lparr>blocking_autovacuum_proc := []\<rparr>) = Inr (Some c, th2)"
      by (rule DeadLockCheckRecurse_none [OF r [unfolded None]])
    then obtain th3 where "FindLockCycle mb s [] p th1 = Inr (Some c, th3)" by (rule FindLockCycle_again)
    then show thesis using that r None by (cases c) (simp add: DeadLockCheck_def)
  next
    case (Some orders)
    obtain th2 s2 where "fold rearrange orders (th1, s) = (th2, s2)" by fastforce
    then have "DeadLockCheck mb p (th, s) \<noteq> Inl e" for e using r Some by (simp add: DeadLockCheck_def split: option.splits)
    then show thesis using that by (metis obj_sumE prod.collapse)
  qed
qed

end
