(* ===== verification/Wait_Orders.thy ===== *)
theory Wait_Orders
  imports Deadlock_Check
begin

text \<open>
  \<open>TopoSort\<close> without lock groups: it finds an order of the queue that satisfies the constraints exactly if there is one, and moves only
  processes forward that a constraint wants to be earlier.
\<close>

section \<open>Orders\<close>

fun precedes :: "'a list \<Rightarrow> 'a \<Rightarrow> 'a \<Rightarrow> bool" where
  "precedes [] a b \<longleftrightarrow> False"
| "precedes (x # xs) a b \<longleftrightarrow> (a = x \<and> b \<in> set xs) \<or> precedes xs a b"

lemma precedes_set: "precedes xs a b \<Longrightarrow> a \<in> set xs \<and> b \<in> set xs"
  by (induction xs) auto

lemma precedes_takeWhile: "distinct xs \<Longrightarrow> b \<in> set xs \<Longrightarrow> a \<in> set (takeWhile (\<lambda>x. x \<noteq> b) xs) \<longleftrightarrow> precedes xs a b"
  by (induction xs) (auto dest: precedes_set)

lemma precedes_total: "a \<in> set xs \<Longrightarrow> b \<in> set xs \<Longrightarrow> a \<noteq> b \<Longrightarrow> precedes xs a b \<or> precedes xs b a"
  by (induction xs) auto

lemma precedes_asym: "distinct xs \<Longrightarrow> precedes xs a b \<Longrightarrow> \<not> precedes xs b a"
  by (induction xs) (auto dest: precedes_set)

lemma precedes_irrefl: "distinct xs \<Longrightarrow> \<not> precedes xs a a"
  using precedes_asym by metis

lemma precedes_last:
  assumes "R \<subseteq> set xs" "R \<noteq> {}" "distinct xs"
  obtains a where "a \<in> R" "\<And>b. b \<in> R \<Longrightarrow> \<not> precedes xs a b"
  using assms
proof (induction xs arbitrary: R thesis)
  case (Cons x xs)
  show ?case
  proof (cases "R \<subseteq> {x}")
    case True
    then have "R = {x}" using Cons.prems by auto
    then show ?thesis using Cons.prems precedes_irrefl [of "x # xs" x] by blast
  next
    case False
    then have "R - {x} \<subseteq> set xs" "R - {x} \<noteq> {}" "distinct xs" using Cons.prems by auto
    then obtain a where a: "a \<in> R - {x}" "\<And>b. b \<in> R - {x} \<Longrightarrow> \<not> precedes xs a b" by (rule Cons.IH [rotated]) blast
    then show ?thesis using Cons.prems by (intro Cons.prems(1) [of a]) (auto dest: precedes_set)
  qed
qed simp

lemma precedes_nth: "distinct xs \<Longrightarrow> i < length xs \<Longrightarrow> j < length xs \<Longrightarrow> precedes xs (xs ! i) (xs ! j) \<longleftrightarrow> i < j"
proof (induction xs arbitrary: i j)
  case (Cons x xs)
  show ?case
  proof (cases i)
    case 0
    then show ?thesis using Cons.prems by (cases j) (auto dest: precedes_set)
  next
    case (Suc i')
    then show ?thesis using Cons.IH Cons.prems by (cases j) (auto dest: precedes_set)
  qed
qed simp

section \<open>Positions\<close>

definition ungrouped :: "lock_space \<Rightarrow> bool" where
  "ungrouped s \<longleftrightarrow> (\<forall>p. lockGroupLeader (procs s p) = None \<and> lockGroupMembers (procs s p) = [])"

lemma leader_of_ungrouped [simp]: "ungrouped s \<Longrightarrow> leader_of s p = p"
  by (simp add: ungrouped_def leader_of_def)

definition pos :: "procid list \<Rightarrow> procid \<Rightarrow> nat option" where
  "pos queue p = List.find (\<lambda>j. queue ! j = p) [0..<length queue]"

lemma pos_Some_iff: "distinct queue \<Longrightarrow> pos queue p = Some j \<longleftrightarrow> j < length queue \<and> queue ! j = p"
  unfolding pos_def find_Some_iff by (auto simp: distinct_conv_nth)

lemma pos_None_iff: "pos queue p = None \<longleftrightarrow> p \<notin> set queue"
  by (auto simp: pos_def find_None_iff in_set_conv_nth)

lemma filter_upt_eq: "j < n \<Longrightarrow> filter (\<lambda>i. i = j) [0..<n] = [j]"
proof (induction n)
  case (Suc n)
  have "filter (\<lambda>i. i = n) [0..<n] = []" by (simp add: filter_empty_conv)
  then show ?case using Suc by (cases "j = n") auto
qed simp

lemma topo_mark_ungrouped:
  assumes u: "ungrouped s" and d: "distinct queue"
  shows "topo_mark s queue p bs = (pos queue p, bs)"
proof (cases "pos queue p")
  case None
  then have "filter (\<lambda>j. queue ! j = p) [0..<length queue] = []" by (auto simp: pos_None_iff filter_empty_conv in_set_conv_nth)
  then show ?thesis using u None by (simp add: topo_mark_def ungrouped_def)
next
  case (Some j)
  then have j: "j < length queue" "queue ! j = p" using pos_Some_iff [OF d] by auto
  have "filter (\<lambda>i. queue ! i = p) [0..<length queue] = filter (\<lambda>i. i = j) [0..<length queue]"
    using j d by (intro filter_cong) (auto simp: nth_eq_iff_index_eq)
  then have "filter (\<lambda>i. queue ! i = p) [0..<length queue] = [j]" using filter_upt_eq [OF j(1)] by simp
  then show ?thesis using u Some by (simp add: topo_mark_def ungrouped_def)
qed

text \<open>The constraints on a queue as pairs of positions, and the counts that they give.\<close>

definition edge_pair :: "procid list \<Rightarrow> EDGE \<Rightarrow> (nat \<times> nat) list" where
  "edge_pair queue c = (case (pos queue (waiter c), pos queue (blocker c)) of (Some j, Some k) \<Rightarrow> [(j, k)] | _ \<Rightarrow> [])"

definition pairs :: "procid list \<Rightarrow> EDGE list \<Rightarrow> (nat \<times> nat) list" where
  "pairs queue cs = concat (map (edge_pair queue) cs)"

definition count1 :: "(nat \<Rightarrow> nat \<Rightarrow> bool) \<Rightarrow> (nat \<times> nat) list \<Rightarrow> int" where
  "count1 P ps = int (length (filter (\<lambda>(w, b). P w b) ps))"

lemma count1_Nil [simp]: "count1 P [] = 0"
  by (simp add: count1_def)

lemma count1_append [simp]: "count1 P (ps @ qs) = count1 P ps + count1 P qs"
  by (simp add: count1_def)

lemma topo_constraint_ungrouped:
  assumes u: "ungrouped s" "distinct queue"
  shows "topo_constraint s queue c (bs, as) =
    (case edge_pair queue c of (j, k) # _ \<Rightarrow> (bs[j := bs ! j + 1], as[k := j # as ! k]) | [] \<Rightarrow> (bs, as))"
  by (simp add: topo_constraint_def topo_mark_ungrouped [OF u] edge_pair_def split: option.splits)

lemma fold_topo_constraint:
  assumes u: "ungrouped s" "distinct queue" and len: "length bs = length queue" "length as = length queue"
  shows "\<exists>bs' as'. fold (topo_constraint s queue) cs (bs, as) = (bs', as') \<and> length bs' = length queue \<and> length as' = length queue \<and>
    (\<forall>i < length queue. bs' ! i = bs ! i + count1 (\<lambda>w b. w = i) (pairs queue cs)) \<and>
    (\<forall>k < length queue. as' ! k = rev (map fst (filter (\<lambda>(w, b). b = k) (pairs queue cs))) @ as ! k)"
  using len
proof (induction cs arbitrary: bs as)
  case Nil then show ?case by (simp add: pairs_def)
next
  case (Cons c cs)
  show ?case
  proof (cases "edge_pair queue c")
    case Nil
    then show ?thesis using Cons by (simp add: topo_constraint_ungrouped [OF u] pairs_def)
  next
    case (Cons jk r)
    obtain j k where jk: "jk = (j, k)" by (cases jk)
    have r: "r = []" and p: "pos queue (waiter c) = Some j" "pos queue (blocker c) = Some k"
      using Cons jk by (auto simp: edge_pair_def split: option.splits)
    have b: "j < length queue" "k < length queue" using p pos_Some_iff [OF u(2)] by auto
    let ?bs = "bs[j := bs ! j + 1]" and ?as = "as[k := j # as ! k]"
    have step: "topo_constraint s queue c (bs, as) = (?bs, ?as)" using Cons jk r by (simp add: topo_constraint_ungrouped [OF u])
    have ps: "pairs queue (c # cs) = (j, k) # pairs queue cs" using Cons jk r by (simp add: pairs_def)
    obtain bs' as' where ih: "fold (topo_constraint s queue) cs (?bs, ?as) = (bs', as')" "length bs' = length queue" "length as' = length queue"
        "\<And>i. i < length queue \<Longrightarrow> bs' ! i = ?bs ! i + count1 (\<lambda>w b. w = i) (pairs queue cs)"
        "\<And>k. k < length queue \<Longrightarrow> as' ! k = rev (map fst (filter (\<lambda>(w, b). b = k) (pairs queue cs))) @ ?as ! k"
      using Cons.IH [of ?bs ?as] Cons.prems by auto
    then show ?thesis using step ps b Cons.prems by (auto simp: nth_list_update count1_def)
  qed
qed

section \<open>Placing the processes\<close>

text \<open>While positions are placed: \<open>before\<close> counts the constraints whose later process is still to be placed.\<close>

definition scan_inv :: "procid list \<Rightarrow> (nat \<times> nat) list \<Rightarrow> procid option list \<Rightarrow> int list \<Rightarrow> procid list \<Rightarrow> bool" where
  "scan_inv queue ps topo bs placed \<longleftrightarrow>
     length topo = length queue \<and> length bs = length queue \<and>
     (\<forall>j < length queue. topo ! j \<noteq> None \<longrightarrow> topo ! j = Some (queue ! j)) \<and>
     (\<forall>j < length queue. bs ! j = count1 (\<lambda>w b. w = j \<and> topo ! b \<noteq> None) ps) \<and>
     distinct placed \<and> (\<forall>j < length queue. queue ! j \<in> set placed \<longleftrightarrow> topo ! j = None) \<and> set placed \<subseteq> set queue \<and>
     (\<forall>(w, b) \<in> set ps. topo ! w = None \<longrightarrow> precedes placed (queue ! w) (queue ! b)) \<and>
     (\<forall>i j. i < j \<longrightarrow> j < length queue \<longrightarrow> topo ! i = None \<longrightarrow>
        (topo ! j \<noteq> None \<or> precedes placed (queue ! j) (queue ! i)) \<longrightarrow> j \<in> fst ` set ps)"

lemma fold_decrement:
  assumes "\<And>j. j \<in> set js \<Longrightarrow> j < length bs" "i < length bs"
  shows "fold (\<lambda>j b. b[j := b ! j - 1]) js bs ! i = bs ! i - int (length (filter (\<lambda>j. j = i) js))"
    and "length (fold (\<lambda>j b. b[j := b ! j - 1]) js bs) = length bs"
  using assms by (induction js arbitrary: bs) (auto simp: nth_list_update)

lemma topo_candidate_last:
  assumes "topo_candidate topo bs = Some j" "j < i" "i < length topo" "topo ! i \<noteq> None"
  shows "bs ! i \<noteq> 0"
proof -
  obtain n where n: "n < length (rev [0..<length topo])" "j = rev [0..<length topo] ! n"
      "\<And>m. m < n \<Longrightarrow> \<not> (topo ! (rev [0..<length topo] ! m) \<noteq> None \<and> bs ! (rev [0..<length topo] ! m) = 0)"
    using assms(1) unfolding topo_candidate_def find_Some_iff by blast
  have r: "rev [0..<length topo] ! m = length topo - Suc m" if "m < length topo" for m using that by (simp add: rev_nth)
  have "length topo - Suc i < n" using n(1,2) assms(2,3) r [of n] by simp
  then show ?thesis using n(3) [of "length topo - Suc i"] assms(3,4) r [of "length topo - Suc i"] by simp
qed

lemma scan_step:
  assumes u: "ungrouped s" and d: "distinct queue" and pairs: "\<And>w b. (w, b) \<in> set ps \<Longrightarrow> w < length queue \<and> b < length queue"
    and after: "\<And>k. k < length queue \<Longrightarrow> after ! k = rev (map fst (filter (\<lambda>(w, b). b = k) ps))"
    and inv: "scan_inv queue ps topo bs placed" and j: "topo_candidate topo bs = Some j"
  defines "g \<equiv> leader_of s (the (topo ! j))"
  shows "scan_inv queue ps (map (\<lambda>x. if topo_group s g x then None else x) topo) (fold (\<lambda>i b. b[i := b ! i - 1]) (after ! j) bs)
    (rev (map the (filter (topo_group s g) topo)) @ placed)"
proof -
  let ?n = "length queue"
  have len: "length topo = ?n" "length bs = ?n" and tq: "\<And>i. i < ?n \<Longrightarrow> topo ! i \<noteq> None \<Longrightarrow> topo ! i = Some (queue ! i)"
    and cnt: "\<And>i. i < ?n \<Longrightarrow> bs ! i = count1 (\<lambda>w b. w = i \<and> topo ! b \<noteq> None) ps"
    and pl: "distinct placed" "\<And>i. i < ?n \<Longrightarrow> queue ! i \<in> set placed \<longleftrightarrow> topo ! i = None" "set placed \<subseteq> set queue"
    and con: "\<And>w b. (w, b) \<in> set ps \<Longrightarrow> topo ! w = None \<Longrightarrow> precedes placed (queue ! w) (queue ! b)"
    and mv: "\<And>a b. a < b \<Longrightarrow> b < ?n \<Longrightarrow> topo ! a = None \<Longrightarrow> topo ! b \<noteq> None \<or> precedes placed (queue ! b) (queue ! a) \<Longrightarrow> b \<in> fst ` set ps"
    using inv by (auto simp: scan_inv_def)
  note cand = topo_candidate_Some [OF j]
  have j: "j < ?n" "topo ! j = Some (queue ! j)" "bs ! j = 0" using cand len tq by auto
  have g: "g = queue ! j" using u j by (simp add: g_def)
  have grp: "topo_group s g (topo ! i) \<longleftrightarrow> i = j" if "i < ?n" for i
    using that u d j tq [OF that] by (cases "topo ! i") (auto simp: topo_group_def g ungrouped_def nth_eq_iff_index_eq)
  let ?t = "map (\<lambda>x. if topo_group s g x then None else x) topo"
  have t: "?t ! i = (if i = j then None else topo ! i)" if "i < ?n" for i using that grp len by auto
  have "filter (topo_group s g) topo = [Some (queue ! j)]"
  proof -
    have "filter (topo_group s g) topo = map (\<lambda>i. topo ! i) (filter (\<lambda>i. topo_group s g (topo ! i)) [0..<?n])"
      using filter_map [of "topo_group s g" "\<lambda>i. topo ! i" "[0..<?n]"] map_nth [of topo] len(1) by (simp add: comp_def)
    also have "filter (\<lambda>i. topo_group s g (topo ! i)) [0..<?n] = filter (\<lambda>i. i = j) [0..<?n]" using grp by (intro filter_cong) auto
    finally show ?thesis using filter_upt_eq [OF j(1)] j by simp
  qed
  then have new: "rev (map the (filter (topo_group s g) topo)) @ placed = queue ! j # placed" by simp
  have free: "topo ! b = None" if "(j, b) \<in> set ps" for b
    using that j(1,3) cnt [OF j(1)] by (auto simp: count1_def filter_empty_conv)
  have aft: "i < length bs" if "i \<in> set (after ! j)" for i using that after [OF j(1)] pairs len by auto
  have dec: "fold (\<lambda>i b. b[i := b ! i - 1]) (after ! j) bs ! i = bs ! i - int (length (filter (\<lambda>j. j = i) (after ! j)))"
      "length (fold (\<lambda>i b. b[i := b ! i - 1]) (after ! j) bs) = ?n" if "i < ?n" for i
    using that aft fold_decrement [of "after ! j" bs i] len by simp_all
  show ?thesis
    unfolding scan_inv_def new
  proof (intro conjI allI impI)
    show "length ?t = ?n" "length (fold (\<lambda>i b. b[i := b ! i - 1]) (after ! j) bs) = ?n"
      using len dec(2) [OF j(1)] by simp_all
    show "?t ! i = Some (queue ! i)" if "i < ?n" "?t ! i \<noteq> None" for i using that t tq by (auto split: if_splits)
    show "fold (\<lambda>i b. b[i := b ! i - 1]) (after ! j) bs ! i = count1 (\<lambda>w b. w = i \<and> ?t ! b \<noteq> None) ps" if i: "i < ?n" for i
    proof -
      have "fold (\<lambda>i b. b[i := b ! i - 1]) (after ! j) bs ! i = bs ! i - int (length (filter (\<lambda>j. j = i) (after ! j)))"
        by (rule dec(1) [OF i])
      also have "length (filter (\<lambda>j. j = i) (after ! j)) = length (filter (\<lambda>(w, b). w = i \<and> b = j) ps)"
        unfolding after [OF j(1)] by (simp add: rev_filter [symmetric] filter_map comp_def case_prod_beta conj_commute)
          (auto intro!: arg_cong [where f = length] filter_cong)
      also have "bs ! i - int (length (filter (\<lambda>(w, b). w = i \<and> b = j) ps)) = count1 (\<lambda>w b. w = i \<and> ?t ! b \<noteq> None) ps"
      proof -
        have "count1 (\<lambda>w b. w = i \<and> topo ! b \<noteq> None) qs =
            count1 (\<lambda>w b. w = i \<and> ?t ! b \<noteq> None) qs + int (length (filter (\<lambda>(w, b). w = i \<and> b = j) qs))" if "set qs \<subseteq> set ps" for qs
          using that
        proof (induction qs)
          case (Cons wb qs)
          obtain w b where wb: "wb = (w, b)" by (cases wb)
          then have "b < ?n" using Cons.prems pairs by auto
          then show ?case using Cons wb j(2) by (auto simp: count1_def t)
        qed simp
        then show ?thesis using cnt [OF i] by simp
      qed
      finally show ?thesis .
    qed
    show "distinct (queue ! j # placed)" using pl j by auto
    show "queue ! i \<in> set (queue ! j # placed) \<longleftrightarrow> ?t ! i = None" if "i < ?n" for i
      using that t pl(2) d j(1) by (auto simp: nth_eq_iff_index_eq)
    show "set (queue ! j # placed) \<subseteq> set queue" using pl(3) j(1) by auto
    show "\<forall>(w, b) \<in> set ps. ?t ! w = None \<longrightarrow> precedes (queue ! j # placed) (queue ! w) (queue ! b)"
    proof (clarify)
      fix w b assume wb: "(w, b) \<in> set ps" "?t ! w = None"
      then have bnd: "w < ?n" "b < ?n" using pairs by auto
      show "precedes (queue ! j # placed) (queue ! w) (queue ! b)"
      proof (cases "w = j")
        case True
        then show ?thesis using free wb(1) pl(2) [OF bnd(2)] by simp
      next
        case False
        then show ?thesis using con [OF wb(1)] t [OF bnd(1)] wb(2) by simp
      qed
    qed
    fix a b assume ab: "a < b" "b < ?n" "?t ! a = None" "?t ! b \<noteq> None \<or> precedes (queue ! j # placed) (queue ! b) (queue ! a)"
    then have a: "a < ?n" by simp
    show "b \<in> fst ` set ps"
    proof (cases "a = j")
      case True
      have "\<not> precedes (queue ! j # placed) (queue ! b) (queue ! j)"
        using ab(1,2) True d j(1) pl(2) [OF j(1)] j(2) by (auto simp: nth_eq_iff_index_eq dest: precedes_set)
      then have "topo ! b \<noteq> None" using ab t True by (auto split: if_splits)
      then have "bs ! b \<noteq> 0" using topo_candidate_last [OF assms(6)] ab len True by simp
      then show ?thesis using cnt [OF ab(2)] by (force simp: count1_def filter_empty_conv)
    next
      case False
      then have "topo ! a = None" using ab(3) t [OF a] by simp
      moreover have "topo ! b \<noteq> None \<or> precedes placed (queue ! b) (queue ! a)"
        using ab(4) t [OF ab(2)] j(2) d j(1) ab(2) by (auto split: if_splits simp: nth_eq_iff_index_eq)
      ultimately show ?thesis using mv ab(1,2) by blast
    qed
  qed
qed

lemma scan_done:
  assumes d: "distinct queue" and inv: "scan_inv queue ps topo bs placed" and all: "list_all (\<lambda>x. x = None) topo"
  shows "set placed = set queue" "distinct placed"
    and "\<forall>(w, b) \<in> set ps. w < length queue \<longrightarrow> precedes placed (queue ! w) (queue ! b)"
    and "\<And>x y. precedes queue x y \<Longrightarrow> precedes placed y x \<Longrightarrow> \<exists>j b. (j, b) \<in> set ps \<and> queue ! j = y"
proof -
  have none: "topo ! i = None" if "i < length queue" for i
    using that all inv by (simp add: scan_inv_def list_all_iff)
  show "set placed = set queue" "distinct placed" using inv none by (auto simp: scan_inv_def in_set_conv_nth)
  show "\<forall>(w, b) \<in> set ps. w < length queue \<longrightarrow> precedes placed (queue ! w) (queue ! b)" using inv none by (auto simp: scan_inv_def)
  fix x y assume xy: "precedes queue x y" "precedes placed y x"
  then obtain i j where ij: "i < length queue" "queue ! i = x" "j < length queue" "queue ! j = y"
    using precedes_set [OF xy(1)] by (auto simp: in_set_conv_nth)
  then have "i < j" using xy(1) precedes_nth [OF d ij(1,3)] by simp
  then have "j \<in> fst ` set ps" using inv none [OF ij(1)] ij xy(2) by (auto simp: scan_inv_def)
  then show "\<exists>j b. (j, b) \<in> set ps \<and> queue ! j = y" using ij by force
qed

lemma scan_stuck:
  assumes d: "distinct queue" and inv: "scan_inv queue ps topo bs placed" and open1: "\<not> list_all (\<lambda>x. x = None) topo"
    and no: "topo_candidate topo bs = None" and pairs: "\<And>w b. (w, b) \<in> set ps \<Longrightarrow> w < length queue \<and> b < length queue"
    and xs: "set xs = set queue" "distinct xs" "\<And>w b. (w, b) \<in> set ps \<Longrightarrow> precedes xs (queue ! w) (queue ! b)"
  shows False
proof -
  let ?R = "{queue ! j | j. j < length queue \<and> topo ! j \<noteq> None}"
  have len: "length topo = length queue" using inv by (simp add: scan_inv_def)
  have "?R \<subseteq> set xs" using xs(1) by auto
  moreover obtain x where "x \<in> set topo" "x \<noteq> None" using open1 by (auto simp: list_all_iff)
  then obtain i where "i < length queue" "topo ! i \<noteq> None" using len by (auto simp: in_set_conv_nth)
  then have "?R \<noteq> {}" by blast
  ultimately obtain a where a: "a \<in> ?R" "\<And>b. b \<in> ?R \<Longrightarrow> \<not> precedes xs a b" using xs(2) by (rule precedes_last) blast
  then obtain j where j: "j < length queue" "topo ! j \<noteq> None" "queue ! j = a" by blast
  have "bs ! j \<noteq> 0" using no j len unfolding topo_candidate_def find_None_iff by auto
  then obtain b where "(j, b) \<in> set ps" "topo ! b \<noteq> None"
    using inv j(1) by (auto simp: scan_inv_def count1_def filter_empty_conv)
  then show False using a(2) [of "queue ! b"] xs(3) j(3) pairs by blast
qed

lemma TopoSortScan_spec:
  assumes d: "distinct queue" and pairs: "\<And>w b. (w, b) \<in> set ps \<Longrightarrow> w < length queue \<and> b < length queue"
  shows "ungrouped s \<Longrightarrow> (\<And>k. k < length queue \<Longrightarrow> after ! k = rev (map fst (filter (\<lambda>(w, b). b = k) ps))) \<Longrightarrow>
    scan_inv queue ps topo bs placed \<Longrightarrow>
    (case TopoSortScan s topo bs after placed of
       Some order \<Rightarrow> \<exists>topo' bs'. scan_inv queue ps topo' bs' order \<and> list_all (\<lambda>x. x = None) topo'
     | None \<Rightarrow> \<exists>topo' bs' placed'. scan_inv queue ps topo' bs' placed' \<and> \<not> list_all (\<lambda>x. x = None) topo' \<and> topo_candidate topo' bs' = None)"
proof (induction s topo bs after placed rule: TopoSortScan.induct [case_names step])
  case (step s topo bs after placed)
  show ?case
  proof (cases "list_all (\<lambda>x. x = None) topo")
    case True
    then have eq: "TopoSortScan s topo bs after placed = Some placed" by (subst TopoSortScan.simps) simp
    show ?thesis unfolding eq option.case using step.prems(3) True by blast
  next
    case False
    show ?thesis
    proof (cases "topo_candidate topo bs")
      case None
      then have eq: "TopoSortScan s topo bs after placed = None" using False by (subst TopoSortScan.simps) simp
      show ?thesis unfolding eq option.case using False None step.prems(3) by blast
    next
      case (Some j)
      note ih = step.IH [OF False Some refl step.prems(1,2) scan_step [OF step.prems(1) d pairs step.prems(2,3) Some]]
      have eq: "TopoSortScan s topo bs after placed = TopoSortScan s
          (map (\<lambda>x. if topo_group s (leader_of s (the (topo ! j))) x then None else x) topo) (fold (\<lambda>i b. b[i := b ! i - 1]) (after ! j) bs)
          after (rev (map the (filter (topo_group s (leader_of s (the (topo ! j)))) topo)) @ placed)"
        using False Some by (subst TopoSortScan.simps) (simp add: Let_def)
      show ?thesis unfolding eq by (rule ih)
    qed
  qed
qed

text \<open>What \<open>TopoSort\<close> promises.\<close>

definition satisfies :: "EDGE list \<Rightarrow> procid list \<Rightarrow> procid list \<Rightarrow> bool" where
  "satisfies cs queue xs \<longleftrightarrow> (\<forall>c \<in> set cs. waiter c \<in> set queue \<longrightarrow> blocker c \<in> set queue \<longrightarrow> precedes xs (waiter c) (blocker c))"

lemma pairs_iff:
  assumes d: "distinct queue"
  shows "(w, b) \<in> set (pairs queue cs) \<longleftrightarrow>
    w < length queue \<and> b < length queue \<and> (\<exists>c \<in> set cs. waiter c = queue ! w \<and> blocker c = queue ! b)"
proof -
  have p: "Some j = pos queue p \<longleftrightarrow> j < length queue \<and> p = queue ! j" for j p using pos_Some_iff [OF d, of p j] by auto
  have "(w, b) \<in> set (edge_pair queue c) \<longleftrightarrow> Some w = pos queue (waiter c) \<and> Some b = pos queue (blocker c)" for c
    by (auto simp: edge_pair_def split: option.splits)
  then show ?thesis unfolding pairs_def p by auto
qed

lemma satisfies_pairs:
  assumes d: "distinct queue"
  shows "satisfies cs queue xs \<longleftrightarrow> (\<forall>(w, b) \<in> set (pairs queue cs). precedes xs (queue ! w) (queue ! b))"
proof
  assume "satisfies cs queue xs"
  then show "\<forall>(w, b) \<in> set (pairs queue cs). precedes xs (queue ! w) (queue ! b)"
    unfolding satisfies_def by (auto simp: pairs_iff [OF d]) (metis nth_mem)
next
  assume ps: "\<forall>(w, b) \<in> set (pairs queue cs). precedes xs (queue ! w) (queue ! b)"
  show "satisfies cs queue xs"
    unfolding satisfies_def
  proof (intro ballI impI)
    fix c assume c: "c \<in> set cs" "waiter c \<in> set queue" "blocker c \<in> set queue"
    then obtain w b where "w < length queue" "queue ! w = waiter c" "b < length queue" "queue ! b = blocker c"
      by (auto simp: in_set_conv_nth)
    moreover from this have "(w, b) \<in> set (pairs queue cs)" using c(1) pairs_iff [OF d] by metis
    ultimately show "precedes xs (waiter c) (blocker c)" using ps by fastforce
  qed
qed

lemma TopoSort_spec:
  assumes u: "ungrouped s" and d: "distinct (waitProcs (lock_at s l))"
  defines "queue \<equiv> waitProcs (lock_at s l)"
  shows "TopoSort s l cs = Some order \<Longrightarrow> distinct order \<and> set order = set queue \<and> satisfies cs queue order"
    and "TopoSort s l cs = Some order \<Longrightarrow> precedes queue x y \<Longrightarrow> precedes order y x \<Longrightarrow> \<exists>c \<in> set cs. waiter c = y \<and> blocker c \<in> set queue"
    and "TopoSort s l cs = None \<Longrightarrow> set xs = set queue \<Longrightarrow> distinct xs \<Longrightarrow> \<not> satisfies cs queue xs"
proof -
  let ?n = "length queue" and ?ps = "pairs queue cs"
  have dq: "distinct queue" using d by (simp add: queue_def)
  obtain bs as where fold: "fold (topo_constraint s queue) cs (replicate ?n 0, replicate ?n []) = (bs, as)" "length bs = ?n" "length as = ?n"
      "\<And>i. i < ?n \<Longrightarrow> bs ! i = count1 (\<lambda>w b. w = i) ?ps" "\<And>k. k < ?n \<Longrightarrow> as ! k = rev (map fst (filter (\<lambda>(w, b). b = k) ?ps))"
    using fold_topo_constraint [OF u dq, of "replicate ?n 0" "replicate ?n []" cs] by auto
  have pr: "w < ?n \<and> b < ?n" if "(w, b) \<in> set ?ps" for w b using that pairs_iff [OF dq] by blast
  have "count1 (\<lambda>w b. w = i \<and> map Some queue ! b \<noteq> None) qs = count1 (\<lambda>w b. w = i) qs" if "set qs \<subseteq> set ?ps" for i qs
    using that
  proof (induction qs)
    case (Cons wb qs)
    moreover have "snd wb < ?n" using Cons.prems pr by (cases wb) auto
    ultimately show ?case by (cases wb) (auto simp: count1_def)
  qed simp
  then have inv: "scan_inv queue ?ps (map Some queue) bs []" using fold(2,4) pr by (auto simp: scan_inv_def)
  have eq: "TopoSort s l cs = TopoSortScan s (map Some queue) bs as []" using fold(1) by (simp add: TopoSort_def queue_def Let_def)
  note spec = TopoSortScan_spec [OF dq pr u fold(5) inv, folded eq]
  show "distinct order \<and> set order = set queue \<and> satisfies cs queue order" if r: "TopoSort s l cs = Some order"
  proof -
    obtain topo' bs' where i: "scan_inv queue ?ps topo' bs' order" "list_all (\<lambda>x. x = None) topo'"
      using spec unfolding r option.case by blast
    show ?thesis using scan_done [OF dq i] pr unfolding satisfies_pairs [OF dq] by blast
  qed
  show "\<exists>c \<in> set cs. waiter c = y \<and> blocker c \<in> set queue" if r: "TopoSort s l cs = Some order" and xy: "precedes queue x y" "precedes order y x"
  proof -
    obtain topo' bs' where i: "scan_inv queue ?ps topo' bs' order" "list_all (\<lambda>x. x = None) topo'"
      using spec unfolding r option.case by blast
    obtain j b where "(j, b) \<in> set ?ps" "queue ! j = y" using scan_done(4) [OF dq i xy] by blast
    then show ?thesis using pairs_iff [OF dq] by (metis nth_mem)
  qed
  show "\<not> satisfies cs queue xs" if r: "TopoSort s l cs = None" and xs: "set xs = set queue" "distinct xs"
  proof
    assume sat: "satisfies cs queue xs"
    obtain topo' bs' placed' where i: "scan_inv queue ?ps topo' bs' placed'" "\<not> list_all (\<lambda>x. x = None) topo'" "topo_candidate topo' bs' = None"
      using spec unfolding r option.case by blast
    show False by (rule scan_stuck [OF dq i pr xs]) (use sat satisfies_pairs [OF dq] in blast)+
  qed
qed

end
