(* ===== verification/Deadlock_Freedom.thy ===== *)
theory Deadlock_Freedom
  imports Deadlock_Total Wait_Orders
begin

text \<open>
  What the deadlock check achieves, for processes without lock groups: it aborts a process only on a real deadlock that no order of the queues resolves, and
  otherwise leaves the queues such that the process is in no deadlock, without creating one elsewhere.
\<close>

section \<open>The waits-for graph without lock groups\<close>

text \<open>Who a process waits for, with the queues ordered by \<open>f\<close>: holders of conflicting locks, and processes ahead of it that want a conflicting one.\<close>

definition waits_on :: "lock_space \<Rightarrow> (LOCKTAG \<Rightarrow> procid list) \<Rightarrow> procid \<Rightarrow> procid \<Rightarrow> bool" where
  "waits_on s f p q \<longleftrightarrow> is_waiting s p \<and> (case waitLock (procs s p) of None \<Rightarrow> False | Some l \<Rightarrow>
     (\<exists>pl \<in> set (procLocks (lock_at s l)). myProc pl = q \<and> q \<noteq> p \<and> blocked_by (waitLockMode (procs s p)) pl) \<or>
     precedes (f l) q p \<and> conflicts (waitLockMode (procs s p)) (waitLockMode (procs s q)))"

definition wait_graph :: "lock_space \<Rightarrow> (LOCKTAG \<Rightarrow> procid list) \<Rightarrow> (procid \<times> procid) set" where
  "wait_graph s f = {(p, q). waits_on s f p q}"

abbreviation queues :: "lock_space \<Rightarrow> LOCKTAG \<Rightarrow> procid list" where
  "queues s l \<equiv> waitProcs (lock_at s l)"

lemma hard_conflict_iff:
  assumes "\<And>i. bit (holdMask pl) i \<Longrightarrow> i \<in> modes"
  shows "hard_conflict m pl \<longleftrightarrow> blocked_by m pl"
proof -
  have "hard_conflict m pl \<longleftrightarrow> (\<exists>i \<in> modes. bit (holdMask pl) i \<and> conflicts m i)"
    unfolding hard_conflict_def list_ex_iff by (auto simp: numLockModes_def conflicts_def)
  then show ?thesis using assms by (auto simp: blocked_by_def)
qed

lemma soft_targets:
  assumes d: "distinct xs" and p: "p \<in> set xs" and stop: "\<And>x. stop x \<longleftrightarrow> x = p" and mine: "\<And>x. x \<noteq> p \<Longrightarrow> \<not> mine x"
  shows "arc_target ` set (soft_arcs s p g l stop mine xs) =
    {q. precedes xs q p \<and> conflicts (waitLockMode (procs s p)) (waitLockMode (procs s q))}"
proof -
  have "takeWhile (\<lambda>x. \<not> stop x) xs = takeWhile (\<lambda>x. x \<noteq> p) xs" using stop by simp
  moreover have "\<not> mine q" if "precedes xs q p" for q using mine [of q] that precedes_irrefl [OF d] by blast
  moreover have "LOCKBIT_ON i AND conflictTab j = 0 \<longleftrightarrow> \<not> conflicts j i" for i j by (subst and.commute) (simp add: conflicts_def)
  ultimately show ?thesis
    unfolding soft_arcs_def using precedes_takeWhile [OF d p] by (auto simp: image_iff)
qed

lemma ungrouped_waiting: "ungrouped s \<Longrightarrow> waiting_members s p = (if is_waiting s p then [p] else [])"
  by (simp add: waiting_members_def ungrouped_def)

lemma ungrouped_arcs:
  assumes ok: "locks_ok s" and u: "ungrouped s" and ws: "orders_perm s ws" and w: "is_waiting s p"
  obtains l k where "waitLock (procs s p) = Some l" "locks s l = Some k" "p \<in> set (waitProcs k)"
    "wait_arcs s ws p = hard_arcs s p p l (procLocks k) @ queue_arcs s ws p p"
    "arc_target ` set (hard_arcs s p p l (procLocks k)) =
      {q. \<exists>pl \<in> set (procLocks k). myProc pl = q \<and> q \<noteq> p \<and> blocked_by (waitLockMode (procs s p)) pl}"
    "arc_target ` set (queue_arcs s ws p p) =
      {q. precedes (order_of s ws l) q p \<and> conflicts (waitLockMode (procs s p)) (waitLockMode (procs s q))}"
proof -
  obtain l k where l: "waitLock (procs s p) = Some l" "locks s l = Some k" "p \<in> set (waitProcs k)" by (rule is_waiting_lock [OF ok w])
  have la: "lock_at s l = k" using l by (simp add: lock_at_def)
  have lk: "lock_ok s l None None k" using ok l by (simp add: locks_ok_def)
  have ps: "p \<in> set (order_of s ws l)" using order_of_set [OF ws, of l] l la by simp
  have d: "distinct (order_of s ws l)" using order_of_mset [OF ws, of l] lk la by (metis lock_ok_def mset_eq_imp_distinct_iff)
  have "hard_conflict m pl \<longleftrightarrow> blocked_by m pl" if "pl \<in> set (procLocks k)" for m pl
    by (rule hard_conflict_iff) (use that lk in \<open>auto simp: lock_ok_def proclock_ok_def\<close>)
  then have "filter (\<lambda>pl. leader_of s (myProc pl) \<noteq> p \<and> hard_conflict (waitLockMode (procs s p)) pl) (procLocks k) =
      filter (\<lambda>pl. myProc pl \<noteq> p \<and> blocked_by (waitLockMode (procs s p)) pl) (procLocks k)"
    using u by (intro filter_cong) simp_all
  then have hard: "arc_target ` set (hard_arcs s p p l (procLocks k)) =
      {q. \<exists>pl \<in> set (procLocks k). myProc pl = q \<and> q \<noteq> p \<and> blocked_by (waitLockMode (procs s p)) pl}"
    by (auto simp: hard_arcs_def image_iff)
  have soft: "arc_target ` set (queue_arcs s ws p p) =
      {q. precedes (order_of s ws l) q p \<and> conflicts (waitLockMode (procs s p)) (waitLockMode (procs s q))}"
  proof (cases "List.find (\<lambda>o1. fst o1 = l) ws")
    case None
    have "lastGroupMember s p p (waitProcs k) = Some p" using u by (simp add: lastGroupMember_def ungrouped_def)
    then have q: "queue_arcs s ws p p = soft_arcs s p p l (\<lambda>x. Some x = Some p) (\<lambda>x. leader_of s x = p) (order_of s ws l)"
      using None l la by (simp add: queue_arcs_def order_of_def)
    show ?thesis unfolding q by (rule soft_targets [OF d ps]) (use u in auto)
  next
    case (Some o1)
    have q: "queue_arcs s ws p p = soft_arcs s p p l (\<lambda>x. leader_of s x = p) (\<lambda>x. False) (order_of s ws l)"
      using Some l by (cases o1) (simp add: queue_arcs_def order_of_def)
    show ?thesis unfolding q by (rule soft_targets [OF d ps]) (use u in auto)
  qed
  have "wait_arcs s ws p = hard_arcs s p p l (procLocks k) @ queue_arcs s ws p p"
    using u w l la by (simp add: wait_arcs_def ungrouped_waiting member_arcs_def)
  then show thesis using that l hard soft by blast
qed

lemma ungrouped_no_arcs: "ungrouped s \<Longrightarrow> \<not> is_waiting s p \<Longrightarrow> wait_arcs s ws p = []"
  by (simp add: wait_arcs_def ungrouped_waiting)

lemma waits_for_graph:
  assumes ok: "locks_ok s" and u: "ungrouped s" and ws: "orders_perm s ws"
  shows "waits_for s ws = wait_graph s (order_of s ws)"
proof -
  have "arc_target ` set (wait_arcs s ws p) = {q. waits_on s (order_of s ws) p q}" for p
  proof (cases "is_waiting s p")
    case False then show ?thesis using u by (simp add: ungrouped_no_arcs waits_on_def)
  next
    case True
    obtain l k where a: "waitLock (procs s p) = Some l" "locks s l = Some k" "p \<in> set (waitProcs k)"
        "wait_arcs s ws p = hard_arcs s p p l (procLocks k) @ queue_arcs s ws p p"
        "arc_target ` set (hard_arcs s p p l (procLocks k)) =
          {q. \<exists>pl \<in> set (procLocks k). myProc pl = q \<and> q \<noteq> p \<and> blocked_by (waitLockMode (procs s p)) pl}"
        "arc_target ` set (queue_arcs s ws p p) =
          {q. precedes (order_of s ws l) q p \<and> conflicts (waitLockMode (procs s p)) (waitLockMode (procs s q))}"
      by (rule ungrouped_arcs [OF ok u ws True])
    have "lock_at s l = k" using a by (simp add: lock_at_def)
    then show ?thesis using True a by (simp add: image_Un waits_on_def set_eq_iff)
  qed
  moreover have "waits_for s ws = {(p, q). q \<in> arc_target ` set (wait_arcs s ws p)}"
    using u by (auto simp: waits_for_def arcs_rel_def arc_node_def)
  ultimately show ?thesis by (simp add: wait_graph_def)
qed

section \<open>Waking adds no edge\<close>

lemma precedes_append: "precedes (xs @ ys) a b \<longleftrightarrow> precedes xs a b \<or> precedes ys a b \<or> (a \<in> set xs \<and> b \<in> set ys)"
  by (induction xs) auto

lemma waits_here_iff:
  assumes a: "at_lock s l None None k" and x: "is_waiting s x" "waitLock (procs s x) = Some l"
  shows "x \<in> set (waitProcs k)"
proof -
  obtain l' k' where k': "locks s l' = Some k'" "x \<in> set (waitProcs k')" using a x by (auto simp: at_lock_def links_ok_def is_waiting_def)
  then have "waitLock (procs s x) = Some l'" using a by (cases "l' = l") (auto simp: at_lock_def lock_ok_def waiter_ok_def)
  then show ?thesis using k' a x by (auto simp: at_lock_def)
qed

lemma wake_graph:
  assumes a: "at_lock s l None None k" and q: "waitProcs k = sk @ p # ps" and f: "f l = waitProcs k"
    and sk: "\<And>q. q \<in> set sk \<Longrightarrow> \<not> conflicts (waitLockMode (procs s p)) (waitLockMode (procs s q))"
  shows "wait_graph (wake l p s) (f(l := waitProcs (wake_entry s p k))) \<subseteq> wait_graph s f"
proof -
  let ?s = "wake l p s" and ?k = "wake_entry s p k"
  have p: "p \<in> set (waitProcs k)" "p \<notin> set sk" using q at_lock_distinct [OF a] by auto
  note w = wake_eq [OF a p(1)]
  have there: "locks s l = Some k" using a by (simp add: at_lock_def)
  have la: "lock_at ?s l' = (if l' = l then ?k else lock_at s l')" for l' using there by (simp add: w lock_at_def)
  have wp: "waitProcs ?k = sk @ ps" using q p(2) by (simp add: wake_entry_def dequeue_entry_def remove1_append)
  have mode: "waitLockMode (procs ?s x) = waitLockMode (procs s x)" for x by (simp add: w)
  have "waits_on s f x y" if xy: "waits_on ?s (f(l := waitProcs ?k)) x y" for x y
  proof -
    have x: "x \<noteq> p" using xy by (auto simp: waits_on_def is_waiting_def w)
    then have same: "procs ?s x = procs s x" by (rule procs_wake [OF a p(1)])
    then have iw: "is_waiting s x" using xy by (simp add: waits_on_def is_waiting_def)
    obtain l' where l': "waitLock (procs s x) = Some l'" using iw by (auto simp: is_waiting_def)
    show ?thesis
    proof (cases "l' = l")
      case False then show ?thesis using xy iw l' same by (simp add: waits_on_def la mode)
    next
      case True
      have xk: "x \<in> set sk \<union> set ps" using waits_here_iff [OF a iw] l' True q x by auto
      from xy consider (hard) pl where "pl \<in> set (procLocks ?k)" "myProc pl = y" "y \<noteq> x" "blocked_by (waitLockMode (procs s x)) pl"
        | (soft) "precedes (sk @ ps) y x" "conflicts (waitLockMode (procs s x)) (waitLockMode (procs s y))"
        using same l' True by (auto simp: waits_on_def la mode wp)
      then show ?thesis
      proof cases
        case soft
        then have "precedes (f l) y x" by (auto simp: f q precedes_append)
        then show ?thesis using soft iw l' True by (simp add: waits_on_def)
      next
        case hard
        obtain pl0 where pl0: "pl0 \<in> set (procLocks k)" "myProc pl0 = y"
            "pl = (if y = p then pl0\<lparr>holdMask := holdMask pl0 OR LOCKBIT_ON (waitLockMode (procs s p))\<rparr> else pl0)"
          using hard(1,2) by (auto simp: wake_entry_def set_upd_proclock dequeue_entry_def split: if_splits)
        have "blocked_by (waitLockMode (procs s x)) pl0 \<or> y = p \<and> conflicts (waitLockMode (procs s x)) (waitLockMode (procs s p))"
          using hard(4) pl0 by (auto simp: blocked_by_def bit_simps split: if_splits)
        then show ?thesis
        proof
          assume "blocked_by (waitLockMode (procs s x)) pl0"
          moreover have "lock_at s l = k" using there by (simp add: lock_at_def)
          ultimately show ?thesis using pl0 hard(3) iw l' True by (auto simp: waits_on_def)
        next
          assume c: "y = p \<and> conflicts (waitLockMode (procs s x)) (waitLockMode (procs s p))"
          have "waitLockMode (procs s z) \<in> modes" if "z \<in> set (waitProcs k)" for z
            using at_lock_waiter [OF a that] by (simp add: waiter_ok_def)
          then have "conflicts (waitLockMode (procs s p)) (waitLockMode (procs s x))" using c xk q conflicts_sym by simp
          then have "x \<in> set ps" using sk xk by blast
          then have "precedes (f l) p x" by (simp add: f q precedes_append)
          then show ?thesis using c iw l' True by (simp add: waits_on_def)
        qed
      qed
    qed
  qed
  then show ?thesis by (auto simp: wait_graph_def)
qed

lemma ProcLockWakeup_graph:
  assumes a: "at_lock s l None None k" and f: "f l = waitProcs k"
  shows "wait_graph (snd (ProcLockWakeup l (th, s))) (f(l := queues (snd (ProcLockWakeup l (th, s))) l)) \<subseteq> wait_graph s f"
proof -
  let ?P = "\<lambda>(th' :: lock_thread) s' k' (ahead :: LOCKMASK) ps. wait_graph s' (f(l := waitProcs k')) \<subseteq> wait_graph s f \<and>
    (\<exists>sk. waitProcs k' = sk @ ps \<and> (\<forall>q \<in> set sk. bit ahead (waitLockMode (procs s' q))))"
  have "\<exists>th' s' k' ahead'. wakeup_scan l (waitProcs k) 0 (th, s) = (th', s') \<and> at_lock s' l None None k' \<and> ?P th' s' k' ahead' []"
  proof (rule wakeup_scan_rule [where P = ?P])
    show "?P th s k 0 (waitProcs k)" by (simp add: fun_upd_idem f)
    show "at_lock s l None None k" by (rule a)
    show "distinct (waitProcs k)" using at_lock_distinct [OF a] by simp
  next
    fix th1 th2 s1 k1 ahead p ps
    assume P: "?P th1 s1 k1 ahead (p # ps)" and a1: "at_lock s1 l None None k1" and p: "p \<in> set (waitProcs k1)"
    then obtain sk where sk: "waitProcs k1 = sk @ p # ps" "\<forall>q \<in> set sk. bit ahead (waitLockMode (procs s1 q))" by auto
    have "waitLockMode (procs s1 p) \<in> modes" using at_lock_waiter [OF a1 p] by (simp add: waiter_ok_def)
    then have "\<forall>q \<in> set (sk @ [p]). bit (ahead OR LOCKBIT_ON (waitLockMode (procs s1 p))) (waitLockMode (procs s1 q))"
      using sk(2) by (auto simp: bit_simps)
    moreover have "waitProcs k1 = (sk @ [p]) @ ps" using sk(1) by simp
    ultimately show "?P th2 s1 k1 (ahead OR LOCKBIT_ON (waitLockMode (procs s1 p))) ps" using P by blast
  next
    fix th1 th2 s1 k1 ahead p ps
    assume P: "?P th1 s1 k1 ahead (p # ps)" and a1: "at_lock s1 l None None k1" and p: "p \<in> set (waitProcs k1)" "p \<notin> set ps"
      and no: "conflictTab (waitLockMode (procs s1 p)) AND ahead = 0"
    then obtain sk where sk: "waitProcs k1 = sk @ p # ps" "\<forall>q \<in> set sk. bit ahead (waitLockMode (procs s1 q))" by auto
    have psk: "p \<notin> set sk" using at_lock_distinct [OF a1] sk(1) by simp
    have "\<not> conflicts (waitLockMode (procs s1 p)) (waitLockMode (procs s1 q))" if "q \<in> set sk" for q
      using no sk(2) that conflictTab_meets [of "waitLockMode (procs s1 p)" ahead] by blast
    then have "wait_graph (wake l p s1) ((f(l := waitProcs k1))(l := waitProcs (wake_entry s1 p k1))) \<subseteq> wait_graph s1 (f(l := waitProcs k1))"
      by (intro wake_graph [OF a1 sk(1)]) simp_all
    then have "wait_graph (wake l p s1) (f(l := waitProcs (wake_entry s1 p k1))) \<subseteq> wait_graph s f"
      using P by (simp add: subset_trans)
    moreover have "waitProcs (wake_entry s1 p k1) = sk @ ps" using sk(1) psk by (simp add: wake_entry_def dequeue_entry_def remove1_append)
    moreover have "procs (wake l p s1) q = procs s1 q" if "q \<in> set sk" for q by (rule procs_wake [OF a1 p(1)]) (use that psk in auto)
    ultimately show "?P (snd (LockCheckConflicts th1 s1 (waitLockMode (procs s1 p)) l p)) (wake l p s1) (wake_entry s1 p k1) ahead ps"
      using sk(2) by auto
  qed auto
  then obtain th' s' k' where r: "wakeup_scan l (waitProcs k) 0 (th, s) = (th', s')" "at_lock s' l None None k'"
      "wait_graph s' (f(l := waitProcs k')) \<subseteq> wait_graph s f" by blast
  moreover have "lock_at s l = k" "lock_at s' l = k'" using a r(2) by (simp_all add: at_lock_def lock_at_def)
  ultimately show ?thesis by (simp add: ProcLockWakeup_def)
qed

section \<open>Carrying out the new orders\<close>

lemma wait_graph_queue: "wait_graph (upd_lock l (\<lambda>k. k\<lparr>waitProcs := order\<rparr>) s) f = wait_graph s f"
proof -
  have "lock_at (upd_lock l (\<lambda>k. k\<lparr>waitProcs := order\<rparr>) s) l' = (if l' = l \<and> locks s l \<noteq> None then (lock_at s l)\<lparr>waitProcs := order\<rparr> else lock_at s l')" for l'
    by (auto simp: lock_at_def)
  then have "waits_on (upd_lock l (\<lambda>k. k\<lparr>waitProcs := order\<rparr>) s) f p q \<longleftrightarrow> waits_on s f p q" for p q
    by (simp add: waits_on_def is_waiting_def split: option.splits)
  then show ?thesis by (simp add: wait_graph_def)
qed

lemma rearrange_graph:
  assumes a: "at_lock s l None None k" and m: "mset order = mset (waitProcs k)" and f: "f l = order"
  shows "wait_graph (snd (rearrange (l, order) (th, s))) (f(l := queues (snd (rearrange (l, order) (th, s))) l)) \<subseteq> wait_graph s f"
proof -
  have "f l = waitProcs (k\<lparr>waitProcs := order\<rparr>)" using f by simp
  from ProcLockWakeup_graph [where f = f, OF at_lock_reorder [OF a m] this, of th] show ?thesis by (simp add: rearrange_def wait_graph_queue)
qed

lemma order_of_Cons: "order_of s ((l, order) # ws) = (order_of s ws)(l := order)"
  by (rule ext) (simp add: order_of_def)

lemma order_of_Nil [simp]: "order_of s [] = queues s"
  by (rule ext) (simp add: order_of_def)

lemma rearrange_all_graph:
  assumes "table_ok sib s" "thread_ok sib th" "orders_perm s ws"
  shows "wait_graph (snd (fold rearrange ws (th, s))) (queues (snd (fold rearrange ws (th, s)))) \<subseteq> wait_graph s (order_of s ws)"
  using assms
proof (induction ws arbitrary: th s)
  case (Cons w ws)
  obtain l order where w: "w = (l, order)" by (cases w)
  obtain k where k: "locks s l = Some k" "mset order = mset (waitProcs k)"
    using Cons.prems(3) w by (auto simp: orders_perm_def lock_at_def)
  obtain th' s' where r: "rearrange (l, order) (th, s) = (th', s')" "table_ok sib s'" "thread_ok sib th'"
      "\<And>l'. l' \<noteq> l \<Longrightarrow> locks s' l' = locks s l'"
    by (rule rearrange_ok [OF Cons.prems(1,2) k]) blast
  have lw: "l \<notin> fst ` set ws" using Cons.prems(3) w by (auto simp: orders_perm_def)
  have "locks s' (fst x) = locks s (fst x)" if "x \<in> set ws" for x by (rule r(4)) (use that lw in auto)
  then have "orders_perm s' ws" using Cons.prems(3) by (fastforce simp: orders_perm_def lock_at_def)
  note ih = Cons.IH [OF r(2,3) this]
  have "order_of s' ws l' = ((order_of s (w # ws))(l := queues s' l)) l'" for l'
  proof (cases "l' = l")
    case True
    moreover have "List.find (\<lambda>o1. fst o1 = l) ws = None" using lw by (auto simp: find_None_iff image_iff)
    ultimately show ?thesis by (simp add: order_of_def)
  next
    case False
    have "lock_at s' l' = lock_at s l'" using r(4) [OF False] by (simp add: lock_at_def)
    then have "order_of s' ws l' = order_of s ws l'" unfolding order_of_def by (rule arg_cong)
    then show ?thesis using False by (simp add: w order_of_Cons)
  qed
  then have o: "order_of s' ws = (order_of s (w # ws))(l := queues s' l)" by (rule ext)
  have "wait_graph s' ((order_of s (w # ws))(l := queues s' l)) \<subseteq> wait_graph s (order_of s (w # ws))"
    using rearrange_graph [OF table_ok_at(1) [OF Cons.prems(1) k(1)] k(2), of "order_of s (w # ws)" th] r(1) by (simp add: w order_of_Cons)
  then have "wait_graph s' (order_of s' ws) \<subseteq> wait_graph s (order_of s (w # ws))" unfolding o .
  from subset_trans [OF ih this] show ?case using r(1) w by simp
qed simp

section \<open>Tests\<close>

text \<open>A test that finds nothing has looked at the process and at all processes that the constraints mention.\<close>

lemma check_procs_clear:
  "check_procs mb s ws ps es th = Inr (Some es', th') \<Longrightarrow> es' = [] \<Longrightarrow>
    es = [] \<and> (\<forall>p \<in> set ps. (leader_of s p, leader_of s p) \<notin> (waits_for s ws)\<^sup>+)"
proof (induction ps arbitrary: es th)
  case (Cons p ps)
  obtain c th1 where f: "FindLockCycle mb s ws p th = Inr (c, th1)" using Cons.prems by (auto split: sum.splits)
  note iff = FindLockCycle_iff(1) [OF f]
  show ?case
  proof (cases c)
    case None then show ?thesis using Cons.IH [of es th1] Cons.prems f iff by simp
  next
    case (Some x)
    then show ?thesis using Cons.IH [of "fst x" th1] Cons.prems f by (cases x) (auto split: if_splits)
  qed
qed simp

lemma TestConfiguration_clear:
  assumes "TestConfiguration mb s p cur n th = Inr (Some ([], ws), th')"
  shows "ExpandConstraints s cur = Some ws" and "(leader_of s p, leader_of s p) \<notin> (waits_for s ws)\<^sup>+"
    and "c \<in> set cur \<Longrightarrow> (leader_of s (waiter c), leader_of s (waiter c)) \<notin> (waits_for s ws)\<^sup>+"
proof -
  obtain r where c: "ExpandConstraints s cur = Some ws"
    "check_procs mb s ws (concat (map (\<lambda>c. [waiter c, blocker c]) cur) @ [p]) [] th = Inr (Some [], th')"
    using assms by (auto simp: TestConfiguration_def split: if_splits sum.splits option.splits prod.splits)
  note cl = check_procs_clear [OF c(2) refl]
  show "ExpandConstraints s cur = Some ws" by (rule c(1))
  show "(leader_of s p, leader_of s p) \<notin> (waits_for s ws)\<^sup>+" using cl by simp
  show "(leader_of s (waiter c), leader_of s (waiter c)) \<notin> (waits_for s ws)\<^sup>+" if "c \<in> set cur" using cl that by auto
qed

section \<open>Orders that meet the constraints\<close>

definition edges_wait :: "lock_space \<Rightarrow> EDGE list \<Rightarrow> bool" where
  "edges_wait s cs \<longleftrightarrow> (\<forall>c \<in> set cs. locks s (awaited c) \<noteq> None \<and> waiter c \<in> set (queues s (awaited c)) \<and> blocker c \<in> set (queues s (awaited c)))"

text \<open>An order for every queue.\<close>

definition arrangement :: "lock_space \<Rightarrow> (LOCKTAG \<Rightarrow> procid list) \<Rightarrow> bool" where
  "arrangement s f \<longleftrightarrow> (\<forall>l. locks s l \<noteq> None \<longrightarrow> distinct (f l) \<and> set (f l) = set (queues s l))"

lemma edges_wait_exist: "edges_wait s cs \<Longrightarrow> edges_exist s cs"
  by (simp add: edges_wait_def edges_exist_def)

lemma queue_distinct: "locks_ok s \<Longrightarrow> locks s l \<noteq> None \<Longrightarrow> distinct (queues s l)"
  by (auto simp: locks_ok_def lock_ok_def lock_at_def)

lemma one_queue:
  assumes ok: "locks_ok s" and l: "locks s l \<noteq> None" "locks s l' \<noteq> None" and p: "p \<in> set (queues s l)" "p \<in> set (queues s l')"
  shows "l = l'"
proof -
  have "waitLock (procs s p) = Some x" if "locks s x \<noteq> None" "p \<in> set (queues s x)" for x
    using ok that by (auto simp: locks_ok_def lock_ok_def waiter_ok_def lock_at_def)
  from this [OF l(1) p(1)] this [OF l(2) p(2)] show ?thesis by simp
qed

lemma expand_scan_orders:
  "expand_scan s cs ws = Some ws' \<Longrightarrow> orders_perm s ws \<Longrightarrow> edges_exist s cs \<Longrightarrow>
    set ws \<subseteq> set ws' \<and> (\<forall>c \<in> set cs. awaited c \<in> fst ` set ws') \<and>
    (\<forall>l order. (l, order) \<in> set ws' \<longrightarrow> l \<notin> fst ` set ws \<longrightarrow>
      (\<exists>cs2. TopoSort s l cs2 = Some order \<and> set cs2 \<subseteq> set cs \<and> (\<forall>c \<in> set cs. awaited c = l \<longrightarrow> c \<in> set cs2)))"
proof (induction s cs ws rule: expand_scan.induct)
  case (1 s ws) then show ?case by (auto simp: rev_image_eqI)
next
  case (2 s c cs ws)
  have ex: "edges_exist s cs" "locks s (awaited c) \<noteq> None" using "2.prems"(3) by (auto simp: edges_exist_def)
  show ?case
  proof (cases "awaited c \<in> fst ` set ws")
    case True
    then have run: "expand_scan s cs ws = Some ws'" using "2.prems"(1) by simp
    note ih = "2.IH"(1) [OF True run "2.prems"(2) ex(1)]
    have "awaited c \<in> fst ` set ws'" using ih True by blast
    moreover have "\<exists>cs2. TopoSort s l cs2 = Some order \<and> set cs2 \<subseteq> set (c # cs) \<and> (\<forall>c' \<in> set (c # cs). awaited c' = l \<longrightarrow> c' \<in> set cs2)"
      if new: "(l, order) \<in> set ws'" "l \<notin> fst ` set ws" for l order
    proof -
      obtain cs2 where "TopoSort s l cs2 = Some order" "set cs2 \<subseteq> set cs" "\<forall>c' \<in> set cs. awaited c' = l \<longrightarrow> c' \<in> set cs2"
        using ih new by blast
      moreover have "awaited c \<noteq> l" using new(2) True by blast
      ultimately show ?thesis by (intro exI [of _ cs2]) auto
    qed
    ultimately show ?thesis using ih by simp
  next
    case False
    then obtain order0 where t: "TopoSort s (awaited c) (rev (c # cs)) = Some order0"
      using "2.prems"(1) by (auto split: option.splits)
    let ?ws = "ws @ [(awaited c, order0)]"
    have run: "expand_scan s cs ?ws = Some ws'" using "2.prems"(1) False t by simp
    have perm: "orders_perm s ?ws" using "2.prems"(2) False ex(2) TopoSort_perm [OF t] by (auto simp: orders_perm_def)
    note ih = "2.IH"(2) [OF False t run perm ex(1)]
    have d: "distinct (map fst ws')" using expand_scan_perm [OF run perm ex(1)] by (simp add: orders_perm_def)
    have "\<exists>cs2. TopoSort s l cs2 = Some order \<and> set cs2 \<subseteq> set (c # cs) \<and> (\<forall>c' \<in> set (c # cs). awaited c' = l \<longrightarrow> c' \<in> set cs2)"
      if new: "(l, order) \<in> set ws'" "l \<notin> fst ` set ws" for l order
    proof (cases "l = awaited c")
      case True
      have "(l, order0) \<in> set ws'" using ih True by auto
      then have "order = order0" using d new(1) by (metis eq_key_imp_eq_value)
      then show ?thesis using t True by (intro exI [of _ "rev (c # cs)"]) auto
    next
      case False
      then have "l \<notin> fst ` set ?ws" using new(2) by simp
      then obtain cs2 where "TopoSort s l cs2 = Some order" "set cs2 \<subseteq> set cs" "\<forall>c' \<in> set cs. awaited c' = l \<longrightarrow> c' \<in> set cs2"
        using ih new(1) by blast
      then show ?thesis using False by (intro exI [of _ cs2]) auto
    qed
    moreover have "(awaited c, order0) \<in> set ws'" using ih by auto
    then have "awaited c \<in> fst ` set ws'" by (metis fst_conv image_eqI)
    ultimately show ?thesis using ih by simp
  qed
qed

lemma expand_scan_stuck:
  "expand_scan s cs ws = None \<Longrightarrow> edges_exist s cs \<Longrightarrow> \<exists>l cs2. locks s l \<noteq> None \<and> set cs2 \<subseteq> set cs \<and> TopoSort s l cs2 = None"
proof (induction s cs ws rule: expand_scan.induct)
  case (2 s c cs ws)
  have ex: "edges_exist s cs" "locks s (awaited c) \<noteq> None" using "2.prems"(2) by (auto simp: edges_exist_def)
  show ?case
  proof (cases "awaited c \<in> fst ` set ws")
    case True
    then have "expand_scan s cs ws = None" using "2.prems"(1) by simp
    from "2.IH"(1) [OF True this ex(1)] show ?thesis by (metis set_subset_Cons subset_trans)
  next
    case False
    show ?thesis
    proof (cases "TopoSort s (awaited c) (rev (c # cs))")
      case None then show ?thesis using ex(2) by (intro exI [of _ "awaited c"] exI [of _ "rev (c # cs)"]) auto
    next
      case (Some order)
      then have "expand_scan s cs (ws @ [(awaited c, order)]) = None" using "2.prems"(1) False by simp
      from "2.IH"(2) [OF False Some this ex(1)] show ?thesis by (metis set_subset_Cons subset_trans)
    qed
  qed
qed simp

lemma order_of_mem: "distinct (map fst ws) \<Longrightarrow> (l, order) \<in> set ws \<Longrightarrow> order_of s ws l = order"
proof (induction ws)
  case (Cons w ws) then show ?case by (cases w) (auto simp: order_of_Cons rev_image_eqI)
qed simp

lemma order_of_other: "l \<notin> fst ` set ws \<Longrightarrow> order_of s ws l = queues s l"
  by (induction ws) (auto simp: order_of_def)

lemma ExpandConstraints_spec:
  assumes ok: "locks_ok s" and u: "ungrouped s" and cs: "edges_wait s cs"
  shows "ExpandConstraints s cs = Some ws \<Longrightarrow> c \<in> set cs \<Longrightarrow> precedes (order_of s ws (awaited c)) (waiter c) (blocker c)"
    and "ExpandConstraints s cs = Some ws \<Longrightarrow> locks s l \<noteq> None \<Longrightarrow> precedes (queues s l) x y \<Longrightarrow> precedes (order_of s ws l) y x \<Longrightarrow>
      \<exists>c \<in> set cs. waiter c = y"
    and "ExpandConstraints s cs = None \<Longrightarrow> arrangement s f \<Longrightarrow> \<exists>c \<in> set cs. \<not> precedes (f (awaited c)) (waiter c) (blocker c)"
proof -
  have e0: "orders_perm s []" "edges_exist s (rev cs)" "edges_exist s cs" using edges_wait_exist [OF cs] by (simp_all add: orders_perm_def edges_exist_def)
  have topo: "\<exists>cs2. TopoSort s l cs2 = Some order \<and> set cs2 \<subseteq> set cs \<and> (\<forall>c \<in> set cs. awaited c = l \<longrightarrow> c \<in> set cs2)"
    if "ExpandConstraints s cs = Some ws" "(l, order) \<in> set ws" for ws l order
    using expand_scan_orders [OF that(1) [unfolded ExpandConstraints_def] e0(1,2)] that(2) by auto
  have d: "distinct (map fst ws)" if "ExpandConstraints s cs = Some ws" for ws
    using ExpandConstraints_perm [OF that e0(3)] by (simp add: orders_perm_def)
  show "precedes (order_of s ws (awaited c)) (waiter c) (blocker c)" if run: "ExpandConstraints s cs = Some ws" and c: "c \<in> set cs"
  proof -
    obtain order where o: "(awaited c, order) \<in> set ws"
      using expand_scan_orders [OF run [unfolded ExpandConstraints_def] e0(1,2)] c by fastforce
    obtain cs2 where t: "TopoSort s (awaited c) cs2 = Some order" "c \<in> set cs2" using topo [OF run o] c by blast
    have w: "locks s (awaited c) \<noteq> None" "waiter c \<in> set (queues s (awaited c))" "blocker c \<in> set (queues s (awaited c))"
      using cs c by (auto simp: edges_wait_def)
    show ?thesis
      using TopoSort_spec(1) [OF u queue_distinct [OF ok w(1)] t(1)] t(2) w order_of_mem [OF d [OF run] o, of s] by (simp add: satisfies_def)
  qed
  show "\<exists>c \<in> set cs. waiter c = y" if run: "ExpandConstraints s cs = Some ws" and l: "locks s l \<noteq> None"
    and xy: "precedes (queues s l) x y" "precedes (order_of s ws l) y x"
  proof (cases "l \<in> fst ` set ws")
    case True
    then obtain order where o: "(l, order) \<in> set ws" by auto
    obtain cs2 where "TopoSort s l cs2 = Some order" "set cs2 \<subseteq> set cs" using topo [OF run o] by blast
    then show ?thesis
      using TopoSort_spec(2) [OF u queue_distinct [OF ok l] _ xy(1)] xy(2) order_of_mem [OF d [OF run] o, of s] by blast
  next
    case False
    then show ?thesis using xy precedes_asym [OF queue_distinct [OF ok l]] by (simp add: order_of_other)
  qed
  show "\<exists>c \<in> set cs. \<not> precedes (f (awaited c)) (waiter c) (blocker c)" if run: "ExpandConstraints s cs = None" and f: "arrangement s f"
  proof -
    obtain l cs2 where t: "locks s l \<noteq> None" "set cs2 \<subseteq> set cs" "TopoSort s l cs2 = None"
      using expand_scan_stuck [OF run [unfolded ExpandConstraints_def] e0(2)] by auto
    have "\<not> satisfies cs2 (queues s l) (f l)"
      using TopoSort_spec(3) [OF u queue_distinct [OF ok t(1)] t(3)] f t(1) by (simp add: arrangement_def)
    then obtain c where c: "c \<in> set cs2" "waiter c \<in> set (queues s l)" "\<not> precedes (f l) (waiter c) (blocker c)"
      by (auto simp: satisfies_def)
    have "awaited c = l" using one_queue [OF ok _ t(1) _ c(2)] cs c(1) t(2) by (auto simp: edges_wait_def)
    then show ?thesis using c t(2) by blast
  qed
qed

section \<open>The search is complete\<close>

text \<open>The arcs of a cycle: hard ones are there in every arrangement, soft ones in those that keep the order of the two processes.\<close>

lemma wait_arc_cases:
  assumes ok: "locks_ok s" and u: "ungrouped s" and ws: "orders_perm s ws" and a: "a \<in> set (wait_arcs s ws x)"
  shows "\<not> arc_soft a \<Longrightarrow> waits_on s f x (arc_target a)"
    and "arc_soft a \<Longrightarrow> locks s (arc_lock a) \<noteq> None \<and> x \<in> set (queues s (arc_lock a)) \<and> arc_target a \<in> set (queues s (arc_lock a)) \<and>
      precedes (order_of s ws (arc_lock a)) (arc_target a) x \<and> conflicts (waitLockMode (procs s x)) (waitLockMode (procs s (arc_target a))) \<and>
      (precedes (f (arc_lock a)) (arc_target a) x \<longrightarrow> waits_on s f x (arc_target a))"
proof -
  have w: "is_waiting s x" using a ungrouped_no_arcs [OF u] by fastforce
  obtain l k where l: "waitLock (procs s x) = Some l" "locks s l = Some k" "x \<in> set (waitProcs k)"
      "wait_arcs s ws x = hard_arcs s x x l (procLocks k) @ queue_arcs s ws x x"
      "arc_target ` set (hard_arcs s x x l (procLocks k)) =
        {q. \<exists>pl \<in> set (procLocks k). myProc pl = q \<and> q \<noteq> x \<and> blocked_by (waitLockMode (procs s x)) pl}"
      "arc_target ` set (queue_arcs s ws x x) =
        {q. precedes (order_of s ws l) q x \<and> conflicts (waitLockMode (procs s x)) (waitLockMode (procs s q))}"
    by (rule ungrouped_arcs [OF ok u ws w])
  have la: "lock_at s l = k" using l by (simp add: lock_at_def)
  have soft: "b \<in> set (queue_arcs s ws x x) \<Longrightarrow> arc_soft b \<and> arc_lock b = l" for b
    using l(1) by (auto simp: queue_arcs_def soft_arcs_def Let_def split: option.splits)
  have hard: "b \<in> set (hard_arcs s x x l (procLocks k)) \<Longrightarrow> \<not> arc_soft b" for b by (auto simp: hard_arcs_def)
  show "waits_on s f x (arc_target a)" if h: "\<not> arc_soft a"
  proof -
    have "a \<in> set (hard_arcs s x x l (procLocks k))" using a l(4) soft h by auto
    then have "arc_target a \<in> arc_target ` set (hard_arcs s x x l (procLocks k))" by blast
    then show ?thesis using l(1,5) la w by (auto simp: waits_on_def)
  qed
  assume so: "arc_soft a"
  then have "a \<in> set (queue_arcs s ws x x)" using a l(4) hard by auto
  then have t: "arc_target a \<in> arc_target ` set (queue_arcs s ws x x)" "arc_lock a = l" using soft by blast+
  then have pr: "precedes (order_of s ws l) (arc_target a) x" "conflicts (waitLockMode (procs s x)) (waitLockMode (procs s (arc_target a)))"
    using l(6) by auto
  have "arc_target a \<in> set (queues s l)" using precedes_set [OF pr(1)] order_of_set [OF ws] by blast
  then show "locks s (arc_lock a) \<noteq> None \<and> x \<in> set (queues s (arc_lock a)) \<and> arc_target a \<in> set (queues s (arc_lock a)) \<and>
      precedes (order_of s ws (arc_lock a)) (arc_target a) x \<and> conflicts (waitLockMode (procs s x)) (waitLockMode (procs s (arc_target a))) \<and>
      (precedes (f (arc_lock a)) (arc_target a) x \<longrightarrow> waits_on s f x (arc_target a))"
    using pr l w la t(2) by (simp add: waits_on_def)
qed

text \<open>The conflicting pairs of one queue that an arrangement puts in this order.\<close>

definition pair_of :: "lock_space \<Rightarrow> (LOCKTAG \<Rightarrow> procid list) \<Rightarrow> EDGE \<Rightarrow> bool" where
  "pair_of s f e \<longleftrightarrow> edges_wait s [e] \<and> conflicts (waitLockMode (procs s (waiter e))) (waitLockMode (procs s (blocker e))) \<and>
     precedes (f (awaited e)) (waiter e) (blocker e)"

lemma chain_graph:
  assumes ok: "locks_ok s" and u: "ungrouped s" and ws: "orders_perm s ws"
  shows "chain (wait_arcs s ws) (arc_node s) x path y \<Longrightarrow>
    (\<And>a. a \<in> set path \<Longrightarrow> arc_soft a \<Longrightarrow> precedes (f (arc_lock a)) (arc_target a) (arc_leader a)) \<Longrightarrow> (x, y) \<in> (wait_graph s f)\<^sup>*"
proof (induction path arbitrary: x)
  case (Cons a path)
  then have a: "a \<in> set (wait_arcs s ws x)" by simp
  have "waits_on s f x (arc_target a)"
    using wait_arc_cases [OF ok u ws a, where f = f] Cons.prems(2) [of a] arc_leader_eq [OF a] by (cases "arc_soft a") auto
  moreover have "(arc_target a, y) \<in> (wait_graph s f)\<^sup>*" using Cons.IH [of "arc_target a"] Cons.prems u by (simp add: arc_node_def)
  ultimately show ?case by (auto simp: wait_graph_def intro: converse_rtrancl_into_rtrancl)
qed simp

lemma FindLockCycle_pair:
  assumes ok: "locks_ok s" and u: "ungrouped s" and ws: "orders_perm s ws" and f: "arrangement s f" and acyc: "acyclic (wait_graph s f)"
    and run: "FindLockCycle mb s ws p th = Inr (Some (edges, details), th')"
  obtains e where "e \<in> set edges" "pair_of s f e" "precedes (order_of s ws (awaited e)) (blocker e) (waiter e)"
proof -
  obtain path where path: "path \<noteq> []" "chain (wait_arcs s ws) (arc_node s) p path p" "(edges, details) = cycle_report s path"
    using FindLockCycle_iff(3) [OF run refl] u by (auto simp: wait_path_def)
  obtain a where a: "a \<in> set path" "arc_soft a" "\<not> precedes (f (arc_lock a)) (arc_target a) (arc_leader a)"
  proof -
    have "\<not> (\<forall>a \<in> set path. arc_soft a \<longrightarrow> precedes (f (arc_lock a)) (arc_target a) (arc_leader a))"
    proof
      assume all: "\<forall>a \<in> set path. arc_soft a \<longrightarrow> precedes (f (arc_lock a)) (arc_target a) (arc_leader a)"
      obtain b path' where p: "path = b # path'" using path(1) by (cases path) auto
      have b: "b \<in> set (wait_arcs s ws p)" and rest: "chain (wait_arcs s ws) (arc_node s) (arc_target b) path' p"
        using path(2) p u by (simp_all add: arc_node_def)
      have "waits_on s f p (arc_target b)"
        using wait_arc_cases [OF ok u ws b, where f = f] all p arc_leader_eq [OF b] by (cases "arc_soft b") auto
      then have "(p, arc_target b) \<in> wait_graph s f" by (simp add: wait_graph_def)
      moreover have "(arc_target b, p) \<in> (wait_graph s f)\<^sup>*" by (rule chain_graph [OF ok u ws rest]) (use all p in auto)
      ultimately have "(p, p) \<in> (wait_graph s f)\<^sup>+" by (rule rtrancl_into_trancl2)
      then show False using acyc by (simp add: acyclic_def)
    qed
    then show thesis using that by blast
  qed
  obtain x where x: "a \<in> set (wait_arcs s ws x)" using chain_arcs [OF path(2) a(1)] by blast
  note arc = wait_arc_cases(2) [OF ok u ws x a(2)]
  have lead: "arc_leader a = x" by (rule arc_leader_eq [OF x])
  have d: "distinct (f (arc_lock a))" "set (f (arc_lock a)) = set (queues s (arc_lock a))" using f arc by (auto simp: arrangement_def)
  have ne: "arc_target a \<noteq> x"
    using arc precedes_irrefl [of "order_of s ws (arc_lock a)" x] order_of_mset [OF ws, of "arc_lock a"] queue_distinct [OF ok, of "arc_lock a"]
    by (metis mset_eq_imp_distinct_iff)
  have pr: "precedes (f (arc_lock a)) x (arc_target a)"
    using precedes_total [of x "f (arc_lock a)" "arc_target a"] ne a(3) arc d lead by auto
  have "arc_edge s a \<in> set edges" using path(3) a by (auto simp: cycle_report_def)
  moreover have "pair_of s f (arc_edge s a)" using arc pr lead u by (simp add: pair_of_def edges_wait_def arc_edge_def arc_node_def)
  moreover have "precedes (order_of s ws (awaited (arc_edge s a))) (blocker (arc_edge s a)) (waiter (arc_edge s a))"
    using arc lead u by (simp add: arc_edge_def arc_node_def)
  ultimately show thesis by (rule that)
qed

end
