(* ===== verification/Deadlock_Resolution.thy ===== *)
theory Deadlock_Resolution
  imports Deadlock_Freedom
begin

text \<open>
  The search for an order of the wait queues is complete, and what \<open>DeadLockCheck\<close> and \<open>CheckDeadLock\<close> achieve, for processes without lock groups.
\<close>

section \<open>Every test makes progress\<close>

lemma ungrouped_groups_ok: "ungrouped s \<Longrightarrow> groups_ok s"
  by (simp add: ungrouped_def groups_ok_def)

text \<open>As long as some arrangement without deadlock meets the constraints, a test that fails yields an edge that this arrangement turns round.\<close>

definition progress :: "lock_space \<Rightarrow> (LOCKTAG \<Rightarrow> procid list) \<Rightarrow> EDGE list \<Rightarrow> EDGE list \<Rightarrow> bool" where
  "progress s f cur es \<longleftrightarrow> es = [] \<or> (\<exists>e \<in> set es. pair_of s f e \<and> e \<notin> set cur)"

lemma check_procs_progress:
  assumes ok: "locks_ok s" and u: "ungrouped s" and ws: "orders_perm s ws" and f: "arrangement s f" and acyc: "acyclic (wait_graph s f)"
    and cur: "\<And>c. c \<in> set cur \<Longrightarrow> precedes (order_of s ws (awaited c)) (waiter c) (blocker c)"
  shows "check_procs mb s ws ps es th = Inr (r, th') \<Longrightarrow> progress s f cur es \<Longrightarrow> \<exists>es'. r = Some es' \<and> progress s f cur es'"
proof (induction ps arbitrary: es th)
  case (Cons p ps)
  obtain c th1 where run: "FindLockCycle mb s ws p th = Inr (c, th1)" using Cons.prems by (auto split: sum.splits)
  show ?case
  proof (cases c)
    case None then show ?thesis using Cons.IH [of es th1] Cons.prems run by simp
  next
    case (Some x)
    obtain edges details where x: "x = (edges, details)" by (cases x)
    obtain e where e: "e \<in> set edges" "pair_of s f e" "precedes (order_of s ws (awaited e)) (blocker e) (waiter e)"
      by (rule FindLockCycle_pair [OF ok u ws f acyc run [unfolded Some x]])
    have "distinct (order_of s ws (awaited e))"
      using e(2) order_of_mset [OF ws] queue_distinct [OF ok] by (metis edges_wait_def list.set_intros(1) mset_eq_imp_distinct_iff pair_of_def)
    then have "e \<notin> set cur" using cur e(3) precedes_asym by metis
    then have "progress s f cur edges" using e by (auto simp: progress_def)
    moreover have "edges \<noteq> []" using e(1) by auto
    ultimately show ?thesis using Cons.IH [of edges th1] Cons.prems(1) run Some x by simp
  qed
qed auto

lemma TestConfiguration_progress:
  assumes ok: "locks_ok s" and u: "ungrouped s" and f: "arrangement s f" and acyc: "acyclic (wait_graph s f)"
    and cur: "\<And>c. c \<in> set cur \<Longrightarrow> pair_of s f c" and n: "n + mb \<le> 4 * mb" and run: "TestConfiguration mb s p cur n th = Inr (r, th')"
  obtains es ws where "r = Some (es, ws)" "progress s f cur es"
proof -
  have w: "edges_wait s cur" using cur by (auto simp: pair_of_def edges_wait_def)
  obtain ws where ws: "ExpandConstraints s cur = Some ws"
    using ExpandConstraints_spec(3) [OF ok u w _ f] cur by (cases "ExpandConstraints s cur") (auto simp: pair_of_def)
  have perm: "orders_perm s ws" by (rule ExpandConstraints_perm [OF ws edges_wait_exist [OF w]])
  obtain r1 where c: "check_procs mb s ws (concat (map (\<lambda>c. [waiter c, blocker c]) cur) @ [p]) [] th = Inr (r1, th')"
      "r = map_option (\<lambda>es. (es, ws)) r1"
    using run n ws by (auto simp: TestConfiguration_def split: sum.splits option.splits prod.splits)
  have "\<exists>es'. r1 = Some es' \<and> progress s f cur es'"
    by (rule check_procs_progress [OF ok u perm f acyc ExpandConstraints_spec(1) [OF ok u w ws] c(1)]) (simp_all add: progress_def)
  then show thesis using that c(2) by auto
qed

lemma try_edges_complete:
  assumes test: "\<And>th. \<not> saved \<Longrightarrow> \<exists>ws th'. test th = Inr (Some (edges, ws), th')"
    and rec: "\<And>i th. i \<in> set is \<Longrightarrow> \<exists>r th'. rec (edges ! i) th = Inr (r, th')"
    and some: "\<exists>i \<in> set is. \<forall>th. \<exists>ws th'. rec (edges ! i) th = Inr (Some ws, th')"
  shows "\<exists>ws th'. try_edges test rec saved edges is th = Inr (Some ws, th')"
  using rec some
proof (induction "is" arbitrary: th)
  case (Cons i "is")
  let ?es = "if \<not> saved \<and> i > 0 then
      (case test th of Inl e \<Rightarrow> Inl e | Inr (r, th') \<Rightarrow>
         (case r of None \<Rightarrow> Inl INCONSISTENT_RESULTS
          | Some (es, ws) \<Rightarrow> if length es \<noteq> length edges then Inl INCONSISTENT_RESULTS else Inr (es, th')))
    else Inr (edges, th)"
  obtain th1 where es: "?es = Inr (edges, th1)" using test [of th] by (cases "\<not> saved \<and> i > 0") auto
  obtain r th2 where r: "rec (edges ! i) th1 = Inr (r, th2)" using Cons.prems(1) [of i th1] by auto
  show ?case
  proof (cases r)
    case None
    have "\<exists>j \<in> set is. \<forall>th. \<exists>ws th'. rec (edges ! j) th = Inr (Some ws, th')"
    proof -
      obtain j where j: "j \<in> set (i # is)" "\<forall>th. \<exists>ws th'. rec (edges ! j) th = Inr (Some ws, th')" using Cons.prems(2) by blast
      have "j \<noteq> i" using j(2) r None by (metis Inr_inject Pair_inject option.distinct(1))
      then show ?thesis using j by auto
    qed
    then show ?thesis using Cons.IH [of th2] Cons.prems(1) es r None by simp
  next
    case (Some x) then show ?thesis using es r by simp
  qed
qed simp

lemma pair_card:
  assumes fin: "finite {e. pair_of s f e}" and card: "card {e. pair_of s f e} \<le> length cur" and d: "distinct cur"
    and sub: "\<And>c. c \<in> set cur \<Longrightarrow> pair_of s f c" and e: "pair_of s f e"
  shows "e \<in> set cur"
proof -
  have s: "set cur \<subseteq> {e. pair_of s f e}" using sub by auto
  have "card (set cur) = card {e. pair_of s f e}" using card card_mono [OF fin s] distinct_card [OF d] by simp
  from card_subset_eq [OF fin s this] show ?thesis using e by auto
qed

lemma DeadLockCheckRecurse_complete:
  assumes ok: "locks_ok s" and u: "ungrouped s" and few: "few_procs mb s" and p: "leader_of s p \<in> lock_users s"
    and f: "arrangement s f" and acyc: "acyclic (wait_graph s f)" and fin: "finite {e. pair_of s f e}"
  shows "distinct cur \<Longrightarrow> (\<And>c. c \<in> set cur \<Longrightarrow> pair_of s f c) \<Longrightarrow> edges_ok s cur \<Longrightarrow> card {e. pair_of s f e} \<le> length cur + room \<Longrightarrow>
    n + mb \<le> 4 * mb \<Longrightarrow> \<exists>ws th'. DeadLockCheckRecurse room mb s p cur n th = Inr (Some ws, th')"
proof (induction room arbitrary: cur n th)
  case 0
  obtain r th1 where t: "TestConfiguration mb s p cur n th = Inr (r, th1)" "\<And>es ws. r = Some (es, ws) \<Longrightarrow> edges_ok s es"
    by (rule TestConfiguration_total [OF ok ungrouped_groups_ok [OF u] few 0(3) p]) blast
  obtain es ws where r: "r = Some (es, ws)" "progress s f cur es"
    by (rule TestConfiguration_progress [OF ok u f acyc 0(2) 0(5) t(1)])
  have "es = []" using r(2) pair_card [OF fin _ 0(1,2)] 0(4) by (auto simp: progress_def)
  then show ?case using t(1) r(1) by (subst DeadLockCheckRecurse.simps) simp
next
  case (Suc room)
  obtain r th1 where t: "TestConfiguration mb s p cur n th = Inr (r, th1)" "\<And>es ws. r = Some (es, ws) \<Longrightarrow> edges_ok s es"
    by (rule TestConfiguration_total [OF ok ungrouped_groups_ok [OF u] few Suc.prems(3) p]) blast
  obtain edges ws where r: "r = Some (edges, ws)" "progress s f cur edges"
    by (rule TestConfiguration_progress [OF ok u f acyc Suc.prems(2,5) t(1)])
  show ?case
  proof (cases "edges = []")
    case True then show ?thesis using t(1) r(1) by (subst DeadLockCheckRecurse.simps) simp
  next
    case False
    let ?saved = "n + length edges + mb \<le> 4 * mb" and ?n = "if n + length edges + mb \<le> 4 * mb then n + length edges else n"
    obtain i where i: "i < length edges" "pair_of s f (edges ! i)" "edges ! i \<notin> set cur"
      using r(2) False by (auto simp: progress_def in_set_conv_nth)
    have edges: "edges_ok s (cur @ [edges ! j])" if "j < length edges" for j
      using Suc.prems(3) t(2) [OF r(1)] that by (auto simp: edges_ok_def edges_exist_def)
    have "\<exists>ws th'. try_edges (TestConfiguration mb s p cur ?n) (\<lambda>e. DeadLockCheckRecurse room mb s p (cur @ [e]) ?n) ?saved edges
        [0..<length edges] th1 = Inr (Some ws, th')"
    proof (rule try_edges_complete)
      show "\<exists>ws th'. TestConfiguration mb s p cur ?n th = Inr (Some (edges, ws), th')" if "\<not> ?saved" for th
        using TestConfiguration_again [OF t(1) [unfolded r(1)], of th] that by simp blast
      show "\<exists>r th'. DeadLockCheckRecurse room mb s p (cur @ [edges ! j]) ?n th = Inr (r, th')" if "j \<in> set [0..<length edges]" for j th
        by (rule DeadLockCheckRecurse_total [OF ok ungrouped_groups_ok [OF u] few p edges]) (use that in simp)
      have "\<exists>ws th'. DeadLockCheckRecurse room mb s p (cur @ [edges ! i]) ?n th = Inr (Some ws, th')" for th
        by (rule Suc.IH) (use Suc.prems i edges in auto)
      then show "\<exists>j \<in> set [0..<length edges]. \<forall>th. \<exists>ws th'. DeadLockCheckRecurse room mb s p (cur @ [edges ! j]) ?n th = Inr (Some ws, th')"
        using i(1) by (intro bexI [of _ i]) auto
    qed
    then show ?thesis using t(1) r(1) False by (subst DeadLockCheckRecurse.simps) (simp add: Let_def)
  qed
qed

text \<open>The conflicting pairs of waiters, whatever their order.\<close>

definition conflicting_pairs :: "lock_space \<Rightarrow> (procid \<times> procid) set" where
  "conflicting_pairs s = {(p, q). p < q \<and> is_waiting s p \<and> is_waiting s q \<and> waitLock (procs s p) = waitLock (procs s q) \<and>
     conflicts (waitLockMode (procs s p)) (waitLockMode (procs s q))}"

lemma waiting_in_queue:
  assumes ok: "locks_ok s" and l: "locks s l \<noteq> None" and p: "p \<in> set (queues s l)"
  shows "is_waiting s p" "waitLock (procs s p) = Some l" "waitLockMode (procs s p) \<in> modes"
  using assms by (auto simp: locks_ok_def lock_ok_def waiter_ok_def lock_at_def is_waiting_def)

lemma pairs_bounded:
  assumes ok: "locks_ok s" and f: "arrangement s f" and fin: "finite (conflicting_pairs s)"
  shows "finite {e. pair_of s f e}" "card {e. pair_of s f e} \<le> card (conflicting_pairs s)"
proof -
  let ?g = "\<lambda>e. (min (waiter e) (blocker e), max (waiter e) (blocker e))"
  have pair: "waiter e \<noteq> blocker e" "is_waiting s (waiter e)" "is_waiting s (blocker e)" "waitLock (procs s (waiter e)) = Some (awaited e)"
      "waitLock (procs s (blocker e)) = Some (awaited e)" "waitLockMode (procs s (waiter e)) \<in> modes" "waitLockMode (procs s (blocker e)) \<in> modes"
      "conflicts (waitLockMode (procs s (waiter e))) (waitLockMode (procs s (blocker e)))" "distinct (f (awaited e))"
      "precedes (f (awaited e)) (waiter e) (blocker e)" if e: "pair_of s f e" for e
  proof -
    have l: "locks s (awaited e) \<noteq> None" "waiter e \<in> set (queues s (awaited e))" "blocker e \<in> set (queues s (awaited e))"
      using e by (auto simp: pair_of_def edges_wait_def)
    show d: "distinct (f (awaited e))" using f l(1) by (simp add: arrangement_def)
    show "precedes (f (awaited e)) (waiter e) (blocker e)" "conflicts (waitLockMode (procs s (waiter e))) (waitLockMode (procs s (blocker e)))"
      using e by (simp_all add: pair_of_def)
    then show "waiter e \<noteq> blocker e" using precedes_irrefl [OF d] by metis
    show "is_waiting s (waiter e)" "waitLock (procs s (waiter e)) = Some (awaited e)" "waitLockMode (procs s (waiter e)) \<in> modes"
      by (rule waiting_in_queue [OF ok l(1,2)])+
    show "is_waiting s (blocker e)" "waitLock (procs s (blocker e)) = Some (awaited e)" "waitLockMode (procs s (blocker e)) \<in> modes"
      by (rule waiting_in_queue [OF ok l(1,3)])+
  qed
  have img: "?g ` {e. pair_of s f e} \<subseteq> conflicting_pairs s"
  proof
    fix x assume "x \<in> ?g ` {e. pair_of s f e}"
    then obtain e where e: "pair_of s f e" "x = ?g e" by auto
    note p = pair [OF e(1)]
    have c: "conflicts (waitLockMode (procs s (blocker e))) (waitLockMode (procs s (waiter e)))" using p(8) conflicts_sym [OF p(7,6)] by simp
    show "x \<in> conflicting_pairs s"
      using p(1) unfolding e(2) conflicting_pairs_def by (cases "waiter e < blocker e") (simp_all add: p(2-5,8) c)
  qed
  have inj: "inj_on ?g {e. pair_of s f e}"
  proof (rule inj_onI)
    fix e e' assume e: "e \<in> {e. pair_of s f e}" "e' \<in> {e. pair_of s f e}" and eq: "?g e = ?g e'"
    note p = pair [of e] and p' = pair [of e']
    have "(waiter e = waiter e' \<and> blocker e = blocker e') \<or> (waiter e = blocker e' \<and> blocker e = waiter e')"
      using eq by (auto simp: min_def max_def split: if_splits)
    moreover from this have l: "awaited e = awaited e'" using p(4,5) p'(4,5) e by auto
    ultimately show "e = e'" using p(9,10) p'(10) e precedes_asym by (metis EDGE.equality mem_Collect_eq unit.exhaust)
  qed
  show "finite {e. pair_of s f e}" using finite_imageD [OF finite_subset [OF img fin] inj] .
  show "card {e. pair_of s f e} \<le> card (conflicting_pairs s)" using card_inj_on_le [OF inj img fin] .
qed

section \<open>The deadlock check\<close>

lemma FindLockCycle_edges_wait:
  assumes ok: "locks_ok s" and u: "ungrouped s" and ws: "orders_perm s ws"
    and run: "FindLockCycle mb s ws p th = Inr (Some (edges, details), th')"
  shows "edges_wait s edges"
proof -
  obtain path where path: "chain (wait_arcs s ws) (arc_node s) p path p" "(edges, details) = cycle_report s path"
    using FindLockCycle_iff(3) [OF run refl] u by (auto simp: wait_path_def)
  have "edges_wait s [arc_edge s a]" if a: "a \<in> set path" "arc_soft a" for a
  proof -
    obtain x where x: "a \<in> set (wait_arcs s ws x)" using chain_arcs [OF path(1) a(1)] by blast
    show ?thesis
      using wait_arc_cases(2) [OF ok u ws x a(2)] arc_leader_eq [OF x] u by (simp add: edges_wait_def arc_edge_def arc_node_def)
  qed
  then show ?thesis using path(2) by (auto simp: edges_wait_def cycle_report_def)
qed

lemma TestConfiguration_edges_wait:
  assumes ok: "locks_ok s" and u: "ungrouped s" and run: "TestConfiguration mb s p cur n th = Inr (Some (es, ws), th')" and cur: "edges_wait s cur"
  shows "edges_wait s es"
proof -
  have ws: "ExpandConstraints s cur = Some ws"
    and c: "check_procs mb s ws (concat (map (\<lambda>c. [waiter c, blocker c]) cur) @ [p]) [] th = Inr (Some es, th')"
    using run by (auto simp: TestConfiguration_def split: sum.splits prod.splits option.splits if_splits)
  have perm: "orders_perm s ws" by (rule ExpandConstraints_perm [OF ws edges_wait_exist [OF cur]])
  show ?thesis
    by (rule check_procs_edges [where Q = "edges_wait s", OF FindLockCycle_edges_wait [OF ok u perm] c]) (simp_all add: edges_wait_def)
qed

lemma edges_wait_all:
  "edges_wait s =
    list_all (\<lambda>c. locks s (awaited c) \<noteq> None \<and> waiter c \<in> set (queues s (awaited c)) \<and> blocker c \<in> set (queues s (awaited c)))"
  by (simp add: edges_wait_def list_all_iff fun_eq_iff)

text \<open>If every edge that was added leads to a process on no cycle, every cycle was there before.\<close>

lemma cycles_were_there:
  assumes new: "\<And>x y. (x, y) \<in> R' \<Longrightarrow> (x, y) \<notin> R \<Longrightarrow> (y, y) \<notin> R'\<^sup>+" and cyc: "(q, q) \<in> R'\<^sup>+"
  shows "(q, q) \<in> R\<^sup>+"
proof -
  have "(x, y) \<in> R'\<^sup>+ \<Longrightarrow> (y, x) \<in> R'\<^sup>* \<Longrightarrow> (x, y) \<in> R\<^sup>+" for x y
  proof (induction rule: trancl_induct)
    case (base y)
    then have "(y, y) \<in> R'\<^sup>+" by (meson rtrancl_into_trancl1)
    then show ?case using new base by blast
  next
    case (step y z)
    have "(x, z) \<in> R'\<^sup>+" using step.hyps by simp
    then have "(z, z) \<in> R'\<^sup>+" using step.prems by (meson rtrancl_trancl_trancl)
    then have "(y, z) \<in> R" using new step.hyps(2) by blast
    moreover have "(y, x) \<in> R'\<^sup>*" using step.hyps(2) step.prems by (rule converse_rtrancl_into_rtrancl)
    ultimately show ?case using step.IH by simp
  qed
  then show ?thesis using cyc by blast
qed

text \<open>Tested orders: the process is on no cycle, and there is no new cycle.\<close>

lemma tested_orders:
  assumes ok: "locks_ok s" and u: "ungrouped s" and cur: "edges_wait s cur"
    and run: "TestConfiguration mb s p cur n th = Inr (Some ([], ws), th')"
  shows "(p, p) \<notin> (wait_graph s (order_of s ws))\<^sup>+"
    and "(q, q) \<in> (wait_graph s (order_of s ws))\<^sup>+ \<Longrightarrow> (q, q) \<in> (wait_graph s (queues s))\<^sup>+"
proof -
  note cl = TestConfiguration_clear [OF run]
  have perm: "orders_perm s ws" by (rule ExpandConstraints_perm [OF cl(1) edges_wait_exist [OF cur]])
  note eq = waits_for_graph [OF ok u perm]
  show "(p, p) \<notin> (wait_graph s (order_of s ws))\<^sup>+" using cl(2) u by (simp add: eq)
  show "(q, q) \<in> (wait_graph s (queues s))\<^sup>+" if "(q, q) \<in> (wait_graph s (order_of s ws))\<^sup>+"
  proof (rule cycles_were_there [OF _ that])
    fix x y assume xy: "(x, y) \<in> wait_graph s (order_of s ws)" "(x, y) \<notin> wait_graph s (queues s)"
    obtain l where l: "is_waiting s x" "waitLock (procs s x) = Some l" using xy(1) by (auto simp: wait_graph_def waits_on_def is_waiting_def)
    have pr: "precedes (order_of s ws l) y x" "\<not> precedes (queues s l) y x" using xy l by (auto simp: wait_graph_def waits_on_def)
    obtain l' k where k: "waitLock (procs s x) = Some l'" "locks s l' = Some k" by (rule is_waiting_lock [OF ok l(1)])
    then have lk: "locks s l \<noteq> None" using l(2) by simp
    have "x \<noteq> y"
      using pr(1) precedes_irrefl [of "order_of s ws l"] order_of_mset [OF perm, of l] queue_distinct [OF ok lk] by (metis mset_eq_imp_distinct_iff)
    then have "precedes (queues s l) x y"
      using pr precedes_set [OF pr(1)] order_of_set [OF perm, of l] precedes_total [of x "queues s l" y] by auto
    then obtain c where "c \<in> set cur" "waiter c = y" using ExpandConstraints_spec(2) [OF ok u cur cl(1) lk _ pr(1)] by blast
    then show "(y, y) \<notin> (wait_graph s (order_of s ws))\<^sup>+" using cl(3) u by (auto simp: eq)
  qed
qed

lemma conflicting_pairs_finite:
  assumes ok: "locks_ok s" and u: "ungrouped s" and few: "few_procs mb s" shows "finite (conflicting_pairs s)"
proof (rule finite_subset)
  show "conflicting_pairs s \<subseteq> lock_users s \<times> lock_users s"
    using waiting_user [OF ok] u by (auto simp: conflicting_pairs_def is_waiting_def)
qed (use few in \<open>simp add: few_procs_def\<close>)

lemma DeadLockCheck_resolves:
  assumes t: "table_ok sib s" and th: "thread_ok sib th" and u: "ungrouped s" and few: "few_procs mb s" and p: "links (procs s p)"
    and run: "DeadLockCheck mb p (th, s) = Inr ((state, details), th', s')"
  shows "state = DS_HARD_DEADLOCK \<Longrightarrow> s' = s \<and> (p, p) \<in> (wait_graph s (queues s))\<^sup>+"
    and "state = DS_HARD_DEADLOCK \<Longrightarrow> card (conflicting_pairs s) \<le> mb \<Longrightarrow> arrangement s f \<Longrightarrow> \<not> acyclic (wait_graph s f)"
    and "state \<noteq> DS_HARD_DEADLOCK \<Longrightarrow> (p, p) \<notin> (wait_graph s' (queues s'))\<^sup>+"
    and "(q, q) \<in> (wait_graph s' (queues s'))\<^sup>+ \<Longrightarrow> (q, q) \<in> (wait_graph s (queues s))\<^sup>+"
proof -
  let ?th = "th\<lparr>blocking_autovacuum_proc := []\<rparr>"
  have ok: "locks_ok s" using t by (simp add: table_ok_def)
  have perm0: "orders_perm s []" by (simp add: orders_perm_def)
  have "same_thread th ?th" by (simp add: same_thread_def)
  then have th0: "thread_ok sib ?th" using th by (simp add: thread_ok_same)
  obtain r th1 where r: "DeadLockCheckRecurse mb mb s p [] 0 ?th = Inr (r, th1)" using run by (auto simp: DeadLockCheck_def split: sum.splits)
  have th1: "thread_ok sib th1" using DeadLockCheckRecurse_thread [OF r] th0 by (simp add: thread_ok_same)
  have hard: "r = None" "s' = s" "(p, p) \<in> (wait_graph s (queues s))\<^sup>+" if h: "r = None"
  proof -
    obtain c th2 where fc: "FindLockCycle mb s [] p th1 = Inr (Some c, th2)" "s' = s"
      using run r h by (cases "FindLockCycle mb s [] p th1") (auto simp: DeadLockCheck_def split: option.splits prod.splits)
    show "r = None" "s' = s" using h fc by simp_all
    show "(p, p) \<in> (wait_graph s (queues s))\<^sup>+"
      using FindLockCycle_iff(1) [OF fc(1)] waits_for_graph [OF ok u perm0] u by simp
  qed
  have soft: "state \<noteq> DS_HARD_DEADLOCK" "(p, p) \<notin> (wait_graph s' (queues s'))\<^sup>+"
      "(q, q) \<in> (wait_graph s' (queues s'))\<^sup>+ \<Longrightarrow> (q, q) \<in> (wait_graph s (queues s))\<^sup>+" if o: "r = Some orders" for orders q
  proof -
    have "\<exists>cur n th th'. edges_wait s cur \<and> TestConfiguration mb s p cur n th = Inr (Some ([], orders), th')"
      unfolding edges_wait_all
      by (rule DeadLockCheckRecurse_tested [OF _ r [unfolded o]]) (use TestConfiguration_edges_wait [OF ok u] in \<open>auto simp: edges_wait_all\<close>)
    then obtain cur n tha thb where tc: "edges_wait s cur" "TestConfiguration mb s p cur n tha = Inr (Some ([], orders), thb)" by blast
    note tested = tested_orders [OF ok u tc]
    have perm: "orders_perm s orders" using ExpandConstraints_perm [OF TestConfiguration_clear(1) [OF tc(2)] edges_wait_exist [OF tc(1)]] .
    have s': "s' = snd (fold rearrange orders (th1, s))" and st: "state \<noteq> DS_HARD_DEADLOCK"
      using run r o by (auto simp: DeadLockCheck_def split: prod.splits option.splits if_splits)
    show "state \<noteq> DS_HARD_DEADLOCK" by (rule st)
    have sub: "wait_graph s' (queues s') \<subseteq> wait_graph s (order_of s orders)" unfolding s' by (rule rearrange_all_graph [OF t th1 perm])
    show "(p, p) \<notin> (wait_graph s' (queues s'))\<^sup>+" using tested(1) trancl_mono [OF _ sub] by blast
    show "(q, q) \<in> (wait_graph s (queues s))\<^sup>+" if "(q, q) \<in> (wait_graph s' (queues s'))\<^sup>+"
      using tested(2) trancl_mono [OF that sub] by blast
  qed
  show "s' = s \<and> (p, p) \<in> (wait_graph s (queues s))\<^sup>+" if "state = DS_HARD_DEADLOCK" using hard soft(1) that by (cases r) auto
  show "(p, p) \<notin> (wait_graph s' (queues s'))\<^sup>+" if "state \<noteq> DS_HARD_DEADLOCK"
  proof (cases r)
    case None
    then show ?thesis using run r that by (auto simp: DeadLockCheck_def split: sum.splits prod.splits option.splits)
  next
    case (Some orders) then show ?thesis using soft(2) by blast
  qed
  show "(q, q) \<in> (wait_graph s (queues s))\<^sup>+" if "(q, q) \<in> (wait_graph s' (queues s'))\<^sup>+"
    using hard(2) soft(3) that by (cases r) auto
  show "\<not> acyclic (wait_graph s f)" if h: "state = DS_HARD_DEADLOCK" and few2: "card (conflicting_pairs s) \<le> mb" and f: "arrangement s f"
  proof
    assume acyc: "acyclic (wait_graph s f)"
    note fin = conflicting_pairs_finite [OF ok u few]
    note pb = pairs_bounded [OF ok f fin]
    have "\<exists>ws th'. DeadLockCheckRecurse mb mb s p [] 0 ?th = Inr (Some ws, th')"
      by (rule DeadLockCheckRecurse_complete [OF ok u few waiting_user [OF ok p] f acyc pb(1)])
        (use pb(2) few2 in \<open>auto simp: edges_ok_def edges_exist_def\<close>)
    then show False using r h soft(1) by auto
  qed
qed

section \<open>Giving up\<close>

lemma not_waiting_no_cycle: "\<not> links (procs s p) \<Longrightarrow> (p, p) \<notin> (wait_graph s f)\<^sup>+"
proof
  assume p: "\<not> links (procs s p)" and c: "(p, p) \<in> (wait_graph s f)\<^sup>+"
  obtain q where "(p, q) \<in> wait_graph s f" using tranclD [OF c] by blast
  then show False using p by (simp add: wait_graph_def waits_on_def is_waiting_def)
qed

text \<open>A smaller queue, and fewer locks held, give fewer edges.\<close>

lemma wait_graph_less:
  assumes w: "\<And>x. is_waiting s' x \<Longrightarrow> procs s' x = procs s x" and mode: "\<And>x. waitLockMode (procs s' x) = waitLockMode (procs s x)"
    and pl: "\<And>x l pl. is_waiting s' x \<Longrightarrow> waitLock (procs s x) = Some l \<Longrightarrow> pl \<in> set (procLocks (lock_at s' l)) \<Longrightarrow> pl \<in> set (procLocks (lock_at s l))"
    and q: "\<And>x y l. is_waiting s' x \<Longrightarrow> waitLock (procs s x) = Some l \<Longrightarrow> precedes (f' l) y x \<Longrightarrow> precedes (f l) y x"
  shows "wait_graph s' f' \<subseteq> wait_graph s f"
proof -
  have "waits_on s f x y" if xy: "waits_on s' f' x y" for x y
  proof -
    have iw: "is_waiting s' x" using xy by (simp add: waits_on_def)
    note same = w [OF iw]
    obtain l where l: "waitLock (procs s x) = Some l" using iw same by (auto simp: is_waiting_def)
    have "is_waiting s x" using iw same by (simp add: is_waiting_def)
    then show ?thesis using xy l same pl [OF iw l] q [OF iw l, of y] by (auto simp: waits_on_def mode)
  qed
  then show ?thesis by (auto simp: wait_graph_def)
qed

lemma RemoveFromWaitQueue_graph:
  assumes t: "table_ok sib s" and p: "links (procs s p)"
  shows "wait_graph (snd (RemoveFromWaitQueue p (th, s))) (queues (snd (RemoveFromWaitQueue p (th, s)))) \<subseteq> wait_graph s (queues s)"
proof -
  let ?F = "\<lambda>k. withdraw_entry (waitLockMode (procs s p)) (dequeue_entry p k)"
  obtain l k where step: "locks s l = Some k" "p \<in> set (waitProcs k)" "RemoveFromWaitQueue p (th, s) = CleanUpLock l p True (th, leave_queue l p s)"
    "at_lock (leave_queue l p s) l None (Some p) (?F k)" "p \<notin> set (waitProcs (?F k))"
    by (rule RemoveFromWaitQueue_step [OF t p, of th])
  let ?s1 = "leave_queue l p s" and ?s2 = "drop_empty_proclock l p (leave_queue l p s)" and ?k2 = "drop_entry p (?F k)"
  have a2: "at_lock ?s2 l None None ?k2"
    unfolding drop_empty_proclock_entry
  proof (rule at_lock_change [OF step(4)])
    show "lock_ok ?s1 l None None ?k2" using step(4,5) by (simp add: at_lock_def lock_ok_drop)
  qed (simp add: drop_entry_def)
  have la: "lock_at ?s2 l' = (if l' = l then ?k2 else lock_at s l')" for l'
    using a2 by (auto simp: at_lock_def lock_at_def drop_empty_proclock_entry leave_queue_def)
  have lk: "lock_at s l = k" using step(1) by (simp add: lock_at_def)
  have pr: "procs ?s2 = procs ?s1" by (simp add: drop_empty_proclock_entry)
  have same: "procs ?s2 x = procs s x" if "is_waiting ?s2 x" for x
    using that unfolding is_waiting_def pr by (cases "x = p") (simp_all add: leave_queue_def)
  have k2: "procLocks ?k2 = filter (\<lambda>pl. \<not> (myProc pl = p \<and> holdMask pl = 0)) (procLocks k)" "waitProcs ?k2 = remove1 p (waitProcs k)"
    by (simp_all add: drop_entry_def withdraw_entry_def dequeue_entry_def)
  have rem: "precedes (remove1 p xs) y x \<Longrightarrow> precedes xs y x" for xs x y
  proof (induction xs)
    case (Cons z zs) then show ?case using set_remove1_subset [of p zs] by (auto split: if_splits)
  qed simp
  have sub2: "wait_graph ?s2 (queues ?s2) \<subseteq> wait_graph s (queues s)"
  proof (rule wait_graph_less [OF same])
    show "waitLockMode (procs ?s2 x) = waitLockMode (procs s x)" for x unfolding pr by (simp add: leave_queue_def)
    show "pl \<in> set (procLocks (lock_at s l'))" if "pl \<in> set (procLocks (lock_at ?s2 l'))" for l' pl
      using that lk by (auto simp: la k2 split: if_splits)
    show "precedes (queues s l') y x" if "precedes (queues ?s2 l') y x" for x y l'
      using that rem lk by (auto simp: la k2 split: if_splits)
  qed
  have wake: "wait_graph (snd (ProcLockWakeup l (th, ?s2))) (queues (snd (ProcLockWakeup l (th, ?s2)))) \<subseteq> wait_graph ?s2 (queues ?s2)"
  proof -
    let ?s3 = "snd (ProcLockWakeup l (th, ?s2))"
    obtain k3 where "wakes_only l ?s2 ?k2 ?s3 k3" by (rule ProcLockWakeup_wakes_only [OF a2])
    then have "queues ?s3 l' = ((queues ?s2)(l := queues ?s3 l)) l'" for l' by (simp add: wakes_only_def lock_at_def)
    then have "queues ?s3 = (queues ?s2)(l := queues ?s3 l)" by (rule ext)
    moreover have "queues ?s2 l = waitProcs ?k2" by (simp add: la)
    ultimately show ?thesis using ProcLockWakeup_graph [where f = "queues ?s2", OF a2, of th] by metis
  qed
  have zero: "nRequested ?k2 = 0 \<longleftrightarrow> procLocks ?k2 = []" using a2 nRequested_zero_iff by (auto simp: at_lock_def)
  have del: "wait_graph (?s2\<lparr>locks := (locks ?s2)(l := None)\<rparr>) (queues (?s2\<lparr>locks := (locks ?s2)(l := None)\<rparr>)) \<subseteq> wait_graph ?s2 (queues ?s2)"
    if no: "procLocks ?k2 = []"
  proof (rule wait_graph_less)
    have "waitLock (procs ?s2 x) \<noteq> Some l" if "is_waiting ?s2 x" for x
      using waits_here_iff [OF a2 that] no_waiters [OF a2 no] by auto
    then have l: "l' \<noteq> l" if "is_waiting (?s2\<lparr>locks := (locks ?s2)(l := None)\<rparr>) x" "waitLock (procs ?s2 x) = Some l'" for x l'
      using that by (auto simp: is_waiting_def)
    show "pl \<in> set (procLocks (lock_at ?s2 l'))"
      if "is_waiting (?s2\<lparr>locks := (locks ?s2)(l := None)\<rparr>) x" "waitLock (procs ?s2 x) = Some l'"
        "pl \<in> set (procLocks (lock_at (?s2\<lparr>locks := (locks ?s2)(l := None)\<rparr>) l'))" for x l' pl
      using that(3) l [OF that(1,2)] by (simp add: lock_at_def)
    show "precedes (queues ?s2 l') y x"
      if "is_waiting (?s2\<lparr>locks := (locks ?s2)(l := None)\<rparr>) x" "waitLock (procs ?s2 x) = Some l'"
        "precedes (queues (?s2\<lparr>locks := (locks ?s2)(l := None)\<rparr>) l') y x" for x y l'
      using that(3) l [OF that(1,2)] by (simp add: lock_at_def)
  qed simp_all
  have "snd (RemoveFromWaitQueue p (th, s)) = (if nRequested ?k2 = 0 then ?s2\<lparr>locks := (locks ?s2)(l := None)\<rparr> else snd (ProcLockWakeup l (th, ?s2)))"
    unfolding step(3) CleanUpLock_def Let_def fst_conv snd_conv la by simp
  then show ?thesis using del wake sub2 zero by (auto simp only: split: if_splits)
qed

text \<open>After the check the process is in no deadlock, and no deadlock has been created.\<close>

lemma CheckDeadLock_graph:
  assumes t: "table_ok sib s" and th: "thread_ok sib th" and u: "ungrouped s" and few: "few_procs mb s"
    and run: "CheckDeadLock mb (th, s) = Inr (state, th', s')"
  shows "(me th, me th) \<notin> (wait_graph s' (queues s'))\<^sup>+"
    and "(q, q) \<in> (wait_graph s' (queues s'))\<^sup>+ \<Longrightarrow> (q, q) \<in> (wait_graph s (queues s))\<^sup>+"
    and "state = Some DS_HARD_DEADLOCK \<Longrightarrow> (me th, me th) \<in> (wait_graph s (queues s))\<^sup>+"
    and "state = Some DS_HARD_DEADLOCK \<Longrightarrow> card (conflicting_pairs s) \<le> mb \<Longrightarrow> arrangement s f \<Longrightarrow> \<not> acyclic (wait_graph s f)"
proof -
  have "(me th, me th) \<notin> (wait_graph s' (queues s'))\<^sup>+ \<and>
    (\<forall>q. (q, q) \<in> (wait_graph s' (queues s'))\<^sup>+ \<longrightarrow> (q, q) \<in> (wait_graph s (queues s))\<^sup>+) \<and>
    (state = Some DS_HARD_DEADLOCK \<longrightarrow> (me th, me th) \<in> (wait_graph s (queues s))\<^sup>+ \<and>
      (card (conflicting_pairs s) \<le> mb \<longrightarrow> (\<forall>f. arrangement s f \<longrightarrow> \<not> acyclic (wait_graph s f))))"
  proof (cases "links (procs s (me th))")
    case False
    then show ?thesis using run not_waiting_no_cycle [OF False] by (auto simp: CheckDeadLock_def)
  next
    case True
    obtain st details th1 s1 where d: "DeadLockCheck mb (me th) (th, s) = Inr ((st, details), th1, s1)"
      using run True by (cases "DeadLockCheck mb (me th) (th, s)") (auto simp: CheckDeadLock_def)
    have st: "state = Some st" "(th', s') = (if st = DS_HARD_DEADLOCK then RemoveFromWaitQueue (me th) (th1, s1) else (th1, s1))"
      using run True d by (simp_all add: CheckDeadLock_def split: if_splits)
    note res = DeadLockCheck_resolves [OF t th u few True d]
    show ?thesis
    proof (cases "st = DS_HARD_DEADLOCK")
      case False then show ?thesis using res(3,4) st by auto
    next
      case hard: True
      have s1: "s1 = s" using res(1) [OF hard] by simp
      have s': "s' = snd (RemoveFromWaitQueue (me th) (th1, s))" using st(2) hard s1 by (metis snd_conv)
      have "wait_graph s' (queues s') \<subseteq> wait_graph s (queues s)" unfolding s' by (rule RemoveFromWaitQueue_graph [OF t True])
      then have "(q, q) \<in> (wait_graph s (queues s))\<^sup>+" if "(q, q) \<in> (wait_graph s' (queues s'))\<^sup>+" for q using trancl_mono [OF that] by blast
      moreover have "(me th, me th) \<notin> (wait_graph s' (queues s'))\<^sup>+"
        unfolding s' by (rule not_waiting_no_cycle [OF RemoveFromWaitQueue_unlinked])
      ultimately show ?thesis using res(1,2) [OF hard] by blast
    qed
  qed
  then show "(me th, me th) \<notin> (wait_graph s' (queues s'))\<^sup>+" "(q, q) \<in> (wait_graph s' (queues s'))\<^sup>+ \<Longrightarrow> (q, q) \<in> (wait_graph s (queues s))\<^sup>+"
    "state = Some DS_HARD_DEADLOCK \<Longrightarrow> (me th, me th) \<in> (wait_graph s (queues s))\<^sup>+"
    "state = Some DS_HARD_DEADLOCK \<Longrightarrow> card (conflicting_pairs s) \<le> mb \<Longrightarrow> arrangement s f \<Longrightarrow> \<not> acyclic (wait_graph s f)"
    by blast+
qed

lemma CheckDeadLock_total:
  assumes ok: "locks_ok s" "groups_ok s" and few: "few_procs mb s"
  obtains state th' s' where "CheckDeadLock mb (th, s) = Inr (state, th', s')"
proof (cases "links (procs s (me th))")
  case False then show thesis using that by (simp add: CheckDeadLock_def)
next
  case True
  obtain st details th1 s1 where "DeadLockCheck mb (me th) (th, s) = Inr ((st, details), th1, s1)"
    by (rule DeadLockCheck_total [OF ok few True])
  then have "CheckDeadLock mb (th, s) = Inr (Some st, if st = DS_HARD_DEADLOCK then RemoveFromWaitQueue (me th) (th1, s1) else (th1, s1))"
    using True by (simp add: CheckDeadLock_def)
  then show thesis using that by (metis prod.collapse)
qed

end
