(* ===== verification/Lock_Manager.thy ===== *)
theory Lock_Manager
  imports Lock_Examples Deadlock_Resolution
begin

text \<open>
  The properties of the lock manager and the deadlock detector, for every state that processes can reach by requesting, releasing and giving up locks,
  checking for deadlocks and joining lock groups.
\<close>

lemma DoLockModesConflict_conflicts: "DoLockModesConflict i j \<longleftrightarrow> conflicts i j"
  by (simp add: DoLockModesConflict_def conflicts_def)

section \<open>Granting and waiting\<close>

text \<open>
  C3. Processes never hold conflicting locks on an object at the same time, unless they belong to one lock group or are threads of one stream query.
\<close>

theorem granted_locks_are_compatible:
  assumes "lock_reachable sib mb s" "holds s l p i" "DoLockModesConflict i j" "leader_of s p \<noteq> leader_of s q" "\<not> sib p q"
  shows "\<not> holds s l q j"
proof
  assume q: "holds s l q j"
  obtain k pl pl' where k: "locks s l = Some k" "pl \<in> set (procLocks k)" "myProc pl = p" "bit (holdMask pl) i"
      "pl' \<in> set (procLocks k)" "myProc pl' = q" "bit (holdMask pl') j"
    using assms(2) q by (auto simp: holds_def split: option.splits)
  note a = table_ok_at [OF lock_reachable_ok [OF assms(1)] k(1)]
  have "companions sib pl pl'" using a(4) k assms(3) by (auto simp: conflict_free_def DoLockModesConflict_conflicts)
  moreover have "groupLeader x = leader_of s (myProc x)" if "x \<in> set (procLocks k)" for x
    using a(1) that by (auto simp: at_lock_def lock_ok_def proclock_ok_def)
  ultimately show False using assms(4,5) k by (auto simp: companions_def)
qed

theorem granted_locks_are_compatible_witness:
  "lock_reachable alone 10 jam \<and> holds jam (relation_tag 1) 1 8 \<and> DoLockModesConflict 8 8 \<and> leader_of jam 1 \<noteq> leader_of jam 2 \<and>
   \<not> holds jam (relation_tag 1) 2 8"
proof -
  have h: "holds jam (relation_tag 1) 1 8" "DoLockModesConflict 8 8" "leader_of jam 1 \<noteq> leader_of jam 2"
    by (simp_all add: jam_def holds_def contested_def DoLockModesConflict_def exclusive_masks leader_of_def backend_waiting_def backend_def)
  show ?thesis using granted_locks_are_compatible [OF jam_reachable h] jam_reachable h by blast
qed

text \<open>
  C4. No wakeup is lost: a process that waits is in the queue of the lock it asked for, and somebody is in its way, either a process of another group that holds
  a conflicting lock, or one ahead of it in the queue that wants a conflicting one.
\<close>

theorem waiters_are_held_up:
  assumes "lock_reachable sib mb s" "links (procs s p)"
  shows "\<exists>l k. locks s l = Some k \<and> waitLock (procs s p) = Some l \<and> p \<in> set (waitProcs k) \<and>
    ((\<exists>q i. holds s l q i \<and> leader_of s q \<noteq> leader_of s p \<and> DoLockModesConflict (waitLockMode (procs s p)) i) \<or>
     (\<exists>q \<in> set (takeWhile (\<lambda>x. x \<noteq> p) (waitProcs k)). DoLockModesConflict (waitLockMode (procs s p)) (waitLockMode (procs s q))))"
proof -
  note t = lock_reachable_ok [OF assms(1)]
  obtain l k where k: "locks s l = Some k" "p \<in> set (waitProcs k)" using t assms(2) by (auto simp: table_ok_def locks_ok_def links_ok_def)
  note a = table_ok_at [OF t k(1)]
  have w: "waitLock (procs s p) = Some l" using at_lock_waiter [OF a(1) k(2)] by (simp add: waiter_ok_def)
  have lead: "groupLeader x = leader_of s (myProc x)" if "x \<in> set (procLocks k)" for x
    using a(1) that by (auto simp: at_lock_def lock_ok_def proclock_ok_def)
  have "held_up s k p" using a(5) k(2) by (simp add: no_lost_wakeup_def)
  then have "(\<exists>q i. holds s l q i \<and> leader_of s q \<noteq> leader_of s p \<and> DoLockModesConflict (waitLockMode (procs s p)) i) \<or>
     (\<exists>q \<in> set (takeWhile (\<lambda>x. x \<noteq> p) (waitProcs k)). DoLockModesConflict (waitLockMode (procs s p)) (waitLockMode (procs s q)))"
    unfolding held_up_def DoLockModesConflict_conflicts using k(1) lead by (fastforce simp: holds_def blocked_by_def)
  then show ?thesis using k w by blast
qed

theorem waiters_are_held_up_witness:
  "lock_reachable alone 10 jam \<and> links (procs jam 2) \<and> (\<exists>l k. locks jam l = Some k \<and> waitLock (procs jam 2) = Some l \<and> 2 \<in> set (waitProcs k) \<and>
    ((\<exists>q i. holds jam l q i \<and> leader_of jam q \<noteq> leader_of jam 2 \<and> DoLockModesConflict (waitLockMode (procs jam 2)) i) \<or>
     (\<exists>q \<in> set (takeWhile (\<lambda>x. x \<noteq> 2) (waitProcs k)). DoLockModesConflict (waitLockMode (procs jam 2)) (waitLockMode (procs jam q)))))"
proof -
  have l: "links (procs jam 2)" by (simp add: jam_def backend_waiting_def)
  show ?thesis using waiters_are_held_up [OF jam_reachable l] jam_reachable l by blast
qed

text \<open>
  C19. The counts and masks of a lock say what its holders and waiters are: for every mode the grants are the processes that hold it, the requests the
  grants and the waiters, the totals are sums over the modes, and a mode is in a mask exactly if its count is positive.
\<close>

theorem lock_counts_are_exact:
  assumes "lock_reachable sib mb s" "locks s l = Some k"
  shows "granted k i = int (length (filter (\<lambda>pl. bit (holdMask pl) i) (procLocks k))) \<and>
    requested k i = granted k i + int (length (filter (\<lambda>p. waitLockMode (procs s p) = i) (waitProcs k))) \<and>
    nGranted k = (\<Sum>i \<in> {1..8}. granted k i) \<and> nRequested k = (\<Sum>i \<in> {1..8}. requested k i) \<and> nRequested k > 0 \<and>
    (bit (grantMask k) i \<longleftrightarrow> granted k i > 0) \<and> (bit (waitMask k) i \<longleftrightarrow> requested k i > granted k i)"
proof -
  note a = table_ok_at [OF lock_reachable_ok [OF assms(1)] assms(2)]
  have c: "counts_ok (procs s) None k" using a(1) by (simp add: at_lock_def lock_ok_def)
  have "nRequested k \<noteq> 0" using a(1,2) nRequested_zero_iff by (auto simp: at_lock_def)
  moreover have "nRequested k = (\<Sum>i \<in> modes. requested k i)" "\<And>i. requested k i \<ge> 0"
    using c counts_nonneg(1) [of k] counts_nonneg(2) [of "procs s" k] by (auto simp: counts_ok_def pending_def)
  then have "nRequested k \<ge> 0" by (simp add: sum_nonneg)
  ultimately show ?thesis using c counts_nonneg(2) [of "procs s" k i] by (auto simp: counts_ok_def pending_def holders_def waiters_def)
qed

theorem lock_counts_are_exact_witness:
  "lock_reachable alone 10 jam \<and> locks jam (relation_tag 1) = Some (contested 1 2) \<and> granted (contested 1 2) 8 = 1 \<and> requested (contested 1 2) 8 = 2 \<and>
   nRequested (contested 1 2) > 0"
proof -
  have k: "locks jam (relation_tag 1) = Some (contested 1 2)" by (simp add: jam_def)
  note c = lock_counts_are_exact [OF jam_reachable k, of 8]
  have g: "granted (contested 1 2) 8 = 1" using c by (simp add: contested_def)
  have "filter (\<lambda>p. waitLockMode (procs jam p) = 8) (waitProcs (contested 1 2)) = [2]"
    by (simp add: jam_def contested_def backend_waiting_def)
  then have "requested (contested 1 2) 8 = 2" using c g by simp
  then show ?thesis using c g k jam_reachable by blast
qed

text \<open>
  C17. \<open>LockCheckConflicts\<close> decides by counting whether a process can get a mode: it can if and only if every other holder of a conflicting mode is in its lock group,
  or, for a process without a group, is a thread of the same stream query.
\<close>

theorem LockCheckConflicts_exact:
  assumes "lock_reachable sib mb s" "thread_ok sib th" "locks s l = Some k" "pl \<in> set (procLocks k)" "m \<in> {1..8}"
  shows "fst (LockCheckConflicts th s m l (myProc pl)) = STATUS_OK \<longleftrightarrow>
    (\<forall>other \<in> set (procLocks k). myProc other \<noteq> myProc pl \<longrightarrow> (\<exists>i. DoLockModesConflict m i \<and> bit (holdMask other) i) \<longrightarrow>
      (if in_lock_group th s pl then groupLeader other = groupLeader pl
       else (in_stream th \<or> has_backend_cursor_stream th) \<and> same_transaction th (myProc other) (myProc pl)))"
proof -
  note a = table_ok_at [OF lock_reachable_ok [OF assms(1)] assms(3)]
  have c: "counts_ok (procs s) None k" and d: "distinct (map myProc (procLocks k))" using a(1) by (auto simp: at_lock_def lock_ok_def)
  have irr: "\<not> same_transaction th q q" for q using assms(2) by (auto simp: thread_ok_def)
  have ne: "other \<noteq> pl \<longleftrightarrow> myProc other \<noteq> myProc pl" if "other \<in> set (procLocks k)" for other
    using that assms(4) d by (auto simp: distinct_map inj_on_def)
  show ?thesis
    unfolding LockCheckConflicts_ok_iff [OF assms(3) c d assms(4,5) irr] together_def IsInSameLockGroup_def blocked_by_def
      DoLockModesConflict_conflicts [symmetric]
    using ne by (auto split: if_splits)
qed

theorem LockCheckConflicts_exact_witness:
  "lock_reachable alone 10 jam \<and> thread_ok alone (backend_thread 2) \<and> locks jam (relation_tag 1) = Some (contested 1 2) \<and>
   fst (LockCheckConflicts (backend_thread 2) jam 8 (relation_tag 1) 2) \<noteq> STATUS_OK"
proof -
  let ?pl = "\<lparr>myProc = 2, groupLeader = 2, holdMask = 0\<rparr> :: PROCLOCK" and ?other = "\<lparr>myProc = 1, groupLeader = 1, holdMask = 256\<rparr> :: PROCLOCK"
  have k: "locks jam (relation_tag 1) = Some (contested 1 2)" by (simp add: jam_def)
  have pl: "?pl \<in> set (procLocks (contested 1 2))" "?other \<in> set (procLocks (contested 1 2))" by (simp_all add: contested_def)
  have m: "8 \<in> {1..8 :: nat}" by simp
  have "DoLockModesConflict 8 8 \<and> bit (holdMask ?other) 8" by (simp add: DoLockModesConflict_def exclusive_masks)
  then have bad: "myProc ?other \<noteq> myProc ?pl" "\<exists>i. DoLockModesConflict 8 i \<and> bit (holdMask ?other) i" by auto
  have alone: "\<not> in_stream (backend_thread 2)" "\<not> has_backend_cursor_stream (backend_thread 2)" "\<not> in_lock_group (backend_thread 2) jam ?pl"
    by (simp_all add: backend_thread_def in_lock_group_def jam_def backend_waiting_def backend_def)
  note iff = LockCheckConflicts_exact [OF jam_reachable backend_thread_ok [of 2] k pl(1) m]
  have "fst (LockCheckConflicts (backend_thread 2) jam 8 (relation_tag 1) (myProc ?pl)) \<noteq> STATUS_OK"
    unfolding iff using bad alone pl(2) by (metis (no_types, lifting))
  then show ?thesis using jam_reachable backend_thread_ok k by simp
qed





section \<open>Deadlocks\<close>

lemma jam_few_procs: "few_procs 10 jam"
proof -
  have "lock_users jam \<subseteq> {1, 2}"
    by (auto simp: lock_users_def jam_def contested_def leader_of_def backend_waiting_def backend_def split: if_splits)
  then have "finite (lock_users jam)" "card (lock_users jam) \<le> card {1, 2 :: procid}" using card_mono [of "{1, 2 :: procid}"] by (auto intro: finite_subset)
  then show ?thesis by (simp add: few_procs_def)
qed

lemma jam_ungrouped: "ungrouped jam"
  by (simp add: ungrouped_def jam_def backend_waiting_def backend_def)

text \<open>
  C14. The search for a deadlock ends, and finds one exactly if the lock group of the process is on a cycle of the waits-for graph, hard and soft edges together.
\<close>

theorem FindLockCycle_exact:
  assumes "lock_reachable sib mb s" "few_procs mb s" "links (procs s p)"
  shows "\<exists>c th'. FindLockCycle mb s [] p th = Inr (c, th') \<and> (c \<noteq> None \<longleftrightarrow> (leader_of s p, leader_of s p) \<in> (waits_for s [])\<^sup>+)"
proof -
  have ok: "locks_ok s" using lock_reachable_ok [OF assms(1)] by (simp add: table_ok_def)
  have "orders_perm s []" by (simp add: orders_perm_def)
  from FindLockCycle_total [OF ok this assms(2) waiting_user [OF ok assms(3)]]
  obtain c th' where c: "FindLockCycle mb s [] p th = Inr (c, th')" by blast
  then show ?thesis using FindLockCycle_iff(1) [OF c] by blast
qed

theorem FindLockCycle_exact_witness:
  "lock_reachable alone 10 jam \<and> few_procs 10 jam \<and> links (procs jam 2) \<and> (2, 2) \<in> (waits_for jam [])\<^sup>+ \<and>
   (\<exists>c th'. FindLockCycle 10 jam [] 2 (backend_thread 2) = Inr (Some c, th'))"
proof -
  have l: "links (procs jam 2)" by (simp add: jam_def backend_waiting_def)
  have ok: "locks_ok jam" using lock_reachable_ok [OF jam_reachable] by (simp add: table_ok_def)
  have "waits_for jam [] = wait_graph jam (queues jam)"
    using waits_for_graph [OF ok jam_ungrouped, of "[]"] by (simp add: orders_perm_def)
  moreover have "(2, 1) \<in> wait_graph jam (queues jam)" "(1, 2) \<in> wait_graph jam (queues jam)"
    by (simp_all add: wait_graph_def waits_on_def is_waiting_def jam_def backend_waiting_def lock_at_def contested_def blocked_by_def conflicts_def
        exclusive_masks exI [of _ 8])
  ultimately have c: "(2, 2) \<in> (waits_for jam [])\<^sup>+" by (metis trancl.simps)
  have "leader_of jam 2 = 2" using jam_ungrouped by simp
  then show ?thesis using FindLockCycle_exact [OF jam_reachable jam_few_procs l] c l jam_reachable jam_few_procs by fastforce
qed

text \<open>
  C18. The reordering of a wait queue: \<open>TopoSort\<close> gives an order of the same processes that meets the constraints, in which only processes that a constraint wants forward
  pass others, or finds that no order meets them.
\<close>

theorem TopoSort_correct:
  assumes "ungrouped s" "distinct (waitProcs (lock_at s l))"
  shows "case TopoSort s l cs of
      Some order \<Rightarrow> distinct order \<and> set order = set (waitProcs (lock_at s l)) \<and> satisfies cs (waitProcs (lock_at s l)) order \<and>
        (\<forall>x y. precedes (waitProcs (lock_at s l)) x y \<longrightarrow> precedes order y x \<longrightarrow> (\<exists>c \<in> set cs. waiter c = y \<and> blocker c \<in> set (waitProcs (lock_at s l))))
    | None \<Rightarrow> \<forall>xs. distinct xs \<longrightarrow> set xs = set (waitProcs (lock_at s l)) \<longrightarrow> \<not> satisfies cs (waitProcs (lock_at s l)) xs"
  using TopoSort_spec [OF assms, of cs] by (cases "TopoSort s l cs") auto

definition queue_of_three :: lock_space where
  "queue_of_three = idle_space\<lparr>locks := [relation_tag 1 \<mapsto> (held_by 9)\<lparr>waitProcs := [1, 2, 3]\<rparr>]\<rparr>"

theorem TopoSort_correct_witness:
  "ungrouped queue_of_three \<and> waitProcs (lock_at queue_of_three (relation_tag 1)) = [1, 2, 3] \<and>
   TopoSort queue_of_three (relation_tag 1) [\<lparr>waiter = 3, blocker = 1, awaited = relation_tag 1\<rparr>] = Some [3, 1, 2] \<and> precedes [3, 1, 2 :: nat] 3 1"
proof -
  let ?c = "\<lparr>waiter = 3, blocker = 1, awaited = relation_tag 1\<rparr> :: EDGE"
  have u: "ungrouped queue_of_three" by (simp add: ungrouped_def queue_of_three_def idle_space_def backend_def)
  have q: "waitProcs (lock_at queue_of_three (relation_tag 1)) = [1, 2, 3]" by (simp add: queue_of_three_def lock_at_def)
  then have d: "distinct (waitProcs (lock_at queue_of_three (relation_tag 1)))" by simp
  have r: "TopoSort queue_of_three (relation_tag 1) [?c] = Some [3, 1, 2]" by code_simp
  show ?thesis using TopoSort_correct [OF u d, of "[?c]"] u q r by (simp add: satisfies_def)
qed



text \<open>
  C2. Deadlocks are resolved: after the check the process is on no cycle of the waits-for graph, whether it was aborted, queues were reordered or nothing was done, and there is no
  cycle that was not there before. A process is aborted only if it was on a cycle. (Processes without lock groups.)
\<close>

theorem CheckDeadLock_resolves:
  assumes "lock_reachable sib mb s" "thread_ok sib th" "ungrouped s" "few_procs mb s"
  shows "\<exists>state th' s'. CheckDeadLock mb (th, s) = Inr (state, th', s') \<and> (me th, me th) \<notin> (wait_graph s' (queues s'))\<^sup>+ \<and>
    (\<forall>q. (q, q) \<in> (wait_graph s' (queues s'))\<^sup>+ \<longrightarrow> (q, q) \<in> (wait_graph s (queues s))\<^sup>+) \<and>
    (state = Some DS_HARD_DEADLOCK \<longrightarrow> (me th, me th) \<in> (wait_graph s (queues s))\<^sup>+)"
proof -
  note t = lock_reachable_ok [OF assms(1)]
  have ok: "locks_ok s" "groups_ok s" using t by (simp_all add: table_ok_def)
  obtain state th' s' where r: "CheckDeadLock mb (th, s) = Inr (state, th', s')" by (rule CheckDeadLock_total [OF ok assms(4)])
  show ?thesis using r CheckDeadLock_graph(1-3) [OF t assms(2-4) r] by blast
qed

theorem CheckDeadLock_resolves_witness:
  "lock_reachable alone 10 jam \<and> ungrouped jam \<and> few_procs 10 jam \<and>
   (\<exists>state th' s'. CheckDeadLock 10 (backend_thread 2, jam) = Inr (state, th', s') \<and> (2, 2) \<notin> (wait_graph s' (queues s'))\<^sup>+)"
  using CheckDeadLock_resolves [OF jam_reachable backend_thread_ok [of 2] jam_ungrouped jam_few_procs] jam_reachable jam_ungrouped jam_few_procs
  by auto

text \<open>
  C5. A process is aborted only when nothing else helps: if no more than \<open>MaxBackends\<close> pairs of waiters conflict, which is the room for constraints, then \<open>DS_HARD_DEADLOCK\<close>
  means that every order of every wait queue leaves a cycle. The backtracking search misses no solution. (Processes without lock groups.)
\<close>

theorem hard_deadlock_is_unavoidable:
  assumes "lock_reachable sib mb s" "thread_ok sib th" "ungrouped s" "few_procs mb s" "card (conflicting_pairs s) \<le> mb"
    "CheckDeadLock mb (th, s) = Inr (Some DS_HARD_DEADLOCK, th', s')" "arrangement s f"
  shows "\<not> acyclic (wait_graph s f)"
  by (rule CheckDeadLock_graph(4) [OF lock_reachable_ok [OF assms(1)] assms(2-4,6) refl assms(5,7)])

theorem hard_deadlock_is_unavoidable_witness:
  "lock_reachable alone 10 jam \<and> ungrouped jam \<and> few_procs 10 jam \<and> card (conflicting_pairs jam) \<le> 10 \<and>
   (\<exists>th' s'. CheckDeadLock 10 (backend_thread 2, jam) = Inr (Some DS_HARD_DEADLOCK, th', s')) \<and> arrangement jam (queues jam) \<and>
   \<not> acyclic (wait_graph jam (queues jam))"
proof -
  have ok: "locks_ok jam" using lock_reachable_ok [OF jam_reachable] by (simp add: table_ok_def)
  have "conflicting_pairs jam = {}"
    by (auto simp: conflicting_pairs_def is_waiting_def jam_def backend_waiting_def backend_def split: if_splits)
  then have few: "card (conflicting_pairs jam) \<le> 10" by simp
  have "case CheckDeadLock 10 (backend_thread 2, jam) of Inl e \<Rightarrow> False | Inr (state, ts) \<Rightarrow> state = Some DS_HARD_DEADLOCK" by code_simp
  then obtain th' s' where r: "CheckDeadLock 10 (backend_thread 2, jam) = Inr (Some DS_HARD_DEADLOCK, th', s')"
    by (cases "CheckDeadLock 10 (backend_thread 2, jam)") auto
  have f: "arrangement jam (queues jam)" using queue_distinct [OF ok] by (simp add: arrangement_def)
  show ?thesis
    using hard_deadlock_is_unavoidable [OF jam_reachable backend_thread_ok jam_ungrouped jam_few_procs few r f]
      jam_reachable jam_ungrouped jam_few_procs few r f by blast
qed

section \<open>Two oddities\<close>

text \<open>
  \<open>LockCheckConflicts\<close> decides whether the lock group or the stream query counts by the process that runs the check, not by the one whose request it is. A stream thread that conflicts only
  with its own query gets the lock when it checks itself, but when somebody else looks for processes to wake, its companions are in the way.
\<close>

definition stream_companion :: "procid \<Rightarrow> procid \<Rightarrow> bool" where
  "stream_companion p q \<longleftrightarrow> (p, q) \<in> {(1, 2), (2, 1)}"

definition stream_thread :: "procid \<Rightarrow> lock_thread" where
  "stream_thread i = (backend_thread i)\<lparr>in_stream := True, same_transaction := stream_companion\<rparr>"

lemma waker_ignores_stream_query:
  "fst (LockCheckConflicts (stream_thread 2) jam 8 (relation_tag 1) 2) = STATUS_OK"
  "fst (LockCheckConflicts (stream_thread 3) jam 8 (relation_tag 1) 2) = STATUS_FOUND"
  by code_simp+

text \<open>
  For a member of a lock group that is not its leader, the scan of a proposed order does not stop at the group, since it compares the leaders of the processes met with the member itself.
  The member is taken to wait for itself, where the actual queue has no such edge.
\<close>

definition grouped_waiter :: lock_space where
  "grouped_waiter = \<lparr>procs = backend(1 := (backend 1)\<lparr>lockGroupLeader := Some 1, lockGroupMembers := [1, 4]\<rparr>,
       4 := (backend_waiting 4 (relation_tag 1))\<lparr>lockGroupLeader := Some 1\<rparr>),
     locks = [relation_tag 1 \<mapsto> (contested 9 4)\<lparr>procLocks := [\<lparr>myProc = 9, groupLeader = 9, holdMask = 256\<rparr>, \<lparr>myProc = 4, groupLeader = 1, holdMask = 0\<rparr>]\<rparr>]\<rparr>"

lemma member_waits_for_itself:
  "map (arc_node grouped_waiter) (wait_arcs grouped_waiter [] 1) = [9]"
  "map (arc_node grouped_waiter) (wait_arcs grouped_waiter [(relation_tag 1, [4])] 1) = [9, 1]"
  by code_simp+

end
