(* ===== verification/Spec2Isabelle.thy ===== *)
theory Spec2Isabelle
  imports Bitmapsets Binary_Heap Free_Space MVCC Reorder_Buffer Session_Reads Lock_Manager
begin

text \<open>
  \<^bold>\<open>openGauss: verification of core components.\<close>

  openGauss is a relational database server. A session sends statements; \<open>exec_simple_query\<close> (\<open>tcop/postgres.cpp\<close>) runs
  each between \<open>StartTransactionCommand\<close> and \<open>CommitTransactionCommand\<close> of the transaction block state machine
  (\<open>access/transam/xact.cpp\<close>). Statements write rows under the transaction id of the innermost open (sub)transaction; which
  rows a statement sees is decided row by row from the tuple header, the commit log, the commit sequence numbers and a
  snapshot (\<open>access/heap/heapam_visibility.cpp\<close>, \<open>utils/time/snapmgr.cpp\<close>). New rows go to blocks that the free space map
  names (\<open>storage/freespace\<close>). Statements lock the objects they use in a table in shared memory (\<open>storage/lmgr/lock.cpp\<close>), wait for conflicting
  locks in queues (\<open>proc.cpp\<close>), and after a timeout look for deadlocks and resolve them (\<open>deadlock.cpp\<close>). Logical replication replays committed transactions from the WAL through the reorder buffer
  (\<open>replication/logical/reorderbuffer.cpp\<close>). Bitmap sets and the binary heap are containers used all over the server.
  Paths below are under \<open>src/src\<close>; \<open>gk\<close> is \<open>gausskernel\<close>.

  \<^bold>\<open>Conventions\<close> (Prelude). C integers are words of their width where the code can wrap (\<open>uint32\<close>, \<open>uint64\<close>), naturals for
  indices into arrays. \<open>ereport(ERROR)\<close> is the left side of the sum type \<open>result\<close>. Loops are \<open>for_loop\<close>s, structural recursion or
  functions with a measure; a loop that may not end has the value \<open>None\<close>. Assertions are not part of the model: where a proof
  needs one, it is a proved invariant.

  \<^bold>\<open>Theories, code and what is shown\<close>

  \<^descr> Bitutils (\<open>common/port/pg_bitutils.cpp\<close>): the byte tables and the loops over words; each finds the
  highest, the lowest, or the number of the one-bits.

  \<^descr> Set_Interface, Bitmapsets (\<open>common/backend/nodes/bitmapset.cpp\<close>): a bitmap set is \<open>None\<close> or a list of 64-bit words;
  \<open>bms_members\<close> is the set it stands for. Every operation implements the set operation of its name, the recycling variants
  too; \<open>bms_next_member\<close> enumerates the members in order and ends. The locales \<open>set_ops\<close> and \<open>set_iteration\<close> say what clients use, and are
  interpreted on the code.

  \<^descr> Binary_Heap (\<open>common/backend/lib/binaryheap.cpp\<close>): the array with \<open>bh_size\<close> and \<open>bh_has_heap_property\<close>; the comparator is a
  parameter, and the locale \<open>heap_order\<close> says it is a total preorder. Sifting re-establishes the heap property, removing the first yields a
  maximum, build and drain sort, a full heap is an error.

  \<^descr> FSM_Page, Free_Space (\<open>gk/storage/freespace/fsmpage.cpp\<close>, \<open>freespace.cpp\<close>): a page is its node array and \<open>fp_next_slot\<close>, the fork a
  list of pages. A page search finds a slot iff there is one and repairs torn pages; the search over the three
  levels returns (it restarts at most 10001 times, as the code has it) and only returns blocks recorded with enough space; after
  vacuum it is complete. Addresses are one to one at 32 bits. The locale \<open>slot_page\<close> is what the relation level uses of a page.

  \<^descr> Tuple_Header, Visibility_Checks, Visibility (\<open>include/access/htup.h\<close>, \<open>transam.h\<close>, \<open>combocid.cpp\<close>,
  \<open>heapam_visibility.cpp\<close>): a tuple header with its infomask bits, hint bits, combo command ids, and the routines for Self, Now, Any, Toast,
  Dirty, Update and Vacuum. The logs and the process array are a record of answers, \<open>xact_env\<close>. Each routine decides a condition that does not mention
  hint bits, provided the hint bits tell the truth (\<open>hints_ok\<close>) and the ids of the current transaction are running ones (\<open>own_ok\<close>),
  and sets only true hint bits.

  \<^descr> MVCC_Checks, MVCC (\<open>snapmgr.cpp\<close>, the MVCC part of \<open>heapam_visibility.cpp\<close>): the tests of an id against a snapshot can wait for
  another transaction; the moments the code looks at the system are a list of \<open>xact_env\<close>s, and they use at most two of them. \<open>HeapTupleSatisfiesMVCC\<close>
  refines \<open>visible_mvcc\<close>, visibility by commit sequence number, under \<open>csn_settled\<close> (the CSN log agrees with the commit log and nobody is in
  the middle of a commit); its answer is stable under later commits; the time-capsule checks restore a snapshot; the
  decoding checks and their differences.

  \<^descr> Reorder_Buffer (\<open>gk/storage/replication/logical/reorderbuffer.cpp\<close>): queues, spilling by WAL segment, reading back in batches, and the
  merge over a transaction and its subtransactions by the binary heap (\<open>heap_order\<close> interpreted on \<open>ReorderBufferIterCompare\<close>). The
  iterator gives the changes in WAL order, each once, and then ends: \<open>iter_changes n\<close> calls it \<open>n\<close> times, and \<open>n\<close>
  above the number of changes is enough.

  \<^descr> Xact_State, Xact_Block (\<open>gk/storage/access/transam/xact.cpp\<close>, \<open>tcop/utility.cpp\<close>, \<open>tcop/postgres.cpp\<close>): the stack
  \<open>TransactionStateData list\<close>, transaction ids, command ids, what the commit log learns, and every block command. An error unwinds to the handler of
  the statement loop, \<open>AbortCurrentTransaction\<close>; FATAL ends the session. Commands on deep stacks recurse on the length of the stack.

  \<^descr> Transactions, Savepoints, Nested_Transactions: a session survives every sequence of statements and errors and ends each in
  one of the states its status code names; with \<open>room\<close> (ids left below wraparound, command ids left, fewer than \<open>MaxChildXids\<close>
  children) and \<open>served\<close> statements it implements \<open>db_spec\<close>, nested transactions as lists of levels. An id is at most one of open, committed, aborted and prepared, and
  the binary search for own ids is right because ids stay ordered.

  \<^descr> Session_Reads: both halves together: the rows that \<open>HeapTupleSatisfiesSelf\<close> shows a session are the durable ones
  and those of its open levels.

  \<^descr> Lock_Table (\<open>gk/storage/lmgr/lock.cpp\<close>, \<open>proc.cpp\<close>, \<open>include/storage/lock/lock.h\<close>, \<open>proc.h\<close>, \<open>stream/streamCore.cpp\<close>): the state is \<open>lock_space\<close>, the
  processes and, by tag, the locks with their holders (\<open>PROCLOCK\<close>), wait queue, counts and masks; the thread that runs an operation is a \<open>lock_thread\<close>. \<open>acquire_shared\<close> is
  \<open>LockAcquireExtendedXC\<close> from \<open>SetupLockInTable\<close> to the grant, the refusal or the sleep of \<open>ProcSleep\<close>; \<open>release_shared\<close> and \<open>LockReleaseAll\<close> are the parts of
  \<open>LockRelease\<close> and \<open>LockReleaseAll\<close> that work on the shared table. They run under the partition lock, so each is one step.

  \<^descr> Lock_Invariants, Lock_Safety, Lock_Acquire, Lock_Release: the invariant \<open>table_ok\<close>: counts and masks agree with holders and waiters, granted locks are compatible, and
  whoever waits has somebody in the way. \<open>at_lock\<close> is its form in the middle of an operation, with a request entered and not yet granted. Every operation keeps it.

  \<^descr> Deadlock_Check (\<open>gk/storage/lmgr/deadlock.cpp\<close>, \<open>CheckDeadLock\<close> of \<open>proc.cpp\<close>): the search for a cycle, \<open>TopoSort\<close>, and the backtracking search for an order of the queues. Work areas
  are values. \<open>MaxBackends\<close> bounds the processes visited, so that the recursion of \<open>FindLockCycleRecurse\<close> is at most \<open>MaxBackends + 1\<close> deep, and the constraints,
  so that \<open>DeadLockCheckRecurse\<close> is at most \<open>MaxBackends\<close> deep; running out of either is an error or the answer of the code.

  \<^descr> Deadlock_Search, Wait_Orders, Deadlock_Total, Deadlock_Freedom, Deadlock_Resolution: the search is a depth-first search of the waits-for graph and finds a cycle iff there is
  one; \<open>TopoSort\<close> gives a permutation that meets the constraints iff there is one; with at most \<open>MaxBackends\<close> lock groups in use (\<open>few_procs\<close>) the check always answers; for
  processes without lock groups (\<open>ungrouped\<close>) it removes the cycles through the process, adds none, and finds an order without deadlock if there is one, provided that at most \<open>MaxBackends\<close> pairs of waiters
  conflict. With lock groups the code can take a group to wait for itself (\<open>member_waits_for_itself\<close>), so that these do not hold there.

  \<^descr> Lock_Steps, Lock_Examples, Lock_Manager: the lock manager as a transition system \<open>lock_step\<close>; the locale \<open>invariant_system\<close> is interpreted on it with \<open>table_ok\<close>, and the
  properties are stated for reachable states. Threads are \<open>thread_ok\<close>: they agree on a symmetric relation between the threads of stream queries, as the answers of
  \<open>IsInSameTransaction\<close> do (\<open>IsInSameTransaction_thread_ok\<close>), and ask for modes they do not hold yet and while not waiting (\<open>may_request\<close>), which the thread's own table sees to.

  \<^bold>\<open>Not modelled\<close>: SQL parsing, planning and execution (generated code and search over catalog data); page I/O,
  buffers and WAL; the process and thread machinery; replication transport; data types, procedural
  languages, clients and tools; within the modelled parts the distributed build, memory and statistics
  accounting, log output, and lightweight locks: every routine is one atomic step except the snapshot tests, which wait. Of the lock manager: the fast path for weak
  locks, the per-backend table of locks held and its counts, hash codes and partitions, semaphores, the signals that cancel other processes, timeouts (a step \<open>give_up\<close> stands for
  their effect on the queue), locks in shared storage, two-phase locks, leaving a lock group, and the texts of messages.
\<close>

end
